(* ===== verification/Prelude.thy ===== *)
theory Prelude
  imports Main "HOL-Library.Word"
begin

text \<open>
  Shared material of the development: the fixed-width types of the 32-bit target, the error
  values of the kernel's macros, ring-buffer segments (used by the object pool, the semaphore's
  waiter ring, the keyboard event ring and the pipe), and the interface of a bounded FIFO
  queue with the facts a client may use.
\<close>

section \<open>Types and error values\<close>

type_synonym u8 = "8 word"
type_synonym u16 = "16 word"
type_synonym u32 = "32 word"

text \<open>
  Pointers are natural numbers, the null pointer is 0.  The failure macros of
  \<^verbatim>\<open>klib.h\<close> and \<^verbatim>\<open>macros.h\<close> stop the machine: \<open>Assert\<close>, \<open>panic\<close>, \<open>TODO\<close>, \<open>BARRIER\<close>;
  a model returns them as the left side of a sum.
\<close>

type_synonym ptr = nat

abbreviation (input) NULL :: ptr where
  "NULL \<equiv> 0"

datatype kerror = AssertFail | Panic | Todo | Barrier | NullDeref | WildAccess

type_synonym 'a result = "kerror + 'a"

text \<open>The next call is made only if the one before did not stop the machine.\<close>

fun and_then :: "'a result \<Rightarrow> ('a \<Rightarrow> 'b result) \<Rightarrow> 'b result" where
  "and_then (Inl e) f = Inl e"
| "and_then (Inr x) f = f x"

text \<open>The flags of an open file, \<^verbatim>\<open>kernel/include/vfs.h\<close>.\<close>

definition O_RDONLY :: nat where "O_RDONLY = 0x01"
definition O_WRONLY :: nat where "O_WRONLY = 0x02"
definition O_CREATE :: nat where "O_CREATE = 0x04"
definition O_DIRECTORY :: nat where "O_DIRECTORY = 0x08"
definition O_APPEND :: nat where "O_APPEND = 0x10"

named_theorems ring_simps \<open>facts on segments of ring buffers\<close>

text \<open>
  Where a model keeps 32-bit quantities as natural numbers, sums and differences are taken
  modulo \<open>2 ^ 32\<close> by these two functions.
\<close>

definition add32 :: "nat \<Rightarrow> nat \<Rightarrow> nat" where
  "add32 a b = (a + b) mod 2 ^ 32"

definition sub32 :: "nat \<Rightarrow> nat \<Rightarrow> nat" where
  "sub32 a b = (a + (2 ^ 32 - b mod 2 ^ 32)) mod 2 ^ 32"

lemma add32_eq: "a + b < 2 ^ 32 \<Longrightarrow> add32 a b = a + b"
  by (simp add: add32_def)

lemma sub32_eq: "b \<le> a \<Longrightarrow> a < 2 ^ 32 \<Longrightarrow> sub32 a b = a - b"
proof -
  assume "b \<le> a" "a < 2 ^ 32"
  then have "a + (2 ^ 32 - b mod 2 ^ 32) = (a - b) + 2 ^ 32" by simp
  then show ?thesis using \<open>a < 2 ^ 32\<close> by (simp add: sub32_def)
qed

section \<open>Segments of a ring buffer\<close>

text \<open>
  The \<open>k\<close> cells of the array \<open>buf\<close> that start at index \<open>h\<close>, wrapping at its end.
\<close>

definition ring_seg :: "'a list \<Rightarrow> nat \<Rightarrow> nat \<Rightarrow> 'a list" where
  "ring_seg buf h k = map (\<lambda>i. buf ! ((h + i) mod length buf)) [0..<k]"

lemma length_ring_seg [simp]: "length (ring_seg buf h k) = k"
  by (simp add: ring_seg_def)

lemma ring_seg_0 [simp]: "ring_seg buf h 0 = []"
  by (simp add: ring_seg_def)

lemma ring_seg_nth [ring_simps]:
  "i < k \<Longrightarrow> ring_seg buf h k ! i = buf ! ((h + i) mod length buf)"
  by (simp add: ring_seg_def)

lemma ring_seg_Suc: "ring_seg buf h (Suc k) = ring_seg buf h k @ [buf ! ((h + k) mod length buf)]"
  by (simp add: ring_seg_def)

lemma ring_seg_Cons:
  "ring_seg buf h (Suc k) = buf ! (h mod length buf) # ring_seg buf (Suc h) k"
  by (rule nth_equalityI) (auto simp: ring_seg_def nth_Cons' simp del: upt_Suc split: if_splits)

lemma ring_seg_mod [simp]: "ring_seg buf (h mod length buf) k = ring_seg buf h k"
  by (simp add: ring_seg_def mod_add_left_eq)

lemma ring_seg_hd_tl:
  assumes "0 < k"
  shows "hd (ring_seg buf h k) = buf ! (h mod length buf)"
    and "tl (ring_seg buf h k) = ring_seg buf (Suc h) (k - 1)"
  using assms by (cases k; simp add: ring_seg_Cons)+

lemma mod_add_neq:
  fixes h i j n :: nat
  assumes "i < j" "j < n"
  shows "(h + i) mod n \<noteq> (h + j) mod n"
proof
  assume "(h + i) mod n = (h + j) mod n"
  then have "(h + j - (h + i)) mod n = 0"
    using assms by (metis add_le_mono le_refl less_imp_le mod_eq_dvd_iff_nat dvd_imp_mod_0)
  with assms show False by simp
qed

lemma ring_seg_update_end [ring_simps]:
  assumes "k < length buf"
  shows "ring_seg (buf[(h + k) mod length buf := x]) h k = ring_seg buf h k"
proof -
  have "(h + k) mod length buf \<noteq> (h + i) mod length buf" if "i < k" for i
    using mod_add_neq [OF that assms, of h] by simp
  then show ?thesis
    by (auto simp: ring_seg_def intro!: nth_equalityI)
qed

lemma ring_seg_push [ring_simps]:
  assumes "k < length buf"
  shows "ring_seg (buf[(h + k) mod length buf := x]) h (Suc k) = ring_seg buf h k @ [x]"
proof -
  have "(h + k) mod length buf < length buf" using assms by (intro mod_less_divisor) linarith
  then show ?thesis using assms by (simp add: ring_seg_Suc ring_seg_update_end)
qed

text \<open>The number of cells between two indices of a ring of \<open>n\<close> cells, the tail excluded.\<close>

definition ring_dist :: "nat \<Rightarrow> nat \<Rightarrow> nat \<Rightarrow> nat" where
  "ring_dist n h t = (t + n - h) mod n"

lemma ring_dist_less [simp]: "0 < n \<Longrightarrow> ring_dist n h t < n"
  by (simp add: ring_dist_def)

lemma ring_dist_refl [simp]: "ring_dist n h h = 0"
  by (simp add: ring_dist_def)

lemma ring_dist_eq_0: "h < n \<Longrightarrow> t < n \<Longrightarrow> ring_dist n h t = 0 \<longleftrightarrow> h = t"
  by (cases "h \<le> t") (auto simp: ring_dist_def mod_if)

lemma ring_dist_head: "h < n \<Longrightarrow> t < n \<Longrightarrow> (h + ring_dist n h t) mod n = t"
  by (auto simp: ring_dist_def mod_if)

lemma ring_dist_push:
  assumes "h < n" "t < n" "Suc t mod n \<noteq> h"
  shows "ring_dist n h (Suc t mod n) = Suc (ring_dist n h t)"
  using assms by (auto simp: ring_dist_def mod_if split: if_splits)

lemma ring_dist_pop:
  assumes "h < n" "t < n" "h \<noteq> t"
  shows "Suc (ring_dist n (Suc h mod n) t) = ring_dist n h t"
  using assms by (auto simp: ring_dist_def mod_if split: if_splits)

lemma ring_full_dist:
  assumes "h < n" "t < n" "Suc t mod n = h"
  shows "ring_dist n h t = n - 1"
  using assms by (auto simp: ring_dist_def mod_if split: if_splits)

section \<open>The interface of a bounded FIFO queue\<close>

datatype 'a fifo_op = Enq 'a | Deq

text \<open>
  A history of operations: \<open>enq\<close> answers \<open>None\<close> when the caller has to wait, \<open>deq\<close> answers
  \<open>None\<close> when there is nothing.  The run collects what was accepted and what was delivered.
\<close>

fun fifo_run :: "('q \<Rightarrow> 'a \<Rightarrow> 'q option) \<Rightarrow> ('q \<Rightarrow> ('a \<times> 'q) option) \<Rightarrow> 'q \<Rightarrow> 'a fifo_op list
    \<Rightarrow> 'q \<times> 'a list \<times> 'a list" where
  "fifo_run enq deq q [] = (q, [], [])"
| "fifo_run enq deq q (Enq x # ops) =
     (case enq q x of
        None \<Rightarrow> fifo_run enq deq q ops
      | Some q' \<Rightarrow> (case fifo_run enq deq q' ops of (r, ins, outs) \<Rightarrow> (r, x # ins, outs)))"
| "fifo_run enq deq q (Deq # ops) =
     (case deq q of
        None \<Rightarrow> fifo_run enq deq q ops
      | Some (x, q') \<Rightarrow> (case fifo_run enq deq q' ops of (r, ins, outs) \<Rightarrow> (r, ins, x # outs)))"

locale bounded_fifo =
  fixes enq :: "'q \<Rightarrow> 'a \<Rightarrow> 'q option"
    and deq :: "'q \<Rightarrow> ('a \<times> 'q) option"
    and contents :: "'q \<Rightarrow> 'a list"
    and invar :: "'q \<Rightarrow> bool"
    and cap :: nat
  assumes enq_Some: "invar q \<Longrightarrow> enq q x = Some q' \<Longrightarrow> invar q' \<and> contents q' = contents q @ [x]"
    and enq_None: "invar q \<Longrightarrow> enq q x = None \<longleftrightarrow> length (contents q) = cap"
    and deq_Some: "invar q \<Longrightarrow> deq q = Some (x, q') \<Longrightarrow> invar q' \<and> contents q = x # contents q'"
    and deq_None: "invar q \<Longrightarrow> deq q = None \<longleftrightarrow> contents q = []"
    and contents_cap: "invar q \<Longrightarrow> length (contents q) \<le> cap"
begin

lemma run_invar:
  "invar q \<Longrightarrow> fifo_run enq deq q ops = (r, ins, outs) \<Longrightarrow> invar r"
proof (induction ops arbitrary: q r ins outs)
  case (Cons op ops)
  then show ?case
    by (cases op) (fastforce split: option.splits prod.splits dest: enq_Some deq_Some)+
qed simp

lemma run_fifo:
  "invar q \<Longrightarrow> fifo_run enq deq q ops = (r, ins, outs) \<Longrightarrow>
   contents q @ ins = outs @ contents r"
proof (induction ops arbitrary: q r ins outs)
  case (Cons op ops)
  show ?case
  proof (cases op)
    case (Enq x)
    show ?thesis
    proof (cases "enq q x")
      case None
      with Cons Enq show ?thesis by simp
    next
      case (Some q')
      with Cons.prems Enq obtain ins' where run: "fifo_run enq deq q' ops = (r, ins', outs)"
        and ins: "ins = x # ins'"
        by (auto split: prod.splits)
      have q': "invar q'" "contents q' = contents q @ [x]"
        using enq_Some [OF Cons.prems(1) Some] by auto
      from Cons.IH [OF q'(1) run] q'(2) ins show ?thesis by simp
    qed
  next
    case Deq
    show ?thesis
    proof (cases "deq q")
      case None
      with Cons Deq show ?thesis by simp
    next
      case (Some a)
      obtain x q' where a: "a = (x, q')" by (cases a)
      with Some Cons.prems Deq obtain outs' where run: "fifo_run enq deq q' ops = (r, ins, outs')"
        and outs: "outs = x # outs'"
        by (auto split: prod.splits)
      have q': "invar q'" "contents q = x # contents q'"
        using deq_Some [OF Cons.prems(1) Some [unfolded a]] by auto
      from Cons.IH [OF q'(1) run] q'(2) outs show ?thesis by simp
    qed
  qed
qed simp

lemma run_balance:
  "invar q \<Longrightarrow> fifo_run enq deq q ops = (r, ins, outs) \<Longrightarrow>
   length (contents r) + length outs = length (contents q) + length ins \<and>
   length (contents r) \<le> cap"
  using arg_cong [OF run_fifo, of q ops r ins outs length] run_invar contents_cap
  by (fastforce simp: add.commute)

lemma run_prefix:
  "invar q \<Longrightarrow> contents q = [] \<Longrightarrow> fifo_run enq deq q ops = (r, ins, outs) \<Longrightarrow>
   outs = take (length outs) ins"
  using run_fifo by fastforce

end

end
