(* ===== verification/Alloc.thy ===== *)
theory Alloc
  imports Prelude
begin

text \<open>
  The physical memory manager of \<^verbatim>\<open>kernel/src/alloc.c\<close>: one free list per processor, a
  first-fit search that splits or unlinks a block, a global remainder that hands out pages,
  and address-ordered insertion with coalescing on \<open>free\<close>.

  Headers live in a store from addresses to header records, payload bytes in a byte store;
  addresses and sizes are 32-bit quantities (\<open>add32\<close>, \<open>sub32\<close>).  A loop over a linked list is a
  \<^theory_text>\<open>partial_function\<close> into \<open>option\<close>, so a cyclic list is the value \<open>None\<close>.
\<close>

section \<open>State\<close>

definition HDR :: nat where  \<comment> \<open>\<^verbatim>\<open>sizeof(header)\<close>, also the offset of \<^verbatim>\<open>space\<close>\<close>
  "HDR = 16"

definition PG_SIZE :: nat where
  "PG_SIZE = 8 * 1024"

definition FENCE_LIVE :: nat where
  "FENCE_LIVE = 0x13579ace"

definition FENCE_FREED :: nat where
  "FENCE_FREED = 0xeca97531"

record header =
  h_next :: ptr
  h_size :: nat
  h_fence :: nat

datatype pmm_msg = No_free_space | Fence_changed ptr nat

record pmm =
  pm_start :: nat
  pm_end :: nat
  pm_fl :: ptr  \<comment> \<open>address of the array \<^verbatim>\<open>free_list\<close>\<close>
  pm_global :: ptr
  pm_hdr :: "ptr \<Rightarrow> header"
  pm_bytes :: "ptr \<Rightarrow> u8"
  pm_alloc_cnt :: nat
  pm_free_cnt :: nat
  pm_printed :: "pmm_msg list"

definition fl :: "pmm \<Rightarrow> nat \<Rightarrow> ptr" where
  "fl s cpu = pm_fl s + HDR * cpu"

definition upd_hdr :: "ptr \<Rightarrow> (header \<Rightarrow> header) \<Rightarrow> pmm \<Rightarrow> pmm" where
  "upd_hdr a f s = s\<lparr>pm_hdr := (pm_hdr s)(a := f (pm_hdr s a))\<rparr>"

definition align :: "nat \<Rightarrow> nat \<Rightarrow> nat" where
  "align a b = sub32 (add32 a b) 1 div b * b"

section \<open>Operations\<close>

fun init_sentinels :: "nat \<Rightarrow> pmm \<Rightarrow> pmm" where
  "init_sentinels 0 s = s"
| "init_sentinels (Suc i) s =
     (let s' = init_sentinels i s
      in upd_hdr (fl s' i) (\<lambda>h. h\<lparr>h_next := fl s' i, h_size := 0\<rparr>) s')"

definition pmm_init :: "nat \<Rightarrow> nat \<Rightarrow> nat \<Rightarrow> pmm \<Rightarrow> pmm" where
  "pmm_init cpu_cnt heap_start heap_end s0 =
     (let s = init_sentinels cpu_cnt
                (s0\<lparr>pm_start := align heap_start PG_SIZE, pm_end := heap_end\<rparr>);
          g = pm_start s
      in upd_hdr g
           (\<lambda>h. h\<lparr>h_next := g, h_size := sub32 (sub32 (pm_end s) (pm_start s)) HDR\<rparr>)
           (s\<lparr>pm_global := g\<rparr>))"

definition global_alloc_real :: "pmm \<Rightarrow> nat \<Rightarrow> ptr \<times> pmm" where
  "global_alloc_real s sz =
     (let g = pm_global s; gs = h_size (pm_hdr s g)
      in if gs > add32 sz HDR then
           (sub32 (add32 g gs) sz,
            upd_hdr g (\<lambda>h. h\<lparr>h_size := sub32 gs (add32 sz HDR)\<rparr>) s)
         else (NULL, s\<lparr>pm_printed := pm_printed s @ [No_free_space]\<rparr>))"

text \<open>\<^verbatim>\<open>global_alloc\<close> is \<^verbatim>\<open>global_alloc_real\<close> between lock and unlock: one atomic step.\<close>

definition global_alloc :: "pmm \<Rightarrow> nat \<Rightarrow> ptr \<times> pmm" where
  "global_alloc s sz = global_alloc_real s sz"

text \<open>
  The inner \<open>for\<close> loop of \<^verbatim>\<open>kalloc_real\<close>: it either returns a block, or ends at the sentinel,
  leaving the last node in \<open>prevp\<close>.
\<close>

datatype search = Fit ptr pmm | NoFit ptr

partial_function (option) kalloc_for :: "pmm \<Rightarrow> ptr \<Rightarrow> nat \<Rightarrow> ptr \<Rightarrow> ptr \<Rightarrow> search option" where
  "kalloc_for s sent sz p prevp =
     (if p = sent then Some (NoFit prevp)
      else if add32 sz HDR \<le> h_size (pm_hdr s p) then
        (let ret = sub32 (add32 p (h_size (pm_hdr s p))) sz;
             s1 = upd_hdr p (\<lambda>h. h\<lparr>h_size := sub32 (h_size h) (add32 sz HDR)\<rparr>) s
         in Some (Fit ret (upd_hdr ret (\<lambda>h. h\<lparr>h_size := sz\<rparr>) s1)))
      else if sz \<le> h_size (pm_hdr s p) then
        Some (Fit p (upd_hdr prevp (\<lambda>h. h\<lparr>h_next := h_next (pm_hdr s p)\<rparr>) s))
      else kalloc_for s sent sz (h_next (pm_hdr s p)) p)"

partial_function (option) kalloc_while :: "pmm \<Rightarrow> ptr \<Rightarrow> nat \<Rightarrow> ptr \<Rightarrow> (ptr \<times> pmm) result option" where
  "kalloc_while s sent sz prevp =
     Option.bind (kalloc_for s sent sz (h_next (pm_hdr s sent)) prevp) (\<lambda>r. case r of
         Fit ret s' \<Rightarrow> Some (Inr (ret, s'))
       | NoFit prevp' \<Rightarrow>
           (let needed = (if sz > PG_SIZE then sz else PG_SIZE);
                (g, s1) = global_alloc s needed;
                s2 = upd_hdr prevp' (\<lambda>h. h\<lparr>h_next := g\<rparr>) s1
            in if g = NULL then Some (Inl AssertFail)
               else kalloc_while (upd_hdr g (\<lambda>h. h\<lparr>h_next := sent, h_size := needed\<rparr>) s2)
                      sent sz prevp'))"

definition kalloc_real :: "pmm \<Rightarrow> nat \<Rightarrow> nat \<Rightarrow> (ptr \<times> pmm) result option" where
  "kalloc_real s cpu sz = kalloc_while s (fl s cpu) (align sz 0x10) (fl s cpu)"

definition memset0 :: "ptr \<Rightarrow> nat \<Rightarrow> (ptr \<Rightarrow> u8) \<Rightarrow> (ptr \<Rightarrow> u8)" where
  "memset0 a n m = (\<lambda>x. if a \<le> x \<and> x < a + n then 0 else m x)"

definition kalloc :: "pmm \<Rightarrow> nat \<Rightarrow> nat \<Rightarrow> (ptr \<times> pmm) result option" where
  "kalloc s cpu sz =
     Option.bind (kalloc_real s cpu sz) (\<lambda>r. case r of
         Inl e \<Rightarrow> Some (Inl e)
       | Inr (p, s1) \<Rightarrow>
           (let s2 = upd_hdr p (\<lambda>h. h\<lparr>h_fence := FENCE_LIVE\<rparr>) s1;
                s3 = s2\<lparr>pm_alloc_cnt := add32 (pm_alloc_cnt s2) (h_size (pm_hdr s2 p))\<rparr>;
                sp = add32 p HDR
            in Some (Inr (sp, s3\<lparr>pm_bytes := memset0 sp sz (pm_bytes s3)\<rparr>))))"

text \<open>The \<open>for\<close> loop of \<^verbatim>\<open>kfree_real\<close>: the first node whose payload lies above \<open>ptr\<close>.\<close>

partial_function (option) kfree_for :: "pmm \<Rightarrow> ptr \<Rightarrow> ptr \<Rightarrow> ptr \<Rightarrow> ptr \<Rightarrow> (ptr \<times> ptr) option" where
  "kfree_for s sent p_free p prevp =
     (if p = sent then Some (prevp, p)
      else if p_free < add32 p HDR then Some (prevp, p)
      else kfree_for s sent p_free (h_next (pm_hdr s p)) p)"

definition kfree_real :: "pmm \<Rightarrow> nat \<Rightarrow> ptr \<Rightarrow> pmm option" where
  "kfree_real s cpu p_free =
     (let sent = fl s cpu;
          to_free = sub32 p_free HDR;
          s1 = (if h_fence (pm_hdr s to_free) \<noteq> FENCE_LIVE
                then s\<lparr>pm_printed := pm_printed s @
                        [Fence_changed to_free (h_fence (pm_hdr s to_free))]\<rparr>
                else s);
          s2 = upd_hdr to_free (\<lambda>h. h\<lparr>h_fence := FENCE_FREED\<rparr>) s1
      in Option.bind (kfree_for s2 sent p_free (h_next (pm_hdr s2 sent)) sent) (\<lambda>(prevp, p).
           let (tf, s3) =
                 (if to_free = add32 (add32 prevp HDR) (h_size (pm_hdr s2 prevp)) then
                    (prevp, upd_hdr prevp
                       (\<lambda>h. h\<lparr>h_size := add32 (h_size h) (add32 HDR (h_size (pm_hdr s2 to_free)))\<rparr>) s2)
                  else
                    (to_free,
                     upd_hdr prevp (\<lambda>h. h\<lparr>h_next := to_free\<rparr>)
                       (upd_hdr to_free (\<lambda>h. h\<lparr>h_next := h_next (pm_hdr s2 prevp)\<rparr>) s2)))
           in Some
                (if p = add32 (add32 tf HDR) (h_size (pm_hdr s3 tf)) then
                   upd_hdr tf
                     (\<lambda>h. h\<lparr>h_next := h_next (pm_hdr s3 p),
                            h_size := add32 (h_size h) (add32 HDR (h_size (pm_hdr s3 p)))\<rparr>) s3
                 else s3)))"

definition kfree :: "pmm \<Rightarrow> nat \<Rightarrow> ptr \<Rightarrow> pmm option" where
  "kfree s cpu p =
     (if p = NULL then Some s
      else kfree_real
             (s\<lparr>pm_free_cnt := add32 (pm_free_cnt s) (h_size (pm_hdr s (sub32 p HDR)))\<rparr>) cpu p)"

definition mem_query :: "pmm \<Rightarrow> nat \<times> nat" where
  "mem_query s = (sub32 (pm_end s) (pm_start s), sub32 (pm_alloc_cnt s) (pm_free_cnt s))"

end
