(* ===== verification/Alloc_Chain.thy ===== *)
theory Alloc_Chain
  imports Alloc
begin

text \<open>
  The linked free list of a processor as a list of blocks (address, payload size): list
  segments in the header store, how the two loops of the allocator traverse them, and the
  geometry of blocks.
\<close>

section \<open>List segments\<close>

type_synonym block = "nat \<times> nat"

fun seg :: "(ptr \<Rightarrow> header) \<Rightarrow> ptr \<Rightarrow> block list \<Rightarrow> ptr \<Rightarrow> bool" where
  "seg h p [] q \<longleftrightarrow> p = q"
| "seg h p (b # bs) q \<longleftrightarrow> p = fst b \<and> h_size (h p) = snd b \<and> seg h (h_next (h p)) bs q"

lemma seg_append: "seg h p (xs @ ys) q \<longleftrightarrow> (\<exists>m. seg h p xs m \<and> seg h m ys q)"
  by (induction xs arbitrary: p) auto

lemma seg_snoc:
  "seg h p (us @ [u]) q \<longleftrightarrow>
     seg h p us (fst u) \<and> h_size (h (fst u)) = snd u \<and> h_next (h (fst u)) = q"
  by (auto simp: seg_append)

lemma seg_frame: "\<forall>b \<in> set bs. h' (fst b) = h (fst b) \<Longrightarrow> seg h' p bs q = seg h p bs q"
proof (induction bs arbitrary: p)
  case (Cons b bs)
  then show ?case by (cases "p = fst b") auto
qed simp

lemma seg_upd [simp]: "a \<notin> fst ` set bs \<Longrightarrow> seg (h(a := x)) p bs q = seg h p bs q"
  by (rule seg_frame) auto

lemma seg_nonempty_start: "seg h p (b # bs) q \<Longrightarrow> p = fst b"
  by simp

section \<open>Geometry of blocks\<close>

definition blk_end :: "block \<Rightarrow> nat" where
  "blk_end b = fst b + HDR + snd b"

definition before :: "block \<Rightarrow> block \<Rightarrow> bool" where
  "before b d \<longleftrightarrow> blk_end b \<le> fst d"

definition nolap :: "block \<Rightarrow> block \<Rightarrow> bool" where
  "nolap b d \<longleftrightarrow> before b d \<or> before d b"

definition inside :: "block \<Rightarrow> block \<Rightarrow> bool" where
  "inside b d \<longleftrightarrow> fst d \<le> fst b \<and> blk_end b \<le> blk_end d"

definition apart :: "block set \<Rightarrow> block set \<Rightarrow> bool" where
  "apart A B \<longleftrightarrow> (\<forall>b \<in> A. \<forall>d \<in> B. nolap b d)"

lemmas geom = blk_end_def before_def nolap_def inside_def HDR_def

lemma nolap_sym: "nolap b d \<longleftrightarrow> nolap d b"
  by (auto simp: nolap_def)

lemma nolap_addr_neq: "nolap b d \<Longrightarrow> fst b \<noteq> fst d"
  by (auto simp: geom)

lemma nolap_inside: "nolap b d \<Longrightarrow> inside b' b \<Longrightarrow> nolap b' d"
  by (auto simp: geom)

lemma inside_refl [simp]: "inside b b"
  by (simp add: inside_def)

lemma apart_inside:
  "apart A B \<Longrightarrow> (\<And>b'. b' \<in> A' \<Longrightarrow> \<exists>b \<in> A. inside b' b) \<Longrightarrow> apart A' B"
  unfolding apart_def by (meson nolap_inside)

lemma apart_sym: "apart A B \<longleftrightarrow> apart B A"
  by (auto simp: apart_def nolap_sym)

lemma apart_Un [simp]: "apart (A \<union> B) D \<longleftrightarrow> apart A D \<and> apart B D"
  by (auto simp: apart_def)

lemma apart_Un2 [simp]: "apart A (B \<union> D) \<longleftrightarrow> apart A B \<and> apart A D"
  by (auto simp: apart_def)

lemma apart_insert [simp]: "apart (insert b A) D \<longleftrightarrow> (\<forall>d \<in> D. nolap b d) \<and> apart A D"
  by (auto simp: apart_def)

lemma apart_insert2 [simp]: "apart A (insert d D) \<longleftrightarrow> (\<forall>b \<in> A. nolap b d) \<and> apart A D"
  by (auto simp: apart_def)

lemma apart_empty [simp]: "apart {} D" "apart A {}"
  by (auto simp: apart_def)

lemma merged_nolap:
  assumes "nolap (a, n) d" "nolap (a + HDR + n, m) d"
  shows "nolap (a, n + (HDR + m)) d"
  using assms by (auto simp: geom)

lemma before_nolap: "before b d \<Longrightarrow> nolap b d"
  by (simp add: nolap_def)

lemma before_trans: "before b d \<Longrightarrow> before d e \<Longrightarrow> before b e"
  by (auto simp: geom)

lemma sorted_before_addrs:
  "sorted_wrt before bs \<Longrightarrow> distinct (map fst bs)"
  by (induction bs) (auto simp: geom)

lemma sorted_nolap_distinct: "sorted_wrt nolap bs \<Longrightarrow> distinct (map fst bs)"
  by (induction bs) (fastforce simp: geom)+

section \<open>The search loop of the allocator\<close>

definition fitting :: "pmm \<Rightarrow> nat \<Rightarrow> block \<Rightarrow> ptr \<Rightarrow> search" where
  "fitting s sz b prevp =
     (if sz + HDR \<le> snd b then
        Fit (fst b + snd b - sz)
          (upd_hdr (fst b + snd b - sz) (\<lambda>h. h\<lparr>h_size := sz\<rparr>)
            (upd_hdr (fst b) (\<lambda>h. h\<lparr>h_size := snd b - (sz + HDR)\<rparr>) s))
      else
        Fit (fst b) (upd_hdr prevp (\<lambda>h. h\<lparr>h_next := h_next (pm_hdr s (fst b))\<rparr>) s))"

lemma kalloc_for_nofit:
  assumes "seg (pm_hdr s) p bs sent" "sent \<notin> fst ` set bs" "\<forall>b \<in> set bs. snd b < sz"
    "sz + HDR < 2 ^ 32"
  shows "kalloc_for s sent sz p (fst u) = Some (NoFit (fst (last (u # bs))))"
  using assms
proof (induction bs arbitrary: p u)
  case Nil
  then show ?case by (simp add: kalloc_for.simps)
next
  case (Cons b bs)
  have "kalloc_for s sent sz (fst b) (fst u)
      = kalloc_for s sent sz (h_next (pm_hdr s (fst b))) (fst b)"
    using Cons.prems by (subst kalloc_for.simps) (auto simp: add32_eq)
  also have "\<dots> = Some (NoFit (fst (last (b # bs))))"
    using Cons.prems by (intro Cons.IH) auto
  finally show ?case using Cons.prems by simp
qed

lemma kalloc_for_fit:
  assumes "seg (pm_hdr s) p (xs @ b # ys) sent" "sent \<notin> fst ` set (xs @ [b])"
    "\<forall>x \<in> set xs. snd x < sz" "sz \<le> snd b" "sz + HDR < 2 ^ 32" "blk_end b < 2 ^ 32"
  shows "kalloc_for s sent sz p (fst u) = Some (fitting s sz b (fst (last (u # xs))))"
  using assms
proof (induction xs arbitrary: p u)
  case Nil
  have eqs: "add32 sz HDR = sz + HDR" "add32 (fst b) (snd b) = fst b + snd b"
    "sub32 (fst b + snd b) sz = fst b + snd b - sz"
    "sz + HDR \<le> snd b \<Longrightarrow> sub32 (snd b) (sz + HDR) = snd b - (sz + HDR)"
    using Nil.prems by (auto simp: add32_eq sub32_eq blk_end_def HDR_def)
  show ?case
    using Nil.prems by (subst kalloc_for.simps)
      (auto simp: fitting_def eqs Let_def upd_hdr_def)
next
  case (Cons x xs)
  have "kalloc_for s sent sz (fst x) (fst u)
      = kalloc_for s sent sz (h_next (pm_hdr s (fst x))) (fst x)"
    using Cons.prems by (subst kalloc_for.simps) (auto simp: add32_eq)
  also have "\<dots> = Some (fitting s sz b (fst (last (x # xs))))"
    using Cons.prems by (intro Cons.IH) auto
  finally show ?case using Cons.prems by simp
qed

section \<open>The search loop of \<^verbatim>\<open>kfree_real\<close>\<close>

lemma kfree_for_stop:
  assumes "seg (pm_hdr s) p (xs @ ys) sent" "sent \<notin> fst ` set (xs @ ys)"
    "\<forall>x \<in> set (xs @ ys). fst x + HDR < 2 ^ 32"
    "\<forall>x \<in> set xs. fst x + HDR \<le> pf" "ys \<noteq> [] \<Longrightarrow> pf < fst (hd ys) + HDR"
  shows "kfree_for s sent pf p (fst u) = Some (fst (last (u # xs)), if ys = [] then sent else fst (hd ys))"
  using assms
proof (induction xs arbitrary: p u)
  case Nil
  then show ?case
    by (cases ys) (subst kfree_for.simps; auto simp: add32_eq)+
next
  case (Cons x xs)
  have "kfree_for s sent pf (fst x) (fst u) = kfree_for s sent pf (h_next (pm_hdr s (fst x))) (fst x)"
    using Cons.prems by (subst kfree_for.simps) (auto simp: add32_eq)
  also have "\<dots> = Some (fst (last (x # xs)), if ys = [] then sent else fst (hd ys))"
    using Cons.prems by (intro Cons.IH) auto
  finally show ?case using Cons.prems by simp
qed

end
