(* ===== verification/Alloc_Inv.thy ===== *)
theory Alloc_Inv
  imports Alloc_Chain
begin

text \<open>
  The invariant of the memory manager: the free blocks of every processor, the blocks in use
  and the global remainder are pairwise disjoint and lie in the heap.  Each way the
  allocator changes its lists (split, unlink, extend by a page, link or coalesce on free)
  keeps it.
\<close>

section \<open>Invariant\<close>

definition glob :: "pmm \<Rightarrow> block" where
  "glob s = (pm_global s, h_size (pm_hdr s (pm_global s)))"

definition free_list :: "pmm \<Rightarrow> nat \<Rightarrow> block list \<Rightarrow> bool" where
  "free_list s c bs \<longleftrightarrow> seg (pm_hdr s) (fl s c) ((fl s c, 0) # bs) (fl s c)"

definition live :: "pmm \<Rightarrow> block \<Rightarrow> bool" where
  "live s b \<longleftrightarrow> h_size (pm_hdr s (fst b)) = snd b \<and> h_fence (pm_hdr s (fst b)) = FENCE_LIVE"

definition in_heap :: "pmm \<Rightarrow> block \<Rightarrow> bool" where
  "in_heap s b \<longleftrightarrow> pm_start s \<le> fst b \<and> blk_end b \<le> pm_end s"

definition pmm_bounds :: "nat \<Rightarrow> pmm \<Rightarrow> bool" where
  "pmm_bounds n s \<longleftrightarrow> 0 < pm_fl s \<and> fl s n < pm_start s \<and> pm_end s < 2 ^ 32"

definition pmm_counts :: "pmm \<Rightarrow> block list \<Rightarrow> bool" where
  "pmm_counts s L \<longleftrightarrow>
     (pm_free_cnt s + sum_list (map snd L)) mod 2 ^ 32 = pm_alloc_cnt s mod 2 ^ 32"

definition pmm_inv :: "nat \<Rightarrow> pmm \<Rightarrow> (nat \<Rightarrow> block list) \<Rightarrow> block list \<Rightarrow> bool" where
  "pmm_inv n s F L \<longleftrightarrow>
     pmm_bounds n s \<and> pmm_counts s L \<and> in_heap s (glob s) \<and>
     (\<forall>c<n. free_list s c (F c)) \<and>
     (\<forall>c<n. \<forall>b \<in> set (F c). in_heap s b) \<and>
     (\<forall>b \<in> set L. in_heap s b \<and> live s b) \<and>
     (\<forall>c<n. sorted_wrt nolap (F c)) \<and> sorted_wrt nolap L \<and>
     apart (set L) {glob s} \<and>
     (\<forall>c<n. apart (set (F c)) (insert (glob s) (set L))) \<and>
     (\<forall>c<n. \<forall>d<n. c \<noteq> d \<longrightarrow> apart (set (F c)) (set (F d)))"

text \<open>What the operation of processor \<open>c\<close> must establish; the rest is framed.\<close>

definition same_layout :: "pmm \<Rightarrow> pmm \<Rightarrow> bool" where
  "same_layout s s' \<longleftrightarrow> pm_fl s' = pm_fl s \<and> pm_start s' = pm_start s \<and> pm_end s' = pm_end s \<and>
     pm_global s' = pm_global s"

definition touches :: "pmm \<Rightarrow> pmm \<Rightarrow> nat \<Rightarrow> block set \<Rightarrow> bool" where
  "touches s s' c B \<longleftrightarrow> (\<forall>a. a \<noteq> fl s c \<longrightarrow> a \<notin> fst ` B \<longrightarrow> pm_hdr s' a = pm_hdr s a)"

lemma in_heap_fl:
  "pmm_bounds n s \<Longrightarrow> c < n \<Longrightarrow> in_heap s b \<Longrightarrow> fl s c + HDR < fst b"
proof -
  assume "pmm_bounds n s" "c < n" "in_heap s b"
  moreover from \<open>c < n\<close> have "fl s c + HDR \<le> fl s n"
    by (simp add: fl_def HDR_def)
  ultimately show ?thesis by (auto simp: pmm_bounds_def in_heap_def)
qed

lemma fl_inj: "fl s c = fl s d \<longleftrightarrow> c = d"
  by (simp add: fl_def HDR_def)

lemma same_layout_simps:
  assumes "same_layout s s'"
  shows "fl s' c = fl s c" "in_heap s' b = in_heap s b" "pmm_bounds n s' = pmm_bounds n s"
    "pm_global s' = pm_global s"
  using assms by (auto simp: same_layout_def fl_def in_heap_def pmm_bounds_def)

lemma free_list_frame:
  assumes "same_layout s s'" "touches s s' c B" "c < n" "d < n" "c \<noteq> d" "pmm_bounds n s"
    "\<forall>b \<in> set bs. in_heap s b" "\<forall>b \<in> B. in_heap s b" "apart (set bs) B"
    "free_list s d bs"
  shows "free_list s' d bs"
proof -
  have "pm_hdr s' (fst b) = pm_hdr s (fst b)" if "b \<in> insert (fl s d, 0) (set bs)" for b
  proof (cases "b \<in> set bs")
    case True
    then have "fst b \<noteq> fl s c" using assms(3,6,7) in_heap_fl by fastforce
    moreover have "fst b \<notin> fst ` B" using True assms(9) by (auto simp: apart_def dest: nolap_addr_neq)
    ultimately show ?thesis using assms(2) by (simp add: touches_def)
  next
    case False
    then have b: "b = (fl s d, 0)" using that by simp
    have "fl s d \<noteq> fl s c" using assms(5) by (simp add: fl_inj)
    moreover have "fl s d \<notin> fst ` B" using assms(4,6,8) in_heap_fl by fastforce
    ultimately show ?thesis using assms(2) b by (simp add: touches_def)
  qed
  then have "\<forall>b \<in> set ((fl s d, 0) # bs). pm_hdr s' (fst b) = pm_hdr s (fst b)"
    unfolding list.set by blast
  from seg_frame [OF this] show ?thesis
    using assms(10) same_layout_simps(1) [OF assms(1)] unfolding free_list_def by metis
qed

lemma live_frame:
  assumes "touches s s' c B" "c < n" "pmm_bounds n s" "in_heap s b" "\<forall>d \<in> B. nolap b d"
  shows "pm_hdr s' (fst b) = pm_hdr s (fst b)"
proof -
  have "fst b \<noteq> fl s c" using assms(2-4) in_heap_fl by fastforce
  moreover have "fst b \<notin> fst ` B" using assms(5) by (auto dest: nolap_addr_neq)
  ultimately show ?thesis using assms(1) by (simp add: touches_def)
qed

lemma pmm_inv_step:
  assumes inv: "pmm_inv n s F L" and c: "c < n" and lay: "same_layout s s'"
    and t: "touches s s' c B"
    and B: "\<forall>b \<in> B. in_heap s b" "\<forall>d<n. d \<noteq> c \<longrightarrow> apart (set (F d)) B"
    and new: "free_list s' c bs" "\<forall>b \<in> set bs. in_heap s b" "sorted_wrt nolap bs"
    and L: "\<forall>b \<in> set L'. in_heap s b \<and> live s' b" "sorted_wrt nolap L'" "pmm_counts s' L'"
    and g: "in_heap s (glob s')"
    and ap: "apart (set L') {glob s'}" "apart (set bs) (insert (glob s') (set L'))"
      "\<forall>d<n. d \<noteq> c \<longrightarrow> apart (set (F d)) (set bs \<union> insert (glob s') (set L'))"
  shows "pmm_inv n s' (F(c := bs)) L'"
proof -
  note inv' = inv [unfolded pmm_inv_def]
  have bnd: "pmm_bounds n s" using inv' by blast
  have "free_list s' d (F d)" if "d < n" "d \<noteq> c" for d
    using free_list_frame [OF lay t c \<open>d < n\<close> _ bnd, of "F d"] that B inv' by auto
  then have fls: "\<forall>d<n. free_list s' d ((F(c := bs)) d)" using new(1) by simp
  have "apart (set ((F(c := bs)) d)) (set ((F(c := bs)) e))" if "d < n" "e < n" "d \<noteq> e" for d e
    using that ap(3) inv' by (auto simp: apart_sym [of "set bs"])
  moreover have "apart (set ((F(c := bs)) d)) (insert (glob s') (set L'))" if "d < n" for d
    using that ap(2,3) by simp
  moreover have "sorted_wrt nolap ((F(c := bs)) d) \<and> (\<forall>b \<in> set ((F(c := bs)) d). in_heap s' b)"
    if "d < n" for d
    using that new inv' same_layout_simps(2) [OF lay] by simp
  ultimately show ?thesis
    unfolding pmm_inv_def
    using fls bnd L g ap(1) same_layout_simps(2,3) [OF lay] by blast
qed

section \<open>Consequences of the invariant\<close>

lemma pmm_invD:
  assumes "pmm_inv n s F L" "c < n"
  shows "pmm_bounds n s" "in_heap s (glob s)" "free_list s c (F c)"
    "sorted_wrt nolap (F c)" "sorted_wrt nolap L"
    "\<And>b. b \<in> set (F c) \<Longrightarrow> in_heap s b" "\<And>b. b \<in> set L \<Longrightarrow> in_heap s b \<and> live s b"
    "\<And>b d. b \<in> set (F c) \<Longrightarrow> d \<in> set L \<Longrightarrow> nolap b d"
    "\<And>b. b \<in> set (F c) \<Longrightarrow> nolap b (glob s)"
    "\<And>b. b \<in> set L \<Longrightarrow> nolap b (glob s)"
    "pmm_counts s L"
  using assms by (auto simp: pmm_inv_def apart_def)

lemma pmm_inv_others:
  assumes "pmm_inv n s F L" "c < n" "d < n" "d \<noteq> c"
  shows "apart (set (F d)) (set (F c) \<union> insert (glob s) (set L))"
  using assms by (auto simp: pmm_inv_def)

lemma prev_addr:
  assumes "pmm_bounds n s" "c < n" "\<forall>b \<in> set xs. in_heap s b"
  shows "last ((fl s c, 0) # xs) \<in> insert (fl s c, 0) (set xs)"
    "in_heap s d \<Longrightarrow> \<forall>b \<in> set xs. nolap b d \<Longrightarrow> fst (last ((fl s c, 0) # xs)) \<noteq> fst d"
proof -
  show l: "last ((fl s c, 0) # xs) \<in> insert (fl s c, 0) (set xs)"
    using last_in_set [of "(fl s c, 0) # xs"] by simp
  show "fst (last ((fl s c, 0) # xs)) \<noteq> fst d" if d: "in_heap s d" "\<forall>b \<in> set xs. nolap b d"
    using in_heap_fl [OF assms(1,2) d(1)] l d(2) by (auto dest: nolap_addr_neq)
qed

text \<open>The last node of a prefix, as a segment without it followed by it.\<close>

lemma snoc_last: "(x # xs) = butlast (x # xs) @ [last (x # xs)]"
  by simp

lemma last_notin_butlast:
  "distinct (map fst zs) \<Longrightarrow> zs \<noteq> [] \<Longrightarrow> fst (last zs) \<notin> fst ` set (butlast zs)"
  by (induction zs rule: rev_induct) auto

lemma counts_add:
  assumes "(pf + S) mod 2 ^ 32 = pa mod 2 ^ 32"
  shows "(pf + (k + S)) mod 2 ^ 32 = add32 pa k mod 2 ^ 32"
proof -
  have "(pf + S + k) mod 2 ^ 32 = (pa + k) mod 2 ^ 32"
    using assms by (rule mod_add_cong) simp
  then show ?thesis by (simp add: add32_def ac_simps)
qed

lemma counts_remove:
  assumes "(pf + (k + S)) mod 2 ^ 32 = pa mod 2 ^ 32"
  shows "(add32 pf k + S) mod 2 ^ 32 = pa mod 2 ^ 32"
proof -
  have "(add32 pf k + S) mod 2 ^ 32 = (pf + k + S) mod 2 ^ 32"
    by (simp only: add32_def mod_add_left_eq)
  then show ?thesis using assms by (simp only: add.assoc)
qed

lemma pmm_counts_Cons:
  assumes "pmm_counts s L" "pm_alloc_cnt s' = add32 (pm_alloc_cnt s) (snd b)"
    "pm_free_cnt s' = pm_free_cnt s"
  shows "pmm_counts s' (b # L)"
  using counts_add [OF assms(1) [unfolded pmm_counts_def], of "snd b"]
  by (simp only: pmm_counts_def assms(2,3) list.map sum_list.Cons)

lemma pmm_counts_uncons:
  assumes "pmm_counts s (b # L)" "pm_alloc_cnt s' = pm_alloc_cnt s"
    "pm_free_cnt s' = add32 (pm_free_cnt s) (snd b)"
  shows "pmm_counts s' L"
  using counts_remove [of "pm_free_cnt s" "snd b" "sum_list (map snd L)" "pm_alloc_cnt s"] assms(1)
  by (simp only: pmm_counts_def assms(2,3) list.map sum_list.Cons)

lemma seg_relink:
  assumes "seg h p (us @ [u]) q" "fst u \<notin> fst ` set us"
  shows "seg (h(fst u := (h (fst u))\<lparr>h_next := q'\<rparr>)) p (us @ [u]) q'"
  using assms by (simp add: seg_snoc)

lemma seg_resize:
  assumes "seg h p (us @ [u]) q" "fst u \<notin> fst ` set us"
  shows "seg (h(fst u := (h (fst u))\<lparr>h_size := k\<rparr>)) p (us @ [(fst u, k)]) q"
  using assms by (simp add: seg_snoc)

lemma seg_fence:
  "seg (h(a := (h a)\<lparr>h_fence := f\<rparr>)) p bs q = seg h p bs q"
  by (induction bs arbitrary: p) auto

end
