(* ===== verification/Alloc_Ops.thy ===== *)
theory Alloc_Ops
  imports Alloc_Inv
begin

text \<open>
  The five ways the allocator changes its lists, each on the header store alone, and their
  preservation of the invariant.
\<close>

section \<open>Address facts\<close>

lemma addr_notin: "\<forall>d \<in> set ds. nolap d b \<Longrightarrow> fst b \<notin> fst ` set ds"
  using nolap_addr_neq by fastforce

lemma in_heap_inside: "in_heap s b \<Longrightarrow> inside b' b \<Longrightarrow> in_heap s b'"
  by (auto simp: in_heap_def geom)

lemma fl_notin:
  "pmm_bounds n s \<Longrightarrow> c < n \<Longrightarrow> \<forall>b \<in> set bs. in_heap s b \<Longrightarrow> fl s c \<notin> fst ` set bs"
  using in_heap_fl by fastforce

lemma fl_neq: "pmm_bounds n s \<Longrightarrow> c < n \<Longrightarrow> in_heap s b \<Longrightarrow> fl s c \<noteq> fst b \<and> fst b \<noteq> fl s c"
  using in_heap_fl by fastforce

lemma sorted_nolap_append:
  "sorted_wrt nolap (xs @ b # ys) \<Longrightarrow>
     (\<forall>x \<in> set xs. nolap x b) \<and> (\<forall>y \<in> set ys. nolap y b) \<and>
     (\<forall>x \<in> set xs. \<forall>y \<in> set ys. nolap x y) \<and> sorted_wrt nolap xs \<and> sorted_wrt nolap ys"
  by (auto simp: sorted_wrt_append nolap_sym)

lemma sorted_nolap_replace:
  assumes "sorted_wrt nolap (xs @ b # ys)" "\<And>d. nolap b d \<Longrightarrow> nolap b' d"
  shows "sorted_wrt nolap (xs @ b' # ys)"
  using assms by (auto simp: sorted_wrt_append nolap_sym)

lemma free_list_split:
  assumes "free_list s c (xs @ ys)"
  shows "\<exists>m. seg (pm_hdr s) (fl s c) ((fl s c, 0) # xs) m \<and> seg (pm_hdr s) m ys (fl s c)"
  using assms seg_append [of "pm_hdr s" "fl s c" "(fl s c, 0) # xs" ys "fl s c"]
  by (simp add: free_list_def)

section \<open>Splitting a block\<close>

lemma split_inv:
  assumes inv: "pmm_inv n s F L" and c: "c < n" and F: "F c = xs @ b # ys"
    and fit: "sz + HDR \<le> snd b" and lay: "same_layout s s'"
    and r: "r = fst b + snd b - sz"
    and hdr: "pm_hdr s' = (pm_hdr s)(fst b := (pm_hdr s (fst b))\<lparr>h_size := snd b - (sz + HDR)\<rparr>,
                 r := (pm_hdr s r)\<lparr>h_size := sz, h_fence := FENCE_LIVE\<rparr>)"
    and cnt: "pm_alloc_cnt s' = add32 (pm_alloc_cnt s) sz" "pm_free_cnt s' = pm_free_cnt s"
  shows "pmm_inv n s' (F(c := xs @ (fst b, snd b - (sz + HDR)) # ys)) ((r, sz) # L)"
proof -
  note I = pmm_invD [OF inv c]
  let ?b1 = "(fst b, snd b - (sz + HDR))" and ?b2 = "(r, sz)"
  have ins: "inside ?b1 b" "inside ?b2 b" "nolap ?b1 ?b2" "r \<noteq> fst b"
    using fit by (auto simp: r geom)
  have bF: "b \<in> set (F c)" using F by simp
  have hb: "in_heap s b" "in_heap s ?b1" "in_heap s ?b2"
    using I(6) [OF bF] in_heap_inside ins by blast+
  note srt = sorted_nolap_append [OF I(4) [unfolded F]]
  have sub: "nolap b d \<Longrightarrow> nolap ?b1 d \<and> nolap ?b2 d" for d
    using nolap_inside ins by blast
  have sub': "nolap d b \<Longrightarrow> nolap d ?b1 \<and> nolap d ?b2" for d
    using sub by (simp add: nolap_sym)
  have gne: "glob s' = glob s"
  proof -
    have "nolap ?b1 (glob s)" "nolap ?b2 (glob s)" using sub I(9) [OF bF] by blast+
    then have "pm_global s \<noteq> fst b" "pm_global s \<noteq> r"
      by (auto dest!: nolap_addr_neq simp: glob_def)
    then show ?thesis using same_layout_simps(4) [OF lay] by (simp add: glob_def hdr)
  qed
  have fls: "free_list s' c (xs @ ?b1 # ys)"
  proof -
    obtain m where m: "seg (pm_hdr s) (fl s c) ((fl s c, 0) # xs) m"
        "seg (pm_hdr s) m (b # ys) (fl s c)"
      using free_list_split I(3) F by metis
    have nr: "r \<notin> fst ` set xs" "r \<notin> fst ` set ys" "fst b \<notin> fst ` set xs" "fst b \<notin> fst ` set ys"
      using srt sub' addr_notin [of xs b] addr_notin [of ys b] addr_notin [of xs ?b2]
        addr_notin [of ys ?b2] by auto
    have nf: "fl s c \<noteq> r" "fl s c \<noteq> fst b"
      using fl_neq [OF I(1) c] hb by fastforce+
    have "seg (pm_hdr s') (fl s c) ((fl s c, 0) # xs) (fst b)"
      using m nr nf by (simp add: hdr)
    moreover have "seg (pm_hdr s') (fst b) (?b1 # ys) (fl s c)"
      using m(2) nr ins(4) by (auto simp: hdr)
    ultimately show ?thesis
      using seg_append [of "pm_hdr s'" "fl s c" "(fl s c, 0) # xs" "?b1 # ys" "fl s c"]
        same_layout_simps(1) [OF lay] by (auto simp: free_list_def)
  qed
  have oth: "\<forall>d<n. d \<noteq> c \<longrightarrow> apart (set (F d)) (insert b (set (F c) \<union> insert (glob s) (set L)))"
    using pmm_inv_others [OF inv c] bF by (auto simp: apart_def)
  have Lsub: "\<forall>d \<in> set L. nolap b d \<and> nolap ?b1 d \<and> nolap ?b2 d"
    using I(8) [OF bF] sub by blast
  have t: "touches s s' c {b, ?b2}" by (simp add: touches_def hdr)
  have lv: "\<forall>d \<in> set L. pm_hdr s' (fst d) = pm_hdr s (fst d)"
    using live_frame [OF t c I(1)] I(7) Lsub by (auto simp: nolap_sym)
  show ?thesis
  proof (rule pmm_inv_step [OF inv c lay t])
    show "\<forall>d<n. d \<noteq> c \<longrightarrow> apart (set (F d)) {b, ?b2}"
      using oth sub' by (auto simp: apart_def)
    show "\<forall>x \<in> set (xs @ ?b1 # ys). in_heap s x" using I(6) F hb by auto
    show "sorted_wrt nolap (xs @ ?b1 # ys)"
      using sorted_nolap_replace I(4) F sub by metis
    show "\<forall>x \<in> set (?b2 # L). in_heap s x \<and> live s' x"
      using hb I(7) lv by (auto simp: live_def hdr)
    show "sorted_wrt nolap (?b2 # L)" using I(5) Lsub by simp
    show "pmm_counts s' (?b2 # L)"
      by (rule pmm_counts_Cons [OF I(11)]) (simp_all add: cnt)
    show "apart (set (?b2 # L)) {glob s'}"
      using I(10) sub I(9) [OF bF] by (auto simp: gne apart_def)
    show "apart (set (xs @ ?b1 # ys)) (insert (glob s') (set (?b2 # L)))"
      using I(8,9) F sub Lsub srt sub' ins(3) by (auto simp: gne apart_def)
    show "\<forall>d<n. d \<noteq> c \<longrightarrow> apart (set (F d))
        (set (xs @ ?b1 # ys) \<union> insert (glob s') (set (?b2 # L)))"
      using oth sub' F by (auto simp: gne apart_def)
  qed (use hb fls I(2) gne in auto)
qed

section \<open>Unlinking a whole block\<close>

lemma unlink_inv:
  assumes inv: "pmm_inv n s F L" and c: "c < n" and F: "F c = xs @ b # ys"
    and lay: "same_layout s s'" and p: "p = fst (last ((fl s c, 0) # xs))"
    and hdr: "pm_hdr s' = (pm_hdr s)(p := (pm_hdr s p)\<lparr>h_next := h_next (pm_hdr s (fst b))\<rparr>,
                 fst b := (pm_hdr s (fst b))\<lparr>h_fence := FENCE_LIVE\<rparr>)"
    and cnt: "pm_alloc_cnt s' = add32 (pm_alloc_cnt s) (snd b)" "pm_free_cnt s' = pm_free_cnt s"
  shows "pmm_inv n s' (F(c := xs @ ys)) (b # L)"
proof -
  note I = pmm_invD [OF inv c]
  have bF: "b \<in> set (F c)" using F by simp
  have hb: "in_heap s b" using I(6) [OF bF] .
  have hxs: "\<forall>x \<in> set xs. in_heap s x" using I(6) F by simp
  note srt = sorted_nolap_append [OF I(4) [unfolded F]]
  let ?u = "last ((fl s c, 0) # xs)" and ?us = "butlast ((fl s c, 0) # xs)"
  have u: "?u \<in> insert (fl s c, 0) (set xs)" "p \<noteq> fst b" "fst b \<noteq> p"
    using prev_addr(1) [OF I(1) c hxs] prev_addr(2) [OF I(1) c hxs, of b] hb srt by (auto simp: p)
  obtain m where m: "seg (pm_hdr s) (fl s c) ((fl s c, 0) # xs) m"
      "seg (pm_hdr s) m (b # ys) (fl s c)"
    using free_list_split I(3) F by metis
  have mb: "m = fst b" "h_size (pm_hdr s (fst b)) = snd b"
    "seg (pm_hdr s) (h_next (pm_hdr s (fst b))) ys (fl s c)"
    using m(2) by auto
  have dist: "distinct (map fst ((fl s c, 0) # xs))"
  proof -
    have "distinct (map fst xs)"
      using srt sorted_nolap_distinct by blast
    then show ?thesis using fl_notin [OF I(1) c hxs] by simp
  qed
  have pus: "p \<notin> fst ` set ?us"
    using last_notin_butlast [OF dist] by (simp add: p)
  have seg1: "seg (pm_hdr s') (fl s c) ((fl s c, 0) # xs) (h_next (pm_hdr s (fst b)))"
  proof -
    have "seg (pm_hdr s) (fl s c) (?us @ [?u]) m"
      using m(1) by (simp only: append_butlast_last_id list.distinct not_False_eq_True)
    from seg_relink [OF this pus [unfolded p]]
    have "seg ((pm_hdr s)(p := (pm_hdr s p)\<lparr>h_next := h_next (pm_hdr s (fst b))\<rparr>))
        (fl s c) (?us @ [?u]) (h_next (pm_hdr s (fst b)))"
      by (simp only: p)
    moreover have "fst b \<notin> fst ` set ((fl s c, 0) # xs)"
      using srt addr_notin [of xs b] fl_neq [OF I(1) c hb] by simp
    ultimately show ?thesis
      unfolding hdr snoc_last [symmetric] by (subst seg_upd) auto
  qed
  have seg2: "seg (pm_hdr s') (h_next (pm_hdr s (fst b))) ys (fl s c)"
  proof -
    have "p \<notin> fst ` set ys"
    proof (cases "?u = (fl s c, 0)")
      case True
      then show ?thesis using fl_notin [OF I(1) c, of ys] I(6) F by (simp add: p)
    next
      case False
      then have "?u \<in> set xs" using u(1) by simp
      then have "\<forall>y \<in> set ys. nolap y ?u" using srt nolap_sym by blast
      then show ?thesis unfolding p by (rule addr_notin)
    qed
    moreover have "fst b \<notin> fst ` set ys" using srt addr_notin by blast
    ultimately show ?thesis using mb(3) by (simp add: hdr)
  qed
  have fls: "free_list s' c (xs @ ys)"
    using seg1 seg2 seg_append [of "pm_hdr s'" "fl s c" "(fl s c, 0) # xs" ys "fl s c"]
      same_layout_simps(1) [OF lay] by (auto simp: free_list_def)
  have t: "touches s s' c (set (F c))"
    using u F by (auto simp: touches_def hdr p)
  have Lsub: "\<forall>d \<in> set L. \<forall>x \<in> set (F c). nolap d x" using I(8) nolap_sym by blast
  have lv: "\<forall>d \<in> set L. pm_hdr s' (fst d) = pm_hdr s (fst d)"
    using live_frame [OF t c I(1)] I(7) Lsub by blast
  have gne: "glob s' = glob s"
    using live_frame [OF t c I(1), of "glob s"] I(2,9) same_layout_simps(4) [OF lay]
    by (auto simp: glob_def nolap_sym)
  have oth: "\<forall>d<n. d \<noteq> c \<longrightarrow> apart (set (F d)) (set (F c) \<union> insert (glob s) (set L))"
    using pmm_inv_others [OF inv c] by blast
  show ?thesis
  proof (rule pmm_inv_step [OF inv c lay t])
    show "\<forall>x \<in> set (b # L). in_heap s x \<and> live s' x"
      using hb I(7) lv mb(2) u by (auto simp: live_def hdr)
    show "sorted_wrt nolap (b # L)" using I(5,8) bF by simp
    show "pmm_counts s' (b # L)"
      by (rule pmm_counts_Cons [OF I(11)]) (simp_all add: cnt)
    show "apart (set (b # L)) {glob s'}" using I(9,10) bF by (auto simp: gne apart_def)
    show "apart (set (xs @ ys)) (insert (glob s') (set (b # L)))"
      using I(8,9) F srt by (auto simp: gne apart_def)
    show "\<forall>d<n. d \<noteq> c \<longrightarrow> apart (set (F d)) (set (xs @ ys) \<union> insert (glob s') (set (b # L)))"
      using oth F by (auto simp: gne apart_def)
  qed (use hb hxs fls I F oth srt gne in \<open>auto simp: sorted_wrt_append\<close>)
qed


section \<open>Extending the list by a page of the global remainder\<close>

lemma fresh_distinct:
  assumes "pmm_inv n s F L" "c < n"
  shows "distinct (map fst ((fl s c, 0) # F c))"
proof -
  note I = pmm_invD [OF assms]
  have "distinct (map fst (F c))"
    using I(4) by (rule sorted_nolap_distinct)
  then show ?thesis using fl_notin [OF I(1) assms(2)] I(6) by auto
qed

lemma extend_inv:
  assumes inv: "pmm_inv n s F L" and c: "c < n"
    and room: "need + HDR < snd (glob s)" and lay: "same_layout s s'"
    and p: "p = fst (last ((fl s c, 0) # F c))"
    and r: "r = fst (glob s) + snd (glob s) - need"
    and hdr: "pm_hdr s' = (pm_hdr s)
        (fst (glob s) := (pm_hdr s (fst (glob s)))\<lparr>h_size := snd (glob s) - (need + HDR)\<rparr>,
         p := (pm_hdr s p)\<lparr>h_next := r\<rparr>,
         r := (pm_hdr s r)\<lparr>h_next := fl s c, h_size := need\<rparr>)"
    and cnt: "pm_alloc_cnt s' = pm_alloc_cnt s" "pm_free_cnt s' = pm_free_cnt s"
  shows "pmm_inv n s' (F(c := F c @ [(r, need)])) L"
proof -
  note I = pmm_invD [OF inv c]
  let ?g = "glob s" and ?b2 = "(r, need)"
  let ?g' = "(fst ?g, snd ?g - (need + HDR))"
  have ins: "inside ?g' ?g" "inside ?b2 ?g" "nolap ?b2 ?g'" "r \<noteq> fst ?g"
    using room by (auto simp: r geom)
  have hb: "in_heap s ?g" "in_heap s ?g'" "in_heap s ?b2"
    using I(2) in_heap_inside ins by blast+
  have hF: "\<forall>x \<in> set (F c). in_heap s x" using I(6) by blast
  have sub: "nolap d ?g \<Longrightarrow> nolap d ?g' \<and> nolap d ?b2" for d
    using nolap_inside ins nolap_sym by metis
  have pn: "p \<noteq> fst ?g" "p \<noteq> r" "r \<noteq> p"
    using prev_addr(2) [OF I(1) c hF hb(1)] prev_addr(2) [OF I(1) c hF hb(3)] I(9) sub
    by (auto simp: p)
  let ?u = "last ((fl s c, 0) # F c)" and ?us = "butlast ((fl s c, 0) # F c)"
  have pus: "p \<notin> fst ` set ?us"
    using last_notin_butlast [OF fresh_distinct [OF inv c]] by (simp add: p)
  have fls: "free_list s' c (F c @ [?b2])"
  proof -
    have "seg (pm_hdr s) (fl s c) (?us @ [?u]) (fl s c)"
      using I(3) unfolding free_list_def
      by (simp only: append_butlast_last_id list.distinct not_False_eq_True)
    from seg_relink [OF this pus [unfolded p], of r]
    have "seg ((pm_hdr s)(p := (pm_hdr s p)\<lparr>h_next := r\<rparr>)) (fl s c) ((fl s c, 0) # F c) r"
      by (simp only: p append_butlast_last_id list.distinct not_False_eq_True)
    moreover have "r \<notin> fst ` set ((fl s c, 0) # F c)" "fst ?g \<notin> fst ` set ((fl s c, 0) # F c)"
      using addr_notin [of "F c" ?b2] addr_notin [of "F c" ?g] I(9) sub
        fl_neq [OF I(1) c hb(1)] fl_neq [OF I(1) c hb(3)] by auto
    ultimately have "seg (pm_hdr s') (fl s c) ((fl s c, 0) # F c) r"
      unfolding hdr fun_upd_twist [OF pn(1) [symmetric]] by (simp only: seg_upd not_False_eq_True)
    then show ?thesis
      using seg_append [of "pm_hdr s'" "fl s c" "(fl s c, 0) # F c" "[?b2]" "fl s c"]
        same_layout_simps(1) [OF lay] by (auto simp: free_list_def hdr)
  qed
  have t: "touches s s' c (insert ?g (insert ?b2 (set (F c))))"
    using prev_addr(1) [OF I(1) c hF] by (auto simp: touches_def hdr p)
  have Lsub: "\<forall>d \<in> set L. nolap d ?g \<and> nolap d ?g' \<and> nolap d ?b2" using I(10) sub by blast
  have lv: "\<forall>d \<in> set L. pm_hdr s' (fst d) = pm_hdr s (fst d)"
  proof -
    have "\<forall>d \<in> set L. \<forall>e \<in> insert ?g (insert ?b2 (set (F c))). nolap d e"
      using Lsub I(8) nolap_sym by blast
    then show ?thesis using live_frame [OF t c I(1)] I(7) by blast
  qed
  have gne: "glob s' = ?g'"
    using same_layout_simps(4) [OF lay] pn ins(4) by (auto simp: glob_def hdr)
  have oth: "\<forall>d<n. d \<noteq> c \<longrightarrow> apart (set (F d)) (set (F c) \<union> insert ?g (set L))"
    using pmm_inv_others [OF inv c] by blast
  have "pmm_inv n s' (F(c := F c @ [?b2])) L"
  proof (rule pmm_inv_step [OF inv c lay t])
    show "\<forall>d<n. d \<noteq> c \<longrightarrow> apart (set (F d)) (insert ?g (insert ?b2 (set (F c))))"
      using oth sub by (auto simp: apart_def)
    show "\<forall>x \<in> set L. in_heap s x \<and> live s' x"
      using I(7) lv by (auto simp: live_def)
    show "sorted_wrt nolap (F c @ [?b2])"
      using I(4,9) sub by (auto simp: sorted_wrt_append)
    show "pmm_counts s' L" using I(11) by (simp add: pmm_counts_def cnt)
    show "apart (set L) {glob s'}" using Lsub by (auto simp: gne apart_def)
    show "apart (set (F c @ [?b2])) (insert (glob s') (set L))"
      using I(8,9) sub Lsub ins(3) by (auto simp: gne apart_def nolap_sym)
    show "\<forall>d<n. d \<noteq> c \<longrightarrow> apart (set (F d)) (set (F c @ [?b2]) \<union> insert (glob s') (set L))"
      using oth sub by (auto simp: gne apart_def)
  qed (use hb hF fls I gne in auto)
  then show ?thesis .
qed

section \<open>Linking a released block\<close>

lemma pmm_inv_rot:
  assumes "pmm_inv n s F (La @ b # Lb)"
  shows "pmm_inv n s F (b # La @ Lb)"
proof -
  have "sorted_wrt nolap (La @ b # Lb) \<Longrightarrow> sorted_wrt nolap (b # La @ Lb)"
    by (auto simp: sorted_wrt_append nolap_sym)
  moreover have "pmm_counts s (La @ b # Lb) = pmm_counts s (b # La @ Lb)"
    by (simp add: pmm_counts_def ac_simps)
  moreover have "set (La @ b # Lb) = set (b # La @ Lb)" by auto
  ultimately show ?thesis using assms unfolding pmm_inv_def by (simp only:) blast
qed

lemma link_inv:
  assumes inv: "pmm_inv n s F (b # L)" and c: "c < n" and F: "F c = xs @ ys"
    and lay: "same_layout s s'" and p: "p = fst (last ((fl s c, 0) # xs))"
    and hdr: "pm_hdr s' = (pm_hdr s)
        (p := (pm_hdr s p)\<lparr>h_next := fst b\<rparr>,
         fst b := (pm_hdr s (fst b))\<lparr>h_next := h_next (pm_hdr s p), h_fence := f\<rparr>)"
    and cnt: "pm_alloc_cnt s' = pm_alloc_cnt s"
      "pm_free_cnt s' = add32 (pm_free_cnt s) (snd b)"
  shows "pmm_inv n s' (F(c := xs @ b # ys)) L"
proof -
  note I = pmm_invD [OF inv c]
  have hb: "in_heap s b" and szb: "h_size (pm_hdr s (fst b)) = snd b"
    using I(7) [of b] by (auto simp: live_def)
  have hF: "\<forall>x \<in> set (F c). in_heap s x" using I(6) by blast
  have hxs: "\<forall>x \<in> set xs. in_heap s x" using hF F by simp
  have bF: "\<forall>x \<in> set (F c). nolap x b" using I(8) by simp
  let ?u = "last ((fl s c, 0) # xs)" and ?us = "butlast ((fl s c, 0) # xs)"
  have u: "?u \<in> insert (fl s c, 0) (set xs)" "p \<noteq> fst b"
    using prev_addr(1) [OF I(1) c hxs] prev_addr(2) [OF I(1) c hxs hb] bF F by (auto simp: p)
  obtain m where m: "seg (pm_hdr s) (fl s c) ((fl s c, 0) # xs) m" "seg (pm_hdr s) m ys (fl s c)"
    using free_list_split I(3) F by metis
  have dist: "distinct (map fst ((fl s c, 0) # xs))"
    using fresh_distinct [OF inv c] F by auto
  have pus: "p \<notin> fst ` set ?us"
    using last_notin_butlast [OF dist] by (simp add: p)
  have segm: "seg (pm_hdr s) (fl s c) (?us @ [?u]) m"
    using m(1) by (simp only: append_butlast_last_id list.distinct not_False_eq_True)
  have pm: "h_next (pm_hdr s p) = m"
    using segm unfolding seg_snoc p by simp
  have bn: "fst b \<notin> fst ` set ((fl s c, 0) # xs)" "fst b \<notin> fst ` set ys"
    using addr_notin [of xs b] addr_notin [of ys b] bF F fl_neq [OF I(1) c hb] by auto
  have pys: "p \<notin> fst ` set ys"
  proof (cases "?u = (fl s c, 0)")
    case True
    then show ?thesis using fl_notin [OF I(1) c, of ys] hF F by (simp add: p)
  next
    case False
    then have "?u \<in> set xs" using u(1) by simp
    moreover have "\<forall>x \<in> set xs. \<forall>y \<in> set ys. nolap x y"
      using I(4) F by (simp add: sorted_wrt_append)
    ultimately have "\<forall>y \<in> set ys. nolap y ?u" using nolap_sym by blast
    then show ?thesis unfolding p by (rule addr_notin)
  qed
  have fls: "free_list s' c (xs @ b # ys)"
  proof -
    from seg_relink [OF segm pus [unfolded p], of "fst b"]
    have "seg ((pm_hdr s)(p := (pm_hdr s p)\<lparr>h_next := fst b\<rparr>)) (fl s c) ((fl s c, 0) # xs) (fst b)"
      by (simp only: p append_butlast_last_id list.distinct not_False_eq_True)
    then have "seg (pm_hdr s') (fl s c) ((fl s c, 0) # xs) (fst b)"
      unfolding hdr by (simp only: seg_upd bn not_False_eq_True)
    moreover have "seg (pm_hdr s') (fst b) (b # ys) (fl s c)"
      using m(2) bn pys pm by (simp add: hdr szb)
    ultimately show ?thesis
      using seg_append [of "pm_hdr s'" "fl s c" "(fl s c, 0) # xs" "b # ys" "fl s c"]
        same_layout_simps(1) [OF lay] by (auto simp: free_list_def)
  qed
  have t: "touches s s' c (insert b (set (F c)))"
    using u F by (auto simp: touches_def hdr p)
  have Lb: "\<forall>d \<in> set L. nolap b d" using I(5) by simp
  have Lsub: "\<forall>d \<in> set L. \<forall>x \<in> insert b (set (F c)). nolap d x"
    using I(8) Lb nolap_sym by (metis insert_iff list.set_intros(2))
  have lv: "\<forall>d \<in> set L. pm_hdr s' (fst d) = pm_hdr s (fst d)"
    using live_frame [OF t c I(1)] I(7) Lsub by (metis list.set_intros(2))
  have bg: "nolap b (glob s)" using I(10) by simp
  have gne: "glob s' = glob s"
  proof -
    have "\<forall>x \<in> insert b (set (F c)). nolap (glob s) x"
      using I(9) bg nolap_sym by blast
    from live_frame [OF t c I(1) I(2) this] show ?thesis
      using same_layout_simps(4) [OF lay] by (simp add: glob_def)
  qed
  have oth: "\<forall>d<n. d \<noteq> c \<longrightarrow> apart (set (F d)) (set (F c) \<union> insert (glob s) (set (b # L)))"
    using pmm_inv_others [OF inv c] by blast
  show ?thesis
  proof (rule pmm_inv_step [OF inv c lay t])
    show "\<forall>d<n. d \<noteq> c \<longrightarrow> apart (set (F d)) (insert b (set (F c)))"
      using oth by (auto simp: apart_def)
    show "\<forall>x \<in> set L. in_heap s x \<and> live s' x"
      using I(7) lv by (simp add: live_def)
    show "sorted_wrt nolap (xs @ b # ys)"
      using I(4) F bF by (auto simp: sorted_wrt_append nolap_sym)
    show "pmm_counts s' L"
      by (rule pmm_counts_uncons [OF I(11)]) (simp_all add: cnt)
    show "apart (set L) {glob s'}" using I(10) by (simp add: gne apart_def)
    show "apart (set (xs @ b # ys)) (insert (glob s') (set L))"
      using I(8,9) F bg Lb by (auto simp: gne apart_def)
    show "\<forall>d<n. d \<noteq> c \<longrightarrow> apart (set (F d)) (set (xs @ b # ys) \<union> insert (glob s') (set L))"
      using oth F by (auto simp: gne apart_def)
  qed (use hb hF fls I F gne in auto)
qed

section \<open>Coalescing\<close>

lemma merged_nolap_block:
  assumes "fst b = blk_end x" "nolap d x" "nolap d b"
  shows "nolap d (fst x, snd x + (HDR + snd b))"
  using assms by (auto simp: geom)

lemma merge_left_inv:
  assumes inv: "pmm_inv n s F (b # L)" and c: "c < n" and F: "F c = xs @ x # ys"
    and adj: "fst b = blk_end x" and lay: "same_layout s s'"
    and hdr: "pm_hdr s' = (pm_hdr s)
        (fst b := (pm_hdr s (fst b))\<lparr>h_fence := f\<rparr>,
         fst x := (pm_hdr s (fst x))\<lparr>h_size := snd x + (HDR + snd b)\<rparr>)"
    and cnt: "pm_alloc_cnt s' = pm_alloc_cnt s"
      "pm_free_cnt s' = add32 (pm_free_cnt s) (snd b)"
  shows "pmm_inv n s' (F(c := xs @ (fst x, snd x + (HDR + snd b)) # ys)) L"
proof -
  note I = pmm_invD [OF inv c]
  let ?x' = "(fst x, snd x + (HDR + snd b))"
  have xF: "x \<in> set (F c)" using F by simp
  have hb: "in_heap s b" using I(7) [of b] by simp
  have hF: "\<forall>x \<in> set (F c). in_heap s x" using I(6) by blast
  have hx': "in_heap s ?x'" using hb hF xF adj by (auto simp: in_heap_def blk_end_def)
  note srt = sorted_nolap_append [OF I(4) [unfolded F]]
  have bF: "\<forall>x \<in> set (F c). nolap x b" using I(8) by simp
  have Lb: "\<forall>d \<in> set L. nolap b d" using I(5) by simp
  have grow: "nolap d x \<Longrightarrow> nolap d b \<Longrightarrow> nolap d ?x'" for d
    using merged_nolap_block [OF adj] by blast
  obtain m where m: "seg (pm_hdr s) (fl s c) ((fl s c, 0) # xs) m"
      "seg (pm_hdr s) m (x # ys) (fl s c)"
    using free_list_split I(3) F by metis
  have nb: "fst b \<notin> fst ` set ((fl s c, 0) # xs)" "fst b \<notin> fst ` set (x # ys)"
    using addr_notin [of xs b] addr_notin [of "x # ys" b] bF F fl_neq [OF I(1) c hb] by auto
  have nx: "fst x \<notin> fst ` set ((fl s c, 0) # xs)" "fst x \<notin> fst ` set ys"
    using addr_notin [of xs x] addr_notin [of ys x] srt fl_neq [OF I(1) c, of x] hF xF by auto
  have fls: "free_list s' c (xs @ ?x' # ys)"
  proof -
    have "seg (pm_hdr s') (fl s c) ((fl s c, 0) # xs) (fst x)"
    proof -
      have "m = fst x" using m(2) by simp
      then show ?thesis using m(1) unfolding hdr by (simp only: seg_upd nb nx not_False_eq_True)
    qed
    moreover have "seg (pm_hdr s') (fst x) (?x' # ys) (fl s c)"
      using m(2) nb nx by (auto simp: hdr)
    ultimately show ?thesis
      using seg_append [of "pm_hdr s'" "fl s c" "(fl s c, 0) # xs" "?x' # ys" "fl s c"]
        same_layout_simps(1) [OF lay] by (auto simp: free_list_def)
  qed
  have t: "touches s s' c {b, x}" by (simp add: touches_def hdr)
  have Lsub: "\<forall>d \<in> set L. nolap d b \<and> nolap d x"
    using I(8) [OF xF] Lb nolap_sym by (metis list.set_intros(2))
  have lv: "\<forall>d \<in> set L. pm_hdr s' (fst d) = pm_hdr s (fst d)"
  proof -
    have "\<forall>d \<in> set L. \<forall>x \<in> {b, x}. nolap d x" using Lsub by simp
    then show ?thesis using live_frame [OF t c I(1)] I(7) by (metis list.set_intros(2))
  qed
  have gb: "nolap (glob s) b" "nolap (glob s) x" using I(10) [of b] I(9) [OF xF] by (simp_all add: nolap_sym)
  have gne: "glob s' = glob s"
    using live_frame [OF t c I(1) I(2)] gb same_layout_simps(4) [OF lay] by (simp add: glob_def)
  have oth: "\<forall>d<n. d \<noteq> c \<longrightarrow> apart (set (F d)) (set (F c) \<union> insert (glob s) (set (b # L)))"
    using pmm_inv_others [OF inv c] by blast
  show ?thesis
  proof (rule pmm_inv_step [OF inv c lay t])
    show "\<forall>d<n. d \<noteq> c \<longrightarrow> apart (set (F d)) {b, x}"
      using oth xF by (auto simp: apart_def)
    show "\<forall>x \<in> set L. in_heap s x \<and> live s' x"
      using I(7) lv by (simp add: live_def)
    show "sorted_wrt nolap (xs @ ?x' # ys)"
      using srt grow bF F I(4) by (auto simp: sorted_wrt_append nolap_sym [of ?x'])
    show "pmm_counts s' L"
      by (rule pmm_counts_uncons [OF I(11)]) (simp_all add: cnt)
    show "apart (set L) {glob s'}" using I(10) by (simp add: gne apart_def)
    show "apart (set (xs @ ?x' # ys)) (insert (glob s') (set L))"
      using I(8,9) F grow gb Lsub by (auto simp: gne apart_def nolap_sym [of ?x'])
    show "\<forall>d<n. d \<noteq> c \<longrightarrow> apart (set (F d)) (set (xs @ ?x' # ys) \<union> insert (glob s') (set L))"
      using oth F grow by (auto simp: gne apart_def)
  qed (use hb hF hx' xF fls I F gne in auto)
qed

lemma merge_right_inv:
  assumes inv: "pmm_inv n s F L" and c: "c < n" and F: "F c = xs @ x # y # ys"
    and adj: "fst y = blk_end x" and lay: "same_layout s s'"
    and hdr: "pm_hdr s' = (pm_hdr s)
        (fst x := (pm_hdr s (fst x))\<lparr>h_next := h_next (pm_hdr s (fst y)),
                                     h_size := snd x + (HDR + snd y)\<rparr>)"
    and cnt: "pm_alloc_cnt s' = pm_alloc_cnt s" "pm_free_cnt s' = pm_free_cnt s"
  shows "pmm_inv n s' (F(c := xs @ (fst x, snd x + (HDR + snd y)) # ys)) L"
proof -
  note I = pmm_invD [OF inv c]
  let ?x' = "(fst x, snd x + (HDR + snd y))"
  have xF: "x \<in> set (F c)" "y \<in> set (F c)" using F by simp_all
  have hF: "\<forall>x \<in> set (F c). in_heap s x" using I(6) by blast
  have hx': "in_heap s ?x'" using hF xF adj by (auto simp: in_heap_def blk_end_def)
  note srt = sorted_nolap_append [OF I(4) [unfolded F]]
  have grow: "nolap d x \<Longrightarrow> nolap d y \<Longrightarrow> nolap d ?x'" for d
    using merged_nolap_block [OF adj] by blast
  obtain m where m: "seg (pm_hdr s) (fl s c) ((fl s c, 0) # xs) m"
      "seg (pm_hdr s) m (x # y # ys) (fl s c)"
    using free_list_split I(3) F by metis
  have nx: "fst x \<notin> fst ` set ((fl s c, 0) # xs)" "fst x \<notin> fst ` set ys"
    using addr_notin [of xs x] addr_notin [of ys x] srt fl_neq [OF I(1) c, of x] hF xF by auto
  have fls: "free_list s' c (xs @ ?x' # ys)"
  proof -
    have "seg (pm_hdr s') (fl s c) ((fl s c, 0) # xs) (fst x)"
    proof -
      have "m = fst x" using m(2) by simp
      then show ?thesis using m(1) unfolding hdr by (simp only: seg_upd nx not_False_eq_True)
    qed
    moreover have "seg (pm_hdr s') (fst x) (?x' # ys) (fl s c)"
      using m(2) nx by (auto simp: hdr)
    ultimately show ?thesis
      using seg_append [of "pm_hdr s'" "fl s c" "(fl s c, 0) # xs" "?x' # ys" "fl s c"]
        same_layout_simps(1) [OF lay] by (auto simp: free_list_def)
  qed
  have t: "touches s s' c {x}" by (simp add: touches_def hdr)
  have Lsub: "\<forall>d \<in> set L. nolap d y \<and> nolap d x"
    using I(8) xF nolap_sym by blast
  have lv: "\<forall>d \<in> set L. pm_hdr s' (fst d) = pm_hdr s (fst d)"
    using live_frame [OF t c I(1)] I(7) Lsub by simp
  have gb: "nolap (glob s) y" "nolap (glob s) x" using I(9) xF nolap_sym by blast+
  have gne: "glob s' = glob s"
    using live_frame [OF t c I(1) I(2)] gb same_layout_simps(4) [OF lay] by (simp add: glob_def)
  have oth: "\<forall>d<n. d \<noteq> c \<longrightarrow> apart (set (F d)) (set (F c) \<union> insert (glob s) (set L))"
    using pmm_inv_others [OF inv c] by blast
  show ?thesis
  proof (rule pmm_inv_step [OF inv c lay t])
    show "\<forall>d<n. d \<noteq> c \<longrightarrow> apart (set (F d)) {x}"
      using oth xF by (auto simp: apart_def)
    show "\<forall>x \<in> set L. in_heap s x \<and> live s' x"
      using I(7) lv by (simp add: live_def)
    show "sorted_wrt nolap (xs @ ?x' # ys)"
      using srt grow F I(4) by (auto simp: sorted_wrt_append nolap_sym [of ?x'] nolap_sym [of y])
    show "pmm_counts s' L" using I(11) by (simp add: pmm_counts_def cnt)
    show "apart (set L) {glob s'}" using I(10) by (simp add: gne apart_def)
    show "apart (set (xs @ ?x' # ys)) (insert (glob s') (set L))"
      using I(8,9) F grow gb Lsub by (auto simp: gne apart_def nolap_sym [of ?x'])
    show "\<forall>d<n. d \<noteq> c \<longrightarrow> apart (set (F d)) (set (xs @ ?x' # ys) \<union> insert (glob s') (set L))"
      using oth F grow by (auto simp: gne apart_def)
  qed (use hF hx' xF fls I F gne in auto)
qed

end
