(* ===== verification/Alloc_Props.thy ===== *)
theory Alloc_Props
  imports Alloc_Ops
begin

text \<open>
  The allocator's contract: \<open>kalloc\<close> returns a zeroed block of the heap that overlaps no block
  in use, \<open>kfree\<close> returns every byte of a block to the free list, and both keep the invariant
  and the partition of the heap, from \<open>pmm_init\<close> through any history of requests.
\<close>

section \<open>The heap is partitioned\<close>

definition span :: "block list \<Rightarrow> nat set" where
  "span bs = (\<Union>b \<in> set bs. {fst b ..< blk_end b})"

lemma span_simps [simp]:
  "span [] = {}" "span (b # bs) = {fst b ..< blk_end b} \<union> span bs"
  "span (xs @ ys) = span xs \<union> span ys"
  by (simp_all add: span_def)

definition covers :: "nat \<Rightarrow> pmm \<Rightarrow> (nat \<Rightarrow> block list) \<Rightarrow> block list \<Rightarrow> bool" where
  "covers n s F L \<longleftrightarrow>
     (\<Union>c<n. span (F c)) \<union> span L \<union> span [glob s] = {pm_start s ..< pm_end s}"

definition pmm_ok :: "nat \<Rightarrow> pmm \<Rightarrow> (nat \<Rightarrow> block list) \<Rightarrow> block list \<Rightarrow> bool" where
  "pmm_ok n s F L \<longleftrightarrow> pmm_inv n s F L \<and> covers n s F L"

lemma covers_step:
  assumes cov: "covers n s F L" and c: "c < n" and lay: "same_layout s s'"
    and eq: "span bs \<union> span L' \<union> span [glob s'] = span (F c) \<union> span L \<union> span [glob s]"
  shows "covers n s' (F(c := bs)) L'"
proof -
  have U: "(\<Union>d<n. span (G d)) = (\<Union>d \<in> {..<n} - {c}. span (G d)) \<union> span (G c)" for G
    using c by auto
  have "(\<Union>d \<in> {..<n} - {c}. span ((F(c := bs)) d)) = (\<Union>d \<in> {..<n} - {c}. span (F d))"
    by (intro SUP_cong) auto
  then have "(\<Union>d<n. span ((F(c := bs)) d)) \<union> span L' \<union> span [glob s']
      = (\<Union>d \<in> {..<n} - {c}. span (F d)) \<union> (span bs \<union> span L' \<union> span [glob s'])"
    by (subst U) (simp only: fun_upd_same ac_simps)
  also have "\<dots> = (\<Union>d<n. span (F d)) \<union> span L \<union> span [glob s]"
    unfolding eq by (subst U) (simp only: ac_simps)
  finally show ?thesis
    using cov lay by (simp add: covers_def same_layout_def)
qed

lemma glob_same:
  "same_layout s s' \<Longrightarrow> h_size (pm_hdr s' (pm_global s)) = h_size (pm_hdr s (pm_global s)) \<Longrightarrow>
   glob s' = glob s"
  by (simp add: glob_def same_layout_def)

lemma pmm_inv_glob:
  assumes "pmm_inv n s F L" "c < n" "x \<in> set (F c) \<union> set L"
  shows "fst x \<noteq> pm_global s"
proof -
  have "nolap x (glob s)" using pmm_invD(9,10) [OF assms(1,2)] assms(3) by blast
  then show ?thesis by (auto simp: glob_def dest!: nolap_addr_neq)
qed

section \<open>A block is taken\<close>

lemma kalloc_fit_ok:
  assumes ok: "pmm_ok n s F L" and c: "c < n" and F: "F c = xs @ b # ys"
    and k: "k \<le> snd b" and p: "p = fst (last ((fl s c, 0) # xs))"
    and fit: "fitting s k b p = Fit r s1"
    and s': "same_layout s1 s'"
      "pm_hdr s' = (pm_hdr s1)(r := (pm_hdr s1 r)\<lparr>h_fence := FENCE_LIVE\<rparr>)"
      "pm_alloc_cnt s' = add32 (pm_alloc_cnt s1) (h_size (pm_hdr s1 r))"
      "pm_free_cnt s' = pm_free_cnt s1"
  shows "\<exists>m bs. k \<le> m \<and> r + HDR + m \<le> pm_end s \<and> pm_start s \<le> r \<and>
     pmm_ok n s' (F(c := bs)) ((r, m) # L)"
proof -
  have inv: "pmm_inv n s F L" and cov: "covers n s F L" using ok by (auto simp: pmm_ok_def)
  note I = pmm_invD [OF inv c]
  have bF: "b \<in> set (F c)" using F by simp
  have hb: "in_heap s b" using I(6) [OF bF] .
  have bsz: "h_size (pm_hdr s (fst b)) = snd b"
    using free_list_split [of s c xs "b # ys"] I(3) F by auto
  show ?thesis
  proof (cases "k + HDR \<le> snd b")
    case True
    then have r: "r = fst b + snd b - k"
      and s1: "s1 = upd_hdr r (\<lambda>h. h\<lparr>h_size := k\<rparr>)
            (upd_hdr (fst b) (\<lambda>h. h\<lparr>h_size := snd b - (k + HDR)\<rparr>) s)"
      using fit by (auto simp: fitting_def)
    have rb: "r \<noteq> fst b" using True by (simp add: r HDR_def)
    have lay: "same_layout s s'" using s'(1) by (simp add: s1 same_layout_def upd_hdr_def)
    have new: "pmm_inv n s' (F(c := xs @ (fst b, snd b - (k + HDR)) # ys)) ((r, k) # L)"
    proof (rule split_inv [OF inv c F True lay r])
      show "pm_hdr s' = (pm_hdr s)(fst b := (pm_hdr s (fst b))\<lparr>h_size := snd b - (k + HDR)\<rparr>,
                 r := (pm_hdr s r)\<lparr>h_size := k, h_fence := FENCE_LIVE\<rparr>)"
        using rb by (simp add: s'(2) s1 upd_hdr_def)
    qed (simp_all add: s' s1 upd_hdr_def)
    have "r \<noteq> pm_global s" "fst b \<noteq> pm_global s"
      using pmm_inv_glob [OF new c, of "(r, k)"] pmm_inv_glob [OF inv c, of b] bF lay
      by (auto simp: same_layout_def)
    then have "glob s' = glob s" using glob_same [OF lay] by (simp add: s'(2) s1 upd_hdr_def)
    moreover have "{fst b ..< blk_end b} = {fst b ..< blk_end (fst b, snd b - (k + HDR))} \<union>
        {r ..< blk_end (r, k)}"
      using True by (auto simp: r blk_end_def HDR_def)
    ultimately have "covers n s' (F(c := xs @ (fst b, snd b - (k + HDR)) # ys)) ((r, k) # L)"
      by (intro covers_step [OF cov c lay]) (auto simp: F)
    moreover have "r + HDR + k \<le> pm_end s" "pm_start s \<le> r"
      using hb True by (auto simp: r in_heap_def blk_end_def)
    ultimately show ?thesis using new by (auto simp: pmm_ok_def)
  next
    case False
    then have r: "r = fst b"
      and s1: "s1 = upd_hdr p (\<lambda>h. h\<lparr>h_next := h_next (pm_hdr s (fst b))\<rparr>) s"
      using fit by (auto simp: fitting_def)
    have lay: "same_layout s s'" using s'(1) by (simp add: s1 same_layout_def upd_hdr_def)
    have pb: "p \<noteq> fst b"
      unfolding p using prev_addr(2) [OF I(1) c, of xs b] I(4,6) F hb
      by (auto simp: sorted_wrt_append)
    have new: "pmm_inv n s' (F(c := xs @ ys)) (b # L)"
    proof (rule unlink_inv [OF inv c F lay p])
      show "pm_hdr s' = (pm_hdr s)(p := (pm_hdr s p)\<lparr>h_next := h_next (pm_hdr s (fst b))\<rparr>,
                 fst b := (pm_hdr s (fst b))\<lparr>h_fence := FENCE_LIVE\<rparr>)"
        using pb by (simp add: s'(2) s1 upd_hdr_def r)
    qed (use pb in \<open>simp_all add: s' s1 upd_hdr_def r bsz\<close>)
    have "glob s' = glob s" using glob_same [OF lay] pmm_inv_glob [OF inv c, of b] bF
      by (simp add: s'(2) s1 upd_hdr_def r)
    then have "covers n s' (F(c := xs @ ys)) (b # L)"
      by (intro covers_step [OF cov c lay]) (auto simp: F)
    then show ?thesis using new k hb
      by (auto simp: pmm_ok_def r in_heap_def blk_end_def intro!: exI [of _ "snd b"])
  qed
qed

text \<open>The inner loop either fits a block of the list or runs off its end.\<close>

lemma fitting_Fit: "\<exists>r s1. fitting s k b p = Fit r s1"
  by (auto simp: fitting_def)

lemma kalloc_search:
  assumes inv: "pmm_inv n s F L" and c: "c < n" and k: "k + HDR < 2 ^ 32"
    and u: "F c = [] \<Longrightarrow> fst u = fl s c"
  obtains (nofit) "\<forall>b \<in> set (F c). snd b < k"
      "kalloc_for s (fl s c) k (h_next (pm_hdr s (fl s c))) (fst u) =
         Some (NoFit (if F c = [] then fl s c else fst (last (F c))))"
  | (fit) xs b ys r s1 where "F c = xs @ b # ys" "\<forall>x \<in> set xs. snd x < k" "k \<le> snd b"
      "fitting s k b (fst (last (u # xs))) = Fit r s1"
      "kalloc_for s (fl s c) k (h_next (pm_hdr s (fl s c))) (fst u) = Some (Fit r s1)"
proof -
  note I = pmm_invD [OF inv c]
  have sg: "seg (pm_hdr s) (h_next (pm_hdr s (fl s c))) (F c) (fl s c)"
    using I(3) by (simp add: free_list_def)
  have nf: "fl s c \<notin> fst ` set (F c)" using fl_notin [OF I(1) c] I(6) by blast
  show thesis
  proof (cases "\<exists>b \<in> set (F c). k \<le> snd b")
    case False
    then have all: "\<forall>b \<in> set (F c). snd b < k" by auto
    from kalloc_for_nofit [OF sg nf all k, where u = u] u all show thesis
      by (intro nofit) (auto split: if_splits)
  next
    case True
    then obtain xs b ys where F: "F c = xs @ b # ys" and b: "k \<le> snd b"
      and xs: "\<forall>x \<in> set xs. \<not> k \<le> snd x"
      using split_list_first_prop [of "F c" "\<lambda>b. k \<le> snd b"] by blast
    have e: "blk_end b < 2 ^ 32"
      using I(1) I(6) [of b] F by (auto simp: in_heap_def pmm_bounds_def)
    obtain r s1 where fit': "fitting s k b (fst (last (u # xs))) = Fit r s1"
      using fitting_Fit by blast
    have "kalloc_for s (fl s c) k (h_next (pm_hdr s (fl s c))) (fst u)
        = Some (fitting s k b (fst (last (u # xs))))"
      using sg nf xs b e k by (intro kalloc_for_fit) (auto simp: F)
    then show thesis using fit F xs b fit' by (metis not_le)
  qed
qed

lemma span_addrs: "in_heap s b \<Longrightarrow> pm_start s \<le> fst b \<and> fst b + HDR + snd b \<le> pm_end s"
  by (simp add: in_heap_def blk_end_def)

section \<open>\<^verbatim>\<open>kalloc\<close>\<close>

lemma align_16:
  assumes "sz \<le> 2 ^ 32 - 32"
  shows "sz \<le> align sz 16" "align sz 16 \<le> sz + 15" "align sz 16 + HDR < 2 ^ 32"
proof -
  have eq: "align sz 16 = (sz + 15) div 16 * 16"
    using assms by (simp add: align_def add32_eq sub32_eq)
  show "sz \<le> align sz 16" "align sz 16 \<le> sz + 15" using eq by linarith+
  show "align sz 16 + HDR < 2 ^ 32" using eq assms by (simp add: HDR_def)
qed

definition finish :: "ptr \<Rightarrow> nat \<Rightarrow> pmm \<Rightarrow> pmm" where
  "finish r sz s1 =
     (let s2 = upd_hdr r (\<lambda>h. h\<lparr>h_fence := FENCE_LIVE\<rparr>) s1;
          s3 = s2\<lparr>pm_alloc_cnt := add32 (pm_alloc_cnt s2) (h_size (pm_hdr s2 r))\<rparr>
      in s3\<lparr>pm_bytes := memset0 (add32 r HDR) sz (pm_bytes s3)\<rparr>)"

lemma finish_simps:
  "same_layout s1 (finish r sz s1)"
  "pm_hdr (finish r sz s1) = (pm_hdr s1)(r := (pm_hdr s1 r)\<lparr>h_fence := FENCE_LIVE\<rparr>)"
  "pm_alloc_cnt (finish r sz s1) = add32 (pm_alloc_cnt s1) (h_size (pm_hdr s1 r))"
  "pm_free_cnt (finish r sz s1) = pm_free_cnt s1"
  "pm_bytes (finish r sz s1) = memset0 (add32 r HDR) sz (pm_bytes s1)"
  by (simp_all add: finish_def Let_def upd_hdr_def same_layout_def)

lemma fitting_bytes: "fitting s k b p = Fit r s1 \<Longrightarrow> pm_bytes s1 = pm_bytes s \<and> same_layout s s1"
  by (auto simp: fitting_def upd_hdr_def same_layout_def split: if_splits)

lemma kalloc_unfold:
  "kalloc s cpu sz = Option.bind (kalloc_real s cpu sz) (\<lambda>r. case r of
       Inl e \<Rightarrow> Some (Inl e) | Inr (p, s1) \<Rightarrow> Some (Inr (add32 p HDR, finish p sz s1)))"
  unfolding kalloc_def finish_def Let_def by (rule refl)

text \<open>What a successful call promises, relative to the state in which its block was found.\<close>

definition alloc_post :: "nat \<Rightarrow> pmm \<Rightarrow> (nat \<Rightarrow> block list) \<Rightarrow> block list \<Rightarrow> nat \<Rightarrow> nat \<Rightarrow>
    ptr \<Rightarrow> pmm \<Rightarrow> bool" where
  "alloc_post n s F L c sz p s' \<longleftrightarrow>
     (\<exists>b bs. p = fst b + HDR \<and> sz \<le> snd b \<and> pm_start s \<le> fst b \<and> blk_end b \<le> pm_end s \<and>
        pmm_ok n s' (F(c := bs)) (b # L) \<and> same_layout s s' \<and>
        pm_bytes s' = memset0 p sz (pm_bytes s))"

lemma alloc_post_fit:
  assumes ok: "pmm_ok n s F L" and c: "c < n" and F: "F c = xs @ b # ys"
    and k: "k \<le> snd b" "sz \<le> k" and p: "p = fst (last ((fl s c, 0) # xs))"
    and fit: "fitting s k b p = Fit r s1"
  shows "alloc_post n s F L c sz (add32 r HDR) (finish r sz s1)"
proof -
  from kalloc_fit_ok [OF ok c F k(1) p fit finish_simps(1-4)]
  obtain m bs where m: "k \<le> m" "r + HDR + m \<le> pm_end s" "pm_start s \<le> r"
    and ok': "pmm_ok n (finish r sz s1) (F(c := bs)) ((r, m) # L)" by blast
  have "pm_end s < 2 ^ 32"
    using pmm_invD(1) [of n s F L c] ok c by (simp add: pmm_ok_def pmm_bounds_def)
  then have "add32 r HDR = r + HDR" using m(2) by (intro add32_eq) linarith
  then show ?thesis
    unfolding alloc_post_def
    using m k ok' fitting_bytes [OF fit] finish_simps(1,5)
    by (intro exI [of _ "(r, m)"] exI [of _ bs]) (auto simp: blk_end_def same_layout_def)
qed

text \<open>A page is taken from the global remainder and appended.\<close>

definition page_link :: "pmm \<Rightarrow> nat \<Rightarrow> ptr \<Rightarrow> nat \<Rightarrow> ptr \<Rightarrow> pmm" where
  "page_link s c need p r =
     upd_hdr r (\<lambda>h. h\<lparr>h_next := fl s c, h_size := need\<rparr>)
       (upd_hdr p (\<lambda>h. h\<lparr>h_next := r\<rparr>) (snd (global_alloc s need)))"

lemma global_alloc_fail:
  assumes "need + HDR < 2 ^ 32" "snd (glob s) \<le> need + HDR"
  shows "fst (global_alloc s need) = NULL"
  using assms by (simp add: global_alloc_def global_alloc_real_def Let_def add32_eq glob_def)

lemma global_alloc_ok:
  assumes "in_heap s (glob s)" "pmm_bounds n s" "need + HDR < snd (glob s)"
  defines "r \<equiv> fst (glob s) + snd (glob s) - need"
  shows "global_alloc s need =
     (r, upd_hdr (pm_global s) (\<lambda>h. h\<lparr>h_size := snd (glob s) - (need + HDR)\<rparr>) s)"
    "r \<noteq> NULL"
proof -
  have b: "fst (glob s) + HDR + snd (glob s) < 2 ^ 32" "0 < fst (glob s)"
    using assms(1,2) by (auto simp: in_heap_def pmm_bounds_def blk_end_def)
  then show "global_alloc s need =
     (r, upd_hdr (pm_global s) (\<lambda>h. h\<lparr>h_size := snd (glob s) - (need + HDR)\<rparr>) s)"
    using assms(3)
    by (simp add: global_alloc_def global_alloc_real_def Let_def add32_eq sub32_eq glob_def r_def)
  show "r \<noteq> NULL" using b assms(3) by (simp add: r_def)
qed

lemma page_link_ok:
  assumes ok: "pmm_ok n s F L" and c: "c < n"
    and room: "need + HDR < snd (glob s)"
    and p: "p = (if F c = [] then fl s c else fst (last (F c)))"
    and r: "r = fst (glob s) + snd (glob s) - need"
  shows "pmm_ok n (page_link s c need p r) (F(c := F c @ [(r, need)])) L"
    "same_layout s (page_link s c need p r)"
    "pm_bytes (page_link s c need p r) = pm_bytes s"
proof -
  let ?s' = "page_link s c need p r"
  have inv: "pmm_inv n s F L" and cov: "covers n s F L" using ok by (auto simp: pmm_ok_def)
  note I = pmm_invD [OF inv c]
  note G = global_alloc_ok [OF I(2,1) room, folded r]
  have p': "p = fst (last ((fl s c, 0) # F c))" by (simp add: p)
  have hF: "\<forall>x \<in> set (F c). in_heap s x" using I(6) by blast
  have ne: "p \<noteq> pm_global s" "r \<noteq> pm_global s" "p \<noteq> r"
  proof -
    have ins: "inside (r, need) (glob s)" using room by (auto simp: r geom)
    show "p \<noteq> pm_global s"
      using prev_addr(2) [OF I(1) c hF I(2)] I(9) by (simp add: p' glob_def)
    show "r \<noteq> pm_global s" using room by (auto simp: r glob_def)
    have "\<forall>b \<in> set (F c). nolap b (r, need)"
      using I(9) nolap_inside [OF _ ins] nolap_sym by blast
    then show "p \<noteq> r"
      using prev_addr(2) [OF I(1) c hF in_heap_inside [OF I(2) ins]] by (simp add: p')
  qed
  show lay: "same_layout s ?s'"
    by (simp add: page_link_def G same_layout_def upd_hdr_def)
  show "pm_bytes ?s' = pm_bytes s" by (simp add: page_link_def G upd_hdr_def)
  have new: "pmm_inv n ?s' (F(c := F c @ [(r, need)])) L"
  proof (rule extend_inv [OF inv c room lay p' r])
    show "pm_hdr ?s' = (pm_hdr s)
        (fst (glob s) := (pm_hdr s (fst (glob s)))\<lparr>h_size := snd (glob s) - (need + HDR)\<rparr>,
         p := (pm_hdr s p)\<lparr>h_next := r\<rparr>,
         r := (pm_hdr s r)\<lparr>h_next := fl s c, h_size := need\<rparr>)"
      using ne by (simp add: page_link_def G upd_hdr_def glob_def)
  qed (simp_all add: page_link_def G upd_hdr_def)
  have gs: "glob ?s' = (fst (glob s), snd (glob s) - (need + HDR))"
    using ne by (simp add: page_link_def G upd_hdr_def glob_def)
  have "{r ..< blk_end (r, need)} \<union> {fst (glob ?s') ..< blk_end (glob ?s')}
      = {fst (glob s) ..< blk_end (glob s)}"
    unfolding gs using room by (auto simp: r blk_end_def HDR_def)
  then have "covers n ?s' (F(c := F c @ [(r, need)])) L"
    by (intro covers_step [OF cov c lay]) (simp only: span_simps fst_conv, blast)
  then show "pmm_ok n ?s' (F(c := F c @ [(r, need)])) L" using new by (simp add: pmm_ok_def)
qed

lemma kalloc_page:
  assumes g: "global_alloc s (if k > PG_SIZE then k else PG_SIZE) = (r, s1)" "r \<noteq> NULL"
    and nf: "kalloc_for s (fl s c) k (h_next (pm_hdr s (fl s c))) pp = Some (NoFit p)"
  shows "kalloc_while s (fl s c) k pp =
     kalloc_while (page_link s c (if k > PG_SIZE then k else PG_SIZE) p r) (fl s c) k p"
  by (subst kalloc_while.simps) (simp add: nf g page_link_def Let_def)

text \<open>The call as a whole: it returns, and fails only when the remainder has no page left.\<close>

lemma kalloc_while_fit:
  assumes "kalloc_for s sent k (h_next (pm_hdr s sent)) pp = Some (Fit r s1)"
  shows "kalloc_while s sent k pp = Some (Inr (r, s1))"
  by (subst kalloc_while.simps) (simp add: assms)

lemma kalloc_cases:
  assumes ok: "pmm_ok n s F L" and c: "c < n" and sz: "sz \<le> 2 ^ 32 - 32"
  shows "(\<exists>p s'. kalloc s c sz = Some (Inr (p, s')) \<and> alloc_post n s F L c sz p s') \<or>
    kalloc s c sz = Some (Inl AssertFail) \<and> (\<forall>b \<in> set (F c). snd b < align sz 16) \<and>
      snd (glob s) \<le> max (align sz 16) PG_SIZE + HDR \<or>
    (\<exists>F' s0 p s'. kalloc s c sz = Some (Inr (p, s')) \<and> pmm_ok n s0 F' L \<and>
      (\<forall>d. d \<noteq> c \<longrightarrow> F' d = F d) \<and> same_layout s s0 \<and> pm_bytes s0 = pm_bytes s \<and>
      alloc_post n s0 F' L c sz p s')"
proof -
  let ?k = "align sz 0x10" and ?sent = "fl s c"
  have inv: "pmm_inv n s F L" using ok by (simp add: pmm_ok_def)
  note I = pmm_invD [OF inv c]
  have k: "sz \<le> ?k" "?k + HDR < 2 ^ 32" using align_16 [OF sz] by simp_all
  have real: "kalloc_real s c sz = kalloc_while s ?sent ?k (fst (?sent, 0::nat))"
    by (simp add: kalloc_real_def)
  show ?thesis
  proof (cases rule: kalloc_search [OF inv c k(2), of "(?sent, 0)"])
    case 1
    then show ?case by simp
  next
    case (3 xs b ys r s1)
    from alloc_post_fit [OF ok c 3(1,3) k(1) refl 3(4)] show ?thesis
      using kalloc_while_fit [OF 3(5)] by (simp add: kalloc_unfold real)
  next
    case 2
    let ?need = "if ?k > PG_SIZE then ?k else PG_SIZE"
    let ?p = "if F c = [] then ?sent else fst (last (F c))"
    have need: "?need + HDR < 2 ^ 32" "?need = max ?k PG_SIZE" "?k \<le> ?need"
      using k by (auto simp: PG_SIZE_def HDR_def max_def)
    show ?thesis
    proof (cases "?need + HDR < snd (glob s)")
      case False
      then have "fst (global_alloc s ?need) = NULL"
        using need(1) by (intro global_alloc_fail) simp_all
      then have "kalloc_while s ?sent ?k ?sent = Some (Inl AssertFail)"
        using 2(2) by (subst kalloc_while.simps) (auto simp: Let_def split: prod.splits)
      then have "kalloc s c sz = Some (Inl AssertFail)" by (simp add: kalloc_unfold real)
      moreover have "snd (glob s) \<le> max ?k PG_SIZE + HDR" using False need(2) by simp
      ultimately show ?thesis using 2(1) by blast
    next
      case True
      let ?r = "fst (glob s) + snd (glob s) - ?need"
      let ?s0 = "page_link s c ?need ?p ?r" and ?F = "F(c := F c @ [(?r, ?need)])"
      note G = global_alloc_ok [OF I(2,1) True]
      note P = page_link_ok [OF ok c True refl refl]
      have inv0: "pmm_inv n ?s0 ?F L" using P(1) by (simp add: pmm_ok_def)
      have sent0: "fl ?s0 c = ?sent" using same_layout_simps(1) [OF P(2)] .
      have step: "kalloc_while s ?sent ?k ?sent = kalloc_while ?s0 ?sent ?k ?p"
        using kalloc_page [OF G] 2(2) by simp
      show ?thesis
      proof (cases rule: kalloc_search [OF inv0 c k(2), of "(?p, 0)"])
        case 1
        then show ?case by simp
      next
        case 2
        then show ?thesis using need(3) by simp
      next
        case (3 xs b ys r s1)
        have xs: "xs = F c" "b = (?r, ?need)" "ys = []"
          using 3(1,3) 2(1) by (auto simp: append_eq_Cons_conv append_eq_append_conv2 Cons_eq_append_conv)
        have "fst (last ((?p, 0) # xs)) = fst (last ((fl ?s0 c, 0) # xs))"
          using xs(1) sent0 by simp
        from alloc_post_fit [OF P(1) c 3(1,3) k(1) this 3(4)]
        have "alloc_post n ?s0 ?F L c sz (add32 r HDR) (finish r sz s1)" .
        moreover have "kalloc s c sz = Some (Inr (add32 r HDR, finish r sz s1))"
          using kalloc_while_fit [of ?s0 ?sent ?k ?p r s1] 3(5) step sent0
          by (simp add: kalloc_unfold real)
        ultimately show ?thesis using P by (intro disjI2) (auto intro!: exI)
      qed
    qed
  qed
qed

lemma kalloc_step:
  assumes ok: "pmm_ok n s F L" and c: "c < n" and sz: "sz \<le> 2 ^ 32 - 32"
  shows "kalloc s c sz = Some (Inl AssertFail) \<and> (\<forall>b \<in> set (F c). snd b < align sz 16) \<and>
      snd (glob s) \<le> max (align sz 16) PG_SIZE + HDR \<or>
    (\<exists>b F' s'. kalloc s c sz = Some (Inr (fst b + HDR, s')) \<and> sz \<le> snd b \<and> in_heap s b \<and>
      pmm_ok n s' F' (b # L) \<and> (\<forall>d. d \<noteq> c \<longrightarrow> F' d = F d) \<and> same_layout s s' \<and>
      pm_bytes s' = memset0 (fst b + HDR) sz (pm_bytes s))"
proof -
  have post: "\<exists>b F'' s''. kalloc s c sz = Some (Inr (fst b + HDR, s'')) \<and> sz \<le> snd b \<and>
      in_heap s b \<and> pmm_ok n s'' F'' (b # L) \<and> (\<forall>d. d \<noteq> c \<longrightarrow> F'' d = F d) \<and> same_layout s s'' \<and>
      pm_bytes s'' = memset0 (fst b + HDR) sz (pm_bytes s)"
    if k: "kalloc s c sz = Some (Inr (p, s'))" and a: "alloc_post n s0 F' L c sz p s'"
      and l: "same_layout s s0" "pm_bytes s0 = pm_bytes s" "\<forall>d. d \<noteq> c \<longrightarrow> F' d = F d"
    for s0 F' p s'
  proof -
    from a obtain b bs where "p = fst b + HDR" "sz \<le> snd b" "in_heap s0 b"
      "pmm_ok n s' (F'(c := bs)) (b # L)" "same_layout s0 s'" "pm_bytes s' = memset0 p sz (pm_bytes s0)"
      by (auto simp: alloc_post_def in_heap_def)
    then show ?thesis using k l
      by (intro exI [of _ b] exI [of _ "F'(c := bs)"] exI [of _ s'])
        (auto simp: in_heap_def same_layout_def)
  qed
  from kalloc_cases [OF ok c sz] show ?thesis
  proof (elim disjE exE conjE)
    fix p s'
    assume "kalloc s c sz = Some (Inr (p, s'))" "alloc_post n s F L c sz p s'"
    from post [OF this] show ?thesis by (simp add: same_layout_def)
  next
    fix F' s0 p s'
    assume "kalloc s c sz = Some (Inr (p, s'))" "alloc_post n s0 F' L c sz p s'"
      "same_layout s s0" "pm_bytes s0 = pm_bytes s" "\<forall>d. d \<noteq> c \<longrightarrow> F' d = F d"
    from post [OF this] show ?thesis by blast
  qed blast
qed

section \<open>\<^verbatim>\<open>kfree\<close>\<close>

lemma kfree_right:
  assumes ok: "pmm_ok n s3 F L" and c: "c < n" and F: "F c = xs @ x # ys"
    and p: "p = (if ys = [] then fl s3 c else fst (hd ys))"
  defines "s4 \<equiv> (if p = add32 (add32 (fst x) HDR) (h_size (pm_hdr s3 (fst x))) then
       upd_hdr (fst x) (\<lambda>h. h\<lparr>h_next := h_next (pm_hdr s3 p),
          h_size := add32 (h_size h) (add32 HDR (h_size (pm_hdr s3 p)))\<rparr>) s3 else s3)"
  shows "\<exists>bs. pmm_ok n s4 (F(c := bs)) L \<and> span bs = span (F c)"
    "same_layout s3 s4" "pm_bytes s4 = pm_bytes s3" "pm_printed s4 = pm_printed s3"
proof -
  have inv: "pmm_inv n s3 F L" and cov: "covers n s3 F L" using ok by (auto simp: pmm_ok_def)
  note I = pmm_invD [OF inv c]
  have xF: "in_heap s3 x" and e: "pm_end s3 < 2 ^ 32"
    using I(6) [of x] I(1) F by (auto simp: pmm_bounds_def)
  then have ends: "add32 (add32 (fst x) HDR) (snd x) = blk_end x"
    by (simp add: in_heap_def blk_end_def add32_eq)
  have szx: "h_size (pm_hdr s3 (fst x)) = snd x"
    using free_list_split [of s3 c xs "x # ys"] I(3) F by auto
  show lay: "same_layout s3 s4" and "pm_bytes s4 = pm_bytes s3" "pm_printed s4 = pm_printed s3"
    by (simp_all add: s4_def same_layout_def upd_hdr_def)
  show "\<exists>bs. pmm_ok n s4 (F(c := bs)) L \<and> span bs = span (F c)"
  proof (cases "p = blk_end x")
    case False
    then have "s4 = s3" by (simp add: s4_def szx ends)
    then show ?thesis using ok by (intro exI [of _ "F c"]) simp
  next
    case True
    have "fl s3 c < blk_end x"
      using in_heap_fl [OF I(1) c xF] by (simp add: blk_end_def)
    then obtain y ys' where ys: "ys = y # ys'" and y: "fst y = blk_end x"
      using True p by (cases ys) auto
    have yF: "in_heap s3 y" using I(6) [of y] F ys by simp
    have szy: "h_size (pm_hdr s3 (fst y)) = snd y"
      using free_list_split [of s3 c "xs @ [x]" "y # ys'"] I(3) F ys by auto
    have sum: "add32 (snd x) (add32 HDR (snd y)) = snd x + (HDR + snd y)"
      using yF e y by (simp add: in_heap_def blk_end_def add32_eq)
    have py: "p = fst y" using p ys by simp
    have s4: "s4 = upd_hdr (fst x) (\<lambda>h. h\<lparr>h_next := h_next (pm_hdr s3 (fst y)),
          h_size := add32 (h_size h) (add32 HDR (h_size (pm_hdr s3 (fst y))))\<rparr>) s3"
      by (simp add: s4_def szx ends True [symmetric] py [symmetric])
    have new: "pmm_inv n s4 (F(c := xs @ (fst x, snd x + (HDR + snd y)) # ys')) L"
      by (rule merge_right_inv [OF inv c F [unfolded ys] y lay])
        (simp_all add: s4 upd_hdr_def szx szy sum)
    have "glob s4 = glob s3"
      using glob_same [OF lay] pmm_inv_glob [OF inv c, of x] F by (simp add: s4 upd_hdr_def)
    moreover have sp: "span (xs @ (fst x, snd x + (HDR + snd y)) # ys') = span (F c)"
      using y by (auto simp: F ys blk_end_def HDR_def)
    ultimately have "covers n s4 (F(c := xs @ (fst x, snd x + (HDR + snd y)) # ys')) L"
      by (intro covers_step [OF cov c lay]) simp
    then show ?thesis using new sp by (auto simp: pmm_ok_def)
  qed
qed

lemma kfree_left:
  assumes ok: "pmm_ok n s F (b # L)" and c: "c < n" and F: "F c = xs @ ys"
    and s2: "s2 = upd_hdr (fst b) (\<lambda>h. h\<lparr>h_fence := FENCE_FREED\<rparr>)
       (s\<lparr>pm_free_cnt := add32 (pm_free_cnt s) (snd b)\<rparr>)"
    and p: "p = fst (last ((fl s c, 0) # xs))"
  defines "r \<equiv> (if fst b = add32 (add32 p HDR) (h_size (pm_hdr s2 p)) then
      (p, upd_hdr p (\<lambda>h. h\<lparr>h_size := add32 (h_size h) (add32 HDR (h_size (pm_hdr s2 (fst b))))\<rparr>) s2)
     else (fst b, upd_hdr p (\<lambda>h. h\<lparr>h_next := fst b\<rparr>)
       (upd_hdr (fst b) (\<lambda>h. h\<lparr>h_next := h_next (pm_hdr s2 p)\<rparr>) s2)))"
  obtains us x where "pmm_ok n (snd r) (F(c := us @ x # ys)) L" "fst r = fst x"
    "span (us @ x # ys) = span (F c) \<union> {fst b ..< blk_end b}" "same_layout s (snd r)"
    "pm_bytes (snd r) = pm_bytes s" "pm_printed (snd r) = pm_printed s"
proof -
  have inv: "pmm_inv n s F (b # L)" and cov: "covers n s F (b # L)" using ok by (auto simp: pmm_ok_def)
  note I = pmm_invD [OF inv c]
  have hb: "in_heap s b" and szb: "h_size (pm_hdr s (fst b)) = snd b" and e: "pm_end s < 2 ^ 32"
    using I(7) [of b] I(1) by (auto simp: live_def pmm_bounds_def)
  have hxs: "\<forall>x \<in> set xs. in_heap s x" using I(6) F by simp
  have pb: "p \<noteq> fst b"
    unfolding p using prev_addr(2) [OF I(1) c hxs hb] I(8) F by simp
  have lay: "same_layout s (snd r)" and oth: "pm_bytes (snd r) = pm_bytes s"
    "pm_printed (snd r) = pm_printed s" "pm_alloc_cnt (snd r) = pm_alloc_cnt s"
    "pm_free_cnt (snd r) = add32 (pm_free_cnt s) (snd b)"
    by (simp_all add: r_def s2 same_layout_def upd_hdr_def)
  have bg: "fst b \<noteq> pm_global s" using pmm_inv_glob [OF inv c, of b] by simp
  have glob: "glob (snd r) = glob s" if "p \<noteq> pm_global s"
    using glob_same [OF lay] bg that by (auto simp: r_def s2 upd_hdr_def)
  have hz: "h_size (pm_hdr s2 p) = h_size (pm_hdr s p)" using pb by (simp add: s2 upd_hdr_def)
  show thesis
  proof (cases "xs \<noteq> [] \<and> fst b = blk_end (last xs)")
    case True
    then obtain us x where xs: "xs = us @ [x]" and adj: "fst b = blk_end x"
      by (cases xs rule: rev_cases) auto
    have F': "F c = us @ x # ys" using F xs by simp
    have px: "p = fst x" by (simp add: p xs)
    have szx: "h_size (pm_hdr s (fst x)) = snd x"
      using free_list_split [of s c us "x # ys"] I(3) F' by auto
    have "add32 (add32 (fst x) HDR) (snd x) = fst b" "add32 (snd x) (add32 HDR (snd b)) = snd x + (HDR + snd b)"
      using hb e adj by (simp_all add: in_heap_def blk_end_def add32_eq)
    then have r: "r = (fst x, upd_hdr (fst x) (\<lambda>h. h\<lparr>h_size := snd x + (HDR + snd b)\<rparr>) s2)"
      using hz szx szb pb by (simp add: r_def px) (simp add: s2 upd_hdr_def szx)
    have new: "pmm_inv n (snd r) (F(c := us @ (fst x, snd x + (HDR + snd b)) # ys)) L"
    proof (rule merge_left_inv [OF inv c F' adj lay _ oth(3,4)])
      show "pm_hdr (snd r) = (pm_hdr s)(fst b := (pm_hdr s (fst b))\<lparr>h_fence := FENCE_FREED\<rparr>,
         fst x := (pm_hdr s (fst x))\<lparr>h_size := snd x + (HDR + snd b)\<rparr>)"
        using pb by (simp add: r s2 upd_hdr_def px)
    qed
    have sp: "span (us @ (fst x, snd x + (HDR + snd b)) # ys) = span (F c) \<union> {fst b ..< blk_end b}"
      using adj by (auto simp: F' blk_end_def HDR_def)
    have "p \<noteq> pm_global s" using pmm_inv_glob [OF inv c, of x] F' px by simp
    note glob' = glob [OF this]
    have "covers n (snd r) (F(c := us @ (fst x, snd x + (HDR + snd b)) # ys)) L"
      by (intro covers_step [OF cov c lay], unfold sp glob') (simp add: ac_simps)
    then have "pmm_ok n (snd r) (F(c := us @ (fst x, snd x + (HDR + snd b)) # ys)) L"
      using new by (simp add: pmm_ok_def)
    from that [OF this _ sp lay oth(1,2)] show thesis by (simp add: r)
  next
    case False
    have szp: "h_size (pm_hdr s p) = snd (last ((fl s c, 0) # xs))" "p \<noteq> pm_global s"
      "fst b \<noteq> add32 (add32 p HDR) (h_size (pm_hdr s p))"
    proof -
      have gl: "fl s c + HDR < pm_global s" "fl s c + HDR < fst b"
        using in_heap_fl [OF I(1) c I(2)] in_heap_fl [OF I(1) c hb] by (simp_all add: glob_def)
      show a: "h_size (pm_hdr s p) = snd (last ((fl s c, 0) # xs))"
      proof (cases xs rule: rev_cases)
        case (snoc us x)
        then show ?thesis using free_list_split [of s c us "x # ys"] I(3) F p by auto
      qed (use I(3) p in \<open>auto simp: free_list_def\<close>)
      have h: "in_heap s (last xs)" if "xs \<noteq> []" using hxs that by simp
      show "p \<noteq> pm_global s"
        using pmm_inv_glob [OF inv c, of "last xs"] F gl p by (cases xs rule: rev_cases) auto
      show "fst b \<noteq> add32 (add32 p HDR) (h_size (pm_hdr s p))"
      proof (cases xs rule: rev_cases)
        case Nil
        then show ?thesis unfolding a using gl hb e p
          by (auto simp: in_heap_def blk_end_def add32_eq)
      next
        case (snoc us x)
        then show ?thesis unfolding a using False h e p
          by (auto simp: in_heap_def blk_end_def add32_eq)
      qed
    qed
    then have r: "r = (fst b, upd_hdr p (\<lambda>h. h\<lparr>h_next := fst b\<rparr>)
       (upd_hdr (fst b) (\<lambda>h. h\<lparr>h_next := h_next (pm_hdr s2 p)\<rparr>) s2))"
      by (simp add: r_def hz)
    have new: "pmm_inv n (snd r) (F(c := xs @ b # ys)) L"
    proof (rule link_inv [OF inv c F lay p _ oth(3,4)])
      show "pm_hdr (snd r) = (pm_hdr s)(p := (pm_hdr s p)\<lparr>h_next := fst b\<rparr>,
         fst b := (pm_hdr s (fst b))\<lparr>h_next := h_next (pm_hdr s p), h_fence := FENCE_FREED\<rparr>)"
        using pb by (auto simp: r s2 upd_hdr_def fun_upd_twist)
    qed
    have sp: "span (xs @ b # ys) = span (F c) \<union> {fst b ..< blk_end b}" by (auto simp: F)
    have "covers n (snd r) (F(c := xs @ b # ys)) L"
      by (intro covers_step [OF cov c lay], unfold sp glob [OF szp(2)]) (simp add: ac_simps)
    then have "pmm_ok n (snd r) (F(c := xs @ b # ys)) L" using new by (simp add: pmm_ok_def)
    from that [OF this _ sp lay oth(1,2)] show thesis by (simp add: r)
  qed
qed

lemma kfree_step:
  assumes ok: "pmm_ok n s F (La @ b # Lb)" and c: "c < n"
  shows "\<exists>s' bs. kfree s c (fst b + HDR) = Some s' \<and> pmm_ok n s' (F(c := bs)) (La @ Lb) \<and>
    span bs = span (F c) \<union> {fst b ..< blk_end b} \<and> same_layout s s' \<and>
    pm_bytes s' = pm_bytes s \<and> pm_printed s' = pm_printed s"
proof -
  have ok': "pmm_ok n s F (b # La @ Lb)"
    using ok pmm_inv_rot [of n s F La b Lb] by (auto simp: pmm_ok_def covers_def)
  have inv: "pmm_inv n s F (b # La @ Lb)" using ok' by (simp add: pmm_ok_def)
  note I = pmm_invD [OF inv c]
  have hb: "in_heap s b" and lv: "live s b" and e: "pm_end s < 2 ^ 32"
    using I(7) [of b] I(1) by (auto simp: pmm_bounds_def)
  define xs where "xs = takeWhile (\<lambda>x. fst x \<le> fst b) (F c)"
  define ys where "ys = dropWhile (\<lambda>x. fst x \<le> fst b) (F c)"
  have F: "F c = xs @ ys" by (simp add: xs_def ys_def)
  let ?s1 = "s\<lparr>pm_free_cnt := add32 (pm_free_cnt s) (snd b)\<rparr>"
  define s2 where "s2 = upd_hdr (fst b) (\<lambda>h. h\<lparr>h_fence := FENCE_FREED\<rparr>) ?s1"
  define p where "p = fst (last ((fl s c, 0) # xs))"
  define q where "q = (if ys = [] then fl s c else fst (hd ys))"
  have tf: "sub32 (fst b + HDR) HDR = fst b"
    using hb e by (simp add: in_heap_def blk_end_def sub32_eq)
  have fl2: "fl s2 c = fl s c" "fl ?s1 c = fl s c" by (simp_all add: s2_def upd_hdr_def fl_def)
  have hF: "\<forall>x \<in> set (xs @ ys). in_heap s x" using I(6) F by simp
  have sg: "seg (pm_hdr s2) (h_next (pm_hdr s2 (fl s c))) (xs @ ys) (fl s c)"
  proof -
    have "seg (pm_hdr s2) (fl s c) ((fl s c, 0) # xs @ ys) (fl s c)"
      using I(3) F unfolding free_list_def s2_def upd_hdr_def by (simp add: seg_fence del: seg.simps)
    then show ?thesis by simp
  qed
  have "kfree_for s2 (fl s c) (fst b + HDR) (h_next (pm_hdr s2 (fl s c))) (fst (fl s c, 0::nat))
      = Some (fst (last ((fl s c, 0) # xs)), if ys = [] then fl s c else fst (hd ys))"
  proof (rule kfree_for_stop [OF sg])
    show "fl s c \<notin> fst ` set (xs @ ys)" using fl_notin [OF I(1) c hF] .
    show "\<forall>x \<in> set (xs @ ys). fst x + HDR < 2 ^ 32"
    proof
      fix x assume "x \<in> set (xs @ ys)"
      then have "in_heap s x" using hF by blast
      then show "fst x + HDR < 2 ^ 32" using e by (simp add: in_heap_def blk_end_def)
    qed
    show "\<forall>x \<in> set xs. fst x + HDR \<le> fst b + HDR"
      using set_takeWhileD by (fastforce simp: xs_def)
    show "ys \<noteq> [] \<Longrightarrow> fst b + HDR < fst (hd ys) + HDR"
      using hd_dropWhile [of "\<lambda>x. fst x \<le> fst b" "F c"] by (simp add: ys_def)
  qed
  then have loop: "kfree_for s2 (fl s c) (fst b + HDR) (h_next (pm_hdr s2 (fl s c))) (fl s c) = Some (p, q)"
    by (simp add: p_def q_def)
  define r where "r = (if fst b = add32 (add32 p HDR) (h_size (pm_hdr s2 p)) then
      (p, upd_hdr p (\<lambda>h. h\<lparr>h_size := add32 (h_size h) (add32 HDR (h_size (pm_hdr s2 (fst b))))\<rparr>) s2)
     else (fst b, upd_hdr p (\<lambda>h. h\<lparr>h_next := fst b\<rparr>)
       (upd_hdr (fst b) (\<lambda>h. h\<lparr>h_next := h_next (pm_hdr s2 p)\<rparr>) s2)))"
  obtain us x where R: "pmm_ok n (snd r) (F(c := us @ x # ys)) (La @ Lb)" "fst r = fst x"
    "span (us @ x # ys) = span (F c) \<union> {fst b ..< blk_end b}" "same_layout s (snd r)"
    "pm_bytes (snd r) = pm_bytes s" "pm_printed (snd r) = pm_printed s"
    using kfree_left [OF ok' c F s2_def p_def, folded r_def] by metis
  define s4 where "s4 = (if q = add32 (add32 (fst x) HDR) (h_size (pm_hdr (snd r) (fst x))) then
       upd_hdr (fst x) (\<lambda>h. h\<lparr>h_next := h_next (pm_hdr (snd r) q),
          h_size := add32 (h_size h) (add32 HDR (h_size (pm_hdr (snd r) q)))\<rparr>) (snd r) else snd r)"
  have "kfree s c (fst b + HDR) = kfree_real ?s1 c (fst b + HDR)"
    using lv by (simp add: kfree_def tf live_def) (simp add: HDR_def)
  also have "\<dots> = Some s4"
  proof -
    have nf: "(h_fence (pm_hdr ?s1 (fst b)) \<noteq> FENCE_LIVE) = False" using lv by (simp add: live_def)
    have rp: "r = (fst x, snd r)" using R(2) by (simp add: prod_eq_iff)
    show ?thesis
      unfolding kfree_real_def Let_def tf nf if_False s2_def [symmetric] fl2 loop
        Option.bind.bind_lunit prod.case r_def [symmetric]
      by (subst rp) (simp only: prod.case s4_def)
  qed
  finally have run: "kfree s c (fst b + HDR) = Some s4" .
  have c': "(F(c := us @ x # ys)) c = us @ x # ys" by simp
  have q': "q = (if ys = [] then fl (snd r) c else fst (hd ys))"
    using same_layout_simps(1) [OF R(4)] by (simp add: q_def)
  note K = kfree_right [OF R(1) c c' q', folded s4_def]
  from K(1) obtain bs where "pmm_ok n s4 (F(c := bs)) (La @ Lb)" "span bs = span (us @ x # ys)"
    unfolding fun_upd_upd c' by blast
  then show ?thesis using run K(2-4) R(3-6) by (auto simp: same_layout_def)
qed

end
