(* ===== verification/Alloc_Spec.thy ===== *)
theory Alloc_Spec
  imports Alloc_Props
begin

text \<open>
  The memory manager seen from its callers: the state that \<^verbatim>\<open>pmm_init\<close> leaves, histories of
  requests, and the properties of \<open>kalloc\<close>, \<open>kfree\<close> and \<open>mem_query\<close>.
\<close>

section \<open>Initialisation\<close>

lemma init_sentinels_hdr:
  "pm_fl (init_sentinels n s) = pm_fl s" "pm_start (init_sentinels n s) = pm_start s"
  "pm_end (init_sentinels n s) = pm_end s" "pm_alloc_cnt (init_sentinels n s) = pm_alloc_cnt s"
  "pm_free_cnt (init_sentinels n s) = pm_free_cnt s"
  "c < n \<Longrightarrow> pm_hdr (init_sentinels n s) (fl s c) =
     (pm_hdr s (fl s c))\<lparr>h_next := fl s c, h_size := 0\<rparr>"
proof (induction n)
  case (Suc n)
  {
    case 6
    have fl: "fl (init_sentinels n s) = fl s" using Suc by (simp add: fl_def fun_eq_iff)
    have same: "pm_hdr (init_sentinels m s) (fl s n) = pm_hdr s (fl s n)" if "m \<le> n" for m
      using that
    proof (induction m)
      case (Suc m)
      have "pm_fl (init_sentinels m s) = pm_fl s" by (induction m) (simp_all add: upd_hdr_def Let_def)
      then show ?case using Suc by (simp add: upd_hdr_def Let_def fl_def HDR_def)
    qed simp
    from 6 fl same [of n] Suc show ?case
      by (auto simp: upd_hdr_def Let_def less_Suc_eq fl_inj)
  }
qed (simp_all add: upd_hdr_def Let_def)

lemma init_ok:
  assumes "0 < pm_fl s0" "fl s0 n < align hs PG_SIZE" "align hs PG_SIZE + HDR \<le> he" "he < 2 ^ 32"
    "pm_alloc_cnt s0 = pm_free_cnt s0"
  shows "pmm_ok n (pmm_init n hs he s0) (\<lambda>_. []) []"
    "glob (pmm_init n hs he s0) = (align hs PG_SIZE, he - align hs PG_SIZE - HDR)"
proof -
  let ?s = "pmm_init n hs he s0" and ?a = "align hs PG_SIZE"
  let ?i = "init_sentinels n (s0\<lparr>pm_start := ?a, pm_end := he\<rparr>)"
  have sz: "sub32 (sub32 he ?a) HDR = he - ?a - HDR"
    using assms(3,4) by (simp add: sub32_eq)
  have eqs: "pm_fl ?s = pm_fl s0" "pm_start ?s = ?a" "pm_end ?s = he" "pm_global ?s = ?a"
    "pm_alloc_cnt ?s = pm_free_cnt ?s"
    "pm_hdr ?s = (pm_hdr ?i)(?a := (pm_hdr ?i ?a)\<lparr>h_next := ?a, h_size := he - ?a - HDR\<rparr>)"
    using assms(5) by (simp_all add: pmm_init_def Let_def upd_hdr_def init_sentinels_hdr sz)
  have fl: "fl ?s c = fl s0 c" for c by (simp add: fl_def eqs)
  have flc: "fl s0 c < ?a" if "c < n" for c
    using that assms(2) by (auto simp: fl_def HDR_def)
  show g: "glob ?s = (?a, he - ?a - HDR)" by (simp add: glob_def eqs)
  have fls: "free_list ?s c []" if c: "c < n" for c
  proof -
    have "pm_hdr ?i (fl s0 c) = (pm_hdr s0 (fl s0 c))\<lparr>h_next := fl s0 c, h_size := 0\<rparr>"
      using init_sentinels_hdr(6) [OF c, of "s0\<lparr>pm_start := ?a, pm_end := he\<rparr>"] by (simp add: fl_def)
    then show ?thesis using flc [OF c] by (simp add: free_list_def fl eqs(6))
  qed
  have "pmm_inv n ?s (\<lambda>_. []) []"
    using assms fls by (auto simp: pmm_inv_def pmm_bounds_def pmm_counts_def in_heap_def blk_end_def
        g fl eqs)
  moreover have "covers n ?s (\<lambda>_. []) []"
    using assms(3) by (auto simp: covers_def g blk_end_def eqs)
  ultimately show "pmm_ok n ?s (\<lambda>_. []) []" by (simp add: pmm_ok_def)
qed

section \<open>Histories of requests\<close>

datatype request = Alloc nat nat | Free nat nat  \<comment> \<open>processor and size; processor and position\<close>

fun pmm_exec :: "pmm \<Rightarrow> (ptr \<times> nat) list \<Rightarrow> request list \<Rightarrow> (pmm \<times> (ptr \<times> nat) list) result option"
  where
  "pmm_exec s ps [] = Some (Inr (s, ps))"
| "pmm_exec s ps (Alloc c sz # rs) =
     Option.bind (kalloc s c sz) (\<lambda>r. case r of
         Inl e \<Rightarrow> Some (Inl e)
       | Inr (p, s') \<Rightarrow> pmm_exec s' ((p, sz) # ps) rs)"
| "pmm_exec s ps (Free c i # rs) =
     (if i < length ps then
        Option.bind (kfree s c (fst (ps ! i)))
          (\<lambda>s'. pmm_exec s' (take i ps @ drop (Suc i) ps) rs)
      else pmm_exec s ps rs)"

fun valid_request :: "nat \<Rightarrow> request \<Rightarrow> bool" where
  "valid_request n (Alloc c sz) \<longleftrightarrow> c < n \<and> sz \<le> 2 ^ 32 - 32"
| "valid_request n (Free c i) \<longleftrightarrow> c < n"

definition held :: "ptr \<times> nat \<Rightarrow> block \<Rightarrow> bool" where
  "held a b \<longleftrightarrow> fst a = fst b + HDR \<and> snd a \<le> snd b"

definition handed_out :: "pmm \<Rightarrow> (ptr \<times> nat) list \<Rightarrow> bool" where
  "handed_out s ps \<longleftrightarrow>
     (\<forall>a \<in> set ps. pm_start s \<le> fst a \<and> fst a + snd a \<le> pm_end s) \<and>
     sorted_wrt (\<lambda>a b. {fst a ..< fst a + snd a} \<inter> {fst b ..< fst b + snd b} = {}) ps"

lemma held_disjoint:
  assumes "held a x" "held b y" "nolap x y"
  shows "{fst a ..< fst a + snd a} \<inter> {fst b ..< fst b + snd b} = {}"
  using assms by (auto simp: held_def geom)

lemma held_handed_out:
  assumes "list_all2 held ps L" "pmm_ok n s F L" "0 < n"
  shows "handed_out s ps"
proof -
  have inv: "pmm_inv n s F L" using assms(2) by (simp add: pmm_ok_def)
  note I = pmm_invD [OF inv assms(3)]
  have "\<forall>a \<in> set ps. pm_start s \<le> fst a \<and> fst a + snd a \<le> pm_end s"
  proof
    fix a assume "a \<in> set ps"
    then obtain i where i: "i < length ps" "a = ps ! i" by (auto simp: in_set_conv_nth)
    then have "held a (L ! i)" "L ! i \<in> set L"
      using assms(1) by (auto simp: list_all2_conv_all_nth)
    then show "pm_start s \<le> fst a \<and> fst a + snd a \<le> pm_end s"
      using I(7) [of "L ! i"] by (auto simp: held_def in_heap_def blk_end_def)
  qed
  moreover have "sorted_wrt (\<lambda>a b. {fst a ..< fst a + snd a} \<inter> {fst b ..< fst b + snd b} = {}) ps"
    unfolding sorted_wrt_iff_nth_less
  proof (intro allI impI)
    fix i j assume ij: "i < j" "j < length ps"
    then have "held (ps ! i) (L ! i)" "held (ps ! j) (L ! j)" "nolap (L ! i) (L ! j)"
      using assms(1) I(5) by (auto simp: sorted_wrt_iff_nth_less list_all2_conv_all_nth)
    then show "{fst (ps ! i) ..< fst (ps ! i) + snd (ps ! i)} \<inter>
        {fst (ps ! j) ..< fst (ps ! j) + snd (ps ! j)} = {}"
      by (rule held_disjoint)
  qed
  ultimately show ?thesis by (simp add: handed_out_def)
qed

lemma exec_step:
  assumes "pmm_ok n s F L" "list_all2 held ps L" "\<forall>r \<in> set rs. valid_request n r"
  shows "pmm_exec s ps rs = Some (Inl AssertFail) \<or>
    (\<exists>s' ps' F' L'. pmm_exec s ps rs = Some (Inr (s', ps')) \<and> pmm_ok n s' F' L' \<and>
       list_all2 held ps' L' \<and> same_layout s s')"
  using assms
proof (induction s ps rs arbitrary: F L rule: pmm_exec.induct)
  case (1 s ps)
  then show ?case by (auto simp: same_layout_def)
next
  case (2 s ps c sz rs)
  have v: "c < n" "sz \<le> 2 ^ 32 - 32" using "2.prems"(3) by auto
  from kalloc_step [OF "2.prems"(1) v] show ?case
  proof (elim disjE exE conjE)
    fix b F' s'
    assume k: "kalloc s c sz = Some (Inr (fst b + HDR, s'))" "sz \<le> snd b"
      and ok: "pmm_ok n s' F' (b # L)" and lay: "same_layout s s'"
    have "list_all2 held ((fst b + HDR, sz) # ps) (b # L)"
      unfolding list_all2_Cons using "2.prems"(2) k(2) by (intro conjI) (simp_all add: held_def [of "(_, _)"])
    from "2.IH" [OF k(1) refl refl ok this] k(1) "2.prems"(3) lay
    show ?case by (auto simp: same_layout_def)
  qed simp
next
  case (3 s ps c i rs)
  show ?case
  proof (cases "i < length ps")
    case True
    have len: "length ps = length L" using "3.prems"(2) by (rule list_all2_lengthD)
    have L: "L = take i L @ L ! i # drop (Suc i) L" using True len by (simp add: id_take_nth_drop)
    have h: "fst (ps ! i) = fst (L ! i) + HDR"
      using "3.prems"(2) True by (simp add: list_all2_conv_all_nth held_def)
    have c: "c < n" using "3.prems"(3) by simp
    have "pmm_ok n s F (take i L @ L ! i # drop (Suc i) L)"
      using "3.prems"(1) by (simp only: L [symmetric])
    from kfree_step [OF this c] obtain s' bs where
      k: "kfree s c (fst (L ! i) + HDR) = Some s'"
      and ok: "pmm_ok n s' (F(c := bs)) (take i L @ drop (Suc i) L)" and lay: "same_layout s s'"
      by blast
    have "list_all2 held (take i ps @ drop (Suc i) ps) (take i L @ drop (Suc i) L)"
      using "3.prems"(2) by (intro list_all2_appendI list_all2_takeI list_all2_dropI)
    from "3.IH"(1) [OF True k [folded h] ok this] "3.prems"(3)
    have "pmm_exec s' (take i ps @ drop (Suc i) ps) rs = Some (Inl AssertFail) \<or>
      (\<exists>s'' ps' F' L'. pmm_exec s' (take i ps @ drop (Suc i) ps) rs = Some (Inr (s'', ps')) \<and>
         pmm_ok n s'' F' L' \<and> list_all2 held ps' L' \<and> same_layout s' s'')" by simp
    moreover have "pmm_exec s ps (Free c i # rs) = pmm_exec s' (take i ps @ drop (Suc i) ps) rs"
      using True k h by simp
    moreover have "same_layout s s''" if "same_layout s' s''" for s''
      using lay that by (simp add: same_layout_def)
    ultimately show ?thesis by metis
  qed (use 3 in auto)
qed

section \<open>Properties\<close>

text \<open>The state of the \<^verbatim>\<open>.bss\<close> data of \<^verbatim>\<open>alloc.c\<close> before \<^verbatim>\<open>pmm_init\<close>, for an image at 1 MB.\<close>

definition pmm_boot :: pmm where
  "pmm_boot = \<lparr>pm_start = 0, pm_end = 0, pm_fl = 0x104000, pm_global = NULL,
     pm_hdr = (\<lambda>_. \<lparr>h_next = NULL, h_size = 0, h_fence = 0\<rparr>), pm_bytes = (\<lambda>_. 0),
     pm_alloc_cnt = 0, pm_free_cnt = 0, pm_printed = []\<rparr>"

lemma boot_layout:
  "0 < pm_fl pmm_boot" "fl pmm_boot 8 < align 0x200000 PG_SIZE"
  "align 0x200000 PG_SIZE + HDR \<le> 0x2000000" "(0x2000000::nat) < 2 ^ 32"
  "pm_alloc_cnt pmm_boot = pm_free_cnt pmm_boot" "align 0x200000 PG_SIZE = 0x200000"
  by (simp_all add: pmm_boot_def fl_def HDR_def align_def PG_SIZE_def add32_def sub32_def)

lemmas boot_ok = init_ok [OF boot_layout(1-5)]

text \<open>C1: from the state \<^verbatim>\<open>pmm_init\<close> leaves, any history of \<^verbatim>\<open>kalloc\<close> and \<^verbatim>\<open>kfree\<close> requests on any
  processors terminates; it either stops at the assertion that no page is left, or the
  regions still handed out lie in the heap and no two of them overlap.\<close>

theorem pmm_history_safe:
  assumes "0 < pm_fl s0" "fl s0 n < align hs PG_SIZE" "align hs PG_SIZE + HDR \<le> he" "he < 2 ^ 32"
    and "pm_alloc_cnt s0 = pm_free_cnt s0" "0 < n" "\<forall>r \<in> set rs. valid_request n r"
  shows "pmm_exec (pmm_init n hs he s0) [] rs = Some (Inl AssertFail) \<or>
    (\<exists>s' ps. pmm_exec (pmm_init n hs he s0) [] rs = Some (Inr (s', ps)) \<and> handed_out s' ps)"
  using exec_step [OF init_ok(1) [OF assms(1-5)] _ assms(7), of "[]"] held_handed_out [OF _ _ assms(6)]
  by (simp add: list_all2_Nil) blast

theorem pmm_history_safe_witness:
  "pmm_exec (pmm_init 8 0x200000 0x2000000 pmm_boot) []
       [Alloc 0 100, Alloc 1 20000, Free 1 1, Alloc 0 8] = Some (Inl AssertFail) \<or>
   (\<exists>s' ps. pmm_exec (pmm_init 8 0x200000 0x2000000 pmm_boot) []
       [Alloc 0 100, Alloc 1 20000, Free 1 1, Alloc 0 8] = Some (Inr (s', ps)) \<and> handed_out s' ps)"
  by (rule pmm_history_safe [OF boot_layout(1-5)]) simp_all

text \<open>C3: \<^verbatim>\<open>kalloc\<close> always returns.  It fails only when no block of the caller's free list is large
  enough and the global remainder cannot give a page; otherwise the block lies in the heap,
  holds at least the requested size, is zeroed without touching another byte, and the
  invariant and the partition of the heap hold with it added to the blocks in use.\<close>

theorem kalloc_correct:
  assumes "pmm_ok n s F L" "c < n" "sz \<le> 2 ^ 32 - 32"
  shows "kalloc s c sz = Some (Inl AssertFail) \<and> (\<forall>b \<in> set (F c). snd b < align sz 16) \<and>
      snd (glob s) \<le> max (align sz 16) PG_SIZE + HDR \<or>
    (\<exists>b F' s'. kalloc s c sz = Some (Inr (fst b + HDR, s')) \<and> sz \<le> snd b \<and> in_heap s b \<and>
      pmm_ok n s' F' (b # L) \<and> (\<forall>d. d \<noteq> c \<longrightarrow> F' d = F d) \<and> same_layout s s' \<and>
      pm_bytes s' = memset0 (fst b + HDR) sz (pm_bytes s))"
  by (rule kalloc_step [OF assms])

theorem kalloc_correct_witness:
  "\<exists>b F' s'. kalloc (pmm_init 8 0x200000 0x2000000 pmm_boot) 3 100 = Some (Inr (fst b + HDR, s')) \<and>
     100 \<le> snd b \<and> pmm_ok 8 s' F' [b]"
  using kalloc_correct [OF boot_ok(1), of 3 100]
  by (auto simp: boot_ok(2) boot_layout(6) PG_SIZE_def HDR_def align_def add32_def sub32_def)

text \<open>C4: \<^verbatim>\<open>kfree\<close> of a block in use always returns, on whichever processor it runs: it prints
  nothing, changes no payload byte, keeps the invariant, and the free list of that processor
  gains exactly the bytes of the block, coalesced or not.\<close>

theorem kfree_correct:
  assumes "pmm_ok n s F (La @ b # Lb)" "c < n"
  shows "\<exists>s' bs. kfree s c (fst b + HDR) = Some s' \<and> pmm_ok n s' (F(c := bs)) (La @ Lb) \<and>
    span bs = span (F c) \<union> {fst b ..< blk_end b} \<and> same_layout s s' \<and>
    pm_bytes s' = pm_bytes s \<and> pm_printed s' = pm_printed s"
  by (rule kfree_step [OF assms])

lemma boot_kalloc:
  "\<exists>b F' s'. kalloc (pmm_init 8 0x200000 0x2000000 pmm_boot) 3 100 = Some (Inr (fst b + HDR, s')) \<and>
     pmm_ok 8 s' F' [b]"
  using kalloc_step [OF boot_ok(1), of 3 100]
  by (auto simp: boot_ok(2) boot_layout(6) PG_SIZE_def HDR_def align_def add32_def sub32_def)

theorem kfree_correct_witness:
  "\<exists>b s F' s' bs. kalloc (pmm_init 8 0x200000 0x2000000 pmm_boot) 3 100 = Some (Inr (fst b + HDR, s)) \<and>
     kfree s 5 (fst b + HDR) = Some s' \<and> pmm_ok 8 s' (F'(5 := bs)) []"
proof -
  obtain b F' s where k: "kalloc (pmm_init 8 0x200000 0x2000000 pmm_boot) 3 100 = Some (Inr (fst b + HDR, s))"
    and ok: "pmm_ok 8 s F' ([] @ b # [])" using boot_kalloc by auto
  from kfree_correct [OF ok, of 5] k show ?thesis by auto
qed

text \<open>\<^verbatim>\<open>mem_query\<close> reports the size of the heap and, modulo the width of the counters, the
  sum of the sizes of the blocks in use.\<close>

theorem mem_query_correct:
  assumes "pmm_ok n s F L" "0 < n"
  shows "mem_query s = (pm_end s - pm_start s, sum_list (map snd L) mod 2 ^ 32)"
proof -
  have inv: "pmm_inv n s F L" using assms(1) by (simp add: pmm_ok_def)
  note I = pmm_invD [OF inv assms(2)]
  have "pm_start s \<le> pm_end s" "pm_end s < 2 ^ 32"
    using I(1,2) by (auto simp: in_heap_def blk_end_def pmm_bounds_def)
  moreover have "sub32 (pm_alloc_cnt s) (pm_free_cnt s) = sum_list (map snd L) mod 2 ^ 32"
  proof -
    let ?S = "sum_list (map snd L)" and ?f = "pm_free_cnt s" and ?a = "pm_alloc_cnt s" and ?M = "2 ^ 32 :: nat"
    have "sub32 ?a ?f = (?a mod ?M + (?M - ?f mod ?M)) mod ?M" by (simp only: sub32_def mod_add_left_eq)
    also have "\<dots> = ((?f + ?S) mod ?M + (?M - ?f mod ?M)) mod ?M"
      using I(11) by (simp only: pmm_counts_def)
    also have "(?f + ?S) mod ?M = (?f mod ?M + ?S) mod ?M" by (rule mod_add_left_eq [symmetric])
    also have "((?f mod ?M + ?S) mod ?M + (?M - ?f mod ?M)) mod ?M
        = ((?f mod ?M + ?S) + (?M - ?f mod ?M)) mod ?M" by (rule mod_add_left_eq)
    also have "(?f mod ?M + ?S) + (?M - ?f mod ?M) = ?S + ?M"
      using mod_less_divisor [of ?M ?f] by simp
    finally show ?thesis by simp
  qed
  ultimately show ?thesis by (simp add: mem_query_def sub32_eq)
qed

theorem mem_query_correct_witness:
  "mem_query (pmm_init 8 0x200000 0x2000000 pmm_boot) = (0x2000000 - 0x200000, 0)"
  using mem_query_correct [OF boot_ok(1)]
  by (simp add: pmm_init_def Let_def upd_hdr_def init_sentinels_hdr boot_layout(6))

end
