(* ===== verification/Pool.thy ===== *)
theory Pool
  imports Prelude
begin

text \<open>
  The object pool of \<^verbatim>\<open>kernel/src/pool.c\<close>: a ring of \<^verbatim>\<open>POOL_LEN\<close> pointers under a mutex,
  used by the scheduler to hand dead tasks to the collector.  Each operation below is the
  critical section under the pool's lock, so it is one atomic step.
\<close>

definition POOL_LEN :: nat where
  "POOL_LEN = 20"

record pool =
  pl_mem :: "ptr list"
  pl_head :: nat
  pl_tail :: nat

definition pool_dequeue :: "pool \<Rightarrow> ptr \<times> pool" where
  "pool_dequeue p =
     (if pl_head p \<noteq> pl_tail p then
        (let ret = pl_mem p ! pl_head p;
             h = pl_head p + 1
         in (ret, p\<lparr>pl_head := (if h = POOL_LEN then 0 else h)\<rparr>))
      else (NULL, p))"

text \<open>
  One pass of the loop of \<open>enqueue\<close>: \<open>None\<close> when the ring is full, where the code releases the
  lock, yields and tries again.
\<close>

definition pool_enqueue :: "pool \<Rightarrow> ptr \<Rightarrow> pool option" where
  "pool_enqueue p x =
     (if (pl_tail p + 1) mod POOL_LEN = pl_head p then None
      else
        (let t = pl_tail p + 1
         in Some (p\<lparr>pl_mem := (pl_mem p)[pl_tail p := x],
                    pl_tail := (if t = POOL_LEN then 0 else t)\<rparr>)))"

definition pool_init :: pool where
  "pool_init = \<lparr>pl_mem = replicate POOL_LEN NULL, pl_head = 0, pl_tail = 0\<rparr>"

section \<open>Abstraction to a list, invariant\<close>

definition pool_contents :: "pool \<Rightarrow> ptr list" where
  "pool_contents p = ring_seg (pl_mem p) (pl_head p) (ring_dist POOL_LEN (pl_head p) (pl_tail p))"

definition pool_wf :: "pool \<Rightarrow> bool" where
  "pool_wf p \<longleftrightarrow> length (pl_mem p) = POOL_LEN \<and> pl_head p < POOL_LEN \<and> pl_tail p < POOL_LEN"

lemma POOL_LEN_pos [simp]: "0 < POOL_LEN" "POOL_LEN \<noteq> 0"
  by (simp_all add: POOL_LEN_def)

lemma pool_wrap: "i < POOL_LEN \<Longrightarrow> (if i + 1 = POOL_LEN then 0 else i + 1) = (i + 1) mod POOL_LEN"
  by (auto simp: mod_if)

lemma pool_init_wf [simp]: "pool_wf pool_init" "pool_contents pool_init = []"
  by (simp_all add: pool_wf_def pool_init_def pool_contents_def)

definition pool_deq :: "pool \<Rightarrow> (ptr \<times> pool) option" where
  "pool_deq p = (if pl_head p = pl_tail p then None else Some (pool_dequeue p))"

lemma pool_enqueue_contents:
  assumes "pool_wf p" "pool_enqueue p x = Some p'"
  shows "pool_wf p' \<and> pool_contents p' = pool_contents p @ [x]"
proof -
  let ?h = "pl_head p" and ?t = "pl_tail p"
  have wf: "length (pl_mem p) = POOL_LEN" "?h < POOL_LEN" "?t < POOL_LEN"
    using assms(1) by (auto simp: pool_wf_def)
  have nf: "(?t + 1) mod POOL_LEN \<noteq> ?h"
    and p': "p' = p\<lparr>pl_mem := (pl_mem p)[?t := x], pl_tail := (?t + 1) mod POOL_LEN\<rparr>"
    using assms(2) pool_wrap [OF wf(3)] by (auto simp: pool_enqueue_def Let_def split: if_splits)
  let ?k = "ring_dist POOL_LEN ?h ?t"
  have k: "?k < length (pl_mem p)" and t: "(?h + ?k) mod length (pl_mem p) = ?t"
    using wf by (simp_all add: ring_dist_head)
  have "ring_seg ((pl_mem p)[?t := x]) ?h (Suc ?k) = ring_seg (pl_mem p) ?h ?k @ [x]"
    using ring_seg_push [OF k, of ?h x] t by simp
  then show ?thesis
    using wf nf by (simp add: p' pool_wf_def pool_contents_def ring_dist_push)
qed

lemma pool_dequeue_contents:
  assumes "pool_wf p" "pool_deq p = Some (x, p')"
  shows "pool_wf p' \<and> pool_contents p = x # pool_contents p'"
proof -
  let ?h = "pl_head p" and ?t = "pl_tail p"
  have wf: "length (pl_mem p) = POOL_LEN" "?h < POOL_LEN" "?t < POOL_LEN"
    using assms(1) by (auto simp: pool_wf_def)
  have ne: "?h \<noteq> ?t" and x: "x = pl_mem p ! ?h"
    and p': "p' = p\<lparr>pl_head := (?h + 1) mod POOL_LEN\<rparr>"
    using assms(2) pool_wrap [OF wf(2)]
    by (auto simp: pool_deq_def pool_dequeue_def Let_def split: if_splits)
  have "ring_seg (pl_mem p) ?h (Suc (ring_dist POOL_LEN ((?h + 1) mod POOL_LEN) ?t))
      = x # ring_seg (pl_mem p) (Suc ?h) (ring_dist POOL_LEN ((?h + 1) mod POOL_LEN) ?t)"
    using wf by (simp add: ring_seg_Cons x)
  moreover have "ring_seg (pl_mem p) ((?h + 1) mod POOL_LEN) k = ring_seg (pl_mem p) (Suc ?h) k" for k
    using ring_seg_mod [of "pl_mem p" "?h + 1" k] wf by simp
  ultimately show ?thesis
    using wf ne ring_dist_pop [OF wf(2,3) ne] by (simp add: p' pool_wf_def pool_contents_def)
qed

interpretation pool: bounded_fifo pool_enqueue pool_deq pool_contents pool_wf "POOL_LEN - 1"
proof
  fix q x q'
  assume "pool_wf q" "pool_enqueue q x = Some q'"
  then show "pool_wf q' \<and> pool_contents q' = pool_contents q @ [x]"
    by (rule pool_enqueue_contents)
next
  fix q x q'
  assume "pool_wf q" "pool_deq q = Some (x, q')"
  then show "pool_wf q' \<and> pool_contents q = x # pool_contents q'"
    by (rule pool_dequeue_contents)
next
  fix q x
  assume wf: "pool_wf q"
  show "pool_enqueue q x = None \<longleftrightarrow> length (pool_contents q) = POOL_LEN - 1"
    using wf ring_full_dist [of "pl_head q" POOL_LEN "pl_tail q"]
      ring_dist_push [of "pl_head q" POOL_LEN "pl_tail q"]
      ring_dist_less [of POOL_LEN "pl_head q" "Suc (pl_tail q) mod POOL_LEN"]
    by (auto simp: pool_enqueue_def pool_contents_def pool_wf_def Let_def simp del: ring_dist_less)
  show "pool_deq q = None \<longleftrightarrow> pool_contents q = []"
    using wf ring_dist_eq_0 [of "pl_head q" POOL_LEN "pl_tail q"]
    by (auto simp: pool_deq_def pool_contents_def pool_wf_def simp flip: length_0_conv)
  show "length (pool_contents q) \<le> POOL_LEN - 1"
    using ring_dist_less [OF POOL_LEN_pos(1), of "pl_head q" "pl_tail q"]
    unfolding pool_contents_def length_ring_seg by linarith
qed


section \<open>Properties\<close>

text \<open>Whatever order \<^verbatim>\<open>enqueue\<close> and \<^verbatim>\<open>dequeue\<close> are called in, an initialised pool delivers the
  accepted pointers in the order they came, none lost and none twice, and never holds more
  than \<^verbatim>\<open>POOL_LEN - 1\<close> of them.\<close>

theorem pool_fifo:
  "case fifo_run pool_enqueue pool_deq pool_init ops of (q, ins, outs) \<Rightarrow>
     ins = outs @ pool_contents q \<and> length ins \<le> length outs + 19"
proof -
  obtain q ins outs where run: "fifo_run pool_enqueue pool_deq pool_init ops = (q, ins, outs)"
    by (cases "fifo_run pool_enqueue pool_deq pool_init ops") auto
  have "ins = outs @ pool_contents q"
    using pool.run_fifo [OF pool_init_wf(1) run] by simp
  moreover have "length ins \<le> length outs + 19"
    using pool.run_balance [OF pool_init_wf(1) run] by (simp add: POOL_LEN_def)
  ultimately show ?thesis by (simp add: run)
qed

end
