(* ===== verification/Irq.thy ===== *)
theory Irq
  imports Prelude "HOL-Library.Multiset"
begin

text \<open>
  The interrupt dispatcher of \<^verbatim>\<open>kernel/src/os.c\<close>.  The circular list that starts at
  \<^verbatim>\<open>irq_guard\<close> is the list of the registered handlers, the guard being its end.  A handler is a
  name; what it does with the kernel state is the argument \<open>call\<close>, since handlers are function
  pointers.
\<close>

definition EVENT_NULL :: int where
  "EVENT_NULL = 0"

record irq =
  irq_seq :: int
  irq_event :: int
  irq_handler :: nat

fun os_on_irq :: "int \<Rightarrow> int \<Rightarrow> nat \<Rightarrow> irq list \<Rightarrow> irq list" where
  "os_on_irq seq event h [] = [\<lparr>irq_seq = seq, irq_event = event, irq_handler = h\<rparr>]"
| "os_on_irq seq event h (p # ps) =
     (if irq_seq p > seq
      then \<lparr>irq_seq = seq, irq_event = event, irq_handler = h\<rparr> # p # ps
      else p # os_on_irq seq event h ps)"

text \<open>The loop of \<^verbatim>\<open>os_trap\<close>: every matching handler is called with the original context.\<close>

fun trap_loop :: "(nat \<Rightarrow> int \<Rightarrow> 'c \<Rightarrow> 's \<Rightarrow> 'c option \<times> 's) \<Rightarrow> irq list \<Rightarrow> int \<Rightarrow> 'c \<Rightarrow> 'c option \<Rightarrow> 's
    \<Rightarrow> 'c option \<times> 's" where
  "trap_loop call [] ev c ret s = (ret, s)"
| "trap_loop call (h # hs) ev c ret s =
     (if irq_event h = EVENT_NULL \<or> irq_event h = ev then
        (case call (irq_handler h) ev c s of
           (Some n, s') \<Rightarrow> trap_loop call hs ev c (Some n) s'
         | (None, s') \<Rightarrow> trap_loop call hs ev c ret s')
      else trap_loop call hs ev c ret s)"

definition os_trap :: "(nat \<Rightarrow> int \<Rightarrow> 'c \<Rightarrow> 's \<Rightarrow> 'c option \<times> 's) \<Rightarrow> irq list \<Rightarrow> int \<Rightarrow> 'c option \<Rightarrow> 's
    \<Rightarrow> ('c \<times> 's) result" where
  "os_trap call hs ev ctx s =
     (case ctx of
        None \<Rightarrow> Inl NullDeref
      | Some c \<Rightarrow> (case trap_loop call hs ev c (Some c) s of
           (None, _) \<Rightarrow> Inl AssertFail
         | (Some n, s') \<Rightarrow> Inr (n, s')))"

section \<open>Registration is a stable sort\<close>

definition register :: "irq list \<Rightarrow> irq \<Rightarrow> irq list" where
  "register hs r = os_on_irq (irq_seq r) (irq_event r) (irq_handler r) hs"

lemma register_Cons: "register (p # ps) r =
   (if irq_seq p > irq_seq r then r # p # ps else p # register ps r)"
  by (simp add: register_def)

lemma register_Nil: "register [] r = [r]"
  by (simp add: register_def)

lemma mset_register [simp]: "mset (register hs r) = add_mset r (mset hs)"
  by (induction hs) (auto simp: register_Nil register_Cons)

lemma set_register [simp]: "set (register hs r) = insert r (set hs)"
  by (induction hs) (auto simp: register_Nil register_Cons)

lemma sorted_register: "sorted (map irq_seq hs) \<Longrightarrow> sorted (map irq_seq (register hs r))"
  by (induction hs) (auto simp: register_Nil register_Cons)

lemma filter_register:
  "sorted (map irq_seq hs) \<Longrightarrow>
   filter (\<lambda>x. k = irq_seq x) (register hs r) = filter (\<lambda>x. k = irq_seq x) (hs @ [r])"
proof (induction hs)
  case (Cons a hs)
  have "filter (\<lambda>x. irq_seq r = irq_seq x) (a # hs) = []" if "irq_seq r < irq_seq a"
    using Cons.prems that by (auto simp: filter_empty_conv)
  then show ?case using Cons by (auto simp: register_Cons)
qed (simp add: register_Nil)

lemma register_all:
  "sorted (map irq_seq (foldl register [] rs)) \<and> mset (foldl register [] rs) = mset rs \<and>
   (\<forall>k. filter (\<lambda>x. k = irq_seq x) (foldl register [] rs) = filter (\<lambda>x. k = irq_seq x) rs)"
  by (induction rs rule: rev_induct) (simp_all add: sorted_register filter_register)

section \<open>Which context a trap resumes\<close>

text \<open>The handlers an event reaches, and their run without the dispatcher.\<close>

definition matching :: "int \<Rightarrow> irq list \<Rightarrow> nat list" where
  "matching ev hs = map irq_handler (filter (\<lambda>h. irq_event h = EVENT_NULL \<or> irq_event h = ev) hs)"

fun run_handlers :: "(nat \<Rightarrow> 's \<Rightarrow> 'c option \<times> 's) \<Rightarrow> nat list \<Rightarrow> 's \<Rightarrow> 'c option list \<times> 's" where
  "run_handlers f [] s = ([], s)"
| "run_handlers f (h # hs) s =
     (let (r, s1) = f h s; (rs, s2) = run_handlers f hs s1 in (r # rs, s2))"

definition last_context :: "'c \<Rightarrow> 'c option list \<Rightarrow> 'c" where
  "last_context c rs = last (c # map the (filter (\<lambda>r. r \<noteq> None) rs))"

lemma trap_loop_run:
  "trap_loop call hs ev c (Some d) s =
     (case run_handlers (\<lambda>h. call h ev c) (matching ev hs) s of
        (rs, s') \<Rightarrow> (Some (last_context d rs), s'))"
proof (induction hs arbitrary: d s)
  case (Cons h hs)
  show ?case
    by (cases "call (irq_handler h) ev c s" rule: prod.exhaust, cases "fst (call (irq_handler h) ev c s)")
      (auto simp: Cons.IH matching_def last_context_def split: prod.splits)
qed (simp add: matching_def last_context_def)

section \<open>Properties\<close>

text \<open>C14: the list of handlers after any sequence of \<^verbatim>\<open>os->on_irq\<close> calls is the stable sort of
  the registrations by \<^verbatim>\<open>seq\<close>: handlers with equal sequence numbers run in the order they were
  registered.\<close>

theorem on_irq_stable_sort:
  "foldl (\<lambda>hs r. os_on_irq (irq_seq r) (irq_event r) (irq_handler r) hs) [] rs = sort_key irq_seq rs"
proof -
  have "foldl register [] rs = sort_key irq_seq rs"
    using register_all [of rs] by (intro properties_for_sort_key [symmetric]) auto
  then show ?thesis by (simp add: register_def [abs_def])
qed

text \<open>A trap calls exactly the handlers registered for the event or for every event, in list
  order, each with the interrupted context, and resumes the last context a handler returned, or
  the interrupted one when none did; the assertion on a missing context never fails.\<close>

theorem os_trap_correct:
  "os_trap call hs ev (Some c) s =
     (case run_handlers (\<lambda>h. call h ev c) (matching ev hs) s of
        (rs, s') \<Rightarrow> Inr (last_context c rs, s'))"
  by (simp add: os_trap_def trap_loop_run split: prod.splits)

end
