(* ===== verification/Systems.thy ===== *)
theory Systems
  imports Prelude
begin

text \<open>
  Interfaces that several components share: step relations with an invariant, with mutual exclusion and
  with a goal that is approached; channels whose bytes or tasks leave in the order they entered; and
  operations that simulate those of an abstract state.  Every component that has such a contract
  interprets the locale on its own definitions.
\<close>

section \<open>Step relations\<close>

locale safe_steps =
  fixes step :: "'s \<Rightarrow> 's \<Rightarrow> bool"
    and inv :: "'s \<Rightarrow> bool"
  assumes step_keeps: "step s t \<Longrightarrow> inv s \<Longrightarrow> inv t"
begin

lemma reach: "step\<^sup>*\<^sup>* s t \<Longrightarrow> inv s \<Longrightarrow> inv t"
  by (induction rule: rtranclp_induct) (auto intro: step_keeps)

text \<open>What every step keeps while the invariant holds is kept on every path.\<close>

lemma reach_stable:
  assumes "step\<^sup>*\<^sup>* s t" "inv s" "P s" "\<And>s t. step s t \<Longrightarrow> inv s \<Longrightarrow> P s \<Longrightarrow> P t"
  shows "P t"
proof -
  have "inv t \<and> P t" using assms(1-3) by (induction rule: rtranclp_induct) (auto intro: step_keeps assms(4))
  then show ?thesis by blast
qed

end

text \<open>At most one of the threads, processors or holders is inside.\<close>

locale exclusive = safe_steps +
  fixes inside :: "'s \<Rightarrow> 'i \<Rightarrow> bool"
  assumes alone: "inv s \<Longrightarrow> inside s i \<Longrightarrow> inside s j \<Longrightarrow> i = j"
begin

lemma never_two: "step\<^sup>*\<^sup>* s t \<Longrightarrow> inv s \<Longrightarrow> inside t i \<Longrightarrow> inside t j \<Longrightarrow> i = j"
  using alone reach by blast

end

text \<open>From every state there is a step that comes nearer to the goal.\<close>

locale approaching = safe_steps +
  fixes goal :: "'s \<Rightarrow> bool"
    and distance :: "'s \<Rightarrow> nat"
  assumes nearer: "inv s \<Longrightarrow> \<not> goal s \<Longrightarrow> \<exists>t. step s t \<and> (goal t \<or> distance t < distance s)"
begin

lemma reaches_goal: "inv s \<Longrightarrow> \<exists>t. step\<^sup>*\<^sup>* s t \<and> inv t \<and> goal t"
proof (induction "distance s" arbitrary: s rule: less_induct)
  case less
  show ?case
  proof (cases "goal s")
    case False
    then obtain t where t: "step s t" "goal t \<or> distance t < distance s" using nearer less.prems by blast
    have "inv t" using step_keeps t(1) less.prems by blast
    then obtain u where "step\<^sup>*\<^sup>* t u" "inv u" "goal u" using less.hyps [of t] t(2) by blast
    then show ?thesis using t(1) by (meson converse_rtranclp_into_rtranclp)
  qed (use less.prems in blast)
qed

lemma goal_ahead: "step\<^sup>*\<^sup>* s t \<Longrightarrow> inv s \<Longrightarrow> \<exists>u. step\<^sup>*\<^sup>* t u \<and> goal u"
  using reach reaches_goal by blast

end

section \<open>Channels\<close>

text \<open>
  An operation takes some elements in and hands some out.  The run collects both; it fails when an
  operation does.
\<close>

fun channel_run :: "('s \<Rightarrow> 'op \<Rightarrow> ('s \<times> 'a list \<times> 'a list) option) \<Rightarrow> 's \<Rightarrow> 'op list \<Rightarrow> ('s \<times> 'a list \<times> 'a list) option" where
  "channel_run act s [] = Some (s, [], [])"
| "channel_run act s (op # ops) =
     (case act s op of
        None \<Rightarrow> None
      | Some (t, i, out) \<Rightarrow> map_option (\<lambda>(u, is, os). (u, i @ is, out @ os)) (channel_run act t ops))"

locale channel =
  fixes act :: "'s \<Rightarrow> 'op \<Rightarrow> ('s \<times> 'a list \<times> 'a list) option"
    and inside :: "'s \<Rightarrow> 'a list"
    and ok :: "'s \<Rightarrow> bool"
  assumes in_order: "ok s \<Longrightarrow> act s op = Some (t, i, out) \<Longrightarrow> ok t \<and> inside s @ i = out @ inside t"
begin

lemma run_in_order:
  "ok s \<Longrightarrow> channel_run act s ops = Some (t, ins, outs) \<Longrightarrow> ok t \<and> inside s @ ins = outs @ inside t"
proof (induction ops arbitrary: s ins outs)
  case (Cons op ops)
  then obtain u i out ins' outs' where u: "act s op = Some (u, i, out)" "channel_run act u ops = Some (t, ins', outs')"
    "ins = i @ ins'" "outs = out @ outs'"
    by (auto split: option.splits)
  have "ok u" "inside s @ i = out @ inside u" using in_order [OF Cons.prems(1) u(1)] by auto
  moreover from this(1) have "ok t" "inside u @ ins' = outs' @ inside t" using Cons.IH [OF _ u(2)] by auto
  ultimately show ?case using u(3,4) by (metis append.assoc)
qed simp

end

text \<open>A channel whose operations never fail.\<close>

locale total_channel = channel +
  assumes answers: "ok s \<Longrightarrow> act s op \<noteq> None"
begin

lemma run_answers: "ok s \<Longrightarrow> \<exists>t ins outs. channel_run act s ops = Some (t, ins, outs) \<and> ok t \<and> inside s @ ins = outs @ inside t"
proof -
  have "\<exists>r. channel_run act s ops = Some r" if "ok s" for s
    using that
  proof (induction ops arbitrary: s)
    case (Cons op ops)
    then obtain t i out where t: "act s op = Some (t, i, out)" using answers [of s op] by fastforce
    then show ?case using Cons in_order by fastforce
  qed simp
  moreover assume "ok s"
  ultimately show ?thesis using run_in_order by (metis prod_cases3)
qed

end

text \<open>A bounded queue is a channel: what it refuses does not enter.\<close>

fun fifo_act :: "('q \<Rightarrow> 'a \<Rightarrow> 'q option) \<Rightarrow> ('q \<Rightarrow> ('a \<times> 'q) option) \<Rightarrow> 'q \<Rightarrow> 'a fifo_op \<Rightarrow> ('q \<times> 'a list \<times> 'a list) option" where
  "fifo_act enq deq q (Enq x) = Some (case enq q x of None \<Rightarrow> (q, [], []) | Some q' \<Rightarrow> (q', [x], []))"
| "fifo_act enq deq q Deq = Some (case deq q of None \<Rightarrow> (q, [], []) | Some (x, q') \<Rightarrow> (q', [], [x]))"

sublocale bounded_fifo \<subseteq> channel_of: total_channel "fifo_act enq deq" contents invar
proof unfold_locales
  show "invar t \<and> contents s @ i = out @ contents t"
    if "invar s" "fifo_act enq deq s op = Some (t, i, out)" for s op t i out
    using that by (cases op) (auto split: option.splits dest: enq_Some deq_Some)
  show "fifo_act enq deq s op \<noteq> None" for s op by (cases op) simp_all
qed

section \<open>Simulations\<close>

text \<open>Operations with an answer; an error ends the run.\<close>

fun op_run :: "('s \<Rightarrow> 'op \<Rightarrow> ('out \<times> 's) result) \<Rightarrow> 's \<Rightarrow> 'op list \<Rightarrow> 'out list result" where
  "op_run act s [] = Inr []"
| "op_run act s (op # ops) = and_then (act s op) (\<lambda>(r, t). and_then (op_run act t ops) (\<lambda>out. Inr (r # out)))"

definition same_answer :: "('c \<Rightarrow> 'a \<Rightarrow> bool) \<Rightarrow> ('out \<times> 'c) result \<Rightarrow> ('out \<times> 'a) result \<Rightarrow> bool" where
  "same_answer rel x y = rel_sum (=) (rel_prod (=) rel) x y"

locale simulation =
  fixes conc :: "'c \<Rightarrow> 'op \<Rightarrow> ('out \<times> 'c) result"
    and abst :: "'a \<Rightarrow> 'op \<Rightarrow> ('out \<times> 'a) result"
    and rel :: "'c \<Rightarrow> 'a \<Rightarrow> bool"
  assumes simulates: "rel c a \<Longrightarrow> same_answer rel (conc c op) (abst a op)"
begin

lemma runs_agree: "rel c a \<Longrightarrow> op_run conc c ops = op_run abst a ops"
proof (induction ops arbitrary: c a)
  case (Cons op ops)
  have "rel_sum (=) (rel_prod (=) rel) (conc c op) (abst a op)"
    using simulates [OF Cons.prems] by (simp add: same_answer_def)
  then show ?case using Cons.IH by (auto elim!: rel_sum.cases)
qed simp

end

end
