(* ===== verification/Sync.thy ===== *)
theory Sync
  imports Systems
begin

text \<open>
  Interrupt nesting of \<^verbatim>\<open>klib/src/intr.c\<close> and the exchange-based mutex of
  \<^verbatim>\<open>klib/src/pthread.c\<close>.
\<close>

section \<open>Nested interrupt disabling\<close>

text \<open>Per processor: the nesting count, whether interrupts have to come back, the CPU flag.\<close>

record intr_cpu =
  ncli :: int
  intena :: bool
  if_flag :: bool

definition intr_close :: "intr_cpu \<Rightarrow> intr_cpu result" where
  "intr_close c =
     (let int_on = if_flag c; c1 = c\<lparr>if_flag := False\<rparr>
      in if ncli c1 \<ge> 0
         then Inr (c1\<lparr>intena := intena c1 \<or> int_on, ncli := ncli c1 + 1\<rparr>)
         else Inl AssertFail)"

definition intr_open :: "intr_cpu \<Rightarrow> intr_cpu result" where
  "intr_open c =
     (let c1 = c\<lparr>ncli := ncli c - 1\<rparr>;
          c2 = (if ncli c1 = 0 \<and> intena c1 then c1\<lparr>intena := False, if_flag := True\<rparr> else c1)
      in if ncli c2 \<ge> 0 then Inr c2 else Inl AssertFail)"

datatype intr_op = Close | Open

fun intr_run :: "intr_cpu \<Rightarrow> intr_op list \<Rightarrow> intr_cpu result" where
  "intr_run c [] = Inr c"
| "intr_run c (Close # ops) =
     (case intr_close c of Inl e \<Rightarrow> Inl e | Inr c' \<Rightarrow> intr_run c' ops)"
| "intr_run c (Open # ops) =
     (case intr_open c of Inl e \<Rightarrow> Inl e | Inr c' \<Rightarrow> intr_run c' ops)"

text \<open>The nesting depth after a sequence, \<open>None\<close> when an open has no matching close.\<close>

fun depth :: "nat \<Rightarrow> intr_op list \<Rightarrow> nat option" where
  "depth d [] = Some d"
| "depth d (Close # ops) = depth (Suc d) ops"
| "depth d (Open # ops) = (case d of 0 \<Rightarrow> None | Suc d' \<Rightarrow> depth d' ops)"

definition intr_at :: "bool \<Rightarrow> nat \<Rightarrow> intr_cpu" where
  "intr_at f d = \<lparr>ncli = int d, intena = (f \<and> 0 < d), if_flag = (f \<and> d = 0)\<rparr>"

lemma intr_close_at: "intr_close (intr_at f d) = Inr (intr_at f (Suc d))"
  by (auto simp: intr_close_def intr_at_def Let_def)

lemma intr_open_at:
  "intr_open (intr_at f d) = (case d of 0 \<Rightarrow> Inl AssertFail | Suc d' \<Rightarrow> Inr (intr_at f d'))"
  by (auto simp: intr_open_def intr_at_def Let_def split: nat.splits)

lemma intr_run_at:
  "intr_run (intr_at f d) ops =
     (case depth d ops of None \<Rightarrow> Inl AssertFail | Some d' \<Rightarrow> Inr (intr_at f d'))"
  by (induction d ops rule: depth.induct) (auto simp: intr_close_at intr_open_at split: nat.splits)

text \<open>However deeply \<^verbatim>\<open>_intr_close\<close> and \<^verbatim>\<open>_intr_open\<close> are nested, interrupts are off while
  the depth is positive and, when it returns to zero, they are on exactly if they were on
  before the first close; an unmatched open, and nothing else, fails its assertion.\<close>

theorem intr_nesting:
  "intr_run \<lparr>ncli = 0, intena = False, if_flag = f\<rparr> ops =
     (case depth 0 ops of
        None \<Rightarrow> Inl AssertFail
      | Some d \<Rightarrow> Inr \<lparr>ncli = int d, intena = (f \<and> 0 < d), if_flag = (f \<and> d = 0)\<rparr>)"
  using intr_run_at [of f 0 ops] by (simp add: intr_at_def split: option.splits)

section \<open>The mutex\<close>

definition atomic_xchg :: "u32 \<Rightarrow> u32 \<Rightarrow> u32 \<times> u32" where  \<comment> \<open>old value, new content\<close>
  "atomic_xchg l v = (l, v)"

text \<open>One turn of the loop of \<^verbatim>\<open>pthread_mutex_lock\<close>: whether it is left, and the lock.\<close>

definition mutex_lock_turn :: "u32 \<Rightarrow> bool \<times> u32" where
  "mutex_lock_turn l = (let (old, l') = atomic_xchg l 1 in (old = 0, l'))"

definition mutex_unlock :: "u32 \<Rightarrow> u32" where
  "mutex_unlock l = snd (atomic_xchg l 0)"

definition mutex_trylock :: "u32 \<Rightarrow> u32 \<times> u32" where
  "mutex_trylock l = atomic_xchg l 1"

datatype pc = Outside | Spinning | Critical

text \<open>Any number of threads on one lock, interleaved at each atomic exchange.\<close>

inductive mutex_step :: "u32 \<times> (nat \<Rightarrow> pc) \<Rightarrow> u32 \<times> (nat \<Rightarrow> pc) \<Rightarrow> bool" where
  call: "p i = Outside \<Longrightarrow> mutex_step (l, p) (l, p(i := Spinning))"
| turn: "p i = Spinning \<Longrightarrow> mutex_lock_turn l = (won, l') \<Longrightarrow>
     mutex_step (l, p) (l', p(i := (if won then Critical else Spinning)))"
| attempt: "p i = Outside \<Longrightarrow> mutex_trylock l = (r, l') \<Longrightarrow>
     mutex_step (l, p) (l', p(i := (if r = 0 then Critical else Outside)))"
| unlock: "p i = Critical \<Longrightarrow> mutex_step (l, p) (mutex_unlock l, p(i := Outside))"

inductive_cases mutex_stepE: "mutex_step (l, p) s'"

definition mutex_inv :: "u32 \<times> (nat \<Rightarrow> pc) \<Rightarrow> bool" where
  "mutex_inv s \<longleftrightarrow>
     fst s = 0 \<and> (\<forall>i. snd s i \<noteq> Critical) \<or>
     fst s = 1 \<and> (\<exists>i. \<forall>j. snd s j = Critical \<longleftrightarrow> j = i)"

lemma mutex_inv_same:
  "mutex_inv (l, p) \<Longrightarrow> \<forall>j. p' j = Critical \<longleftrightarrow> p j = Critical \<Longrightarrow> mutex_inv (l, p')"
  by (simp add: mutex_inv_def)

lemma mutex_inv_word: "mutex_inv (l, p) \<Longrightarrow> l \<noteq> 0 \<Longrightarrow> l = 1"
  by (auto simp: mutex_inv_def)

lemma mutex_inv_step:
  assumes "mutex_step s s'" "mutex_inv s"
  shows "mutex_inv s'"
  using assms
proof (induction rule: mutex_step.induct)
  case (call p i l)
  then show ?case by (intro mutex_inv_same [OF call(2)]) auto
next
  case (turn p i l won l')
  show ?case
  proof (cases "l = 0")
    case True
    with turn show ?thesis by (auto simp: mutex_inv_def mutex_lock_turn_def atomic_xchg_def)
  next
    case False
    with turn have "\<not> won" "l' = l"
      using mutex_inv_word [OF turn(3)] by (auto simp: mutex_lock_turn_def atomic_xchg_def)
    with turn show ?thesis using mutex_inv_same [of l p "p(i := Spinning)"] by auto
  qed
next
  case (attempt p i l r l')
  show ?case
  proof (cases "l = 0")
    case True
    with attempt show ?thesis by (auto simp: mutex_inv_def mutex_trylock_def atomic_xchg_def)
  next
    case False
    with attempt have "r \<noteq> 0" "l' = l"
      using mutex_inv_word [OF attempt(3)] by (auto simp: mutex_trylock_def atomic_xchg_def)
    with attempt show ?thesis using mutex_inv_same [of l p "p(i := Outside)"] by auto
  qed
next
  case (unlock p i l)
  then show ?case
    by (auto simp: mutex_inv_def mutex_unlock_def atomic_xchg_def)
qed

interpretation threads: exclusive mutex_step mutex_inv "\<lambda>s i. snd s i = Critical"
  by unfold_locales (rule mutex_inv_step, assumption+, auto simp: mutex_inv_def)

text \<open>C15: with any number of threads that lock, try to lock and unlock in any interleaving, from
  a free mutex never two of them are inside, and a thread inside always finds the word set.\<close>

theorem mutex_exclusion:
  assumes "mutex_step\<^sup>*\<^sup>* (0, \<lambda>_. Outside) (l, p)" "p i = Critical"
  shows "l = 1 \<and> (\<forall>j. p j = Critical \<longrightarrow> j = i)"
proof -
  have init: "mutex_inv (0, \<lambda>_. Outside)" by (simp add: mutex_inv_def)
  have "j = i" if "p j = Critical" for j using threads.never_two [OF assms(1) init] assms(2) that by simp
  moreover have "l = 1" using threads.reach [OF assms(1) init] assms(2) by (auto simp: mutex_inv_def)
  ultimately show ?thesis by blast
qed

theorem mutex_exclusion_witness:
  "\<exists>l p. mutex_step\<^sup>*\<^sup>* (0, \<lambda>_. Outside) (l, p) \<and> p 3 = Critical \<and> p 5 = Spinning \<and>
     l = 1 \<and> (\<forall>j. p j = Critical \<longrightarrow> j = 3)"
proof -
  let ?p1 = "(\<lambda>_. Outside)(3 :: nat := Critical)"
  let ?p2 = "?p1(5 := Spinning)"
  have "mutex_step (0, \<lambda>_. Outside) (1, (\<lambda>_. Outside)(3 :: nat := (if (0::u32) = 0 then Critical else Outside)))"
    by (rule mutex_step.attempt) (simp_all add: mutex_trylock_def atomic_xchg_def)
  moreover have "mutex_step (1, ?p1) (1, ?p2)" by (rule mutex_step.call) simp
  ultimately have reach: "mutex_step\<^sup>*\<^sup>* (0, \<lambda>_. Outside) (1, ?p2)"
    by (simp add: rtranclp.rtrancl_into_rtrancl)
  have "(1::u32) = 1 \<and> (\<forall>j. ?p2 j = Critical \<longrightarrow> j = 3)"
    by (rule mutex_exclusion [OF reach, of 3]) simp
  then show ?thesis using reach by (intro exI [of _ 1] exI [of _ ?p2]) auto
qed

end
