(* ===== verification/Kmt_Spin.thy ===== *)
theory Kmt_Spin
  imports Sync
begin

text \<open>
  The re-entrant spin locks of \<^verbatim>\<open>kernel/src/kmt.c\<close>, on top of the mutex and of the nesting of
  interrupts.  A call that finds the lock taken by another task keeps spinning: it is \<open>None\<close>
  until the lock word is cleared.
\<close>

record spinlock =
  sl_reen :: u32
  sl_owner :: ptr
  sl_locked :: u32

definition kmt_spin_init :: "spinlock \<Rightarrow> spinlock" where
  "kmt_spin_init lk = lk\<lparr>sl_locked := 0\<rparr>"

definition kmt_spin_lock :: "spinlock \<Rightarrow> ptr \<Rightarrow> intr_cpu \<Rightarrow> (spinlock \<times> intr_cpu) result option" where
  "kmt_spin_lock lk current c =
     (case intr_close c of
        Inl e \<Rightarrow> Some (Inl e)
      | Inr c1 \<Rightarrow>
          if sl_locked lk \<noteq> 0 then
            (if sl_owner lk = current then
               (case intr_open c1 of
                  Inl e \<Rightarrow> Some (Inl e)
                | Inr c2 \<Rightarrow> Some (Inr (lk\<lparr>sl_reen := sl_reen lk + 1\<rparr>, c2)))
             else None)
          else
            (case mutex_lock_turn (sl_locked lk) of (won, l') \<Rightarrow>
               if \<not> won then None
               else (case intr_close c1 of
                   Inl e \<Rightarrow> Some (Inl e)
                 | Inr c2 \<Rightarrow> (case intr_open c2 of
                     Inl e \<Rightarrow> Some (Inl e)
                   | Inr c3 \<Rightarrow>
                       Some (Inr (lk\<lparr>sl_locked := l', sl_reen := 1, sl_owner := current\<rparr>, c3))))))"

definition kmt_spin_unlock :: "spinlock \<Rightarrow> ptr \<Rightarrow> intr_cpu \<Rightarrow> (spinlock \<times> intr_cpu) result" where
  "kmt_spin_unlock lk current c =
     (if sl_locked lk \<noteq> 0 then
        (if sl_owner lk \<noteq> current then Inr (lk, c)
         else
           (let lk1 = lk\<lparr>sl_reen := sl_reen lk - 1\<rparr>
            in if sl_reen lk1 = 0 then
                 (case intr_open c of
                    Inl e \<Rightarrow> Inl e
                  | Inr c' \<Rightarrow> Inr (lk1\<lparr>sl_owner := NULL, sl_locked := mutex_unlock (sl_locked lk1)\<rparr>, c'))
               else Inr (lk1, c)))
      else Inl AssertFail)"

section \<open>Nested use by one task\<close>

fun spin_run :: "ptr \<Rightarrow> spinlock \<times> intr_cpu \<Rightarrow> intr_op list \<Rightarrow> (spinlock \<times> intr_cpu) result option" where
  "spin_run p s [] = Some (Inr s)"
| "spin_run p (lk, c) (Close # ops) =
     (case kmt_spin_lock lk p c of
        None \<Rightarrow> None | Some (Inl e) \<Rightarrow> Some (Inl e) | Some (Inr s') \<Rightarrow> spin_run p s' ops)"
| "spin_run p (lk, c) (Open # ops) =
     (case kmt_spin_unlock lk p c of Inl e \<Rightarrow> Some (Inl e) | Inr s' \<Rightarrow> spin_run p s' ops)"

definition spin_at :: "ptr \<Rightarrow> nat \<Rightarrow> spinlock" where
  "spin_at p d = (if d = 0 then \<lparr>sl_reen = 0, sl_owner = NULL, sl_locked = 0\<rparr>
                  else \<lparr>sl_reen = of_nat d, sl_owner = p, sl_locked = 1\<rparr>)"

definition spin_cpu :: "bool \<Rightarrow> nat \<Rightarrow> nat \<Rightarrow> intr_cpu" where
  "spin_cpu f n d = intr_at f (if d = 0 then n else Suc n)"

lemma spin_lock_at:
  "kmt_spin_lock (spin_at p d) p (spin_cpu f n d) = Some (Inr (spin_at p (Suc d), spin_cpu f n (Suc d)))"
  by (simp add: kmt_spin_lock_def spin_at_def spin_cpu_def intr_close_at intr_open_at mutex_lock_turn_def
      atomic_xchg_def)

lemma of_nat_u32_eq_0: "d < 2 ^ 32 \<Longrightarrow> (of_nat d :: u32) = 0 \<longleftrightarrow> d = 0"
proof -
  assume d: "d < 2 ^ 32"
  have "(of_nat d :: u32) = 0 \<longleftrightarrow> unat (of_nat d :: u32) = 0" by (simp add: unat_eq_0)
  also have "\<dots> \<longleftrightarrow> d = 0" using d by (simp add: unat_of_nat)
  finally show ?thesis .
qed

lemma spin_unlock_at:
  assumes "d < 2 ^ 32"
  shows "kmt_spin_unlock (spin_at p (Suc d)) p (spin_cpu f n (Suc d)) = Inr (spin_at p d, spin_cpu f n d)"
  using of_nat_u32_eq_0 [OF assms]
  by (auto simp: kmt_spin_unlock_def spin_at_def spin_cpu_def intr_open_at mutex_unlock_def
      atomic_xchg_def Let_def)

lemma spin_run_at:
  "d + length ops < 2 ^ 32 \<Longrightarrow>
   spin_run p (spin_at p d, spin_cpu f n d) ops =
     (case depth d ops of None \<Rightarrow> Some (Inl AssertFail)
      | Some d' \<Rightarrow> Some (Inr (spin_at p d', spin_cpu f n d')))"
proof (induction d ops rule: depth.induct)
  case (3 d ops)
  show ?case
  proof (cases d)
    case 0
    then show ?thesis by (simp add: kmt_spin_unlock_def spin_at_def)
  next
    case (Suc d')
    then show ?thesis using 3 by (simp add: spin_unlock_at)
  qed
qed (simp_all add: spin_lock_at)

section \<open>Properties\<close>

text \<open>A task may take a spin lock it holds again: after any sequence of lock and unlock calls by
  one task the lock is held exactly while unlocks are outstanding, interrupts are off from the
  first lock to the last unlock and then restored, and an unlock too many fails its assertion.\<close>

theorem spin_reentrant:
  assumes "length ops < 2 ^ 32"
  shows "spin_run p (spin_at p 0, spin_cpu f n 0) ops =
     (case depth 0 ops of None \<Rightarrow> Some (Inl AssertFail)
      | Some d \<Rightarrow> Some (Inr (spin_at p d, spin_cpu f n d)))"
  using spin_run_at [of 0 ops] assms by simp

theorem spin_reentrant_witness:
  "spin_run 7 (spin_at 7 0, spin_cpu True 0 0) [Close, Close, Open, Open] =
     Some (Inr (spin_at 7 0, spin_cpu True 0 0))"
  using spin_reentrant [of "[Close, Close, Open, Open]" 7 True 0] by simp

text \<open>While one task holds a spin lock, another task's \<^verbatim>\<open>spin_lock\<close> keeps spinning and its
  \<^verbatim>\<open>spin_unlock\<close> changes neither the lock nor its own interrupt state.\<close>

theorem spin_excludes:
  assumes "p \<noteq> q" "0 < d"
  shows "kmt_spin_lock (spin_at p d) q (spin_cpu f n 0) = None \<and>
    kmt_spin_unlock (spin_at p d) q c = Inr (spin_at p d, c)"
  using assms by (simp add: kmt_spin_lock_def kmt_spin_unlock_def spin_at_def spin_cpu_def intr_close_at)

theorem spin_excludes_witness:
  "kmt_spin_lock (spin_at 7 2) 8 (spin_cpu True 0 0) = None \<and>
   kmt_spin_unlock (spin_at 7 2) 8 (spin_cpu True 0 0) = Inr (spin_at 7 2, spin_cpu True 0 0)"
  by (rule spin_excludes) simp_all

end
