(* ===== verification/Kmt_Sem.thy ===== *)
theory Kmt_Sem
  imports Systems "HOL-Library.Word"
begin

unbundle bit_operations_syntax

text \<open>
  The semaphores of \<^verbatim>\<open>kernel/src/kmt.c\<close>.  Their bodies run under the semaphore's mutex with
  interrupts closed, so each call is one atomic step up to its final \<^verbatim>\<open>_yield\<close>; waiting tasks
  are kept in a ring of \<^verbatim>\<open>POOL_LEN\<close> pointers whose fill level is the negated value.
\<close>

definition SEM_POOL :: nat where
  "SEM_POOL = 20"

definition TASK_SLEEP :: u32 where
  "TASK_SLEEP = 1"

record semaphore =
  sem_value :: int
  sem_pool :: "ptr list"
  sem_head :: nat
  sem_tail :: nat

type_synonym attrs = "ptr \<Rightarrow> u32"

definition set_flag :: "attrs \<Rightarrow> ptr \<Rightarrow> u32 \<Rightarrow> attrs" where
  "set_flag at p f = at(p := at p OR f)"

definition neg_flag :: "attrs \<Rightarrow> ptr \<Rightarrow> u32 \<Rightarrow> attrs" where
  "neg_flag at p f = at(p := at p AND NOT f)"

definition kmt_sem_init :: "ptr list \<Rightarrow> int \<Rightarrow> semaphore" where
  "kmt_sem_init junk v = \<lparr>sem_value = v, sem_pool = junk, sem_head = 0, sem_tail = 0\<rparr>"

definition sem_add_task :: "semaphore \<Rightarrow> attrs \<Rightarrow> ptr \<Rightarrow> semaphore \<times> attrs" where
  "sem_add_task s at current =
     (let s1 = s\<lparr>sem_pool := (sem_pool s)[sem_tail s := current], sem_tail := sem_tail s + 1\<rparr>;
          at1 = set_flag at current TASK_SLEEP;
          s2 = (if sem_tail s1 \<ge> SEM_POOL then s1\<lparr>sem_tail := sem_tail s1 - SEM_POOL\<rparr> else s1)
      in (s2, at1))"

definition sem_remove_task :: "semaphore \<Rightarrow> attrs \<Rightarrow> semaphore \<times> attrs" where
  "sem_remove_task s at =
     (let at1 = neg_flag at (sem_pool s ! sem_head s) TASK_SLEEP;
          h = sem_head s + 1
      in (s\<lparr>sem_head := (if h \<ge> SEM_POOL then h - SEM_POOL else h)\<rparr>, at1))"

text \<open>The third component tells whether the caller was parked.\<close>

definition kmt_sem_wait :: "semaphore \<Rightarrow> attrs \<Rightarrow> ptr \<Rightarrow> semaphore \<times> attrs \<times> bool" where
  "kmt_sem_wait s at current =
     (let s1 = s\<lparr>sem_value := sem_value s - 1\<rparr>
      in if sem_value s1 < 0
         then (case sem_add_task s1 at current of (s2, at2) \<Rightarrow> (s2, at2, True))
         else (s1, at, False))"

definition kmt_sem_signal :: "semaphore \<Rightarrow> attrs \<Rightarrow> semaphore \<times> attrs" where
  "kmt_sem_signal s at =
     (let s1 = s\<lparr>sem_value := sem_value s + 1\<rparr>
      in if sem_value s1 \<le> 0 then sem_remove_task s1 at else (s1, at))"

section \<open>Abstract counting semaphore\<close>

text \<open>The specification: a count and a queue of the tasks that wait.\<close>

type_synonym asem = "int \<times> ptr list"

fun asem_wait :: "asem \<Rightarrow> ptr \<Rightarrow> asem \<times> bool" where
  "asem_wait (v, q) p = (if v \<le> 0 then ((v - 1, q @ [p]), True) else ((v - 1, q), False))"

fun asem_signal :: "asem \<Rightarrow> asem \<times> ptr option" where
  "asem_signal (v, []) = ((v + 1, []), None)"
| "asem_signal (v, p # q) = ((v + 1, q), Some p)"

definition waiters :: "semaphore \<Rightarrow> nat" where
  "waiters s = nat (- sem_value s)"

definition sem_queue :: "semaphore \<Rightarrow> ptr list" where
  "sem_queue s = ring_seg (sem_pool s) (sem_head s) (waiters s)"

definition sem_abs :: "semaphore \<Rightarrow> asem" where
  "sem_abs s = (sem_value s, sem_queue s)"

definition sem_wf :: "semaphore \<Rightarrow> bool" where
  "sem_wf s \<longleftrightarrow> length (sem_pool s) = SEM_POOL \<and> sem_head s < SEM_POOL \<and> waiters s \<le> SEM_POOL \<and>
     sem_tail s = (sem_head s + waiters s) mod SEM_POOL"

lemma SEM_POOL_pos [simp]: "0 < SEM_POOL" "SEM_POOL \<noteq> 0"
  by (simp_all add: SEM_POOL_def)

lemma sem_wrap: "i < SEM_POOL \<Longrightarrow> (if i + 1 \<ge> SEM_POOL then i + 1 - SEM_POOL else i + 1) = Suc i mod SEM_POOL"
  by (auto simp: mod_if)

lemma sem_wait_park:
  assumes wf: "sem_wf s" and room: "waiters s < SEM_POOL" and v: "sem_value s \<le> 0"
  shows "kmt_sem_wait s at p =
      (s\<lparr>sem_value := sem_value s - 1, sem_pool := (sem_pool s)[sem_tail s := p],
         sem_tail := Suc (sem_tail s) mod SEM_POOL\<rparr>, set_flag at p TASK_SLEEP, True)"
proof -
  have "sem_tail s < SEM_POOL" using wf by (simp add: sem_wf_def)
  from sem_wrap [OF this] show ?thesis
    using v by (auto simp: kmt_sem_wait_def sem_add_task_def Let_def)
qed

lemma sem_wait_abs:
  assumes wf: "sem_wf s" and room: "waiters s < SEM_POOL"
    and run: "kmt_sem_wait s at p = (s', at', b)"
  shows "sem_wf s' \<and> asem_wait (sem_abs s) p = (sem_abs s', b) \<and>
    at' = (if b then set_flag at p TASK_SLEEP else at)"
proof (cases "sem_value s \<le> 0")
  case True
  let ?k = "waiters s" and ?h = "sem_head s"
  have len: "length (sem_pool s) = SEM_POOL" and t: "sem_tail s = (?h + ?k) mod SEM_POOL"
    using wf by (auto simp: sem_wf_def)
  have w: "waiters s' = Suc ?k" and e: "s' = s\<lparr>sem_value := sem_value s - 1,
      sem_pool := (sem_pool s)[sem_tail s := p], sem_tail := Suc (sem_tail s) mod SEM_POOL\<rparr>"
    and b: "b" "at' = set_flag at p TASK_SLEEP"
    using run sem_wait_park [OF wf room True, of at p] True by (auto simp: waiters_def)
  have "ring_seg ((sem_pool s)[(?h + ?k) mod length (sem_pool s) := p]) ?h (Suc ?k)
      = ring_seg (sem_pool s) ?h ?k @ [p]"
    using room len by (intro ring_seg_push) simp
  then have "sem_queue s' = sem_queue s @ [p]"
    using len by (simp add: sem_queue_def w) (simp add: e t)
  moreover have "sem_wf s'"
    using wf room by (simp add: sem_wf_def w) (simp add: e mod_Suc_eq)
  ultimately show ?thesis using True b by (simp add: sem_abs_def) (simp add: e)
next
  case False
  then show ?thesis
    using wf run by (auto simp: kmt_sem_wait_def Let_def sem_abs_def sem_wf_def sem_queue_def waiters_def)
qed

lemma sem_signal_abs:
  assumes wf: "sem_wf s" and run: "kmt_sem_signal s at = (s', at')"
  shows "sem_wf s' \<and> (case asem_signal (sem_abs s) of (a, w) \<Rightarrow> sem_abs s' = a \<and>
    at' = (case w of None \<Rightarrow> at | Some p \<Rightarrow> neg_flag at p TASK_SLEEP))"
proof (cases "sem_value s < 0")
  case True
  obtain k where k: "waiters s = Suc k" using True by (cases "waiters s") (auto simp: waiters_def)
  have len: "length (sem_pool s) = SEM_POOL" and h: "sem_head s < SEM_POOL"
    using wf by (auto simp: sem_wf_def)
  have e: "s' = s\<lparr>sem_value := sem_value s + 1, sem_head := Suc (sem_head s) mod SEM_POOL\<rparr>"
    and at': "at' = neg_flag at (sem_pool s ! sem_head s) TASK_SLEEP"
    using run True sem_wrap [OF h] by (auto simp: kmt_sem_signal_def sem_remove_task_def Let_def)
  have w: "waiters s' = k" using k True by (simp add: e waiters_def)
  have q: "sem_queue s = sem_pool s ! sem_head s # sem_queue s'"
    using ring_seg_mod [of "sem_pool s" "Suc (sem_head s)" k] len h
    by (simp add: sem_queue_def k w ring_seg_Cons) (simp add: e)
  have "sem_wf s'"
    using wf k h by (simp add: sem_wf_def w) (simp add: e mod_simps)
  then show ?thesis using at' by (simp add: sem_abs_def q) (simp add: e)
next
  case False
  then show ?thesis
    using wf run by (auto simp: kmt_sem_signal_def Let_def sem_abs_def sem_wf_def sem_queue_def waiters_def)
qed

section \<open>Histories\<close>

datatype sem_op = Wait ptr | Signal

text \<open>
  The tasks parked and the tasks woken, in order.  \<open>sem_admissible\<close> is what the rest of the
  kernel guarantees: a sleeping task does not call, and at most \<^verbatim>\<open>POOL_LEN\<close> tasks wait.
\<close>

fun sem_run :: "semaphore \<Rightarrow> attrs \<Rightarrow> sem_op list \<Rightarrow> semaphore \<times> attrs \<times> ptr list \<times> ptr list" where
  "sem_run s at [] = (s, at, [], [])"
| "sem_run s at (Wait p # ops) =
     (case kmt_sem_wait s at p of (s1, at1, parked) \<Rightarrow>
        (case sem_run s1 at1 ops of (s2, at2, ps, ws) \<Rightarrow>
           (s2, at2, (if parked then p # ps else ps), ws)))"
| "sem_run s at (Signal # ops) =
     (case kmt_sem_signal s at of (s1, at1) \<Rightarrow>
        (case sem_run s1 at1 ops of (s2, at2, ps, ws) \<Rightarrow>
           (s2, at2, ps, (if sem_value s < 0 then sem_pool s ! sem_head s # ws else ws))))"

fun sem_admissible :: "semaphore \<Rightarrow> attrs \<Rightarrow> sem_op list \<Rightarrow> bool" where
  "sem_admissible s at [] = True"
| "sem_admissible s at (Wait p # ops) =
     (\<not> bit (at p) 0 \<and> sem_value s > - int SEM_POOL \<and>
      (case kmt_sem_wait s at p of (s1, at1, _) \<Rightarrow> sem_admissible s1 at1 ops))"
| "sem_admissible s at (Signal # ops) =
     (case kmt_sem_signal s at of (s1, at1) \<Rightarrow> sem_admissible s1 at1 ops)"

definition sleeping_inv :: "semaphore \<Rightarrow> attrs \<Rightarrow> bool" where
  "sleeping_inv s at \<longleftrightarrow> sem_wf s \<and> distinct (sem_queue s) \<and> (\<forall>p. bit (at p) 0 \<longleftrightarrow> p \<in> set (sem_queue s))"

lemma bit_set_flag: "bit (set_flag at p TASK_SLEEP q) 0 \<longleftrightarrow> q = p \<or> bit (at q) 0"
  by (auto simp: set_flag_def TASK_SLEEP_def bit_or_iff)

lemma bit_neg_flag: "bit (neg_flag at p TASK_SLEEP q) 0 \<longleftrightarrow> q \<noteq> p \<and> bit (at q) 0"
  by (auto simp: neg_flag_def TASK_SLEEP_def bit_and_iff bit_not_iff)

lemma waiters_room: "sem_value s > - int SEM_POOL \<longleftrightarrow> waiters s < SEM_POOL"
  by (auto simp: waiters_def SEM_POOL_def)

lemma sem_queue_Nil: "sem_wf s \<Longrightarrow> sem_queue s = [] \<longleftrightarrow> 0 \<le> sem_value s"
  by (auto simp: sem_queue_def waiters_def simp flip: length_0_conv)

lemma sleeping_wait:
  assumes inv: "sleeping_inv s at" and p: "\<not> bit (at p) 0" "sem_value s > - int SEM_POOL"
    and run: "kmt_sem_wait s at p = (s', at', b)"
  shows "sleeping_inv s' at'" "sem_queue s' = sem_queue s @ (if b then [p] else [])"
    "sem_value s' = sem_value s - 1"
proof -
  have wf: "sem_wf s" using inv by (simp add: sleeping_inv_def)
  note A = sem_wait_abs [OF wf p(2) [unfolded waiters_room] run]
  show q: "sem_queue s' = sem_queue s @ (if b then [p] else [])"
    and "sem_value s' = sem_value s - 1"
    using A by (auto simp: sem_abs_def split: if_splits)
  show "sleeping_inv s' at'"
    using A inv p by (auto simp: sleeping_inv_def q bit_set_flag)
qed

lemma sleeping_signal:
  assumes inv: "sleeping_inv s at" and run: "kmt_sem_signal s at = (s', at')"
  shows "sleeping_inv s' at'"
    "sem_queue s = (if sem_value s < 0 then [sem_pool s ! sem_head s] else []) @ sem_queue s'"
    "sem_value s' = sem_value s + 1"
proof -
  have wf: "sem_wf s" using inv by (simp add: sleeping_inv_def)
  note A = sem_signal_abs [OF wf run]
  show "sem_value s' = sem_value s + 1"
    using A by (cases "sem_queue s") (auto simp: sem_abs_def)
  show q: "sem_queue s = (if sem_value s < 0 then [sem_pool s ! sem_head s] else []) @ sem_queue s'"
  proof (cases "sem_queue s")
    case Nil
    then show ?thesis using A sem_queue_Nil [OF wf] by (simp add: sem_abs_def)
  next
    case (Cons p q)
    have "p = sem_pool s ! sem_head s"
      using Cons wf by (cases "waiters s") (auto simp: sem_queue_def ring_seg_Cons sem_wf_def)
    then show ?thesis using A Cons sem_queue_Nil [OF wf] by (simp add: sem_abs_def)
  qed
  show "sleeping_inv s' at'"
    using A inv by (cases "sem_queue s") (auto simp: sleeping_inv_def sem_abs_def bit_neg_flag)
qed

text \<open>The waiters as a channel: a task that is parked enters, one that is woken leaves.\<close>

fun sem_act :: "semaphore \<times> attrs \<Rightarrow> sem_op \<Rightarrow> ((semaphore \<times> attrs) \<times> ptr list \<times> ptr list) option" where
  "sem_act (s, at) (Wait p) =
     (if \<not> bit (at p) 0 \<and> sem_value s > - int SEM_POOL then
        (case kmt_sem_wait s at p of (s1, at1, parked) \<Rightarrow> Some ((s1, at1), if parked then [p] else [], []))
      else None)"
| "sem_act (s, at) Signal =
     Some (kmt_sem_signal s at, [], if sem_value s < 0 then [sem_pool s ! sem_head s] else [])"

interpretation waiting: channel sem_act "sem_queue \<circ> fst" "\<lambda>(s, at). sleeping_inv s at"
proof unfold_locales
  fix sa ta :: "semaphore \<times> attrs" and op i out
  assume h: "case sa of (s, at) \<Rightarrow> sleeping_inv s at" "sem_act sa op = Some (ta, i, out)"
  obtain s at t at' where e: "sa = (s, at)" "ta = (t, at')" by (cases sa; cases ta)
  show "(case ta of (s, at) \<Rightarrow> sleeping_inv s at) \<and> (sem_queue \<circ> fst) sa @ i = out @ (sem_queue \<circ> fst) ta"
  proof (cases op)
    case (Wait p)
    obtain b where w: "kmt_sem_wait s at p = (t, at', b)" and p: "\<not> bit (at p) 0" "sem_value s > - int SEM_POOL"
      and io: "i = (if b then [p] else [])" "out = []"
      using h(2) Wait by (auto simp: e split: if_splits prod.splits)
    have "sleeping_inv s at" using h(1) by (simp add: e)
    from sleeping_wait [OF this p w] io show ?thesis by (simp add: e)
  next
    case Signal
    have g: "kmt_sem_signal s at = (t, at')" and io: "i = []" "out = (if sem_value s < 0 then [sem_pool s ! sem_head s] else [])"
      using h(2) Signal by (auto simp: e)
    have "sleeping_inv s at" using h(1) by (simp add: e)
    from sleeping_signal [OF this g] io show ?thesis by (simp add: e)
  qed
qed

lemma sem_run_channel:
  "sem_admissible s at ops \<Longrightarrow> sem_run s at ops = (s', at', ps, ws) \<Longrightarrow>
   channel_run sem_act (s, at) ops = Some ((s', at'), ps, ws)"
proof (induction ops arbitrary: s at ps ws)
  case (Cons op ops)
  show ?case
  proof (cases op)
    case (Wait p)
    obtain s1 at1 b where w: "kmt_sem_wait s at p = (s1, at1, b)"
      by (cases "kmt_sem_wait s at p") auto
    obtain ps1 where r: "sem_run s1 at1 ops = (s', at', ps1, ws)" "ps = (if b then p # ps1 else ps1)"
      using Cons.prems(2) Wait w by (auto split: prod.splits)
    have "sem_admissible s1 at1 ops" using Cons.prems(1) Wait w by simp
    from Cons.IH [OF this r(1)] show ?thesis using Cons.prems(1) Wait w r(2) by simp
  next
    case Signal
    obtain s1 at1 where w: "kmt_sem_signal s at = (s1, at1)" by (cases "kmt_sem_signal s at") auto
    obtain ws1 where r: "sem_run s1 at1 ops = (s', at', ps, ws1)"
      "ws = (if sem_value s < 0 then sem_pool s ! sem_head s # ws1 else ws1)"
      using Cons.prems(2) Signal w by (auto split: prod.splits)
    have "sem_admissible s1 at1 ops" using Cons.prems(1) Signal w by simp
    from Cons.IH [OF this r(1)] show ?thesis using Signal w r(2) by simp
  qed
qed simp

text \<open>Every wait takes one from the value and every signal adds one.\<close>

lemma sem_run_value:
  "sem_run s at ops = (s', at', ps, ws) \<Longrightarrow>
   sem_value s' = sem_value s + int (length (filter ((=) Signal) ops)) - int (length (filter ((\<noteq>) Signal) ops))"
proof (induction ops arbitrary: s at ps ws)
  case (Cons op ops)
  show ?case
  proof (cases op)
    case (Wait p)
    obtain s1 at1 b where w: "kmt_sem_wait s at p = (s1, at1, b)"
      by (cases "kmt_sem_wait s at p") auto
    then have "sem_value s1 = sem_value s - 1"
      by (auto simp: kmt_sem_wait_def sem_add_task_def Let_def split: if_splits)
    moreover obtain ps1 where "sem_run s1 at1 ops = (s', at', ps1, ws)"
      using Cons.prems Wait w by (auto split: prod.splits)
    ultimately show ?thesis using Cons.IH [of s1 at1] Wait by simp
  next
    case Signal
    obtain s1 at1 where w: "kmt_sem_signal s at = (s1, at1)" by (cases "kmt_sem_signal s at") auto
    then have "sem_value s1 = sem_value s + 1"
      by (auto simp: kmt_sem_signal_def sem_remove_task_def Let_def split: if_splits)
    moreover obtain ws1 where "sem_run s1 at1 ops = (s', at', ps, ws1)"
      using Cons.prems Signal w by (auto split: prod.splits)
    ultimately show ?thesis using Cons.IH [of s1 at1] Signal by simp
  qed
qed simp

section \<open>Properties\<close>

text \<open>C7: over any history of \<^verbatim>\<open>sem_wait\<close> and \<^verbatim>\<open>sem_signal\<close> with at most \<^verbatim>\<open>POOL_LEN\<close> tasks waiting
  at a time, tasks are woken in the order in which they were parked, a task has the sleep flag
  exactly while it is queued, the value is the initial one plus signals minus waits, and
  the number of waiting tasks is the negated value: no wake-up is lost and none is spurious.\<close>

theorem sem_history:
  assumes "0 \<le> v" "length junk = 20" "\<forall>p. \<not> bit (at p) 0"
    and "sem_admissible (kmt_sem_init junk v) at ops"
    and "sem_run (kmt_sem_init junk v) at ops = (s', at', parked, woken)"
  shows "parked = woken @ sem_queue s' \<and> (\<forall>p. bit (at' p) 0 \<longleftrightarrow> p \<in> set (sem_queue s')) \<and>
    sem_value s' = v + int (length (filter ((=) Signal) ops)) - int (length (filter ((\<noteq>) Signal) ops)) \<and>
    length (sem_queue s') = nat (- sem_value s')"
proof -
  have "sleeping_inv (kmt_sem_init junk v) at" "sem_queue (kmt_sem_init junk v) = []"
    using assms(1-3) by (auto simp: sleeping_inv_def kmt_sem_init_def sem_wf_def sem_queue_def waiters_def SEM_POOL_def)
  from waiting.run_in_order [OF _ sem_run_channel [OF assms(4,5)]] sem_run_value [OF assms(5)] this show ?thesis
    by (auto simp: sleeping_inv_def sem_queue_def waiters_def kmt_sem_init_def)
qed

theorem sem_history_witness:
  "sem_admissible (kmt_sem_init (replicate 20 0) 1) (\<lambda>_. 0) [Wait 7, Wait 8, Wait 9, Signal] \<and>
   (\<exists>s' at'. sem_run (kmt_sem_init (replicate 20 0) 1) (\<lambda>_. 0) [Wait 7, Wait 8, Wait 9, Signal] =
      (s', at', [8, 9], [8]) \<and> [8, 9] = [8] @ sem_queue s' \<and> sem_value s' = - 1)"
proof -
  let ?s = "kmt_sem_init (replicate 20 0) 1" and ?ops = "[Wait 7, Wait 8, Wait 9, Signal]"
  have adm: "sem_admissible ?s (\<lambda>_. 0) ?ops"
    by (simp add: kmt_sem_init_def kmt_sem_wait_def sem_add_task_def kmt_sem_signal_def
        sem_remove_task_def set_flag_def SEM_POOL_def TASK_SLEEP_def)
  obtain s' at' where run: "sem_run ?s (\<lambda>_. 0) ?ops = (s', at', [8, 9], [8])"
    by (simp add: kmt_sem_init_def kmt_sem_wait_def sem_add_task_def kmt_sem_signal_def
        sem_remove_task_def set_flag_def SEM_POOL_def TASK_SLEEP_def numeral_eq_Suc)
  from sem_history [OF _ _ _ adm run] have
    "[8, 9] = [8] @ sem_queue s' \<and> sem_value s' = - 1" by simp
  then show ?thesis using adm run by blast
qed

text \<open>C9: \<^verbatim>\<open>sem_wait\<close> and \<^verbatim>\<open>sem_signal\<close> implement a counting semaphore with a first-come
  first-served queue: they commute with the abstraction of the ring, and change the sleep
  flag of exactly the task that is parked or woken.\<close>

theorem sem_refines:
  assumes "sem_wf s" "waiters s < SEM_POOL"
  shows "(case kmt_sem_wait s at p of (s1, at1, b) \<Rightarrow> sem_wf s1 \<and>
      asem_wait (sem_abs s) p = (sem_abs s1, b) \<and> at1 = (if b then set_flag at p TASK_SLEEP else at)) \<and>
    (case kmt_sem_signal s at of (s2, at2) \<Rightarrow> sem_wf s2 \<and>
      (\<exists>w. asem_signal (sem_abs s) = (sem_abs s2, w) \<and>
        at2 = (case w of None \<Rightarrow> at | Some q \<Rightarrow> neg_flag at q TASK_SLEEP)))"
proof -
  obtain s1 at1 b where w: "kmt_sem_wait s at p = (s1, at1, b)" by (cases "kmt_sem_wait s at p") auto
  obtain s2 at2 where g: "kmt_sem_signal s at = (s2, at2)" by (cases "kmt_sem_signal s at") auto
  obtain a q where q: "asem_signal (sem_abs s) = (a, q)" by (cases "asem_signal (sem_abs s)") auto
  show ?thesis
    using sem_wait_abs [OF assms w] sem_signal_abs [OF assms(1) g] by (simp add: w g q)
qed

theorem sem_refines_witness:
  "\<exists>s2 at2. kmt_sem_signal (kmt_sem_init (replicate 20 0) 3) (\<lambda>_. 0) = (s2, at2) \<and>
     asem_signal (sem_abs (kmt_sem_init (replicate 20 0) 3)) = (sem_abs s2, None) \<and> sem_wf s2"
  using sem_refines [where s = "kmt_sem_init (replicate 20 0) 3" and at = "\<lambda>_. 0" and p = 7]
  by (simp add: sem_wf_def waiters_def sem_abs_def sem_queue_def kmt_sem_init_def SEM_POOL_def
      split: prod.splits)

text \<open>The ring has no overflow test: a twenty-first waiter overwrites the first.\<close>

lemma sem_overflow_loses_waiter:
  assumes wf: "sem_wf s" and full: "waiters s = SEM_POOL"
    and run: "kmt_sem_wait s at p = (s1, at1, b)"
  shows "b \<and> sem_pool s1 ! sem_head s1 = p \<and>
    (q \<noteq> p \<longrightarrow> bit (at1 q) 0 \<longrightarrow> bit (snd (kmt_sem_signal s1 at1) q) 0)"
proof -
  have v: "sem_value s < 0" using full by (simp add: waiters_def SEM_POOL_def)
  have t: "sem_tail s = sem_head s" "sem_head s < SEM_POOL" "length (sem_pool s) = SEM_POOL"
    using wf full by (auto simp: sem_wf_def)
  have r: "b" "sem_pool s1 = (sem_pool s)[sem_head s := p]" "sem_head s1 = sem_head s"
    using run v t by (auto simp: kmt_sem_wait_def sem_add_task_def Let_def split: if_splits)
  moreover have "sem_pool s1 ! sem_head s1 = p" using r t by simp
  ultimately show ?thesis
    by (auto simp: kmt_sem_signal_def sem_remove_task_def Let_def bit_neg_flag)
qed

end
