(* ===== verification/Klib_Stdlib.thy ===== *)
theory Klib_Stdlib
  imports Prelude "HOL-Library.Word"
begin

text \<open>
  \<^verbatim>\<open>klib/src/stdlib.c\<close>: the linear congruential generator and the number parsers.  A C string
  is the list of its characters without the terminator; \<open>int\<close> results are 32-bit words read as
  signed numbers.
\<close>

section \<open>Random numbers\<close>

definition rand_step :: "u32 \<Rightarrow> u32" where
  "rand_step next = next * 1103515245 + 12345"

definition rand :: "u32 \<Rightarrow> nat \<times> u32" where
  "rand next = (let n = rand_step next in (unat (n div 65536) mod 32768, n))"

definition srand :: "u32 \<Rightarrow> u32" where
  "srand seed = seed"

lemma rand_bound: "fst (rand s) < 32768"
  by (simp add: rand_def Let_def)

section \<open>Parsing numbers\<close>

definition cval :: "char \<Rightarrow> int" where  \<comment> \<open>\<^verbatim>\<open>char\<close> is signed\<close>
  "cval c = (let k = of_char c in if k \<ge> 128 then k - 256 else k)"

fun atoi8_loop :: "u32 \<Rightarrow> string \<Rightarrow> u32" where
  "atoi8_loop ret [] = ret"
| "atoi8_loop ret (c # cs) = atoi8_loop (ret * 8 + of_int (cval c - 48)) cs"

definition atoi8 :: "string \<Rightarrow> u32" where
  "atoi8 s = atoi8_loop 0 s"

fun atoi10_loop :: "u32 \<Rightarrow> string \<Rightarrow> u32" where
  "atoi10_loop ret [] = ret"
| "atoi10_loop ret (c # cs) = atoi10_loop (ret * 10 + of_int (cval c - 48)) cs"

definition atoi10 :: "string \<Rightarrow> u32" where
  "atoi10 s = atoi10_loop 0 s"

definition hex_digit :: "char \<Rightarrow> int" where
  "hex_digit c =
     (if cval c \<ge> 48 \<and> cval c \<le> 57 then cval c - 48
      else if cval c \<ge> 97 \<and> cval c \<le> 122 then cval c - 97 + 10
      else if cval c \<ge> 65 \<and> cval c \<le> 90 then cval c - 65 + 10
      else 0)"

fun atoi16_loop :: "u32 \<Rightarrow> string \<Rightarrow> u32" where
  "atoi16_loop ret [] = ret"
| "atoi16_loop ret (c # cs) = atoi16_loop (ret * 16 + of_int (hex_digit c)) cs"

definition atoi16 :: "string \<Rightarrow> u32" where
  "atoi16 s = atoi16_loop 0 s"

definition atoi :: "string \<Rightarrow> u32" where
  "atoi s =
     (case s of
        [] \<Rightarrow> atoi10 s
      | c # cs \<Rightarrow>
          if c = CHR ''0'' then
            (case cs of
               CHR ''x'' # ds \<Rightarrow> atoi16 ds
             | _ \<Rightarrow> atoi8 cs)
          else if c = CHR ''-'' then - atoi10 cs
          else if c = CHR ''+'' then atoi10 cs
          else atoi10 s)"

section \<open>Lemmas\<close>

lemma cval_small [simp]: "n < 128 \<Longrightarrow> cval (char_of n) = int n"
  for n :: nat
proof -
  assume n: "n < 128"
  have "(of_char (char_of n) :: int) = int (of_char (char_of n))" by (simp only: of_nat_of_char)
  also have "\<dots> = int n" using n by simp
  finally show ?thesis using n by (simp add: cval_def)
qed

lemma unat_u32: "unat (w :: u32) < 2 ^ 32"
  using unsigned_less [of w, where ?'a = nat] by simp

lemma unat_drop_u32: "unat (drop_bit n (w :: u32)) = unat w div 2 ^ n"
  using unat_u32 [of w] by (subst unsigned_drop_bit_eq) (simp add: take_bit_nat_eq_self drop_bit_eq_div)

lemma unat_push_u32: "unat (push_bit n (w :: u32)) = unat w * 2 ^ n mod 2 ^ 32"
  by (subst unsigned_push_bit_eq) (simp add: take_bit_eq_mod push_bit_eq_mult)

lemma uint_u32: "0 \<le> uint (w :: u32)" "uint (w :: u32) < 2 ^ 32"
  using uint_lt2p [of w] by simp_all

lemma sint_u32: "sint (w :: u32) = (if uint w < 2 ^ 31 then uint w else uint w - 2 ^ 32)"
proof -
  have "sint w = take_bit 32 (uint w) - 2 ^ 32 * of_bool (bit (uint w) 31)"
    using signed_take_bit_eq_take_bit_minus [of 31 "uint w"] by (simp add: sint_uint)
  moreover have "take_bit 32 (uint w) = uint w" using uint_u32 [of w] by (simp add: take_bit_int_eq_self)
  moreover have "bit (uint w) 31 \<longleftrightarrow> \<not> uint w < 2 ^ 31"
  proof -
    have "uint w div 2 ^ 31 = (if uint w < 2 ^ 31 then 0 else 1)"
      using uint_u32 [of w] by auto
    then show ?thesis by (auto simp: bit_iff_odd)
  qed
  ultimately show ?thesis by auto
qed

lemma atoi10_append: "atoi10_loop r (xs @ ys) = atoi10_loop (atoi10_loop r xs) ys"
  by (induction xs arbitrary: r) auto

end
