(* ===== verification/Kmt_Sched.thy ===== *)
theory Kmt_Sched
  imports Sync Klib_Stdlib Pool Kmt_Sem
begin

unbundle bit_operations_syntax

text \<open>
  Tasks and the scheduler of \<^verbatim>\<open>kernel/src/kmt.c\<close>: the task table, saving and switching contexts
  on a trap, creation, exit and the collector.  \<open>'c\<close> is the type of saved register contexts.
  Task structures live in a store addressed by pointers; address 0 is in the store too, since the
  scheduler reads the \<^verbatim>\<open>attr\<close> of empty table slots.
\<close>

section \<open>State\<close>

definition TASK_RUNABLE :: u32 where "TASK_RUNABLE = 0"
definition TASK_ZOMBIE :: u32 where "TASK_ZOMBIE = 4"
definition TASK_NOWAIT :: u32 where "TASK_NOWAIT = 8"
definition FD_NUM :: nat where "FD_NUM = 16"
definition FENCE1 :: u32 where "FENCE1 = 0x13579ace"
definition FENCE2 :: u32 where "FENCE2 = 0xeca97531"

record 'c task =
  t_attr :: u32
  t_ncli :: int
  t_intena :: bool
  t_pid :: nat
  t_running :: u32
  t_name :: string
  t_context :: 'c
  t_fence1 :: "u32 list"
  t_fence2 :: "u32 list"
  t_fd :: "ptr list"
  t_cur_dir :: ptr
  t_pwd :: string

record 'c sched =
  tasks :: "ptr list"
  currents :: "nat \<Rightarrow> ptr"
  lasts :: "nat \<Rightarrow> ptr"
  idles :: "nat \<Rightarrow> 'c"
  task_at :: "ptr \<Rightarrow> 'c task"
  cpus :: "nat \<Rightarrow> intr_cpu"
  last_pid :: nat
  rand_state :: u32
  refcnt :: "ptr \<Rightarrow> int"  \<comment> \<open>of open files\<close>
  ctx_queue :: pool
  ignore_num :: int

definition upd_task :: "ptr \<Rightarrow> ('c task \<Rightarrow> 'c task) \<Rightarrow> 'c sched \<Rightarrow> 'c sched" where
  "upd_task p f s = s\<lparr>task_at := (task_at s)(p := f (task_at s p))\<rparr>"

section \<open>The task table\<close>

partial_function (option) find_pid :: "ptr list \<Rightarrow> nat \<Rightarrow> nat option" where
  "find_pid ts pid =
     (let pid' = (pid + 1) mod 64
      in if ts ! pid' \<noteq> NULL then find_pid ts pid' else Some pid')"

definition add_task :: "ptr \<Rightarrow> 'c sched \<Rightarrow> 'c sched option" where
  "add_task p s =
     map_option (\<lambda>pid. upd_task p (\<lambda>t. t\<lparr>t_pid := pid\<rparr>)
         (s\<lparr>tasks := (tasks s)[pid := p], last_pid := pid\<rparr>))
       (find_pid (tasks s) (last_pid s))"

section \<open>Context switch\<close>

definition kmt_context_save :: "nat \<Rightarrow> 'c \<Rightarrow> 'c sched \<Rightarrow> 'c sched" where
  "kmt_context_save cpu c s =
     (let l = lasts s cpu; cur = currents s cpu;
          s1 = (if l \<noteq> NULL \<and> cur \<noteq> l
                then upd_task l (\<lambda>t. t\<lparr>t_running := mutex_unlock (t_running t)\<rparr>) s else s);
          s2 = s1\<lparr>lasts := (lasts s1)(cpu := cur)\<rparr>
      in if cur \<noteq> NULL
         then upd_task cur (\<lambda>t. t\<lparr>t_context := c, t_ncli := ncli (cpus s cpu), t_intena := intena (cpus s cpu)\<rparr>) s2
         else s2)"

text \<open>The random search of \<^verbatim>\<open>kmt_context_switch_real\<close>: the chosen slot, or none after \<open>n\<close> tries.\<close>

fun pick_task :: "nat \<Rightarrow> 'c sched \<Rightarrow> nat option \<times> 'c sched" where
  "pick_task 0 s = (None, s)"
| "pick_task (Suc n) s =
     (case rand (rand_state s) of (r, rs) \<Rightarrow>
        let s1 = s\<lparr>rand_state := rs\<rparr>; new = r mod 0x40; p = tasks s ! new
        in if n = 0 then (None, s1)
           else if t_attr (task_at s1 p) AND NOT TASK_NOWAIT \<noteq> 0 then pick_task n s1
           else (case mutex_trylock (t_running (task_at s1 p)) of (old, l') \<Rightarrow>
              let s2 = upd_task p (\<lambda>t. t\<lparr>t_running := l'\<rparr>) s1
              in if old \<noteq> 0 then pick_task n s2 else (Some new, s2)))"

definition fences_ok :: "'c task \<Rightarrow> bool" where
  "fences_ok t \<longleftrightarrow> (\<forall>i<4. t_fence1 t ! i = FENCE1 \<and> t_fence2 t ! i = FENCE2)"

definition kmt_context_switch :: "nat \<Rightarrow> 'c sched \<Rightarrow> ('c \<times> 'c sched) result" where
  "kmt_context_switch cpu s =
     (if if_flag (cpus s cpu) then Inl AssertFail
      else (case pick_task 10000 s of
          (None, s1) \<Rightarrow> Inr (idles s1 cpu, s1\<lparr>currents := (currents s1)(cpu := NULL)\<rparr>)
        | (Some new, s1) \<Rightarrow>
            (let p = tasks s1 ! new; t = task_at s1 p
             in if \<not> fences_ok t then Inl Panic  \<comment> \<open>reports the overflow and loops\<close>
                else Inr (t_context t,
                  s1\<lparr>currents := (currents s1)(cpu := p),
                     cpus := (cpus s1)(cpu := (cpus s1 cpu)\<lparr>ncli := t_ncli t, intena := t_intena t\<rparr>)\<rparr>))))"

section \<open>Creation, exit and collection\<close>

text \<open>The loop over the descriptors of the creating task: inherit and count a reference.\<close>

fun inherit_fds :: "nat \<Rightarrow> ptr list \<Rightarrow> ptr list \<times> (ptr \<Rightarrow> int) \<Rightarrow> ptr list \<times> (ptr \<Rightarrow> int)" where
  "inherit_fds i [] r = r"
| "inherit_fds i (f # fs) (fd, rc) =
     inherit_fds (Suc i) fs
       (if f \<noteq> NULL then (fd[i := f], rc(f := rc f + 1)) else (fd, rc))"

definition kmt_create :: "nat \<Rightarrow> ptr \<Rightarrow> string \<Rightarrow> 'c \<Rightarrow> 'c sched \<Rightarrow> 'c sched option" where
  "kmt_create cpu p name entry s =
     (if ignore_num s > 0 then Some (s\<lparr>ignore_num := ignore_num s - 1\<rparr>)
      else
        (let cur = currents s cpu;
             (fd, rc) = (if cur \<noteq> NULL
                         then inherit_fds 0 (take FD_NUM (t_fd (task_at s cur))) (replicate FD_NUM NULL, refcnt s)
                         else (replicate FD_NUM NULL, refcnt s));
             t = \<lparr>t_attr = TASK_RUNABLE, t_ncli = 0, t_intena = False, t_pid = 0, t_running = 0,
                  t_name = name, t_context = entry,
                  t_fence1 = replicate 4 FENCE1, t_fence2 = replicate 4 FENCE2, t_fd = fd,
                  t_cur_dir = (if cur \<noteq> NULL then t_cur_dir (task_at s cur) else NULL),
                  t_pwd = (if cur \<noteq> NULL then t_pwd (task_at s cur) else ''/'')\<rparr>
         in add_task p (upd_task p (\<lambda>_. t) (s\<lparr>refcnt := rc\<rparr>))))"

text \<open>\<^verbatim>\<open>exit\<close> closes every open descriptor; \<^verbatim>\<open>vfs->close\<close> is the argument \<open>close\<close>.\<close>

fun close_all :: "(nat \<Rightarrow> 'c sched \<Rightarrow> 'c sched) \<Rightarrow> ptr \<Rightarrow> nat \<Rightarrow> 'c sched \<Rightarrow> 'c sched" where
  "close_all close cur 0 s = s"
| "close_all close cur (Suc k) s =
     (let s' = (if t_fd (task_at s cur) ! (FD_NUM - Suc k) \<noteq> NULL then close (FD_NUM - Suc k) s else s)
      in close_all close cur k s')"

definition task_exit :: "(nat \<Rightarrow> 'c sched \<Rightarrow> 'c sched) \<Rightarrow> nat \<Rightarrow> 'c sched \<Rightarrow> 'c sched option" where
  "task_exit close cpu s =
     (let cur = currents s cpu;
          s1 = close_all close cur FD_NUM s;
          s2 = upd_task cur (\<lambda>t. t\<lparr>t_attr := t_attr t OR TASK_ZOMBIE\<rparr>) s1;
          s3 = s2\<lparr>tasks := (tasks s2)[t_pid (task_at s2 cur) := NULL]\<rparr>
      in if t_attr (task_at s3 cur) AND TASK_NOWAIT \<noteq> 0
         then map_option (\<lambda>q. s3\<lparr>ctx_queue := q\<rparr>) (pool_enqueue (ctx_queue s3) cur)
         else Some s3)"

text \<open>One turn of \<^verbatim>\<open>kmt_wait\<close>: \<open>None\<close> while the task has not exited or still runs somewhere.\<close>

definition kmt_wait :: "ptr \<Rightarrow> 'c sched \<Rightarrow> 'c sched option" where
  "kmt_wait p s =
     (if t_attr (task_at s p) AND TASK_ZOMBIE = 0 then None
      else (case mutex_lock_turn (t_running (task_at s p)) of
          (True, l) \<Rightarrow> Some (upd_task p (\<lambda>t. t\<lparr>t_running := l\<rparr>) s)
        | (False, l) \<Rightarrow> None))"

text \<open>The collector on every trap; the second component is the task it frees.\<close>

definition kmt_context_clean :: "'c sched \<Rightarrow> ('c sched \<times> ptr option) option" where
  "kmt_context_clean s =
     (case pool_dequeue (ctx_queue s) of (p, q) \<Rightarrow>
        let s1 = s\<lparr>ctx_queue := q\<rparr>
        in if p = NULL then Some (s1, None)
           else (case mutex_trylock (t_running (task_at s1 p)) of (old, l) \<Rightarrow>
              let s2 = upd_task p (\<lambda>t. t\<lparr>t_running := l\<rparr>) s1
              in if old \<noteq> 0
                 then map_option (\<lambda>q'. (s2\<lparr>ctx_queue := q'\<rparr>, None)) (pool_enqueue (ctx_queue s2) p)
                 else Some (s2, Some p)))"

section \<open>The search for a pid\<close>

definition ring_gap :: "nat \<Rightarrow> nat \<Rightarrow> nat" where
  "ring_gap pid f = (f + 64 - (pid + 1) mod 64) mod 64"

lemma ring_gap_step:
  assumes "p < 64" "f < 64" "p \<noteq> f"
  shows "(f + 64 - (p + 1) mod 64) mod 64 < (f + 64 - p) mod (64 :: nat)"
proof (cases "p = 63")
  case True
  then show ?thesis using assms by simp
next
  case False
  then have q: "(p + 1) mod 64 = p + 1" using assms(1) by simp
  show ?thesis
  proof (cases "f < p")
    case True
    then have "f + 64 - (p + 1) < 64" "f + 64 - p < 64" "f + 64 - (p + 1) < f + 64 - p"
      using assms(1) by linarith+
    then show ?thesis unfolding q by (simp only: mod_less)
  next
    case False
    then have e: "f + 64 - p = f - p + 64" "f + 64 - (p + 1) = f - (p + 1) + 64"
      using assms by linarith+
    have "f - (p + 1) < f - p" "f - p < 64" using False assms by linarith+
    then show ?thesis unfolding q e mod_add_self2 by (simp only: mod_less)
  qed
qed

lemma find_pid_free:
  assumes "f < 64" "ts ! f = NULL"
  shows "\<exists>k. find_pid ts pid = Some k \<and> k < 64 \<and> ts ! k = NULL"
proof (induction "ring_gap pid f" arbitrary: pid rule: less_induct)
  case less
  let ?p = "(pid + 1) mod 64"
  have p: "?p < 64" by simp
  show ?case
  proof (cases "ts ! ?p = NULL")
    case True
    then show ?thesis by (subst find_pid.simps) simp
  next
    case False
    then have "?p \<noteq> f" using assms(2) by auto
    then have "ring_gap ?p f < ring_gap pid f"
      unfolding ring_gap_def mod_mod_trivial using ring_gap_step [OF p assms(1)] by simp
    from less [OF this] show ?thesis using False by (subst find_pid.simps) simp
  qed
qed

text \<open>With no free slot the search never ends, with the table's lock held.\<close>

lemma find_pid_slot:
  assumes "find_pid ts pid = Some r"
  shows "ts ! r = NULL \<and> r < 64"
proof (rule find_pid.raw_induct [OF _ assms])
  fix rec ts pid y
  assume "\<And>ts pid y. rec ts pid = Some y \<Longrightarrow> ts ! y = NULL \<and> y < 64"
    "(let pid' = (pid + 1) mod 64 in if ts ! pid' \<noteq> NULL then rec ts pid' else Some pid') = Some y"
  then show "ts ! y = NULL \<and> y < 64" by (auto simp: Let_def split: if_splits)
qed

lemma find_pid_full:
  assumes "\<forall>k<64. ts ! k \<noteq> NULL"
  shows "find_pid ts pid = None"
  using assms find_pid_slot [of ts pid] by (cases "find_pid ts pid") auto

section \<open>Interleavings of all processors\<close>

definition close_frames :: "(nat \<Rightarrow> 'c sched \<Rightarrow> 'c sched) \<Rightarrow> bool" where
  "close_frames close \<longleftrightarrow> (\<forall>fd s. currents (close fd s) = currents s \<and> lasts (close fd s) = lasts s \<and>
     (\<forall>p. t_running (task_at (close fd s) p) = t_running (task_at s p) \<and>
          t_attr (task_at (close fd s) p) = t_attr (task_at s p)))"

text \<open>The tasks a processor holds: the one it runs and the one whose stack it may still be on.\<close>

definition holds :: "'c sched \<Rightarrow> nat \<Rightarrow> ptr set" where
  "holds s i = {currents s i, lasts s i} - {NULL}"

inductive kstep :: "nat \<Rightarrow> 'c sched \<Rightarrow> 'c sched \<Rightarrow> bool" for n where
  save: "i < n \<Longrightarrow> kstep n s (kmt_context_save i c s)"
| switch: "i < n \<Longrightarrow> kmt_context_switch i s = Inr (c, s') \<Longrightarrow> kstep n s s'"
| clean: "kmt_context_clean s = Some (s', freed) \<Longrightarrow> kstep n s s'"
| create: "p \<noteq> NULL \<Longrightarrow> \<forall>j<n. p \<notin> holds s j \<Longrightarrow> kmt_create i p name entry s = Some s' \<Longrightarrow> kstep n s s'"
| exit: "currents s i \<noteq> NULL \<Longrightarrow> close_frames close \<Longrightarrow> task_exit close i s = Some s' \<Longrightarrow> kstep n s s'"
| await: "kmt_wait p s = Some s' \<Longrightarrow> kstep n s s'"
| attr: "p \<noteq> NULL \<Longrightarrow> kstep n s (upd_task p (\<lambda>t. t\<lparr>t_attr := a\<rparr>) s)"

definition run_of :: "'c sched \<Rightarrow> ptr \<Rightarrow> bool" where
  "run_of s p \<longleftrightarrow> t_running (task_at s p) \<noteq> 0"

definition null_busy :: "'c sched \<Rightarrow> bool" where
  "null_busy s \<longleftrightarrow> t_attr (task_at s NULL) AND NOT TASK_NOWAIT \<noteq> 0"

definition sched_inv :: "nat \<Rightarrow> 'c sched \<Rightarrow> bool" where
  "sched_inv n s \<longleftrightarrow> null_busy s \<and>
     (\<forall>i<n. \<forall>p \<in> holds s i. run_of s p) \<and>
     (\<forall>i<n. \<forall>j<n. i \<noteq> j \<longrightarrow> holds s i \<inter> holds s j = {})"

lemma sched_inv_shrink:
  assumes "sched_inv n s" "null_busy s'" "\<forall>i<n. holds s' i \<subseteq> holds s i"
    "\<forall>i<n. \<forall>p \<in> holds s' i. run_of s p \<longrightarrow> run_of s' p"
  shows "sched_inv n s'"
  using assms unfolding sched_inv_def by blast

lemma inv_save:
  assumes inv: "sched_inv n s" and i: "i < n"
  shows "sched_inv n (kmt_context_save i c s)"
proof (rule sched_inv_shrink [OF inv])
  let ?s = "kmt_context_save i c s"
  have cur: "currents ?s = currents s" "lasts ?s = (lasts s)(i := currents s i)"
    by (auto simp: kmt_context_save_def Let_def upd_task_def)
  show "\<forall>j<n. holds ?s j \<subseteq> holds s j" by (auto simp: holds_def cur)
  show "null_busy ?s"
    using inv by (auto simp: sched_inv_def null_busy_def kmt_context_save_def Let_def upd_task_def)
  show "\<forall>j<n. \<forall>p \<in> holds ?s j. run_of s p \<longrightarrow> run_of ?s p"
  proof (intro allI ballI impI)
    fix j p assume j: "j < n" "p \<in> holds ?s j" "run_of s p"
    have "p \<noteq> lasts s i \<or> lasts s i = NULL \<or> currents s i = lasts s i"
    proof (cases "j = i")
      case True
      then show ?thesis using j(2) by (auto simp: holds_def cur)
    next
      case False
      then have "p \<in> holds s j" using j(2) by (auto simp: holds_def cur)
      then have "p \<notin> holds s i" using inv i j(1) False unfolding sched_inv_def by blast
      then show ?thesis by (auto simp: holds_def)
    qed
    then show "run_of ?s p"
      using j(3) by (auto simp: run_of_def kmt_context_save_def Let_def upd_task_def)
  qed
qed

definition same_but_run :: "'c sched \<Rightarrow> 'c sched \<Rightarrow> bool" where
  "same_but_run s s' \<longleftrightarrow> currents s' = currents s \<and> lasts s' = lasts s \<and> tasks s' = tasks s \<and>
     cpus s' = cpus s \<and> idles s' = idles s \<and>
     (\<forall>p. t_attr (task_at s' p) = t_attr (task_at s p) \<and> (run_of s p \<longrightarrow> run_of s' p) \<and>
          t_context (task_at s' p) = t_context (task_at s p))"

lemma same_but_run_trans: "same_but_run s s1 \<Longrightarrow> same_but_run s1 s2 \<Longrightarrow> same_but_run s s2"
  by (simp add: same_but_run_def)

lemma pick_task_inv:
  "pick_task k s = (r, s') \<Longrightarrow> same_but_run s s' \<and>
     (case r of None \<Rightarrow> True | Some new \<Rightarrow>
        \<not> run_of s (tasks s ! new) \<and> run_of s' (tasks s ! new) \<and>
        t_attr (task_at s (tasks s ! new)) AND NOT TASK_NOWAIT = 0)"
proof (induction k arbitrary: s)
  case (Suc k)
  obtain r0 rs where r0: "rand (rand_state s) = (r0, rs)" by (cases "rand (rand_state s)") auto
  let ?s1 = "s\<lparr>rand_state := rs\<rparr>" and ?p = "tasks s ! (r0 mod 0x40)"
  let ?s2 = "upd_task ?p (\<lambda>t. t\<lparr>t_running := 1\<rparr>) ?s1"
  have s1: "same_but_run s ?s1" by (simp add: same_but_run_def run_of_def)
  have s2: "same_but_run s ?s2" "run_of ?s2 ?p" by (simp_all add: same_but_run_def run_of_def upd_task_def)
  consider (idle) "k = 0" | (busy) "k \<noteq> 0" "t_attr (task_at s ?p) AND NOT TASK_NOWAIT \<noteq> 0"
    | (taken) "k \<noteq> 0" "t_attr (task_at s ?p) AND NOT TASK_NOWAIT = 0" "run_of s ?p"
    | (free) "k \<noteq> 0" "t_attr (task_at s ?p) AND NOT TASK_NOWAIT = 0" "\<not> run_of s ?p" by blast
  then show ?case
  proof cases
    case idle
    then show ?thesis using Suc.prems r0 s1 by (auto simp: Let_def)
  next
    case busy
    then have "pick_task k ?s1 = (r, s')" using Suc.prems r0 by (auto simp: Let_def)
    from Suc.IH [OF this] show ?thesis
      using same_but_run_trans [OF s1] by (simp add: run_of_def split: option.splits)
  next
    case taken
    then have "pick_task k ?s2 = (r, s')"
      using Suc.prems r0 by (auto simp: Let_def mutex_trylock_def atomic_xchg_def run_of_def)
    from Suc.IH [OF this] s2 show ?thesis
      using same_but_run_trans [OF s2(1)] by (auto simp: same_but_run_def split: option.splits)
  next
    case free
    then have "r = Some (r0 mod 0x40)" "s' = ?s2"
      using Suc.prems r0 by (auto simp: Let_def mutex_trylock_def atomic_xchg_def run_of_def)
    then show ?thesis using free s2 by (simp add: upd_task_def)
  qed
qed (simp add: same_but_run_def)

lemma inv_switch:
  assumes inv: "sched_inv n s" and i: "i < n" and sw: "kmt_context_switch i s = Inr (c, s')"
  shows "sched_inv n s'"
    "currents s' i \<noteq> NULL \<Longrightarrow> (\<forall>j<n. currents s' i \<notin> holds s j) \<and>
       t_attr (task_at s (currents s' i)) AND NOT TASK_NOWAIT = 0 \<and>
       c = t_context (task_at s (currents s' i))"
proof -
  obtain r s1 where p: "pick_task 10000 s = (r, s1)" by (cases "pick_task 10000 s") auto
  note P = pick_task_inv [OF p]
  have nb: "null_busy s1" using P inv by (auto simp: sched_inv_def null_busy_def same_but_run_def)
  have h: "holds s1 = holds s" using P by (auto simp: holds_def same_but_run_def fun_eq_iff)
  have inv1: "sched_inv n s1"
    by (rule sched_inv_shrink [OF inv nb]) (use P h in \<open>auto simp: same_but_run_def\<close>)
  show "sched_inv n s'"
  proof (cases r)
    case None
    then have s': "s' = s1\<lparr>currents := (currents s1)(i := NULL)\<rparr>"
      using sw p by (auto simp: kmt_context_switch_def split: if_splits)
    show ?thesis
      by (rule sched_inv_shrink [OF inv1])
        (use nb in \<open>auto simp: s' holds_def null_busy_def run_of_def\<close>)
  next
    case (Some new)
    let ?p = "tasks s ! new"
    have s': "currents s' = (currents s1)(i := ?p)" "lasts s' = lasts s1" "task_at s' = task_at s1"
      using sw p Some P by (auto simp: kmt_context_switch_def Let_def same_but_run_def split: if_splits)
    have pn: "?p \<noteq> NULL"
    proof
      assume "?p = NULL"
      then show False using P Some inv by (simp add: sched_inv_def null_busy_def)
    qed
    have free: "\<forall>j<n. ?p \<notin> holds s1 j"
      using P Some inv h by (auto simp: sched_inv_def)
    have rp: "run_of s1 ?p" using P Some by simp
    have hi: "holds s' i \<subseteq> insert ?p (holds s1 i)" and hj: "j \<noteq> i \<Longrightarrow> holds s' j = holds s1 j" for j
      by (auto simp: holds_def s')
    have "\<forall>j<n. \<forall>k<n. j \<noteq> k \<longrightarrow> holds s' j \<inter> holds s' k = {}"
    proof (intro allI impI)
      fix j k assume jk: "j < n" "k < n" "j \<noteq> k"
      then have d: "holds s1 j \<inter> holds s1 k = {}" using inv1 by (auto simp: sched_inv_def)
      show "holds s' j \<inter> holds s' k = {}"
        using jk d hi hj [of j] hj [of k] free by (cases "j = i"; cases "k = i") auto
    qed
    moreover have "\<forall>j<n. \<forall>q \<in> holds s' j. run_of s' q"
    proof (intro allI impI ballI)
      fix j q assume j: "j < n" "q \<in> holds s' j"
      have "run_of s1 q"
      proof (cases "j = i \<and> q = ?p")
        case True
        then show ?thesis using rp by simp
      next
        case False
        then have "q \<in> holds s1 j" using j(2) hi hj [of j] by (cases "j = i") auto
        then show ?thesis using inv1 j(1) by (simp add: sched_inv_def)
      qed
      then show "run_of s' q" by (simp add: run_of_def s')
    qed
    ultimately show ?thesis using nb by (simp add: sched_inv_def null_busy_def s')
  qed
  show "(\<forall>j<n. currents s' i \<notin> holds s j) \<and> t_attr (task_at s (currents s' i)) AND NOT TASK_NOWAIT = 0 \<and>
      c = t_context (task_at s (currents s' i))"
    if "currents s' i \<noteq> NULL"
  proof (cases r)
    case None
    then show ?thesis using sw p that by (auto simp: kmt_context_switch_def split: if_splits)
  next
    case (Some new)
    have "currents s' i = tasks s ! new" "c = t_context (task_at s1 (tasks s ! new))"
      using sw p Some P by (auto simp: kmt_context_switch_def Let_def same_but_run_def split: if_splits)
    then show ?thesis using P Some inv by (auto simp: sched_inv_def same_but_run_def)
  qed
qed

lemma inv_same_cpus:
  assumes "sched_inv n s" "null_busy s'" "currents s' = currents s" "lasts s' = lasts s"
    and "\<And>p. run_of s p \<Longrightarrow> run_of s' p"
  shows "sched_inv n s'"
  by (rule sched_inv_shrink [OF assms(1,2)]) (use assms(3-5) in \<open>auto simp: holds_def\<close>)

lemma inv_create:
  assumes inv: "sched_inv n s" and p: "p \<noteq> NULL" "\<forall>j<n. p \<notin> holds s j"
    and mk: "kmt_create i p name entry s = Some s'"
  shows "sched_inv n s'"
proof (rule sched_inv_shrink [OF inv])
  have f: "currents s' = currents s" "lasts s' = lasts s" "\<And>q. q \<noteq> p \<Longrightarrow> task_at s' q = task_at s q"
    using mk by (auto simp: kmt_create_def Let_def add_task_def upd_task_def split: if_splits prod.splits)
  show "null_busy s'" using inv p f(3) [of NULL] by (simp add: sched_inv_def null_busy_def)
  show "\<forall>i<n. holds s' i \<subseteq> holds s i" by (simp add: holds_def f)
  show "\<forall>i<n. \<forall>q \<in> holds s' i. run_of s q \<longrightarrow> run_of s' q"
    using p(2) f by (metis holds_def run_of_def)
qed

lemma inv_clean:
  assumes inv: "sched_inv n s" and cl: "kmt_context_clean s = Some (s', freed)"
  shows "sched_inv n s'" "freed = Some p \<Longrightarrow> \<forall>j<n. p \<notin> holds s j"
proof -
  have f: "currents s' = currents s" "lasts s' = lasts s"
    "\<And>q. t_attr (task_at s' q) = t_attr (task_at s q)" "\<And>q. run_of s q \<Longrightarrow> run_of s' q"
    using cl by (auto simp: kmt_context_clean_def Let_def upd_task_def run_of_def mutex_trylock_def
        atomic_xchg_def split: prod.splits if_splits)
  show "sched_inv n s'"
    by (rule inv_same_cpus [OF inv]) (use inv f in \<open>auto simp: sched_inv_def null_busy_def\<close>)
  show "\<forall>j<n. p \<notin> holds s j" if "freed = Some p"
  proof -
    have "\<not> run_of s p"
      using cl that by (auto simp: kmt_context_clean_def Let_def upd_task_def run_of_def mutex_trylock_def
          atomic_xchg_def split: prod.splits if_splits)
    then show ?thesis using inv by (auto simp: sched_inv_def)
  qed
qed

lemma close_all_frames:
  assumes "close_frames close"
  shows "currents (close_all close cur k s) = currents s \<and> lasts (close_all close cur k s) = lasts s \<and>
     (\<forall>p. t_running (task_at (close_all close cur k s) p) = t_running (task_at s p) \<and>
          t_attr (task_at (close_all close cur k s) p) = t_attr (task_at s p))"
  using assms by (induction k arbitrary: s) (auto simp: close_frames_def Let_def)

lemma zombie_busy: "(a OR TASK_ZOMBIE) AND NOT TASK_NOWAIT \<noteq> 0" for a :: u32
proof -
  have "bit ((a OR TASK_ZOMBIE) AND NOT TASK_NOWAIT) 2"
    by (simp add: TASK_ZOMBIE_def TASK_NOWAIT_def bit_simps)
  then show ?thesis by auto
qed

lemma inv_exit:
  assumes inv: "sched_inv n s" and cl: "close_frames close" and ex: "task_exit close i s = Some s'"
  shows "sched_inv n s'"
proof -
  let ?s1 = "close_all close (currents s i) FD_NUM s"
  note C = close_all_frames [OF cl, of "currents s i" FD_NUM s]
  have f: "currents s' = currents s" "lasts s' = lasts s" "\<And>q. t_running (task_at s' q) = t_running (task_at s q)"
    "\<And>q. t_attr (task_at s' q) = (if q = currents s i then t_attr (task_at s q) OR TASK_ZOMBIE else t_attr (task_at s q))"
    using ex C by (auto simp: task_exit_def Let_def upd_task_def split: if_splits)
  have "null_busy s'" using inv zombie_busy by (auto simp: sched_inv_def null_busy_def f)
  then show ?thesis
    by (rule inv_same_cpus [OF inv]) (simp_all add: f run_of_def)
qed

lemma inv_wait: "sched_inv n s \<Longrightarrow> kmt_wait p s = Some s' \<Longrightarrow> sched_inv n s'"
  by (rule inv_same_cpus [of n s])
    (auto simp: kmt_wait_def mutex_lock_turn_def atomic_xchg_def upd_task_def sched_inv_def null_busy_def
      run_of_def split: if_splits bool.splits)

lemma inv_step: "kstep n s s' \<Longrightarrow> sched_inv n s \<Longrightarrow> sched_inv n s'"
proof (induction rule: kstep.induct)
  case (attr p s a)
  show ?case
    by (rule inv_same_cpus [OF attr(2)])
      (use attr in \<open>auto simp: upd_task_def sched_inv_def null_busy_def run_of_def\<close>)
qed (auto intro: inv_save inv_switch inv_clean inv_create inv_exit inv_wait)

text \<open>Every task is with at most one processor.\<close>

interpretation processors: exclusive "kstep n" "sched_inv n" "\<lambda>s i. i < n \<and> p \<in> holds s i" for n p
proof unfold_locales
  show "i = j" if "sched_inv n s" "i < n \<and> p \<in> holds s i" "j < n \<and> p \<in> holds s j" for s i j
    using that unfolding sched_inv_def by blast
qed (rule inv_step)

lemma sched_inv_init:
  assumes "\<forall>i. currents s i = NULL" "\<forall>i. lasts s i = NULL" "null_busy s"
  shows "sched_inv n s"
  using assms by (simp add: sched_inv_def holds_def)

lemma inherit_fds_eq:
  "fd = pre @ replicate (length fs) NULL \<Longrightarrow> i = length pre \<Longrightarrow>
   inherit_fds i fs (fd, rc) = (pre @ fs, \<lambda>f. rc f + (if f = NULL then 0 else int (count_list fs f)))"
proof (induction fs arbitrary: i fd rc pre)
  case (Cons f fs)
  let ?rc = "if f \<noteq> NULL then rc(f := rc f + 1) else rc"
  have fd: "(if f \<noteq> NULL then fd[i := f] else fd) = (pre @ [f]) @ replicate (length fs) NULL"
    using Cons.prems by simp
  have "inherit_fds i (f # fs) (fd, rc) = inherit_fds (Suc i) fs ((if f \<noteq> NULL then fd[i := f] else fd), ?rc)"
    by simp
  also have "\<dots> = ((pre @ [f]) @ fs, \<lambda>g. ?rc g + (if g = NULL then 0 else int (count_list fs g)))"
    by (rule Cons.IH [OF fd]) (use Cons.prems in simp)
  finally show ?case by (auto simp: fun_eq_iff)
qed (simp add: fun_eq_iff)

section \<open>Properties\<close>

text \<open>A small system: two processors, one task at address 16 in every slot.\<close>

definition demo_sched :: "nat sched" where
  "demo_sched = \<lparr>tasks = replicate 64 16, currents = (\<lambda>_. NULL), lasts = (\<lambda>_. NULL), idles = (\<lambda>i. 1000 + i),
     task_at = (\<lambda>p. \<lparr>t_attr = (if p = NULL then 0xf000ff53 else 0), t_ncli = 0, t_intena = False, t_pid = 1,
        t_running = 0, t_name = ''t'', t_context = 77, t_fence1 = replicate 4 FENCE1,
        t_fence2 = replicate 4 FENCE2, t_fd = replicate 16 NULL, t_cur_dir = NULL, t_pwd = ''/''\<rparr>),
     cpus = (\<lambda>_. \<lparr>ncli = 0, intena = False, if_flag = False\<rparr>), last_pid = 0, rand_state = 1,
     refcnt = (\<lambda>_. 0), ctx_queue = pool_init, ignore_num = 0\<rparr>"

lemma demo_rand: "rand 1 = (16838, 1103527590)"
  by (simp add: rand_def rand_step_def)

lemma demo_pick: "\<exists>s'. pick_task 10000 demo_sched = (Some 6, s') \<and>
    tasks s' = replicate 64 16 \<and> fences_ok (task_at s' 16) \<and> t_context (task_at s' 16) = 77"
proof -
  have e: "pick_task 10000 demo_sched = pick_task (Suc 9999) demo_sched" by simp
  have r: "rand_state demo_sched = 1" "tasks demo_sched ! 6 = 16" "t_attr (task_at demo_sched 16) = 0"
    "t_running (task_at demo_sched 16) = 0" "tasks demo_sched = replicate 64 16"
    "fences_ok (task_at demo_sched 16)" "t_context (task_at demo_sched 16) = 77"
    by (simp_all add: demo_sched_def fences_ok_def)
  show ?thesis
    unfolding e pick_task.simps(2) r(1) demo_rand
    using r by (simp add: Let_def mutex_trylock_def atomic_xchg_def upd_task_def fences_ok_def)
qed

lemma demo_switch: "\<exists>s'. kmt_context_switch 0 demo_sched = Inr (77, s') \<and> currents s' 0 = 16"
proof -
  obtain s' where s': "pick_task 10000 demo_sched = (Some 6, s')"
    "tasks s' = replicate 64 16" "fences_ok (task_at s' 16)" "t_context (task_at s' 16) = 77"
    using demo_pick by blast
  have "if_flag (cpus demo_sched 0) = False" by (simp add: demo_sched_def)
  then show ?thesis using s' by (simp add: kmt_context_switch_def Let_def)
qed

lemma demo_init: "\<forall>i. currents demo_sched i = NULL" "\<forall>i. lasts demo_sched i = NULL" "null_busy demo_sched"
  by (simp_all add: demo_sched_def null_busy_def TASK_NOWAIT_def)

text \<open>C2: under any interleaving of traps, task creation, exits, waits, the collector and changes
  of the task flags on \<^verbatim>\<open>n\<close> processors, no task runs on a processor while another processor
  runs it or is still on its stack (given that the word at address 0, which the scheduler
  reads as the flags of an empty slot, has a bit other than \<^verbatim>\<open>TASK_NOWAIT\<close> set).\<close>

theorem sched_exclusive:
  assumes "\<forall>i. currents s0 i = NULL" "\<forall>i. lasts s0 i = NULL" "null_busy s0"
    and "(kstep n)\<^sup>*\<^sup>* s0 s" "i < n" "j < n" "i \<noteq> j" "currents s i \<noteq> NULL"
  shows "currents s i \<noteq> currents s j \<and> currents s i \<noteq> lasts s j"
proof -
  have "currents s i \<in> holds s i" using assms(8) by (simp add: holds_def)
  then have "currents s i \<notin> holds s j"
    using processors.never_two [OF assms(4) sched_inv_init [OF assms(1-3)], of i "currents s i" j] assms(5-7) by blast
  then show ?thesis using assms(8) unfolding holds_def by blast
qed

theorem sched_exclusive_witness:
  "\<exists>s. (kstep 2)\<^sup>*\<^sup>* demo_sched s \<and> currents s 0 = 16 \<and> 16 \<noteq> currents s 1 \<and> 16 \<noteq> lasts s 1"
proof -
  obtain s where s: "kmt_context_switch 0 demo_sched = Inr (77, s)" "currents s 0 = 16"
    using demo_switch by blast
  have "kstep 2 demo_sched s" using s(1) by (intro kstep.switch [of 0]) simp_all
  then have r: "(kstep 2)\<^sup>*\<^sup>* demo_sched s" by blast
  from sched_exclusive [OF demo_init r, of 0 1] s(2) have "16 \<noteq> currents s 1 \<and> 16 \<noteq> lasts s 1" by simp
  then show ?thesis using r s(2) by blast
qed



text \<open>C11: the collector never frees a task whose context a processor still uses.\<close>

theorem collector_safe:
  assumes "\<forall>i. currents s0 i = NULL" "\<forall>i. lasts s0 i = NULL" "null_busy s0"
    and "(kstep n)\<^sup>*\<^sup>* s0 s" "kmt_context_clean s = Some (s', Some p)" "i < n"
  shows "p \<noteq> NULL \<and> p \<noteq> currents s i \<and> p \<noteq> lasts s i"
proof -
  have inv: "sched_inv n s" using processors.reach [OF assms(4) sched_inv_init [OF assms(1-3)]] .
  have "p \<noteq> NULL"
    using assms(5) by (auto simp: kmt_context_clean_def Let_def split: prod.splits if_splits)
  then show ?thesis using inv_clean(2) [OF inv assms(5) refl] assms(6) by (auto simp: holds_def)
qed

theorem collector_safe_witness:
  "\<exists>(s :: nat sched) s'. kmt_context_clean s = Some (s', Some 16) \<and> 16 \<noteq> currents s 1"
proof -
  let ?s0 = "demo_sched\<lparr>ctx_queue := the (pool_enqueue pool_init 16)\<rparr>"
  have init: "\<forall>i. currents ?s0 i = NULL" "\<forall>i. lasts ?s0 i = NULL" "null_busy ?s0"
    using demo_init by (simp_all add: null_busy_def)
  have "\<exists>s'. kmt_context_clean ?s0 = Some (s', Some 16)"
    by (simp add: kmt_context_clean_def pool_enqueue_def pool_dequeue_def pool_init_def POOL_LEN_def Let_def
        mutex_trylock_def atomic_xchg_def demo_sched_def)
  then obtain s' where s': "kmt_context_clean ?s0 = Some (s', Some 16)" ..
  have "16 \<noteq> currents ?s0 1"
    using collector_safe [OF init rtranclp.rtrancl_refl s', where n = 2 and i = 1] by simp
  then show ?thesis using s' by (intro exI [of _ ?s0] exI [of _ s'] conjI)
qed

text \<open>Task creation finds a slot whenever one of the 64 is free, puts the new task only into
  an empty slot, records the slot as its pid and leaves every other slot alone; when the table
  is full the search for a pid never ends.\<close>

theorem add_task_slot:
  assumes "length (tasks s) = 64"
  shows "(if \<exists>k<64. tasks s ! k = NULL
     then \<exists>k<64. tasks s ! k = NULL \<and>
        (\<exists>s'. add_task p s = Some s' \<and> tasks s' = (tasks s)[k := p] \<and> t_pid (task_at s' p) = k \<and>
           (\<forall>q. q \<noteq> p \<longrightarrow> task_at s' q = task_at s q))
     else add_task p s = None)"
proof (cases "\<exists>k<64. tasks s ! k = NULL")
  case True
  then obtain k where "find_pid (tasks s) (last_pid s) = Some k" "k < 64" "tasks s ! k = NULL"
    using find_pid_free [of _ "tasks s" "last_pid s"] by blast
  then show ?thesis using True by (auto simp: add_task_def upd_task_def intro!: exI [of _ k])
next
  case False
  then show ?thesis using find_pid_full [of "tasks s"] by (simp add: add_task_def)
qed

theorem add_task_slot_witness:
  "\<exists>k<64. \<exists>s'. add_task 32 (demo_sched\<lparr>tasks := replicate 64 NULL\<rparr>) = Some s' \<and>
     tasks s' = (replicate 64 NULL)[k := 32] \<and> t_pid (task_at s' 32) = k"
  using add_task_slot [of "demo_sched\<lparr>tasks := replicate 64 NULL\<rparr>" 32]
  by (auto split: if_splits dest: spec [of _ 0])

text \<open>A created task starts runnable with intact stack fences and inherits its creator's
  working directory and every open descriptor, and the reference count of each file grows by
  exactly the number of descriptors that now also refer to it.\<close>

theorem create_inherits:
  assumes "ignore_num s \<le> 0" "currents s cpu = cur" "cur \<noteq> NULL" "p \<noteq> cur"
    and "length (t_fd (task_at s cur)) = 16" "kmt_create cpu p name entry s = Some s'"
  shows "t_fd (task_at s' p) = t_fd (task_at s cur) \<and> t_pwd (task_at s' p) = t_pwd (task_at s cur) \<and>
    t_attr (task_at s' p) = TASK_RUNABLE \<and> t_context (task_at s' p) = entry \<and> fences_ok (task_at s' p) \<and>
    (\<forall>f. f \<noteq> NULL \<longrightarrow> refcnt s' f = refcnt s f + int (count_list (t_fd (task_at s cur)) f))"
proof -
  let ?t = "task_at s cur"
  have "inherit_fds 0 (take FD_NUM (t_fd ?t)) (replicate FD_NUM NULL, refcnt s) =
      (t_fd ?t, \<lambda>f. refcnt s f + (if f = NULL then 0 else int (count_list (t_fd ?t) f)))"
    using inherit_fds_eq [of "replicate FD_NUM NULL" "[]" "t_fd ?t" 0 "refcnt s"] assms(5)
    by (simp add: FD_NUM_def)
  then show ?thesis
    using assms by (auto simp: kmt_create_def Let_def add_task_def upd_task_def fences_ok_def split: prod.splits)
qed

theorem create_inherits_witness:
  "\<exists>s'. kmt_create 0 32 ''child'' 5 (demo_sched\<lparr>tasks := replicate 64 NULL, currents := (\<lambda>_. 16)\<rparr>) = Some s' \<and>
     t_fd (task_at s' 32) = replicate 16 NULL \<and> t_context (task_at s' 32) = 5"
proof -
  let ?s = "demo_sched\<lparr>tasks := replicate 64 NULL, currents := (\<lambda>_. 16)\<rparr>"
  obtain k where "find_pid (replicate 64 NULL) (last_pid ?s) = Some k"
    using find_pid_free [of 0 "replicate 64 NULL"] by fastforce
  then have "\<exists>s'. kmt_create 0 32 ''child'' 5 ?s = Some s'"
    by (simp add: kmt_create_def add_task_def upd_task_def Let_def demo_sched_def split: prod.splits)
  then obtain s' where s': "kmt_create 0 32 ''child'' 5 ?s = Some s'" ..
  have "t_fd (task_at s' 32) = t_fd (task_at ?s 16) \<and> t_context (task_at s' 32) = 5"
    using create_inherits [OF _ _ _ _ _ s', of 16] by (simp add: demo_sched_def)
  then show ?thesis using s' by (simp add: demo_sched_def)
qed

end
