(* ===== verification/Klib_Stdio.thy ===== *)
theory Klib_Stdio
  imports Klib_Stdlib
begin

text \<open>
  \<^verbatim>\<open>klib/src/stdio.c\<close>: the formatter behind \<^verbatim>\<open>printf\<close>, \<^verbatim>\<open>sprintf\<close> and \<^verbatim>\<open>snprintf\<close>.  The text already
  written is a list whose length is \<^verbatim>\<open>cnt\<close>; the macro \<^verbatim>\<open>output\<close> either appends a character or
  ends the call.  What the \<^verbatim>\<open>%f\<close> branch writes, an x87 computation, is the argument \<open>dbl\<close>.
\<close>

datatype 'd varg = VInt u32 | VStr string | VDouble 'd

datatype outst = Going string | Stopped string

text \<open>The macro \<^verbatim>\<open>output\<close>, for \<^verbatim>\<open>n - 1 = lim\<close>.\<close>

fun out1 :: "nat \<Rightarrow> char \<Rightarrow> outst \<Rightarrow> outst" where
  "out1 lim c (Going s) = (if length s < lim then Going (s @ [c]) else Stopped s)"
| "out1 lim c (Stopped s) = Stopped s"

fun outs :: "nat \<Rightarrow> string \<Rightarrow> outst \<Rightarrow> outst" where
  "outs lim [] st = st"
| "outs lim (c # cs) st = outs lim cs (out1 lim c st)"

section \<open>Conversions\<close>

text \<open>The loop that fills \<^verbatim>\<open>num\<close>, lowest digit first.\<close>

function digits_rev :: "nat \<Rightarrow> string" where
  "digits_rev n = (if n > 0 then char_of (n mod 10 + 48) # digits_rev (n div 10) else [])"
  by auto
termination by (relation "measure id") auto

declare digits_rev.simps [simp del]

text \<open>\<^verbatim>\<open>num\<close> has ten cells; the padding loop has no bound but the width.\<close>

definition pad_num :: "string \<Rightarrow> nat \<Rightarrow> string result" where
  "pad_num ds width =
     (let num = ds @ replicate (width - length ds) (CHR '' '')
      in if length num > 10 then Inl WildAccess
         else if num = [] then Inr ''0''
         else Inr (rev num))"

definition fmt_u :: "u32 \<Rightarrow> nat \<Rightarrow> string result" where
  "fmt_u w width = pad_num (digits_rev (unat w)) width"

definition fmt_d :: "u32 \<Rightarrow> nat \<Rightarrow> string result" where
  "fmt_d w width =
     (if sint w < 0 then
        (let v = - w
         in case pad_num (if sint v > 0 then digits_rev (unat v) else []) width of
              Inl e \<Rightarrow> Inl e | Inr s \<Rightarrow> Inr (CHR ''-'' # s))
      else pad_num (digits_rev (unat w)) width)"

definition nibble_char :: "u32 \<Rightarrow> char" where
  "nibble_char uval =
     (let x = unat (drop_bit 28 uval) in if x < 10 then char_of (x + 48) else char_of (x - 10 + 97))"

fun fmt_x_loop :: "nat \<Rightarrow> u32 \<Rightarrow> string" where
  "fmt_x_loop 0 uval = []"
| "fmt_x_loop (Suc i) uval = nibble_char uval # fmt_x_loop i (push_bit 4 uval)"

definition fmt_x :: "u32 \<Rightarrow> string" where
  "fmt_x w = fmt_x_loop 8 w"

section \<open>The format loop\<close>

definition isalpha :: "char \<Rightarrow> bool" where
  "isalpha c \<longleftrightarrow> (cval c \<ge> 97 \<and> cval c \<le> 122) \<or> (cval c \<ge> 65 \<and> cval c \<le> 90)"

fun read_width :: "u32 \<Rightarrow> string \<Rightarrow> u32 \<times> string" where
  "read_width w [] = (w, [])"
| "read_width w (c # cs) =
     (if cval c \<ge> 48 \<and> cval c \<le> 57 then read_width (w * 10 + of_int (cval c - 48)) cs else (w, c # cs))"

text \<open>
  One conversion: the text it produces and the remaining arguments.  The test for a \<open>0\<close> fill
  looks at the \<^verbatim>\<open>%\<close> itself, so the fill is always a blank.
\<close>

definition convert :: "('d \<Rightarrow> string) \<Rightarrow> char \<Rightarrow> nat \<Rightarrow> 'd varg list \<Rightarrow> (string \<times> 'd varg list) result" where
  "convert dbl c width args =
     (if c = CHR ''c'' then
        (case args of VInt w # as \<Rightarrow> Inr ([char_of (unat w mod 256)], as) | _ \<Rightarrow> Inl WildAccess)
      else if c = CHR ''u'' then
        (case args of VInt w # as \<Rightarrow> (case fmt_u w width of Inl e \<Rightarrow> Inl e | Inr t \<Rightarrow> Inr (t, as))
         | _ \<Rightarrow> Inl WildAccess)
      else if c = CHR ''x'' \<or> c = CHR ''p'' then
        (case args of VInt w # as \<Rightarrow> Inr (fmt_x w, as) | _ \<Rightarrow> Inl WildAccess)
      else if c = CHR ''d'' then
        (case args of VInt w # as \<Rightarrow> (case fmt_d w width of Inl e \<Rightarrow> Inl e | Inr t \<Rightarrow> Inr (t, as))
         | _ \<Rightarrow> Inl WildAccess)
      else if c = CHR ''f'' then
        (case args of VDouble d # as \<Rightarrow> Inr (dbl d, as) | _ \<Rightarrow> Inl WildAccess)
      else if c = CHR ''s'' then
        (case args of VStr s # as \<Rightarrow> Inr (s, as) | _ \<Rightarrow> Inl WildAccess)
      else if isalpha c then Inl AssertFail
      else Inr ([c], args))"

lemma read_width_length: "length (snd (read_width w cs)) \<le> length cs"
  by (induction w cs rule: read_width.induct) auto

lemma read_width_rest: "(v, k # ks) = read_width w cs \<Longrightarrow> length ks \<le> length cs"
  using read_width_length [of w cs] by (metis snd_conv length_Cons Suc_leD)

text \<open>\<^verbatim>\<open>vsnprintf_real\<close>: a \<^verbatim>\<open>%\<close> at the very end makes the loop step over the terminator.\<close>

function vsnprintf_loop :: "('d \<Rightarrow> string) \<Rightarrow> nat \<Rightarrow> string \<Rightarrow> 'd varg list \<Rightarrow> outst \<Rightarrow> outst result" where
  "vsnprintf_loop dbl lim fmt args (Stopped s) = Inr (Stopped s)"
| "vsnprintf_loop dbl lim [] args (Going s) = Inr (Going s)"
| "vsnprintf_loop dbl lim (c # cs) args (Going s) =
     (if c \<noteq> CHR ''%'' then vsnprintf_loop dbl lim cs args (out1 lim c (Going s))
      else
        (case read_width 0 cs of (w, rest) \<Rightarrow>
           (case rest of
              [] \<Rightarrow> (if length s < lim then Inl WildAccess else Inr (Stopped s))
            | k # ks \<Rightarrow>
                (case convert dbl k (nat (sint w)) args of
                   Inl e \<Rightarrow> Inl e
                 | Inr (t, as) \<Rightarrow> vsnprintf_loop dbl lim ks as (outs lim t (Going s))))))"
  by pat_completeness auto
termination
  by (relation "measure (\<lambda>(_, _, fmt, _, _). length fmt)") (auto dest: read_width_rest)

text \<open>
  The buffer's string and the returned count: the final \<^verbatim>\<open>output('\0')\<close> ends the call either way.
  \<^verbatim>\<open>n - 1\<close> is computed in 32 bits, so \<^verbatim>\<open>n = 0\<close> and \<^verbatim>\<open>n = -1\<close> both mean no limit in practice.
\<close>

definition vsnprintf :: "('d \<Rightarrow> string) \<Rightarrow> u32 \<Rightarrow> string \<Rightarrow> 'd varg list \<Rightarrow> (string \<times> nat) result" where
  "vsnprintf dbl n fmt args =
     (case vsnprintf_loop dbl (unat (n - 1)) fmt args (Going []) of
        Inl e \<Rightarrow> Inl e
      | Inr (Stopped s) \<Rightarrow> Inr (s, length s)
      | Inr (Going s) \<Rightarrow> Inr (s, length s))"

definition sprintf :: "('d \<Rightarrow> string) \<Rightarrow> string \<Rightarrow> 'd varg list \<Rightarrow> (string \<times> nat) result" where
  "sprintf dbl fmt args = vsnprintf dbl (- 1) fmt args"

definition snprintf :: "('d \<Rightarrow> string) \<Rightarrow> u32 \<Rightarrow> string \<Rightarrow> 'd varg list \<Rightarrow> (string \<times> nat) result" where
  "snprintf dbl n fmt args = vsnprintf dbl n fmt args"

text \<open>\<^verbatim>\<open>printf\<close> formats into a buffer of 200 characters and asserts that it sufficed.\<close>

definition printf :: "('d \<Rightarrow> string) \<Rightarrow> string \<Rightarrow> 'd varg list \<Rightarrow> string \<Rightarrow> (string \<times> nat) result" where
  "printf dbl fmt args console =
     (case vsnprintf dbl (- 1) fmt args of
        Inl e \<Rightarrow> Inl e
      | Inr (s, n) \<Rightarrow> if n < 200 then Inr (console @ s, n) else Inl AssertFail)"

definition puts :: "string \<Rightarrow> string \<Rightarrow> string \<times> nat" where
  "puts s console = (console @ s, length s)"

section \<open>The limit only truncates\<close>

text \<open>What a format stands for, without any limit.\<close>

function expand :: "('d \<Rightarrow> string) \<Rightarrow> string \<Rightarrow> 'd varg list \<Rightarrow> string result" where
  "expand dbl [] args = Inr []"
| "expand dbl (c # cs) args =
     (if c \<noteq> CHR ''%'' then map_sum id ((#) c) (expand dbl cs args)
      else
        (case read_width 0 cs of (w, rest) \<Rightarrow>
           (case rest of
              [] \<Rightarrow> Inl WildAccess
            | k # ks \<Rightarrow>
                (case convert dbl k (nat (sint w)) args of
                   Inl e \<Rightarrow> Inl e
                 | Inr (t, as) \<Rightarrow> map_sum id ((@) t) (expand dbl ks as)))))"
  by pat_completeness auto
termination
  by (relation "measure (\<lambda>(_, fmt, _). length fmt)") (auto dest: read_width_rest)

definition clip :: "nat \<Rightarrow> string \<Rightarrow> outst" where
  "clip lim s = (if length s \<le> lim then Going s else Stopped (take lim s))"

lemma outs_Stopped [simp]: "outs lim t (Stopped s) = Stopped s"
  by (induction t) auto

lemma outs_clip: "length s \<le> lim \<Longrightarrow> outs lim t (Going s) = clip lim (s @ t)"
proof (induction t arbitrary: s)
  case (Cons c t)
  show ?case
  proof (cases "length s < lim")
    case True
    then show ?thesis using Cons.IH [of "s @ [c]"] by simp
  next
    case False
    then show ?thesis using Cons.prems by (simp add: clip_def)
  qed
qed (simp add: clip_def)

lemma out1_clip: "length s \<le> lim \<Longrightarrow> out1 lim c (Going s) = clip lim (s @ [c])"
  using outs_clip [of s lim "[c]"] by simp

lemma loop_clip:
  assumes "length s \<le> lim \<Longrightarrow> vsnprintf_loop dbl lim fmt args (Going s) = Inr (clip lim (s @ t))"
  shows "vsnprintf_loop dbl lim fmt args (clip lim s) = Inr (clip lim (s @ t))"
  using assms by (auto simp: clip_def)

lemma vsnprintf_loop_expand:
  "expand dbl fmt args = Inr t \<Longrightarrow> length s \<le> lim \<Longrightarrow>
   vsnprintf_loop dbl lim fmt args (Going s) = Inr (clip lim (s @ t))"
proof (induction dbl fmt args arbitrary: s t rule: expand.induct)
  case (1 dbl args)
  then show ?case by (simp add: clip_def)
next
  case (2 dbl c cs args)
  show ?case
  proof (cases "c = CHR ''%''")
    case False
    then obtain t' where t': "expand dbl cs args = Inr t'" "t = c # t'"
      using "2.prems"(1) by (auto simp: map_sum_def split: sum.splits)
    have "vsnprintf_loop dbl lim cs args (clip lim (s @ [c])) = Inr (clip lim ((s @ [c]) @ t'))"
      by (rule loop_clip) (rule "2.IH"(1) [OF False t'(1)])
    then show ?thesis using False t' out1_clip [OF "2.prems"(2)] by simp
  next
    case True
    obtain w rest where r: "read_width 0 cs = (w, rest)" by (cases "read_width 0 cs") auto
    obtain k ks where rest: "rest = k # ks" using "2.prems"(1) True r by (cases rest) auto
    obtain u as where u: "convert dbl k (nat (sint w)) args = Inr (u, as)"
      using "2.prems"(1) True r rest by (auto split: sum.splits)
    obtain t' where t': "expand dbl ks as = Inr t'" "t = u @ t'"
      using "2.prems"(1) True r rest u by (auto simp: map_sum_def split: sum.splits)
    have "vsnprintf_loop dbl lim ks as (clip lim (s @ u)) = Inr (clip lim ((s @ u) @ t'))"
      by (rule loop_clip) (rule "2.IH"(2) [OF _ r [symmetric] rest u refl t'(1)], use True in simp_all)
    then show ?thesis using True r rest u t' outs_clip [OF "2.prems"(2)] by simp
  qed
qed

section \<open>Numbers\<close>

lemma digits_rev_length: "n < 10 ^ k \<Longrightarrow> length (digits_rev n) \<le> k"
proof (induction n arbitrary: k rule: digits_rev.induct)
  case (1 n)
  show ?case
  proof (cases "n = 0")
    case False
    then obtain k' where k: "k = Suc k'" using 1(2) by (cases k) auto
    then have "n div 10 < 10 ^ k'" using 1(2) by (simp add: less_mult_imp_div_less mult.commute)
    then show ?thesis using 1(1) [of k'] False k by (subst digits_rev.simps) simp
  qed (simp add: digits_rev.simps)
qed

lemma atoi10_digits: "atoi10_loop 0 (rev (digits_rev n)) = of_nat n"
proof (induction n rule: digits_rev.induct)
  case (1 n)
  show ?case
  proof (cases "n = 0")
    case False
    have "atoi10_loop 0 (rev (digits_rev n)) = of_nat (n div 10) * 10 + of_nat (n mod 10)"
      using 1 False cval_small [of "n mod 10 + 48"]
      by (subst digits_rev.simps) (simp add: atoi10_append)
    also have "\<dots> = of_nat (n div 10 * 10 + n mod 10)"
      by (simp only: of_nat_add of_nat_mult of_nat_numeral)
    finally show ?thesis by (simp only: div_mult_mod_eq)
  qed (simp add: digits_rev.simps)
qed

lemma last_digit: "0 < n \<Longrightarrow> digits_rev n \<noteq> [] \<and> 48 < cval (last (digits_rev n))"
proof (induction n rule: digits_rev.induct)
  case (1 n)
  show ?case
  proof (cases "n div 10 = 0")
    case True
    then show ?thesis using 1(2) by (subst (1 2) digits_rev.simps) (simp add: digits_rev.simps [of 0])
  next
    case False
    then show ?thesis using 1 by (subst (1 2) digits_rev.simps) simp
  qed
qed

lemma atoi_digits:
  assumes "0 < n"
  shows "atoi (rev (digits_rev n)) = of_nat n" "atoi (CHR ''-'' # rev (digits_rev n)) = - of_nat n"
proof -
  obtain c cs where r: "rev (digits_rev n) = c # cs"
    using last_digit [OF assms] by (cases "rev (digits_rev n)") auto
  then have "c = last (digits_rev n)" by (metis last_rev list.sel(1) rev_rev_ident hd_rev)
  then have "48 < cval c" using last_digit [OF assms] by simp
  moreover have "cval CHR ''0'' = 48" "cval CHR ''-'' = 45" "cval CHR ''+'' = 43"
    by (simp_all add: cval_def)
  ultimately have "c \<noteq> CHR ''0''" "c \<noteq> CHR ''-''" "c \<noteq> CHR ''+''" by auto
  then show "atoi (rev (digits_rev n)) = of_nat n" using atoi10_digits [of n]
    by (simp add: atoi_def r atoi10_def)
  show "atoi (CHR ''-'' # rev (digits_rev n)) = - of_nat n"
    using atoi10_digits [of n] by (simp add: atoi_def atoi10_def)
qed

lemma fmt_d_nonneg:
  assumes "0 \<le> sint w"
  shows "fmt_d w 0 = Inr (if w = 0 then ''0'' else rev (digits_rev (unat w)))"
proof -
  have "unat w < 10 ^ 10" using unat_u32 [of w] by simp
  from digits_rev_length [OF this] show ?thesis
    using assms last_digit [of "unat w"] by (auto simp: fmt_d_def pad_num_def Let_def digits_rev.simps [of 0]
        unat_gt_0)
qed

lemma fmt_d_neg:
  assumes "sint w < 0" "0 < sint (- w)"
  shows "fmt_d w 0 = Inr (CHR ''-'' # rev (digits_rev (unat (- w))))"
proof -
  have "unat (- w) < 10 ^ 10" using unat_u32 [of "- w"] by simp
  moreover have "- w \<noteq> 0" using assms by auto
  ultimately show ?thesis
    using digits_rev_length [of "unat (- w)" 10] assms last_digit [of "unat (- w)"]
    by (auto simp: fmt_d_def pad_num_def Let_def unat_gt_0)
qed

lemma pad_num_length: "pad_num ds width = Inr s \<Longrightarrow> length s \<le> 10"
  by (auto simp: pad_num_def Let_def split: if_splits)

lemma fmt_d_length: "fmt_d w width = Inr s \<Longrightarrow> length s \<le> 11"
  by (auto simp: fmt_d_def Let_def split: if_splits sum.splits dest!: pad_num_length)

text \<open>The most negative number is its own negation: its digits are lost.\<close>

lemma fmt_d_int_min: "fmt_d (0x80000000 :: u32) 0 = Inr ''-0''"
  by (simp add: fmt_d_def pad_num_def)

lemma fmt_d_zero_padded: "fmt_d 0 3 = Inr ''   ''"
  by (simp add: fmt_d_def pad_num_def digits_rev.simps numeral_eq_Suc)

lemma sint_neg_pos:
  assumes "sint (w :: u32) < 0" "w \<noteq> 0x80000000"
  shows "0 < sint (- w)"
proof -
  have u: "2 ^ 31 \<le> uint w" "uint w < 2 ^ 32"
    using assms(1) uint_u32 [of w] by (auto simp: sint_u32 split: if_splits)
  have "uint w \<noteq> uint (0x80000000 :: u32)" using assms(2) by (metis word_uint_eqI)
  then have "uint w \<noteq> 2 ^ 31" by simp
  moreover have "uint (- w) = 2 ^ 32 - uint w"
    using u by (simp add: uint_word_ariths(4) zmod_zminus1_eq_if)
  ultimately show ?thesis using u by (simp add: sint_u32)
qed

section \<open>Hexadecimal\<close>

lemma hex_digit_char:
  "n < 16 \<Longrightarrow> hex_digit (if n < 10 then char_of (n + 48) else char_of (n - 10 + 97)) = int n"
  for n :: nat
  by (auto simp: hex_digit_def)

lemma hex_digit_nibble: "hex_digit (nibble_char w) = int (unat (drop_bit 28 w))"
proof -
  have "unat (drop_bit 28 w) < 16"
    using unat_u32 [of w] unat_drop_u32 [of 28 w] by (simp add: less_mult_imp_div_less)
  from hex_digit_char [OF this] show ?thesis unfolding nibble_char_def Let_def .
qed

lemma div_of_split: "n = c * b + a \<Longrightarrow> 0 < b \<Longrightarrow> n div b = c + a div b"
  for n :: nat
  by simp

lemma atoi16_fmt_x_loop:
  "k \<le> 8 \<Longrightarrow> atoi16_loop r (fmt_x_loop k w) = r * 16 ^ k + of_nat (unat w div 2 ^ (32 - 4 * k))"
proof (induction k arbitrary: r w)
  case 0
  have "unat w div 2 ^ 32 = 0" using unat_u32 [of w] by simp
  then show ?case by simp
next
  case (Suc k)
  let ?n = "unat w" and ?m = "32 - 4 * Suc k"
  have e: "28 = ?m + 4 * k" "32 - 4 * k = ?m + 4" using Suc.prems by presburger+
  have push: "unat (push_bit 4 w) = 16 * (?n mod 2 ^ 28)"
  proof -
    have "unat (push_bit 4 w) = (16 * ?n) mod (16 * 2 ^ 28)" by (simp add: unat_push_u32 mult.commute)
    also have "\<dots> = 16 * (?n mod 2 ^ 28)" by (simp only: mult_mod_right)
    finally show ?thesis .
  qed
  have drop: "unat (drop_bit 28 w) = ?n div 2 ^ 28" by (rule unat_drop_u32)
  have "16 * (?n mod 2 ^ 28) div 2 ^ (?m + 4) = ?n mod 2 ^ 28 div 2 ^ ?m"
  proof -
    have "(2::nat) ^ (?m + 4) = 16 * 2 ^ ?m" by (simp add: power_add)
    then show ?thesis by (simp only: div_mult_mult1)
  qed
  moreover have "?n div 2 ^ ?m = ?n div 2 ^ 28 * 16 ^ k + ?n mod 2 ^ 28 div 2 ^ ?m"
  proof -
    have "(16::nat) ^ k = 2 ^ (4 * k)" by (simp add: power_mult)
    then have "16 ^ k * 2 ^ ?m = (2::nat) ^ (?m + 4 * k)" by (simp add: power_add)
    also have "\<dots> = 2 ^ 28" by (simp only: e(1) [symmetric])
    finally have "?n div 2 ^ 28 * 16 ^ k * 2 ^ ?m = ?n div 2 ^ 28 * 2 ^ 28" by (simp only: mult.assoc)
    then have "?n = ?n div 2 ^ 28 * 16 ^ k * 2 ^ ?m + ?n mod 2 ^ 28"
      by (simp only: div_mult_mod_eq)
    then show ?thesis by (rule div_of_split) simp
  qed
  ultimately have split: "?n div 2 ^ ?m = ?n div 2 ^ 28 * 16 ^ k + 16 * (?n mod 2 ^ 28) div 2 ^ (32 - 4 * k)"
    by (simp only: e(2))
  have "atoi16_loop r (fmt_x_loop (Suc k) w) =
      (r * 16 + of_nat (?n div 2 ^ 28)) * 16 ^ k + of_nat (unat (push_bit 4 w) div 2 ^ (32 - 4 * k))"
    using Suc(1) [of "r * 16 + of_nat (?n div 2 ^ 28)" "push_bit 4 w"] Suc.prems
    by (simp add: hex_digit_nibble drop)
  also have "\<dots> = r * 16 ^ Suc k + of_nat (?n div 2 ^ ?m)"
    unfolding split push by (simp only: of_nat_add of_nat_mult of_nat_power of_nat_numeral power_Suc algebra_simps)
  finally show ?case .
qed

section \<open>Properties\<close>

text \<open>C12: \<^verbatim>\<open>snprintf\<close> with a buffer of \<^verbatim>\<open>n\<close> bytes writes the first \<^verbatim>\<open>n - 1\<close> characters of what the
  format stands for and returns how many it wrote: truncation never changes the text, whichever
  conversion it falls in.\<close>

theorem snprintf_truncates:
  assumes "expand dbl fmt args = Inr t"
  shows "snprintf dbl n fmt args = Inr (take (unat (n - 1)) t, min (unat (n - 1)) (length t))"
  using vsnprintf_loop_expand [OF assms, of "[]" "unat (n - 1)"]
  by (auto simp: snprintf_def vsnprintf_def clip_def)

theorem snprintf_truncates_witness:
  "snprintf (\<lambda>_::unit. []) 5 ''ab%sef'' [VStr ''cde''] = Inr (''abcd'', 4)"
  using snprintf_truncates [of "\<lambda>_::unit. []" "''ab%sef''" "[VStr ''cde'']" "''abcdeef''" 5]
  by (simp add: convert_def cval_def)

text \<open>C16: printing a number with \<^verbatim>\<open>%d\<close> and reading it back with \<^verbatim>\<open>atoi\<close> gives the number, for every
  \<^verbatim>\<open>int\<close> but the most negative one, of which \<^verbatim>\<open>%d\<close> prints only \<^verbatim>\<open>-0\<close>.\<close>

theorem decimal_roundtrip:
  assumes "w \<noteq> 0x80000000"
  shows "\<exists>s. sprintf dbl ''%d'' [VInt w] = Inr (s, length s) \<and> atoi s = w"
proof -
  obtain s where s: "fmt_d w 0 = Inr s" and a: "atoi s = w"
  proof (cases "0 \<le> sint w")
    case True
    have "atoi ''0'' = 0" by (simp add: atoi_def atoi8_def)
    then show thesis using that fmt_d_nonneg [OF True] atoi_digits(1) [of "unat w"]
      by (auto simp: unat_gt_0)
  next
    case False
    then have neg: "sint w < 0" by simp
    have "- w \<noteq> 0" using neg by auto
    then show thesis using that fmt_d_neg [OF neg sint_neg_pos [OF neg assms]] atoi_digits(2) [of "unat (- w)"]
      by (simp add: unat_gt_0)
  qed
  have "expand dbl ''%d'' [VInt w] = Inr s" using s by (simp add: convert_def cval_def)
  from vsnprintf_loop_expand [OF this, of "[]" "unat (- 1 - 1 :: u32)"]
  have "sprintf dbl ''%d'' [VInt w] = Inr (s, length s)"
    using fmt_d_length [OF s] by (simp add: sprintf_def vsnprintf_def clip_def)
  then show ?thesis using a by blast
qed

theorem decimal_roundtrip_witness:
  "\<exists>s. sprintf (\<lambda>_::unit. []) ''%d'' [VInt (- 305)] = Inr (s, length s) \<and> atoi s = - 305"
  by (rule decimal_roundtrip) simp

text \<open>\<^verbatim>\<open>%x\<close> prints eight digits that \<^verbatim>\<open>atoi\<close> reads back, after a \<^verbatim>\<open>0x\<close>, as the same word.\<close>

theorem hex_roundtrip:
  "\<exists>s. sprintf dbl ''0x%x'' [VInt w] = Inr (s, 10) \<and> atoi s = w"
proof -
  have len: "length (fmt_x_loop k w) = k" for k w by (induction k arbitrary: w) auto
  have "expand dbl ''0x%x'' [VInt w] = Inr (''0x'' @ fmt_x w)" by (simp add: convert_def cval_def)
  from vsnprintf_loop_expand [OF this, of "[]" "unat (- 1 - 1 :: u32)"]
  have "sprintf dbl ''0x%x'' [VInt w] = Inr (''0x'' @ fmt_x w, 10)"
    using len [of 8 w] by (simp add: sprintf_def vsnprintf_def clip_def fmt_x_def)
  moreover have "atoi (''0x'' @ fmt_x w) = w"
    using atoi16_fmt_x_loop [of 8 0 w] by (simp add: atoi_def atoi16_def fmt_x_def)
  ultimately show ?thesis by blast
qed

end
