(* ===== verification/Klib_String.thy ===== *)
theory Klib_String
  imports Prelude "HOL-Library.Word"
begin

text \<open>
  \<^verbatim>\<open>klib/src/string.c\<close> on a byte store.  A loop that looks for a terminator is a
  \<^theory_text>\<open>partial_function\<close>, so running off an unterminated string is the value \<open>None\<close>; counted
  loops recurse on the count.  \<^verbatim>\<open>char\<close> is signed where characters are subtracted.
\<close>

type_synonym mem = "nat \<Rightarrow> u8"

section \<open>Operations\<close>

partial_function (option) strlen_loop :: "mem \<Rightarrow> nat \<Rightarrow> nat \<Rightarrow> nat option" where
  "strlen_loop m s i = (if m (s + i) \<noteq> 0 then strlen_loop m s (i + 1) else Some i)"

definition strlen :: "mem \<Rightarrow> nat \<Rightarrow> nat option" where
  "strlen m s = strlen_loop m s 0"

function strnlen_loop :: "mem \<Rightarrow> nat \<Rightarrow> nat \<Rightarrow> nat \<Rightarrow> nat" where
  "strnlen_loop m s maxlen i =
     (if m (s + i) \<noteq> 0 \<and> i < maxlen then strnlen_loop m s maxlen (i + 1) else i)"
  by auto
termination by (relation "measure (\<lambda>(m, s, maxlen, i). maxlen - i)") auto

declare strnlen_loop.simps [simp del]

definition strnlen :: "mem \<Rightarrow> nat \<Rightarrow> nat \<Rightarrow> nat" where
  "strnlen m s maxlen = strnlen_loop m s maxlen 0"

partial_function (option) strcpy_loop :: "mem \<Rightarrow> nat \<Rightarrow> nat \<Rightarrow> nat \<Rightarrow> mem option" where
  "strcpy_loop m dst src i =
     (if m (src + i) \<noteq> 0 then strcpy_loop (m(dst + i := m (src + i))) dst src (i + 1)
      else Some (m(dst + i := m (src + i))))"

definition strcpy :: "mem \<Rightarrow> nat \<Rightarrow> nat \<Rightarrow> mem option" where
  "strcpy m dst src = strcpy_loop m dst src 0"

function strncpy_loop :: "mem \<Rightarrow> nat \<Rightarrow> nat \<Rightarrow> nat \<Rightarrow> nat \<Rightarrow> mem" where
  "strncpy_loop m dst src n i =
     (if i < n \<and> m (src + i) \<noteq> 0 then strncpy_loop (m(dst + i := m (src + i))) dst src n (i + 1)
      else m(dst + i := 0))"
  by auto
termination by (relation "measure (\<lambda>(m, dst, src, n, i). n - i)") auto

declare strncpy_loop.simps [simp del]

definition strncpy :: "mem \<Rightarrow> nat \<Rightarrow> nat \<Rightarrow> nat \<Rightarrow> mem" where
  "strncpy m dst src n = strncpy_loop m dst src n 0"

definition strcat :: "mem \<Rightarrow> nat \<Rightarrow> nat \<Rightarrow> mem option" where
  "strcat m dst src = Option.bind (strlen m dst) (\<lambda>l. strcpy_loop m (dst + l) src 0)"

definition strncat :: "mem \<Rightarrow> nat \<Rightarrow> nat \<Rightarrow> nat \<Rightarrow> mem option" where
  "strncat m dst src n = map_option (\<lambda>l. strncpy_loop m (dst + l) src n 0) (strlen m dst)"

partial_function (option) strcmp :: "mem \<Rightarrow> nat \<Rightarrow> nat \<Rightarrow> int option" where
  "strcmp m s1 s2 =
     (if m s1 = m s2 \<and> m s1 \<noteq> 0 then strcmp m (s1 + 1) (s2 + 1)
      else Some (sint (m s1) - sint (m s2)))"

fun strncmp :: "mem \<Rightarrow> nat \<Rightarrow> nat \<Rightarrow> nat \<Rightarrow> int" where
  "strncmp m s1 s2 0 = 0"
| "strncmp m s1 s2 (Suc n) =
     (if Suc n > 1 \<and> m s1 = m s2 \<and> m s1 \<noteq> 0 then strncmp m (s1 + 1) (s2 + 1) n
      else sint (m s1) - sint (m s2))"

fun memset :: "mem \<Rightarrow> nat \<Rightarrow> u8 \<Rightarrow> nat \<Rightarrow> mem" where
  "memset m v c 0 = m"
| "memset m v c (Suc n) = (memset m v c n)(v + n := c)"

fun memcpy :: "mem \<Rightarrow> nat \<Rightarrow> nat \<Rightarrow> nat \<Rightarrow> mem" where
  "memcpy m dst src 0 = m"
| "memcpy m dst src (Suc n) = (let m' = memcpy m dst src n in m'(dst + n := m' (src + n)))"

function memcmp_loop :: "mem \<Rightarrow> nat \<Rightarrow> nat \<Rightarrow> nat \<Rightarrow> nat \<Rightarrow> int" where
  "memcmp_loop m s1 s2 n i =
     (if i < n then
        (if m (s2 + i) = m (s1 + i) then memcmp_loop m s1 s2 n (i + 1)
         else sint (m (s2 + i)) - sint (m (s1 + i)))
      else 0)"
  by auto
termination by (relation "measure (\<lambda>(m, s1, s2, n, i). n - i)") auto

declare memcmp_loop.simps [simp del]

definition memcmp :: "mem \<Rightarrow> nat \<Rightarrow> nat \<Rightarrow> nat \<Rightarrow> int" where
  "memcmp m s1 s2 n = (if n = 0 then 0 else memcmp_loop m s1 s2 n 0)"

text \<open>For \<^verbatim>\<open>dest > src\<close> the loop starts at \<^verbatim>\<open>n - 1\<close> and counts up while the index is not negative.\<close>

partial_function (option) memmove_up :: "mem \<Rightarrow> nat \<Rightarrow> nat \<Rightarrow> nat \<Rightarrow> mem option" where
  "memmove_up m dest src i = memmove_up (m(dest + i := m (src + i))) dest src (i + 1)"

definition memmove :: "mem \<Rightarrow> nat \<Rightarrow> nat \<Rightarrow> nat \<Rightarrow> mem option" where
  "memmove m dest src n =
     (if dest > src then (if n = 0 then Some m else memmove_up m dest src (n - 1))
      else Some (memcpy m dest src n))"

partial_function (option) strchr :: "mem \<Rightarrow> nat \<Rightarrow> u8 \<Rightarrow> ptr option" where
  "strchr m s c =
     (if m s \<noteq> 0 then (if m s = c then Some s else strchr m (s + 1) c) else Some NULL)"

section \<open>Strings in the store\<close>

definition cstr :: "mem \<Rightarrow> nat \<Rightarrow> u8 list \<Rightarrow> bool" where
  "cstr m s xs \<longleftrightarrow> (\<forall>i<length xs. m (s + i) = xs ! i) \<and> 0 \<notin> set xs \<and> m (s + length xs) = 0"

definition store :: "mem \<Rightarrow> nat \<Rightarrow> u8 list \<Rightarrow> mem" where
  "store m a xs = (\<lambda>x. if a \<le> x \<and> x < a + length xs then xs ! (x - a) else m x)"

lemma cstr_Nil: "cstr m s [] \<longleftrightarrow> m s = 0"
  by (simp add: cstr_def)

lemma cstr_Cons: "cstr m s (x # xs) \<longleftrightarrow> m s = x \<and> x \<noteq> 0 \<and> cstr m (Suc s) xs"
  by (auto simp: cstr_def nth_Cons split: nat.splits)

lemma store_snoc: "store (m(a := x)) (Suc a) xs = store m a (x # xs)"
  by (auto simp: store_def fun_eq_iff nth_Cons' not_less_eq_eq)

lemma store_one: "m(a := x) = store m a [x]"
  by (auto simp: store_def fun_eq_iff)

lemma strlen_loop_cstr: "cstr m (s + i) xs \<Longrightarrow> strlen_loop m s i = Some (i + length xs)"
proof (induction xs arbitrary: i)
  case Nil
  then show ?case by (subst strlen_loop.simps) (simp add: cstr_Nil)
next
  case (Cons x xs)
  then show ?case by (subst strlen_loop.simps) (simp add: cstr_Cons)
qed

lemma strlen_cstr: "cstr m s xs \<Longrightarrow> strlen m s = Some (length xs)"
  using strlen_loop_cstr [of m s 0 xs] by (simp add: strlen_def)

text \<open>Two regions that do not meet.\<close>

definition clear :: "nat \<Rightarrow> nat \<Rightarrow> nat \<Rightarrow> nat \<Rightarrow> bool" where
  "clear a n b k \<longleftrightarrow> a + n \<le> b \<or> b + k \<le> a"

lemma cstr_upd: "a < s \<or> s + length xs < a \<Longrightarrow> cstr (m(a := x)) s xs = cstr m s xs"
proof -
  assume a: "a < s \<or> s + length xs < a"
  have "(m(a := x)) (s + i) = m (s + i)" if "i \<le> length xs" for i using a that by auto
  then show ?thesis by (simp add: cstr_def)
qed

lemma strcpy_loop_cstr:
  "cstr m (src + i) xs \<Longrightarrow> clear (dst + i) (length xs + 1) (src + i) (length xs + 1) \<Longrightarrow>
   strcpy_loop m dst src i = Some (store m (dst + i) (xs @ [0]))"
proof (induction xs arbitrary: i m)
  case Nil
  then show ?case by (subst strcpy_loop.simps) (simp add: cstr_Nil store_one)
next
  case (Cons x xs)
  have "cstr (m(dst + i := x)) (src + Suc i) xs"
    using Cons.prems by (subst cstr_upd) (auto simp: clear_def cstr_Cons)
  moreover have "clear (dst + Suc i) (length xs + 1) (src + Suc i) (length xs + 1)"
    using Cons.prems(2) by (auto simp: clear_def)
  ultimately have "strcpy_loop (m(dst + i := x)) dst src (Suc i) =
      Some (store (m(dst + i := x)) (dst + Suc i) (xs @ [0]))"
    by (rule Cons.IH)
  then show ?case using Cons.prems by (subst strcpy_loop.simps) (simp add: cstr_Cons store_snoc)
qed

lemma strncpy_loop_cstr:
  "cstr m (src + i) xs \<Longrightarrow> clear (dst + i) (length xs + 1) (src + i) (length xs + 1) \<Longrightarrow>
   strncpy_loop m dst src (i + n) i = store m (dst + i) (take n xs @ [0])"
proof (induction xs arbitrary: i m n)
  case Nil
  then show ?case by (subst strncpy_loop.simps) (simp add: cstr_Nil store_one)
next
  case (Cons x xs)
  show ?case
  proof (cases n)
    case 0
    then show ?thesis by (subst strncpy_loop.simps) (simp add: store_one)
  next
    case (Suc k)
    have "cstr (m(dst + i := x)) (src + Suc i) xs"
      using Cons.prems by (subst cstr_upd) (auto simp: clear_def cstr_Cons)
    moreover have "clear (dst + Suc i) (length xs + 1) (src + Suc i) (length xs + 1)"
      using Cons.prems(2) by (auto simp: clear_def)
    ultimately have "strncpy_loop (m(dst + i := x)) dst src (Suc i + k) (Suc i) =
        store (m(dst + i := x)) (dst + Suc i) (take k xs @ [0])"
      by (rule Cons.IH)
    then show ?thesis using Cons.prems Suc
      by (subst strncpy_loop.simps) (simp add: cstr_Cons store_snoc)
  qed
qed

lemma store_store: "store (store m a xs) (a + length xs) ys = store m a (xs @ ys)"
  by (auto simp: store_def fun_eq_iff nth_append)

lemma cstr_store: "0 \<notin> set xs \<Longrightarrow> cstr (store m a (xs @ [0])) a xs"
  by (auto simp: cstr_def store_def nth_append)

text \<open>The first difference of two strings, the terminator included.\<close>

fun sign_diff :: "u8 list \<Rightarrow> u8 list \<Rightarrow> int" where
  "sign_diff [] [] = 0"
| "sign_diff (x # xs) [] = sint x"
| "sign_diff [] (y # ys) = - sint y"
| "sign_diff (x # xs) (y # ys) = (if x = y then sign_diff xs ys else sint x - sint y)"

lemma strcmp_cstr: "cstr m s xs \<Longrightarrow> cstr m t ys \<Longrightarrow> strcmp m s t = Some (sign_diff xs ys)"
  by (induction xs ys arbitrary: s t rule: sign_diff.induct) (subst strcmp.simps, auto simp: cstr_Nil cstr_Cons)+

lemma sint_inj: "sint x = sint y \<longleftrightarrow> x = y" for x y :: u8
  using signed_word_eqI by blast

lemma sign_diff_0: "0 \<notin> set xs \<Longrightarrow> 0 \<notin> set ys \<Longrightarrow> sign_diff xs ys = 0 \<longleftrightarrow> xs = ys"
  by (induction xs ys rule: sign_diff.induct) (auto simp: sint_inj sint_inj [of _ 0, simplified])

lemma strncmp_cstr:
  "cstr m s xs \<Longrightarrow> cstr m t ys \<Longrightarrow> strncmp m s t n = sign_diff (take n xs) (take n ys)"
proof (induction m s t n arbitrary: xs ys rule: strncmp.induct)
  case (2 m s1 s2 n)
  then show ?case
    by (cases xs; cases ys) (auto simp: cstr_Nil cstr_Cons)
qed simp

lemma memset_store: "memset m v c n = store m v (replicate n c)"
proof (induction n)
  case (Suc n)
  have "replicate (Suc n) c ! (x - v) = c" if "x < v + Suc n" "v \<le> x" for x
    using that by (intro nth_replicate) linarith
  then show ?case using Suc by (auto simp: store_def fun_eq_iff less_Suc_eq simp del: replicate_Suc)
qed (auto simp: store_def fun_eq_iff)

text \<open>A forward copy is right when the regions are apart or the destination is below.\<close>

lemma memcpy_eq:
  assumes "dst \<le> src \<or> src + n \<le> dst"
  shows "memcpy m dst src n = (\<lambda>x. if dst \<le> x \<and> x < dst + n then m (src + (x - dst)) else m x)"
  using assms
proof (induction n)
  case (Suc n)
  then have IH: "memcpy m dst src n = (\<lambda>x. if dst \<le> x \<and> x < dst + n then m (src + (x - dst)) else m x)"
    by linarith
  have "\<not> (dst \<le> src + n \<and> src + n < dst + n)" using Suc.prems by linarith
  then show ?case by (auto simp: IH Let_def fun_eq_iff less_Suc_eq)
qed (auto simp: fun_eq_iff)

lemma memcmp_loop_0:
  "i \<le> n \<Longrightarrow> memcmp_loop m s1 s2 n i = 0 \<longleftrightarrow> (\<forall>j. i \<le> j \<and> j < n \<longrightarrow> m (s1 + j) = m (s2 + j))"
proof (induction m s1 s2 n i rule: memcmp_loop.induct)
  case (1 m s1 s2 n i)
  show ?case
  proof (cases "i < n")
    case True
    show ?thesis
    proof (cases "m (s2 + i) = m (s1 + i)")
      case eq: True
      have "memcmp_loop m s1 s2 n i = memcmp_loop m s1 s2 n (i + 1)"
        using True eq by (subst memcmp_loop.simps) simp
      then show ?thesis using 1(1) [OF True eq] True eq by (auto simp: Suc_le_eq) (metis le_neq_implies_less)
    next
      case False
      then show ?thesis using True by (subst memcmp_loop.simps) (auto simp: sint_inj)
    qed
  qed (subst memcmp_loop.simps, auto)
qed

lemma memmove_up_never: "memmove_up m dest src i = None"
proof -
  have "memmove_up m dest src i = Some r \<Longrightarrow> False" for r
    by (rule memmove_up.raw_induct [where P = "\<lambda>m d s i r. False"]) blast+
  then show ?thesis by (cases "memmove_up m dest src i") auto
qed

section \<open>Properties\<close>

text \<open>\<^verbatim>\<open>strcpy\<close>, \<^verbatim>\<open>strcat\<close>, \<^verbatim>\<open>strncpy\<close> and \<^verbatim>\<open>strncat\<close> write exactly the copied or appended
  characters and one terminator, and nothing else, when the strings do not overlap; the counted
  ones copy at most \<^verbatim>\<open>n\<close> characters and then always terminate the string.\<close>

theorem string_copies:
  assumes "cstr m src xs" "cstr m dst ys"
    and "clear dst (length ys + length xs + 1) src (length xs + 1)"
  shows "strcpy m dst src = Some (store m dst (xs @ [0])) \<and>
    strncpy m dst src n = store m dst (take n xs @ [0]) \<and>
    strcat m dst src = Some (store m dst (ys @ xs @ [0])) \<and>
    strncat m dst src n = Some (store m dst (ys @ take n xs @ [0]))"
proof -
  have c: "clear (dst + k) (length xs + 1) src (length xs + 1)" if "k \<le> length ys" for k
    using assms(3) that by (auto simp: clear_def)
  have y: "store m (dst + length ys) zs = store m dst (ys @ zs)" for zs
  proof -
    have "store m dst ys x = m x" for x
    proof (cases "dst \<le> x \<and> x < dst + length ys")
      case True
      then have "x - dst < length ys" by linarith
      then have "m (dst + (x - dst)) = ys ! (x - dst)" using assms(2) unfolding cstr_def by blast
      then show ?thesis using True by (simp add: store_def)
    qed (auto simp: store_def)
    then have "store m dst ys = m" by (simp add: fun_eq_iff)
    then show ?thesis using store_store [of m dst ys zs] by simp
  qed
  have "strcpy_loop m (dst + k) src 0 = Some (store m (dst + k) (xs @ [0]))"
    and "strncpy_loop m (dst + k) src n 0 = store m (dst + k) (take n xs @ [0])"
    if "k \<le> length ys" for k
    using strcpy_loop_cstr [of m src 0 xs "dst + k"] strncpy_loop_cstr [of m src 0 xs "dst + k" n]
      assms(1) c [OF that] by auto
  from this [of 0] this [of "length ys"] show ?thesis
    using strlen_cstr [OF assms(2)] by (simp add: strcpy_def strncpy_def strcat_def strncat_def y)
qed

theorem string_copies_witness:
  "\<exists>m'. strcat (store (\<lambda>_. 0) 10 [1, 2, 0]) 10 20 = Some m' \<and> m' 11 = 2 \<and> m' 12 = 0 \<and>
     strcpy (store (\<lambda>_. 0) 20 [7, 8, 0]) 10 20 = Some (store (store (\<lambda>_. 0) 20 [7, 8, 0]) 10 [7, 8, 0])"
proof -
  have a: "cstr (store (\<lambda>_. 0) 10 [1, 2, 0]) 20 []" "cstr (store (\<lambda>_. 0) 10 [1, 2, 0]) 10 [1, 2]"
    by (simp_all add: cstr_Cons cstr_Nil store_def nth_Cons')
  have b: "cstr (store (\<lambda>_. 0) 20 [7, 8, 0]) 20 [7, 8]" "cstr (store (\<lambda>_. 0) 20 [7, 8, 0]) 10 []"
    by (simp_all add: cstr_Cons cstr_Nil store_def nth_Cons')
  show ?thesis
    using string_copies [OF a, of 0] string_copies [OF b, of 0]
    by (simp add: clear_def store_def nth_Cons')
qed

text \<open>On terminated strings \<^verbatim>\<open>strcmp\<close> returns zero exactly for equal strings, and otherwise the
  difference of the first differing characters as signed bytes, and \<^verbatim>\<open>strncmp\<close> does the same for
  the first \<^verbatim>\<open>n\<close> characters.\<close>

theorem string_compare:
  assumes "cstr m s xs" "cstr m t ys"
  shows "strcmp m s t = Some (sign_diff xs ys) \<and> (strcmp m s t = Some 0 \<longleftrightarrow> xs = ys) \<and>
    strncmp m s t n = sign_diff (take n xs) (take n ys) \<and>
    (strncmp m s t n = 0 \<longleftrightarrow> take n xs = take n ys)"
proof -
  have "0 \<notin> set xs" "0 \<notin> set ys" using assms by (auto simp: cstr_def)
  then show ?thesis
    using strcmp_cstr [OF assms] strncmp_cstr [OF assms, of n] sign_diff_0 [of xs ys]
      sign_diff_0 [of "take n xs" "take n ys"] by (auto dest: in_set_takeD)
qed

theorem string_compare_witness:
  "strcmp (store (\<lambda>_. 0) 10 [1, 2, 0, 1, 3, 0]) 10 13 = Some (- 1) \<and>
   strncmp (store (\<lambda>_. 0) 10 [1, 2, 0, 1, 3, 0]) 10 13 1 = 0"
proof -
  have a: "cstr (store (\<lambda>_. 0) 10 [1, 2, 0, 1, 3, 0]) 10 [1, 2]"
    "cstr (store (\<lambda>_. 0) 10 [1, 2, 0, 1, 3, 0]) 13 [1, 3]"
    by (simp_all add: cstr_Cons cstr_Nil store_def nth_Cons')
  show ?thesis using string_compare [OF a, of 1] by simp
qed

text \<open>\<^verbatim>\<open>memmove\<close> to a lower or equal address moves the block, overlapping or not; to a higher
  address it never returns unless the block is empty, since its loop counts the wrong way.\<close>

theorem memmove_behaviour:
  "memmove m dest src n =
     (if dest \<le> src then Some (\<lambda>x. if dest \<le> x \<and> x < dest + n then m (src + (x - dest)) else m x)
      else if n = 0 then Some m else None)"
  using memcpy_eq [of dest src n m] memmove_up_never by (auto simp: memmove_def)

end
