(* ===== verification/Pipe.thy ===== *)
theory Pipe
  imports Systems "HOL-Library.Word"
begin

text \<open>
  Pipes, \<^verbatim>\<open>kernel/src/pipe.c\<close>: a ring of 256 bytes whose indices run up to and including 256.
  A reader that finds the pipe empty and open, and a writer that finds it full, yields and tries
  again; the model returns that it waits, a writer with the bytes it still has to write.
\<close>

record pipe =
  p_head :: nat
  p_tail :: nat
  p_open :: bool
  p_mem :: "u8 list"

definition pipe_init :: pipe where
  "pipe_init = \<lparr>p_head = 0, p_tail = 0, p_open = True, p_mem = replicate 0x100 0\<rparr>"

definition get_size :: "pipe \<Rightarrow> nat" where
  "get_size p = (p_tail p + 0x200 - p_head p) mod 0x100"

definition is_full :: "pipe \<Rightarrow> bool" where
  "is_full p \<longleftrightarrow> get_size p = 0xff"

definition is_empty :: "pipe \<Rightarrow> bool" where
  "is_empty p \<longleftrightarrow> get_size p = 0"

datatype pread = RWait | RData "u8 list" pipe

partial_function (option) pipe_read :: "pipe \<Rightarrow> nat \<Rightarrow> pread option" where
  "pipe_read p count =
     (let size = get_size p
      in if size = 0 then Some (if p_open p then RWait else RData [] p)
         else if count > size then pipe_read p size
         else if count + p_head p > 0x100 then
           (let remain = 0x100 - p_head p
            in Option.bind (pipe_read p remain) (\<lambda>r1. case r1 of
                   RWait \<Rightarrow> Some RWait
                 | RData b1 p1 \<Rightarrow>
                     Option.bind (pipe_read (p1\<lparr>p_head := 0\<rparr>) (count - remain)) (\<lambda>r2. case r2 of
                         RWait \<Rightarrow> Some RWait
                       | RData b2 p2 \<Rightarrow> Some (RData (b1 @ b2) p2))))
         else Some (RData (take count (drop (p_head p) (p_mem p))) (p\<lparr>p_head := p_head p + count\<rparr>)))"

text \<open>The state, the number of bytes written, and the bytes for which the call still waits.\<close>

definition mem_write :: "'a list \<Rightarrow> nat \<Rightarrow> 'a list \<Rightarrow> 'a list" where
  "mem_write mem at data = take at mem @ data @ drop (at + length data) mem"

datatype pwrite = WDone pipe nat | WWait pipe nat "u8 list"

partial_function (option) pipe_write :: "pipe \<Rightarrow> u8 list \<Rightarrow> pwrite option" where
  "pipe_write p data =
     (let size = get_size p
      in if size = 0xff then Some (WWait p 0 data)
         else if length data + size > 0xff then
           (let remain = 0xff - size
            in Option.bind (pipe_write p (take remain data)) (\<lambda>r1. case r1 of
                   WWait p1 n1 d1 \<Rightarrow> Some (WWait p1 n1 (d1 @ drop remain data))
                 | WDone p1 n1 \<Rightarrow>
                     Option.bind (pipe_write p1 (drop remain data)) (\<lambda>r2. case r2 of
                         WWait p2 n2 d2 \<Rightarrow> Some (WWait p2 (n1 + n2) d2)
                       | WDone p2 n2 \<Rightarrow> Some (WDone p2 (n1 + n2)))))
         else if length data + p_tail p > 0x100 then
           (let remain = 0x100 - p_tail p
            in Option.bind (pipe_write p (take remain data)) (\<lambda>r1. case r1 of
                   WWait p1 n1 d1 \<Rightarrow> Some (WWait p1 n1 (d1 @ drop remain data))
                 | WDone p1 n1 \<Rightarrow>
                     Option.bind (pipe_write (p1\<lparr>p_tail := 0\<rparr>) (drop remain data)) (\<lambda>r2. case r2 of
                         WWait p2 n2 d2 \<Rightarrow> Some (WWait p2 (n1 + n2) d2)
                       | WDone p2 n2 \<Rightarrow> Some (WDone p2 (n1 + n2)))))
         else Some (WDone (p\<lparr>p_mem := mem_write (p_mem p) (p_tail p) data,
                            p_tail := p_tail p + length data\<rparr>) (length data)))"

definition pipe_iclose :: "pipe \<Rightarrow> pipe \<times> int" where
  "pipe_iclose p = (p\<lparr>p_open := False\<rparr>, 0)"

section \<open>Abstraction to a queue of bytes\<close>

definition pipe_contents :: "pipe \<Rightarrow> u8 list" where
  "pipe_contents p = ring_seg (p_mem p) (p_head p) (get_size p)"

definition pipe_wf :: "pipe \<Rightarrow> bool" where
  "pipe_wf p \<longleftrightarrow> length (p_mem p) = 0x100 \<and> p_head p \<le> 0x100 \<and> p_tail p \<le> 0x100"

lemma get_size_less: "get_size p \<le> 0xff"
  using mod_less_divisor [of "0x100" "p_tail p + 0x200 - p_head p"] unfolding get_size_def by linarith

lemma length_pipe_contents [simp]: "length (pipe_contents p) = get_size p"
  by (simp add: pipe_contents_def)

lemma pipe_contents_Nil: "pipe_contents p = [] \<longleftrightarrow> get_size p = 0"
  by (simp flip: length_0_conv)

lemma get_size_tail:
  assumes "pipe_wf p"
  shows "(p_head p + get_size p) mod 0x100 = p_tail p mod 0x100"
proof -
  have "(p_head p + get_size p) mod 0x100 = (p_head p + (p_tail p + 0x200 - p_head p)) mod 0x100"
    unfolding get_size_def by (rule mod_add_right_eq)
  also have "p_head p + (p_tail p + 0x200 - p_head p) = p_tail p + 2 * 0x100"
    using assms by (simp add: pipe_wf_def)
  also have "\<dots> mod 0x100 = p_tail p mod 0x100" by (rule mod_mult_self1)
  finally show ?thesis .
qed

text \<open>The size is the only number below 256 that leads from the head to the tail.\<close>

lemma get_size_unique:
  assumes "pipe_wf p" "k < 0x100" "(p_head p + k) mod 0x100 = p_tail p mod 0x100"
  shows "get_size p = k"
proof (rule ccontr)
  assume "get_size p \<noteq> k"
  then show False
    using assms get_size_tail [OF assms(1)] get_size_less [of p]
      mod_add_neq [of k "get_size p" "0x100" "p_head p"] mod_add_neq [of "get_size p" k "0x100" "p_head p"]
    by (cases "k < get_size p") auto
qed

lemma take_ring_seg: "k \<le> n \<Longrightarrow> take k (ring_seg b h n) = ring_seg b h k"
  by (simp add: ring_seg_def take_map)

lemma drop_ring_seg: "drop k (ring_seg b h n) = ring_seg b (h + k) (n - k)"
  by (rule nth_equalityI) (simp_all add: ring_seg_def less_diff_conv ac_simps)

lemma ring_seg_straight:
  "h + k \<le> length b \<Longrightarrow> ring_seg b h k = take k (drop h b)"
  by (rule nth_equalityI) (simp_all add: ring_seg_def)

section \<open>Reading\<close>

lemma read_straight:
  assumes "pipe_wf p" "0 < get_size p" "n \<le> get_size p" "n + p_head p \<le> 0x100"
  defines "p' \<equiv> p\<lparr>p_head := p_head p + n\<rparr>"
  shows "pipe_read p n = Some (RData (take n (pipe_contents p)) p')"
    "pipe_wf p'" "pipe_contents p' = drop n (pipe_contents p)" "get_size p' = get_size p - n"
proof -
  show wf: "pipe_wf p'" using assms by (simp add: pipe_wf_def)
  have "(p_head p' + (get_size p - n)) mod 0x100 = p_tail p' mod 0x100"
    using get_size_tail [OF assms(1)] assms(3) by (simp add: p'_def)
  then show sz: "get_size p' = get_size p - n"
    using get_size_less [of p] by (intro get_size_unique [OF wf]) auto
  show "pipe_contents p' = drop n (pipe_contents p)"
    by (simp add: pipe_contents_def drop_ring_seg sz) (simp add: p'_def)
  have "take n (pipe_contents p) = take n (drop (p_head p) (p_mem p))"
    using assms by (simp add: pipe_contents_def take_ring_seg ring_seg_straight pipe_wf_def)
  then show "pipe_read p n = Some (RData (take n (pipe_contents p)) p')"
    using assms(2-4) by (subst pipe_read.simps) (simp add: Let_def p'_def)
qed

lemma wrap_head:
  assumes "pipe_wf p" "p_head p = 0x100"
  shows "pipe_wf (p\<lparr>p_head := 0\<rparr>)" "get_size (p\<lparr>p_head := 0\<rparr>) = get_size p"
    "pipe_contents (p\<lparr>p_head := 0\<rparr>) = pipe_contents p"
proof -
  show wf: "pipe_wf (p\<lparr>p_head := 0\<rparr>)" using assms(1) by (simp add: pipe_wf_def)
  show sz: "get_size (p\<lparr>p_head := 0\<rparr>) = get_size p"
    using get_size_tail [OF assms(1)] assms(2) get_size_less [of p]
    by (intro get_size_unique [OF wf]) auto
  show "pipe_contents (p\<lparr>p_head := 0\<rparr>) = pipe_contents p"
    using ring_seg_mod [of "p_mem p" "0x100" "get_size p"] assms
    by (simp add: pipe_contents_def sz pipe_wf_def del: ring_seg_mod)
qed

lemma read_fitting:
  assumes wf: "pipe_wf p" and ne: "0 < get_size p" and n: "n \<le> get_size p"
  shows "\<exists>p'. pipe_read p n = Some (RData (take n (pipe_contents p)) p') \<and> pipe_wf p' \<and>
    pipe_contents p' = drop n (pipe_contents p) \<and> p_open p' = p_open p"
proof (cases "n + p_head p \<le> 0x100")
  case True
  from read_straight [OF wf ne n True] show ?thesis by auto
next
  case False
  let ?r = "0x100 - p_head p"
  let ?p1 = "p\<lparr>p_head := p_head p + ?r\<rparr>"
  let ?p2 = "?p1\<lparr>p_head := 0\<rparr>"
  have h: "p_head p \<le> 0x100" using wf by (simp add: pipe_wf_def)
  have r: "?r < n" "?r \<le> get_size p" "?r + p_head p \<le> 0x100" using False n h by linarith+
  note S1 = read_straight [OF wf ne r(2,3)]
  have "p_head ?p1 = 0x100" using h by simp
  note W = wrap_head [OF S1(2) this]
  have sz2: "get_size ?p2 = get_size p - ?r" using W(2) S1(4) by simp
  have m: "0 < get_size ?p2" "n - ?r \<le> get_size ?p2" "n - ?r + p_head ?p2 \<le> 0x100"
    using r n sz2 get_size_less [of p] by simp_all
  note S2 = read_straight [OF W(1) m]
  have "pipe_read p n = Some (RData (take ?r (pipe_contents p) @ take (n - ?r) (pipe_contents ?p2))
      (?p2\<lparr>p_head := p_head ?p2 + (n - ?r)\<rparr>))"
    using False n ne S1(1) S2(1) by (subst pipe_read.simps) (simp add: Let_def)
  moreover have "take ?r (pipe_contents p) @ take (n - ?r) (pipe_contents ?p2) = take n (pipe_contents p)"
    using W(3) S1(3) r(1) by (metis take_add le_add_diff_inverse less_imp_le)
  moreover have "drop (n - ?r) (pipe_contents ?p2) = drop n (pipe_contents p)"
    using W(3) S1(3) r(1) by (simp add: drop_drop)
  ultimately show ?thesis using S2(2,3) by (intro exI) auto
qed

lemma pipe_read_spec:
  assumes wf: "pipe_wf p"
  shows "if pipe_contents p = [] then pipe_read p n = Some (if p_open p then RWait else RData [] p)
    else \<exists>p'. pipe_read p n = Some (RData (take n (pipe_contents p)) p') \<and> pipe_wf p' \<and>
      pipe_contents p' = drop n (pipe_contents p) \<and> p_open p' = p_open p"
proof (cases "get_size p = 0")
  case True
  then show ?thesis by (subst (1 2) pipe_read.simps) (simp add: pipe_contents_Nil Let_def)
next
  case False
  then have ne: "pipe_contents p \<noteq> []" "0 < get_size p" by (simp_all add: pipe_contents_Nil)
  show ?thesis
  proof (cases "n \<le> get_size p")
    case True
    then show ?thesis using read_fitting [OF wf ne(2)] ne by simp
  next
    case False
    then have "pipe_read p n = pipe_read p (get_size p)"
      using ne by (subst pipe_read.simps) (simp add: Let_def)
    then show ?thesis using read_fitting [OF wf ne(2) order_refl] ne False by simp
  qed
qed

section \<open>Writing\<close>

lemma nth_mem_write:
  assumes "at + length d \<le> length mem" "i < length mem"
  shows "mem_write mem at d ! i = (if at \<le> i \<and> i < at + length d then d ! (i - at) else mem ! i)"
  using assms by (auto simp: mem_write_def nth_append min_def)

lemma length_mem_write [simp]: "at + length d \<le> length mem \<Longrightarrow> length (mem_write mem at d) = length mem"
  by (simp add: mem_write_def)

lemma ring_seg_write:
  assumes at: "at + length d \<le> length mem" and k: "k + length d < length mem"
    and e: "(h + k) mod length mem = at mod length mem"
  shows "ring_seg (mem_write mem at d) h (k + length d) = ring_seg mem h k @ d"
proof (rule nth_equalityI)
  fix i assume "i < length (ring_seg (mem_write mem at d) h (k + length d))"
  then have i: "i < k + length d" by simp
  let ?n = "length mem"
  have n: "0 < ?n" using k by linarith
  have l: "(h + i) mod ?n < ?n" using n by simp
  have L: "ring_seg (mem_write mem at d) h (k + length d) ! i =
      (if at \<le> (h + i) mod ?n \<and> (h + i) mod ?n < at + length d then d ! ((h + i) mod ?n - at)
       else mem ! ((h + i) mod ?n))"
    using i at l by (simp add: ring_seg_def nth_mem_write)
  show "ring_seg (mem_write mem at d) h (k + length d) ! i = (ring_seg mem h k @ d) ! i"
  proof (cases "i < k")
    case True
    have "\<not> (at \<le> (h + i) mod ?n \<and> (h + i) mod ?n < at + length d)"
    proof
      assume a: "at \<le> (h + i) mod ?n \<and> (h + i) mod ?n < at + length d"
      define j where "j = (h + i) mod ?n - at"
      have j: "j < length d" "(h + i) mod ?n = at + j" using a by (auto simp: j_def)
      have "(h + (k + j)) mod ?n = ((h + k) mod ?n + j) mod ?n" by (simp add: mod_add_left_eq add.assoc)
      also have "\<dots> = (at + j) mod ?n" by (simp add: e mod_add_left_eq)
      also have "\<dots> = (h + i) mod ?n" using j(2) by (metis mod_mod_trivial)
      finally show False using mod_add_neq [of i "k + j" ?n h] True j(1) k by simp
    qed
    then have "ring_seg (mem_write mem at d) h (k + length d) ! i = mem ! ((h + i) mod ?n)"
      using L by (simp only: if_False)
    moreover have "(ring_seg mem h k @ d) ! i = mem ! ((h + i) mod ?n)"
      using True by (simp add: nth_append ring_seg_nth)
    ultimately show ?thesis by (simp only:)
  next
    case False
    define j where "j = i - k"
    have j: "i = k + j" "j < length d" using False i by (auto simp: j_def)
    have "at < ?n" using at j(2) by linarith
    then have "(h + i) mod ?n = (at + j) mod ?n"
      using e by (metis add.assoc j(1) mod_add_left_eq mod_less)
    also have "\<dots> = at + j" using at j(2) by simp
    finally show ?thesis using L j by (simp add: nth_append)
  qed
qed (use at in simp)

lemma write_straight:
  assumes "pipe_wf p" "get_size p < 0xff" "length d + get_size p \<le> 0xff" "length d + p_tail p \<le> 0x100"
  defines "p' \<equiv> p\<lparr>p_mem := mem_write (p_mem p) (p_tail p) d, p_tail := p_tail p + length d\<rparr>"
  shows "pipe_write p d = Some (WDone p' (length d))" "pipe_wf p'"
    "pipe_contents p' = pipe_contents p @ d" "get_size p' = get_size p + length d"
proof -
  have len: "length (p_mem p) = 0x100" using assms(1) by (simp add: pipe_wf_def)
  have fit: "p_tail p + length d \<le> length (p_mem p)" using assms(4) len by simp
  show wf: "pipe_wf p'" using assms fit by (simp add: pipe_wf_def)
  have "(p_head p' + (get_size p + length d)) mod 0x100 = ((p_head p + get_size p) mod 0x100 + length d) mod 0x100"
    by (simp add: p'_def mod_add_left_eq add.assoc)
  also have "\<dots> = p_tail p' mod 0x100"
    by (simp add: p'_def get_size_tail [OF assms(1)] mod_add_left_eq)
  finally show sz: "get_size p' = get_size p + length d"
    using assms(3) by (intro get_size_unique [OF wf]) auto
  have "ring_seg (mem_write (p_mem p) (p_tail p) d) (p_head p) (get_size p + length d)
      = ring_seg (p_mem p) (p_head p) (get_size p) @ d"
    using get_size_tail [OF assms(1)] assms(3) len by (intro ring_seg_write [OF fit]) simp_all
  then show "pipe_contents p' = pipe_contents p @ d"
    unfolding pipe_contents_def sz by (simp add: p'_def)
  show "pipe_write p d = Some (WDone p' (length d))"
    using assms(2-4) by (subst pipe_write.simps) (simp add: Let_def p'_def)
qed

lemma wrap_tail:
  assumes "pipe_wf p" "p_tail p = 0x100"
  shows "pipe_wf (p\<lparr>p_tail := 0\<rparr>)" "get_size (p\<lparr>p_tail := 0\<rparr>) = get_size p"
    "pipe_contents (p\<lparr>p_tail := 0\<rparr>) = pipe_contents p"
proof -
  show wf: "pipe_wf (p\<lparr>p_tail := 0\<rparr>)" using assms(1) by (simp add: pipe_wf_def)
  show sz: "get_size (p\<lparr>p_tail := 0\<rparr>) = get_size p"
    using get_size_tail [OF assms(1)] assms(2) get_size_less [of p]
    by (intro get_size_unique [OF wf]) auto
  show "pipe_contents (p\<lparr>p_tail := 0\<rparr>) = pipe_contents p"
    unfolding pipe_contents_def sz by simp
qed

lemma write_fitting:
  assumes wf: "pipe_wf p" and ne: "get_size p < 0xff" and n: "length d + get_size p \<le> 0xff"
  shows "\<exists>p'. pipe_write p d = Some (WDone p' (length d)) \<and> pipe_wf p' \<and>
    pipe_contents p' = pipe_contents p @ d \<and> p_open p' = p_open p"
proof (cases "length d + p_tail p \<le> 0x100")
  case True
  from write_straight [OF wf ne n True] show ?thesis by auto
next
  case False
  let ?r = "0x100 - p_tail p"
  let ?d1 = "take ?r d" and ?d2 = "drop ?r d"
  let ?p1 = "p\<lparr>p_mem := mem_write (p_mem p) (p_tail p) ?d1, p_tail := p_tail p + length ?d1\<rparr>"
  let ?p2 = "?p1\<lparr>p_tail := 0\<rparr>"
  have t: "p_tail p \<le> 0x100" using wf by (simp add: pipe_wf_def)
  have r: "?r < length d" "length ?d1 = ?r" using False t by (simp, simp)
  have m1: "length ?d1 + get_size p \<le> 0xff" "length ?d1 + p_tail p \<le> 0x100" using r n t by simp_all
  note S1 = write_straight [OF wf ne m1]
  have "p_tail ?p1 = 0x100" using r(2) t by simp
  note W = wrap_tail [OF S1(2) this]
  have m2: "get_size ?p2 < 0xff" "length ?d2 + get_size ?p2 \<le> 0xff" "length ?d2 + p_tail ?p2 \<le> 0x100"
    using W(2) S1(4) r n get_size_less [of p] by simp_all
  note S2 = write_straight [OF W(1) m2]
  have "pipe_write p d = Some (WDone (?p2\<lparr>p_mem := mem_write (p_mem ?p2) (p_tail ?p2) ?d2,
      p_tail := p_tail ?p2 + length ?d2\<rparr>) (length ?d1 + length ?d2))"
    using False n ne S1(1) S2(1) by (subst pipe_write.simps) (simp add: Let_def)
  then show ?thesis using S2(2,3) W(3) S1(3) by (intro exI) auto
qed

lemma pipe_write_spec:
  assumes wf: "pipe_wf p"
  shows "\<exists>p'. pipe_wf p' \<and> p_open p' = p_open p \<and>
    pipe_contents p' = pipe_contents p @ take (0xff - get_size p) d \<and>
    pipe_write p d = Some (if length d + get_size p \<le> 0xff \<and> get_size p < 0xff then WDone p' (length d)
      else WWait p' (0xff - get_size p) (drop (0xff - get_size p) d))"
proof (cases "get_size p = 0xff")
  case True
  then show ?thesis using wf by (intro exI [of _ p], subst pipe_write.simps) (simp add: Let_def)
next
  case False
  then have ne: "get_size p < 0xff" using get_size_less [of p] by simp
  show ?thesis
  proof (cases "length d + get_size p \<le> 0xff")
    case True
    from write_fitting [OF wf ne True] show ?thesis using True ne by auto
  next
    case False
    let ?r = "0xff - get_size p"
    have l: "length (take ?r d) = ?r" using False by simp
    then have "length (take ?r d) + get_size p \<le> 0xff" using ne by simp
    from write_fitting [OF wf ne this] obtain p1 where p1: "pipe_write p (take ?r d) = Some (WDone p1 ?r)"
      "pipe_wf p1" "pipe_contents p1 = pipe_contents p @ take ?r d" "p_open p1 = p_open p"
      unfolding l by blast
    have "get_size p1 = 0xff" using arg_cong [OF p1(3), of length] l ne by simp
    then have "pipe_write p1 (drop ?r d) = Some (WWait p1 0 (drop ?r d))"
      by (subst pipe_write.simps) (simp add: Let_def)
    then have "pipe_write p d = Some (WWait p1 ?r (drop ?r d))"
      using False ne p1(1) by (subst pipe_write.simps) (simp add: Let_def)
    then show ?thesis using p1 False by auto
  qed
qed

section \<open>Histories of reads and writes\<close>

datatype pipe_op = PRead nat | PWrite "u8 list"

text \<open>The bytes accepted and the bytes delivered; a call that waits accepts what it has written.\<close>

fun pipe_run :: "pipe \<Rightarrow> pipe_op list \<Rightarrow> (pipe \<times> u8 list \<times> u8 list) option" where
  "pipe_run p [] = Some (p, [], [])"
| "pipe_run p (PRead n # ops) =
     Option.bind (pipe_read p n) (\<lambda>r. case r of
         RWait \<Rightarrow> pipe_run p ops
       | RData b p' \<Rightarrow> map_option (\<lambda>(q, ins, outs). (q, ins, b @ outs)) (pipe_run p' ops))"
| "pipe_run p (PWrite d # ops) =
     Option.bind (pipe_write p d) (\<lambda>r. case r of
         WDone p' n \<Rightarrow> map_option (\<lambda>(q, ins, outs). (q, take n d @ ins, outs)) (pipe_run p' ops)
       | WWait p' n rest \<Rightarrow> map_option (\<lambda>(q, ins, outs). (q, take n d @ ins, outs)) (pipe_run p' ops))"

text \<open>One operation, with what it lets in and out.\<close>

fun pipe_act :: "pipe \<Rightarrow> pipe_op \<Rightarrow> (pipe \<times> u8 list \<times> u8 list) option" where
  "pipe_act p (PRead n) =
     map_option (\<lambda>r. case r of RWait \<Rightarrow> (p, [], []) | RData b p' \<Rightarrow> (p', [], b)) (pipe_read p n)"
| "pipe_act p (PWrite d) =
     map_option (\<lambda>r. case r of WDone p' n \<Rightarrow> (p', take n d, []) | WWait p' n rest \<Rightarrow> (p', take n d, [])) (pipe_write p d)"

lemma pipe_run_channel: "pipe_run p ops = channel_run pipe_act p ops"
proof (induction ops arbitrary: p)
  case (Cons op ops)
  then show ?case
  proof (cases op)
    case (PRead n)
    then show ?thesis
      by (cases "pipe_read p n")
        (auto simp: Cons.IH map_option_case split: pread.split option.split)
  next
    case (PWrite d)
    then show ?thesis
      by (cases "pipe_write p d")
        (auto simp: Cons.IH map_option_case split: pwrite.split option.split)
  qed
qed simp

interpretation ring: total_channel pipe_act pipe_contents pipe_wf
proof unfold_locales
  show "pipe_wf t \<and> pipe_contents s @ i = out @ pipe_contents t"
    if "pipe_wf s" "pipe_act s op = Some (t, i, out)" for s op t i out
  proof (cases op)
    case (PRead n)
    then show ?thesis using that pipe_read_spec [OF that(1), of n] by (auto split: if_splits)
  next
    case (PWrite d)
    then show ?thesis using that pipe_write_spec [OF that(1), of d] by (auto split: if_splits)
  qed
  show "pipe_act s op \<noteq> None" if "pipe_wf s" for s op
  proof (cases op)
    case (PRead n)
    then show ?thesis using pipe_read_spec [OF that, of n] by (auto split: if_splits)
  next
    case (PWrite d)
    then show ?thesis using pipe_write_spec [OF that, of d] by auto
  qed
qed

lemma pipe_init_wf: "pipe_wf pipe_init" "pipe_contents pipe_init = []"
  by (simp_all add: pipe_wf_def pipe_init_def pipe_contents_def get_size_def)

section \<open>Properties\<close>

text \<open>C6: reads and writes of any sizes, in any order, always return or wait, never go wrong in the
  recursion over the end of the ring, and the bytes delivered are exactly the bytes accepted, in
  order, less the at most 255 still in the pipe.\<close>

theorem pipe_fifo:
  "\<exists>q ins outs. pipe_run pipe_init ops = Some (q, ins, outs) \<and> ins = outs @ pipe_contents q \<and>
     length ins \<le> length outs + 255"
proof -
  obtain q ins outs where q: "pipe_run pipe_init ops = Some (q, ins, outs)"
    "ins = outs @ pipe_contents q"
    using ring.run_answers [OF pipe_init_wf(1), of ops] pipe_init_wf(2) by (auto simp: pipe_run_channel)
  then show ?thesis using get_size_less [of q] by (intro exI conjI) auto
qed

text \<open>One call moves as much as it can: a read delivers the first bytes of the pipe up to the
  count asked for, and waits only when the pipe is empty and open; a write
  completes when the bytes fit in the 255-byte capacity and otherwise fills the pipe and waits
  with exactly the rest.\<close>

theorem pipe_calls:
  assumes "pipe_wf p"
  shows "(if pipe_contents p = [] then pipe_read p n = Some (if p_open p then RWait else RData [] p)
     else \<exists>p'. pipe_read p n = Some (RData (take n (pipe_contents p)) p') \<and>
       pipe_wf p' \<and> pipe_contents p' = drop n (pipe_contents p)) \<and>
    (\<exists>p'. pipe_wf p' \<and> pipe_contents p' = pipe_contents p @ take (0xff - get_size p) d \<and>
       pipe_write p d = Some (if length d + get_size p \<le> 0xff \<and> get_size p < 0xff then WDone p' (length d)
         else WWait p' (0xff - get_size p) (drop (0xff - get_size p) d)))"
  using pipe_read_spec [OF assms, of n] pipe_write_spec [OF assms, of d] by (auto split: if_splits)

theorem pipe_calls_witness:
  "pipe_read pipe_init 5 = Some RWait \<and>
   (\<exists>p'. pipe_write pipe_init [1, 2] = Some (WDone p' 2) \<and> pipe_contents p' = [1, 2])"
  using pipe_calls [OF pipe_init_wf(1), of 5 "[1, 2]"] pipe_init_wf(2)
  by (auto simp: pipe_init_def get_size_def)

end
