(* ===== verification/Dir.thy ===== *)
theory Dir
  imports Prelude
begin

text \<open>
  Path arithmetic, \<^verbatim>\<open>kernel/src/dir.c\<close>.  A C string is the list of its characters; the buffers
  are taken to be large enough for what is written into them.
\<close>

section \<open>Slashes\<close>

fun get_first_slash_from :: "string \<Rightarrow> nat \<Rightarrow> int" where
  "get_first_slash_from [] idx = - 1"
| "get_first_slash_from (c # cs) idx =
     (if c = CHR ''/'' then int idx else get_first_slash_from cs (Suc idx))"

definition get_first_slash :: "string \<Rightarrow> int" where
  "get_first_slash path = get_first_slash_from path 0"

definition get_first_layer :: "string \<Rightarrow> nat" where
  "get_first_layer path =
     (let ret = get_first_slash path in if ret = - 1 then length path else nat ret)"

definition char_at :: "string \<Rightarrow> nat \<Rightarrow> char" where
  "char_at s i = (if i < length s then s ! i else CHR 0x00)"

fun get_last_slash_from :: "string \<Rightarrow> nat \<Rightarrow> int" where
  "get_last_slash_from path 0 = (if char_at path 0 = CHR ''/'' then 0 else - 1)"
| "get_last_slash_from path (Suc i) =
     (if char_at path (Suc i) = CHR ''/'' then int (Suc i) else get_last_slash_from path i)"

definition get_last_slash :: "string \<Rightarrow> int" where
  "get_last_slash path = get_last_slash_from path (length path)"

section \<open>Joining paths\<close>

text \<open>Writing a terminator at an index; index \<open>-1\<close> is outside the buffer.\<close>

definition cut :: "string \<Rightarrow> int \<Rightarrow> string result" where
  "cut s i = (if i < 0 then Inl WildAccess else Inr (take (nat i) s))"

definition dir_step :: "string \<Rightarrow> string \<Rightarrow> nat \<Rightarrow> string result" where
  "dir_step dest src next =
     (if next = 0 then Inr dest
      else if next = 1 \<and> take 1 src = ''.'' then Inr dest
      else if next = 2 \<and> take 2 src = ''..'' then
        (if dest \<noteq> ''/'' then
           (case cut dest (get_last_slash dest) of
              Inl e \<Rightarrow> Inl e
            | Inr d1 \<Rightarrow> cut d1 (get_last_slash d1 + 1))
         else Inr dest)
      else Inr (dest @ take (next + 1) src))"

lemma first_slash_from:
  "get_first_slash_from s i =
     (if CHR ''/'' \<in> set s then int (i + length (takeWhile (\<lambda>c. c \<noteq> CHR ''/'') s)) else - 1)"
  by (induction s arbitrary: i) auto

lemma first_slash:
  "get_first_slash s =
     (if CHR ''/'' \<in> set s then int (length (takeWhile (\<lambda>c. c \<noteq> CHR ''/'') s)) else - 1)"
  by (simp add: get_first_slash_def first_slash_from)

function dir_cat_real :: "string \<Rightarrow> string \<Rightarrow> string result" where
  "dir_cat_real dest src =
     (let s = get_first_slash src;
          next = (if s = - 1 then length src else nat s)
      in case dir_step dest src next of
           Inl e \<Rightarrow> Inl e
         | Inr d \<Rightarrow> if s = - 1 then Inr d else dir_cat_real d (drop (next + 1) src))"
  by auto

termination
  by (relation "measure (\<lambda>(_, src). length src)") (auto simp: first_slash
    intro!: diff_less length_pos_if_in_set split: if_splits)

declare dir_cat_real.simps [simp del]

definition dir_cat :: "string \<Rightarrow> string \<Rightarrow> string result" where
  "dir_cat dest src =
     (if char_at dest 0 \<noteq> CHR ''/'' then Inl AssertFail
      else
        (let d = (if char_at src 0 = CHR ''/'' then take 1 dest
                  else if char_at dest (length dest - 1) \<noteq> CHR ''/'' then dest @ ''/'' else dest)
         in case dir_cat_real d src of
              Inl e \<Rightarrow> Inl e
            | Inr r \<Rightarrow> Inr (if char_at r (length r - 1) = CHR ''/'' \<and> length r > 1
                            then take (length r - 1) r else r)))"

definition to_absolute :: "string \<Rightarrow> string \<Rightarrow> string result" where
  "to_absolute pwd rela = (if char_at rela 0 = CHR ''/'' then Inr rela else dir_cat pwd rela)"

section \<open>What a path denotes\<close>

text \<open>A directory is the list of the names below the root; a path acts on it name by name.\<close>

function split_path :: "string \<Rightarrow> string list" where
  "split_path s =
     (if CHR ''/'' \<in> set s
      then takeWhile (\<lambda>c. c \<noteq> CHR ''/'') s # split_path (drop (length (takeWhile (\<lambda>c. c \<noteq> CHR ''/'') s) + 1) s)
      else [s])"
  by auto
termination
  by (relation "measure length") (auto intro!: diff_less length_pos_if_in_set)

declare split_path.simps [simp del]

definition enter :: "string list \<Rightarrow> string \<Rightarrow> string list" where
  "enter dir n =
     (if n = '''' \<or> n = ''.'' then dir else if n = ''..'' then butlast dir else dir @ [n])"

definition resolve :: "string list \<Rightarrow> string \<Rightarrow> string list" where
  "resolve dir path =
     foldl enter (if char_at path 0 = CHR ''/'' then [] else dir) (split_path path)"

definition prefix_text :: "string list \<Rightarrow> string" where
  "prefix_text dir = concat (map ((#) (CHR ''/'')) dir)"

definition render :: "string list \<Rightarrow> string" where
  "render dir = (if dir = [] then ''/'' else prefix_text dir)"

definition proper :: "string \<Rightarrow> bool" where
  "proper n \<longleftrightarrow> n \<noteq> '''' \<and> n \<noteq> ''.'' \<and> n \<noteq> ''..'' \<and> CHR ''/'' \<notin> set n"

lemma prefix_text_snoc [simp]: "prefix_text (xs @ [x]) = prefix_text xs @ CHR ''/'' # x"
  by (simp add: prefix_text_def)

lemma prefix_text_Nil [simp]: "prefix_text [] = ''''"
  by (simp add: prefix_text_def)

lemma char_at_append [simp]: "char_at (xs @ c # ys) (length xs) = c"
  by (simp add: char_at_def)

lemma last_slash_from_ge:
  "\<lbrakk>\<forall>i. length xs < i \<and> i \<le> n \<longrightarrow> char_at (xs @ CHR ''/'' # ys) i \<noteq> CHR ''/''; length xs \<le> n\<rbrakk>
   \<Longrightarrow> get_last_slash_from (xs @ CHR ''/'' # ys) n = int (length xs)"
proof (induction n)
  case (Suc n)
  show ?case
  proof (cases "length xs = Suc n")
    case True
    then show ?thesis using char_at_append [of xs "CHR ''/''" ys] by simp
  next
    case False
    then show ?thesis using Suc by simp
  qed
qed (simp add: char_at_def)

lemma last_slash: "CHR ''/'' \<notin> set ys \<Longrightarrow> get_last_slash (xs @ CHR ''/'' # ys) = int (length xs)"
proof -
  assume ys: "CHR ''/'' \<notin> set ys"
  have "char_at (xs @ CHR ''/'' # ys) i \<noteq> CHR ''/''" if i: "length xs < i" for i
  proof (cases "i < length (xs @ CHR ''/'' # ys)")
    case True
    then have "(xs @ CHR ''/'' # ys) ! i = ys ! (i - length xs - 1)" "i - length xs - 1 < length ys"
      using i by (auto simp: nth_append nth_Cons')
    then show ?thesis using ys True by (metis char_at_def nth_mem)
  qed (simp add: char_at_def)
  then show ?thesis unfolding get_last_slash_def by (intro last_slash_from_ge) auto
qed

text \<open>Going up: the two cuts of the code remove exactly the last name.\<close>

lemma dir_step_up:
  assumes "\<forall>n \<in> set dir. proper n"
  shows "dir_step (prefix_text dir @ ''/'') (''..'' @ rest) 2 = Inr (prefix_text (butlast dir) @ ''/'')"
proof (cases dir rule: rev_cases)
  case (snoc xs x)
  have x: "CHR ''/'' \<notin> set x" "x \<noteq> []" using assms snoc by (auto simp: proper_def)
  have "get_last_slash (prefix_text dir @ ''/'') = int (length (prefix_text dir))"
    by (rule last_slash) simp
  moreover have "get_last_slash (prefix_text dir) = int (length (prefix_text xs))"
    unfolding snoc prefix_text_snoc by (rule last_slash [OF x(1)])
  ultimately show ?thesis
    using x by (simp add: dir_step_def cut_def snoc nat_add_distrib)
qed (simp add: dir_step_def)

lemma dir_step_enter:
  assumes dir: "\<forall>n \<in> set dir. proper n" and n: "CHR ''/'' \<notin> set n"
  shows "dir_step (prefix_text dir @ ''/'') (n @ ''/'' @ rest) (length n) = Inr (prefix_text (enter dir n) @ ''/'')"
    "\<exists>d. dir_step (prefix_text dir @ ''/'') n (length n) = Inr d \<and>
      (d = prefix_text (enter dir n) @ ''/'' \<or> enter dir n \<noteq> [] \<and> d = prefix_text (enter dir n))"
proof -
  have two: "length n = 2 \<Longrightarrow> take 2 (n @ r) = ''..'' \<longleftrightarrow> n = ''..''" for r by simp
  have one: "length n = 1 \<Longrightarrow> take 1 (n @ r) = ''.'' \<longleftrightarrow> n = ''.''" for r by simp
  consider "n = ''''" | "n = ''.''" | "n = ''..''" | "proper n"
    using n by (auto simp: proper_def)
  then show "dir_step (prefix_text dir @ ''/'') (n @ ''/'' @ rest) (length n) =
      Inr (prefix_text (enter dir n) @ ''/'')"
  proof cases
    case 3
    then show ?thesis using dir_step_up [OF dir, of "''/'' @ rest"] by (simp add: enter_def numeral_2_eq_2)
  next
    case 4
    then show ?thesis using one [of "''/'' @ rest"] two [of "''/'' @ rest"]
      by (auto simp: dir_step_def enter_def proper_def)
  qed (simp_all add: dir_step_def enter_def)
  consider "n = ''''" | "n = ''.''" | "n = ''..''" | "proper n"
    using n by (auto simp: proper_def)
  then show "\<exists>d. dir_step (prefix_text dir @ ''/'') n (length n) = Inr d \<and>
      (d = prefix_text (enter dir n) @ ''/'' \<or> enter dir n \<noteq> [] \<and> d = prefix_text (enter dir n))"
  proof cases
    case 3
    then show ?thesis using dir_step_up [OF dir, of "[]"] by (simp add: enter_def numeral_2_eq_2)
  next
    case 4
    then show ?thesis using one [of "[]"] two [of "[]"]
      by (auto simp: dir_step_def enter_def proper_def)
  qed (simp_all add: dir_step_def enter_def)
qed

lemma enter_proper: "\<forall>n \<in> set dir. proper n \<Longrightarrow> CHR ''/'' \<notin> set n \<Longrightarrow> \<forall>m \<in> set (enter dir n). proper m"
  by (auto simp: enter_def proper_def dest: in_set_butlastD)

lemma slash_split:
  "c \<in> set s \<Longrightarrow> s = takeWhile (\<lambda>d. d \<noteq> c) s @ c # drop (length (takeWhile (\<lambda>d. d \<noteq> c) s) + 1) s"
  by (induction s) auto

lemma dir_cat_real_enter:
  "\<forall>n \<in> set dir. proper n \<Longrightarrow>
   \<exists>d. dir_cat_real (prefix_text dir @ ''/'') src = Inr d \<and>
     (\<forall>n \<in> set (foldl enter dir (split_path src)). proper n) \<and>
     (d = prefix_text (foldl enter dir (split_path src)) @ ''/'' \<or>
      foldl enter dir (split_path src) \<noteq> [] \<and> d = prefix_text (foldl enter dir (split_path src)))"
proof (induction src arbitrary: dir rule: split_path.induct)
  case (1 s)
  let ?n = "takeWhile (\<lambda>c. c \<noteq> CHR ''/'') s"
  show ?case
  proof (cases "CHR ''/'' \<in> set s")
    case True
    let ?r = "drop (length ?n + 1) s"
    have s: "s = ?n @ ''/'' @ ?r"
      using slash_split [OF True] by simp
    have n: "CHR ''/'' \<notin> set ?n" by (auto dest: set_takeWhileD)
    have "dir_step (prefix_text dir @ ''/'') s (length ?n) = Inr (prefix_text (enter dir ?n) @ ''/'')"
      using dir_step_enter(1) [OF 1(2) n, of ?r] s by simp
    then have "dir_cat_real (prefix_text dir @ ''/'') s = dir_cat_real (prefix_text (enter dir ?n) @ ''/'') ?r"
      using True by (subst dir_cat_real.simps) (simp add: first_slash Let_def)
    moreover have "foldl enter dir (split_path s) = foldl enter (enter dir ?n) (split_path ?r)"
      using True by (subst split_path.simps) simp
    ultimately show ?thesis using "1.IH" [OF True enter_proper [OF 1(2) n]] by simp
  next
    case False
    obtain d where d: "dir_step (prefix_text dir @ ''/'') s (length s) = Inr d"
      "d = prefix_text (enter dir s) @ ''/'' \<or> enter dir s \<noteq> [] \<and> d = prefix_text (enter dir s)"
      using dir_step_enter(2) [OF 1(2) False] by blast
    have "dir_cat_real (prefix_text dir @ ''/'') s = Inr d"
      using False d(1) by (subst dir_cat_real.simps) (simp add: first_slash Let_def)
    moreover have "split_path s = [s]" using False by (subst split_path.simps) simp
    ultimately show ?thesis using d(2) enter_proper [OF 1(2) False] by simp
  qed
qed

lemma prefix_text_ends:
  assumes "\<forall>n \<in> set dir. proper n" "dir \<noteq> []"
  shows "prefix_text dir \<noteq> []" "char_at (prefix_text dir) 0 = CHR ''/''"
    "char_at (prefix_text dir) (length (prefix_text dir) - 1) \<noteq> CHR ''/''"
proof -
  obtain xs x where d: "dir = xs @ [x]" using assms(2) by (cases dir rule: rev_cases) auto
  have x: "x \<noteq> []" "CHR ''/'' \<notin> set x" using assms(1) d by (auto simp: proper_def)
  show ne: "prefix_text dir \<noteq> []" by (simp add: d)
  show "char_at (prefix_text dir) 0 = CHR ''/''"
    by (cases xs) (simp_all add: d prefix_text_def char_at_def)
  have "char_at (prefix_text dir) (length (prefix_text dir) - 1) = last (prefix_text dir)"
    using ne by (simp add: char_at_def last_conv_nth)
  also have "\<dots> = last x" using x by (simp add: d)
  finally show "char_at (prefix_text dir) (length (prefix_text dir) - 1) \<noteq> CHR ''/''"
    using x last_in_set by metis
qed

lemma dir_cat_render:
  assumes "\<forall>n \<in> set dir. proper n"
  shows "dir_cat (render dir) src = Inr (render (resolve dir src)) \<and>
    (\<forall>n \<in> set (resolve dir src). proper n)"
proof -
  let ?dir = "if char_at src 0 = CHR ''/'' then [] else dir"
  have p: "\<forall>n \<in> set ?dir. proper n" using assms by simp
  have r0: "char_at (render dir) 0 = CHR ''/''" "take 1 (render dir) = ''/''"
  proof -
    show "char_at (render dir) 0 = CHR ''/''"
      using prefix_text_ends(2) [OF assms] by (cases "dir = []") (simp_all add: render_def char_at_def)
    then show "take 1 (render dir) = ''/''"
      by (cases "render dir") (auto simp: char_at_def split: if_splits)
  qed
  have d0: "(if char_at src 0 = CHR ''/'' then take 1 (render dir)
      else if char_at (render dir) (length (render dir) - 1) \<noteq> CHR ''/'' then render dir @ ''/''
      else render dir) = prefix_text ?dir @ ''/''"
    using r0 prefix_text_ends(3) [OF assms] by (auto simp: render_def char_at_def)
  obtain d where d: "dir_cat_real (prefix_text ?dir @ ''/'') src = Inr d"
    "\<forall>n \<in> set (resolve dir src). proper n"
    "d = prefix_text (resolve dir src) @ ''/'' \<or> resolve dir src \<noteq> [] \<and> d = prefix_text (resolve dir src)"
    using dir_cat_real_enter [OF p, of src] unfolding resolve_def by blast
  have fin: "(if char_at d (length d - 1) = CHR ''/'' \<and> length d > 1 then take (length d - 1) d else d)
      = render (resolve dir src)"
    using d(3)
  proof
    assume e: "d = prefix_text (resolve dir src) @ ''/''"
    show ?thesis
      using prefix_text_ends(1) [OF d(2)]
      by (cases "resolve dir src = []") (auto simp: e render_def char_at_def)
  next
    assume "resolve dir src \<noteq> [] \<and> d = prefix_text (resolve dir src)"
    then show ?thesis using prefix_text_ends(3) [OF d(2)] by (simp add: render_def)
  qed
  have "dir_cat (render dir) src = Inr (render (resolve dir src))"
    using r0(1) d(1) fin by (simp only: dir_cat_def Let_def d0) simp
  then show ?thesis using d(2) by blast
qed

section \<open>Properties\<close>

text \<open>C5: \<^verbatim>\<open>dir_cat\<close> computes path resolution: applied to the text of a directory and any path, absolute
  or relative, with empty, \<^verbatim>\<open>.\<close> and \<^verbatim>\<open>..\<close> components anywhere, it returns the text of the directory
  the path leads to, never fails, and its result is again in normal form.\<close>

theorem dir_cat_resolves:
  assumes "\<forall>n \<in> set dir. proper n"
  shows "dir_cat (render dir) src = Inr (render (resolve dir src)) \<and>
    (\<forall>n \<in> set (resolve dir src). proper n)"
  by (rule dir_cat_render [OF assms])

theorem dir_cat_resolves_witness:
  "dir_cat ''/home/me'' ''../you//./x/'' = Inr ''/home/you/x''"
proof -
  have p: "\<forall>n \<in> set [''home'', ''me'']. proper n" by (simp add: proper_def)
  have "split_path ''../you//./x/'' = [''..'', ''you'', [], ''.'', ''x'', []]"
    by (simp add: split_path.simps)
  then have r: "resolve [''home'', ''me''] ''../you//./x/'' = [''home'', ''you'', ''x'']"
    by (simp add: resolve_def enter_def char_at_def)
  have t: "render [''home'', ''me''] = ''/home/me''" "render [''home'', ''you'', ''x''] = ''/home/you/x''"
    by (simp_all add: render_def prefix_text_def)
  show ?thesis using dir_cat_resolves [OF p, of "''../you//./x/''"] unfolding r t by blast
qed

end
