(* ===== verification/Shell_Parse.thy ===== *)
theory Shell_Parse
  imports Prelude
begin

text \<open>
  The command parser of the shell, \<^verbatim>\<open>kernel/src/shell/parse.c\<close>.  The text still to be parsed is the
  suffix that \<^verbatim>\<open>*ps\<close> points to; a token is its text, which is the C string at its start once
  \<^verbatim>\<open>nulterminate\<close> has put a terminator at its end.  \<^verbatim>\<open>panic\<close> reports and ends the shell's task.
\<close>

section \<open>Commands and tokens\<close>

datatype cmd =
    EXEC "string list"
  | REDIR cmd string nat nat  \<comment> \<open>command, file, mode, descriptor\<close>
  | PIPE cmd cmd
  | LIST cmd cmd
  | BACK cmd

datatype perr = Panic_msg string | No_fuel

definition MAXARGS :: nat where "MAXARGS = 10"

definition whitespace :: string where
  "whitespace = [CHR '' '', CHR 0x09, CHR 0x0d, CHR 0x0a, CHR 0x0b]"

definition symbols :: string where
  "symbols = ''<|>&;()''"

definition is_ws :: "char \<Rightarrow> bool" where
  "is_ws c \<longleftrightarrow> c \<in> set whitespace"

definition is_sym :: "char \<Rightarrow> bool" where
  "is_sym c \<longleftrightarrow> c \<in> set symbols"

abbreviation skip_ws :: "string \<Rightarrow> string" where
  "skip_ws s \<equiv> dropWhile is_ws s"

abbreviation QUOTE :: char where
  "QUOTE \<equiv> CHR 0x22"

text \<open>The kind of the token, its text and the suffix after it and the blanks that follow.\<close>

definition gettoken :: "string \<Rightarrow> perr + char \<times> string \<times> string" where
  "gettoken ps =
     (case skip_ws ps of
        [] \<Rightarrow> Inr (CHR 0x00, [], [])
      | c # cs \<Rightarrow>
          if c = QUOTE \<or> c = CHR 0x27 then
            (case dropWhile (\<lambda>d. d \<noteq> c) cs of
               [] \<Rightarrow> Inl (Panic_msg (''syntax - missing '' @ [c, CHR 0x0a]))
             | _ # rest \<Rightarrow> Inr (QUOTE, c # takeWhile (\<lambda>d. d \<noteq> c) cs @ [c], skip_ws rest))
          else if c \<in> set ''|();&<'' then Inr (c, [c], skip_ws cs)
          else if c = CHR ''>'' then
            (if cs \<noteq> [] \<and> hd cs = CHR ''>''
             then Inr (CHR ''+'', ''>>'', skip_ws (tl cs))
             else Inr (c, [c], skip_ws cs))
          else
            Inr (CHR ''a'', takeWhile (\<lambda>d. \<not> is_ws d \<and> \<not> is_sym d) (c # cs),
                 skip_ws (dropWhile (\<lambda>d. \<not> is_ws d \<and> \<not> is_sym d) (c # cs))))"

definition peek :: "string \<Rightarrow> string \<Rightarrow> bool" where
  "peek ps toks \<longleftrightarrow> (case skip_ws ps of [] \<Rightarrow> False | c # _ \<Rightarrow> c \<in> set toks)"

lemma skip_ws_le: "length s \<le> n \<Longrightarrow> length (skip_ws s) \<le> n"
  using length_dropWhile_le le_trans by blast

lemma gettoken_shorter:
  assumes "gettoken ps = Inr (k, t, rest)" "k \<noteq> CHR 0x00"
  shows "length rest < length ps"
proof (cases "skip_ws ps")
  case Nil
  show ?thesis using assms unfolding gettoken_def Nil by simp
next
  case (Cons c cs)
  have l: "Suc (length cs) \<le> length ps" using skip_ws_le [of ps "length ps"] Cons by simp
  have w: "\<not> is_ws c" using hd_dropWhile [of is_ws ps] Cons by simp
  have le: "length (skip_ws cs) \<le> length cs" "length (skip_ws (tl cs)) \<le> length cs"
    "length (skip_ws (dropWhile (\<lambda>d. \<not> is_ws d \<and> \<not> is_sym d) cs)) \<le> length cs"
    by (rule skip_ws_le; simp add: length_dropWhile_le)+
  have q: "length (skip_ws ds) \<le> length cs" if "dropWhile P cs = x # ds" for P x ds
    using length_dropWhile_le [of P cs] that by (intro skip_ws_le) simp
  consider (quote) "c = QUOTE \<or> c = CHR 0x27" | (sym) "\<not> (c = QUOTE \<or> c = CHR 0x27)" "c \<in> set ''|();&<''"
    | (gt) "c = CHR ''>''" | (word) "\<not> (c = QUOTE \<or> c = CHR 0x27)" "c \<notin> set ''|();&<''" "c \<noteq> CHR ''>''"
    by blast
  then have "length rest \<le> length cs"
  proof cases
    case quote
    then show ?thesis using assms Cons
      by (cases "dropWhile (\<lambda>d. d \<noteq> c) cs") (auto simp: gettoken_def dest: q split: if_splits)
  next
    case sym
    then show ?thesis using assms Cons le by (simp add: gettoken_def)
  next
    case gt
    then show ?thesis using assms Cons le by (auto simp: gettoken_def split: if_splits)
  next
    case word
    then have "\<not> is_sym c" by (auto simp: is_sym_def symbols_def)
    then show ?thesis using assms Cons le w word by (simp add: gettoken_def)
  qed
  then show ?thesis using l by simp
qed

lemma gettoken_kind:
  "gettoken ps = Inr (k, t, rest) \<Longrightarrow> k = CHR 0x00 \<longleftrightarrow> skip_ws ps = []"
  by (cases "skip_ws ps") (auto simp: gettoken_def split: if_splits list.splits)

lemma peek_gettoken:
  assumes "peek ps toks" "gettoken ps = Inr (k, t, rest)"
  shows "length rest < length ps"
proof -
  have "skip_ws ps \<noteq> []" using assms(1) unfolding peek_def by (cases "skip_ws ps") simp_all
  then show ?thesis using gettoken_kind [OF assms(2)] gettoken_shorter [OF assms(2)] by blast
qed

section \<open>Redirections\<close>

definition redir_of :: "char \<Rightarrow> cmd \<Rightarrow> string \<Rightarrow> cmd" where
  "redir_of tok cmd f =
     (if tok = CHR ''<'' then REDIR cmd f O_RDONLY 0
      else if tok = CHR ''>'' then REDIR cmd f (O_WRONLY + O_CREATE) 1
      else if tok = CHR ''+'' then REDIR cmd f (O_WRONLY + O_CREATE + O_APPEND) 1
      else cmd)"

lemma gettoken_le: "gettoken ps = Inr (k, t, rest) \<Longrightarrow> length rest \<le> length ps"
  using gettoken_shorter [of ps k t rest]
  by (cases "k = CHR 0x00") (auto simp: gettoken_def split: list.splits if_splits)

lemma redirs_dec:
  "Inr (tok, t, ps1) = gettoken ps \<Longrightarrow> Inr (CHR ''a'', f, ps2) = gettoken ps1 \<Longrightarrow> length ps2 < length ps"
  using gettoken_le [of ps tok t ps1] gettoken_shorter [of ps1 "CHR ''a''" f ps2] by simp

text \<open>The wrappers are collected, since \<^verbatim>\<open>parseexec\<close> goes on to fill the command they wrap.\<close>

function parseredirs :: "(char \<times> string) list \<Rightarrow> string \<Rightarrow> perr + (char \<times> string) list \<times> string" where
  "parseredirs rs ps =
     (if peek ps ''<>'' then
        (case gettoken ps of
           Inl e \<Rightarrow> Inl e
         | Inr (tok, _, ps1) \<Rightarrow>
             (case gettoken ps1 of
                Inl e \<Rightarrow> Inl e
              | Inr (k, f, ps2) \<Rightarrow>
                  if k \<noteq> CHR ''a'' then Inl (Panic_msg ''missing file for redirection'')
                  else parseredirs (rs @ [(tok, f)]) ps2))
      else Inr (rs, skip_ws ps))"
  by auto

termination
  by (relation "measure (\<lambda>(_, ps). length ps)") (auto intro: redirs_dec)

declare parseredirs.simps [simp del]

definition wrap :: "cmd \<Rightarrow> (char \<times> string) list \<Rightarrow> cmd" where
  "wrap cmd rs = foldl (\<lambda>c (tok, f). redir_of tok c f) cmd rs"

lemma parseredirs_le: "parseredirs rs ps = Inr (rs', ps') \<Longrightarrow> length ps' \<le> length ps"
proof (induction rs ps arbitrary: rs' ps' rule: parseredirs.induct)
  case (1 rs ps)
  show ?case
  proof (cases "peek ps ''<>''")
    case True
    then obtain tok t ps1 f ps2 where t: "gettoken ps = Inr (tok, t, ps1)"
      "gettoken ps1 = Inr (CHR ''a'', f, ps2)" "parseredirs (rs @ [(tok, f)]) ps2 = Inr (rs', ps')"
      using 1(2) by (subst (asm) parseredirs.simps) (auto split: sum.splits if_splits)
    have "length ps' \<le> length ps2"
      using t(3) by (rule "1.IH" [OF True t(1) refl refl t(2) refl refl, rotated]) simp
    then show ?thesis using redirs_dec [OF t(1,2) [symmetric]] by simp
  next
    case False
    then show ?thesis using 1(2) by (subst (asm) parseredirs.simps) (auto intro: skip_ws_le)
  qed
qed

section \<open>Words of a simple command\<close>

function parseargs :: "string list \<Rightarrow> (char \<times> string) list \<Rightarrow> string \<Rightarrow> perr + cmd \<times> string" where
  "parseargs args rs ps =
     (if peek ps ''|)&;'' then Inr (wrap (EXEC args) rs, skip_ws ps)
      else
        (case gettoken ps of
           Inl e \<Rightarrow> Inl e
         | Inr (tok, t, ps1) \<Rightarrow>
             if tok = CHR 0x00 then Inr (wrap (EXEC args) rs, ps1)
             else if tok \<noteq> QUOTE \<and> tok \<noteq> CHR ''a'' then Inl (Panic_msg ''syntax'')
             else
               (let args' = args @ [if tok = QUOTE then butlast (tl t) else t]
                in if length args' \<ge> MAXARGS then Inl (Panic_msg ''too many args'')
                   else (case parseredirs rs ps1 of
                       Inl e \<Rightarrow> Inl e
                     | Inr (rs', ps2) \<Rightarrow>
                         parseargs args' rs' ps2))))"
  by auto
termination
  by (relation "measure (\<lambda>(_, _, ps). length ps)")
    (auto dest!: sym [of "Inr _"] parseredirs_le gettoken_shorter)

declare parseargs.simps [simp del]

section \<open>Lines, pipelines and blocks\<close>

function parsebacks :: "cmd \<Rightarrow> string \<Rightarrow> perr + cmd \<times> string" where
  "parsebacks c ps =
     (if peek ps ''&'' then
        (case gettoken ps of
           Inl e \<Rightarrow> Inl e
         | Inr (_, _, ps1) \<Rightarrow> parsebacks (BACK c) ps1)
      else Inr (c, skip_ws ps))"
  by auto
termination
  by (relation "measure (\<lambda>(_, ps). length ps)") (auto dest!: sym [of "Inr _"] dest: peek_gettoken)

declare parsebacks.simps [simp del]

text \<open>The mutual recursion takes a bound on its depth; \<open>parsecmd\<close> supplies one that suffices.\<close>

fun parseline :: "nat \<Rightarrow> string \<Rightarrow> perr + cmd \<times> string"
  and parsepipe :: "nat \<Rightarrow> string \<Rightarrow> perr + cmd \<times> string"
  and parseblock :: "nat \<Rightarrow> string \<Rightarrow> perr + cmd \<times> string"
  and parseexec :: "nat \<Rightarrow> string \<Rightarrow> perr + cmd \<times> string" where
  "parseline 0 ps = Inl No_fuel"
| "parseline (Suc n) ps =
     (case parsepipe n ps of
        Inl e \<Rightarrow> Inl e
      | Inr (c, ps1) \<Rightarrow>
          (case parsebacks c ps1 of
             Inl e \<Rightarrow> Inl e
           | Inr (c', ps2) \<Rightarrow>
               if peek ps2 '';'' then
                 (case gettoken ps2 of
                    Inl e \<Rightarrow> Inl e
                  | Inr (_, _, ps3) \<Rightarrow>
                      (case parseline n ps3 of Inl e \<Rightarrow> Inl e | Inr (r, ps4) \<Rightarrow> Inr (LIST c' r, ps4)))
               else Inr (c', ps2)))"
| "parsepipe 0 ps = Inl No_fuel"
| "parsepipe (Suc n) ps =
     (case parseexec n ps of
        Inl e \<Rightarrow> Inl e
      | Inr (c, ps1) \<Rightarrow>
          if peek ps1 ''|'' then
            (case gettoken ps1 of
               Inl e \<Rightarrow> Inl e
             | Inr (_, _, ps2) \<Rightarrow>
                 (case parsepipe n ps2 of Inl e \<Rightarrow> Inl e | Inr (r, ps3) \<Rightarrow> Inr (PIPE c r, ps3)))
          else Inr (c, ps1))"
| "parseblock 0 ps = Inl No_fuel"
| "parseblock (Suc n) ps =
     (if \<not> peek ps ''('' then Inl (Panic_msg ''parseblock'')
      else
        (case gettoken ps of
           Inl e \<Rightarrow> Inl e
         | Inr (_, _, ps1) \<Rightarrow>
             (case parseline n ps1 of
                Inl e \<Rightarrow> Inl e
              | Inr (c, ps2) \<Rightarrow>
                  if \<not> peek ps2 '')'' then Inl (Panic_msg ''syntax - missing )'')
                  else
                    (case gettoken ps2 of
                       Inl e \<Rightarrow> Inl e
                     | Inr (_, _, ps3) \<Rightarrow>
                         (case parseredirs [] ps3 of
                            Inl e \<Rightarrow> Inl e
                          | Inr (rs, ps4) \<Rightarrow> Inr (wrap c rs, ps4))))))"
| "parseexec 0 ps = Inl No_fuel"
| "parseexec (Suc n) ps =
     (if peek ps ''('' then parseblock n ps
      else
        (case parseredirs [] ps of
           Inl e \<Rightarrow> Inl e
         | Inr (rs, ps1) \<Rightarrow> parseargs [] rs ps1))"

definition parsecmd :: "string \<Rightarrow> perr + cmd" where
  "parsecmd s =
     (case parseline (4 * length s + 4) s of
        Inl e \<Rightarrow> Inl e
      | Inr (c, rest) \<Rightarrow>
          if skip_ws rest \<noteq> [] then Inl (Panic_msg (''leftovers: '' @ skip_ws rest @ [CHR 0x0a] @ ''syntax'')) else Inr c)"

section \<open>The bound suffices\<close>

definition fine :: "string \<Rightarrow> perr + 'a \<times> string \<Rightarrow> bool" where
  "fine ps r \<longleftrightarrow> (case r of Inl e \<Rightarrow> e \<noteq> No_fuel | Inr (_, ps') \<Rightarrow> length ps' \<le> length ps)"

lemma gettoken_fuel: "gettoken ps \<noteq> Inl No_fuel"
  by (auto simp: gettoken_def split: list.splits)

lemma fineI:
  "(\<And>e. r = Inl e \<Longrightarrow> e \<noteq> No_fuel) \<Longrightarrow> (\<And>x ps'. r = Inr (x, ps') \<Longrightarrow> length ps' \<le> length ps) \<Longrightarrow>
   fine ps r"
  by (auto simp: fine_def split: sum.splits)

lemma parseredirs_fuel: "parseredirs rs ps \<noteq> Inl No_fuel"
proof (induction rs ps rule: parseredirs.induct)
  case (1 rs ps)
  show ?case
  proof (cases "peek ps ''<>''")
    case True
    show ?thesis
    proof (cases "gettoken ps")
      case (Inl e)
      then show ?thesis using True gettoken_fuel [of ps] by (subst parseredirs.simps) simp
    next
      case (Inr a)
      obtain tok t ps1 where a: "a = (tok, t, ps1)" by (cases a)
      show ?thesis
      proof (cases "gettoken ps1")
        case (Inl e)
        then show ?thesis using True Inr a gettoken_fuel [of ps1] by (subst parseredirs.simps) simp
      next
        case (Inr b)
        obtain k f ps2 where b: "b = (k, f, ps2)" by (cases b)
        note g = \<open>gettoken ps = Inr a\<close> [unfolded a] Inr [unfolded b]
        show ?thesis
        proof (cases "k = CHR ''a''")
          case False
          then show ?thesis using True g by (subst parseredirs.simps) simp
        next
          case k: True
          have "parseredirs (rs @ [(tok, f)]) ps2 \<noteq> Inl No_fuel"
            using 1 [OF True g(1) refl refl g(2) refl refl] k by simp
          then show ?thesis using True g k by (subst parseredirs.simps) simp
        qed
      qed
    qed
  qed (subst parseredirs.simps, simp)
qed

lemma parseredirs_fine: "fine ps (parseredirs rs ps)"
  by (rule fineI) (use parseredirs_fuel parseredirs_le in blast)+

lemma fine_mono: "fine ps' r \<Longrightarrow> length ps' \<le> length ps \<Longrightarrow> fine ps r"
  by (auto simp: fine_def split: sum.splits)

lemma fine_bind:
  assumes "fine ps r" "\<And>x ps'. r = Inr (x, ps') \<Longrightarrow> length ps' \<le> length ps \<Longrightarrow> fine ps (f x ps')"
  shows "fine ps (case r of Inl e \<Rightarrow> Inl e | Inr (x, ps') \<Rightarrow> f x ps')"
  using assms by (auto simp: fine_def split: sum.splits)

lemma fine_token:
  assumes "\<And>k t ps'. gettoken ps = Inr (k, t, ps') \<Longrightarrow> length ps' \<le> length ps \<Longrightarrow> fine ps (f k t ps')"
  shows "fine ps (case gettoken ps of Inl e \<Rightarrow> Inl e | Inr (k, t, ps') \<Rightarrow> f k t ps')"
  using assms gettoken_fuel [of ps] gettoken_le [of ps]
  by (cases "gettoken ps") (auto simp: fine_def split: prod.splits)

lemma fine_simps: "fine ps (Inr (x, ps')) \<longleftrightarrow> length ps' \<le> length ps" "fine ps (Inl e) \<longleftrightarrow> e \<noteq> No_fuel"
  by (simp_all add: fine_def)

lemma parseargs_fine: "fine ps (parseargs args rs ps)"
proof (induction args rs ps rule: parseargs.induct)
  case (1 args rs ps)
  show ?case
  proof (subst parseargs.simps, cases "peek ps ''|)&;''", goal_cases)
    case 1
    then show ?case by (simp add: fine_simps skip_ws_le)
  next
    case 2
    have "fine ps (if tok = CHR 0x00 then Inr (wrap (EXEC args) rs, ps1)
             else if tok \<noteq> QUOTE \<and> tok \<noteq> CHR ''a'' then Inl (Panic_msg ''syntax'')
             else
               (let args' = args @ [if tok = QUOTE then butlast (tl t) else t]
                in if length args' \<ge> MAXARGS then Inl (Panic_msg ''too many args'')
                   else (case parseredirs rs ps1 of
                       Inl e \<Rightarrow> Inl e
                     | Inr (rs', ps2) \<Rightarrow> parseargs args' rs' ps2)))"
      if t: "gettoken ps = Inr (tok, t, ps1)" "length ps1 \<le> length ps" for tok t ps1
    proof -
      have "fine ps (case parseredirs rs ps1 of Inl e \<Rightarrow> Inl e | Inr (rs', ps2) \<Rightarrow> parseargs a rs' ps2)"
        if a: "a = args @ [if tok = QUOTE then butlast (tl t) else t]" "\<not> MAXARGS \<le> length a"
          "tok \<noteq> CHR 0x00" "\<not> (tok \<noteq> QUOTE \<and> tok \<noteq> CHR ''a'')" for a
      proof (rule fine_mono [OF fine_bind [OF parseredirs_fine] t(2)])
        fix rs' ps2 assume r: "parseredirs rs ps1 = Inr (rs', ps2)" "length ps2 \<le> length ps1"
        have "fine ps2 (parseargs a rs' ps2)"
          using "1.IH" [OF 2 t(1) refl refl a(3,4,1,2) r(1) refl] .
        then show "fine ps1 (parseargs a rs' ps2)" using r(2) by (rule fine_mono)
      qed
      then show ?thesis using t(2) by (auto simp: fine_simps Let_def)
    qed
    from fine_token [of ps, OF this] 2 show ?case by simp
  qed
qed

lemma parsebacks_fine: "fine ps (parsebacks c ps)"
proof (induction c ps rule: parsebacks.induct)
  case (1 c ps)
  show ?case
  proof (subst parsebacks.simps, cases "peek ps ''&''", goal_cases)
    case 1
    have "fine ps (parsebacks (BACK c) ps1)" if "gettoken ps = Inr (k, t, ps1)" "length ps1 \<le> length ps" for k t ps1
      using "1.IH" [OF 1 that(1) refl refl] that(2) by (rule fine_mono)
    from fine_token [of ps, OF this] 1 show ?case by simp
  qed (simp add: fine_simps skip_ws_le)
qed

lemma parse_fine:
  "4 * length ps + 4 \<le> n \<Longrightarrow> fine ps (parseline n ps)"
  "4 * length ps + 3 \<le> n \<Longrightarrow> fine ps (parsepipe n ps)"
  "4 * length ps + 1 \<le> n \<Longrightarrow> fine ps (parseblock n ps)"
  "4 * length ps + 2 \<le> n \<Longrightarrow> fine ps (parseexec n ps)"
proof (induction n arbitrary: ps)
  case (Suc n)
  {
    case 1
    have "fine ps (parsepipe n ps)" using Suc(2) 1 by simp
    then show ?case unfolding parseline.simps
    proof (rule fine_bind)
      fix c and ps1 :: string assume p1: "length ps1 \<le> length ps"
      show "fine ps (case parsebacks c ps1 of Inl e \<Rightarrow> Inl e | Inr (c', ps2) \<Rightarrow>
          if peek ps2 '';'' then (case gettoken ps2 of Inl e \<Rightarrow> Inl e | Inr (_, _, ps3) \<Rightarrow>
             (case parseline n ps3 of Inl e \<Rightarrow> Inl e | Inr (r, ps4) \<Rightarrow> Inr (LIST c' r, ps4)))
          else Inr (c', ps2))"
      proof (rule fine_mono [OF fine_bind [OF parsebacks_fine] p1])
        fix c' and ps2 :: string assume p2: "length ps2 \<le> length ps1"
        have "fine ps2 (case gettoken ps2 of Inl e \<Rightarrow> Inl e | Inr (_, _, ps3) \<Rightarrow>
             (case parseline n ps3 of Inl e \<Rightarrow> Inl e | Inr (r, ps4) \<Rightarrow> Inr (LIST c' r, ps4)))"
          if "peek ps2 '';''"
        proof (rule fine_token)
          fix k t ps3 assume t: "gettoken ps2 = Inr (k, t, ps3)" "length ps3 \<le> length ps2"
          have "length ps3 < length ps2" using peek_gettoken [OF that t(1)] .
          then have "fine ps3 (parseline n ps3)" using 1 p1 p2 by (intro Suc(1)) simp
          then show "fine ps2 (case parseline n ps3 of Inl e \<Rightarrow> Inl e | Inr (r, ps4) \<Rightarrow> Inr (LIST c' r, ps4))"
            using t(2) by (intro fine_bind) (auto simp: fine_simps intro: fine_mono)
        qed
        then show "fine ps1 (if peek ps2 '';'' then (case gettoken ps2 of Inl e \<Rightarrow> Inl e | Inr (_, _, ps3) \<Rightarrow>
             (case parseline n ps3 of Inl e \<Rightarrow> Inl e | Inr (r, ps4) \<Rightarrow> Inr (LIST c' r, ps4)))
          else Inr (c', ps2))"
          using p2 by (auto simp: fine_simps intro: fine_mono)
      qed
    qed
  next
    case 2
    have "fine ps (parseexec n ps)" using Suc(4) 2 by simp
    then show ?case unfolding parsepipe.simps
    proof (rule fine_bind)
      fix c and ps1 :: string assume p1: "length ps1 \<le> length ps"
      have "fine ps1 (case gettoken ps1 of Inl e \<Rightarrow> Inl e | Inr (_, _, ps2) \<Rightarrow>
             (case parsepipe n ps2 of Inl e \<Rightarrow> Inl e | Inr (r, ps3) \<Rightarrow> Inr (PIPE c r, ps3)))"
        if "peek ps1 ''|''"
      proof (rule fine_token)
        fix k t ps2 assume t: "gettoken ps1 = Inr (k, t, ps2)" "length ps2 \<le> length ps1"
        have "length ps2 < length ps1" using peek_gettoken [OF that t(1)] .
        then have "fine ps2 (parsepipe n ps2)" using 2 p1 by (intro Suc(2)) simp
        then show "fine ps1 (case parsepipe n ps2 of Inl e \<Rightarrow> Inl e | Inr (r, ps3) \<Rightarrow> Inr (PIPE c r, ps3))"
          using t(2) by (intro fine_bind) (auto simp: fine_simps intro: fine_mono)
      qed
      then show "fine ps (if peek ps1 ''|'' then (case gettoken ps1 of Inl e \<Rightarrow> Inl e | Inr (_, _, ps2) \<Rightarrow>
             (case parsepipe n ps2 of Inl e \<Rightarrow> Inl e | Inr (r, ps3) \<Rightarrow> Inr (PIPE c r, ps3)))
          else Inr (c, ps1))"
        using p1 by (auto simp: fine_simps intro: fine_mono)
    qed
  next
    case 3
    have "fine ps (case gettoken ps of Inl e \<Rightarrow> Inl e | Inr (_, _, ps1) \<Rightarrow>
        (case parseline n ps1 of Inl e \<Rightarrow> Inl e | Inr (c, ps2) \<Rightarrow>
           if \<not> peek ps2 '')'' then Inl (Panic_msg ''syntax - missing )'')
           else (case gettoken ps2 of Inl e \<Rightarrow> Inl e | Inr (_, _, ps3) \<Rightarrow>
              (case parseredirs [] ps3 of Inl e \<Rightarrow> Inl e | Inr (rs, ps4) \<Rightarrow> Inr (wrap c rs, ps4)))))"
      if "peek ps ''(''"
    proof (rule fine_token)
      fix k t ps1 assume t: "gettoken ps = Inr (k, t, ps1)" "length ps1 \<le> length ps"
      have "length ps1 < length ps" using peek_gettoken [OF that t(1)] .
      then have "fine ps1 (parseline n ps1)" using 3 by (intro Suc(1)) simp
      then show "fine ps (case parseline n ps1 of Inl e \<Rightarrow> Inl e | Inr (c, ps2) \<Rightarrow>
           if \<not> peek ps2 '')'' then Inl (Panic_msg ''syntax - missing )'')
           else (case gettoken ps2 of Inl e \<Rightarrow> Inl e | Inr (_, _, ps3) \<Rightarrow>
              (case parseredirs [] ps3 of Inl e \<Rightarrow> Inl e | Inr (rs, ps4) \<Rightarrow> Inr (wrap c rs, ps4))))"
      proof (rule fine_mono [OF fine_bind t(2)])
        fix c and ps2 :: string assume p2: "length ps2 \<le> length ps1"
        have "fine ps2 (case gettoken ps2 of Inl e \<Rightarrow> Inl e | Inr (_, _, ps3) \<Rightarrow>
              (case parseredirs [] ps3 of Inl e \<Rightarrow> Inl e | Inr (rs, ps4) \<Rightarrow> Inr (wrap c rs, ps4)))"
        proof (rule fine_token)
          fix k' t' and ps3 :: string assume p3: "length ps3 \<le> length ps2"
          show "fine ps2 (case parseredirs [] ps3 of Inl e \<Rightarrow> Inl e | Inr (rs, ps4) \<Rightarrow> Inr (wrap c rs, ps4))"
            by (rule fine_bind [OF fine_mono [OF parseredirs_fine p3]]) (simp add: fine_simps)
        qed
        then show "fine ps1 (if \<not> peek ps2 '')'' then Inl (Panic_msg ''syntax - missing )'')
           else (case gettoken ps2 of Inl e \<Rightarrow> Inl e | Inr (_, _, ps3) \<Rightarrow>
              (case parseredirs [] ps3 of Inl e \<Rightarrow> Inl e | Inr (rs, ps4) \<Rightarrow> Inr (wrap c rs, ps4))))"
          using p2 by (auto simp: fine_simps intro: fine_mono)
      qed
    qed
    then show ?case by (simp add: fine_simps)
  next
    case 4
    have "fine ps (parseblock n ps)" using Suc(3) 4 by simp
    moreover have "fine ps (case parseredirs [] ps of Inl e \<Rightarrow> Inl e | Inr (rs, ps1) \<Rightarrow> parseargs [] rs ps1)"
      by (rule fine_bind [OF parseredirs_fine]) (auto intro: fine_mono [OF parseargs_fine])
    ultimately show ?case by simp
  }
qed simp_all

lemma parsecmd_total: "parsecmd s \<noteq> Inl No_fuel"
  using parse_fine(1) [of s "4 * length s + 4"]
  by (auto simp: parsecmd_def fine_def split: sum.splits)

section \<open>Printing and parsing back\<close>

definition word :: "string \<Rightarrow> bool" where
  "word w \<longleftrightarrow> w \<noteq> [] \<and> hd w \<noteq> QUOTE \<and> hd w \<noteq> CHR 0x27 \<and>
     (\<forall>c \<in> set w. \<not> is_ws c \<and> \<not> is_sym c \<and> c \<noteq> CHR 0x00)"

definition redir_op :: "nat \<Rightarrow> nat \<Rightarrow> string option" where
  "redir_op mode fd =
     (if mode = O_RDONLY \<and> fd = 0 then Some ''<''
      else if mode = O_WRONLY + O_CREATE \<and> fd = 1 then Some ''>''
      else if mode = O_WRONLY + O_CREATE + O_APPEND \<and> fd = 1 then Some ''>>'' else None)"

fun valid_cmd :: "cmd \<Rightarrow> bool" where
  "valid_cmd (EXEC ws) \<longleftrightarrow> length ws < MAXARGS \<and> (\<forall>w \<in> set ws. word w)"
| "valid_cmd (REDIR c f m fd) \<longleftrightarrow> valid_cmd c \<and> word f \<and> redir_op m fd \<noteq> None"
| "valid_cmd (PIPE l r) \<longleftrightarrow> valid_cmd l \<and> valid_cmd r"
| "valid_cmd (LIST l r) \<longleftrightarrow> valid_cmd l \<and> valid_cmd r"
| "valid_cmd (BACK c) \<longleftrightarrow> valid_cmd c"

fun print_cmd :: "cmd \<Rightarrow> string" where
  "print_cmd (EXEC ws) = concat (map (\<lambda>w. w @ '' '') ws)"
| "print_cmd (REDIR c f m fd) = ''('' @ print_cmd c @ '')'' @ the (redir_op m fd) @ f"
| "print_cmd (PIPE l r) = ''('' @ print_cmd l @ '')|('' @ print_cmd r @ '')''"
| "print_cmd (LIST l r) = ''('' @ print_cmd l @ '');('' @ print_cmd r @ '')''"
| "print_cmd (BACK c) = ''('' @ print_cmd c @ '')&''"

definition stops :: "string \<Rightarrow> bool" where
  "stops r \<longleftrightarrow> r = [] \<or> hd r = CHR '')''"

lemmas chars = is_ws_def whitespace_def is_sym_def symbols_def

lemma skip_ws_char: "\<not> is_ws c \<Longrightarrow> skip_ws (c # cs) = c # cs"
  by simp

lemma peek_char: "\<not> is_ws c \<Longrightarrow> peek (c # cs) toks \<longleftrightarrow> c \<in> set toks"
  by (simp add: peek_def)

lemma peek_Nil [simp]: "\<not> peek [] toks"
  by (simp add: peek_def)

lemma stops_cases: "stops r \<Longrightarrow> (r = [] \<Longrightarrow> P) \<Longrightarrow> (\<And>r'. r = CHR '')'' # r' \<Longrightarrow> P) \<Longrightarrow> P"
  by (cases r) (auto simp: stops_def)

lemma stops_skip: "stops r \<Longrightarrow> skip_ws r = r"
  by (erule stops_cases) (simp_all add: chars)

lemma stops_peek: "stops r \<Longrightarrow> CHR '')'' \<notin> set toks \<Longrightarrow> \<not> peek r toks"
  by (erule stops_cases) (simp_all add: peek_char chars)

lemma gettoken_sym:
  "c \<in> set ''|();&<'' \<Longrightarrow> gettoken (c # cs) = Inr (c, [c], skip_ws cs)"
  by (auto simp: gettoken_def chars)

lemma gettoken_gt:
  "cs = [] \<or> hd cs \<noteq> CHR ''>'' \<Longrightarrow> gettoken (CHR ''>'' # cs) = Inr (CHR ''>'', ''>'', skip_ws cs)"
  "gettoken (CHR ''>'' # CHR ''>'' # cs) = Inr (CHR ''+'', ''>>'', skip_ws cs)"
  by (auto simp: gettoken_def chars)

lemma gettoken_word:
  assumes w: "word w" and r: "r = [] \<or> is_ws (hd r) \<or> is_sym (hd r)"
  shows "gettoken (w @ r) = Inr (CHR ''a'', w, skip_ws r)"
proof -
  obtain c cs where c: "w = c # cs" using w by (cases w) (auto simp: word_def)
  have ns: "\<not> is_ws c" "\<not> is_sym c" "c \<noteq> QUOTE" "c \<noteq> CHR 0x27" using w by (auto simp: word_def c)
  have "c \<notin> set ''|();&<''" "c \<noteq> CHR ''>''" using ns(2) by (auto simp: chars)
  moreover have "takeWhile (\<lambda>d. \<not> is_ws d \<and> \<not> is_sym d) (w @ r) = w"
    "dropWhile (\<lambda>d. \<not> is_ws d \<and> \<not> is_sym d) (w @ r) = r"
    using w r by (cases r; auto simp: word_def takeWhile_append2 dropWhile_append2)+
  ultimately show ?thesis using ns by (simp add: gettoken_def c)
qed

lemma word_first: "word w \<Longrightarrow> \<exists>c cs. w = c # cs \<and> \<not> is_ws c \<and> \<not> is_sym c"
  by (cases w) (auto simp: word_def)

lemma sym_toks: "\<not> is_sym c \<Longrightarrow> set toks \<subseteq> set symbols \<Longrightarrow> c \<notin> set toks"
  by (auto simp: is_sym_def)

lemma peek_word: "word w \<Longrightarrow> set toks \<subseteq> set symbols \<Longrightarrow> \<not> peek (w @ r) toks"
  using word_first [of w] by (auto simp: peek_char sym_toks)

lemma skip_word: "word w \<Longrightarrow> skip_ws (w @ r) = w @ r"
  using word_first [of w] by auto

lemma print_first:
  assumes "valid_cmd c" "stops r"
  shows "skip_ws (print_cmd c @ r) = print_cmd c @ r"
proof (cases c)
  case (EXEC ws)
  show ?thesis
  proof (cases ws)
    case Nil
    then show ?thesis using assms EXEC by (simp add: stops_skip)
  next
    case (Cons w vs)
    then show ?thesis using assms EXEC
      skip_word [of w "'' '' @ concat (map (\<lambda>w. w @ '' '') vs) @ r"] by simp
  qed
qed (simp_all add: chars)

lemma parseredirs_none: "\<not> peek r ''<>'' \<Longrightarrow> parseredirs rs r = Inr (rs, skip_ws r)"
  by (subst parseredirs.simps) simp

lemma parseargs_words:
  assumes "\<forall>w \<in> set ws. word w" "length args + length ws < MAXARGS" "stops r"
  shows "parseargs args [] (concat (map (\<lambda>w. w @ '' '') ws) @ r) = Inr (EXEC (args @ ws), r)"
  using assms
proof (induction ws arbitrary: args)
  case Nil
  then show ?case
    by (elim stops_cases; subst parseargs.simps)
      (simp_all add: gettoken_def wrap_def peek_char chars)
next
  case (Cons w ws)
  let ?r = "concat (map (\<lambda>w. w @ '' '') ws) @ r"
  have w: "word w" using Cons.prems by simp
  have sk: "skip_ws ('' '' @ ?r) = ?r"
    using print_first [of "EXEC ws" r] Cons.prems by (simp add: chars)
  have np: "\<not> peek ?r ''<>''"
  proof (cases ws)
    case Nil
    then show ?thesis using stops_peek [OF Cons.prems(3), of "''<>''"] by simp
  next
    case (Cons v vs)
    then show ?thesis using peek_word [of v "''<>''"] \<open>\<forall>w \<in> set (w # ws). word w\<close>
      by (simp add: symbols_def)
  qed
  have "gettoken (w @ '' '' @ ?r) = Inr (CHR ''a'', w, ?r)"
    using gettoken_word [OF w, of "'' '' @ ?r"] sk by (simp add: chars)
  moreover have "\<not> peek (w @ '' '' @ ?r) ''|)&;''" using peek_word [OF w] by (simp add: symbols_def)
  moreover have "parseredirs [] ?r = Inr ([], ?r)"
    using parseredirs_none [OF np] print_first [of "EXEC ws" r] Cons.prems by simp
  ultimately have "parseargs args [] (w @ '' '' @ ?r) = parseargs (args @ [w]) [] ?r"
    using Cons.prems(2) by (subst parseargs.simps) simp
  then show ?case using Cons.IH [of "args @ [w]"] Cons.prems by simp
qed

text \<open>From one level of the grammar to the next when nothing follows.\<close>

lemma pipe_of_exec: "parseexec n s = Inr (c, r) \<Longrightarrow> \<not> peek r ''|'' \<Longrightarrow> parsepipe (Suc n) s = Inr (c, r)"
  by simp

lemma line_of_pipe: "parsepipe n s = Inr (c, r) \<Longrightarrow> stops r \<Longrightarrow> parseline (Suc n) s = Inr (c, r)"
  using stops_peek [of r "''&''"] stops_peek [of r "'';''"] stops_skip [of r]
  by (simp add: parsebacks.simps)

lemma exec_block:
  assumes "parseline n (print_cmd c @ '')'' @ r) = Inr (c, '')'' @ r)" "valid_cmd c"
  shows "parseexec (Suc (Suc n)) (''('' @ print_cmd c @ '')'' @ r) =
    (case parseredirs [] (skip_ws r) of Inl e \<Rightarrow> Inl e | Inr (rs, ps) \<Rightarrow> Inr (wrap c rs, ps))"
proof -
  have "stops ('')'' @ r)" by (simp add: stops_def)
  from print_first [OF assms(2) this]
  have "gettoken (''('' @ print_cmd c @ '')'' @ r) = Inr (CHR ''('', ''('', print_cmd c @ '')'' @ r)"
    by (simp add: gettoken_sym)
  moreover have "gettoken ('')'' @ r) = Inr (CHR '')'', '')'', skip_ws r)" by (simp add: gettoken_sym)
  ultimately show ?thesis using assms(1) by (simp add: peek_char chars)
qed

lemma exec_block_plain:
  assumes "parseline n (print_cmd c @ '')'' @ r) = Inr (c, '')'' @ r)" "valid_cmd c"
    and "skip_ws r = r" "\<not> peek r ''<>''"
  shows "parseexec (Suc (Suc n)) (''('' @ print_cmd c @ '')'' @ r) = Inr (c, r)"
  using exec_block [OF assms(1,2)] parseredirs_none [OF assms(4)] assms(3) by (simp add: wrap_def)

lemma Suc_steps: "k \<le> n \<Longrightarrow> \<exists>m. n = m + k" for k n :: nat
  by (metis add.commute le_iff_add)

lemma parseline_print:
  "valid_cmd c \<Longrightarrow> stops r \<Longrightarrow> 4 * length (print_cmd c) + 4 \<le> n \<Longrightarrow>
   parseline n (print_cmd c @ r) = Inr (c, r)"
proof (induction c arbitrary: n r)
  case (EXEC ws)
  obtain m where n: "n = Suc (Suc (Suc m))"
    using Suc_steps [of 3 n] EXEC.prems(3) by (auto simp: numeral_eq_Suc)
  let ?s = "concat (map (\<lambda>w. w @ '' '') ws) @ r"
  have sk: "skip_ws ?s = ?s" using print_first [of "EXEC ws" r] EXEC.prems by simp
  have np: "\<not> peek ?s ''<>''" "\<not> peek ?s ''(''"
  proof -
    have "\<not> peek ?s toks" if "set toks \<subseteq> set symbols" "CHR '')'' \<notin> set toks" for toks
    proof (cases ws)
      case Nil
      then show ?thesis using stops_peek [OF EXEC.prems(2) that(2)] by simp
    next
      case (Cons v vs)
      then show ?thesis using EXEC.prems(1) peek_word [OF _ that(1), of v] by simp
    qed
    then show "\<not> peek ?s ''<>''" "\<not> peek ?s ''(''" by (simp_all add: symbols_def)
  qed
  have "parseexec (Suc m) ?s = Inr (EXEC ws, r)"
    using np sk parseredirs_none [OF np(1)] parseargs_words [of ws "[]" r] EXEC.prems by simp
  moreover have "\<not> peek r ''|''" using stops_peek [OF EXEC.prems(2)] by simp
  ultimately show ?case
    using line_of_pipe [OF pipe_of_exec EXEC.prems(2)] by (simp add: n)
next
  case (REDIR c f md fd)
  obtain m where n: "n = Suc (Suc (Suc (Suc m)))"
    using Suc_steps [of 4 n] REDIR.prems(3) by (auto simp: numeral_eq_Suc)
  obtain op where op: "redir_op md fd = Some op" using REDIR.prems(1) by auto
  have c: "valid_cmd c" "word f" using REDIR.prems(1) by auto
  have "parseline m (print_cmd c @ '')'' @ op @ f @ r) = Inr (c, '')'' @ op @ f @ r)"
    using REDIR.IH [OF c(1), of "'')'' @ op @ f @ r" m] REDIR.prems(3) op by (simp add: n stops_def)
  note B = exec_block [OF this c(1)]
  have opc: "op = ''<'' \<or> op = ''>'' \<or> op = ''>>''"
    using op by (auto simp: redir_op_def split: if_splits)
  have sk: "skip_ws (op @ f @ r) = op @ f @ r" using opc by (auto simp: chars)
  have fr: "gettoken (f @ r) = Inr (CHR ''a'', f, r)"
    using gettoken_word [OF c(2), of r] stops_skip [OF REDIR.prems(2)] REDIR.prems(2)
    by (auto simp: stops_def chars)
  have f1: "skip_ws (f @ r) = f @ r" "f @ r = [] \<or> hd (f @ r) \<noteq> CHR ''>''"
    using skip_word [OF c(2)] word_first [OF c(2)] by (auto simp: chars)
  obtain k where k: "gettoken (op @ f @ r) = Inr (k, op, f @ r)" "redir_of k c f = REDIR c f md fd"
    using opc
  proof (elim disjE)
    assume o: "op = ''<''"
    then show thesis using that [of "CHR ''<''"] f1 op
      by (auto simp: gettoken_sym redir_of_def redir_op_def O_RDONLY_def O_WRONLY_def O_CREATE_def split: if_splits)
  next
    assume o: "op = ''>''"
    then show thesis using that [of "CHR ''>''"] f1 op gettoken_gt(1) [OF f1(2)]
      by (auto simp: redir_of_def redir_op_def O_RDONLY_def O_WRONLY_def O_CREATE_def split: if_splits)
  next
    assume o: "op = ''>>''"
    then show thesis using that [of "CHR ''+''"] f1 op gettoken_gt(2) [of "f @ r"]
      by (auto simp: redir_of_def redir_op_def O_RDONLY_def O_WRONLY_def O_CREATE_def O_APPEND_def split: if_splits)
  qed
  have "peek (op @ f @ r) ''<>''" using opc by (auto simp: peek_char chars)
  moreover have "\<not> peek r ''<>''" using stops_peek [OF REDIR.prems(2)] by simp
  ultimately have "parseredirs [] (op @ f @ r) = Inr ([(k, f)], r)"
    using k fr parseredirs_none [of r] stops_skip [OF REDIR.prems(2)]
    by (subst parseredirs.simps) simp
  then have "parseexec (Suc (Suc m)) (''('' @ print_cmd c @ '')'' @ op @ f @ r) = Inr (REDIR c f md fd, r)"
    unfolding B sk by (simp add: wrap_def k)
  moreover have "\<not> peek r ''|''" using stops_peek [OF REDIR.prems(2)] by simp
  ultimately show ?case
    using line_of_pipe [OF pipe_of_exec REDIR.prems(2)] op by (simp add: n)
next
  case (PIPE a b)
  obtain m where n: "n = Suc (Suc (Suc (Suc (Suc m))))"
    using Suc_steps [of 5 n] PIPE.prems(3) by (auto simp: numeral_eq_Suc)
  let ?b = "''('' @ print_cmd b @ '')'' @ r"
  have v: "valid_cmd a" "valid_cmd b" using PIPE.prems(1) by auto
  have "parseline (Suc m) (print_cmd a @ '')'' @ ''|'' @ ?b) = Inr (a, '')'' @ ''|'' @ ?b)"
    using PIPE.IH(1) [OF v(1), of "'')'' @ ''|'' @ ?b" "Suc m"] PIPE.prems(3) by (simp add: n stops_def)
  from exec_block_plain [OF this v(1)]
  have a: "parseexec (Suc (Suc (Suc m))) (''('' @ print_cmd a @ '')'' @ ''|'' @ ?b) = Inr (a, ''|'' @ ?b)"
    by (simp add: peek_char chars)
  have "parseline m (print_cmd b @ '')'' @ r) = Inr (b, '')'' @ r)"
    using PIPE.IH(2) [OF v(2), of "'')'' @ r" m] PIPE.prems(3) by (simp add: n stops_def)
  from exec_block_plain [OF this v(2) stops_skip [OF PIPE.prems(2)] stops_peek [OF PIPE.prems(2)]]
  have b: "parsepipe (Suc (Suc (Suc m))) ?b = Inr (b, r)"
    using pipe_of_exec [of "Suc (Suc m)" ?b b r] stops_peek [OF PIPE.prems(2), of "''|''"] by simp
  have "gettoken (''|'' @ ?b) = Inr (CHR ''|'', ''|'', ?b)" by (simp add: gettoken_sym chars)
  then have "parsepipe (Suc (Suc (Suc (Suc m)))) (''('' @ print_cmd a @ '')'' @ ''|'' @ ?b) = Inr (PIPE a b, r)"
    using a b by (subst parsepipe.simps) (simp add: peek_char chars)
  then show ?case using line_of_pipe [OF _ PIPE.prems(2)] by (simp add: n)
next
  case (LIST a b)
  obtain m where n: "n = Suc (Suc (Suc (Suc (Suc m))))"
    using Suc_steps [of 5 n] LIST.prems(3) by (auto simp: numeral_eq_Suc)
  let ?b = "''('' @ print_cmd b @ '')'' @ r"
  have v: "valid_cmd a" "valid_cmd b" using LIST.prems(1) by auto
  have "parseline (Suc m) (print_cmd a @ '')'' @ '';'' @ ?b) = Inr (a, '')'' @ '';'' @ ?b)"
    using LIST.IH(1) [OF v(1), of "'')'' @ '';'' @ ?b" "Suc m"] LIST.prems(3) by (simp add: n stops_def)
  from exec_block_plain [OF this v(1)]
  have "parseexec (Suc (Suc (Suc m))) (''('' @ print_cmd a @ '')'' @ '';'' @ ?b) = Inr (a, '';'' @ ?b)"
    by (simp add: peek_char chars)
  from pipe_of_exec [OF this]
  have a: "parsepipe (Suc (Suc (Suc (Suc m)))) (''('' @ print_cmd a @ '')'' @ '';'' @ ?b) = Inr (a, '';'' @ ?b)"
    by (simp add: peek_char chars)
  have "parseline m (print_cmd b @ '')'' @ r) = Inr (b, '')'' @ r)"
    using LIST.IH(2) [OF v(2), of "'')'' @ r" m] LIST.prems(3) by (simp add: n stops_def)
  from exec_block_plain [OF this v(2) stops_skip [OF LIST.prems(2)] stops_peek [OF LIST.prems(2)]]
  have "parsepipe (Suc (Suc (Suc m))) ?b = Inr (b, r)"
    using pipe_of_exec [of "Suc (Suc m)" ?b b r] stops_peek [OF LIST.prems(2), of "''|''"] by simp
  then have b: "parseline (Suc (Suc (Suc (Suc m)))) ?b = Inr (b, r)"
    by (rule line_of_pipe [OF _ LIST.prems(2)])
  have "gettoken ('';'' @ ?b) = Inr (CHR '';'', '';'', ?b)" by (simp add: gettoken_sym chars)
  then have "parseline n (''('' @ print_cmd a @ '')'' @ '';'' @ ?b) = Inr (LIST a b, r)"
    unfolding n using a b
    by (subst parseline.simps) (simp add: peek_char chars parsebacks.simps)
  then show ?case by simp
next
  case (BACK a)
  obtain m where n: "n = Suc (Suc (Suc (Suc m)))"
    using Suc_steps [of 4 n] BACK.prems(3) by (auto simp: numeral_eq_Suc)
  have v: "valid_cmd a" using BACK.prems(1) by auto
  have "parseline m (print_cmd a @ '')'' @ ''&'' @ r) = Inr (a, '')'' @ ''&'' @ r)"
    using BACK.IH [OF v, of "'')'' @ ''&'' @ r" m] BACK.prems(3) by (simp add: n stops_def)
  from exec_block_plain [OF this v]
  have "parseexec (Suc (Suc m)) (''('' @ print_cmd a @ '')'' @ ''&'' @ r) = Inr (a, ''&'' @ r)"
    by (simp add: peek_char chars)
  from pipe_of_exec [OF this]
  have a: "parsepipe (Suc (Suc (Suc m))) (''('' @ print_cmd a @ '')'' @ ''&'' @ r) = Inr (a, ''&'' @ r)"
    by (simp add: peek_char chars)
  have "gettoken (''&'' @ r) = Inr (CHR ''&'', ''&'', r)"
    using stops_skip [OF BACK.prems(2)] by (simp add: gettoken_sym)
  moreover have "\<not> peek r ''&''" "\<not> peek r '';''" using stops_peek [OF BACK.prems(2)] by simp_all
  ultimately have "parsebacks a (''&'' @ r) = Inr (BACK a, r)"
    using stops_skip [OF BACK.prems(2)]
    by (subst parsebacks.simps) (simp add: peek_char chars parsebacks.simps [of "BACK a"])
  then show ?case using a \<open>\<not> peek r '';''\<close> by (simp add: n)
qed

section \<open>Properties\<close>

text \<open>C13: the parser is total: on every line it returns a command or reports a syntax error, and the
  bound \<open>parsecmd\<close> puts on the depth of the recursion is never what ends it.\<close>

theorem parsecmd_terminates:
  "(\<exists>c. parsecmd s = Inr c) \<or> (\<exists>msg. parsecmd s = Inl (Panic_msg msg))"
  using parsecmd_total [of s] by (cases "parsecmd s") (auto, metis perr.exhaust)

text \<open>C8: every command tree of redirections, pipes, lists, background commands and commands of
  fewer than ten words is the parse of some line, namely of its fully bracketed text.\<close>

theorem parsecmd_print:
  assumes "valid_cmd c"
  shows "parsecmd (print_cmd c) = Inr c"
  using parseline_print [OF assms, of "[]" "4 * length (print_cmd c) + 4"]
  by (simp add: parsecmd_def stops_def)

theorem parsecmd_print_witness:
  "parsecmd ''((cat a )>b)|(wc )'' =
     Inr (PIPE (REDIR (EXEC [''cat'', ''a'']) ''b'' 6 1) (EXEC [''wc'']))"
  using parsecmd_print [of "PIPE (REDIR (EXEC [''cat'', ''a'']) ''b'' 6 1) (EXEC [''wc''])"]
  by (simp add: word_def chars MAXARGS_def redir_op_def O_RDONLY_def O_WRONLY_def O_CREATE_def)

end
