(* ===== verification/Ramdisk.thy ===== *)
theory Ramdisk
  imports Prelude "HOL-Library.Monad_Syntax"
begin

text \<open>
  The memory disk, \<^verbatim>\<open>kernel/src/devices/ramdisk/ramdisk.c\<close>.  Its area is the bytes from
  \<^verbatim>\<open>start\<close> to \<^verbatim>\<open>end\<close>; offsets and counts are 32-bit, with the wrap-around written out.
  The value \<open>None\<close> stands for an access outside the area, which the C code would perform on
  whatever lies there.
\<close>

record rd =
  rd_mem :: "nat \<Rightarrow> u8"
  rd_size :: nat

definition RD_SIZE :: nat where
  "RD_SIZE = 0x400000"

text \<open>Device 1 is the image linked into the kernel, any other a fresh zeroed area.\<close>

definition rd_init :: "nat \<Rightarrow> rd \<Rightarrow> rd" where
  "rd_init dev_id initrd = (if dev_id = 1 then initrd else \<lparr>rd_mem = (\<lambda>_. 0), rd_size = RD_SIZE\<rparr>)"

definition boundary_check :: "rd \<Rightarrow> nat \<Rightarrow> nat" where
  "boundary_check d off = sub32 (rd_size d) off"

definition rd_read :: "rd \<Rightarrow> nat \<Rightarrow> nat \<Rightarrow> u8 list option" where
  "rd_read d off count =
     (let n = (if count > boundary_check d off then boundary_check d off else count)
      in if n = 0 \<or> off + n \<le> rd_size d then Some (map (rd_mem d) [off..<off + n]) else None)"

definition put :: "(nat \<Rightarrow> u8) \<Rightarrow> nat \<Rightarrow> u8 list \<Rightarrow> nat \<Rightarrow> u8" where
  "put m off bs = (\<lambda>i. if off \<le> i \<and> i < off + length bs then bs ! (i - off) else m i)"

definition rd_write :: "rd \<Rightarrow> nat \<Rightarrow> u8 list \<Rightarrow> (nat \<times> rd) option" where
  "rd_write d off bs =
     (let n = (if length bs > boundary_check d off then boundary_check d off else length bs)
      in if n = 0 \<or> off + n \<le> rd_size d
         then Some (n, d\<lparr>rd_mem := put (rd_mem d) off (take n bs)\<rparr>) else None)"

section \<open>Words on the disk\<close>

text \<open>The little-endian bytes of a 32-bit word, as the code reads and writes its fields.\<close>

definition bytes32 :: "nat \<Rightarrow> u8 list" where
  "bytes32 v = [of_nat v, of_nat (v div 2 ^ 8), of_nat (v div 2 ^ 16), of_nat (v div 2 ^ 24)]"

fun le_bytes :: "u8 list \<Rightarrow> nat" where
  "le_bytes [] = 0"
| "le_bytes (b # bs) = unat b + 2 ^ 8 * le_bytes bs"

text \<open>A read into a variable that is not set before: a short read would leave it undefined.\<close>

definition load32 :: "rd \<Rightarrow> nat \<Rightarrow> nat option" where
  "load32 d off = do {
     bs \<leftarrow> rd_read d off 4;
     if length bs = 4 then Some (le_bytes bs) else None}"

definition store32 :: "rd \<Rightarrow> nat \<Rightarrow> nat \<Rightarrow> rd option" where
  "store32 d off v = map_option snd (rd_write d off (bytes32 v))"

lemma le_bytes32: "le_bytes (bytes32 v) = v mod 2 ^ 32"
proof -
  have "v mod 2 ^ 32 = v mod 2^8 + 2^8 * ((v div 2^8) mod 2^8 + 2^8 * ((v div 2^16) mod 2^8 + 2^8 * ((v div 2^24) mod 2^8)))"
    using mod_mult2_eq [of v "2^8" "2^24"] mod_mult2_eq [of "v div 2^8" "2^8" "2^16"]
      mod_mult2_eq [of "v div 2^16" "2^8" "2^8"]
    by (simp add: div_mult2_eq [symmetric] flip: power_add)
  then show ?thesis by (simp add: bytes32_def unsigned_of_nat take_bit_eq_mod)
qed

lemma length_bytes32 [simp]: "length (bytes32 v) = 4"
  by (simp add: bytes32_def)

lemma le_bytes_less: "le_bytes bs < 2 ^ (8 * length bs)"
proof (induction bs)
  case (Cons b bs)
  have "unat b < 2 ^ 8" using unsigned_less [of b] by simp
  then have "unat b + 2 ^ 8 * le_bytes bs < 2 ^ 8 * Suc (le_bytes bs)" by simp
  also have "\<dots> \<le> 2 ^ 8 * 2 ^ (8 * length bs)" using Cons by (intro mult_left_mono) auto
  finally show ?case by (simp add: power_add)
qed simp

section \<open>Accesses inside the area\<close>

text \<open>A disk of at most 4 GiB, as every area of the 32-bit machine is.\<close>

definition fits :: "rd \<Rightarrow> nat \<Rightarrow> nat \<Rightarrow> bool" where
  "fits d off n \<longleftrightarrow> off + n \<le> rd_size d \<and> rd_size d < 2 ^ 32"

definition get32 :: "rd \<Rightarrow> nat \<Rightarrow> nat" where
  "get32 d off = le_bytes (map (rd_mem d) [off..<off + 4])"

abbreviation writes :: "rd \<Rightarrow> nat \<Rightarrow> u8 list \<Rightarrow> rd" where
  "writes d off bs \<equiv> d\<lparr>rd_mem := put (rd_mem d) off bs\<rparr>"

lemma boundary_inside: "fits d off n \<Longrightarrow> boundary_check d off = rd_size d - off"
  by (simp add: boundary_check_def fits_def sub32_eq)

lemma rd_read_fits: "fits d off n \<Longrightarrow> rd_read d off n = Some (map (rd_mem d) [off..<off + n])"
  by (auto simp: rd_read_def boundary_inside Let_def fits_def)

lemma rd_write_fits: "fits d off (length bs) \<Longrightarrow> rd_write d off bs = Some (length bs, writes d off bs)"
  by (auto simp: rd_write_def boundary_inside Let_def fits_def)

lemma load32_fits: "fits d off 4 \<Longrightarrow> load32 d off = Some (get32 d off)"
  by (simp add: load32_def rd_read_fits get32_def)

lemma store32_fits: "fits d off 4 \<Longrightarrow> store32 d off v = Some (writes d off (bytes32 v))"
  by (simp add: store32_def rd_write_fits)

lemma fits_writes [simp]: "fits (d\<lparr>rd_mem := m\<rparr>) off n = fits d off n"
  by (simp add: fits_def)

lemma fits_mono: "fits d off n \<Longrightarrow> off \<le> off' \<Longrightarrow> off' + n' \<le> off + n \<Longrightarrow> fits d off' n'"
  by (auto simp: fits_def)

lemma put_inside: "map (put m off bs) [off..<off + length bs] = bs"
  by (rule nth_equalityI) (auto simp: put_def)

lemma put_outside: "a + n \<le> off \<or> off + length bs \<le> a \<Longrightarrow> map (put m off bs) [a..<a + n] = map m [a..<a + n]"
  by (auto simp: put_def)

lemma get32_write_same: "v < 2 ^ 32 \<Longrightarrow> get32 (writes d off (bytes32 v)) off = v"
  using put_inside [of "rd_mem d" off "bytes32 v"] by (simp add: get32_def le_bytes32)

lemma get32_write_other:
  "a + 4 \<le> off \<or> off + length bs \<le> a \<Longrightarrow> get32 (writes d off bs) a = get32 d a"
  unfolding get32_def by (rule arg_cong [of _ _ le_bytes]) (use put_outside [of a 4 off bs] in simp)

lemma get32_less: "get32 d a < 2 ^ 32"
  using le_bytes_less [of "map (rd_mem d) [a..<a + 4]"] by (simp add: get32_def)

text \<open>C20: what is written to the memory disk is read back unchanged and no other byte of it changes;
  a transfer that starts inside the area is cut at its end and its length is reported.\<close>

theorem ramdisk_storage:
  assumes "off \<le> rd_size d" "rd_size d < 2 ^ 32"
  shows "\<exists>n d'. rd_write d off bs = Some (n, d') \<and> n = min (length bs) (rd_size d - off) \<and>
           rd_size d' = rd_size d \<and> rd_read d' off (length bs) = Some (take n bs) \<and>
           (\<forall>i. i < off \<or> off + n \<le> i \<longrightarrow> rd_mem d' i = rd_mem d i)"
proof -
  define n where "n = min (length bs) (rd_size d - off)"
  have b: "boundary_check d' off = rd_size d - off" if "rd_size d' = rd_size d" for d'
    using assms that by (simp add: boundary_check_def sub32_eq)
  have "rd_write d off bs = Some (n, writes d off (take n bs))"
    using assms by (auto simp: rd_write_def b Let_def n_def)
  moreover have "rd_read (writes d off (take n bs)) off (length bs) = Some (take n bs)"
    using assms put_inside [of "rd_mem d" off "take n bs"]
    by (auto simp: rd_read_def b Let_def n_def min_def split: if_splits)
  ultimately show ?thesis
    by (auto simp: n_def put_def)
qed

theorem ramdisk_storage_witness:
  "\<exists>n d'. rd_write \<lparr>rd_mem = (\<lambda>_. 0), rd_size = 10\<rparr> 8 [1, 2, 3] = Some (n, d') \<and> n = 2 \<and>
     rd_read d' 8 3 = Some [1, 2]"
proof -
  have "length [1, 2, 3 :: u8] = 3" by simp
  then show ?thesis
    using ramdisk_storage [of 8 "\<lparr>rd_mem = (\<lambda>_. 0), rd_size = 10\<rparr>" "[1, 2, 3]"]
    by (auto simp del: list.size)
qed

end
