(* ===== verification/Yls.thy ===== *)
theory Yls
  imports Ramdisk
begin

text \<open>
  The block layer of the file system, \<^verbatim>\<open>kernel/src/yls/string.c\<close> and \<^verbatim>\<open>yls.c\<close>: a bitmap of
  512 blocks at offset 0, 60 inodes of 16 bytes from \<^verbatim>\<open>INODE_START\<close>, and blocks of 124 bytes
  followed by the offset of the next block.  \<open>None\<close> is a call that does not return properly:
  an access outside the disk, the use of a variable no read has set, a failed \<^verbatim>\<open>TODO()\<close>
  assertion or a loop that never ends.
\<close>

definition INODE_START :: nat where "INODE_START = 0x40"
definition INODE_END :: nat where "INODE_END = 0x400"
definition YLS_DIR :: nat where "YLS_DIR = 0"
definition YLS_FILE :: nat where "YLS_FILE = 1"
definition YLS_WIPE :: nat where "YLS_WIPE = 0x3f3f3f3f"
definition BLK_MEM :: nat where "BLK_MEM = 0x7c"
definition BLK_SZ :: nat where "BLK_SZ = 0x80"

text \<open>\<^verbatim>\<open>strncmp\<close> of the bytes read so far against a string, whose terminator is implied.\<close>

fun cmp_name :: "nat \<Rightarrow> u8 list \<Rightarrow> u8 list \<Rightarrow> int option" where
  "cmp_name 0 buf s = Some 0"
| "cmp_name (Suc n) [] s = None"
| "cmp_name (Suc n) (b # buf) s =
     (let c = (case s of [] \<Rightarrow> 0 | c # _ \<Rightarrow> c)
      in if n > 0 \<and> b = c \<and> b \<noteq> 0 then cmp_name n buf (tl s) else Some (sint b - sint c))"

text \<open>The continuation blocks of a name are read and compared, but the result is dropped.\<close>

partial_function (option) cmp_rest :: "rd \<Rightarrow> nat \<Rightarrow> int option" where
  "cmp_rest d off =
     (if off = 0 then Some 0
      else do {
        _ \<leftarrow> rd_read d off BLK_MEM;
        off' \<leftarrow> load32 d (add32 off BLK_MEM);
        cmp_rest d off'})"

definition block_cmp :: "rd \<Rightarrow> nat \<Rightarrow> u8 list \<Rightarrow> int option" where
  "block_cmp d off s = do {
     buf \<leftarrow> rd_read d (add32 off 4) 80;
     ret \<leftarrow> cmp_name (BLK_SZ - 8) buf s;
     if ret \<noteq> 0 then Some ret
     else do {
       off' \<leftarrow> load32 d (add32 off BLK_MEM);
       cmp_rest d off'}}"

text \<open>
  \<^verbatim>\<open>find_block\<close> updates the offset inside the file and the block; a short read leaves the bytes of
  \<^verbatim>\<open>*off\<close> it did not reach.
\<close>

function find_block :: "rd \<Rightarrow> nat \<Rightarrow> nat \<Rightarrow> (int \<times> nat \<times> nat) option" where
  "find_block d fd_off off =
     (if fd_off > BLK_MEM then do {
        bs \<leftarrow> rd_read d (add32 off BLK_MEM) 4;
        let off' = le_bytes (bs @ drop (length bs) (bytes32 off));
        if length bs \<noteq> 4 then Some (- 1, fd_off, off')
        else find_block d (fd_off - BLK_MEM) off'}
      else Some (0, fd_off, off))"
  by pat_completeness auto
termination
  by (relation "measure (\<lambda>(d, fd_off, off). fd_off)") (auto simp: BLK_MEM_def)

declare find_block.simps [simp del]

text \<open>The returned count and the bytes stored into the caller's buffer, which may be more.\<close>

partial_function (option) block_read_loop :: "rd \<Rightarrow> nat \<Rightarrow> nat \<Rightarrow> nat \<Rightarrow> u8 list \<Rightarrow> (nat \<times> u8 list) option" where
  "block_read_loop d off nbyte rest s =
     (if rest > 0 then do {
        let to_read = min (sub32 BLK_MEM (off mod BLK_SZ)) rest;
        bs \<leftarrow> rd_read d off to_read;
        if length bs \<noteq> to_read then Some (nbyte - rest, s @ bs)
        else do {
          nx \<leftarrow> rd_read d (add32 off BLK_MEM) 4;
          let off' = le_bytes (nx @ drop (length nx) (bytes32 off));
          if length nx \<noteq> 4 \<or> off' = 0 then Some (nbyte - (rest - to_read), s @ bs)
          else block_read_loop d off' nbyte (rest - to_read) (s @ bs)}}
      else Some (nbyte, s))"

definition block_read :: "rd \<Rightarrow> nat \<Rightarrow> nat \<Rightarrow> nat \<Rightarrow> (nat \<times> u8 list) option" where
  "block_read d off shift nbyte = do {
     (_, shift', off') \<leftarrow> find_block d shift off;
     block_read_loop d (add32 off' shift') nbyte nbyte []}"

section \<open>Allocation\<close>

definition free_bit :: "u8 \<Rightarrow> nat option" where
  "free_bit b = find (\<lambda>j. \<not> bit b j) [0..<8]"

fun scan_bitmap :: "nat \<Rightarrow> u8 list \<Rightarrow> (nat \<times> nat) option" where
  "scan_bitmap i [] = None"
| "scan_bitmap i (b # bs) =
     (if b = 0xff then scan_bitmap (Suc i) bs
      else (case free_bit b of Some j \<Rightarrow> Some (i, j) | None \<Rightarrow> scan_bitmap (Suc i) bs))"

definition new_block :: "rd \<Rightarrow> (nat \<times> rd) option" where
  "new_block d = do {
     avail \<leftarrow> rd_read d 0 0x40;
     if length avail \<noteq> 0x40 then None
     else
       (case scan_bitmap 0 avail of
          None \<Rightarrow> Some (0, d)
        | Some (i, j) \<Rightarrow> do {
            (_, d') \<leftarrow> rd_write d i [set_bit j (avail ! i)];
            Some ((8 * i + j) * 0x80, d')})}"

text \<open>The loop has no upper bound: past \<^verbatim>\<open>INODE_END\<close> it goes on through the data blocks.\<close>

partial_function (option) new_inode_from :: "rd \<Rightarrow> nat \<Rightarrow> (nat \<times> rd) option" where
  "new_inode_from d off = do {
     buf \<leftarrow> load32 d off;
     if buf = 0 then do {
       d' \<leftarrow> store32 d off 1;
       Some (off, d')}
     else new_inode_from d (add32 off 0x10)}"

definition new_inode :: "rd \<Rightarrow> (nat \<times> rd) option" where
  "new_inode d = new_inode_from d INODE_START"

text \<open>Both searches give up with \<^verbatim>\<open>TODO()\<close> at the end of the block.\<close>

partial_function (option) find_end :: "rd \<Rightarrow> nat \<Rightarrow> nat option" where
  "find_end d off = do {
     w \<leftarrow> load32 d off;
     if w = 0 then Some off
     else let off' = add32 off 4 in if off' mod BLK_SZ \<noteq> BLK_MEM then find_end d off' else None}"

partial_function (option) find_empty :: "rd \<Rightarrow> nat \<Rightarrow> nat option" where
  "find_empty d off = do {
     w \<leftarrow> load32 d off;
     if w = 0 \<or> w = YLS_WIPE then Some off
     else let off' = add32 off 4 in if off' mod BLK_SZ \<noteq> BLK_MEM then find_empty d off' else None}"

section \<open>Writing\<close>

text \<open>The next block of the file, linked to a new one when there is none; and the test the code makes.\<close>

definition next_or_new :: "rd \<Rightarrow> nat \<Rightarrow> (nat \<times> rd \<times> bool) option" where
  "next_or_new d off = do {
     nx \<leftarrow> rd_read d off 4;
     let old = le_bytes (nx @ drop (length nx) (bytes32 0));
     if length nx \<noteq> 4 \<or> old = 0 then do {
       (b, da) \<leftarrow> new_block d;
       db \<leftarrow> store32 da off b;
       Some (b, db, off = 0)}
     else Some (old, d, False)}"

partial_function (option) block_write_loop :: "rd \<Rightarrow> nat \<Rightarrow> nat \<Rightarrow> u8 list \<Rightarrow> (nat \<times> rd) option" where
  "block_write_loop d off nbyte s =
     (if s = [] then Some (nbyte, d)
      else do {
        (new_off, d1, full) \<leftarrow> next_or_new d off;
        if full then Some (nbyte - length s, d1)
        else do {
          let to_write = min BLK_MEM (length s);
          (k, d2) \<leftarrow> rd_write d1 new_off (take to_write s);
          if k \<noteq> to_write then Some (nbyte - length s, d2)
          else block_write_loop d2 (add32 new_off to_write) nbyte (drop to_write s)}})"

definition block_write :: "rd \<Rightarrow> nat \<Rightarrow> nat \<Rightarrow> u8 list \<Rightarrow> (nat \<times> rd) option" where
  "block_write d off shift s = do {
     (_, shift', off') \<leftarrow> find_block d shift off;
     let p = add32 off' shift';
     let to_write = min (sub32 BLK_MEM (p mod BLK_SZ)) (length s);
     (k, d1) \<leftarrow> rd_write d p (take to_write s);
     if k \<noteq> to_write then Some (0, d1)
     else block_write_loop d1 (add32 p to_write) (length s) (drop to_write s)}"

definition block_len :: "rd \<Rightarrow> nat \<Rightarrow> nat option" where
  "block_len d off = do {
     buf \<leftarrow> rd_read d off (BLK_MEM - 4);
     if length buf \<noteq> BLK_MEM - 4 then None
     else
       let ret = length (takeWhile (\<lambda>b. b \<noteq> 0) buf) in
       if ret = BLK_MEM - 4 then None else Some ret}"

section \<open>Formatting a disk\<close>

record yls_node =
  refcnt :: nat
  info :: nat
  node_size :: nat
  node_type :: nat

definition node_bytes :: "yls_node \<Rightarrow> u8 list" where
  "node_bytes n = bytes32 (refcnt n) @ bytes32 (info n) @ bytes32 (node_size n) @ bytes32 (node_type n)"

definition yls_init :: "rd \<Rightarrow> rd option" where
  "yls_init d = do {
     let root_inode = \<lparr>refcnt = 1, info = 0x480, node_size = 8, node_type = YLS_DIR\<rparr>;
     (_, d1) \<leftarrow> rd_write d 0x40 (node_bytes root_inode);
     (_, d2) \<leftarrow> rd_write d1 0x400 (0x2f # replicate 127 0);
     let i0 = rd_size d div 0x80 div 8;
     let bitmap = map (\<lambda>i. if i = 0 \<or> i0 \<le> i then 0xff else 0) [0..<0x40];
     (_, d3) \<leftarrow> rd_write d2 0 bitmap;
     Some d3}"

end
