(* ===== verification/Blkfs.thy ===== *)
theory Blkfs
  imports Yls Dir
begin

text \<open>
  The file system on a block device, \<^verbatim>\<open>kernel/src/fs/blkfs.c\<close>, with the \<^verbatim>\<open>check\<close> macro of
  \<^verbatim>\<open>kernel/include/fs.h\<close>.  Inodes are named by the table they lie in and their index there;
  \<open>None\<close> is a call that does not return properly, as in the block layer.
\<close>

section \<open>Inodes and open files\<close>

definition has_flag :: "nat \<Rightarrow> nat \<Rightarrow> bool" where
  "has_flag flags f \<longleftrightarrow> odd (flags div f)"

definition EISDIR :: int where "EISDIR = - 1"

text \<open>
  The inodes of the block file systems, the root and the devices of devfs, the root of procfs and
  its table (three inodes for each of the 64 tasks, then the other files).
\<close>

datatype inode = BlkI nat nat | DevRootI | DevI nat | ProcRootI | ProcI nat

record vfile =
  offset :: nat
  file_inode :: inode
  file_refcnt :: int
  file_flags :: nat
  file_lk :: bool

record blkfs =
  dev :: rd
  nodes :: "yls_node list"

definition NODES :: nat where
  "NODES = (INODE_END - INODE_START) div 0x10"

text \<open>\<^verbatim>\<open>file->inode - fs->inodes\<close> is meaningful only for an inode of the same table.\<close>

definition get_id :: "nat \<Rightarrow> inode \<Rightarrow> nat option" where
  "get_id k a = (case a of BlkI k' i \<Rightarrow> if k' = k then Some i else None | _ \<Rightarrow> None)"

definition node_at :: "blkfs \<Rightarrow> nat \<Rightarrow> yls_node option" where
  "node_at fs n = (if n < length (nodes fs) then Some (nodes fs ! n) else None)"

fun read_node :: "u8 list \<Rightarrow> yls_node" where
  "read_node bs = \<lparr>refcnt = le_bytes (take 4 bs), info = le_bytes (take 4 (drop 4 bs)),
     node_size = le_bytes (take 4 (drop 8 bs)), node_type = le_bytes (take 4 (drop 12 bs))\<rparr>"

primrec load_nodes :: "rd \<Rightarrow> nat \<Rightarrow> yls_node list option" where
  "load_nodes d 0 = Some []"
| "load_nodes d (Suc i) = do {
     ns \<leftarrow> load_nodes d i;
     bs \<leftarrow> rd_read d (INODE_START + i * 0x10) 0x10;
     if length bs = 0x10 then Some (ns @ [read_node bs]) else None}"

definition blkfs_init :: "rd \<Rightarrow> blkfs option" where
  "blkfs_init d = do {
     check \<leftarrow> load32 d 0;
     d' \<leftarrow> (if check mod 0x100 < 0xff then yls_init d else Some d);
     ns \<leftarrow> load_nodes d' NODES;
     Some \<lparr>dev = d', nodes = ns\<rparr>}"

section \<open>Operations on an open file\<close>

text \<open>\<open>k\<close> is the file system, \<open>n\<close> the node the inode points to.\<close>

definition update_size :: "nat \<Rightarrow> blkfs \<Rightarrow> vfile \<Rightarrow> nat \<Rightarrow> nat \<Rightarrow> blkfs option" where
  "update_size k fs file n newsize = do {
     i \<leftarrow> get_id k (file_inode file);
     nd \<leftarrow> node_at fs n;
     d \<leftarrow> store32 (dev fs) (INODE_START + i * 0x10 + 8) newsize;
     Some \<lparr>dev = d, nodes = (nodes fs)[n := nd\<lparr>node_size := newsize\<rparr>]\<rparr>}"

definition blkfs_iopen :: "nat \<Rightarrow> blkfs \<Rightarrow> vfile \<Rightarrow> nat \<Rightarrow> nat \<Rightarrow> (blkfs \<times> vfile) option" where
  "blkfs_iopen k fs file n flags = do {
     nd \<leftarrow> node_at fs n;
     let file' = file\<lparr>offset := (if node_type nd = YLS_DIR then 4 else 0)\<rparr>;
     fs' \<leftarrow> (if node_type nd \<noteq> YLS_DIR \<and> has_flag flags O_WRONLY \<and> \<not> has_flag flags O_RDONLY \<and>
                \<not> has_flag flags O_APPEND
             then update_size k fs file' n 0 else Some fs);
     Some (fs', file'\<lparr>file_flags := flags, file_refcnt := 1, file_lk := False\<rparr>)}"

text \<open>The last close returns with the lock still taken.\<close>

definition blkfs_iclose :: "vfile \<Rightarrow> vfile option" where
  "blkfs_iclose file =
     (if file_lk file then None
      else let c = file_refcnt file - 1
           in Some (if c = 0 then file\<lparr>file_lk := True, file_refcnt := c\<rparr> else file\<lparr>file_refcnt := c\<rparr>))"

text \<open>The result and the bytes put into the caller's buffer.\<close>

definition blkfs_iread :: "blkfs \<Rightarrow> vfile \<Rightarrow> nat \<Rightarrow> nat \<Rightarrow> (int \<times> u8 list \<times> vfile) option" where
  "blkfs_iread fs file n sz = do {
     nd \<leftarrow> node_at fs n;
     let fd_off = offset file;
     let fsize = node_size nd;
     if node_type nd = YLS_DIR then Some (EISDIR, [], file)
     else if node_type nd = YLS_FILE then
       (if fd_off > sz then Some (0, [], file)
        else do {
          let size' = (if add32 sz fd_off > fsize then sub32 fsize fd_off else sz);
          (nread, bs) \<leftarrow> block_read (dev fs) (info nd) fd_off size';
          Some (int nread, bs, file\<lparr>offset := add32 fd_off nread\<rparr>)})
     else None}"

text \<open>The name of the next entry that is not wiped.\<close>

partial_function (option) next_entry :: "rd \<Rightarrow> nat \<Rightarrow> nat \<Rightarrow> (nat \<times> nat) option" where
  "next_entry d off fd_off = do {
     (c, bs) \<leftarrow> block_read d off fd_off 4;
     if c \<noteq> 4 \<or> le_bytes bs = 0 then Some (0, fd_off)
     else if le_bytes bs = YLS_WIPE then next_entry d off (add32 fd_off 4)
     else Some (le_bytes bs, add32 fd_off 4)}"

definition blkfs_ireaddir :: "blkfs \<Rightarrow> vfile \<Rightarrow> nat \<Rightarrow> nat \<Rightarrow> (int \<times> u8 list \<times> vfile) option" where
  "blkfs_ireaddir fs file n sz = do {
     nd \<leftarrow> node_at fs n;
     if node_type nd = YLS_DIR then do {
       (blk, fd_off) \<leftarrow> next_entry (dev fs) (info nd) (offset file);
       if blk = 0 then Some (0, [], file\<lparr>offset := fd_off\<rparr>)
       else do {
         (nread, bs) \<leftarrow> block_read (dev fs) blk 4 sz;
         Some (int nread, bs, file\<lparr>offset := fd_off\<rparr>)}}
     else None}"

definition blkfs_ilseek :: "blkfs \<Rightarrow> vfile \<Rightarrow> nat \<Rightarrow> nat \<Rightarrow> nat \<Rightarrow> vfile option" where
  "blkfs_ilseek fs file n off whence =
     (if whence = 0 then Some (file\<lparr>offset := off\<rparr>)
      else if whence = 1 then Some (file\<lparr>offset := add32 (offset file) off\<rparr>)
      else if whence = 2 then do {
        nd \<leftarrow> node_at fs n;
        Some (file\<lparr>offset := add32 off (node_size nd)\<rparr>)}
      else None)"

definition blkfs_iwrite :: "nat \<Rightarrow> blkfs \<Rightarrow> vfile \<Rightarrow> nat \<Rightarrow> u8 list \<Rightarrow> (int \<times> blkfs \<times> vfile) option" where
  "blkfs_iwrite k fs file n buf = do {
     file1 \<leftarrow> (if has_flag (file_flags file) O_APPEND then blkfs_ilseek fs file n 0 2 else Some file);
     let fd_off = offset file1;
     nd \<leftarrow> node_at fs n;
     let fsize = node_size nd;
     (off, fs1) \<leftarrow>
       (if info nd = 0 \<and> fsize = 0 then do {
          (b, d) \<leftarrow> new_block (dev fs);
          Some (b, \<lparr>dev = d, nodes = (nodes fs)[n := nd\<lparr>info := b\<rparr>]\<rparr>)}
        else Some (info nd, fs));
     if node_type nd = YLS_DIR then Some (EISDIR, fs1, file1)
     else if node_type nd = YLS_FILE then do {
       (nwrite, d) \<leftarrow> block_write (dev fs1) off fd_off buf;
       let fs2 = fs1\<lparr>dev := d\<rparr>;
       let file2 = file1\<lparr>offset := add32 fd_off nwrite\<rparr>;
       fs3 \<leftarrow> (if offset file2 > fsize then update_size k fs2 file2 n (offset file2) else Some fs2);
       Some (int nwrite, fs3, file2)}
     else None}"

section \<open>Directories\<close>

definition bytes_of :: "string \<Rightarrow> u8 list" where
  "bytes_of s = map of_char s"

text \<open>
  The loop shared by \<^verbatim>\<open>find\<close>, \<^verbatim>\<open>rmdir\<close> and \<^verbatim>\<open>unlink\<close>: it ends at an empty slot, at the slot of an
  entry with the name, or, when a full block has no successor, with the offset 0.
\<close>

datatype scan = At_end nat | Match nat nat | Exhausted

partial_function (option) scan_dir :: "rd \<Rightarrow> u8 list \<Rightarrow> nat \<Rightarrow> scan option" where
  "scan_dir d name off =
     (if off = 0 then Some Exhausted
      else do {
        bs \<leftarrow> rd_read d off 4;
        if length bs \<noteq> 4 \<or> le_bytes bs = 0 then Some (At_end off)
        else do {
          c \<leftarrow> (if le_bytes bs = YLS_WIPE then Some 1 else block_cmp d (le_bytes bs) name);
          if c \<noteq> 0 then do {
            let off' = add32 off 4;
            if off' mod BLK_SZ = BLK_MEM then do {
              nx \<leftarrow> rd_read d off' 4;
              scan_dir d name (le_bytes (nx @ drop (length nx) (bytes32 off')))}
            else scan_dir d name off'}
          else Some (Match off (le_bytes bs))}})"

text \<open>The result of a removal: 0, or -1 with the warning given.\<close>

datatype removal = Removed | Refused string

definition remove_entry :: "(nat \<Rightarrow> bool) \<Rightarrow> string \<Rightarrow> blkfs \<Rightarrow> nat \<Rightarrow> string \<Rightarrow> (removal \<times> blkfs) option" where
  "remove_entry wrong_type msg fs n name =
     (if char_at name 0 = CHR ''.'' then Some (Refused [], fs)
      else do {
        nd \<leftarrow> node_at fs n;
        r \<leftarrow> scan_dir (dev fs) (bytes_of name) (add32 (info nd) 4);
        (case r of
           At_end _ \<Rightarrow> Some (Refused ''No such file or directory'', fs)
         | Exhausted \<Rightarrow> Some (Refused [], fs)
         | Match off blk \<Rightarrow> do {
             i \<leftarrow> load32 (dev fs) blk;
             ty \<leftarrow> load32 (dev fs) (add32 INODE_START (add32 (i * 0x10) 12));
             if wrong_type ty then Some (Refused msg, fs)
             else do {
               d \<leftarrow> store32 (dev fs) off YLS_WIPE;
               Some (Removed, fs\<lparr>dev := d\<rparr>)}})})"

definition blkfs_irmdir :: "blkfs \<Rightarrow> nat \<Rightarrow> string \<Rightarrow> (removal \<times> blkfs) option" where
  "blkfs_irmdir = remove_entry (\<lambda>ty. ty \<noteq> YLS_DIR) ''Not a directory!''"

definition blkfs_iunlink :: "blkfs \<Rightarrow> nat \<Rightarrow> string \<Rightarrow> (removal \<times> blkfs) option" where
  "blkfs_iunlink = remove_entry (\<lambda>ty. ty = YLS_DIR) ''It's a directory!''"

definition add_inode :: "blkfs \<Rightarrow> nat \<Rightarrow> yls_node \<Rightarrow> blkfs option" where
  "add_inode fs i nd = do {
     _ \<leftarrow> node_at fs i;
     (_, d) \<leftarrow> rd_write (dev fs) (INODE_START + i * 0x10) (node_bytes nd);
     Some \<lparr>dev = d, nodes = (nodes fs)[i := nd]\<rparr>}"

text \<open>The part \<^verbatim>\<open>new_direc\<close> and \<^verbatim>\<open>new_file\<close> share; the results are the inode and its block.\<close>

definition new_entry :: "nat \<Rightarrow> blkfs \<Rightarrow> nat \<Rightarrow> string \<Rightarrow> (nat \<times> nat \<times> blkfs) option" where
  "new_entry ty fs slot filename = do {
     (off, d1) \<leftarrow> new_block (dev fs);
     (inode, d2) \<leftarrow> new_inode d1;
     (blk, d3) \<leftarrow> new_block d2;
     d4 \<leftarrow> store32 d3 slot off;
     let i = (inode - INODE_START) div 0x10;
     fs5 \<leftarrow> add_inode (fs\<lparr>dev := d4\<rparr>) i \<lparr>refcnt = 1, info = blk, node_size = 0, node_type = ty\<rparr>;
     d6 \<leftarrow> store32 (dev fs5) off i;
     (_, d7) \<leftarrow> rd_write d6 (add32 off 4) (bytes_of filename);
     Some (i, blk, fs5\<lparr>dev := d7\<rparr>)}"

definition new_file :: "blkfs \<Rightarrow> nat \<Rightarrow> string \<Rightarrow> (nat \<times> blkfs) option" where
  "new_file fs slot filename = do {
     (i, _, fs') \<leftarrow> new_entry YLS_FILE fs slot filename;
     Some (i, fs')}"

definition new_direc :: "nat \<Rightarrow> blkfs \<Rightarrow> inode \<Rightarrow> nat \<Rightarrow> string \<Rightarrow> (nat \<times> blkfs) option" where
  "new_direc k fs cur slot filename = do {
     (i, blk, fs') \<leftarrow> new_entry YLS_DIR fs slot filename;
     parent \<leftarrow> get_id k cur;
     d \<leftarrow> store32 (dev fs') blk parent;
     Some (i, fs'\<lparr>dev := d\<rparr>)}"

definition is_dir :: "blkfs \<Rightarrow> nat \<Rightarrow> bool option" where
  "is_dir fs n = do {
     nd \<leftarrow> node_at fs n;
     Some (node_type nd = YLS_DIR)}"

section \<open>Lookup, one layer at a time\<close>

text \<open>
  A \<^verbatim>\<open>find\<close> ends with an inode or with a warning, or goes on from another inode with the rest of the
  path.  The macro \<^verbatim>\<open>check\<close> either ends it or strips the slashes in front of the path.
\<close>

datatype found = Found inode | Missing string | Next inode string

definition check :: "bool \<Rightarrow> inode \<Rightarrow> string \<Rightarrow> nat \<Rightarrow> found + string" where
  "check dir cur path flags =
     (let path' = dropWhile (\<lambda>c. c = CHR ''/'') path
      in if char_at path 0 = CHR ''/'' \<and> \<not> dir then Inl (Missing ''Not a directory'')
         else if path' = [] then
           (if has_flag flags O_DIRECTORY \<and> \<not> dir then Inl (Missing ''Not a directory'') else Inl (Found cur))
         else Inr path')"

definition blkfs_ifind :: "nat \<Rightarrow> inode \<Rightarrow> blkfs \<Rightarrow> inode \<Rightarrow> nat \<Rightarrow> string \<Rightarrow> nat \<Rightarrow> (found \<times> blkfs) option" where
  "blkfs_ifind k root_parent fs cur n path0 flags = do {
     nd \<leftarrow> node_at fs n;
     (case check (node_type nd = YLS_DIR) cur path0 flags of
        Inl r \<Rightarrow> Some (r, fs)
      | Inr path \<Rightarrow>
          if char_at path 0 = CHR ''.'' then
            (if char_at path 1 = CHR ''.'' then do {
               next \<leftarrow> (if cur = BlkI k 0 then Some root_parent
                        else map_option (BlkI k) (load32 (dev fs) (info nd)));
               Some (Next next (drop 2 path), fs)}
             else Some (Next cur (drop 1 path), fs))
          else do {
            let len = get_first_layer path;
            if len \<ge> 0x100 then None
            else do {
              r \<leftarrow> scan_dir (dev fs) (bytes_of (take len path)) (add32 (info nd) 4);
              (case r of
                 Exhausted \<Rightarrow> None
               | At_end off \<Rightarrow>
                   if has_flag flags O_CREATE \<and> len = length path then
                     (if has_flag flags O_DIRECTORY
                      then map_option (\<lambda>(i, fs'). (Found (BlkI k i), fs')) (new_direc k fs cur off path)
                      else map_option (\<lambda>(i, fs'). (Found (BlkI k i), fs')) (new_file fs off path))
                   else Some (Missing ''No such file or directory'', fs)
               | Match _ blk \<Rightarrow> do {
                   i \<leftarrow> load32 (dev fs) blk;
                   Some (Next (BlkI k i) (drop len path), fs)})}})}"

definition blkfs_ilink :: "nat \<Rightarrow> blkfs \<Rightarrow> nat \<Rightarrow> string \<Rightarrow> inode \<Rightarrow> blkfs option" where
  "blkfs_ilink k fs n name target = do {
     nd \<leftarrow> node_at fs n;
     (off, d1) \<leftarrow> new_block (dev fs);
     i \<leftarrow> get_id k target;
     slot \<leftarrow> find_empty d1 (add32 (info nd) 4);
     d2 \<leftarrow> store32 d1 slot off;
     d3 \<leftarrow> store32 d2 off i;
     (_, d4) \<leftarrow> rd_write d3 (add32 off 4) (bytes_of name);
     Some (fs\<lparr>dev := d4\<rparr>)}"

end
