(* ===== verification/Devfs.thy ===== *)
theory Devfs
  imports Blkfs
begin

text \<open>
  The device table (\<^verbatim>\<open>kernel/src/devices/dev.c\<close>), the two virtual devices
  (\<^verbatim>\<open>devices/virtual/null.c\<close>, \<^verbatim>\<open>zero.c\<close>) and the file system of the devices
  (\<^verbatim>\<open>kernel/src/fs/devfs.c\<close>).  Reads and writes of a device are arguments.
\<close>

section \<open>Devices\<close>

definition devices :: "string list" where
  "devices = [''ramdisk0'', ''ramdisk1'', ''input'', ''fb'', ''tty1'', ''tty2'', ''tty3'', ''tty4'', ''null'', ''zero'']"

definition devices_cnt :: nat where
  "devices_cnt = length devices"

text \<open>An unknown name is a panic.\<close>

fun dev_index :: "string list \<Rightarrow> string \<Rightarrow> nat option" where
  "dev_index [] name = None"
| "dev_index (d # ds) name = (if d = name then Some 0 else map_option Suc (dev_index ds name))"

definition dev_lookup :: "string \<Rightarrow> nat result" where
  "dev_lookup name = (case dev_index devices name of None \<Rightarrow> Inl Panic | Some i \<Rightarrow> Inr i)"

definition null_read :: "nat \<Rightarrow> nat \<Rightarrow> nat \<times> u8 list" where
  "null_read off count = (0, [])"

definition null_write :: "nat \<Rightarrow> u8 list \<Rightarrow> nat" where
  "null_write off buf = length buf"

definition zero_read :: "nat \<Rightarrow> nat \<Rightarrow> nat \<times> u8 list" where
  "zero_read off count = (count, replicate count 0)"

definition zero_write :: "nat \<Rightarrow> u8 list \<Rightarrow> nat" where
  "zero_write off buf = length buf"

section \<open>Operations of devfs\<close>

record 'd devops =
  dread :: "nat \<Rightarrow> 'd \<Rightarrow> nat \<Rightarrow> nat \<Rightarrow> (int \<times> u8 list \<times> 'd) option"
  dwrite :: "nat \<Rightarrow> 'd \<Rightarrow> nat \<Rightarrow> u8 list \<Rightarrow> (int \<times> 'd) option"

definition devfs_iopen :: "vfile \<Rightarrow> nat \<Rightarrow> vfile" where
  "devfs_iopen file flags = file\<lparr>offset := 0, file_flags := flags, file_refcnt := 1, file_lk := False\<rparr>"

text \<open>As in the block file system the last close keeps the lock.\<close>

definition devfs_iclose :: "vfile \<Rightarrow> vfile option" where
  "devfs_iclose file =
     (if file_lk file then None
      else let c = file_refcnt file - 1
           in Some (if c = 0 then file\<lparr>file_lk := True, file_refcnt := c\<rparr> else file\<lparr>file_refcnt := c\<rparr>))"

definition advance :: "vfile \<Rightarrow> int \<Rightarrow> vfile" where
  "advance file n = file\<lparr>offset := nat ((int (offset file) + n) mod 2 ^ 32)\<rparr>"

definition devfs_iread :: "'d devops \<Rightarrow> 'd \<Rightarrow> nat \<Rightarrow> vfile \<Rightarrow> nat \<Rightarrow> (int \<times> u8 list \<times> vfile \<times> 'd) option" where
  "devfs_iread ops s i file count = do {
     (ret, bs, s') \<leftarrow> dread ops i s (offset file) count;
     Some (ret, bs, advance file ret, s')}"

definition devfs_iwrite :: "'d devops \<Rightarrow> 'd \<Rightarrow> nat \<Rightarrow> vfile \<Rightarrow> u8 list \<Rightarrow> (int \<times> vfile \<times> 'd) option" where
  "devfs_iwrite ops s i file buf = do {
     (ret, s') \<leftarrow> dwrite ops i s (offset file) buf;
     Some (ret, advance file ret, s')}"

definition devfs_rootiread :: int where
  "devfs_rootiread = EISDIR"

definition devfs_rootiwrite :: int where
  "devfs_rootiwrite = EISDIR"

text \<open>The next device name, with its terminator; the result is its length.\<close>

definition devfs_rootireaddir :: "vfile \<Rightarrow> (int \<times> u8 list \<times> vfile) option" where
  "devfs_rootireaddir file =
     (if offset file = devices_cnt then Some (0, [], file)
      else if offset file < devices_cnt then
        (let name = devices ! offset file
         in Some (int (length name), bytes_of name @ [0], file\<lparr>offset := offset file + 1\<rparr>))
      else None)"

definition devfs_ireaddir :: "int \<times> string" where
  "devfs_ireaddir = (0, ''Not a directory'')"

definition devfs_ilseek :: "vfile \<Rightarrow> nat \<Rightarrow> nat \<Rightarrow> vfile option" where
  "devfs_ilseek file off whence =
     (if whence = 0 then Some (file\<lparr>offset := off\<rparr>)
      else if whence = 1 then Some (file\<lparr>offset := add32 (offset file) off\<rparr>)
      else None)"

text \<open>\<^verbatim>\<open>mkdir\<close>, \<^verbatim>\<open>rmdir\<close>, \<^verbatim>\<open>link\<close> and \<^verbatim>\<open>unlink\<close> print a message and fail.\<close>

definition devfs_imkdir :: "string \<Rightarrow> string \<times> int" where
  "devfs_imkdir name = (''cannot create directory '' @ [CHR 0x27] @ name @ [CHR 0x27] @ '': Read-only filesystem'' @ [CHR 0x0a], - 1)"

definition devfs_irmdir :: "string \<Rightarrow> string \<times> int" where
  "devfs_irmdir name = (''cannot remove directory '' @ [CHR 0x27] @ name @ [CHR 0x27] @ '': Read-only filesystem'' @ [CHR 0x0a], - 1)"

definition devfs_ilink :: "string \<Rightarrow> string \<times> int" where
  "devfs_ilink name = (''cannot create file '' @ [CHR 0x27] @ name @ [CHR 0x27] @ '': Read-only filesystem'' @ [CHR 0x0a], - 1)"

definition devfs_iunlink :: "string \<Rightarrow> string \<times> int" where
  "devfs_iunlink name = (''cannot remove file '' @ [CHR 0x27] @ name @ [CHR 0x27] @ '': Read-only filesystem'' @ [CHR 0x0a], - 1)"

section \<open>Lookup\<close>

definition devfs_ifind :: "inode \<Rightarrow> string \<Rightarrow> nat \<Rightarrow> found" where
  "devfs_ifind cur path flags =
     (if path \<noteq> [] \<or> has_flag flags O_DIRECTORY then
        (if dropWhile (\<lambda>c. c = CHR ''/'') path \<noteq> [] then Missing ''No such file or directory''
         else Missing ''Not a directory'')
      else Found cur)"

text \<open>The loop over the devices goes on after a match, with the rest of the path.\<close>

fun devfs_scan :: "nat \<Rightarrow> string list \<Rightarrow> nat option \<times> string \<Rightarrow> nat option \<times> string" where
  "devfs_scan i [] st = st"
| "devfs_scan i (d # ds) (next, path) =
     devfs_scan (Suc i) ds
       (if take (length d) path = d \<and>
           (char_at path (length d) = CHR ''/'' \<or> char_at path (length d) = CHR 0x00)
        then (Some i, drop (length d) path) else (next, path))"

definition devfs_rootifind :: "inode \<Rightarrow> inode \<Rightarrow> string \<Rightarrow> nat \<Rightarrow> found" where
  "devfs_rootifind root_parent cur path0 flags =
     (let path = dropWhile (\<lambda>c. c = CHR ''/'') path0
      in if path = [] then Found cur
         else if char_at path 0 = CHR ''.'' then
           (if char_at path 1 = CHR ''.'' then Next root_parent (drop 2 path) else Next cur (drop 1 path))
         else
           (case devfs_scan 0 devices (None, path) of
              (None, _) \<Rightarrow> Missing ''No such file or directory''
            | (Some i, rest) \<Rightarrow> Next (DevI i) rest))"

end
