(* ===== verification/Procfs.thy ===== *)
theory Procfs
  imports Blkfs Klib_Stdio Devfs
begin

text \<open>
  The file system of the tasks, \<^verbatim>\<open>kernel/src/fs/procfs.c\<close>.  Inode \<open>3 * pid\<close> is the directory of a
  task, followed by its two files; from \<open>192\<close> on are the files of the root.  \<open>tasks\<close> gives the
  working directory and the name of the task in a slot.
\<close>

type_synonym ptask = "string \<times> string"

definition other_info :: "string list" where
  "other_info = [''devices'', ''meminfo'', ''uptime'']"

definition per_task_info :: "string list" where
  "per_task_info = [[], ''pwd'', ''name'']"

text \<open>A string as the format of \<^verbatim>\<open>snprintf\<close>, with no arguments to convert.\<close>

definition print_as_format :: "nat \<Rightarrow> string \<Rightarrow> string option" where
  "print_as_format sz s = (case snprintf (\<lambda>_ :: unit. []) (of_nat sz) s [] of Inl _ \<Rightarrow> None | Inr (t, _) \<Rightarrow> Some t)"

text \<open>Text put into a buffer, and the length returned.\<close>

definition put_text :: "string option \<Rightarrow> (string \<Rightarrow> vfile) \<Rightarrow> (int \<times> u8 list \<times> vfile) option" where
  "put_text r f = map_option (\<lambda>t. (int (length t), bytes_of t @ [0], f t)) r"

definition text_from :: "nat \<Rightarrow> string \<Rightarrow> string option" where
  "text_from n s = (if n \<le> length s then Some (drop n s) else None)"

section \<open>Operations\<close>

definition procfs_iopen :: "vfile \<Rightarrow> nat \<Rightarrow> vfile" where
  "procfs_iopen file flags = file\<lparr>offset := 0, file_flags := flags, file_refcnt := 1, file_lk := False\<rparr>"

text \<open>The last close returns with the lock held.\<close>

definition procfs_iclose :: "vfile \<Rightarrow> vfile option" where
  "procfs_iclose file =
     (if file_lk file then None
      else Some (file\<lparr>file_refcnt := file_refcnt file - 1, file_lk := (file_refcnt file - 1 = 0)\<rparr>))"

definition procfs_rootiread :: int where
  "procfs_rootiread = EISDIR"

text \<open>Writing is an error.\<close>

definition procfs_iwrite :: "vfile \<Rightarrow> u8 list \<Rightarrow> (int \<times> vfile) option" where
  "procfs_iwrite file buf = None"

definition procfs_ireaddir :: "int \<times> string" where
  "procfs_ireaddir = (0, ''Not a directory'')"

definition procfs_ilseek :: "vfile \<Rightarrow> nat \<Rightarrow> nat \<Rightarrow> vfile option" where
  "procfs_ilseek file off whence =
     (if whence = 0 then Some (file\<lparr>offset := off\<rparr>)
      else if whence = 1 then Some (file\<lparr>offset := add32 (offset file) off\<rparr>)
      else None)"

definition procfs_refusal :: "string \<Rightarrow> string \<Rightarrow> string \<times> int" where
  "procfs_refusal what name =
     (''cannot '' @ what @ '' '' @ [CHR 0x27] @ name @ [CHR 0x27] @ '': Read-only filesystem'' @ [CHR 0x0a], - 1)"

definition procfs_imkdir :: "string \<Rightarrow> string \<times> int" where
  "procfs_imkdir = procfs_refusal ''create directory''"

definition procfs_irmdir :: "string \<Rightarrow> string \<times> int" where
  "procfs_irmdir = procfs_refusal ''remove directory''"

definition procfs_ilink :: "string \<Rightarrow> string \<times> int" where
  "procfs_ilink = procfs_refusal ''create file''"

definition procfs_iunlink :: "string \<Rightarrow> string \<times> int" where
  "procfs_iunlink = procfs_refusal ''remove file''"

definition procfs_iread :: "(nat \<Rightarrow> ptask option) \<Rightarrow> vfile \<Rightarrow> nat \<Rightarrow> nat \<Rightarrow> (int \<times> u8 list \<times> vfile) option" where
  "procfs_iread tasks file idx sz =
     (let f = (\<lambda>t. file\<lparr>offset := add32 (offset file) (length t)\<rparr>)
      in case tasks (idx div 3) of
           None \<Rightarrow> Some (0, [], file)
         | Some (pwd, name) \<Rightarrow>
             if idx mod 3 = 1 then put_text (Option.bind (text_from (offset file) pwd) (print_as_format sz)) f
             else if idx mod 3 = 2 then put_text (Option.bind (text_from (offset file) name) (print_as_format sz)) f
             else None)"

text \<open>The root lists the slots in use, then its own files.\<close>

definition procfs_rootireaddir :: "(nat \<Rightarrow> ptask option) \<Rightarrow> vfile \<Rightarrow> (int \<times> u8 list \<times> vfile) option" where
  "procfs_rootireaddir tasks file =
     (let o1 = offset file + length (takeWhile (\<lambda>i. tasks i = None) [offset file..<0x40])
      in if o1 < 0x40 then
           (case sprintf (\<lambda>_ :: unit. []) ''%d'' [VInt (of_nat o1)] of
              Inl _ \<Rightarrow> None
            | Inr (t, _) \<Rightarrow> put_text (Some t) (\<lambda>_. file\<lparr>offset := o1 + 1\<rparr>))
         else if o1 - 0x40 < length other_info then
           put_text (Some (other_info ! (o1 - 0x40))) (\<lambda>_. file\<lparr>offset := o1 + 1\<rparr>)
         else Some (0, [], file\<lparr>offset := o1\<rparr>))"

definition procfs_taskireaddir :: "vfile \<Rightarrow> nat \<Rightarrow> (int \<times> u8 list \<times> vfile) option" where
  "procfs_taskireaddir file sz =
     (let f = (\<lambda>t. file\<lparr>offset := offset file + length t\<rparr>)
      in if offset file < 3 then put_text (print_as_format sz (drop (offset file) ''pwd'')) f
         else if offset file < 7 then put_text (print_as_format sz (drop (offset file - 3) ''name'')) f
         else Some (0, [], file))"

definition devices_read :: "vfile \<Rightarrow> nat \<Rightarrow> (int \<times> u8 list \<times> vfile) option" where
  "devices_read file sz =
     (if offset file < devices_cnt then
        (case snprintf (\<lambda>_ :: unit. []) (of_nat sz) (''%2d %s'' @ [CHR 0x0a])
            [VInt (of_nat (offset file)), VStr (devices ! offset file)] of
           Inl _ \<Rightarrow> None
         | Inr (t, _) \<Rightarrow> put_text (Some t) (\<lambda>_. file\<lparr>offset := offset file + 1\<rparr>))
      else Some (0, [], file))"

text \<open>Total and used memory come from \<^verbatim>\<open>mem_query\<close>; \<open>rate\<close> is the text of the quotient.  Reading
  past the end of the text would leave the buffer the code formats into.\<close>

definition meminfo_read :: "nat \<times> nat \<Rightarrow> string \<Rightarrow> vfile \<Rightarrow> nat \<Rightarrow> (int \<times> u8 list \<times> vfile) option" where
  "meminfo_read mem rate file sz =
     (case sprintf (\<lambda>_ :: unit. rate)
        (''MemTotal: %10d kB'' @ [CHR 0x0a] @ ''MemUsed:  %10d kB(%f%%)'' @ [CHR 0x0a])
        [VInt (of_nat (fst mem)), VInt (of_nat (snd mem)), VDouble ()] of
        Inl _ \<Rightarrow> None
      | Inr (txt, _) \<Rightarrow>
          if length txt \<ge> 0x40 then None
          else do {
            rest \<leftarrow> text_from (offset file) txt;
            (case snprintf (\<lambda>_ :: unit. []) (of_nat sz) ''%s'' [VStr rest] of
               Inl _ \<Rightarrow> None
             | Inr (t, _) \<Rightarrow> put_text (Some t) (\<lambda>t. file\<lparr>offset := add32 (offset file) (length t)\<rparr>))})"

definition uptime_read :: "nat \<Rightarrow> vfile \<Rightarrow> nat \<Rightarrow> (int \<times> u8 list \<times> vfile) option" where
  "uptime_read uptime file sz =
     (if offset file \<noteq> 0 then Some (0, [], file)
      else (case snprintf (\<lambda>_ :: unit. []) (of_nat sz) (''%d'' @ [CHR 0x0a]) [VInt (of_nat uptime)] of
              Inl _ \<Rightarrow> None
            | Inr (t, _) \<Rightarrow> put_text (Some t) (\<lambda>_. file\<lparr>offset := 1\<rparr>)))"

section \<open>Lookup\<close>

text \<open>Up to two digits and the terminator; a third digit means no pid.\<close>

definition is_digit :: "char \<Rightarrow> bool" where
  "is_digit c \<longleftrightarrow> 48 \<le> (of_char c :: nat) \<and> (of_char c :: nat) \<le> 57"

fun find_word :: "string list \<Rightarrow> nat \<Rightarrow> string \<Rightarrow> (nat \<times> string) option" where
  "find_word [] i path = None"
| "find_word (w # ws) i path =
     (if take (length w) path = w then Some (i, drop (length w) path) else find_word ws (Suc i) path)"

definition procfs_rootifind :: "(nat \<Rightarrow> ptask option) \<Rightarrow> inode \<Rightarrow> inode \<Rightarrow> string \<Rightarrow> nat \<Rightarrow> found option" where
  "procfs_rootifind tasks root_parent cur path0 flags =
     (let path = dropWhile (\<lambda>c. c = CHR ''/'') path0
      in if path = [] then Some (Found cur)
         else
           (let num = takeWhile is_digit (take 3 path); rest = drop (length num) path
            in if num = [] then
                 (case (case find_word other_info 0 path of
                          None \<Rightarrow> (None, path) | Some (i, p) \<Rightarrow> (Some (ProcI (0x40 * 3 + i)), p)) of
                    (next, p) \<Rightarrow>
                      if char_at p 0 = CHR ''.'' then
                        Some (if char_at p 1 = CHR ''.'' then Next root_parent (drop 2 p) else Next cur (drop 1 p))
                      else (case next of
                              None \<Rightarrow> Some (Missing ''No such a file or directory'')
                            | Some a \<Rightarrow> Some (Next a p)))
               else if length num < 3 then
                 (let i = unat (atoi num)
                  in if i \<ge> 0x40 then None
                     else if tasks i \<noteq> None then Some (Next (ProcI (i * 3)) rest)
                     else Some (Missing ''No such a file or directory''))
               else Some (Missing ''No such a file or directory'')))"

definition procfs_taskifind :: "inode \<Rightarrow> nat \<Rightarrow> string \<Rightarrow> nat \<Rightarrow> found option" where
  "procfs_taskifind cur idx path0 flags =
     (let path = dropWhile (\<lambda>c. c = CHR ''/'') path0
      in if path = [] then Some (Found cur)
         else if idx mod 3 \<noteq> 0 then None
         else if char_at path 0 = CHR ''.'' then
           Some (if char_at path 1 = CHR ''.'' then Next ProcRootI (drop 2 path) else Next cur (drop 1 path))
         else
           (case cur of
              ProcI a \<Rightarrow>
                if take 4 path = ''name'' then Some (Next (ProcI (a + 2)) (drop 4 path))
                else if take 3 path = ''pwd'' then Some (Next (ProcI (a + 1)) (drop 3 path))
                else Some (Missing ''No such a file or directory'')
            | _ \<Rightarrow> None))"

definition procfs_ifind :: "inode \<Rightarrow> string \<Rightarrow> nat \<Rightarrow> found" where
  "procfs_ifind cur path flags =
     (if char_at path 0 = CHR ''/'' then Missing ''Not a directory''
      else if path = [] then
        (if has_flag flags O_DIRECTORY then Missing ''Not a directory'' else Found cur)
      else Missing ''No such a file or directory'')"

end
