(* ===== verification/Vfs.thy ===== *)
theory Vfs
  imports Procfs
begin

text \<open>
  The virtual file system, \<^verbatim>\<open>kernel/src/fs/vfs.c\<close>.  An inode structure has an address, given by
  the table it lies in, and contents (private data, file system and operations), which a mount
  overwrites; both are named by \<open>inode\<close>.  Open files are structures on the heap that several
  descriptors may share.  \<open>None\<close> is a call that does not return properly.
\<close>

record 'd vfs =
  bfs :: "nat \<Rightarrow> blkfs"
  contents :: "inode \<Rightarrow> inode"
  blk_parent :: "nat \<Rightarrow> inode"
  dev_parent :: inode
  proc_parent :: inode
  vfs_root :: inode
  mounts :: "(string \<times> inode) list"
  devs :: 'd
  ptasks :: "nat \<Rightarrow> ptask option"
  files :: "nat \<Rightarrow> vfile"
  fds :: "nat \<Rightarrow> nat"
  cur_dir :: inode
  cur_pwd :: string
  err :: string

definition warn :: "string \<Rightarrow> 'd vfs \<Rightarrow> 'd vfs" where
  "warn w v = v\<lparr>err := w\<rparr>"

definition clear_warn :: "'d vfs \<Rightarrow> 'd vfs" where
  "clear_warn v = v\<lparr>err := []\<rparr>"

section \<open>Lookup\<close>

text \<open>One call of the \<^verbatim>\<open>find\<close> operation of the inode at an address.\<close>

definition find_step :: "'d vfs \<Rightarrow> inode \<Rightarrow> string \<Rightarrow> nat \<Rightarrow> (found \<times> 'd vfs) option" where
  "find_step v cur path flags =
     (case contents v cur of
        BlkI k n \<Rightarrow> do {
          (r, fs) \<leftarrow> blkfs_ifind k (blk_parent v k) (bfs v k) cur n path flags;
          Some (r, v\<lparr>bfs := (bfs v)(k := fs)\<rparr>)}
      | DevRootI \<Rightarrow> Some (devfs_rootifind (dev_parent v) cur path flags, v)
      | DevI i \<Rightarrow> Some (devfs_ifind cur path flags, v)
      | ProcRootI \<Rightarrow> map_option (\<lambda>r. (r, v)) (procfs_rootifind (ptasks v) (proc_parent v) cur path flags)
      | ProcI i \<Rightarrow>
          if i < 192 \<and> i mod 3 = 0 then map_option (\<lambda>r. (r, v)) (procfs_taskifind cur i path flags)
          else Some (procfs_ifind cur path flags, v))"

partial_function (option) vfs_find :: "'d vfs \<Rightarrow> inode \<Rightarrow> string \<Rightarrow> nat \<Rightarrow> (inode option \<times> 'd vfs) option" where
  "vfs_find v cur path flags = do {
     (r, v') \<leftarrow> find_step v cur path flags;
     (case r of
        Found a \<Rightarrow> Some (Some a, v')
      | Missing w \<Rightarrow> Some (None, warn w v')
      | Next a rest \<Rightarrow> vfs_find v' a rest flags)}"

definition vfs_lookup :: "'d vfs \<Rightarrow> string \<Rightarrow> nat \<Rightarrow> (inode option \<times> 'd vfs) option" where
  "vfs_lookup v path flags =
     vfs_find v (if char_at path 0 = CHR ''/'' then vfs_root v else cur_dir v) path flags"

text \<open>Nonzero means no access.\<close>

definition vfs_access :: "'d vfs \<Rightarrow> string \<Rightarrow> nat \<Rightarrow> (bool \<times> 'd vfs) option" where
  "vfs_access v path mode = do {
     (r, v') \<leftarrow> vfs_lookup v path mode;
     Some (r = None, v')}"

section \<open>Mounting\<close>

datatype fs = FBlk nat | FDev | FProc

definition fs_root :: "fs \<Rightarrow> inode" where
  "fs_root f = (case f of FBlk k \<Rightarrow> BlkI k 0 | FDev \<Rightarrow> DevRootI | FProc \<Rightarrow> ProcRootI)"

definition set_parent :: "fs \<Rightarrow> inode \<Rightarrow> 'd vfs \<Rightarrow> 'd vfs" where
  "set_parent f a v =
     (case f of FBlk k \<Rightarrow> v\<lparr>blk_parent := (blk_parent v)(k := a)\<rparr>
      | FDev \<Rightarrow> v\<lparr>dev_parent := a\<rparr> | FProc \<Rightarrow> v\<lparr>proc_parent := a\<rparr>)"

text \<open>A null parent, which a later lookup of \<^verbatim>\<open>..\<close> would dereference, is \<open>None\<close> at once.\<close>

definition vfs_mount :: "'d vfs \<Rightarrow> string \<Rightarrow> fs \<Rightarrow> 'd vfs option" where
  "vfs_mount v path f =
     (if path = ''/'' then Some (set_parent f (fs_root f) (v\<lparr>vfs_root := fs_root f\<rparr>))
      else do {
        (r, v1) \<leftarrow> vfs_lookup v path (O_RDONLY + O_DIRECTORY);
        origin \<leftarrow> r;
        let v2 = v1\<lparr>mounts := mounts v1 @ [(path, contents v1 origin)],
                   contents := (contents v1)(origin := contents v1 (fs_root f))\<rparr>;
        parent_path \<leftarrow> (case dir_cat path ''..'' of Inl _ \<Rightarrow> None | Inr p \<Rightarrow> Some p);
        (p, v3) \<leftarrow> vfs_lookup v2 parent_path (O_RDONLY + O_DIRECTORY);
        a \<leftarrow> p;
        Some (set_parent f a v3)})"

text \<open>The last entry of the table takes the place of the one removed.\<close>

definition vfs_unmount :: "'d vfs \<Rightarrow> string \<Rightarrow> (int \<times> 'd vfs) option" where
  "vfs_unmount v path =
     (case find (\<lambda>i. fst (mounts v ! i) = path) [0..<length (mounts v)] of
        None \<Rightarrow> Some (- 1, v)
      | Some i \<Rightarrow> do {
          (r, v1) \<leftarrow> vfs_lookup v path (O_RDONLY + O_DIRECTORY);
          a \<leftarrow> r;
          Some (0, v1\<lparr>contents := (contents v1)(a := snd (mounts v ! i)),
                     mounts := butlast ((mounts v)[i := last (mounts v)])\<rparr>)})"

definition vfs_init :: "'d vfs \<Rightarrow> rd \<Rightarrow> rd \<Rightarrow> 'd vfs option" where
  "vfs_init v ramdisk0 ramdisk1 = do {
     fs0 \<leftarrow> blkfs_init ramdisk0;
     fs1 \<leftarrow> blkfs_init ramdisk1;
     let v0 = v\<lparr>bfs := (\<lambda>k. if k = 0 then fs0 else fs1), contents := (\<lambda>a. a), mounts := []\<rparr>;
     v1 \<leftarrow> vfs_mount v0 ''/'' (FBlk 0);
     v2 \<leftarrow> vfs_mount v1 ''/mnt/'' (FBlk 1);
     v3 \<leftarrow> vfs_mount v2 ''/dev/'' FDev;
     vfs_mount v3 ''/proc/'' FProc}"

section \<open>Directories and links\<close>

definition vfs_mkdir :: "'d vfs \<Rightarrow> string \<Rightarrow> (int \<times> 'd vfs) option" where
  "vfs_mkdir v path = do {
     (r, v1) \<leftarrow> vfs_lookup v path O_RDONLY;
     if r \<noteq> None then
       Some (- 1, warn (''cannot create directory '' @ [CHR 0x27] @ path @ [CHR 0x27] @ '': File exists'') v1)
     else do {
       (r', v2) \<leftarrow> vfs_lookup (clear_warn v1) path (O_RDONLY + O_CREATE + O_DIRECTORY);
       Some (if r' = None then 1 else 0, v2)}}"

text \<open>The parent directory of a path, and its last component.\<close>

definition get_parent :: "'d vfs \<Rightarrow> string \<Rightarrow> (inode option \<times> string \<times> 'd vfs) option" where
  "get_parent v path =
     (let len = nat (get_last_slash path + 1)
      in if len = 0 then Some (Some (cur_dir v), path, v)
         else do {
           (r, v') \<leftarrow> vfs_lookup v (take len path) O_RDONLY;
           Some (r, drop len path, v')})"

definition dir_op :: "'d vfs \<Rightarrow> inode \<Rightarrow> (nat \<Rightarrow> nat \<Rightarrow> (int \<times> 'd vfs) option) \<Rightarrow> (int \<times> 'd vfs) option" where
  "dir_op v a f = (case contents v a of BlkI k n \<Rightarrow> f k n | _ \<Rightarrow> Some (- 1, v))"

definition removal_result :: "'d vfs \<Rightarrow> nat \<Rightarrow> (removal \<times> blkfs) option \<Rightarrow> (int \<times> 'd vfs) option" where
  "removal_result v k r = do {
     (x, fs) \<leftarrow> r;
     let v' = v\<lparr>bfs := (bfs v)(k := fs)\<rparr>;
     Some (case x of Removed \<Rightarrow> (0, v') | Refused w \<Rightarrow> (- 1, if w = [] then v' else warn w v'))}"

text \<open>\<^verbatim>\<open>rmdir\<close> returns 0 when it finds nothing.\<close>

definition vfs_rmdir :: "'d vfs \<Rightarrow> string \<Rightarrow> (int \<times> 'd vfs) option" where
  "vfs_rmdir v path = do {
     (parent, name, v1) \<leftarrow> get_parent v path;
     (case parent of
        None \<Rightarrow> Some (0, warn ''No such file or directory'' v1)
      | Some a \<Rightarrow> do {
          (r, v2) \<leftarrow> vfs_find v1 a name O_RDONLY;
          if r = None then Some (0, warn ''No such file or directory'' v2)
          else dir_op v2 a (\<lambda>k n. removal_result v2 k (blkfs_irmdir (bfs v2 k) n name))})}"

definition vfs_unlink :: "'d vfs \<Rightarrow> string \<Rightarrow> (int \<times> 'd vfs) option" where
  "vfs_unlink v path = do {
     (parent, name, v1) \<leftarrow> get_parent v path;
     (case parent of
        None \<Rightarrow> Some (- 1, warn ''No such file or directory'' v1)
      | Some a \<Rightarrow> do {
          (r, v2) \<leftarrow> vfs_find v1 a name O_RDONLY;
          if r = None then Some (- 1, warn ''No such file or directory'' v2)
          else dir_op v2 a (\<lambda>k n. removal_result v2 k (blkfs_iunlink (bfs v2 k) n name))})}"

text \<open>The device of an inode's file system; only the block file systems have one.\<close>

definition fs_dev :: "'d vfs \<Rightarrow> inode \<Rightarrow> nat option" where
  "fs_dev v a = (case contents v a of BlkI k n \<Rightarrow> Some k | _ \<Rightarrow> None)"

definition vfs_link :: "'d vfs \<Rightarrow> string \<Rightarrow> string \<Rightarrow> (int \<times> 'd vfs) option" where
  "vfs_link v oldpath newpath = do {
     (parent, name, v1) \<leftarrow> get_parent v newpath;
     (case parent of
        None \<Rightarrow> Some (- 1, warn ''No such file or directory'' v1)
      | Some a \<Rightarrow> do {
          (r, v2) \<leftarrow> vfs_find v1 a name O_RDONLY;
          if r \<noteq> None then Some (- 1, warn ''File exist'' v2)
          else do {
            (old, v3) \<leftarrow> vfs_lookup (clear_warn v2) oldpath O_RDONLY;
            (case old of
               None \<Rightarrow> Some (- 1, warn (oldpath @ '' does not exists'') v3)
             | Some b \<Rightarrow>
                 if fs_dev v3 a \<noteq> fs_dev v3 b then Some (- 1, warn ''Invalid cross-device link'' v3)
                 else dir_op v3 a (\<lambda>k n. do {
                   fs \<leftarrow> blkfs_ilink k (bfs v3 k) n name b;
                   Some (0, v3\<lparr>bfs := (bfs v3)(k := fs)\<rparr>)}))}})}"

section \<open>Open files\<close>

definition FD_NUM :: nat where
  "FD_NUM = 16"

definition new_fd_num :: "(nat \<Rightarrow> nat) \<Rightarrow> nat option" where
  "new_fd_num fd = find (\<lambda>i. fd i = 0) [0..<FD_NUM]"

text \<open>\<open>p\<close> is the heap block \<^verbatim>\<open>pmm->alloc\<close> gives, with zeros in it.\<close>

definition fresh_file :: "inode \<Rightarrow> vfile" where
  "fresh_file a = \<lparr>offset = 0, file_inode = a, file_refcnt = 0, file_flags = 0, file_lk = False\<rparr>"

definition file_open :: "'d vfs \<Rightarrow> vfile \<Rightarrow> nat \<Rightarrow> ('d vfs \<times> vfile) option" where
  "file_open v file flags =
     (case contents v (file_inode file) of
        BlkI k n \<Rightarrow> map_option (\<lambda>(fs, f). (v\<lparr>bfs := (bfs v)(k := fs)\<rparr>, f)) (blkfs_iopen k (bfs v k) file n flags)
      | ProcRootI \<Rightarrow> Some (v, procfs_iopen file flags)
      | ProcI _ \<Rightarrow> Some (v, procfs_iopen file flags)
      | _ \<Rightarrow> Some (v, devfs_iopen file flags))"

definition vfs_open :: "'d vfs \<Rightarrow> nat \<Rightarrow> string \<Rightarrow> nat \<Rightarrow> (int \<times> 'd vfs) option" where
  "vfs_open v p path flags = do {
     fd \<leftarrow> new_fd_num (fds v);
     (r, v1) \<leftarrow> vfs_lookup v path flags;
     (case r of
        None \<Rightarrow> Some (- 1, v1)
      | Some a \<Rightarrow> do {
          (v2, file) \<leftarrow> file_open v1 (fresh_file a) flags;
          Some (int fd, v2\<lparr>files := (files v2)(p := file), fds := (fds v2)(fd := p)\<rparr>)})}"

text \<open>What the environment gives the file operations: the devices, memory use and the time.\<close>

record 'd env =
  env_devs :: "'d devops"
  env_mem :: "nat \<times> nat"
  env_rate :: string
  env_uptime :: nat

definition file_read :: "'d env \<Rightarrow> 'd vfs \<Rightarrow> vfile \<Rightarrow> nat \<Rightarrow> (int \<times> u8 list \<times> vfile \<times> 'd) option" where
  "file_read e v file sz =
     (case contents v (file_inode file) of
        BlkI k n \<Rightarrow> map_option (\<lambda>(r, bs, f). (r, bs, f, devs v)) (blkfs_iread (bfs v k) file n sz)
      | DevRootI \<Rightarrow> Some (devfs_rootiread, [], file, devs v)
      | DevI i \<Rightarrow> devfs_iread (env_devs e) (devs v) i file sz
      | ProcRootI \<Rightarrow> Some (procfs_rootiread, [], file, devs v)
      | ProcI i \<Rightarrow>
          if i = 192 then map_option (\<lambda>(r, bs, f). (r, bs, f, devs v)) (devices_read file sz)
          else if i = 193 then map_option (\<lambda>(r, bs, f). (r, bs, f, devs v)) (meminfo_read (env_mem e) (env_rate e) file sz)
          else if i = 194 then map_option (\<lambda>(r, bs, f). (r, bs, f, devs v)) (uptime_read (env_uptime e) file sz)
          else if i mod 3 = 0 then Some (procfs_rootiread, [], file, devs v)
          else map_option (\<lambda>(r, bs, f). (r, bs, f, devs v)) (procfs_iread (ptasks v) file i sz))"

text \<open>A descriptor that is not open reads and writes nothing.\<close>

definition vfs_read :: "'d env \<Rightarrow> 'd vfs \<Rightarrow> nat \<Rightarrow> nat \<Rightarrow> (int \<times> u8 list \<times> 'd vfs) option" where
  "vfs_read e v fd sz =
     (if fds v fd = 0 then Some (0, [], v)
      else do {
        (r, bs, f, d) \<leftarrow> file_read e v (files v (fds v fd)) sz;
        Some (r, bs, v\<lparr>files := (files v)(fds v fd := f), devs := d\<rparr>)})"

definition file_readdir :: "'d vfs \<Rightarrow> vfile \<Rightarrow> nat \<Rightarrow> (int \<times> u8 list \<times> vfile \<times> string) option" where
  "file_readdir v file sz =
     (case contents v (file_inode file) of
        BlkI k n \<Rightarrow> map_option (\<lambda>(r, bs, f). (r, bs, f, [])) (blkfs_ireaddir (bfs v k) file n sz)
      | DevRootI \<Rightarrow> map_option (\<lambda>(r, bs, f). (r, bs, f, [])) (devfs_rootireaddir file)
      | DevI i \<Rightarrow> Some (fst devfs_ireaddir, [], file, snd devfs_ireaddir)
      | ProcRootI \<Rightarrow> map_option (\<lambda>(r, bs, f). (r, bs, f, [])) (procfs_rootireaddir (ptasks v) file)
      | ProcI i \<Rightarrow>
          if i < 192 \<and> i mod 3 = 0 then map_option (\<lambda>(r, bs, f). (r, bs, f, [])) (procfs_taskireaddir file sz)
          else Some (fst procfs_ireaddir, [], file, snd procfs_ireaddir))"

definition vfs_readdir :: "'d vfs \<Rightarrow> nat \<Rightarrow> nat \<Rightarrow> (int \<times> u8 list \<times> 'd vfs) option" where
  "vfs_readdir v fd sz =
     (if fds v fd = 0 then Some (0, [], v)
      else do {
        (r, bs, f, w) \<leftarrow> file_readdir v (files v (fds v fd)) sz;
        let v' = v\<lparr>files := (files v)(fds v fd := f)\<rparr>;
        Some (r, bs, if w = [] then v' else warn w v')})"

definition vfs_write :: "'d env \<Rightarrow> 'd vfs \<Rightarrow> nat \<Rightarrow> u8 list \<Rightarrow> (int \<times> 'd vfs) option" where
  "vfs_write e v fd buf =
     (if fds v fd = 0 then Some (0, v)
      else
        (let file = files v (fds v fd)
         in case contents v (file_inode file) of
              BlkI k n \<Rightarrow> do {
                (r, fs, f) \<leftarrow> blkfs_iwrite k (bfs v k) file n buf;
                Some (r, v\<lparr>bfs := (bfs v)(k := fs), files := (files v)(fds v fd := f)\<rparr>)}
            | DevRootI \<Rightarrow> Some (devfs_rootiwrite, v)
            | DevI i \<Rightarrow> do {
                (r, f, d) \<leftarrow> devfs_iwrite (env_devs e) (devs v) i file buf;
                Some (r, v\<lparr>files := (files v)(fds v fd := f), devs := d\<rparr>)}
            | _ \<Rightarrow> map_option (\<lambda>(r, f). (r, v)) (procfs_iwrite file buf)))"

text \<open>Not implemented: the call fails an assertion.\<close>

definition vfs_lseek :: "'d vfs \<Rightarrow> nat \<Rightarrow> nat \<Rightarrow> nat \<Rightarrow> (nat \<times> 'd vfs) option" where
  "vfs_lseek v fd off whence = None"

definition vfs_close :: "'d vfs \<Rightarrow> nat \<Rightarrow> 'd vfs option" where
  "vfs_close v fd =
     (if fds v fd = 0 then None
      else
        (let file = files v (fds v fd)
         in do {
           f \<leftarrow> (case contents v (file_inode file) of BlkI k n \<Rightarrow> blkfs_iclose file
                 | ProcRootI \<Rightarrow> procfs_iclose file | ProcI _ \<Rightarrow> procfs_iclose file | _ \<Rightarrow> devfs_iclose file);
           if file_refcnt f < 0 then None
           else Some (v\<lparr>files := (files v)(fds v fd := f), fds := (fds v)(fd := 0)\<rparr>)}))"

definition vfs_chdir :: "'d vfs \<Rightarrow> string \<Rightarrow> (int \<times> 'd vfs) option" where
  "vfs_chdir v path = do {
     (r, v1) \<leftarrow> vfs_lookup v path (O_RDONLY + O_DIRECTORY);
     (case r of
        None \<Rightarrow> Some (- 1, v1)
      | Some a \<Rightarrow>
          (case dir_cat (cur_pwd v1) path of
             Inl _ \<Rightarrow> None
           | Inr p \<Rightarrow> Some (0, v1\<lparr>cur_dir := a, cur_pwd := p\<rparr>)))}"

end
