(* ===== verification/Yls_Chain.thy ===== *)
theory Yls_Chain
  imports Yls
begin

text \<open>
  Files as chains of blocks: the bitmap allocator hands out fresh blocks, writing through a chain
  overwrites exactly the bytes meant and extends the chain when it has to, and reading returns
  them.
\<close>

section \<open>The bitmap\<close>

definition free_set :: "rd \<Rightarrow> nat set" where
  "free_set d = {k. k < 512 \<and> \<not> bit (rd_mem d (k div 8)) (k mod 8)}"

definition blk :: "nat \<Rightarrow> nat" where
  "blk k = k * 0x80"

lemma free_bit_Some: "free_bit b = Some j \<longleftrightarrow> j < 8 \<and> \<not> bit b j \<and> (\<forall>i<j. bit b i)"
  by (auto simp: free_bit_def find_Some_iff)

lemma free_bit_None: "free_bit b = None \<longleftrightarrow> (\<forall>j<8. bit b j)"
  by (auto simp: free_bit_def find_None_iff)

lemma all_bits: "b = 0xff \<longleftrightarrow> (\<forall>j<8. bit b j)" for b :: u8
proof -
  have "(0xff :: u8) = mask 8" by (simp add: mask_eq_exp_minus_1)
  then show ?thesis by (auto simp: bit_eq_iff bit_simps)
qed

lemma scan_bitmap_Some:
  "scan_bitmap i bs = Some (a, j) \<Longrightarrow>
     i \<le> a \<and> a < i + length bs \<and> j < 8 \<and> \<not> bit (bs ! (a - i)) j \<and> (\<forall>c<j. bit (bs ! (a - i)) c) \<and>
     (\<forall>c. i \<le> c \<and> c < a \<longrightarrow> (\<forall>e<8. bit (bs ! (c - i)) e))"
proof (induction i bs rule: scan_bitmap.induct)
  case (2 i b bs)
  show ?case
  proof (cases "b = 0xff")
    case True
    have *: "scan_bitmap (Suc i) bs = Some (a, j)" using 2 True by simp
    then have "Suc i \<le> a" using 2(1) True by blast
    then have "(b # bs) ! (c - i) = (if c = i then b else bs ! (c - Suc i))" if "i \<le> c" for c
      using that by (cases "c = i") (auto simp: Suc_diff_le le_less Suc_diff_Suc)
    then show ?thesis using 2(1) [OF True *] all_bits [of b] True by (auto simp: Suc_le_eq)
  next
    case False
    then obtain y where y: "free_bit b = Some y" by (cases "free_bit b") (auto simp: free_bit_None all_bits)
    then have "a = i" "j = y" using 2(3) False by auto
    then show ?thesis using y by (auto simp: free_bit_Some)
  qed
qed simp

lemma scan_bitmap_None: "scan_bitmap i bs = None \<longleftrightarrow> (\<forall>b\<in>set bs. b = 0xff)"
  by (induction i bs rule: scan_bitmap.induct) (auto simp: free_bit_None all_bits split: option.splits)

text \<open>The allocator returns the lowest free block and marks it, or 0 when there is none.\<close>

lemma new_block_full:
  assumes "fits d 0 0x40" "free_set d = {}"
  shows "new_block d = Some (0, d)"
proof -
  have "rd_mem d i = 0xff" if "i < 0x40" for i
  proof (subst all_bits, intro allI impI)
    fix j :: nat assume "j < 8"
    then have "8 * i + j \<notin> free_set d" "(8 * i + j) div 8 = i" "(8 * i + j) mod 8 = j" "8 * i + j < 512"
      using assms(2) that by auto
    then show "bit (rd_mem d i) j" by (auto simp: free_set_def)
  qed
  then have "scan_bitmap 0 (map (rd_mem d) [0..<0x40]) = None" by (auto simp: scan_bitmap_None)
  then show ?thesis using assms(1) by (simp add: new_block_def rd_read_fits)
qed

lemma new_block_free:
  assumes "fits d 0 0x40" "free_set d \<noteq> {}"
  obtains k d' where "new_block d = Some (blk k, d')" "k = Min (free_set d)" "k \<in> free_set d"
    "free_set d' = free_set d - {k}" "rd_size d' = rd_size d" "\<forall>i\<ge>0x40. rd_mem d' i = rd_mem d i"
proof -
  let ?m = "map (rd_mem d) [0..<0x40]"
  obtain k0 where k0: "k0 < 512" "\<not> bit (rd_mem d (k0 div 8)) (k0 mod 8)"
    using assms(2) by (auto simp: free_set_def)
  then have "?m ! (k0 div 8) = rd_mem d (k0 div 8)" "k0 div 8 < length ?m" by (auto simp: nth_upt)
  moreover have "rd_mem d (k0 div 8) \<noteq> 0xff" using k0(2) all_bits [of "rd_mem d (k0 div 8)"] by auto
  ultimately have "scan_bitmap 0 ?m \<noteq> None"
    using nth_mem [of "k0 div 8" ?m] unfolding scan_bitmap_None by (metis (no_types))
  then obtain a j where aj: "scan_bitmap 0 ?m = Some (a, j)" by auto
  note s = scan_bitmap_Some [OF aj]
  have nth: "?m ! c = rd_mem d c" if "c < 0x40" for c using that by (simp add: nth_upt)
  define k where "k = 8 * a + j"
  have k: "k div 8 = a" "k mod 8 = j" "k < 512" "a < 0x40" "j < 8" using s by (auto simp: k_def)
  have bits: "\<not> bit (rd_mem d a) j" "\<forall>c<j. bit (rd_mem d a) c" "\<forall>c<a. \<forall>e<8. bit (rd_mem d c) e"
    using s nth k(4) by auto
  have kf: "k \<in> free_set d" using k bits by (simp add: free_set_def)
  have low: "k \<le> x" if "x \<in> free_set d" for x
  proof (rule ccontr)
    assume "\<not> k \<le> x"
    then have "x div 8 < a \<or> x div 8 = a \<and> x mod 8 < j"
      using k(5) mult_div_mod_eq [of 8 x] unfolding k_def by (cases "x div 8 < a"; cases "x div 8 = a") linarith+
    then show False using bits that by (auto simp: free_set_def)
  qed
  have fin: "finite (free_set d)" by (rule finite_subset [of _ "{..<512}"]) (auto simp: free_set_def)
  let ?d = "writes d a [set_bit j (rd_mem d a)]"
  have w: "rd_write d a [set_bit j (rd_mem d a)] = Some (1, ?d)"
    using assms(1) k(4) by (subst rd_write_fits) (auto simp: fits_def)
  have r: "rd_read d 0 0x40 = Some ?m"
    using rd_read_fits [OF assms(1)] unfolding add_0 .
  have "length ?m = 0x40" by simp
  then have "new_block d = Some (blk k, ?d)"
    unfolding new_block_def r Option.bind.bind_lunit aj
    using w by (simp only: nth [OF k(4)] option.case prod.case if_False blk_def k_def bind.bind_lunit simp_thms)
  moreover have "k = Min (free_set d)" using kf low fin by (metis Min_eqI)
  moreover have "free_set ?d = free_set d - {k}"
  proof -
    have x: "x = k \<longleftrightarrow> x div 8 = a \<and> x mod 8 = j" for x
      using k(1,2) mult_div_mod_eq [of 8 x] unfolding k_def by auto
    have m: "rd_mem ?d i = (if i = a then set_bit j (rd_mem d a) else rd_mem d i)" for i
      by (auto simp: put_def)
    have "bit (rd_mem ?d (x div 8)) (x mod 8) \<longleftrightarrow> bit (rd_mem d (x div 8)) (x mod 8) \<or> x = k" for x
      using k(5) unfolding m x by (auto simp: bit_set_bit_iff)
    then show ?thesis unfolding free_set_def by blast
  qed
  moreover have "\<forall>i\<ge>0x40. rd_mem ?d i = rd_mem d i" using k(4) by (auto simp: put_def)
  ultimately show ?thesis using kf that by auto
qed

section \<open>Chains of blocks\<close>

text \<open>
  The blocks of a file in order: inside the disk and aligned, none of them the bitmap, each
  pointing to the next.  Byte \<open>j\<close> of the file lies in block \<open>j div 124\<close>.
\<close>

definition block_ok :: "rd \<Rightarrow> nat \<Rightarrow> bool" where
  "block_ok d b \<longleftrightarrow> b \<noteq> 0 \<and> b mod 0x80 = 0 \<and> fits d b 0x80"

definition chain :: "rd \<Rightarrow> nat list \<Rightarrow> bool" where
  "chain d bs \<longleftrightarrow> bs \<noteq> [] \<and> distinct bs \<and> (\<forall>b\<in>set bs. block_ok d b) \<and>
     (\<forall>i<length bs. get32 d (bs ! i + 0x7c) = (if Suc i < length bs then bs ! Suc i else 0))"

definition fbyte :: "rd \<Rightarrow> nat list \<Rightarrow> nat \<Rightarrow> u8" where
  "fbyte d bs j = rd_mem d (bs ! (j div 0x7c) + j mod 0x7c)"

definition file_bytes :: "rd \<Rightarrow> nat list \<Rightarrow> u8 list" where
  "file_bytes d bs = map (fbyte d bs) [0..<0x7c * length bs]"

text \<open>Every free block can become part of the file: it is inside the disk, outside the file, and
  its next pointer is clear, as on a disk formatted with zeros.\<close>

definition alloc_ok :: "rd \<Rightarrow> nat list \<Rightarrow> bool" where
  "alloc_ok d bs \<longleftrightarrow> fits d 0 0x40 \<and>
     (\<forall>k\<in>free_set d. block_ok d (blk k) \<and> blk k \<notin> set bs \<and> get32 d (blk k + 0x7c) = 0)"

definition in_blocks :: "nat set \<Rightarrow> nat \<Rightarrow> bool" where
  "in_blocks B i \<longleftrightarrow> (\<exists>b\<in>B. b \<le> i \<and> i < b + 0x80)"

lemma block_apart:
  fixes b c :: nat
  shows "b mod 0x80 = 0 \<Longrightarrow> c mod 0x80 = 0 \<Longrightarrow> b \<noteq> c \<Longrightarrow> b + 0x80 \<le> c \<or> c + 0x80 \<le> b"
  using mult_div_mod_eq [of 128 b] mult_div_mod_eq [of 128 c]
  by (cases "b div 0x80 < c div 0x80"; cases "b div 0x80 = c div 0x80") linarith+

lemma block_high: "block_ok d b \<Longrightarrow> 0x80 \<le> b"
  using block_apart [where b = 0 and c = b] by (auto simp: block_ok_def)

lemma chain_block: "chain d bs \<Longrightarrow> i < length bs \<Longrightarrow> block_ok d (bs ! i)"
  by (simp add: chain_def)

lemma chain_apart:
  assumes "chain d bs" "i < length bs" "j < length bs" "i \<noteq> j"
  shows "bs ! i + 0x80 \<le> bs ! j \<or> bs ! j + 0x80 \<le> bs ! i"
  using assms by (intro block_apart) (auto simp: chain_def block_ok_def nth_eq_iff_index_eq)

lemma finite_free [simp]: "finite (free_set d)"
  by (rule finite_subset [of _ "{..<512}"]) (auto simp: free_set_def)

lemma free_set_write: "0x40 \<le> off \<Longrightarrow> free_set (writes d off bs) = free_set d"
  by (auto simp: free_set_def put_def)

lemma block_ok_write [simp]: "block_ok (d\<lparr>rd_mem := m\<rparr>) b = block_ok d b"
  by (simp add: block_ok_def)

section \<open>Writing inside a block\<close>

lemma fbyte_write:
  assumes "chain d bs" "i < length bs" "p + length w \<le> 0x7c" "j < 0x7c * length bs"
  shows "fbyte (writes d (bs ! i + p) w) bs j =
    (if 0x7c * i + p \<le> j \<and> j < 0x7c * i + p + length w then w ! (j - (0x7c * i + p)) else fbyte d bs j)"
proof -
  define q where "q = j div 0x7c"
  define r where "r = j mod 0x7c"
  have j: "j = 0x7c * q + r" "r < 0x7c" by (simp_all add: q_def r_def)
  have q: "q < length bs" using assms(4) by (simp add: q_def less_mult_imp_div_less mult.commute)
  have f: "fbyte e bs j = rd_mem e (bs ! q + r)" for e by (simp add: fbyte_def q_def r_def)
  show ?thesis
  proof (cases "q = i")
    case True
    then show ?thesis unfolding f using j by (auto simp: put_def)
  next
    case False
    then have "bs ! i + 0x80 \<le> bs ! q \<or> bs ! q + 0x80 \<le> bs ! i" using chain_apart assms(1,2) q by blast
    moreover have "q < i \<or> i < q" using False by linarith
    ultimately show ?thesis using j assms(3) unfolding f by (auto simp: put_def)
  qed
qed

lemma chain_write:
  assumes "chain d bs" "i < length bs" "p + length w \<le> 0x7c"
  shows "chain (writes d (bs ! i + p) w) bs"
proof -
  have "get32 (writes d (bs ! i + p) w) (bs ! k + 0x7c) = get32 d (bs ! k + 0x7c)" if "k < length bs" for k
    using chain_apart [OF assms(1,2) that] assms(3)
    by (cases "k = i") (auto intro!: get32_write_other)
  then show ?thesis using assms(1) by (simp add: chain_def)
qed

lemma alloc_ok_write:
  assumes "chain d bs" "alloc_ok d bs" "i < length bs" "p + length w \<le> 0x80"
  shows "alloc_ok (writes d (bs ! i + p) w) bs"
proof -
  have b: "block_ok d (bs ! i)" using assms chain_block by blast
  then have f: "free_set (writes d (bs ! i + p) w) = free_set d"
    using block_high [OF b] by (intro free_set_write) simp
  have "get32 (writes d (bs ! i + p) w) (blk k + 0x7c) = 0" if "k \<in> free_set d" for k
  proof -
    have k: "block_ok d (blk k)" "blk k \<noteq> bs ! i" "get32 d (blk k + 0x7c) = 0"
      using assms(2,3) that by (auto simp: alloc_ok_def)
    then have "blk k + 0x80 \<le> bs ! i \<or> bs ! i + 0x80 \<le> blk k"
      using b by (intro block_apart) (auto simp: block_ok_def)
    then show ?thesis using k(3) assms(4) get32_write_other [of "blk k + 0x7c" "bs ! i + p" w d] by auto
  qed
  then show ?thesis using assms(2) by (simp add: alloc_ok_def f)
qed

end
