(* ===== verification/Yls_Write.thy ===== *)
theory Yls_Write
  imports Yls_Chain
begin

text \<open>
  Reading and writing files through their chains of blocks: \<^verbatim>\<open>block_write\<close> overwrites exactly the
  bytes asked for and links fresh blocks when the file grows; \<^verbatim>\<open>block_read\<close> from the start of the
  file returns its bytes.
\<close>

section \<open>Growing a file\<close>

definition ext :: "rd \<Rightarrow> nat list \<Rightarrow> rd \<Rightarrow> nat list \<Rightarrow> bool" where
  "ext d bs d' bs' \<longleftrightarrow> chain d' bs' \<and> alloc_ok d' bs' \<and> rd_size d' = rd_size d \<and>
     (\<exists>new. bs' = bs @ new \<and> set new \<subseteq> blk ` free_set d \<and> length new + card (free_set d') = card (free_set d)) \<and>
     free_set d' = free_set d - {k. blk k \<in> set bs'} \<and>
     (\<forall>i\<ge>0x40. \<not> in_blocks (set bs') i \<longrightarrow> rd_mem d' i = rd_mem d i)"

definition wrote :: "rd \<Rightarrow> nat list \<Rightarrow> nat \<Rightarrow> u8 list \<Rightarrow> rd \<Rightarrow> nat list \<Rightarrow> bool" where
  "wrote d bs a s d' bs' \<longleftrightarrow> ext d bs d' bs' \<and> a + length s \<le> 0x7c * length bs' \<and>
     (\<forall>j. a \<le> j \<and> j < a + length s \<longrightarrow> fbyte d' bs' j = s ! (j - a)) \<and>
     (\<forall>j<0x7c * length bs. j < a \<or> a + length s \<le> j \<longrightarrow> fbyte d' bs' j = fbyte d bs j)"

lemma ext_refl: "chain d bs \<Longrightarrow> alloc_ok d bs \<Longrightarrow> ext d bs d bs"
  by (auto simp: ext_def alloc_ok_def)

lemma ext_trans:
  assumes "ext d bs d1 bs1" "ext d1 bs1 d2 bs2"
  shows "ext d bs d2 bs2"
proof -
  obtain n1 where n1: "bs1 = bs @ n1" "set n1 \<subseteq> blk ` free_set d" "length n1 + card (free_set d1) = card (free_set d)"
    using assms(1) by (auto simp: ext_def)
  obtain n2 where n2: "bs2 = bs1 @ n2" "set n2 \<subseteq> blk ` free_set d1" "length n2 + card (free_set d2) = card (free_set d1)"
    using assms(2) by (auto simp: ext_def)
  have f: "free_set d1 = free_set d - {k. blk k \<in> set bs1}" "free_set d2 = free_set d1 - {k. blk k \<in> set bs2}"
    using assms by (auto simp: ext_def)
  have "\<exists>new. bs2 = bs @ new \<and> set new \<subseteq> blk ` free_set d \<and> length new + card (free_set d2) = card (free_set d)"
    using n1 n2 f(1) by (intro exI [of _ "n1 @ n2"]) auto
  moreover have "rd_mem d2 i = rd_mem d i" if "0x40 \<le> i" "\<not> in_blocks (set bs2) i" for i
  proof -
    have "\<not> in_blocks (set bs1) i" using that(2) n2(1) by (auto simp: in_blocks_def)
    then show ?thesis using assms that by (simp add: ext_def)
  qed
  ultimately show ?thesis using assms f n2(1) by (auto simp: ext_def)
qed

lemma wrote_append:
  assumes "wrote d bs a s d1 bs1" "wrote d1 bs1 (a + length s) t d2 bs2"
  shows "wrote d bs a (s @ t) d2 bs2"
proof -
  have e: "ext d bs d2 bs2" using assms ext_trans by (auto simp: wrote_def)
  have l: "length bs \<le> length bs1" using assms(1) by (auto simp: wrote_def ext_def)
  have s: "a + length s \<le> 0x7c * length bs1" using assms(1) by (simp add: wrote_def)
  show ?thesis unfolding wrote_def
  proof (intro conjI allI impI)
    fix j assume j: "a \<le> j \<and> j < a + length (s @ t)"
    show "fbyte d2 bs2 j = (s @ t) ! (j - a)"
      using assms j s by (cases "j < a + length s") (auto simp: wrote_def nth_append)
  next
    fix j assume j: "j < 0x7c * length bs" "j < a \<or> a + length (s @ t) \<le> j"
    then show "fbyte d2 bs2 j = fbyte d bs j" using assms l by (auto simp: wrote_def)
  qed (use e assms in \<open>auto simp: wrote_def\<close>)
qed

lemma wrote_block:
  assumes "chain d bs" "alloc_ok d bs" "i < length bs" "p + length w \<le> 0x7c"
  shows "wrote d bs (0x7c * i + p) w (writes d (bs ! i + p) w) bs"
proof -
  let ?d = "writes d (bs ! i + p) w"
  have b: "0x80 \<le> bs ! i" using assms chain_block block_high by blast
  have f: "free_set ?d = free_set d" using b by (intro free_set_write) simp
  have le: "0x7c * i + p + length w \<le> 0x7c * length bs"
  proof -
    have "0x7c * Suc i \<le> 0x7c * length bs" using assms(3) by (intro mult_le_mono2) simp
    then show ?thesis using assms(4) by simp
  qed
  have "ext d bs ?d bs"
  proof -
    have "rd_mem ?d x = rd_mem d x" if "\<not> in_blocks (set bs) x" for x
    proof -
      have "\<not> (bs ! i \<le> x \<and> x < bs ! i + 0x80)" using that assms(3) by (auto simp: in_blocks_def)
      then show ?thesis using assms(4) by (auto simp: put_def)
    qed
    moreover have "free_set d = free_set d - {k. blk k \<in> set bs}" using assms(2) by (auto simp: alloc_ok_def)
    ultimately show ?thesis
      using chain_write [OF assms(1,3,4)] alloc_ok_write [OF assms(1,2,3)] assms(4) by (simp add: ext_def f)
  qed
  moreover have "fbyte ?d bs j = (if 0x7c * i + p \<le> j \<and> j < 0x7c * i + p + length w
      then w ! (j - (0x7c * i + p)) else fbyte d bs j)" if "j < 0x7c * length bs" for j
    using fbyte_write [OF assms(1,3,4) that] .
  ultimately show ?thesis using le unfolding wrote_def by auto
qed

text \<open>Linking a fresh block behind the last one.\<close>

lemma link_block:
  assumes "chain d bs" "alloc_ok d bs" "free_set d \<noteq> {}" "a \<le> 0x7c * Suc (length bs)"
  shows "\<exists>b da db. new_block d = Some (b, da) \<and> store32 da (last bs + 0x7c) b = Some db \<and>
           wrote d bs a [] db (bs @ [b])"
proof -
  obtain k da where k: "new_block d = Some (blk k, da)" "k \<in> free_set d" "free_set da = free_set d - {k}"
      "rd_size da = rd_size d" "\<forall>i\<ge>0x40. rd_mem da i = rd_mem d i"
    using new_block_free assms(2,3) by (metis alloc_ok_def)
  define b where "b = blk k"
  define p where "p = last bs + 0x7c"
  let ?db = "writes da p (bytes32 b)"
  have bs: "bs \<noteq> []" "last bs \<in> set bs" using assms(1) by (auto simp: chain_def)
  have ok: "block_ok d x" if "x \<in> set bs \<or> x = b" for x
    using that assms(1,2) k(2) by (auto simp: chain_def alloc_ok_def b_def)
  have b: "b \<notin> set bs" "get32 d (b + 0x7c) = 0" using assms(2) k(2) by (auto simp: alloc_ok_def b_def)
  have g: "get32 da x = get32 d x" if "0x40 \<le> x" for x
    using k(5) that by (auto simp: get32_def intro!: arg_cong [of _ _ le_bytes])
  have okda: "block_ok da x = block_ok d x" for x using k(4) by (simp add: block_ok_def fits_def)
  have hi: "0x80 \<le> x" if "x \<in> set bs \<or> x = b" for x using ok block_high that by blast
  have "fits da p 4" using ok [of "last bs"] bs k(4) by (auto simp: block_ok_def fits_def p_def)
  then have st: "store32 da p b = Some ?db" by (rule store32_fits)
  have b32: "b < 2 ^ 32" using ok [of b] by (auto simp: block_ok_def fits_def)
  have gp: "get32 ?db p = b" using get32_write_same [OF b32] .
  have go: "get32 ?db (x + 0x7c) = get32 d (x + 0x7c)" if "block_ok d x" "x \<noteq> last bs" for x
  proof -
    have "x + 0x80 \<le> last bs \<or> last bs + 0x80 \<le> x"
      using ok [of "last bs"] bs that by (intro block_apart) (auto simp: block_ok_def)
    then have "get32 ?db (x + 0x7c) = get32 da (x + 0x7c)"
      by (intro get32_write_other) (auto simp: p_def)
    then show ?thesis using g [of "x + 0x7c"] by simp
  qed
  have last: "last bs = bs ! (length bs - 1)" using bs by (simp add: last_conv_nth)
  have idx: "bs ! i = last bs \<longleftrightarrow> i = length bs - 1" if "i < length bs" for i
    using assms(1) that bs(1) unfolding last by (subst nth_eq_iff_index_eq) (auto simp: chain_def)
  have ch: "chain ?db (bs @ [b])"
  proof -
    have "get32 ?db ((bs @ [b]) ! i + 0x7c) = (if Suc i < length (bs @ [b]) then (bs @ [b]) ! Suc i else 0)"
      if i: "i < length (bs @ [b])" for i
    proof (cases "i < length bs - 1")
      case True
      then have "get32 ?db (bs ! i + 0x7c) = bs ! Suc i"
        using assms(1) go [of "bs ! i"] idx [of i] chain_block [of d bs i] by (auto simp: chain_def)
      moreover have "Suc i < length bs" using True by simp
      ultimately show ?thesis by (simp add: nth_append)
    next
      case False
      then consider "i = length bs - 1" | "i = length bs" using i by fastforce
      then show ?thesis
      proof cases
        case 1
        then show ?thesis using gp bs(1) by (simp add: nth_append last p_def)
      next
        case 2
        have "b \<noteq> last bs" using b(1) bs(2) by auto
        then have "get32 ?db (b + 0x7c) = 0" using go [of b] ok [of b] b(2) by auto
        then show ?thesis using 2 by simp
      qed
    qed
    then show ?thesis using assms(1) ok b(1) by (auto simp: chain_def okda)
  qed
  have fdb: "free_set ?db = free_set d - {k}" using hi [of "last bs"] bs k(3) by (subst free_set_write) (auto simp: p_def)
  have inj: "blk x = b \<longleftrightarrow> x = k" for x by (simp add: b_def blk_def)
  have al: "alloc_ok ?db (bs @ [b])"
  proof -
    have "get32 ?db (blk x + 0x7c) = 0" if "x \<in> free_set d" for x
    proof -
      have "block_ok d (blk x)" "blk x \<noteq> last bs" "get32 d (blk x + 0x7c) = 0"
        using assms(2) that bs(2) by (auto simp: alloc_ok_def)
      then show ?thesis using go by simp
    qed
    then show ?thesis using assms(2) k(4) inj by (auto simp: alloc_ok_def fdb okda fits_def)
  qed
  have mem: "rd_mem ?db i = rd_mem d i" if "0x40 \<le> i" "i < p \<or> p + 4 \<le> i" for i
    using that k(5) by (auto simp: put_def)
  have ex: "ext d bs ?db (bs @ [b])"
  proof -
    have "length [b] + card (free_set ?db) = card (free_set d)"
      unfolding fdb using card_Suc_Diff1 [OF finite_free k(2)] by simp
    then have "\<exists>new. bs @ [b] = bs @ new \<and> set new \<subseteq> blk ` free_set d \<and>
        length new + card (free_set ?db) = card (free_set d)"
      using k(2) by (intro exI [of _ "[b]"]) (auto simp: b_def)
    moreover have "free_set ?db = free_set d - {x. blk x \<in> set (bs @ [b])}"
      using assms(2) inj unfolding fdb by (auto simp: alloc_ok_def)
    moreover have "rd_mem ?db i = rd_mem d i" if "0x40 \<le> i" "\<not> in_blocks (set (bs @ [b])) i" for i
      using that bs(2) by (intro mem) (auto simp: in_blocks_def p_def)
    ultimately show ?thesis using ch al k(4) unfolding ext_def by simp
  qed
  have "fbyte ?db (bs @ [b]) j = fbyte d bs j" if "j < 0x7c * length bs" for j
  proof -
    define q where "q = j div 0x7c"
    have q: "q < length bs" using that by (simp add: q_def less_mult_imp_div_less mult.commute)
    have "bs ! q + j mod 0x7c < p \<or> p + 4 \<le> bs ! q + j mod 0x7c"
    proof (cases "q = length bs - 1")
      case True then show ?thesis by (simp add: p_def last)
    next
      case False
      then have "bs ! q + 0x80 \<le> last bs \<or> last bs + 0x80 \<le> bs ! q"
        unfolding last using assms(1) q by (intro chain_apart) auto
      then show ?thesis by (auto simp: p_def)
    qed
    moreover have "0x80 \<le> bs ! q" using hi q by simp
    ultimately show ?thesis using mem [of "bs ! q + j mod 0x7c"] q
      unfolding fbyte_def q_def [symmetric] by (simp add: nth_append)
  qed
  then have "wrote d bs a [] ?db (bs @ [b])" using ex assms(4) by (auto simp: wrote_def)
  then show ?thesis using k(1) st by (auto simp: b_def p_def)
qed

section \<open>Writing\<close>

lemma next_block:
  assumes "block_ok d b"
  shows "add32 b 0x7c = b + 0x7c"
    and "\<exists>ns. rd_read d (b + 0x7c) 4 = Some ns \<and> length ns = 4 \<and> le_bytes ns = get32 d (b + 0x7c)"
proof -
  have f: "fits d b 0x80" using assms by (simp add: block_ok_def)
  then show "add32 b 0x7c = b + 0x7c" by (intro add32_eq) (simp add: fits_def)
  have "fits d (b + 0x7c) 4" using fits_mono [OF f] by simp
  then show "\<exists>ns. rd_read d (b + 0x7c) 4 = Some ns \<and> length ns = 4 \<and> le_bytes ns = get32 d (b + 0x7c)"
    by (simp add: rd_read_fits get32_def del: upt_rec_numeral)
qed

lemma write_step:
  assumes "chain d bs" "alloc_ok d bs" "k < length bs" "s \<noteq> []" "free_set d \<noteq> {} \<or> Suc k < length bs"
  shows "\<exists>d1 bs1 w. w = take 0x7c s \<and> Suc k < length bs1 \<and> (Suc k = length bs \<longrightarrow> length bs1 = Suc (length bs)) \<and>
     (Suc k < length bs \<longrightarrow> bs1 = bs) \<and> wrote d bs (0x7c * Suc k) w d1 bs1 \<and>
     block_write_loop d (bs ! k + 0x7c) n s =
     block_write_loop d1 (add32 (bs1 ! Suc k) (length w)) n (drop (length w) s)"
proof -
  define w where "w = take 0x7c s"
  have ok: "block_ok d (bs ! k)" using assms chain_block by blast
  obtain ns where ns: "rd_read d (bs ! k + 0x7c) 4 = Some ns" "length ns = 4" "le_bytes ns = get32 d (bs ! k + 0x7c)"
    using next_block(2) [OF ok] by auto
  have nx: "get32 d (bs ! k + 0x7c) = (if Suc k < length bs then bs ! Suc k else 0)"
    using assms(1,3) by (simp add: chain_def)
  have lw: "length w = min BLK_MEM (length s)" "length w \<le> 0x7c" "min BLK_MEM (length s) = length w"
    by (auto simp: w_def BLK_MEM_def)
  have tk: "take (min BLK_MEM (length s)) s = w" by (simp add: w_def BLK_MEM_def min_def)
  have "\<exists>d0 bs1. wrote d bs (0x7c * Suc k) [] d0 bs1 \<and> Suc k < length bs1 \<and>
      (Suc k = length bs \<longrightarrow> length bs1 = Suc (length bs)) \<and> (Suc k < length bs \<longrightarrow> bs1 = bs) \<and>
      next_or_new d (bs ! k + 0x7c) = Some (bs1 ! Suc k, d0, False)"
  proof (cases "Suc k < length bs")
    case True
    then have "bs ! Suc k \<noteq> 0" using assms(1) chain_block by (auto simp: block_ok_def)
    moreover have "wrote d bs (0x7c * Suc k) [] d bs" using True ext_refl assms(1,2) by (auto simp: wrote_def)
    ultimately show ?thesis using True nx ns by (intro exI [of _ d] exI [of _ bs]) (auto simp: next_or_new_def)
  next
    case False
    then have k: "Suc k = length bs" using assms(3) by simp
    then have "last bs = bs ! k" by (metis assms(3) diff_Suc_1 last_conv_nth list.size(3) not_less_zero)
    then obtain b da db where "new_block d = Some (b, da)" "store32 da (bs ! k + 0x7c) b = Some db"
        "wrote d bs (0x7c * Suc k) [] db (bs @ [b])"
      using link_block [OF assms(1,2), of "0x7c * Suc k"] assms(5) k by auto
    then show ?thesis using nx ns(3) k by (intro exI [of _ db] exI [of _ "bs @ [b]"]) (auto simp: nth_append next_or_new_def ns)
  qed
  then obtain d0 bs1 where d0: "wrote d bs (0x7c * Suc k) [] d0 bs1" "Suc k < length bs1"
      "Suc k = length bs \<longrightarrow> length bs1 = Suc (length bs)" "Suc k < length bs \<longrightarrow> bs1 = bs"
    and pre: "next_or_new d (bs ! k + 0x7c) = Some (bs1 ! Suc k, d0, False)" by blast
  have ch: "chain d0 bs1" "alloc_ok d0 bs1" using d0(1) by (auto simp: wrote_def ext_def)
  define d1 where "d1 = writes d0 (bs1 ! Suc k) w"
  have w1: "wrote d0 bs1 (0x7c * Suc k) w d1 bs1"
    using wrote_block [OF ch d0(2), of 0 w] lw(2) by (simp add: d1_def)
  have "block_ok d0 (bs1 ! Suc k)" using ch(1) d0(2) chain_block by blast
  then have "fits d0 (bs1 ! Suc k) (length w)" using lw(2) by (auto simp: block_ok_def fits_def)
  then have wr: "rd_write d0 (bs1 ! Suc k) w = Some (length w, d1)" by (simp add: rd_write_fits d1_def)
  have tk': "take (length w) s = w" using tk lw(3) by simp
  have "block_write_loop d (bs ! k + 0x7c) n s =
     block_write_loop d1 (add32 (bs1 ! Suc k) (length w)) n (drop (length w) s)"
    using assms(4) by (subst block_write_loop.simps) (simp add: pre tk' lw(3) wr Let_def)
  moreover have "wrote d bs (0x7c * Suc k) w d1 bs1" using wrote_append [OF d0(1)] w1 by simp
  ultimately show ?thesis using d0 w_def by blast
qed

lemma write_loop:
  assumes "chain d bs" "alloc_ok d bs" "k < length bs"
    and "length s \<le> 0x7c * (length bs - Suc k + card (free_set d))"
  shows "\<exists>d' bs'. block_write_loop d (bs ! k + 0x7c) n s = Some (n, d') \<and> wrote d bs (0x7c * Suc k) s d' bs'"
  using assms
proof (induction "length s" arbitrary: d bs k s rule: less_induct)
  case less
  show ?case
  proof (cases "s = []")
    case True
    have "0x7c * Suc k \<le> 0x7c * length bs" using less.prems(3) by (intro mult_le_mono2) simp
    then have "wrote d bs (0x7c * Suc k) [] d bs" using ext_refl less.prems(1,2) by (auto simp: wrote_def)
    then show ?thesis using True by (subst block_write_loop.simps) auto
  next
    case False
    have "free_set d \<noteq> {} \<or> Suc k < length bs" using less.prems(4) False by (cases "Suc k < length bs") auto
    from write_step [OF less.prems(1-3) False this, of n]
    obtain d1 bs1 w where w: "w = take 0x7c s" "Suc k < length bs1"
        "Suc k = length bs \<longrightarrow> length bs1 = Suc (length bs)" "Suc k < length bs \<longrightarrow> bs1 = bs"
        "wrote d bs (0x7c * Suc k) w d1 bs1"
        "block_write_loop d (bs ! k + 0x7c) n s = block_write_loop d1 (add32 (bs1 ! Suc k) (length w)) n (drop (length w) s)"
      by blast
    have ch: "chain d1 bs1" "alloc_ok d1 bs1" using w(5) by (auto simp: wrote_def ext_def)
    define r where "r = drop (length w) s"
    have "take (length w) s = w" by (simp add: w(1) min_def)
    then have s: "s = w @ r" unfolding r_def by (metis append_take_drop_id)
    show ?thesis
    proof (cases "r = []")
      case True
      then show ?thesis using w(5,6) s
        by (intro exI [of _ d1] exI [of _ bs1]) (simp add: block_write_loop.simps flip: r_def)
    next
      case rest: False
      then have lw: "length w = 0x7c" using w(1) by (auto simp: r_def)
      have c: "length bs1 + card (free_set d1) = length bs + card (free_set d)"
        using w(5) by (auto simp: wrote_def ext_def)
      then have "length r \<le> 0x7c * (length bs1 - Suc (Suc k) + card (free_set d1))"
        using less.prems(3,4) lw w(2) s by (simp add: algebra_simps)
      then obtain d' bs' where d': "block_write_loop d1 (bs1 ! Suc k + 0x7c) n r = Some (n, d')"
          "wrote d1 bs1 (0x7c * Suc (Suc k)) r d' bs'"
        using less.hyps [OF _ ch w(2), of r] s lw by auto
      have "add32 (bs1 ! Suc k) 0x7c = bs1 ! Suc k + 0x7c"
        using next_block(1) chain_block [OF ch(1) w(2)] by blast
      then have "block_write_loop d (bs ! k + 0x7c) n s = Some (n, d')" using w(6) d'(1) lw by (simp add: r_def)
      moreover have "wrote d bs (0x7c * Suc k) s d' bs'"
        using wrote_append [OF w(5), of r d' bs'] d'(2) lw s by (simp add: algebra_simps)
      ultimately show ?thesis by blast
    qed
  qed
qed

text \<open>The block that byte \<open>sh\<close> of a file lies in, the end of a block counting as part of it.\<close>

lemma find_block_chain:
  assumes "chain d bs" "i < length bs" "sh \<le> 0x7c * (length bs - i)"
  shows "find_block d sh (bs ! i) = Some (0, sh - 0x7c * ((sh - 1) div 0x7c), bs ! (i + (sh - 1) div 0x7c))"
  using assms(2,3)
proof (induction sh arbitrary: i rule: less_induct)
  case (less sh)
  show ?case
  proof (cases "sh > 0x7c")
    case True
    have i: "Suc i < length bs" using True less.prems by (cases "length bs - i = 1") auto
    have ok: "block_ok d (bs ! i)" using assms(1) less.prems chain_block by blast
    obtain ns where ns: "rd_read d (bs ! i + 0x7c) 4 = Some ns" "length ns = 4" "le_bytes ns = get32 d (bs ! i + 0x7c)"
      using next_block(2) [OF ok] by auto
    have nx: "le_bytes ns = bs ! Suc i" using assms(1) i less.prems ns(3) by (simp add: chain_def)
    have "find_block d sh (bs ! i) = find_block d (sh - 0x7c) (bs ! Suc i)"
      using True ns next_block(1) [OF ok] nx by (subst find_block.simps) (simp add: BLK_MEM_def)
    also have "\<dots> = Some (0, sh - 0x7c - 0x7c * ((sh - 0x7c - 1) div 0x7c), bs ! (Suc i + (sh - 0x7c - 1) div 0x7c))"
      using less.IH [of "sh - 0x7c" "Suc i"] True i less.prems by (simp add: algebra_simps)
    also have "(sh - 0x7c - 1) div 0x7c = (sh - 1) div 0x7c - 1"
      using True le_div_geq [of 124 "sh - 1"] by simp
    finally show ?thesis using True le_div_geq [of 124 "sh - 1"] by (simp add: algebra_simps)
  next
    case False
    then have "(sh - 1) div 0x7c = 0" by (cases sh) auto
    then show ?thesis using False by (subst find_block.simps) (simp add: BLK_MEM_def)
  qed
qed

lemma seat_bound: "sh \<le> 0x7c * n \<Longrightarrow> 0 < n \<Longrightarrow> (sh - 1) div 0x7c < n \<and> sh - 0x7c * ((sh - 1) div 0x7c) \<le> 0x7c"
  for sh n :: nat
  using mult_div_mod_eq [of 124 "sh - 1"] mod_less_divisor [of 124 "sh - 1"]
  by (cases "sh = 0") (auto simp: less_mult_imp_div_less)

theorem block_write_chain:
  assumes "chain d bs" "alloc_ok d bs" "shift \<le> 0x7c * length bs"
    and "shift + length s \<le> 0x7c * (length bs + card (free_set d))"
  shows "\<exists>d' bs'. block_write d (hd bs) shift s = Some (length s, d') \<and> wrote d bs shift s d' bs'"
proof -
  define i where "i = (shift - 1) div 0x7c"
  define p where "p = shift - 0x7c * i"
  have bs: "0 < length bs" "hd bs = bs ! 0" using assms(1) by (auto simp: chain_def hd_conv_nth)
  have i: "i < length bs" "p \<le> 0x7c" using seat_bound [OF assms(3) bs(1)] by (auto simp: i_def p_def)
  have sh: "shift = 0x7c * i + p"
    using div_times_less_eq_dividend [of "shift - 1" 124] by (simp add: p_def i_def)
  have ok: "block_ok d (bs ! i)" using assms(1) i chain_block by blast
  have fb: "find_block d shift (hd bs) = Some (0, p, bs ! i)"
    using find_block_chain [OF assms(1) bs(1)] assms(3) bs(2) by (simp add: i_def p_def)
  define w where "w = take (0x7c - p) s"
  have lw: "p + length w \<le> 0x7c" "length w = min (0x7c - p) (length s)" using i(2) by (auto simp: w_def)
  have a: "add32 (bs ! i) p = bs ! i + p" using ok i(2) by (intro add32_eq) (auto simp: block_ok_def fits_def)
  have m: "(bs ! i + p) mod 0x80 = p" using ok i(2) by (simp add: block_ok_def mod_add_eq [symmetric, of "bs ! i"])
  have tw: "min (sub32 BLK_MEM ((bs ! i + p) mod BLK_SZ)) (length s) = length w"
    using i(2) lw(2) by (simp add: BLK_MEM_def BLK_SZ_def m sub32_eq)
  have tk: "take (length w) s = w" by (simp add: w_def min_def)
  have "fits d (bs ! i + p) (length w)" using ok lw(1) by (auto simp: block_ok_def fits_def)
  then have wr: "rd_write d (bs ! i + p) w = Some (length w, writes d (bs ! i + p) w)" by (rule rd_write_fits)
  define d1 where "d1 = writes d (bs ! i + p) w"
  define r where "r = drop (length w) s"
  have s: "s = w @ r" using tk unfolding r_def by (metis append_take_drop_id)
  have w1: "wrote d bs shift w d1 bs"
    using wrote_block [OF assms(1,2) i(1) lw(1)] by (simp add: d1_def sh)
  have ch: "chain d1 bs" "alloc_ok d1 bs" using w1 by (auto simp: wrote_def ext_def)
  have bw: "block_write d (hd bs) shift s = block_write_loop d1 (add32 (bs ! i + p) (length w)) (length s) r"
    by (simp add: block_write_def fb a tw tk wr r_def d1_def Let_def)
  show ?thesis
  proof (cases "r = []")
    case True
    then show ?thesis using bw w1 s by (auto simp: block_write_loop.simps)
  next
    case False
    then have e: "p + length w = 0x7c" using lw i(2) by (auto simp: r_def)
    have "add32 (bs ! i + p) (length w) = bs ! i + 0x7c"
      using ok e by (subst add32_eq) (auto simp: block_ok_def fits_def)
    moreover have "card (free_set d1) = card (free_set d)" using w1 by (auto simp: wrote_def ext_def)
    moreover have "0x7c * i + 0x7c + length r \<le> 0x7c * (length bs + card (free_set d))"
      using assms(4) s e by (simp add: sh)
    then have "length r \<le> 0x7c * (length bs - Suc i + card (free_set d))"
      using i(1) by (simp add: algebra_simps)
    ultimately obtain d' bs' where d': "block_write_loop d1 (add32 (bs ! i + p) (length w)) (length s) r = Some (length s, d')"
        "wrote d1 bs (0x7c * Suc i) r d' bs'"
      using write_loop [OF ch i(1), of r "length s"] by auto
    have "shift + length w = 0x7c * Suc i" using e by (simp add: sh)
    then have "wrote d bs shift s d' bs'" using wrote_append [OF w1, of r] d'(2) s by simp
    then show ?thesis using bw d'(1) by auto
  qed
qed

section \<open>Reading\<close>

lemma file_bytes_slice:
  assumes "i < length bs" "p + n \<le> 0x7c"
  shows "take n (drop (0x7c * i + p) (file_bytes d bs)) = map (rd_mem d) [bs ! i + p..<bs ! i + p + n]"
proof (rule nth_equalityI)
  have le: "0x7c * Suc i \<le> 0x7c * length bs" using assms(1) by (intro mult_le_mono2) simp
  then show "length (take n (drop (0x7c * i + p) (file_bytes d bs))) = length (map (rd_mem d) [bs ! i + p..<bs ! i + p + n])"
    using assms by (simp add: file_bytes_def)
  fix k assume "k < length (take n (drop (0x7c * i + p) (file_bytes d bs)))"
  then have k: "k < n" by simp
  then have "(0x7c * i + (p + k)) div 0x7c = i" "(0x7c * i + (p + k)) mod 0x7c = p + k"
    using assms(2) by (auto simp: div_mult_self4)
  then show "take n (drop (0x7c * i + p) (file_bytes d bs)) ! k = map (rd_mem d) [bs ! i + p..<bs ! i + p + n] ! k"
    using k le assms by (simp add: file_bytes_def fbyte_def add.assoc)
qed

lemma read_loop:
  assumes "chain d bs" "i < length bs" "0 < rest" "rest \<le> nbyte"
  shows "block_read_loop d (bs ! i) nbyte rest s =
    (let got = take rest (drop (0x7c * i) (file_bytes d bs))
     in Some (nbyte - (rest - length got), s @ got))"
  using assms(2,3,4)
proof (induction rest arbitrary: i s rule: less_induct)
  case (less rest)
  define n where "n = min 0x7c rest"
  have ok: "block_ok d (bs ! i)" using assms(1) less.prems chain_block by blast
  have m: "bs ! i mod 0x80 = 0" using ok by (simp add: block_ok_def)
  have n: "min (sub32 BLK_MEM (bs ! i mod BLK_SZ)) rest = n" "n \<le> 0x7c" "0 < n" "n \<le> rest"
    using less.prems by (simp_all add: BLK_MEM_def BLK_SZ_def m sub32_eq n_def)
  have "fits d (bs ! i) n" using ok n(2) by (auto simp: block_ok_def fits_def)
  then have rd: "rd_read d (bs ! i) n = Some (map (rd_mem d) [bs ! i..<bs ! i + n])" by (rule rd_read_fits)
  obtain ns where ns: "rd_read d (bs ! i + 0x7c) 4 = Some ns" "length ns = 4" "le_bytes ns = get32 d (bs ! i + 0x7c)"
    using next_block(2) [OF ok] by auto
  have nx: "le_bytes ns = (if Suc i < length bs then bs ! Suc i else 0)"
    using assms(1) less.prems(1) ns(3) by (simp add: chain_def)
  define F where "F = drop (0x7c * i) (file_bytes d bs)"
  have lF: "length F = 0x7c * (length bs - i)" by (simp add: F_def file_bytes_def algebra_simps)
  have sl: "map (rd_mem d) [bs ! i..<bs ! i + n] = take n F"
    using file_bytes_slice [OF less.prems(1), of 0 n d] n(2) by (simp add: F_def)
  have ge: "0x7c \<le> length F" using lF less.prems(1) by simp
  have step: "block_read_loop d (bs ! i) nbyte rest s =
      (if \<not> Suc i < length bs then Some (nbyte - (rest - n), s @ take n F)
       else block_read_loop d (bs ! Suc i) nbyte (rest - n) (s @ take n F))"
  proof -
    have l: "length (take n F) = n" using ge n(2) by simp
    have ad: "add32 (bs ! i) BLK_MEM = bs ! i + 0x7c" using next_block(1) [OF ok] by (simp add: BLK_MEM_def)
    have nz: "Suc i < length bs \<Longrightarrow> bs ! Suc i \<noteq> 0"
      using chain_block [OF assms(1), of "Suc i"] by (simp add: block_ok_def)
    show ?thesis
      using less.prems(2) nz
      by (subst block_read_loop.simps, unfold n(1) Let_def rd bind.bind_lunit sl l ad ns(1)) (auto simp: ns(2) nx)
  qed
  show ?case
  proof (cases "Suc i < length bs \<and> 0x7c < rest")
    case True
    then have n7: "n = 0x7c" by (simp add: n_def)
    have d: "drop (0x7c * Suc i) (file_bytes d bs) = drop 0x7c F" by (simp add: F_def add.commute)
    have "block_read_loop d (bs ! i) nbyte rest s = block_read_loop d (bs ! Suc i) nbyte (rest - 0x7c) (s @ take 0x7c F)"
      using step True n7 by simp
    also have "\<dots> = Some (nbyte - (rest - 0x7c - length (take (rest - 0x7c) (drop 0x7c F))),
        (s @ take 0x7c F) @ take (rest - 0x7c) (drop 0x7c F))"
      using less.IH [of "rest - 0x7c" "Suc i" "s @ take 0x7c F"] True less.prems unfolding d by (simp add: Let_def)
    moreover have "take 0x7c F @ take (rest - 0x7c) (drop 0x7c F) = take rest F"
      using True take_add [of 124 "rest - 124" F] by simp
    ultimately show ?thesis using ge True by (simp add: Let_def F_def [symmetric] lF min_def split: if_splits)
  next
    case False
    show ?thesis
    proof (cases "Suc i < length bs")
      case True
      then have "n = rest" using False by (simp add: n_def)
      then show ?thesis using step True ge n(2) by (simp add: Let_def F_def [symmetric] block_read_loop.simps)
    next
      case last: False
      then have "length F = 0x7c" using lF less.prems(1) by (simp add: Suc_lessI le_antisym)
      then show ?thesis using step last by (auto simp: Let_def F_def [symmetric] n_def min_def)
    qed
  qed
qed

section \<open>Properties\<close>

text \<open>The block allocator returns the lowest free block of the bitmap and marks exactly that one,
  so no block is handed out twice; it returns 0 only when every block is in use, and it changes
  nothing on the disk but the bitmap.\<close>

theorem new_block_lowest:
  assumes "fits d 0 0x40"
  shows "if free_set d = {} then new_block d = Some (0, d)
     else \<exists>d'. new_block d = Some (Min (free_set d) * 0x80, d') \<and>
       free_set d' = free_set d - {Min (free_set d)} \<and> rd_size d' = rd_size d \<and>
       (\<forall>i\<ge>0x40. rd_mem d' i = rd_mem d i)"
proof (cases "free_set d = {}")
  case False
  then obtain k d' where "new_block d = Some (blk k, d')" "k = Min (free_set d)"
    "free_set d' = free_set d - {k}" "rd_size d' = rd_size d" "\<forall>i\<ge>0x40. rd_mem d' i = rd_mem d i"
    using new_block_free [OF assms] by metis
  then show ?thesis using False by (auto simp: blk_def)
qed (simp add: new_block_full [OF assms])

text \<open>A disk of four blocks in use, the rest of its 64 KiB zero.\<close>

definition demo_disk :: rd where
  "demo_disk = \<lparr>rd_mem = (\<lambda>i. if i = 0 then 0x0f else 0), rd_size = 0x10000\<rparr>"

lemma bit_15: "bit (15 :: u8) k \<longleftrightarrow> k < 4"
proof -
  have "(15 :: u8) = mask 4" by (simp add: mask_eq_exp_minus_1)
  then show ?thesis by (simp only: bit_mask_iff) auto
qed

lemma demo_free: "free_set demo_disk = {4..<512}"
proof (rule set_eqI)
  fix k
  have "rd_mem demo_disk (k div 8) = (if k < 8 then 15 else 0)"
    by (auto simp: demo_disk_def div_eq_0_iff)
  then have "k \<in> free_set demo_disk \<longleftrightarrow> k < 512 \<and> (k < 8 \<longrightarrow> \<not> bit (15 :: u8) (k mod 8))"
    by (simp add: free_set_def)
  then show "k \<in> free_set demo_disk \<longleftrightarrow> k \<in> {4..<512}"
    unfolding bit_15 by auto
qed

theorem new_block_lowest_witness:
  "\<exists>d'. new_block demo_disk = Some (0x200, d') \<and> free_set d' = {5..<512}"
proof -
  have "fits demo_disk 0 0x40" by (simp add: fits_def demo_disk_def)
  moreover have "Min {4..<512::nat} = 4" by (intro Min_eqI) auto
  moreover have "{4..<512} - {4} = {5..<512::nat}" by auto
  ultimately show ?thesis using new_block_lowest [of demo_disk] by (auto simp: demo_free)
qed

text \<open>C18: writing at any position of a file, inside it or at its end, overwrites exactly the bytes
  asked for, grows the file by fresh blocks when it has to, and changes nothing outside the
  file's blocks and the bitmap; reading from the start of the file afterwards returns the
  updated contents.\<close>

theorem file_write_read:
  assumes "chain d bs" "alloc_ok d bs" "shift \<le> 0x7c * length bs"
    and "shift + length s \<le> 0x7c * (length bs + card (free_set d))" "0 < n"
  shows "\<exists>d' new tail.
     block_write d (hd bs) shift s = Some (length s, d') \<and> set new \<subseteq> blk ` free_set d \<and>
     file_bytes d' (bs @ new) =
       take shift (file_bytes d bs) @ s @ drop (shift + length s) (file_bytes d bs) @ tail \<and>
     block_read d' (hd bs) 0 n =
       Some (min n (0x7c * length (bs @ new)), take n (file_bytes d' (bs @ new))) \<and>
     (\<forall>i\<ge>0x40. \<not> in_blocks (set (bs @ new)) i \<longrightarrow> rd_mem d' i = rd_mem d i)"
proof -
  obtain d' bs' where w: "block_write d (hd bs) shift s = Some (length s, d')" "wrote d bs shift s d' bs'"
    using block_write_chain [OF assms(1-4)] by blast
  then obtain new where new: "bs' = bs @ new" "set new \<subseteq> blk ` free_set d" "chain d' bs'"
      "\<forall>i\<ge>0x40. \<not> in_blocks (set bs') i \<longrightarrow> rd_mem d' i = rd_mem d i"
    by (auto simp: wrote_def ext_def)
  define old where "old = file_bytes d bs"
  have l: "length old = 0x7c * length bs" "length (file_bytes d' bs') = 0x7c * length bs'" "shift + length s \<le> 0x7c * length bs'"
    using w(2) by (auto simp: old_def file_bytes_def wrote_def)
  have "take (max (length old) (shift + length s)) (file_bytes d' bs') = take shift old @ s @ drop (shift + length s) old"
    using l new(1) assms(3) w(2)
    by (intro nth_equalityI) (auto simp: nth_append old_def file_bytes_def wrote_def)
  then obtain tail where "file_bytes d' bs' = take shift old @ s @ drop (shift + length s) old @ tail"
    by (metis append_take_drop_id append.assoc)
  moreover have "block_read d' (hd bs) 0 n = Some (min n (0x7c * length bs'), take n (file_bytes d' bs'))"
  proof -
    have ne: "bs \<noteq> []" using assms(1) by (simp add: chain_def)
    then have h: "hd bs = bs' ! 0" "0 < length bs'" by (auto simp: new(1) hd_conv_nth nth_append)
    then have "block_ok d' (hd bs)" using new(3) chain_block by metis
    then have "add32 (hd bs) 0 = hd bs" using add32_eq [of "hd bs" 0] by (simp add: block_ok_def fits_def)
    then show ?thesis
      using read_loop [OF new(3) h(2), of n n "[]"] assms(5) l(2)
      by (simp add: block_read_def find_block.simps h(1) Let_def min_def split: if_splits)
  qed
  ultimately show ?thesis using w(1) new by (auto simp: old_def)
qed

theorem file_write_read_witness:
  "\<exists>d'. block_write demo_disk 0x180 0 [1, 2, 3] = Some (3, d') \<and>
     block_read d' 0x180 0 3 = Some (3, [1, 2, 3])"
proof -
  let ?bs = "[0x180 :: nat]"
  have g: "get32 demo_disk (k + 0x7c) = 0" for k 
  proof -
    have "map (rd_mem demo_disk) [k + 0x7c..<k + 0x7c + 4] = [0, 0, 0, 0]"
      by (simp add: demo_disk_def upt_conv_Cons)
    then show ?thesis by (simp add: get32_def)
  qed
  have "chain demo_disk ?bs" using g [of 384] by (simp add: chain_def block_ok_def fits_def demo_disk_def)
  moreover have "alloc_ok demo_disk ?bs"
    using g by (auto simp: alloc_ok_def demo_free block_ok_def fits_def blk_def) (auto simp: demo_disk_def)
  moreover have "card (free_set demo_disk) = 508" by (simp add: demo_free)
  ultimately obtain d' new tail where "block_write demo_disk 0x180 0 [1, 2, 3] = Some (3, d')"
    "file_bytes d' (?bs @ new) = [1, 2, 3] @ tail"
    "block_read d' 0x180 0 3 = Some (min 3 (0x7c * length (?bs @ new)), take 3 (file_bytes d' (?bs @ new)))"
    using file_write_read [of demo_disk ?bs 0 "[1, 2, 3]" 3] by auto
  then show ?thesis by auto
qed

end
