(* ===== verification/Blkfs_Dir.thy ===== *)
theory Blkfs_Dir
  imports Blkfs Yls_Write
begin

text \<open>
  Directories as lists of entries: lookup finds the first entry with a name, removal wipes
  exactly its slot, and creation appends an entry that lookup then finds.  The directory fits one
  block, as \<^verbatim>\<open>scan_dir\<close> reaches a second block only through a pointer that no operation sets.
\<close>

section \<open>Entries\<close>

datatype entry = Wiped | Named nat "u8 list"

definition name_block :: "rd \<Rightarrow> nat \<Rightarrow> u8 list \<Rightarrow> bool" where
  "name_block d b nm \<longleftrightarrow> length nm < 80 \<and> 0 \<notin> set nm \<and>
     map (rd_mem d) [b + 4..<b + 4 + Suc (length nm)] = nm @ [0] \<and> get32 d (b + 0x7c) = 0"

definition entry_ok :: "rd \<Rightarrow> nat \<Rightarrow> nat \<Rightarrow> entry \<Rightarrow> bool" where
  "entry_ok d D a e \<longleftrightarrow>
     (case e of Wiped \<Rightarrow> get32 d a = YLS_WIPE
      | Named b nm \<Rightarrow> get32 d a = b \<and> b \<noteq> YLS_WIPE \<and> b \<noteq> D \<and> block_ok d b \<and> name_block d b nm)"

definition dir_ok :: "rd \<Rightarrow> nat \<Rightarrow> entry list \<Rightarrow> bool" where
  "dir_ok d D es \<longleftrightarrow> block_ok d D \<and> length es < 30 \<and> get32 d (D + 4 + 4 * length es) = 0 \<and>
     (\<forall>i<length es. entry_ok d D (D + 4 + 4 * i) (es ! i))"

text \<open>The first entry with a name: its position and its block.\<close>

fun dir_find :: "u8 list \<Rightarrow> entry list \<Rightarrow> (nat \<times> nat) option" where
  "dir_find s [] = None"
| "dir_find s (Wiped # es) = map_option (\<lambda>(i, b). (Suc i, b)) (dir_find s es)"
| "dir_find s (Named b nm # es) =
     (if nm = s then Some (0, b) else map_option (\<lambda>(i, b). (Suc i, b)) (dir_find s es))"

lemma dir_find_Some: "dir_find s es = Some (i, b) \<Longrightarrow> i < length es \<and> es ! i = Named b s"
  by (induction s es arbitrary: i rule: dir_find.induct) (auto split: if_splits)

lemma dir_find_append: "dir_find s (es @ fs) = (case dir_find s es of Some r \<Rightarrow> Some r
    | None \<Rightarrow> map_option (\<lambda>(i, b). (length es + i, b)) (dir_find s fs))"
  by (induction s es rule: dir_find.induct) (auto split: option.splits simp: option.map_comp o_def case_prod_unfold
      option.map_ident)

section \<open>Comparing names\<close>

lemma cmp_name_eq:
  "0 \<notin> set nm \<Longrightarrow> 0 \<notin> set s \<Longrightarrow> length nm < n \<Longrightarrow>
     \<exists>c. cmp_name n (nm @ 0 # rest) s = Some c \<and> (c = 0 \<longleftrightarrow> s = nm)"
proof (induction nm arbitrary: s n)
  case Nil
  then obtain m where "n = Suc m" by (cases n) auto
  then show ?case using Nil(2)
    by (cases s) (auto simp: Let_def signed_eq_0_iff)
next
  case (Cons x nm)
  then obtain m where m: "n = Suc m" "0 < m" by (cases n) auto
  show ?case
  proof (cases s)
    case Nil
    then show ?thesis using Cons.prems m by (auto simp: Let_def signed_eq_0_iff)
  next
    case s: (Cons y t)
    show ?thesis
    proof (cases "x = y")
      case True
      then show ?thesis using Cons.IH [of t m] Cons.prems m s by (auto simp: Let_def)
    next
      case False
      then have "sint x \<noteq> sint y" by (metis signed_word_eqI)
      then show ?thesis using False s m by (auto simp: Let_def)
    qed
  qed
qed

lemma block_cmp_name:
  assumes "block_ok d b" "name_block d b nm" "0 \<notin> set s"
  shows "\<exists>c. block_cmp d b s = Some c \<and> (c = 0 \<longleftrightarrow> s = nm)"
proof -
  have f: "fits d b 0x80" using assms(1) by (simp add: block_ok_def)
  have ad: "add32 b 4 = b + 4" "add32 b BLK_MEM = b + 0x7c" using f by (auto simp: add32_eq fits_def BLK_MEM_def)
  have rd: "rd_read d (b + 4) 80 = Some (map (rd_mem d) [b + 4..<b + 4 + 80])"
    using f by (intro rd_read_fits) (simp add: fits_def)
  have l: "length nm < 80" "map (rd_mem d) [b + 4..<b + 4 + Suc (length nm)] = nm @ [0]"
    using assms(2) by (auto simp: name_block_def)
  have "[b + 4..<b + 4 + 80] = [b + 4..<b + 4 + Suc (length nm)] @ [b + 4 + Suc (length nm)..<b + 4 + 80]"
    using upt_add_eq_append [of "b + 4" "b + 4 + Suc (length nm)" "80 - Suc (length nm)"] l(1) by simp
  then obtain rest where buf: "map (rd_mem d) [b + 4..<b + 4 + 80] = nm @ 0 # rest"
    using l(2) by (metis append.assoc append_Cons append_Nil map_append)
  obtain c where c: "cmp_name (BLK_SZ - 8) (nm @ 0 # rest) s = Some c" "c = 0 \<longleftrightarrow> s = nm"
    using cmp_name_eq [of nm s "BLK_SZ - 8" rest] assms(2,3) l(1) by (auto simp: name_block_def BLK_SZ_def)
  have nx: "load32 d (b + 0x7c) = Some 0"
    using load32_fits [of d "b + 0x7c"] f assms(2) by (simp add: fits_def name_block_def)
  have "block_cmp d b s = Some c"
    unfolding block_cmp_def ad rd buf bind.bind_lunit c(1) nx
    by (simp add: cmp_rest.simps)
  then show ?thesis using c(2) by blast
qed

section \<open>Lookup\<close>

lemma slot_bound: "dir_ok d D es \<Longrightarrow> i \<le> length es \<Longrightarrow> fits d (D + 4 + 4 * i) 4 \<and> D + 8 + 4 * i < 2 ^ 32 \<and> 0 < D"
  by (auto simp: dir_ok_def block_ok_def fits_def)

lemma slot_mod:
  assumes "dir_ok d D es" "i < length es"
  shows "(D + 4 + 4 * i + 4) mod 0x80 \<noteq> 0x7c"
proof -
  obtain q where q: "D = 0x80 * q" using assms(1) by (auto simp: dir_ok_def block_ok_def)
  have "8 + 4 * i < 0x7c" using assms by (auto simp: dir_ok_def)
  then have "(0x80 * q + (8 + 4 * i)) mod 0x80 = 8 + 4 * i" by simp
  moreover have "D + 4 + 4 * i + 4 = 0x80 * q + (8 + 4 * i)" by (simp add: q)
  ultimately show ?thesis using \<open>8 + 4 * i < 0x7c\<close> by (simp only:)
qed

lemma scan_dir_from:
  assumes "dir_ok d D es" "0 \<notin> set s" "i \<le> length es"
  shows "scan_dir d s (D + 4 + 4 * i) =
    Some (case dir_find s (drop i es) of None \<Rightarrow> At_end (D + 4 + 4 * length es)
          | Some (j, b) \<Rightarrow> Match (D + 4 + 4 * (i + j)) b)"
  using assms(3)
proof (induction "length es - i" arbitrary: i)
  case 0
  then have i: "i = length es" by simp
  note b = slot_bound [OF assms(1), of i]
  have "get32 d (D + 4 + 4 * i) = 0" using assms(1) i by (simp add: dir_ok_def)
  then show ?case using b i rd_read_fits [of d "D + 4 + 4 * i" 4]
    by (subst scan_dir.simps) (simp add: get32_def del: upt_rec_numeral)
next
  case (Suc m)
  then have i: "i < length es" by simp
  note b = slot_bound [OF assms(1) less_imp_le [OF i]]
  define a where "a = D + 4 + 4 * i"
  have a: "fits d a 4" "a \<noteq> 0" "add32 a 4 = a + 4" using b by (auto simp: a_def add32_eq)
  have rd: "rd_read d a 4 = Some (map (rd_mem d) [a..<a + 4])" using rd_read_fits [OF a(1)] .
  have g: "le_bytes (map (rd_mem d) [a..<a + 4]) = get32 d a" by (simp add: get32_def)
  have len: "length (map (rd_mem d) [a..<a + 4]) = 4" by simp
  have e: "entry_ok d D a (es ! i)" using assms(1) i by (simp add: dir_ok_def a_def)
  have nz: "get32 d a \<noteq> 0" using e by (auto simp: entry_ok_def YLS_WIPE_def block_ok_def split: entry.splits)
  have next_slot: "(a + 4) mod BLK_SZ \<noteq> BLK_MEM" using slot_mod [OF assms(1) i] by (simp add: a_def BLK_SZ_def BLK_MEM_def)
  have step: "scan_dir d s a = Option.bind (if get32 d a = YLS_WIPE then Some 1 else block_cmp d (get32 d a) s)
      (\<lambda>c. if c \<noteq> 0 then scan_dir d s (a + 4) else Some (Match a (get32 d a)))"
    using a(2) nz next_slot by (subst scan_dir.simps) (simp only: rd g len a(3) bind.bind_lunit Let_def if_False simp_thms)
  have dr: "drop i es = es ! i # drop (Suc i) es" using i by (simp add: Cons_nth_drop_Suc)
  have IH: "scan_dir d s (a + 4) = Some (case dir_find s (drop (Suc i) es) of None \<Rightarrow> At_end (D + 4 + 4 * length es)
          | Some (j, b) \<Rightarrow> Match (D + 4 + 4 * (Suc i + j)) b)"
    using Suc.hyps(1) [of "Suc i"] Suc.hyps(2) i by (simp add: a_def algebra_simps)
  show ?case
  proof (cases "es ! i")
    case Wiped
    then have "get32 d a = YLS_WIPE" using e by (simp add: entry_ok_def)
    then show ?thesis unfolding a_def [symmetric] step using IH Wiped dr by (auto split: option.splits)
  next
    case (Named bk nm)
    then have k: "get32 d a = bk" "bk \<noteq> YLS_WIPE" "block_ok d bk" "name_block d bk nm" using e by (auto simp: entry_ok_def)
    obtain c where "block_cmp d bk s = Some c" "c = 0 \<longleftrightarrow> s = nm" using block_cmp_name [OF k(3,4) assms(2)] by blast
    then show ?thesis unfolding a_def [symmetric] step using IH Named dr k by (auto simp: a_def split: option.splits)
  qed
qed

lemma scan_dir_ok:
  assumes "dir_ok d D es" "0 \<notin> set s"
  shows "scan_dir d s (add32 D 4) =
    Some (case dir_find s es of None \<Rightarrow> At_end (D + 4 + 4 * length es) | Some (j, b) \<Rightarrow> Match (D + 4 + 4 * j) b)"
proof -
  have "add32 D 4 = D + 4" using slot_bound [OF assms(1), of 0] by (intro add32_eq) simp
  then show ?thesis using scan_dir_from [OF assms, of 0, unfolded add_0 mult_0_right drop_0 add_0_right] by simp
qed

section \<open>Removal\<close>

definition same_on :: "rd \<Rightarrow> rd \<Rightarrow> nat \<Rightarrow> nat \<Rightarrow> bool" where
  "same_on d d' a n \<longleftrightarrow> (\<forall>x. a \<le> x \<and> x < a + n \<longrightarrow> rd_mem d' x = rd_mem d x)"

lemma same_on_map: "same_on d d' a n \<Longrightarrow> a \<le> b \<Longrightarrow> b + m \<le> a + n \<Longrightarrow>
    map (rd_mem d') [b..<b + m] = map (rd_mem d) [b..<b + m]"
  by (auto simp: same_on_def)

lemma same_on_get32: "same_on d d' a n \<Longrightarrow> a \<le> b \<Longrightarrow> b + 4 \<le> a + n \<Longrightarrow> get32 d' b = get32 d b"
  unfolding get32_def by (simp only: same_on_map)

lemma same_on_write: "a + n \<le> off \<or> off + length bs \<le> a \<Longrightarrow> same_on d (writes d off bs) a n"
  by (auto simp: same_on_def put_def)

lemma name_block_frame: "name_block d b nm \<Longrightarrow> same_on d d' b 0x80 \<Longrightarrow> name_block d' b nm"
  using same_on_map [of d d' b 128 "b + 4" "Suc (length nm)"] same_on_get32 [of d d' b 128 "b + 124"]
  by (simp add: name_block_def del: upt_Suc)

lemma entry_ok_frame:
  assumes "entry_ok d D a e" "get32 d' a = get32 d a" "rd_size d' = rd_size d"
    and "\<And>b nm. e = Named b nm \<Longrightarrow> same_on d d' b 0x80"
  shows "entry_ok d' D a e"
  using assms name_block_frame [of d _ _ d']
  by (auto simp: entry_ok_def block_ok_def fits_def split: entry.splits)

text \<open>A directory of a mounted disk: its blocks lie behind the inode table, its entries name inodes.\<close>

definition fs_dir :: "blkfs \<Rightarrow> nat \<Rightarrow> entry list \<Rightarrow> bool" where
  "fs_dir fs n es \<longleftrightarrow> n < length (nodes fs) \<and> dir_ok (dev fs) (info (nodes fs ! n)) es \<and>
     fits (dev fs) 0 0x400 \<and> 0x400 \<le> info (nodes fs ! n) \<and>
     (\<forall>b nm. Named b nm \<in> set es \<longrightarrow> 0x400 \<le> b \<and> get32 (dev fs) b < NODES)"

definition names_dir :: "blkfs \<Rightarrow> nat \<Rightarrow> bool" where
  "names_dir fs b \<longleftrightarrow> get32 (dev fs) (INODE_START + get32 (dev fs) b * 0x10 + 12) = YLS_DIR"

lemma dir_ok_wipe:
  assumes "dir_ok d D es" "i < length es"
  shows "dir_ok (writes d (D + 4 + 4 * i) (bytes32 YLS_WIPE)) D (es[i := Wiped])"
proof -
  let ?d = "writes d (D + 4 + 4 * i) (bytes32 YLS_WIPE)"
  have l: "length es < 30" using assms(1) by (simp add: dir_ok_def)
  have other: "get32 ?d (D + 4 + 4 * j) = get32 d (D + 4 + 4 * j)" if "j \<noteq> i" for j
    using that by (intro get32_write_other) (cases "j < i"; simp)
  have "entry_ok ?d D (D + 4 + 4 * j) (es[i := Wiped] ! j)" if j: "j < length es" for j
  proof (cases "j = i")
    case True
    then show ?thesis using assms(2) get32_write_same [of YLS_WIPE d "D + 4 + 4 * i"]
      by (simp add: entry_ok_def YLS_WIPE_def)
  next
    case False
    have e: "entry_ok d D (D + 4 + 4 * j) (es ! j)" using assms(1) j by (simp add: dir_ok_def)
    have "same_on d ?d b 0x80" if "es ! j = Named b nm" for b nm
    proof -
      have "D + 0x80 \<le> b \<or> b + 0x80 \<le> D"
        using e that assms(1) by (intro block_apart) (auto simp: entry_ok_def dir_ok_def block_ok_def)
      then show ?thesis using l assms(2) by (intro same_on_write) auto
    qed
    then show ?thesis using entry_ok_frame [OF e other [OF False]] False by simp
  qed
  then show ?thesis using assms other [of "length es"] by (simp add: dir_ok_def)
qed

lemma unat_of_char: "unat (of_char c :: u8) = of_char c"
proof -
  have "(of_char c :: u8) = of_nat (of_char c :: nat)" by (simp add: of_nat_of_char)
  then show ?thesis by (simp only: unat_of_nat) simp
qed

lemma bytes_of_nz: "CHR 0x00 \<notin> set name \<Longrightarrow> 0 \<notin> set (bytes_of name)"
proof
  assume a: "CHR 0x00 \<notin> set name" "0 \<in> set (bytes_of name)"
  then obtain c where c: "c \<in> set name" "(of_char c :: u8) = 0" by (auto simp: bytes_of_def)
  have "(of_char c :: nat) = 0" using unat_of_char [of c] unfolding c(2) by simp
  then have "c = char_of (0 :: nat)" by (metis char_of_char)
  moreover have "char_of (0 :: nat) = CHR 0x00" by (simp add: char_of_def)
  ultimately show False using c(1) a(1) by simp
qed

lemma bytes_of_inj: "bytes_of s = bytes_of t \<longleftrightarrow> s = t"
proof -
  have "inj (of_char :: char \<Rightarrow> u8)"
    by (rule injI) (metis unat_of_char of_char_eq_iff)
  then show ?thesis by (simp add: bytes_of_def inj_map_eq_map)
qed

lemma removal_cases:
  assumes "fs_dir fs n es" "CHR 0x00 \<notin> set name" "char_at name 0 \<noteq> CHR ''.''"
  shows "remove_entry wrong msg fs n name =
    (case dir_find (bytes_of name) es of
       None \<Rightarrow> Some (Refused ''No such file or directory'', fs)
     | Some (i, b) \<Rightarrow>
         if wrong (get32 (dev fs) (INODE_START + get32 (dev fs) b * 0x10 + 12)) then Some (Refused msg, fs)
         else Some (Removed, fs\<lparr>dev := writes (dev fs) (info (nodes fs ! n) + 4 + 4 * i) (bytes32 YLS_WIPE)\<rparr>))"
proof -
  define D where "D = info (nodes fs ! n)"
  have d: "dir_ok (dev fs) D es" "node_at fs n = Some (nodes fs ! n)" "fits (dev fs) 0 0x400"
    using assms(1) by (auto simp: fs_dir_def node_at_def D_def)
  note nz = bytes_of_nz [OF assms(2)]
  note sc = scan_dir_ok [OF d(1) nz]
  show ?thesis
  proof (cases "dir_find (bytes_of name) es")
    case None
    then show ?thesis using d sc assms(3) by (simp add: remove_entry_def D_def)
  next
    case (Some p)
    then obtain i b where p: "p = (i, b)" "i < length es" "es ! i = Named b (bytes_of name)"
      using dir_find_Some by (metis surj_pair)
    have e: "entry_ok (dev fs) D (D + 4 + 4 * i) (es ! i)" using d(1) p(2) by (simp add: dir_ok_def)
    have lt: "get32 (dev fs) b < NODES" using assms(1) p nth_mem [of i es] unfolding fs_dir_def by metis
    have "fits (dev fs) b 4" using e p(3) by (auto simp: entry_ok_def block_ok_def fits_def)
    then have l1: "load32 (dev fs) b = Some (get32 (dev fs) b)" by (rule load32_fits)
    define a where "a = INODE_START + get32 (dev fs) b * 0x10 + 12"
    have a: "add32 INODE_START (add32 (get32 (dev fs) b * 0x10) 12) = a" "a + 4 \<le> 0x400"
      using lt by (auto simp: NODES_def INODE_START_def INODE_END_def add32_eq a_def)
    then have "fits (dev fs) a 4" using d(3) by (auto simp: fits_def)
    then have l2: "load32 (dev fs) a = Some (get32 (dev fs) a)" by (rule load32_fits)
    have st: "store32 (dev fs) (D + 4 + 4 * i) YLS_WIPE = Some (writes (dev fs) (D + 4 + 4 * i) (bytes32 YLS_WIPE))"
      using slot_bound [OF d(1)] p(2) by (intro store32_fits) simp
    show ?thesis using d(2) sc Some p(1) assms(3) l1 l2 a(1) st
      by (simp add: remove_entry_def D_def [symmetric] a_def [symmetric])
  qed
qed

section \<open>Creation\<close>

lemma new_inode_least:
  assumes "fits d 0 0x400" "i < NODES" "get32 d (INODE_START + 0x10 * i) = 0"
    and "\<And>j. j < i \<Longrightarrow> get32 d (INODE_START + 0x10 * j) \<noteq> 0"
  shows "new_inode d = Some (INODE_START + 0x10 * i, writes d (INODE_START + 0x10 * i) (bytes32 1))"
proof -
  have i60: "i < 60" using assms(2) by (simp add: NODES_def INODE_START_def INODE_END_def)
  have f: "fits d (INODE_START + 0x10 * j) 4" if "j \<le> i" for j
    using assms(1) that i60 by (auto simp: fits_def INODE_START_def)
  have "new_inode_from d (INODE_START + 0x10 * j) = Some (INODE_START + 0x10 * i, writes d (INODE_START + 0x10 * i) (bytes32 1))"
    if "j \<le> i" for j
    using that
  proof (induction "i - j" arbitrary: j)
    case 0
    then show ?case using f [of i] assms(3)
      by (subst new_inode_from.simps) (simp add: load32_fits store32_fits)
  next
    case (Suc m)
    then have "add32 (INODE_START + 0x10 * j) 0x10 = INODE_START + 0x10 * Suc j"
      using i60 by (simp add: add32_eq INODE_START_def)
    moreover have "get32 d (INODE_START + 0x10 * j) \<noteq> 0" using assms(4) [of j] Suc.hyps(2) by simp
    moreover have "new_inode_from d (INODE_START + 0x10 * Suc j) =
        Some (INODE_START + 0x10 * i, writes d (INODE_START + 0x10 * i) (bytes32 1))"
      using Suc.hyps(1) [of "Suc j"] Suc.hyps(2) by simp
    ultimately show ?case using f [OF Suc.prems]
      by (subst new_inode_from.simps) (simp only: load32_fits bind.bind_lunit if_False)
  qed
  from this [of 0] show ?thesis by (simp add: new_inode_def)
qed

definition fs_room :: "blkfs \<Rightarrow> nat \<Rightarrow> entry list \<Rightarrow> bool" where
  "fs_room fs n es \<longleftrightarrow> length (nodes fs) = NODES \<and> 2 \<le> card (free_set (dev fs)) \<and>
     (\<forall>k\<in>free_set (dev fs). block_ok (dev fs) (blk k) \<and> 0x400 \<le> blk k \<and> blk k \<noteq> YLS_WIPE \<and>
        blk k \<noteq> info (nodes fs ! n) \<and> (\<forall>nm. Named (blk k) nm \<notin> set es) \<and>
        (\<forall>x. blk k \<le> x \<and> x < blk k + 0x80 \<longrightarrow> rd_mem (dev fs) x = 0)) \<and>
     (\<exists>i<NODES. get32 (dev fs) (INODE_START + 0x10 * i) = 0) \<and>
     get32 (dev fs) (INODE_START + 0x10 * n) \<noteq> 0 \<and>
     (\<forall>x. 4 + 4 * length es \<le> x \<and> x < 0x80 \<longrightarrow> rd_mem (dev fs) (info (nodes fs ! n) + x) = 0)"

text \<open>What \<^verbatim>\<open>new_entry\<close> leaves above the inode table: the slot and the name block.\<close>

definition entry_mem :: "(nat \<Rightarrow> u8) \<Rightarrow> nat \<Rightarrow> nat \<Rightarrow> nat \<Rightarrow> u8 list \<Rightarrow> nat \<Rightarrow> u8" where
  "entry_mem m slot off i nm = put (put (put m slot (bytes32 off)) off (bytes32 i)) (off + 4) nm"

lemma length_node_bytes [simp]: "length (node_bytes nd) = 16"
  by (simp add: node_bytes_def)

lemma new_block_two:
  assumes "fits d 0 0x40" "2 \<le> card (free_set d)"
  obtains k1 k2 d1 where "new_block d = Some (blk k1, d1)" "k1 \<in> free_set d" "k2 \<in> free_set d" "k1 \<noteq> k2"
    "rd_size d1 = rd_size d" "\<forall>x\<ge>0x40. rd_mem d1 x = rd_mem d x"
    "\<And>a w. 0x40 \<le> a \<Longrightarrow> \<exists>d3. new_block (writes d1 a w) = Some (blk k2, d3) \<and> rd_size d3 = rd_size d \<and>
       (\<forall>x\<ge>0x40. rd_mem d3 x = put (rd_mem d1) a w x)"
proof -
  have "free_set d \<noteq> {}" using assms(2) by auto
  then obtain k1 d1 where 1: "new_block d = Some (blk k1, d1)" "k1 \<in> free_set d"
    "free_set d1 = free_set d - {k1}" "rd_size d1 = rd_size d" "\<forall>x\<ge>0x40. rd_mem d1 x = rd_mem d x"
    using new_block_free [OF assms(1)] by metis
  have c: "card (free_set d1) = card (free_set d) - 1" using 1(2,3) by simp
  then have ne: "free_set d1 \<noteq> {}" using assms(2) by auto
  define k2 where "k2 = Min (free_set d1)"
  have k2: "k2 \<in> free_set d1" unfolding k2_def using ne by (intro Min_in) auto
  show ?thesis
  proof (rule that [OF 1(1,2) _ _ 1(4,5), of k2])
    fix a :: nat and w :: "u8 list" assume a: "0x40 \<le> a"
    have "free_set (writes d1 a w) = free_set d1" using a by (rule free_set_write)
    moreover have "fits (writes d1 a w) 0 0x40" using assms(1) 1(4) by (simp add: fits_def)
    ultimately show "\<exists>d3. new_block (writes d1 a w) = Some (blk k2, d3) \<and> rd_size d3 = rd_size d \<and>
       (\<forall>x\<ge>0x40. rd_mem d3 x = put (rd_mem d1) a w x)"
      using new_block_free [of "writes d1 a w"] ne 1(4) by (metis k2_def rd.select_convs rd.simps(3) rd.update_convs(1) rd.surjective)
  qed (use k2 1(3) in auto)
qed

lemma put_low: "off + length bs \<le> x \<Longrightarrow> put m off bs x = m x"
  by (simp add: put_def)

lemma new_entry_result:
  assumes "fs_dir fs n es" "fs_room fs n es" "length name < 80" "slot = info (nodes fs ! n) + 4 + 4 * length es"
  shows "\<exists>i off blk2 fs' k1 k2. new_entry ty fs slot name = Some (i, blk2, fs') \<and>
     i < NODES \<and> get32 (dev fs) (INODE_START + 0x10 * i) = 0 \<and>
     off = blk k1 \<and> k1 \<in> free_set (dev fs) \<and> blk2 = blk k2 \<and> k2 \<in> free_set (dev fs) \<and> k1 \<noteq> k2 \<and>
     rd_size (dev fs') = rd_size (dev fs) \<and>
     (\<forall>x\<ge>0x400. rd_mem (dev fs') x = entry_mem (rd_mem (dev fs)) slot off i (bytes_of name) x) \<and>
     nodes fs' = (nodes fs)[i := \<lparr>refcnt = 1, info = blk2, node_size = 0, node_type = ty\<rparr>]"
proof -
  define d where "d = dev fs"
  have f: "fits d 0 0x400" "fits d 0 0x40" using assms(1) by (auto simp: fs_dir_def d_def fits_def)
  have card2: "2 \<le> card (free_set d)" using assms(2) by (simp add: fs_room_def d_def)
  obtain k1 k2 d1 where b1: "new_block d = Some (blk k1, d1)" "k1 \<in> free_set d" "k2 \<in> free_set d" "k1 \<noteq> k2"
      "rd_size d1 = rd_size d" "\<forall>x\<ge>0x40. rd_mem d1 x = rd_mem d x"
    and b2: "\<And>a w. 0x40 \<le> a \<Longrightarrow> \<exists>d3. new_block (writes d1 a w) = Some (blk k2, d3) \<and> rd_size d3 = rd_size d \<and>
       (\<forall>x\<ge>0x40. rd_mem d3 x = put (rd_mem d1) a w x)"
    by (rule new_block_two [OF f(2) card2]) (rule that; assumption)
  have g1: "get32 d1 x = get32 d x" if "0x40 \<le> x" for x
    using same_on_get32 [of d d1 x 4 x] b1(6) that by (simp add: same_on_def)
  define i where "i = (LEAST i. get32 d (INODE_START + 0x10 * i) = 0)"
  obtain i0 where i0: "i0 < NODES" "get32 d (INODE_START + 0x10 * i0) = 0" using assms(2) by (auto simp: fs_room_def d_def)
  let ?P = "\<lambda>i. get32 d (INODE_START + 0x10 * i) = 0"
  have "?P i" unfolding i_def using i0(2) by (rule LeastI)
  moreover have "i \<le> i0" unfolding i_def using i0(2) by (rule Least_le)
  moreover have "\<not> ?P j" if "j < i" for j using not_less_Least [of j ?P] that unfolding i_def by blast
  ultimately have i: "?P i" "i < NODES" "\<And>j. j < i \<Longrightarrow> \<not> ?P j" using i0(1) by auto
  have i60: "i < 60" using i(2) by (simp add: NODES_def INODE_START_def INODE_END_def)
  define a where "a = INODE_START + 0x10 * i"
  have a: "0x40 \<le> a" "a + 16 \<le> 0x400" using i60 by (auto simp: a_def INODE_START_def)
  have inode: "new_inode d1 = Some (a, writes d1 a (bytes32 1))"
    unfolding a_def using i g1 f(1) b1(5)
    by (intro new_inode_least) (auto simp: fits_def INODE_START_def)
  obtain d3 where d3: "new_block (writes d1 a (bytes32 1)) = Some (blk k2, d3)" "rd_size d3 = rd_size d"
      "\<forall>x\<ge>0x40. rd_mem d3 x = put (rd_mem d1) a (bytes32 1) x"
    using b2 [OF a(1)] by blast
  have slotf: "fits d slot 4" "0x400 \<le> slot"
    using slot_bound [of d "info (nodes fs ! n)" es "length es"] assms(1,4) by (auto simp: fs_dir_def d_def)
  have k1: "block_ok d (blk k1)" "0x400 \<le> blk k1" using assms(2) b1(2) by (auto simp: fs_room_def d_def)
  define d4 where "d4 = writes d3 slot (bytes32 (blk k1))"
  have s4: "store32 d3 slot (blk k1) = Some d4" using slotf d3(2) by (simp add: d4_def store32_fits fits_def)
  have ii: "(a - INODE_START) div 0x10 = i" by (simp add: a_def)
  define nd where "nd = \<lparr>refcnt = 1, info = blk k2, node_size = 0, node_type = ty\<rparr>"
  define d5 where "d5 = writes d4 a (node_bytes nd)"
  have "rd_write d4 a (node_bytes nd) = Some (16, d5)"
    using f(1) a(2) d3(2) rd_write_fits [of d4 a "node_bytes nd"] by (simp add: d5_def d4_def fits_def)
  then have s5: "add_inode (fs\<lparr>dev := d4\<rparr>) i nd = Some \<lparr>dev = d5, nodes = (nodes fs)[i := nd]\<rparr>"
    using assms(2) i(2) by (simp add: add_inode_def node_at_def fs_room_def a_def algebra_simps)
  define d6 where "d6 = writes d5 (blk k1) (bytes32 i)"
  have s6: "store32 d5 (blk k1) i = Some d6"
    using k1(1) d3(2) by (simp add: d6_def d5_def d4_def store32_fits fits_def block_ok_def)
  define d7 where "d7 = writes d6 (blk k1 + 4) (bytes_of name)"
  have ad: "add32 (blk k1) 4 = blk k1 + 4" using k1(1) by (intro add32_eq) (auto simp: block_ok_def fits_def)
  have s7: "rd_write d6 (blk k1 + 4) (bytes_of name) = Some (length name, d7)"
    using k1(1) d3(2) assms(3) rd_write_fits [of d6 "blk k1 + 4" "bytes_of name"]
    by (simp add: d7_def d6_def d5_def d4_def fits_def block_ok_def bytes_of_def)
  have "new_entry ty fs slot name = Some (i, blk k2, \<lparr>dev = d7, nodes = (nodes fs)[i := nd]\<rparr>)"
    using b1(1) inode d3(1) s4 ii s5 [unfolded nd_def] s6 ad s7
    by (simp add: new_entry_def d_def [symmetric] nd_def Let_def)
  moreover have "rd_mem d7 x = entry_mem (rd_mem d) slot (blk k1) i (bytes_of name) x" if "0x400 \<le> x" for x
  proof -
    have "rd_mem d3 y = rd_mem d y" if "0x400 \<le> y" for y
      using d3(3) b1(6) that a by (simp add: put_low)
    then have "rd_mem d5 y = put (rd_mem d) slot (bytes32 (blk k1)) y" if "0x400 \<le> y" for y
      using that a by (simp add: d5_def d4_def put_low) (simp add: put_def)
    then show ?thesis using that by (auto simp: d7_def d6_def entry_mem_def put_def)
  qed
  ultimately show ?thesis using i b1(2-4) d3(2)
    by (intro exI [of _ i] exI [of _ "blk k1"] exI [of _ "blk k2"] exI [of _ "\<lparr>dev = d7, nodes = (nodes fs)[i := nd]\<rparr>"]
        exI [of _ k1] exI [of _ k2]) (simp add: d_def nd_def d7_def d6_def d5_def d4_def)
qed

lemma zero_get32: "(\<And>x. a \<le> x \<Longrightarrow> x < a + 4 \<Longrightarrow> rd_mem d x = 0) \<Longrightarrow> get32 d a = 0"
proof -
  assume z: "\<And>x. a \<le> x \<Longrightarrow> x < a + 4 \<Longrightarrow> rd_mem d x = 0"
  have "map (rd_mem d) [a..<a + 4] = [0, 0, 0, 0]" using z by (simp add: upt_conv_Cons)
  then show ?thesis by (simp add: get32_def)
qed

lemma get32_put: "(\<And>x. a \<le> x \<Longrightarrow> x < a + 4 \<Longrightarrow> rd_mem d x = put m a (bytes32 v) x) \<Longrightarrow> v < 2 ^ 32 \<Longrightarrow> get32 d a = v"
proof -
  assume z: "\<And>x. a \<le> x \<Longrightarrow> x < a + 4 \<Longrightarrow> rd_mem d x = put m a (bytes32 v) x" and v: "v < 2 ^ 32"
  have "map (rd_mem d) [a..<a + 4] = map (put m a (bytes32 v)) [a..<a + 4]" using z by simp
  also have "\<dots> = bytes32 v" using put_inside [of m a "bytes32 v"] by simp
  finally show ?thesis using v by (simp only: get32_def le_bytes32) simp
qed

text \<open>The directory after an entry was appended.\<close>

lemma dir_append:
  assumes "fs_dir fs n es" "fs_room fs n es" "length es < 29" "length nm < 80" "0 \<notin> set nm"
    and "k \<in> free_set (dev fs)" "off = blk k" "i < NODES" "slot = info (nodes fs ! n) + 4 + 4 * length es"
    and "rd_size d' = rd_size (dev fs)"
    and "\<forall>x\<ge>0x400. rd_mem d' x = entry_mem (rd_mem (dev fs)) slot off i nm x"
  shows "dir_ok d' (info (nodes fs ! n)) (es @ [Named off nm])" "get32 d' off = i"
    and "\<And>b nm. Named b nm \<in> set es \<Longrightarrow> same_on (dev fs) d' b 0x80"
proof -
  define d where "d = dev fs"
  define D where "D = info (nodes fs ! n)"
  have ok: "dir_ok d D es" "0x400 \<le> D" using assms(1) by (auto simp: fs_dir_def d_def D_def)
  have off: "block_ok d off" "0x400 \<le> off" "off \<noteq> YLS_WIPE" "off \<noteq> D" "\<And>nm. Named off nm \<notin> set es"
      "\<And>x. off \<le> x \<Longrightarrow> x < off + 0x80 \<Longrightarrow> rd_mem d x = 0"
    and tail: "\<And>x. 4 + 4 * length es \<le> x \<Longrightarrow> x < 0x80 \<Longrightarrow> rd_mem d (D + x) = 0"
    using assms(2,6,7) by (auto simp: fs_room_def d_def D_def)
  have D: "block_ok d D" using ok by (simp add: dir_ok_def)
  have apart: "D + 0x80 \<le> off \<or> off + 0x80 \<le> D"
    using off D by (intro block_apart) (auto simp: block_ok_def)
  have sl: "slot = D + 4 + 4 * length es" by (simp add: assms(9) D_def)
  have m: "rd_mem d' x = entry_mem (rd_mem d) slot off i nm x" if "0x400 \<le> x" for x
    using assms(11) that by (simp add: d_def)
  have mD: "rd_mem d' x = put (rd_mem d) slot (bytes32 off) x" if "D \<le> x" "x < D + 0x80" for x
    using m [of x] that ok(2) apart assms(4) by (auto simp: entry_mem_def put_def)
  have moff: "rd_mem d' x = put (put (rd_mem d) off (bytes32 i)) (off + 4) nm x" if "off \<le> x" "x < off + 0x80" for x
    using m [of x] that off(2) apart assms(3) by (auto simp: entry_mem_def put_def sl)
  have gD: "get32 d' (D + 4 + 4 * j) = get32 d (D + 4 + 4 * j)" if "j < length es" for j
  proof (rule same_on_get32 [where n = 4])
    show "same_on d d' (D + 4 + 4 * j) 4"
      using mD that assms(3) by (auto simp: same_on_def put_def sl)
  qed auto
  have frame: "same_on d d' b 0x80" if e: "Named b nm' \<in> set es" for b nm'
  proof -
    have b: "0x400 \<le> b" using assms(1) that by (auto simp: fs_dir_def)
    obtain j where j: "j < length es" "es ! j = Named b nm'" using e unfolding in_set_conv_nth by blast
    then have "block_ok d b" "b \<noteq> D" using ok(1) by (auto simp: dir_ok_def entry_ok_def)
    moreover have "b \<noteq> off" using off(5) that by auto
    ultimately have "D + 0x80 \<le> b \<or> b + 0x80 \<le> D" "off + 0x80 \<le> b \<or> b + 0x80 \<le> off"
      using D off(1) block_apart by (auto simp: block_ok_def)
    then show ?thesis using m b assms(3,4) by (auto simp: same_on_def entry_mem_def put_def sl)
  qed
  then show "\<And>b nm. Named b nm \<in> set es \<Longrightarrow> same_on (dev fs) d' b 0x80" by (simp add: d_def)
  have i32: "i < 2 ^ 32" using assms(8) by (simp add: NODES_def INODE_START_def INODE_END_def)
  have off32: "off < 2 ^ 32" using off(1) by (simp add: block_ok_def fits_def)
  show "get32 d' off = i"
    using moff i32 by (intro get32_put [of off d' "rd_mem d"]) (auto simp: put_def)
  have okd': "block_ok d' b = block_ok d b" for b using assms(10) by (simp add: block_ok_def fits_def d_def)
  have "name_block d' off nm"
  proof -
    have "map (rd_mem d') [off + 4..<off + 4 + length nm] = nm"
    proof -
      have "map (rd_mem d') [off + 4..<off + 4 + length nm] =
          map (put (put (rd_mem d) off (bytes32 i)) (off + 4) nm) [off + 4..<off + 4 + length nm]"
        using moff assms(4) by simp
      then show ?thesis by (simp only: put_inside)
    qed
    moreover have "rd_mem d' (off + 4 + length nm) = 0" using moff off(6) assms(4) by (simp add: put_def)
    moreover have "get32 d' (off + 0x7c) = 0" using moff off(6) assms(4) by (intro zero_get32) (simp add: put_def)
    moreover have "[off + 4..<off + 4 + Suc (length nm)] = [off + 4..<off + 4 + length nm] @ [off + 4 + length nm]"
      by (simp only: add_Suc_right upt_Suc) simp
    ultimately show ?thesis using assms(4,5) by (simp only: name_block_def map_append) simp
  qed
  moreover have "get32 d' slot = off"
    using mD off32 assms(3) by (intro get32_put [of slot d' "rd_mem d"]) (auto simp: sl)
  ultimately have new: "entry_ok d' D slot (Named off nm)" using off okd' by (simp add: entry_ok_def)
  have "entry_ok d' D (D + 4 + 4 * j) ((es @ [Named off nm]) ! j)" if j: "j < Suc (length es)" for j
  proof (cases "j = length es")
    case False
    then have j': "j < length es" using j by simp
    then have "entry_ok d D (D + 4 + 4 * j) (es ! j)" using ok(1) by (simp add: dir_ok_def)
    then have "entry_ok d' D (D + 4 + 4 * j) (es ! j)"
    proof (rule entry_ok_frame)
      show "rd_size d' = rd_size d" using assms(10) by (simp add: d_def)
      show "same_on d d' b 0x80" if "es ! j = Named b nm" for b nm
        using frame [of b nm] nth_mem [OF j'] that by simp
    qed (rule gD [OF j'])
    then show ?thesis using j' by (simp add: nth_append)
  qed (use new sl in simp)
  moreover have "get32 d' (D + 4 + 4 * Suc (length es)) = 0"
  proof (rule zero_get32)
    fix x assume x: "D + 4 + 4 * Suc (length es) \<le> x" "x < D + 4 + 4 * Suc (length es) + 4"
    have "rd_mem d' x = put (rd_mem d) slot (bytes32 off) x" using x assms(3) by (intro mD) auto
    also have "\<dots> = rd_mem d (D + (x - D))" using x by (simp add: sl put_def)
    also have "\<dots> = 0" using x assms(3) by (intro tail) auto
    finally show "rd_mem d' x = 0" .
  qed
  ultimately show "dir_ok d' (info (nodes fs ! n)) (es @ [Named off nm])"
    using D assms(3) okd' unfolding D_def [symmetric] by (simp add: dir_ok_def)
qed

section \<open>Properties\<close>

definition plain_name :: "string \<Rightarrow> bool" where
  "plain_name name \<longleftrightarrow> name \<noteq> [] \<and> CHR 0x00 \<notin> set name \<and> CHR ''/'' \<notin> set name \<and> hd name \<noteq> CHR ''.'' \<and>
     length name < 80"

lemma layer_len:
  assumes "plain_name name" "rest = [] \<or> hd rest = CHR ''/''"
  shows "get_first_layer (name @ rest) = length name"
proof -
  have n: "takeWhile (\<lambda>c. c \<noteq> CHR ''/'') (name @ rest) = name"
    using assms by (cases rest) (auto simp: plain_name_def takeWhile_append)
  show ?thesis
  proof (cases "rest = []")
    case True
    then show ?thesis using assms(1) by (simp add: get_first_layer_def first_slash plain_name_def)
  next
    case False
    then have "CHR ''/'' \<in> set (name @ rest)" using assms(2) by (cases rest) auto
    then show ?thesis unfolding get_first_layer_def first_slash n by simp
  qed
qed

lemma find_layer:
  assumes "fs_dir fs n es" "node_type (nodes fs ! n) = YLS_DIR" "plain_name name" "rest = [] \<or> hd rest = CHR ''/''"
  shows "blkfs_ifind k rp fs cur n (name @ rest) flags =
    (case dir_find (bytes_of name) es of
       Some (i, b) \<Rightarrow> Some (Next (BlkI k (get32 (dev fs) b)) rest, fs)
     | None \<Rightarrow>
         if has_flag flags O_CREATE \<and> rest = [] then
           (if has_flag flags O_DIRECTORY
            then map_option (\<lambda>(i, fs'). (Found (BlkI k i), fs'))
              (new_direc k fs cur (info (nodes fs ! n) + 4 + 4 * length es) name)
            else map_option (\<lambda>(i, fs'). (Found (BlkI k i), fs'))
              (new_file fs (info (nodes fs ! n) + 4 + 4 * length es) name))
         else Some (Missing ''No such file or directory'', fs))"
proof -
  define D where "D = info (nodes fs ! n)"
  have d: "dir_ok (dev fs) D es" "node_at fs n = Some (nodes fs ! n)"
    using assms(1) by (auto simp: fs_dir_def node_at_def D_def)
  obtain c cs where c: "name = c # cs" "c \<noteq> CHR ''/''" "c \<noteq> CHR ''.''"
    using assms(3) by (cases name) (auto simp: plain_name_def)
  have ch: "check (node_type (nodes fs ! n) = YLS_DIR) cur (name @ rest) flags = Inr (name @ rest)"
    using c by (simp add: check_def char_at_def Let_def)
  have dot: "char_at (name @ rest) 0 \<noteq> CHR ''.''" using c by (simp add: char_at_def)
  have nz: "0 \<notin> set (bytes_of name)" using assms(3) bytes_of_nz by (simp add: plain_name_def)
  note sc = scan_dir_ok [OF d(1) nz]
  have len: "length name < 0x100" using assms(3) by (simp add: plain_name_def)
  have base: "blkfs_ifind k rp fs cur n (name @ rest) flags =
      Option.bind (scan_dir (dev fs) (bytes_of name) (add32 D 4)) (\<lambda>r.
        case r of
                 Exhausted \<Rightarrow> None
               | At_end off \<Rightarrow>
                   if has_flag flags O_CREATE \<and> length name = length (name @ rest) then
                     (if has_flag flags O_DIRECTORY
                      then map_option (\<lambda>(i, fs'). (Found (BlkI k i), fs')) (new_direc k fs cur off (name @ rest))
                      else map_option (\<lambda>(i, fs'). (Found (BlkI k i), fs')) (new_file fs off (name @ rest)))
                   else Some (Missing ''No such file or directory'', fs)
               | Match _ bk \<Rightarrow> do {
                   i \<leftarrow> load32 (dev fs) bk;
                   Some (Next (BlkI k i) rest, fs)})"
    unfolding blkfs_ifind_def d(2) bind.bind_lunit ch sum.case layer_len [OF assms(3,4)] Let_def
    using dot len by (simp add: D_def cong: scan.case_cong)
  show ?thesis
  proof (cases "dir_find (bytes_of name) es")
    case None
    then show ?thesis unfolding base sc by (simp add: D_def)
  next
    case (Some p)
    then obtain i b where p: "p = (i, b)" "i < length es" "es ! i = Named b (bytes_of name)"
      using dir_find_Some by (metis surj_pair)
    have "entry_ok (dev fs) D (D + 4 + 4 * i) (es ! i)" using d(1) p(2) by (simp add: dir_ok_def)
    then have "fits (dev fs) b 4" using p(3) by (auto simp: entry_ok_def block_ok_def fits_def)
    then show ?thesis unfolding base sc using Some p(1) by (simp add: load32_fits)
  qed
qed

text \<open>A small disk: the root directory, whose block is at \<open>0x480\<close>, with one empty file \<open>a\<close>.\<close>

definition demo_mem :: "nat \<Rightarrow> u8" where
  "demo_mem x =
     (if x = 0 then 0xff else if x = 1 then 0x0f
      else if x = 0x40 then 1 else if x = 0x44 then 0x80 else if x = 0x45 then 0x04 else if x = 0x48 then 8
      else if x = 0x50 then 1 else if x = 0x54 then 0x80 else if x = 0x55 then 0x05 else if x = 0x5c then 1
      else if x = 0x485 then 0x05 else if x = 0x500 then 1 else if x = 0x504 then 97 else 0)"

definition demo_fs :: blkfs where
  "demo_fs = \<lparr>dev = \<lparr>rd_mem = demo_mem, rd_size = 0x10000\<rparr>,
     nodes = [\<lparr>refcnt = 1, info = 0x480, node_size = 8, node_type = YLS_DIR\<rparr>,
       \<lparr>refcnt = 1, info = 0x580, node_size = 0, node_type = YLS_FILE\<rparr>] @
       replicate 58 \<lparr>refcnt = 0, info = 0, node_size = 0, node_type = 0\<rparr>\<rparr>"

lemma get32_bytes: "get32 d a = unat (rd_mem d a) + 2 ^ 8 * (unat (rd_mem d (a + 1)) +
    2 ^ 8 * (unat (rd_mem d (a + 2)) + 2 ^ 8 * unat (rd_mem d (a + 3))))"
  by (simp add: get32_def upt_conv_Cons numeral_3_eq_3)

lemma demo_dir: "fs_dir demo_fs 0 [Named 0x500 [97]]"
  by (simp add: fs_dir_def dir_ok_def entry_ok_def name_block_def block_ok_def fits_def demo_fs_def get32_bytes
      demo_mem_def NODES_def INODE_START_def INODE_END_def YLS_WIPE_def upt_conv_Cons)

lemma demo_room: "fs_room demo_fs 0 [Named 0x500 [97]]"
proof -
  have f: "k \<in> free_set (dev demo_fs) \<longleftrightarrow> 12 \<le> k \<and> k < 512" for k
  proof -
    have m: "demo_mem x = (if x = 0 then 0xff else if x = 1 then 15 else 0)" if "x < 64" for x
      using that by (auto simp: demo_mem_def)
    have "bit (0xff :: u8) (k mod 8)" using all_bits [of "0xff"] by simp
    moreover have "k div 8 = 0 \<longleftrightarrow> k < 8" "k div 8 = 1 \<longleftrightarrow> 8 \<le> k \<and> k < 16" by auto
    moreover have "k < 512 \<Longrightarrow> k div 8 < 64" by auto
    moreover have "8 \<le> k \<Longrightarrow> k < 16 \<Longrightarrow> k mod 8 = k - 8" by (simp add: mod_if)
    ultimately show ?thesis unfolding free_set_def
      by (cases "k < 512"; cases "k < 8"; cases "k < 16") (auto simp: demo_fs_def m bit_15 simp del: bit_numeral_word_iff)
  qed
  have "free_set (dev demo_fs) = {12..<512}" by (intro set_eqI) (simp only: f atLeastLessThan_iff)
  then have "2 \<le> card (free_set (dev demo_fs))" by simp
  moreover have "get32 (dev demo_fs) (INODE_START + 0x10 * 2) = 0" "get32 (dev demo_fs) (INODE_START + 0x10 * 0) \<noteq> 0"
    by (simp_all add: get32_bytes demo_fs_def demo_mem_def INODE_START_def)
  moreover have "block_ok (dev demo_fs) (blk k) \<and> 0x400 \<le> blk k \<and> blk k \<noteq> YLS_WIPE \<and>
      blk k \<noteq> info (nodes demo_fs ! 0) \<and> (\<forall>nm. Named (blk k) nm \<notin> set [Named 0x500 [97]]) \<and>
      (\<forall>x. blk k \<le> x \<and> x < blk k + 0x80 \<longrightarrow> rd_mem (dev demo_fs) x = 0)"
    if "k \<in> free_set (dev demo_fs)" for k
    using that unfolding f
    by (auto simp: block_ok_def fits_def demo_fs_def blk_def demo_mem_def YLS_WIPE_def)
  moreover have "2 < NODES" "length (nodes demo_fs) = NODES"
    by (simp_all add: NODES_def INODE_START_def INODE_END_def demo_fs_def)
  moreover have "\<forall>x. 4 + 4 * length [Named 0x500 [97]] \<le> x \<and> x < 0x80 \<longrightarrow>
      rd_mem (dev demo_fs) (info (nodes demo_fs ! 0) + x) = 0"
    by (auto simp: demo_fs_def demo_mem_def)
  ultimately show ?thesis unfolding fs_room_def by blast
qed

text \<open>C19: \<^verbatim>\<open>unlink\<close> and \<^verbatim>\<open>rmdir\<close> on a directory do what they do on its list of entries: a name that is
  not there, a directory given to \<^verbatim>\<open>unlink\<close> and a file given to \<^verbatim>\<open>rmdir\<close> are refused and leave the disk
  alone; otherwise the slot of the first entry with the name is wiped and every other entry stays.\<close>

theorem removal_refines:
  assumes "fs_dir fs n es" "CHR 0x00 \<notin> set name" "char_at name 0 \<noteq> CHR ''.''"
  shows "case dir_find (bytes_of name) es of
      None \<Rightarrow> blkfs_iunlink fs n name = Some (Refused ''No such file or directory'', fs) \<and>
        blkfs_irmdir fs n name = Some (Refused ''No such file or directory'', fs)
    | Some (i, b) \<Rightarrow> \<exists>fs'. fs_dir fs' n (es[i := Wiped]) \<and> nodes fs' = nodes fs \<and>
        blkfs_iunlink fs n name =
          Some (if names_dir fs b then (Refused ''It's a directory!'', fs) else (Removed, fs')) \<and>
        blkfs_irmdir fs n name =
          Some (if names_dir fs b then (Removed, fs') else (Refused ''Not a directory!'', fs))"
proof (cases "dir_find (bytes_of name) es")
  case None
  then show ?thesis using removal_cases [OF assms] by (simp add: blkfs_iunlink_def blkfs_irmdir_def)
next
  case (Some p)
  then obtain i b where p: "p = (i, b)" "i < length es" "es ! i = Named b (bytes_of name)"
    using dir_find_Some by (metis surj_pair)
  define D where "D = info (nodes fs ! n)"
  define fs' where "fs' = fs\<lparr>dev := writes (dev fs) (D + 4 + 4 * i) (bytes32 YLS_WIPE)\<rparr>"
  have d: "dir_ok (dev fs) D es" using assms(1) by (simp add: fs_dir_def D_def)
  have "dir_ok (dev fs') D (es[i := Wiped])" using dir_ok_wipe [OF d p(2)] by (simp add: fs'_def)
  moreover have "get32 (dev fs') c = get32 (dev fs) c" "0x400 \<le> c" "get32 (dev fs) c < NODES"
    if "Named c nm \<in> set (es[i := Wiped])" for c nm
  proof -
    have c: "Named c nm \<in> set es" using that set_update_subset_insert [of es i Wiped] by auto
    then show "0x400 \<le> c" "get32 (dev fs) c < NODES" using assms(1) by (auto simp: fs_dir_def)
    obtain j where "j < length es" "es ! j = Named c nm" using c unfolding in_set_conv_nth by blast
    then have "c \<noteq> D" "block_ok (dev fs) c" using d by (auto simp: dir_ok_def entry_ok_def)
    then have "D + 0x80 \<le> c \<or> c + 0x80 \<le> D"
      using d by (intro block_apart) (auto simp: dir_ok_def block_ok_def)
    then show "get32 (dev fs') c = get32 (dev fs) c"
      using d p(2) unfolding fs'_def by (auto intro!: get32_write_other simp: dir_ok_def)
  qed
  ultimately have "fs_dir fs' n (es[i := Wiped])"
    using assms(1) unfolding fs_dir_def D_def [symmetric] by (auto simp: fs'_def D_def)
  then show ?thesis using removal_cases [OF assms] Some p(1)
    by (intro option.case_cong [THEN iffD2, OF Some refl]) (auto simp: blkfs_iunlink_def blkfs_irmdir_def names_dir_def fs'_def D_def)
qed

theorem removal_refines_witness:
  "\<exists>fs'. blkfs_iunlink demo_fs 0 ''a'' = Some (Removed, fs') \<and> fs_dir fs' 0 [Wiped] \<and>
     blkfs_irmdir demo_fs 0 ''a'' = Some (Refused ''Not a directory!'', demo_fs)"
proof -
  have "bytes_of ''a'' = [97]" by (simp add: bytes_of_def)
  moreover have "\<not> names_dir demo_fs 0x500"
    by (simp add: names_dir_def get32_bytes demo_fs_def demo_mem_def INODE_START_def YLS_DIR_def)
  ultimately show ?thesis
    using removal_refines [OF demo_dir, of "''a''"] by (auto simp: char_at_def)
qed

text \<open>C17: opening a name that is not in a directory for creation makes an empty file of an inode that
  was free, enters it in the directory behind the other entries, and from then on the name leads
  to that inode while every other name leads where it led before.\<close>

theorem create_then_find:
  assumes "fs_dir fs n es" "fs_room fs n es" "node_type (nodes fs ! n) = YLS_DIR" "length es < 29"
    and "plain_name name" "dir_find (bytes_of name) es = None"
    and "has_flag flags O_CREATE" "\<not> has_flag flags O_DIRECTORY"
  shows "\<exists>i b blk2 fs'. blkfs_ifind k rp fs cur n name flags = Some (Found (BlkI k i), fs') \<and>
     i < NODES \<and> get32 (dev fs) (INODE_START + 0x10 * i) = 0 \<and>
     nodes fs' = (nodes fs)[i := \<lparr>refcnt = 1, info = blk2, node_size = 0, node_type = YLS_FILE\<rparr>] \<and>
     fs_dir fs' n (es @ [Named b (bytes_of name)]) \<and>
     (\<forall>name' rest flags'. plain_name name' \<longrightarrow> rest = [] \<or> hd rest = CHR ''/'' \<longrightarrow> \<not> has_flag flags' O_CREATE \<longrightarrow>
        blkfs_ifind k rp fs' cur n (name' @ rest) flags' =
          (if name' = name then Some (Next (BlkI k i) rest, fs')
           else case dir_find (bytes_of name') es of
               Some (_, b') \<Rightarrow> Some (Next (BlkI k (get32 (dev fs) b')) rest, fs')
             | None \<Rightarrow> Some (Missing ''No such file or directory'', fs')))"
proof -
  define D where "D = info (nodes fs ! n)"
  define slot where "slot = D + 4 + 4 * length es"
  have nm: "length name < 80" "length (bytes_of name) < 80" "0 \<notin> set (bytes_of name)"
    using assms(5) bytes_of_nz by (auto simp: plain_name_def) (simp add: bytes_of_def)
  obtain i off blk2 fs' k1 k2 where e: "new_entry YLS_FILE fs slot name = Some (i, blk2, fs')"
     "i < NODES" "get32 (dev fs) (INODE_START + 0x10 * i) = 0" "off = blk k1" "k1 \<in> free_set (dev fs)"
     "rd_size (dev fs') = rd_size (dev fs)"
     "\<forall>x\<ge>0x400. rd_mem (dev fs') x = entry_mem (rd_mem (dev fs)) slot off i (bytes_of name) x"
     "nodes fs' = (nodes fs)[i := \<lparr>refcnt = 1, info = blk2, node_size = 0, node_type = YLS_FILE\<rparr>]"
    using new_entry_result [OF assms(1,2) nm(1), of slot YLS_FILE] unfolding slot_def D_def by blast
  note a = dir_append [OF assms(1,2,4) nm(2,3) e(5,4,2) slot_def [unfolded D_def] e(6,7)]
  have ni: "n \<noteq> i" using assms(2) e(3) by (auto simp: fs_room_def)
  then have nd: "nodes fs' ! n = nodes fs ! n" "length (nodes fs') = length (nodes fs)" by (simp_all add: e(8))
  have dir: "fs_dir fs' n (es @ [Named off (bytes_of name)])"
  proof -
    have "get32 (dev fs') b = get32 (dev fs) b" if "Named b nm' \<in> set es" for b nm'
      using a(3) [OF that] by (rule same_on_get32) auto
    moreover have "0x400 \<le> off" using assms(2) e(4,5) by (auto simp: fs_room_def)
    ultimately show ?thesis using assms(1) a(1,2) e(2,6) nd by (auto simp: fs_dir_def fits_def)
  qed
  have ty: "node_type (nodes fs' ! n) = YLS_DIR" using assms(3) nd by simp
  have create: "blkfs_ifind k rp fs cur n name flags = Some (Found (BlkI k i), fs')"
    using find_layer [OF assms(1,3,5), of "[]" k rp cur flags] assms(6-8) e(1)
    by (simp add: new_file_def slot_def D_def)
  have found: "blkfs_ifind k rp fs' cur n (name' @ rest) flags' =
          (if name' = name then Some (Next (BlkI k i) rest, fs')
           else case dir_find (bytes_of name') es of
               Some (_, b') \<Rightarrow> Some (Next (BlkI k (get32 (dev fs) b')) rest, fs')
             | None \<Rightarrow> Some (Missing ''No such file or directory'', fs'))"
    if h: "plain_name name'" "rest = [] \<or> hd rest = CHR ''/''" "\<not> has_flag flags' O_CREATE" for name' rest flags'
  proof -
    note l = find_layer [OF dir ty h(1,2), of k rp cur flags']
    show ?thesis
    proof (cases "dir_find (bytes_of name') es")
      case None
      then show ?thesis using l h(3) a(2) by (auto simp: dir_find_append bytes_of_inj)
    next
      case (Some p)
      then have ne: "name' \<noteq> name" using assms(6) by auto
      obtain j b' where p: "p = (j, b')" by (cases p)
      then have "Named b' (bytes_of name') \<in> set es" using dir_find_Some Some by (metis nth_mem)
      then have "get32 (dev fs') b' = get32 (dev fs) b'" by (intro same_on_get32 [OF a(3)]) auto
      then show ?thesis using l ne Some p by (simp add: dir_find_append)
    qed
  qed
  show ?thesis using create e(2,3,8) dir found by blast
qed

theorem create_then_find_witness:
  "\<exists>i fs'. blkfs_ifind 0 DevRootI demo_fs (BlkI 0 0) 0 ''b'' O_CREATE = Some (Found (BlkI 0 i), fs') \<and>
     blkfs_ifind 0 DevRootI fs' (BlkI 0 0) 0 ''b'' O_RDONLY = Some (Next (BlkI 0 i) [], fs') \<and>
     blkfs_ifind 0 DevRootI fs' (BlkI 0 0) 0 ''a'' O_RDONLY = Some (Next (BlkI 0 1) [], fs')"
proof -
  have b: "bytes_of ''a'' = [97]" "bytes_of ''b'' = [98]" by (simp_all add: bytes_of_def)
  have n: "plain_name ''a''" "plain_name ''b''" by (simp_all add: plain_name_def)
  have f: "has_flag O_CREATE O_CREATE" "\<not> has_flag O_CREATE O_DIRECTORY" "\<not> has_flag O_RDONLY O_CREATE"
    by (simp_all add: has_flag_def O_CREATE_def O_DIRECTORY_def O_RDONLY_def)
  have d: "node_type (nodes demo_fs ! 0) = YLS_DIR" by (simp add: demo_fs_def)
  have id: "get32 (dev demo_fs) 0x500 = 1" by (simp add: get32_bytes demo_fs_def demo_mem_def)
  have len: "length [Named 0x500 [97]] < 29" by simp
  have none: "dir_find (bytes_of ''b'') [Named 0x500 [97]] = None" by (simp add: b)
  let ?L = "\<lambda>i fs' name' rest flags'. plain_name name' \<longrightarrow> rest = [] \<or> hd rest = CHR ''/'' \<longrightarrow> \<not> has_flag flags' O_CREATE \<longrightarrow>
        blkfs_ifind 0 DevRootI fs' (BlkI 0 0) 0 (name' @ rest) flags' =
          (if name' = ''b'' then Some (Next (BlkI 0 i) rest, fs')
           else case dir_find (bytes_of name') [Named 0x500 [97]] of
               Some (_, b') \<Rightarrow> Some (Next (BlkI 0 (get32 (dev demo_fs) b')) rest, fs')
             | None \<Rightarrow> Some (Missing ''No such file or directory'', fs'))"
  obtain i fs' where
    c: "blkfs_ifind 0 DevRootI demo_fs (BlkI 0 0) 0 ''b'' O_CREATE = Some (Found (BlkI 0 i), fs')"
    and l: "\<forall>name' rest flags'. ?L i fs' name' rest flags'"
    using create_then_find [OF demo_dir demo_room d len n(2) none f(1,2), of 0 DevRootI "BlkI 0 0"]
    by blast
  have "?L i fs' ''b'' [] O_RDONLY" "?L i fs' ''a'' [] O_RDONLY" using l by blast+
  then show ?thesis using c n f b id by simp
qed

end
