(* ===== verification/Vfs_Walk.thy ===== *)
theory Vfs_Walk
  imports Vfs Blkfs_Dir
begin

text \<open>
  Lookup through the virtual file system walks the tree of directories: block file systems,
  one mounted inside another, the devices and the files of the tasks below them.
\<close>

section \<open>The tree\<close>

text \<open>\<open>D k n\<close> are the entries of the directory in node \<open>n\<close> of block file system \<open>k\<close>.\<close>

definition is_dir_at :: "'d vfs \<Rightarrow> inode \<Rightarrow> bool" where
  "is_dir_at v a =
     (case contents v a of BlkI k n \<Rightarrow> node_type (nodes (bfs v k) ! n) = YLS_DIR | DevI _ \<Rightarrow> False
      | ProcI i \<Rightarrow> i < 192 \<and> i mod 3 = 0 | _ \<Rightarrow> True)"

text \<open>The entries of procfs: the tasks by their number and three files; two files for each task.\<close>

definition proc_child :: "(nat \<Rightarrow> ptask option) \<Rightarrow> string \<Rightarrow> inode option" where
  "proc_child tasks name =
     (if name \<noteq> [] \<and> is_digit (hd name)
      then (if length name < 3 \<and> tasks (unat (atoi name)) \<noteq> None then Some (ProcI (3 * unat (atoi name))) else None)
      else map_option (\<lambda>i. ProcI (192 + i)) (dev_index other_info name))"

definition task_child :: "nat \<Rightarrow> string \<Rightarrow> inode option" where
  "task_child i name =
     (if \<not> (i < 192 \<and> i mod 3 = 0) then None
      else if name = ''name'' then Some (ProcI (i + 2)) else if name = ''pwd'' then Some (ProcI (i + 1)) else None)"

definition child :: "(nat \<Rightarrow> nat \<Rightarrow> entry list) \<Rightarrow> 'd vfs \<Rightarrow> inode \<Rightarrow> string \<Rightarrow> inode option" where
  "child D v a name =
     (case contents v a of
        BlkI k n \<Rightarrow>
          if is_dir_at v a
          then map_option (\<lambda>(i, b). BlkI k (get32 (dev (bfs v k)) b)) (dir_find (bytes_of name) (D k n)) else None
      | DevRootI \<Rightarrow> map_option DevI (dev_index devices name)
      | DevI _ \<Rightarrow> None
      | ProcRootI \<Rightarrow> proc_child (ptasks v) name
      | ProcI i \<Rightarrow> task_child i name)"

fun walk :: "(nat \<Rightarrow> nat \<Rightarrow> entry list) \<Rightarrow> 'd vfs \<Rightarrow> inode \<Rightarrow> string list \<Rightarrow> inode option" where
  "walk D v a [] = Some a"
| "walk D v a (c # cs) = (case child D v a c of None \<Rightarrow> None | Some b \<Rightarrow> walk D v b cs)"

definition sound_at :: "(nat \<Rightarrow> nat \<Rightarrow> entry list) \<Rightarrow> 'd vfs \<Rightarrow> inode \<Rightarrow> bool" where
  "sound_at D v a =
     (case contents v a of
        BlkI k n \<Rightarrow> n < length (nodes (bfs v k)) \<and> (is_dir_at v a \<longrightarrow> fs_dir (bfs v k) n (D k n))
      | ProcI i \<Rightarrow> a = ProcI i
      | _ \<Rightarrow> True)"

definition tree :: "(nat \<Rightarrow> nat \<Rightarrow> entry list) \<Rightarrow> 'd vfs \<Rightarrow> inode set \<Rightarrow> bool" where
  "tree D v S \<longleftrightarrow> (\<forall>a\<in>S. sound_at D v a \<and> (\<forall>c b. child D v a c = Some b \<longrightarrow> b \<in> S))"

text \<open>
  Procfs takes a name that begins like one of its entries for that entry, and digits at the start
  for a task: where it is mounted, a path has to use names it reads as a whole.
\<close>

definition proc_safe :: "string \<Rightarrow> bool" where
  "proc_safe c \<longleftrightarrow>
     (\<forall>w\<in>set (other_info @ [''name'', ''pwd'']). take (length w) c = w \<longrightarrow> c = w) \<and>
     (is_digit (hd c) \<longrightarrow> list_all is_digit c \<and> (length c < 3 \<longrightarrow> unat (atoi c) < 0x40))"

definition in_proc :: "'d vfs \<Rightarrow> inode \<Rightarrow> bool" where
  "in_proc v a \<longleftrightarrow> (case contents v a of ProcRootI \<Rightarrow> True | ProcI _ \<Rightarrow> True | _ \<Rightarrow> False)"

definition fit_name :: "'d vfs \<Rightarrow> inode set \<Rightarrow> string \<Rightarrow> bool" where
  "fit_name v S c \<longleftrightarrow> plain_name c \<and> ((\<exists>a\<in>S. in_proc v a) \<longrightarrow> proc_safe c)"

lemma tree_child: "tree D v S \<Longrightarrow> a \<in> S \<Longrightarrow> child D v a c = Some b \<Longrightarrow> b \<in> S"
  by (auto simp: tree_def sound_at_def)

lemma walk_append: "walk D v a (cs @ ds) = (case walk D v a cs of None \<Rightarrow> None | Some b \<Rightarrow> walk D v b ds)"
  by (induction cs arbitrary: a) (auto split: option.splits)

lemma walk_tree: "tree D v S \<Longrightarrow> a \<in> S \<Longrightarrow> walk D v a cs = Some b \<Longrightarrow> b \<in> S"
  by (induction cs arbitrary: a) (auto split: option.splits intro: tree_child)

section \<open>One layer\<close>

lemma plain_first:
  assumes "plain_name c"
  obtains x xs where "c = x # xs" "x \<noteq> CHR ''/''" "x \<noteq> CHR ''.''" "x \<noteq> CHR 0x00"
  using assms by (cases c) (auto simp: plain_name_def)

lemma find_slash_layer:
  assumes "fs_dir fs n es" "node_type (nodes fs ! n) = YLS_DIR" "plain_name c"
  shows "blkfs_ifind k rp fs cur n (CHR ''/'' # c @ rest) flags = blkfs_ifind k rp fs cur n (c @ rest) flags"
proof -
  obtain x xs where "c = x # xs" "x \<noteq> CHR ''/''" using assms(3) by (rule plain_first)
  then have "check (node_type (nodes fs ! n) = YLS_DIR) cur (CHR ''/'' # c @ rest) flags =
      check (node_type (nodes fs ! n) = YLS_DIR) cur (c @ rest) flags"
    using assms(2) by (simp add: check_def char_at_def Let_def)
  then show ?thesis using assms(1) by (simp add: blkfs_ifind_def node_at_def fs_dir_def)
qed

lemma device_match:
  assumes "plain_name c" "rest = [] \<or> hd rest = CHR ''/''" "CHR ''/'' \<notin> set d" "CHR 0x00 \<notin> set d"
  shows "take (length d) (c @ rest) = d \<and>
      (char_at (c @ rest) (length d) = CHR ''/'' \<or> char_at (c @ rest) (length d) = CHR 0x00) \<longleftrightarrow> d = c"
proof -
  have c: "CHR ''/'' \<notin> set c" "CHR 0x00 \<notin> set c" using assms(1) by (auto simp: plain_name_def)
  consider "length d < length c" | "length d = length c" | "length c < length d" by linarith
  then show ?thesis
  proof cases
    case 1
    then have "char_at (c @ rest) (length d) = c ! length d" by (simp add: char_at_def nth_append)
    moreover have "c ! length d \<noteq> CHR ''/'' \<and> c ! length d \<noteq> CHR 0x00"
      using nth_mem [OF 1] c by (metis (no_types))
    moreover have "d \<noteq> c" using 1 by blast
    ultimately show ?thesis by simp
  next
    case 2
    have "char_at (c @ rest) (length c) = CHR ''/'' \<or> char_at (c @ rest) (length c) = CHR 0x00"
      using assms(2) by (cases rest) (auto simp: char_at_def)
    then show ?thesis using 2 by auto
  next
    case 3
    have "take (length d) (c @ rest) \<noteq> d"
    proof
      assume e: "take (length d) (c @ rest) = d"
      then have ne: "rest \<noteq> []" using 3 by (cases rest) auto
      then have "CHR ''/'' \<in> set (take (length d) (c @ rest))"
        using 3 assms(2) by (cases rest) (auto simp: take_Cons' )
      then show False using assms(3) unfolding e by blast
    qed
    then show ?thesis using 3 by auto
  qed
qed

lemma devfs_scan_done:
  assumes "\<forall>d\<in>set ds. d \<noteq> [] \<and> CHR ''/'' \<notin> set d" "rest = [] \<or> hd rest = CHR ''/''"
  shows "devfs_scan i ds (next, rest) = (next, rest)"
  using assms
proof (induction ds arbitrary: i)
  case (Cons d ds)
  have "take (length d) rest \<noteq> d"
    using Cons.prems by (cases rest; cases d) auto
  then show ?case using Cons by simp
qed simp

lemma devfs_scan_name:
  assumes "plain_name c" "rest = [] \<or> hd rest = CHR ''/''"
    and "\<forall>d\<in>set ds. d \<noteq> [] \<and> CHR ''/'' \<notin> set d \<and> CHR 0x00 \<notin> set d"
  shows "devfs_scan i ds (None, c @ rest) =
    (case dev_index ds c of None \<Rightarrow> (None, c @ rest) | Some j \<Rightarrow> (Some (i + j), rest))"
  using assms(3)
proof (induction ds arbitrary: i)
  case (Cons d ds)
  have d: "CHR ''/'' \<notin> set d" "CHR 0x00 \<notin> set d" using Cons.prems by auto
  show ?case
  proof (cases "d = c")
    case True
    then show ?thesis using device_match [OF assms(1,2) d] Cons.prems assms(2)
      by (simp add: devfs_scan_done)
  next
    case False
    then have "\<not> (take (length d) (c @ rest) = d \<and>
        (char_at (c @ rest) (length d) = CHR ''/'' \<or> char_at (c @ rest) (length d) = CHR 0x00))"
      using device_match [OF assms(1,2) d] by blast
    then show ?thesis using Cons False by (auto simp del: take_append split: option.splits)
  qed
qed simp

lemma word_match:
  assumes "plain_name c" "rest = [] \<or> hd rest = CHR ''/''" "CHR ''/'' \<notin> set w" "take (length w) c = w \<longrightarrow> c = w"
  shows "take (length w) (c @ rest) = w \<longleftrightarrow> c = w"
proof (cases "length w \<le> length c")
  case False
  have "take (length w) (c @ rest) \<noteq> w"
  proof
    assume e: "take (length w) (c @ rest) = w"
    then have "rest \<noteq> []" using False by auto
    then have "CHR ''/'' \<in> set (take (length w) (c @ rest))"
      using False assms(2) by (cases rest) (auto simp: take_Cons')
    then show False using assms(3) unfolding e by blast
  qed
  moreover have "c \<noteq> w" using False by blast
  ultimately show ?thesis by blast
qed (use assms(4) in auto)

lemma find_word_name:
  assumes "plain_name c" "rest = [] \<or> hd rest = CHR ''/''" "\<forall>w\<in>set ws. CHR ''/'' \<notin> set w \<and> (take (length w) c = w \<longrightarrow> c = w)"
  shows "find_word ws i (c @ rest) = map_option (\<lambda>j. (i + j, rest)) (dev_index ws c)"
  using assms(3)
proof (induction ws arbitrary: i)
  case (Cons w ws)
  then have "take (length w) (c @ rest) = w \<longleftrightarrow> c = w" using word_match [OF assms(1,2)] by simp
  then show ?case using Cons by (auto simp: map_option_case split: option.splits simp del: take_append)
qed simp

lemma proc_layer:
  assumes "plain_name c" "proc_safe c" "rest = [] \<or> hd rest = CHR ''/''" "p = CHR ''/'' # c @ rest \<or> p = c @ rest"
  shows "\<exists>w. procfs_rootifind tasks rp cur p flags =
    Some (case proc_child tasks c of Some b \<Rightarrow> Next b rest | None \<Rightarrow> Missing w)"
proof -
  obtain x xs where x: "c = x # xs" "x \<noteq> CHR ''/''" "x \<noteq> CHR ''.''" "x \<noteq> CHR 0x00" using assms(1) by (rule plain_first)
  have path: "dropWhile (\<lambda>c. c = CHR ''/'') p = c @ rest" using assms(4) x by auto
  show ?thesis
  proof (cases "is_digit x")
    case True
    then have d: "list_all is_digit c" "length c < 3 \<Longrightarrow> unat (atoi c) < 0x40" using assms(2) x by (auto simp: proc_safe_def)
    have s: "\<not> is_digit (CHR ''/'')" by (simp add: is_digit_def)
    show ?thesis
    proof (cases "length c < 3")
      case True
      have "takeWhile is_digit (take 3 (c @ rest)) = c"
        using d(1) s assms(3) True by (cases rest) (auto simp: list_all_iff takeWhile_append take_Cons')
      then show ?thesis using d(2) True x(1) \<open>is_digit x\<close> unfolding procfs_rootifind_def path Let_def
        by (auto simp: proc_child_def mult.commute)
    next
      case False
      have t: "takeWhile is_digit (take 3 (c @ rest)) = take 3 c"
        using d(1) False by (auto simp: list_all_iff takeWhile_eq_all_conv dest: in_set_takeD)
      have "length (take 3 c) = 3" using False by simp
      then have "take 3 c \<noteq> []" "\<not> length (take 3 c) < 3" by (metis list.size(3) numeral_3_eq_3 nat.distinct(1), simp)
      then show ?thesis using False x(1) \<open>is_digit x\<close> unfolding procfs_rootifind_def path Let_def t
        by (simp add: proc_child_def)
    qed
  next
    case False
    have "\<forall>w\<in>set other_info. CHR ''/'' \<notin> set w \<and> (take (length w) c = w \<longrightarrow> c = w)"
      using assms(2) by (simp add: proc_safe_def other_info_def)
    note fw = find_word_name [OF assms(1,3) this, of 0]
    have r: "char_at rest 0 \<noteq> CHR ''.''" using assms(3) by (cases rest) (auto simp: char_at_def)
    have "takeWhile is_digit (take 3 (c @ rest)) = []" using False x by simp
    moreover have "char_at (c @ rest) 0 \<noteq> CHR ''.''" using x by (simp add: char_at_def)
    ultimately show ?thesis using path False x fw r
      by (cases "dev_index other_info c") (auto simp: procfs_rootifind_def proc_child_def Let_def)
  qed
qed

lemma task_layer:
  assumes "plain_name c" "proc_safe c" "rest = [] \<or> hd rest = CHR ''/''" "p = CHR ''/'' # c @ rest \<or> p = c @ rest"
    and "i < 192" "i mod 3 = 0"
  shows "\<exists>w. procfs_taskifind (ProcI i) i p flags =
    Some (case task_child i c of Some b \<Rightarrow> Next b rest | None \<Rightarrow> Missing w)"
proof -
  obtain x xs where x: "c = x # xs" "x \<noteq> CHR ''/''" "x \<noteq> CHR ''.''" "x \<noteq> CHR 0x00" using assms(1) by (rule plain_first)
  have path: "dropWhile (\<lambda>c. c = CHR ''/'') p = c @ rest" using assms(4) x by auto
  have l: "length ''name'' = 4" "length ''pwd'' = 3" by simp_all
  have sf: "take 4 c = ''name'' \<longrightarrow> c = ''name''" "take 3 c = ''pwd'' \<longrightarrow> c = ''pwd''"
    using assms(2) unfolding proc_safe_def by (simp_all add: numeral_eq_Suc)
  have n: "take 4 (c @ rest) = ''name'' \<longleftrightarrow> c = ''name''"
    using word_match [OF assms(1,3), of "''name''", unfolded l] sf(1) by simp
  have w: "take 3 (c @ rest) = ''pwd'' \<longleftrightarrow> c = ''pwd''"
    using word_match [OF assms(1,3), of "''pwd''", unfolded l] sf(2) by simp
  have ne: "c @ rest \<noteq> []" "char_at (c @ rest) 0 \<noteq> CHR ''.''" using x by (auto simp: char_at_def)
  show ?thesis
  proof (cases "c = ''name''")
    case True
    then show ?thesis using ne n assms(5,6) unfolding procfs_taskifind_def path Let_def by (simp add: task_child_def)
  next
    case False
    then have "take 4 (c @ rest) \<noteq> ''name''" using n by blast
    then show ?thesis using ne w False assms(5,6) unfolding procfs_taskifind_def path Let_def
      by (auto simp: task_child_def simp del: take_append append_is_Nil_conv)
  qed
qed

text \<open>A step from any inode of the tree.\<close>

lemma find_step_layer:
  assumes "tree D v S" "a \<in> S" "fit_name v S c" "rest = [] \<or> hd rest = CHR ''/''" "\<not> has_flag flags O_CREATE"
    and "p = CHR ''/'' # c @ rest \<or> p = c @ rest \<and> is_dir_at v a"
  shows "\<exists>w. find_step v a p flags =
    (case child D v a c of Some b \<Rightarrow> Some (Next b rest, v) | None \<Rightarrow> Some (Missing w, v))"
proof -
  have plain: "plain_name c" and safe: "in_proc v a \<Longrightarrow> proc_safe c" using assms(2,3) by (auto simp: fit_name_def)
  obtain x xs where x: "c = x # xs" "x \<noteq> CHR ''/''" "x \<noteq> CHR ''.''" "x \<noteq> CHR 0x00" using plain by (rule plain_first)
  show ?thesis
  proof (cases "contents v a")
    case (BlkI k n)
    show ?thesis
    proof (cases "is_dir_at v a")
      case True
      then have d: "fs_dir (bfs v k) n (D k n)" "node_type (nodes (bfs v k) ! n) = YLS_DIR"
        using assms(1,2) BlkI by (auto simp: tree_def sound_at_def is_dir_at_def)
      have "blkfs_ifind k (blk_parent v k) (bfs v k) a n p flags = blkfs_ifind k (blk_parent v k) (bfs v k) a n (c @ rest) flags"
        using assms(6) find_slash_layer [OF d plain] by auto
      then show ?thesis
        using find_layer [OF d plain assms(4), of k "blk_parent v k" a flags] assms(5) BlkI True
        by (auto simp: find_step_def child_def split: option.splits)
    next
      case False
      then have "p = CHR ''/'' # c @ rest" "node_type (nodes (bfs v k) ! n) \<noteq> YLS_DIR"
        using assms(6) BlkI by (auto simp: is_dir_at_def)
      then show ?thesis using assms(1,2) BlkI False x
        by (auto simp: find_step_def child_def tree_def sound_at_def blkfs_ifind_def node_at_def check_def char_at_def Let_def)
    qed
  next
    case DevRootI
    have "dropWhile (\<lambda>c. c = CHR ''/'') p = c @ rest" using assms(6) x by auto
    moreover have "\<forall>d\<in>set devices. d \<noteq> [] \<and> CHR ''/'' \<notin> set d \<and> CHR 0x00 \<notin> set d" by (simp add: devices_def)
    ultimately show ?thesis
      using DevRootI devfs_scan_name [OF plain assms(4), of devices 0] x
      by (auto simp: find_step_def child_def devfs_rootifind_def char_at_def Let_def split: option.splits)
  next
    case (DevI i)
    then show ?thesis using assms(6) x by (auto simp: find_step_def child_def devfs_ifind_def)
  next
    case ProcRootI
    then have "proc_safe c" using safe by (simp add: in_proc_def)
    then obtain w where "procfs_rootifind (ptasks v) (proc_parent v) a p flags =
        Some (case proc_child (ptasks v) c of Some b \<Rightarrow> Next b rest | None \<Rightarrow> Missing w)"
      using proc_layer [OF plain _ assms(4)] assms(6) by metis
    then show ?thesis using ProcRootI by (auto simp: find_step_def child_def split: option.splits)
  next
    case (ProcI i)
    then have i: "a = ProcI i" using assms(1,2) by (auto simp: tree_def sound_at_def)
    show ?thesis
    proof (cases "i < 192 \<and> i mod 3 = 0")
      case True
      have "proc_safe c" using safe ProcI by (simp add: in_proc_def)
      then obtain w where "procfs_taskifind (ProcI i) i p flags =
          Some (case task_child i c of Some b \<Rightarrow> Next b rest | None \<Rightarrow> Missing w)"
        using task_layer [OF plain _ assms(4)] assms(6) True by metis
      then show ?thesis using ProcI i True by (auto simp: find_step_def child_def split: option.splits)
    next
      case False
      then have "p = CHR ''/'' # c @ rest" using assms(6) ProcI by (auto simp: is_dir_at_def)
      then show ?thesis using ProcI False by (auto simp: find_step_def child_def task_child_def procfs_ifind_def char_at_def)
    qed
  qed
qed

lemma find_step_end:
  assumes "tree D v S" "a \<in> S"
  shows "\<exists>w. find_step v a [] flags =
    Some (if has_flag flags O_DIRECTORY \<and> \<not> is_dir_at v a then Missing w else Found a, v)"
proof (cases "contents v a")
  case (BlkI k n)
  then have "n < length (nodes (bfs v k))" using assms by (auto simp: tree_def sound_at_def)
  then show ?thesis using BlkI
    by (simp add: find_step_def blkfs_ifind_def node_at_def check_def char_at_def Let_def is_dir_at_def)
next
  case DevRootI
  then show ?thesis
    by (simp add: find_step_def is_dir_at_def devfs_rootifind_def char_at_def Let_def devices_def)
next
  case (DevI i)
  then show ?thesis by (simp add: find_step_def is_dir_at_def devfs_ifind_def)
next
  case ProcRootI
  then show ?thesis by (simp add: find_step_def is_dir_at_def procfs_rootifind_def)
next
  case (ProcI i)
  then show ?thesis
    by (auto simp: find_step_def is_dir_at_def procfs_taskifind_def procfs_ifind_def char_at_def)
qed

section \<open>Whole paths\<close>

definition arrives :: "'d vfs \<Rightarrow> nat \<Rightarrow> inode option \<Rightarrow> inode option" where
  "arrives v flags r =
     (case r of None \<Rightarrow> None | Some b \<Rightarrow> if has_flag flags O_DIRECTORY \<and> \<not> is_dir_at v b then None else Some b)"

definition found_by :: "'d vfs \<Rightarrow> inode option \<Rightarrow> (inode option \<times> 'd vfs) option \<Rightarrow> bool" where
  "found_by v r x \<longleftrightarrow> (\<exists>w. x = Some (r, if r = None then warn w v else v))"

lemma prefix_text_Cons: "prefix_text (c # cs) = CHR ''/'' # c @ prefix_text cs"
  by (simp add: prefix_text_def)

lemma prefix_text_hd: "prefix_text cs = [] \<or> hd (prefix_text cs) = CHR ''/''"
  by (cases cs) (auto simp: prefix_text_def)

lemma vfs_find_walk:
  assumes "tree D v S" "\<not> has_flag flags O_CREATE" "a \<in> S" "\<forall>c\<in>set cs. fit_name v S c"
    and "p = prefix_text cs \<or> (\<exists>d ds. cs = d # ds \<and> p = d @ prefix_text ds \<and> is_dir_at v a)"
  shows "found_by v (arrives v flags (walk D v a cs)) (vfs_find v a p flags)"
  using assms(3-5)
proof (induction cs arbitrary: a p)
  case Nil
  then show ?case using find_step_end [OF assms(1) Nil(1), of flags]
    by (subst vfs_find.simps) (auto simp: found_by_def arrives_def)
next
  case (Cons c cs)
  have "p = CHR ''/'' # c @ prefix_text cs \<or> p = c @ prefix_text cs \<and> is_dir_at v a"
    using Cons.prems(3) by (auto simp: prefix_text_Cons)
  then obtain w where w: "find_step v a p flags =
      (case child D v a c of Some b \<Rightarrow> Some (Next b (prefix_text cs), v) | None \<Rightarrow> Some (Missing w, v))"
    using find_step_layer [OF assms(1) Cons.prems(1) _ prefix_text_hd assms(2)] Cons.prems(2)
    by (metis list.set_intros(1))
  show ?case
  proof (cases "child D v a c")
    case None
    then show ?thesis using w by (subst vfs_find.simps) (auto simp: found_by_def arrives_def)
  next
    case (Some b)
    then have "vfs_find v a p flags = vfs_find v b (prefix_text cs) flags"
      using w by (subst vfs_find.simps) simp
    then show ?thesis
      using Cons.IH [of b "prefix_text cs"] Cons.prems(2) tree_child [OF assms(1) Cons.prems(1) Some] Some by simp
  qed
qed

lemma lookup_walk:
  assumes "tree D v S" "\<not> has_flag flags O_CREATE" "\<forall>c\<in>set (c # cs). fit_name v S c"
  shows "vfs_root v \<in> S \<Longrightarrow>
      found_by v (arrives v flags (walk D v (vfs_root v) (c # cs))) (vfs_lookup v (prefix_text (c # cs)) flags)"
    and "cur_dir v \<in> S \<Longrightarrow> is_dir_at v (cur_dir v) \<Longrightarrow>
      found_by v (arrives v flags (walk D v (cur_dir v) (c # cs))) (vfs_lookup v (c @ prefix_text cs) flags)"
proof -
  have a: "char_at (prefix_text (c # cs)) 0 = CHR ''/''" by (simp add: prefix_text_Cons char_at_def)
  obtain x xs where x: "c = x # xs" "x \<noteq> CHR ''/''" using assms(3) plain_first by (metis fit_name_def list.set_intros(1))
  then have r: "char_at (c @ prefix_text cs) 0 \<noteq> CHR ''/''" by (simp add: char_at_def)
  show "vfs_root v \<in> S \<Longrightarrow>
      found_by v (arrives v flags (walk D v (vfs_root v) (c # cs))) (vfs_lookup v (prefix_text (c # cs)) flags)"
    using vfs_find_walk [OF assms(1,2) _ assms(3)] a by (simp add: vfs_lookup_def)
  show "cur_dir v \<in> S \<Longrightarrow> is_dir_at v (cur_dir v) \<Longrightarrow>
      found_by v (arrives v flags (walk D v (cur_dir v) (c # cs))) (vfs_lookup v (c @ prefix_text cs) flags)"
    using vfs_find_walk [OF assms(1,2) _ assms(3)] r by (simp add: vfs_lookup_def)
qed

section \<open>The current directory\<close>

definition well_placed :: "(nat \<Rightarrow> nat \<Rightarrow> entry list) \<Rightarrow> 'd vfs \<Rightarrow> inode set \<Rightarrow> string list \<Rightarrow> bool" where
  "well_placed D v S dir \<longleftrightarrow>
     tree D v S \<and> vfs_root v \<in> S \<and> is_dir_at v (cur_dir v) \<and> (\<forall>c\<in>set dir. fit_name v S c) \<and>
     cur_pwd v = render dir \<and> walk D v (vfs_root v) dir = Some (cur_dir v)"

lemma is_dir_at_same [simp]:
  "is_dir_at (warn w v) a = is_dir_at v a" "is_dir_at (v\<lparr>cur_dir := b, cur_pwd := p\<rparr>) a = is_dir_at v a"
  by (simp_all add: is_dir_at_def warn_def cong: inode.case_cong)

lemma sound_at_same [simp]:
  "sound_at D (warn w v) a = sound_at D v a" "sound_at D (v\<lparr>cur_dir := b, cur_pwd := p\<rparr>) a = sound_at D v a"
  by (auto simp: sound_at_def warn_def is_dir_at_def split: inode.splits)

lemma child_same [simp]:
  "child D (warn w v) a c = child D v a c" "child D (v\<lparr>cur_dir := b, cur_pwd := p\<rparr>) a c = child D v a c"
  by (auto simp: child_def warn_def is_dir_at_def split: inode.splits)

lemma walk_same [simp]:
  "walk D (warn w v) a cs = walk D v a cs" "walk D (v\<lparr>cur_dir := b, cur_pwd := p\<rparr>) a cs = walk D v a cs"
  by (induction cs arbitrary: a) (simp_all split: option.splits)

lemma tree_same [simp]:
  "tree D (warn w v) S = tree D v S" "tree D (v\<lparr>cur_dir := b, cur_pwd := p\<rparr>) S = tree D v S"
  by (simp_all add: tree_def)

lemma fit_name_same [simp]:
  "fit_name (warn w v) S c = fit_name v S c" "fit_name (v\<lparr>cur_dir := b, cur_pwd := p\<rparr>) S c = fit_name v S c"
  by (simp_all add: fit_name_def in_proc_def warn_def cong: inode.case_cong)

lemma well_placed_warn: "well_placed D (warn w v) S dir = well_placed D v S dir"
proof -
  have "cur_pwd (warn w v) = cur_pwd v" "cur_dir (warn w v) = cur_dir v" "vfs_root (warn w v) = vfs_root v"
    by (simp_all add: warn_def)
  then show ?thesis by (simp add: well_placed_def)
qed

lemma plain_proper: "plain_name c \<Longrightarrow> proper c"
  by (auto simp: plain_name_def proper_def)

lemma fit_proper: "fit_name v S c \<Longrightarrow> proper c"
  by (simp add: fit_name_def plain_proper)

lemma split_no_slash: "CHR ''/'' \<notin> set s \<Longrightarrow> split_path s = [s]"
  by (subst split_path.simps) simp

lemma split_layer: "CHR ''/'' \<notin> set c \<Longrightarrow> split_path (c @ CHR ''/'' # s) = c # split_path s"
proof -
  assume "CHR ''/'' \<notin> set c"
  then have "takeWhile (\<lambda>x. x \<noteq> CHR ''/'') (c @ CHR ''/'' # s) = c" by (induction c) auto
  then show ?thesis by (subst split_path.simps) simp
qed

lemma split_relative: "\<forall>d\<in>set (c # cs). CHR ''/'' \<notin> set d \<Longrightarrow> split_path (c @ prefix_text cs) = c # cs"
proof (induction cs arbitrary: c)
  case (Cons d ds)
  then show ?case using split_layer [of c "d @ prefix_text ds"] by (simp add: prefix_text_Cons)
qed (simp add: split_no_slash)

lemma enter_plain: "\<forall>c\<in>set cs. proper c \<Longrightarrow> foldl enter dir cs = dir @ cs"
  by (induction cs arbitrary: dir) (auto simp: enter_def proper_def)

lemma resolve_plain:
  assumes "\<forall>d\<in>set (c # cs). plain_name d"
  shows "resolve dir (prefix_text (c # cs)) = c # cs" "resolve dir (c @ prefix_text cs) = dir @ c # cs"
proof -
  have p: "\<forall>d\<in>set (c # cs). proper d" using assms plain_proper by blast
  then have s: "\<forall>d\<in>set (c # cs). CHR ''/'' \<notin> set d" by (auto simp: proper_def)
  obtain x xs where x: "c = x # xs" "x \<noteq> CHR ''/''" using assms plain_first by (metis list.set_intros(1))
  have "split_path (prefix_text (c # cs)) = [] # c # cs"
    using split_layer [of "[]" "c @ prefix_text cs"] split_relative [OF s] by (simp add: prefix_text_Cons)
  then show "resolve dir (prefix_text (c # cs)) = c # cs"
    using enter_plain [OF p, of "[]"] by (simp add: resolve_def prefix_text_Cons char_at_def enter_def)
  show "resolve dir (c @ prefix_text cs) = dir @ c # cs"
    using enter_plain [OF p, of dir] split_relative [OF s] x by (simp add: resolve_def char_at_def)
qed

text \<open>One change of directory, by an absolute or a relative path with the given resolution.\<close>

lemma chdir_step:
  assumes "well_placed D v S dir" "\<forall>c\<in>set dir'. fit_name v S c" "resolve dir path = dir'"
    and "found_by v (arrives v (O_RDONLY + O_DIRECTORY) (walk D v (vfs_root v) dir')) (vfs_lookup v path (O_RDONLY + O_DIRECTORY))"
  shows "\<exists>v'. (case walk D v (vfs_root v) dir' of
      Some b \<Rightarrow> if is_dir_at v b then vfs_chdir v path = Some (0, v') \<and> well_placed D v' S dir' \<and> cur_dir v' = b
                else vfs_chdir v path = Some (- 1, v') \<and> well_placed D v' S dir
    | None \<Rightarrow> vfs_chdir v path = Some (- 1, v') \<and> well_placed D v' S dir)"
proof -
  have f: "has_flag (O_RDONLY + O_DIRECTORY) O_DIRECTORY"
    by (simp add: has_flag_def O_RDONLY_def O_DIRECTORY_def)
  have pwd: "dir_cat (cur_pwd v) path = Inr (render dir')"
    using dir_cat_render [of dir path] assms(1,3) fit_proper by (fastforce simp: well_placed_def)
  have stay: "vfs_chdir v path = Some (- 1, warn w v)"
    if "vfs_lookup v path (O_RDONLY + O_DIRECTORY) = Some (None, warn w v)" for w
    using that by (simp add: vfs_chdir_def)
  show ?thesis
  proof (cases "arrives v (O_RDONLY + O_DIRECTORY) (walk D v (vfs_root v) dir')")
    case None
    then obtain w where "vfs_lookup v path (O_RDONLY + O_DIRECTORY) = Some (None, warn w v)"
      using assms(4) by (auto simp: found_by_def)
    then show ?thesis using None stay assms(1) f well_placed_warn
      by (force simp: arrives_def split: option.splits if_splits)
  next
    case (Some b)
    then have b: "walk D v (vfs_root v) dir' = Some b" "is_dir_at v b"
      using f by (auto simp: arrives_def split: option.splits if_splits)
    have "vfs_chdir v path = Some (0, v\<lparr>cur_dir := b, cur_pwd := render dir'\<rparr>)"
      using assms(4) Some pwd by (auto simp: found_by_def vfs_chdir_def)
    moreover have "well_placed D (v\<lparr>cur_dir := b, cur_pwd := render dir'\<rparr>) S dir'"
      using assms(1,2) b by (simp add: well_placed_def)
    ultimately show ?thesis using b by auto
  qed
qed

section \<open>A disk with the devices mounted\<close>

definition demo_vfs :: "unit vfs" where
  "demo_vfs = \<lparr>bfs = (\<lambda>_. demo_fs), contents = (\<lambda>a. if a = BlkI 0 1 then DevRootI else a),
     blk_parent = (\<lambda>k. BlkI k 0), dev_parent = BlkI 0 0, proc_parent = BlkI 0 0, vfs_root = BlkI 0 0,
     mounts = [(''/a'', BlkI 0 1)], devs = (), ptasks = (\<lambda>_. None),
     files = (\<lambda>_. fresh_file (BlkI 0 0)), fds = (\<lambda>_. 0), cur_dir = BlkI 0 0, cur_pwd = ''/'', err = []\<rparr>"

definition demo_entries :: "nat \<Rightarrow> nat \<Rightarrow> entry list" where
  "demo_entries k n = (if n = 0 then [Named 0x500 [97]] else [])"

lemma demo_child:
  "child demo_entries demo_vfs (BlkI 0 0) c = (if bytes_of c = [97] then Some (BlkI 0 1) else None)"
  "child demo_entries demo_vfs (BlkI 0 1) c = map_option DevI (dev_index devices c)"
  "child demo_entries demo_vfs (DevI i) c = None"
  by (simp_all add: child_def demo_vfs_def demo_entries_def is_dir_at_def demo_fs_def get32_bytes demo_mem_def)

lemma demo_is_dir: "is_dir_at demo_vfs (BlkI 0 0)" "is_dir_at demo_vfs (BlkI 0 1)"
  by (simp_all add: is_dir_at_def demo_vfs_def demo_fs_def)

lemma demo_tree: "tree demo_entries demo_vfs ({BlkI 0 0, BlkI 0 1} \<union> range DevI)"
proof -
  have "sound_at demo_entries demo_vfs (BlkI 0 0)"
    using demo_dir by (simp add: sound_at_def demo_vfs_def demo_entries_def fs_dir_def)
  moreover have "sound_at demo_entries demo_vfs (BlkI 0 1)" "sound_at demo_entries demo_vfs (DevI i)" for i
    by (simp_all add: sound_at_def demo_vfs_def)
  ultimately show ?thesis by (auto simp: tree_def demo_child simp del: One_nat_def split: if_splits)
qed

lemma demo_names: "\<forall>c\<in>set [''a'', ''tty1'']. plain_name c" "bytes_of ''a'' = [97]"
  by (simp_all add: plain_name_def bytes_of_def)

lemma demo_fit: "plain_name c \<Longrightarrow> fit_name demo_vfs ({BlkI 0 0, BlkI 0 1} \<union> range DevI) c"
  by (auto simp: fit_name_def in_proc_def demo_vfs_def)

lemma demo_placed: "well_placed demo_entries demo_vfs ({BlkI 0 0, BlkI 0 1} \<union> range DevI) []"
  using demo_tree demo_is_dir by (simp add: well_placed_def render_def demo_vfs_def)

text \<open>C21: looking up a path of plain names, absolute or relative to a directory, returns the inode
  reached by walking the tree name by name, through block file systems, the ones mounted inside
  them and the devices, or nothing when a name is missing or \<open>O_DIRECTORY\<close> asks for a directory and
  there is none; apart from the warning the file systems stay as they were.\<close>

theorem vfs_lookup_walk:
  assumes "tree D v S" "\<not> has_flag flags O_CREATE" "\<forall>c\<in>set (c # cs). fit_name v S c"
    and "vfs_root v \<in> S" "cur_dir v \<in> S" "is_dir_at v (cur_dir v)"
  shows "found_by v (arrives v flags (walk D v (vfs_root v) (c # cs))) (vfs_lookup v (prefix_text (c # cs)) flags) \<and>
    found_by v (arrives v flags (walk D v (cur_dir v) (c # cs))) (vfs_lookup v (c @ prefix_text cs) flags)"
  using lookup_walk [OF assms(1-3)] assms(4-6) by blast

theorem vfs_lookup_walk_witness:
  "vfs_lookup demo_vfs ''/a/tty1'' O_RDONLY = Some (Some (DevI 4), demo_vfs) \<and>
   vfs_lookup demo_vfs ''a/tty1'' O_RDONLY = Some (Some (DevI 4), demo_vfs)"
proof -
  have f: "\<not> has_flag O_RDONLY O_CREATE" "\<not> has_flag O_RDONLY O_DIRECTORY"
    by (simp_all add: has_flag_def O_RDONLY_def O_CREATE_def O_DIRECTORY_def)
  have r: "vfs_root demo_vfs = BlkI 0 0" "cur_dir demo_vfs = BlkI 0 0" by (simp_all add: demo_vfs_def)
  have w: "walk demo_entries demo_vfs (BlkI 0 0) [''a'', ''tty1''] = Some (DevI 4)"
    by (simp add: demo_child demo_names(2) devices_def del: One_nat_def)
  have n: "\<forall>c\<in>set [''a'', ''tty1'']. fit_name demo_vfs ({BlkI 0 0, BlkI 0 1} \<union> range DevI) c"
    using demo_names(1) demo_fit by blast
  show ?thesis
    using vfs_lookup_walk [OF demo_tree f(1) n] demo_is_dir
    by (simp add: r w f arrives_def found_by_def prefix_text_def del: walk.simps)
qed



end
