(* ===== verification/Initrd.thy ===== *)
theory Initrd
  imports Vfs_Walk
begin

text \<open>
  The image of the first memory disk, \<^verbatim>\<open>kernel/initrd/initrd.c\<close>, and the file system the kernel starts
  with: \<^verbatim>\<open>vfs_init\<close> on this image and a second, empty disk.
\<close>

section \<open>The image\<close>

text \<open>The words of the image that are not zero, with their offsets.\<close>

definition pairs :: "(nat \<times> nat) list" where
  "pairs =
    [(0, 0xffffff), (0x4, 0), (0x40, 0x1), (0x44, 0x480), (0x48, 0x8), (0x4c, 0), (0x50, 0x1),
     (0x54, 0x580), (0x58, 0), (0x5c, 0), (0x60, 0x1), (0x64, 0x680), (0x68, 0x5), (0x6c, 0x1),
     (0x70, 0x1), (0x74, 0x780), (0x78, 0), (0x7c, 0), (0x80, 0x1), (0x84, 0x880), (0x88, 0), (0x8c, 0),
     (0x90, 0x1), (0x94, 0x980), (0x98, 0), (0x9c, 0), (0xa0, 0x1), (0xa4, 0xa80), (0xa8, 0), (0xac, 0),
     (0xb0, 0x1), (0xb4, 0xb80), (0xb8, 0), (0xbc, 0), (0x400, 0), (0x404, 0x2f), (0x480, 0),
     (0x484, 0x500), (0x488, 0x600), (0x48c, 0x700), (0x490, 0x800), (0x494, 0x900), (0x498, 0xa00),
     (0x500, 0x1), (0x504, 0x74736574), (0x580, 0), (0x600, 0x2), (0x604, 0x747874),
     (0x680, 0x34333231), (0x684, 0xa), (0x700, 0x3), (0x704, 0x746e6d), (0x780, 0), (0x800, 0x4),
     (0x804, 0x766564), (0x880, 0), (0x900, 0x5), (0x904, 0x636f7270), (0x980, 0), (0xa00, 0x6),
     (0xa04, 0x656d6f68), (0xa80, 0), (0xa84, 0xb00), (0xb00, 0x7), (0xb04, 0x6863696d),
     (0xb08, 0x6c6561), (0xb80, 0x6)]"

text \<open>After its last entry the program compares with a word behind the table; no offset is taken to match it.\<close>

fun image_words :: "nat \<Rightarrow> nat \<Rightarrow> (nat \<times> nat) list \<Rightarrow> nat list" where
  "image_words 0 i ps = []"
| "image_words (Suc n) i [] = 0 # image_words n (i + 4) []"
| "image_words (Suc n) i ((off, word) # ps) =
     (if i = off then word # image_words n (i + 4) ps else 0 # image_words n (i + 4) ((off, word) # ps))"

text \<open>The exit status and the output.\<close>

definition initrd_main :: "(nat \<times> nat) list \<Rightarrow> nat \<times> u8 list" where
  "initrd_main ps =
     (if list_ex (\<lambda>i. fst (ps ! i) \<le> fst (ps ! (i - 1))) [1..<length ps] then (1, [])
      else (0, concat (map bytes32 (image_words 0x4000 0 ps))))"

definition initrd_disk :: rd where
  "initrd_disk = (let bs = snd (initrd_main pairs) in \<lparr>rd_mem = (\<lambda>i. if i < length bs then bs ! i else 0), rd_size = length bs\<rparr>)"

definition word_of :: "(nat \<times> nat) list \<Rightarrow> nat \<Rightarrow> nat" where
  "word_of ps off = (case map_of ps off of None \<Rightarrow> 0 | Some w \<Rightarrow> w)"

lemma length_image_words [simp]: "length (image_words n i ps) = n"
  by (induction n i ps rule: image_words.induct) auto

lemma image_words_nth:
  "sorted_wrt (<) (map fst ps) \<Longrightarrow> \<forall>(off, w)\<in>set ps. i \<le> off \<and> 4 dvd off \<Longrightarrow> 4 dvd i \<Longrightarrow> k < n \<Longrightarrow>
     image_words n i ps ! k = word_of ps (i + 4 * k)"
proof (induction n i ps arbitrary: k rule: image_words.induct)
  case (2 n i)
  then show ?case by (cases k) (auto simp: word_of_def)
next
  case (3 n i off w ps)
  show ?case
  proof (cases k)
    case 0
    have "map_of ps i = None" if "i \<noteq> off"
      using that 3(3,4) by (fastforce simp: map_of_eq_None_iff)
    then show ?thesis using 0 by (auto simp: word_of_def)
  next
    case (Suc m)
    show ?thesis
    proof (cases "i = off")
      case True
      have "\<forall>(o', w')\<in>set ps. i + 4 \<le> o' \<and> 4 dvd o'"
      proof clarify
        fix o' w'
        assume o: "(o', w') \<in> set ps"
        then have "i < o'" "4 dvd o'" using 3(3,4) True by (auto simp: image_iff)
        then show "i + 4 \<le> o' \<and> 4 dvd o'" using 3(5) by (auto elim!: dvdE)
      qed
      moreover have "sorted_wrt (<) (map fst ps)" "4 dvd i + 4" using 3(3,5) by auto
      ultimately have "image_words n (i + 4) ps ! m = word_of ps (i + 4 + 4 * m)"
        using 3(1) [OF True] 3(6) Suc by simp
      then show ?thesis using True Suc by (simp add: word_of_def add.assoc)
    next
      case False
      have "\<forall>(o', w')\<in>set ((off, w) # ps). i + 4 \<le> o' \<and> 4 dvd o'"
      proof clarify
        fix o' w'
        assume o: "(o', w') \<in> set ((off, w) # ps)"
        then have "i < o'" "4 dvd o'" using 3(3,4) False by fastforce+
        then show "i + 4 \<le> o' \<and> 4 dvd o'" using 3(5) by (auto elim!: dvdE)
      qed
      moreover have "4 dvd i + 4" using 3(5) by simp
      ultimately have "image_words n (i + 4) ((off, w) # ps) ! m = word_of ((off, w) # ps) (i + 4 + 4 * m)"
        using 3(2) [OF False] 3(3,6) Suc by simp
      then show ?thesis using False Suc by (simp add: add.assoc)
    qed
  qed
qed simp

lemma concat_words_nth:
  "i < 4 * length ws \<Longrightarrow> concat (map bytes32 ws) ! i = bytes32 (ws ! (i div 4)) ! (i mod 4)"
proof (induction ws arbitrary: i)
  case (Cons w ws)
  show ?case
  proof (cases "i < 4")
    case False
    then have "i div 4 = Suc ((i - 4) div 4)" "(i - 4) mod 4 = i mod 4" by (simp_all add: le_div_geq le_mod_geq)
    then show ?thesis using Cons False by (simp add: nth_append)
  qed (simp add: nth_append)
qed simp

lemma pairs_sorted: "sorted_wrt (<) (map fst pairs)" "\<forall>(off, w)\<in>set pairs. 0 \<le> off \<and> 4 dvd off"
  "\<not> list_ex (\<lambda>i. fst (pairs ! i) \<le> fst (pairs ! (i - 1))) [1..<length pairs]"
proof -
  show s: "sorted_wrt (<) (map fst pairs)" by (simp add: pairs_def)
  show "\<forall>(off, w)\<in>set pairs. 0 \<le> off \<and> 4 dvd off" by (simp add: pairs_def)
  show "\<not> list_ex (\<lambda>i. fst (pairs ! i) \<le> fst (pairs ! (i - 1))) [1..<length pairs]"
  proof -
    have "fst (pairs ! (i - 1)) < fst (pairs ! i)" if "1 \<le> i" "i < length pairs" for i
      using sorted_wrt_nth_less [OF s, of "i - 1" i] that by simp
    then show ?thesis by (auto simp: list_ex_iff not_le simp del: One_nat_def)
  qed
qed

lemma disk_size [simp]: "rd_size initrd_disk = 0x10000"
  by (simp add: initrd_disk_def initrd_main_def pairs_sorted(3) length_concat comp_def Let_def sum_list_triv del: One_nat_def)

lemma disk_mem: "i < 0x10000 \<Longrightarrow> rd_mem initrd_disk i = bytes32 (word_of pairs (4 * (i div 4))) ! (i mod 4)"
proof -
  assume i: "i < 0x10000"
  have l: "length (concat (map bytes32 (image_words 0x4000 0 pairs))) = 0x10000"
    by (simp add: length_concat comp_def sum_list_triv)
  have "rd_mem initrd_disk i = concat (map bytes32 (image_words 0x4000 0 pairs)) ! i"
    using i l by (simp add: initrd_disk_def initrd_main_def pairs_sorted(3) Let_def del: One_nat_def)
  also have "\<dots> = bytes32 (image_words 0x4000 0 pairs ! (i div 4)) ! (i mod 4)"
    using i by (intro concat_words_nth) simp
  also have "i div 4 < 0x4000" using i by (simp add: less_mult_imp_div_less)
  then have "image_words 0x4000 0 pairs ! (i div 4) = word_of pairs (4 * (i div 4))"
    using image_words_nth [OF pairs_sorted(1,2), of "i div 4" "0x4000"] by simp
  finally show ?thesis .
qed

end
