(* ===== verification/Blkfs_Limits.thy ===== *)
theory Blkfs_Limits
  imports Blkfs_Dir
begin

text \<open>Where the block file system departs from what it means to do.\<close>

text \<open>A fresh disk's bitmap leaves the blocks of the root directory free: the second allocation
  after formatting returns \<open>0x480\<close>, where the root's entries are.\<close>

lemma format_mem:
  assumes "rd_size d < 2 ^ 32" "0x10000 \<le> rd_size d"
  obtains d' where "yls_init d = Some d'" "rd_size d' = rd_size d" "rd_mem d' 0 = 0xff"
    "\<And>i. 1 \<le> i \<Longrightarrow> i < 0x40 \<Longrightarrow> rd_mem d' i = 0" "get32 d' 0x44 = 0x480"
    "get32 d' 0x4c = YLS_DIR" "\<And>i. 0x480 \<le> i \<Longrightarrow> rd_mem d' i = rd_mem d i"
proof -
  define node where "node = node_bytes \<lparr>refcnt = 1, info = 0x480, node_size = 8, node_type = YLS_DIR\<rparr>"
  define name :: "u8 list" where "name = 0x2f # replicate 127 0"
  define bitmap :: "u8 list" where
    "bitmap = map (\<lambda>i. if i = 0 \<or> rd_size d div 0x80 div 8 \<le> i then 0xff else 0) [0..<0x40]"
  define d1 where "d1 = writes d 0x40 node"
  define d2 where "d2 = writes d1 0x400 name"
  define d3 where "d3 = writes d2 0 bitmap"
  have l: "length node = 16" "length name = 128" "length bitmap = 64" by (simp_all add: node_def name_def bitmap_def)
  have "rd_write d 0x40 node = Some (16, d1)" using rd_write_fits [of d 64 node] assms l by (simp add: fits_def d1_def)
  moreover have "rd_write d1 0x400 name = Some (128, d2)"
    using rd_write_fits [of d1 1024 name] assms l by (simp add: fits_def d1_def d2_def)
  moreover have "rd_write d2 0 bitmap = Some (64, d3)"
    using rd_write_fits [of d2 0 bitmap] assms l by (simp add: fits_def d1_def d2_def d3_def)
  ultimately have "yls_init d = Some d3"
    unfolding yls_init_def Let_def node_def [symmetric] name_def [symmetric] bitmap_def [symmetric] by simp
  moreover have "rd_mem d3 i = bitmap ! i" if "i < 0x40" for i using that l by (simp add: d3_def put_def)
  then have "rd_mem d3 i = (if i = 0 \<or> rd_size d div 0x80 div 8 \<le> i then 0xff else 0)" if "i < 0x40" for i
    using that by (simp add: bitmap_def)
  moreover have "\<not> rd_size d div 0x80 div 8 \<le> i" if "i < 0x40" for i
    using assms(2) that div_le_mono [of "0x10000" "rd_size d" "0x400"] by (simp add: div_mult2_eq [symmetric])
  moreover have "rd_mem d3 x = node ! (x - 0x40)" if "0x44 \<le> x" "x < 0x50" for x
    using that l by (simp add: d3_def d2_def d1_def put_def)
  then have "get32 d3 0x44 = 0x480" "get32 d3 0x4c = YLS_DIR"
    by (simp_all add: get32_bytes node_def node_bytes_def bytes32_def YLS_DIR_def)
  moreover have "rd_mem d3 i = rd_mem d i" if "0x480 \<le> i" for i
    using that l by (simp add: d3_def d2_def d1_def put_def)
  ultimately show ?thesis by (intro that [of d3]) (auto simp: d3_def d2_def d1_def)
qed

lemma next_free:
  assumes "fits d 0 0x40" "k \<in> free_set d"
  shows "\<exists>d'. new_block d = Some (blk (Min (free_set d)), d') \<and>
    free_set d' = free_set d - {Min (free_set d)} \<and> rd_size d' = rd_size d"
  using new_block_free [OF assms(1)] assms(2) by (metis empty_iff)

lemma format_root_blocks_free:
  assumes "rd_size d < 2 ^ 32" "0x10000 \<le> rd_size d"
  shows "\<exists>d' d1 d2. yls_init d = Some d' \<and> get32 d' 0x44 = 0x480 \<and>
    new_block d' = Some (0x400, d1) \<and> new_block d1 = Some (0x480, d2)"
proof -
  obtain d' where d': "yls_init d = Some d'" "rd_size d' = rd_size d" "rd_mem d' 0 = 0xff"
    "\<And>i. 1 \<le> i \<Longrightarrow> i < 0x40 \<Longrightarrow> rd_mem d' i = 0" "get32 d' 0x44 = 0x480"
    using format_mem [OF assms] by metis
  have f: "k \<in> free_set d' \<longleftrightarrow> 8 \<le> k \<and> k < 512" for k
  proof (cases "k < 8")
    case True
    then show ?thesis using d'(3) all_bits [of "0xff"] by (simp add: free_set_def)
  next
    case False
    then have "k < 512 \<Longrightarrow> rd_mem d' (k div 8) = 0" by (intro d'(4)) auto
    then show ?thesis using False by (auto simp: free_set_def)
  qed
  have s: "free_set d' = {8..<512}" by (intro set_eqI) (simp only: f atLeastLessThan_iff)
  have m1: "Min {8..<512::nat} = 8" and m2: "Min {9..<512::nat} = 9" by (intro Min_eqI; simp)+
  have fits: "fits e 0 0x40" if "rd_size e = rd_size d" for e using assms that by (simp add: fits_def)
  obtain d1 where d1: "new_block d' = Some (blk 8, d1)" "free_set d1 = {8..<512} - {8}" "rd_size d1 = rd_size d'"
    using next_free [OF fits [OF d'(2)], of 8] unfolding s m1 by auto
  have s1: "free_set d1 = {9..<512}" unfolding d1(2) by auto
  obtain d2 where d2: "new_block d1 = Some (blk 9, d2)"
    using next_free [OF fits, of d1 9] d1(3) d'(2) unfolding s1 m2 by auto
  show ?thesis using d'(1,5) d1(1) d2 by (auto simp: blk_def)
qed

text \<open>When no block is left, \<^verbatim>\<open>block_write\<close> takes 0 for the new block and goes on writing there: over
  the bitmap.  Its test is of the wrong variable.\<close>

lemma full_disk_writes_bitmap:
  assumes "block_ok d b" "get32 d (b + 0x7c) = 0" "fits d 0 0x40" "free_set d = {}"
  shows "\<exists>d'. next_or_new d (b + 0x7c) = Some (0, d', False)"
proof -
  obtain ns where "rd_read d (b + 0x7c) 4 = Some ns" "length ns = 4" "le_bytes ns = 0"
    using next_block(2) [OF assms(1)] assms(2) by auto
  moreover have "fits d (b + 0x7c) 4" using assms(1) by (auto simp: block_ok_def fits_def)
  ultimately show ?thesis
    using assms(1) new_block_full [OF assms(3,4)] by (simp add: next_or_new_def store32_fits block_ok_def)
qed

text \<open>A file read in pieces smaller than the position reached is reported as ended.\<close>

lemma iread_stops_early:
  assumes "node_at fs n = Some nd" "node_type nd = YLS_FILE" "sz < offset file"
  shows "blkfs_iread fs file n sz = Some (0, [], file)"
  using assms by (simp add: blkfs_iread_def YLS_FILE_def YLS_DIR_def)

text \<open>A name that starts with a dot is taken for the directory itself.\<close>

lemma hidden_name:
  assumes "node_at fs n = Some nd" "node_type nd = YLS_DIR" "char_at name 0 \<noteq> CHR ''.''"
  shows "blkfs_ifind k rp fs cur n (CHR ''.'' # name) flags = Some (Next cur name, fs)"
  using assms by (cases name) (auto simp: blkfs_ifind_def check_def char_at_def Let_def)

text \<open>When every slot of a directory's block is taken the search ends nowhere, and the caller goes
  on with a null pointer.\<close>

lemma full_directory_faults:
  assumes "block_ok d D" "get32 d (D + 0x7c) = 0" "get32 d (D + 0x78) = YLS_WIPE"
  shows "scan_dir d s (D + 0x78) = Some Exhausted"
proof -
  have D: "D \<noteq> 0" "fits d D 0x80" "D mod 0x80 = 0" using assms(1) by (auto simp: block_ok_def)
  have r: "rd_read d (D + 0x78) 4 = Some (map (rd_mem d) [D + 0x78..<D + 0x78 + 4])"
    using fits_mono [OF D(2)] by (intro rd_read_fits) simp
  obtain ns where ns: "rd_read d (D + 0x7c) 4 = Some ns" "length ns = 4" "le_bytes ns = 0"
    using next_block(2) [OF assms(1)] assms(2) by auto
  have g: "le_bytes (map (rd_mem d) [D + 0x78..<D + 0x78 + 4]) = YLS_WIPE"
    using assms(3) by (simp add: get32_def)
  have a: "add32 (D + 0x78) 4 = D + 0x7c" using D(2) by (subst add32_eq) (auto simp: fits_def)
  have m: "(D + 0x7c) mod BLK_SZ = BLK_MEM" using D(3) by (simp add: BLK_SZ_def BLK_MEM_def mod_add_eq [symmetric, of D])
  have l: "length (map (rd_mem d) [D + 0x78..<D + 0x78 + 4]) = 4" by simp
  show ?thesis
    by (subst scan_dir.simps, simp only: r bind.bind_lunit g a m l ns Let_def)
      (simp add: ns YLS_WIPE_def scan_dir.simps [of d s 0])
qed

end
