(* ===== verification/Boot.thy ===== *)
theory Boot
  imports Initrd Blkfs_Limits
begin

text \<open>
  The file system after \<^verbatim>\<open>vfs_init\<close>: the image of \<^verbatim>\<open>initrd.c\<close> is a well-formed disk, the second disk is
  formatted, and mounting the second disk, the devices and the tasks below the root gives the tree
  that lookup walks.
\<close>

section \<open>The nodes of a disk\<close>

declare read_node.simps [simp del]

definition node_bytes_at :: "rd \<Rightarrow> nat \<Rightarrow> u8 list" where
  "node_bytes_at d i = map (rd_mem d) [0x40 + i * 0x10..<0x40 + i * 0x10 + 0x10]"

lemma node_fields:
  "info (read_node (node_bytes_at d i)) = get32 d (0x44 + i * 0x10)"
  "node_type (read_node (node_bytes_at d i)) = get32 d (0x4c + i * 0x10)"
  by (simp_all add: read_node.simps node_bytes_at_def get32_def take_map drop_map add.commute)

definition nodes_of :: "rd \<Rightarrow> yls_node list" where
  "nodes_of d = map (\<lambda>i. read_node (node_bytes_at d i)) [0..<NODES]"

lemma load_nodes_all:
  "fits d 0 0x400 \<Longrightarrow> n \<le> NODES \<Longrightarrow> load_nodes d n = Some (map (\<lambda>i. read_node (node_bytes_at d i)) [0..<n])"
proof (induction n)
  case (Suc n)
  have "fits d (0x40 + n * 0x10) 0x10"
    using Suc.prems by (auto simp: fits_def NODES_def INODE_START_def INODE_END_def)
  then have "rd_read d (INODE_START + n * 0x10) 0x10 = Some (node_bytes_at d n)"
    unfolding INODE_START_def node_bytes_at_def by (rule rd_read_fits)
  moreover have "length (node_bytes_at d n) = 0x10" by (simp add: node_bytes_at_def)
  moreover have "load_nodes d n = Some (map (\<lambda>i. read_node (node_bytes_at d i)) [0..<n])" using Suc by simp
  ultimately show ?case by simp
qed simp

lemma nodes_of_simps [simp]:
  "length (nodes_of d) = NODES"
  "i < NODES \<Longrightarrow> info (nodes_of d ! i) = get32 d (0x44 + i * 0x10)"
  "i < NODES \<Longrightarrow> node_type (nodes_of d ! i) = get32 d (0x4c + i * 0x10)"
  by (simp_all add: nodes_of_def node_fields del: upt_Suc)

lemma NODES_eq [simp]: "NODES = 60"
  by (simp add: NODES_def INODE_START_def INODE_END_def)

section \<open>The first disk\<close>

lemma disk_get32:
  assumes "4 dvd a" "a + 4 \<le> 0x10000"
  shows "get32 initrd_disk a = word_of pairs a mod 2 ^ 32"
proof -
  obtain m where a: "a = 4 * m" using assms(1) by (rule dvdE)
  have "map (rd_mem initrd_disk) [a..<a + 4] = bytes32 (word_of pairs a)"
  proof (rule nth_equalityI)
    fix i
    assume "i < length (map (rd_mem initrd_disk) [a..<a + 4])"
    then have i: "i < 4" by simp
    then have "(a + i) div 4 = m" "(a + i) mod 4 = i" by (simp_all add: a)
    then show "map (rd_mem initrd_disk) [a..<a + 4] ! i = bytes32 (word_of pairs a) ! i"
      using assms(2) i disk_mem [of "a + i"] by (simp add: a)
  qed simp
  then show ?thesis by (simp add: get32_def le_bytes32)
qed

definition initrd_entries :: "nat \<Rightarrow> nat \<Rightarrow> entry list" where
  "initrd_entries k n =
     (if k = 0 \<and> n = 0 then
        [Named 0x500 (bytes_of ''test''), Named 0x600 (bytes_of ''txt''), Named 0x700 (bytes_of ''mnt''),
         Named 0x800 (bytes_of ''dev''), Named 0x900 (bytes_of ''proc''), Named 0xa00 (bytes_of ''home'')]
      else if k = 0 \<and> n = 6 then [Named 0xb00 (bytes_of ''michael'')] else [])"

definition fs_first :: blkfs where
  "fs_first = \<lparr>dev = initrd_disk, nodes = nodes_of initrd_disk\<rparr>"

lemma first_init: "blkfs_init initrd_disk = Some fs_first"
proof -
  have "load32 initrd_disk 0 = Some 0xffffff"
    using disk_get32 [of 0] by (simp add: load32_fits fits_def word_of_def pairs_def)
  moreover have "load_nodes initrd_disk NODES = Some (nodes_of initrd_disk)"
    using load_nodes_all [of initrd_disk NODES] by (simp add: fits_def nodes_of_def)
  ultimately show ?thesis by (simp add: blkfs_init_def fs_first_def)
qed

lemma disk_name:
  "name_block initrd_disk 0x500 (bytes_of ''test'')" "name_block initrd_disk 0x600 (bytes_of ''txt'')"
  "name_block initrd_disk 0x700 (bytes_of ''mnt'')" "name_block initrd_disk 0x800 (bytes_of ''dev'')"
  "name_block initrd_disk 0x900 (bytes_of ''proc'')" "name_block initrd_disk 0xa00 (bytes_of ''home'')"
  "name_block initrd_disk 0xb00 (bytes_of ''michael'')"
  by (simp_all add: name_block_def bytes_of_def upt_conv_Cons disk_mem bytes32_def word_of_def pairs_def disk_get32)

lemma first_nodes:
  "length (nodes fs_first) = 60" "dev fs_first = initrd_disk"
  "n \<in> {0, 1, 3, 4, 5, 6, 7} \<Longrightarrow> node_type (nodes fs_first ! n) = YLS_DIR"
  "node_type (nodes fs_first ! 2) = YLS_FILE"
  "n \<in> {0, 1, 3, 4, 5, 6, 7} \<Longrightarrow> info (nodes fs_first ! n) = 0x480 + 0x100 * n"
  by (auto simp: fs_first_def disk_get32 word_of_def pairs_def YLS_DIR_def YLS_FILE_def)

lemma first_names: "get32 initrd_disk (0x400 + 0x100 * n) = n" if "n < 8"
proof -
  have "n = 0 \<or> n = 1 \<or> n = 2 \<or> n = 3 \<or> n = 4 \<or> n = 5 \<or> n = 6 \<or> n = 7" using that by presburger
  then show ?thesis by (elim disjE) (simp_all add: disk_get32 word_of_def pairs_def)
qed

lemma first_empty: "n \<in> {1, 3, 4, 5, 7} \<Longrightarrow> get32 initrd_disk (0x484 + 0x100 * n) = 0"
  by (auto simp: disk_get32 word_of_def pairs_def)

lemma first_dirs:
  assumes "n \<in> {0, 1, 3, 4, 5, 6, 7}"
  shows "fs_dir fs_first n (initrd_entries 0 n)"
proof -
  have ok: "block_ok initrd_disk b" if "b mod 0x80 = 0" "b \<noteq> 0" "b + 0x80 \<le> 0x10000" for b
    using that by (simp add: block_ok_def fits_def)
  have len: "n < length (nodes fs_first)" using assms first_nodes(1) by auto
  have inf: "info (nodes fs_first ! n) = 0x480 + 0x100 * n" using first_nodes(5) [OF assms] .
  have nm: "get32 initrd_disk 0x500 = 1" "get32 initrd_disk 0x600 = 2" "get32 initrd_disk 0x700 = 3"
    "get32 initrd_disk 0x800 = 4" "get32 initrd_disk 0x900 = 5" "get32 initrd_disk 0xa00 = 6" "get32 initrd_disk 0xb00 = 7"
    using first_names [of 1] first_names [of 2] first_names [of 3] first_names [of 4] first_names [of 5]
      first_names [of 6] first_names [of 7] by simp_all
  consider "n = 0" | "n = 6" | "n \<in> {1, 3, 4, 5, 7}" using assms by auto
  then show ?thesis
  proof cases
    case 1
    have "get32 initrd_disk 0x484 = 0x500" "get32 initrd_disk 0x488 = 0x600" "get32 initrd_disk 0x48c = 0x700"
      "get32 initrd_disk 0x490 = 0x800" "get32 initrd_disk 0x494 = 0x900" "get32 initrd_disk 0x498 = 0xa00"
      "get32 initrd_disk 0x49c = 0"
      by (simp_all add: disk_get32 word_of_def pairs_def)
    then show ?thesis using 1 len inf nm disk_name
      by (auto simp: fs_dir_def dir_ok_def first_nodes(2) initrd_entries_def ok fits_def entry_ok_def YLS_WIPE_def
          less_Suc_eq nth_Cons')
  next
    case 2
    have "get32 initrd_disk 0xa84 = 0xb00" "get32 initrd_disk 0xa88 = 0"
      by (simp_all add: disk_get32 word_of_def pairs_def)
    then show ?thesis using 2 len inf nm disk_name
      by (simp add: fs_dir_def dir_ok_def first_nodes(2) initrd_entries_def ok fits_def entry_ok_def YLS_WIPE_def)
  next
    case 3
    then have e: "initrd_entries 0 n = []" by (auto simp: initrd_entries_def)
    have "(0x480 + 0x100 * n) mod 0x80 = 0" by (auto simp: mod_add_eq mod_mult_left_eq)
    moreover have "n \<le> 7" using assms by auto
    ultimately show ?thesis using first_empty [OF 3] len inf
      by (simp add: fs_dir_def dir_ok_def first_nodes(2) e ok fits_def add.assoc)
  qed
qed

section \<open>The second disk\<close>

lemma second_init:
  fixes I :: rd
  shows "\<exists>fs. blkfs_init (rd_init 2 I) = Some fs \<and> fs_dir fs 0 [] \<and> node_type (nodes fs ! 0) = YLS_DIR"
proof -
  define z where "z = rd_init 2 I"
  have z: "rd_size z = 0x400000" "rd_mem z i = 0" for i by (simp_all add: z_def rd_init_def RD_SIZE_def)
  have a: "rd_size z < 2 ^ 32" "0x10000 \<le> rd_size z" using z(1) by simp_all
  obtain d where d: "yls_init z = Some d" "rd_size d = rd_size z" "get32 d 0x44 = 0x480" "get32 d 0x4c = YLS_DIR"
    "\<And>i. 0x480 \<le> i \<Longrightarrow> rd_mem d i = rd_mem z i"
    using format_mem [OF a] by metis
  have "get32 z 0 = 0" using z(2) by (intro zero_get32) simp
  then have "load32 z 0 = Some 0" using z(1) by (simp add: load32_fits fits_def)
  moreover have "load_nodes d NODES = Some (nodes_of d)"
    unfolding nodes_of_def using z(1) d(2) by (intro load_nodes_all) (auto simp: fits_def)
  ultimately have "blkfs_init z = Some \<lparr>dev = d, nodes = nodes_of d\<rparr>" using d(1) by (simp add: blkfs_init_def)
  moreover have "get32 d 0x484 = 0" using z(2) d(5) by (intro zero_get32) simp
  then have "fs_dir \<lparr>dev = d, nodes = nodes_of d\<rparr> 0 []"
    using d(2,3) z(1) by (simp add: fs_dir_def dir_ok_def block_ok_def fits_def)
  ultimately show ?thesis using d(4) by (simp add: z_def)
qed

section \<open>Mounting\<close>

lemma slash_found:
  assumes "contents v a = BlkI k n" "n < length (nodes (bfs v k))" "node_type (nodes (bfs v k) ! n) = YLS_DIR"
  shows "vfs_find v a ''/'' flags = Some (Some a, v)"
  using assms by (subst vfs_find.simps)
    (simp add: find_step_def blkfs_ifind_def node_at_def check_def char_at_def)

text \<open>Mounting below the root, on a directory of a block file system.\<close>

lemma mount_step:
  assumes "tree D v S" "fit_name v S c" "vfs_root v = BlkI 0 0" "contents v (BlkI 0 0) = BlkI 0 0" "BlkI 0 0 \<in> S"
    and "child D v (BlkI 0 0) c = Some a" "contents v a = BlkI k n" "is_dir_at v a" "is_dir_at v (BlkI 0 0)"
    and "a \<noteq> BlkI 0 0" "c \<noteq> []"
  shows "vfs_mount v (CHR ''/'' # c @ ''/'') f = Some (set_parent f (BlkI 0 0)
    (v\<lparr>mounts := mounts v @ [(CHR ''/'' # c @ ''/'', contents v a)], contents := (contents v)(a := contents v (fs_root f))\<rparr>))"
proof -
  let ?p = "CHR ''/'' # c @ ''/''" and ?fl = "O_RDONLY + O_DIRECTORY"
  have nc: "\<not> has_flag ?fl O_CREATE" by (simp add: has_flag_def O_RDONLY_def O_DIRECTORY_def O_CREATE_def)
  have step: "find_step v (BlkI 0 0) ?p ?fl = Some (Next a ''/'', v)"
    using find_step_layer [OF assms(1,5,2) _ nc, of "''/''" ?p] assms(6) by auto
  have a: "n < length (nodes (bfs v k))" "node_type (nodes (bfs v k) ! n) = YLS_DIR"
    using tree_child [OF assms(1,5,6)] assms(1,7,8) by (auto simp: tree_def sound_at_def is_dir_at_def)
  have "vfs_lookup v ?p ?fl = Some (Some a, v)"
    using step slash_found [OF assms(7) a] assms(3) by (simp add: vfs_lookup_def char_at_def vfs_find.simps [of v "BlkI 0 0"])
  moreover have "dir_cat ?p ''..'' = Inr ''/''"
  proof -
    have "\<forall>n\<in>set [c]. proper n" using assms(2) by (simp add: fit_proper)
    then have "dir_step ?p ''..'' (Suc (Suc 0)) = Inr ''/''"
      using dir_step_up [of "[c]" "[]"] by (simp add: prefix_text_def numeral_2_eq_2)
    moreover have "char_at ?p (length ?p - 1) = CHR ''/''" by (simp add: char_at_def nth_append)
    ultimately show ?thesis
      by (simp add: dir_cat_def dir_cat_real.simps [of _ "''..''"] get_first_slash_def char_at_def Let_def)
  qed
  moreover have "vfs_lookup v2 ''/'' ?fl = Some (Some (BlkI 0 0), v2)"
    if "v2 = v\<lparr>mounts := ms, contents := (contents v)(a := b)\<rparr>" for v2 ms b
  proof -
    have "0 < length (nodes (bfs v 0))" "node_type (nodes (bfs v 0) ! 0) = YLS_DIR"
      using assms(1,4,5,9) by (auto simp: tree_def sound_at_def is_dir_at_def)
    then show ?thesis
      using slash_found [of v2 "BlkI 0 0" 0 0 ?fl] assms(3,4,10) by (simp add: that vfs_lookup_def char_at_def)
  qed
  ultimately show ?thesis using assms(11) by (simp add: vfs_mount_def)
qed

section \<open>The tree after the start\<close>

definition boot_inodes :: "inode set" where
  "boot_inodes = BlkI 0 ` {..<8} \<union> range DevI \<union> range ProcI"

lemma boot_tree:
  assumes "bfs v 0 = fs_first" "fs_dir (bfs v 1) 0 []"
    and "contents v = (\<lambda>a. a)(BlkI 0 3 := x, BlkI 0 4 := y, BlkI 0 5 := z)"
    and "x \<in> {BlkI 0 3, BlkI 1 0}" "y \<in> {BlkI 0 4, DevRootI}" "z \<in> {BlkI 0 5, ProcRootI}"
  shows "tree initrd_entries v boot_inodes"
proof -
  have "sound_at initrd_entries v (BlkI 0 n)" if n: "n < 8" for n
  proof -
    have d: "fs_dir (bfs v 0) m (initrd_entries 0 m)" if "m \<in> {0, 1, 3, 4, 5, 6, 7}" for m
      using first_dirs [OF that] assms(1) by simp
    have e: "initrd_entries (Suc 0) 0 = []" by (simp add: initrd_entries_def)
    have "n = 0 \<or> n = 1 \<or> n = 2 \<or> n = 3 \<or> n = 4 \<or> n = 5 \<or> n = 6 \<or> n = 7" using n by presburger
    then show ?thesis
      using d [of n] assms first_nodes(1,4) e
      by (auto simp: sound_at_def is_dir_at_def fs_dir_def YLS_DIR_def YLS_FILE_def)
  qed
  moreover have "sound_at initrd_entries v (DevI i)" "sound_at initrd_entries v (ProcI i)" for i
    using assms(3) by (simp_all add: sound_at_def)
  moreover have "b \<in> boot_inodes" if ch: "child initrd_entries v (BlkI 0 n) c = Some b" "n < 8" for n c b
  proof (cases "contents v (BlkI 0 n)")
    case (BlkI k m)
    show ?thesis
    proof (cases "k = 0")
      case True
      obtain i b' where b': "dir_find (bytes_of c) (initrd_entries 0 m) = Some (i, b')" "b = BlkI 0 (get32 (dev (bfs v 0)) b')"
        using ch(1) BlkI True by (auto simp: child_def split: if_splits)
      then have "Named b' (bytes_of c) \<in> set (initrd_entries 0 m)" using dir_find_Some nth_mem by metis
      then have "\<exists>j<8. b' = 0x400 + 0x100 * j" by (auto simp: initrd_entries_def split: if_splits)
      then show ?thesis using b'(2) first_names assms(1) first_nodes(2) by (auto simp: boot_inodes_def)
    next
      case False
      then show ?thesis using ch(1) BlkI by (simp add: child_def initrd_entries_def split: if_splits)
    qed
  next
    case ProcRootI
    then show ?thesis using ch(1) by (auto simp: child_def proc_child_def boot_inodes_def split: if_splits)
  next
    case (ProcI i)
    then show ?thesis using ch(1) by (auto simp: child_def task_child_def boot_inodes_def split: if_splits)
  qed (use ch(1) in \<open>auto simp: child_def boot_inodes_def\<close>)
  moreover have "child initrd_entries v (DevI i) c = None" for i c
    using assms(3) by (simp add: child_def)
  moreover have "b \<in> boot_inodes" if "child initrd_entries v (ProcI i) c = Some b" for i c b
    using that assms(3) by (auto simp: child_def task_child_def boot_inodes_def split: if_splits)
  moreover have "(\<exists>n<8. a = BlkI 0 n) \<or> (\<exists>i. a = DevI i) \<or> (\<exists>i. a = ProcI i)" if "a \<in> boot_inodes" for a
    using that by (auto simp: boot_inodes_def)
  ultimately show ?thesis unfolding tree_def by (metis option.distinct(1))
qed

lemma boot_fit: "plain_name c \<Longrightarrow> proc_safe c \<Longrightarrow> fit_name v S c"
  by (simp add: fit_name_def)

lemma boot_names:
  "\<forall>c\<in>set [''mnt'', ''dev'', ''proc'', ''test'', ''txt'', ''home'', ''michael'', ''tty1'', ''meminfo'', ''zero''].
     plain_name c \<and> proc_safe c"
  by (simp add: plain_name_def proc_safe_def other_info_def is_digit_def)

lemma boot_child:
  assumes "bfs v 0 = fs_first" "contents v (BlkI 0 0) = BlkI 0 0"
  shows "child initrd_entries v (BlkI 0 0) ''mnt'' = Some (BlkI 0 3)"
    "child initrd_entries v (BlkI 0 0) ''dev'' = Some (BlkI 0 4)"
    "child initrd_entries v (BlkI 0 0) ''proc'' = Some (BlkI 0 5)"
    "child initrd_entries v (BlkI 0 0) ''txt'' = Some (BlkI 0 2)"
    "child initrd_entries v (BlkI 0 0) ''home'' = Some (BlkI 0 6)"
    "is_dir_at v (BlkI 0 0)"
  using first_nodes(3) [of 0] first_names [of 2] first_names [of 3] first_names [of 4] first_names [of 5] first_names [of 6]
  by (simp_all add: child_def is_dir_at_def assms initrd_entries_def bytes_of_def first_nodes(2))

lemma vfs_starts:
  fixes v :: "'d vfs" and I :: rd
  shows "\<exists>v'. vfs_init v initrd_disk (rd_init 2 I) = Some v' \<and> tree initrd_entries v' boot_inodes \<and>
    vfs_root v' = BlkI 0 0 \<and> bfs v' 0 = fs_first \<and> node_type (nodes (bfs v' 1) ! 0) = YLS_DIR \<and> cur_dir v' = cur_dir v \<and> ptasks v' = ptasks v \<and>
    contents v' = (\<lambda>a. a)(BlkI 0 3 := BlkI 1 0, BlkI 0 4 := DevRootI, BlkI 0 5 := ProcRootI)"
proof -
  obtain fs1 where fs1: "blkfs_init (rd_init 2 I) = Some fs1" "fs_dir fs1 0 []" "node_type (nodes fs1 ! 0) = YLS_DIR"
    using second_init by blast
  define v0 where "v0 = v\<lparr>bfs := (\<lambda>k. if k = 0 then fs_first else fs1), contents := (\<lambda>a. a), mounts := []\<rparr>"
  define v1 where "v1 = set_parent (FBlk 0) (BlkI 0 0) (v0\<lparr>vfs_root := BlkI 0 0\<rparr>)"
  define mnt where "mnt = (\<lambda>c a f (u :: 'd vfs). set_parent f (BlkI 0 0)
    (u\<lparr>mounts := mounts u @ [(CHR ''/'' # c @ ''/'', contents u a)], contents := (contents u)(a := contents u (fs_root f))\<rparr>))"
  define v2 where "v2 = mnt ''mnt'' (BlkI 0 3) (FBlk 1) v1"
  define v3 where "v3 = mnt ''dev'' (BlkI 0 4) FDev v2"
  define v4 where "v4 = mnt ''proc'' (BlkI 0 5) FProc v3"
  have m: "bfs (mnt c a f u) = bfs u" "vfs_root (mnt c a f u) = vfs_root u" "cur_dir (mnt c a f u) = cur_dir u"
    "ptasks (mnt c a f u) = ptasks u" "contents (mnt c a f u) = (contents u)(a := contents u (fs_root f))" for c a f u
    by (simp_all add: mnt_def set_parent_def split: fs.split)
  have b: "bfs v1 0 = fs_first" "bfs v1 1 = fs1" "vfs_root v1 = BlkI 0 0" "contents v1 = (\<lambda>a. a)" "cur_dir v1 = cur_dir v"
    "ptasks v1 = ptasks v"
    by (simp_all add: v1_def v0_def set_parent_def)
  have B: "bfs v2 = bfs v1" "bfs v3 = bfs v1" "bfs v4 = bfs v1" "vfs_root v2 = BlkI 0 0" "vfs_root v3 = BlkI 0 0"
    "vfs_root v4 = BlkI 0 0" "cur_dir v4 = cur_dir v" "ptasks v4 = ptasks v"
    by (simp_all add: v2_def v3_def v4_def m b)
  have c: "contents v2 = (\<lambda>a. a)(BlkI 0 3 := BlkI 1 0)"
    "contents v3 = (\<lambda>a. a)(BlkI 0 3 := BlkI 1 0, BlkI 0 4 := DevRootI)"
    "contents v4 = (\<lambda>a. a)(BlkI 0 3 := BlkI 1 0, BlkI 0 4 := DevRootI, BlkI 0 5 := ProcRootI)"
    by (simp_all add: v2_def v3_def v4_def m b fs_root_def)
  have t: "tree initrd_entries v1 boot_inodes" "tree initrd_entries v2 boot_inodes" "tree initrd_entries v3 boot_inodes"
    "tree initrd_entries v4 boot_inodes"
    using boot_tree [of v1 "BlkI 0 3" "BlkI 0 4" "BlkI 0 5"] boot_tree [of v2 "BlkI 1 0" "BlkI 0 4" "BlkI 0 5"]
      boot_tree [of v3 "BlkI 1 0" DevRootI "BlkI 0 5"] boot_tree [of v4 "BlkI 1 0" DevRootI ProcRootI] b fs1(2) B c
    by (simp_all add: fun_eq_iff del: One_nat_def)
  have r: "BlkI 0 0 \<in> boot_inodes" by (simp add: boot_inodes_def)
  have fit: "fit_name u S c" if "c \<in> {''mnt'', ''dev'', ''proc''}" for u :: "'d vfs" and S c
    using that boot_names by (auto intro: boot_fit)
  have dir: "node_type (nodes fs_first ! n) = YLS_DIR" if "n \<in> {3, 4, 5}" for n using that first_nodes(3) by auto
  have "vfs_mount v1 ''/mnt/'' (FBlk 1) = Some v2"
    using mount_step [OF t(1) fit b(3) _ r boot_child(1) [OF b(1)], of 0 3 "FBlk 1"] b dir boot_child(6) [OF b(1)]
    by (simp add: v2_def mnt_def is_dir_at_def del: One_nat_def)
  moreover have "vfs_mount v2 ''/dev/'' FDev = Some v3"
    using mount_step [OF t(2) fit B(4) _ r boot_child(2), of 0 4 FDev] b B c dir boot_child(6) [of v2]
    by (simp add: v3_def mnt_def is_dir_at_def del: One_nat_def)
  moreover have "vfs_mount v3 ''/proc/'' FProc = Some v4"
    using mount_step [OF t(3) fit B(5) _ r boot_child(3), of 0 5 FProc] b B c dir boot_child(6) [of v3]
    by (simp add: v4_def mnt_def is_dir_at_def del: One_nat_def)
  moreover have "vfs_mount v0 ''/'' (FBlk 0) = Some v1" by (simp add: vfs_mount_def v1_def fs_root_def)
  ultimately have "vfs_init v initrd_disk (rd_init 2 I) = Some v4"
    using first_init fs1(1) by (simp add: vfs_init_def Let_def v0_def [symmetric] del: One_nat_def)
  then show ?thesis using t(4) b(1,2) B c(3) fs1(3) by simp
qed

section \<open>Looking around\<close>

text \<open>C27: on the image that \<^verbatim>\<open>initrd.c\<close> writes and an empty second disk \<^verbatim>\<open>vfs_init\<close> succeeds, whatever was
  in memory before, and the paths of the image, the second disk, the devices and the processes all
  lead where they should: through the directories of the image, and across the three mounts.\<close>

theorem boot_lookup:
  shows "\<exists>v'. vfs_init v (rd_init 1 initrd_disk) (rd_init 2 initrd_disk) = Some v' \<and>
    tree initrd_entries v' boot_inodes \<and>
    vfs_lookup v' ''/txt'' O_RDONLY = Some (Some (BlkI 0 2), v') \<and>
    vfs_lookup v' ''/home/michael'' (O_RDONLY + O_DIRECTORY) = Some (Some (BlkI 0 7), v') \<and>
    vfs_lookup v' ''/mnt'' (O_RDONLY + O_DIRECTORY) = Some (Some (BlkI 0 3), v') \<and> contents v' (BlkI 0 3) = BlkI 1 0 \<and>
    vfs_lookup v' ''/dev/tty1'' O_RDONLY = Some (Some (DevI 4), v') \<and>
    vfs_lookup v' ''/proc/meminfo'' O_RDONLY = Some (Some (ProcI 193), v') \<and>
    (\<exists>w. vfs_lookup v' ''/txt'' (O_RDONLY + O_DIRECTORY) = Some (None, warn w v')) \<and>
    (\<exists>w. vfs_lookup v' ''/mnt/txt'' O_RDONLY = Some (None, warn w v'))"
proof -
  obtain v' where v': "vfs_init v initrd_disk (rd_init 2 initrd_disk) = Some v'" "tree initrd_entries v' boot_inodes"
    "vfs_root v' = BlkI 0 0" "bfs v' 0 = fs_first" "node_type (nodes (bfs v' 1) ! 0) = YLS_DIR"
    "contents v' = (\<lambda>a. a)(BlkI 0 3 := BlkI 1 0, BlkI 0 4 := DevRootI, BlkI 0 5 := ProcRootI)"
    using vfs_starts [of v initrd_disk] by blast
  have r: "vfs_root v' \<in> boot_inodes" by (simp add: v'(3) boot_inodes_def)
  have fit: "\<forall>c\<in>set (c # cs). fit_name v' boot_inodes c"
    if "set (c # cs) \<subseteq> {''mnt'', ''dev'', ''proc'', ''txt'', ''home'', ''michael'', ''tty1'', ''meminfo''}" for c cs
    using that boot_names by (auto intro: boot_fit)
  have fl: "\<not> has_flag O_RDONLY O_CREATE" "\<not> has_flag (O_RDONLY + O_DIRECTORY) O_CREATE" "\<not> has_flag O_RDONLY O_DIRECTORY"
    "has_flag (O_RDONLY + O_DIRECTORY) O_DIRECTORY"
    by (simp_all add: has_flag_def O_RDONLY_def O_CREATE_def O_DIRECTORY_def)
  note look = lookup_walk(1) [OF v'(2) _ fit r, unfolded v'(3)]
  have c0: "contents v' (BlkI 0 0) = BlkI 0 0" by (simp add: v'(6))
  note root = boot_child [OF v'(4) c0]
  have home: "child initrd_entries v' (BlkI 0 6) ''michael'' = Some (BlkI 0 7)"
    using first_nodes(2) first_nodes(3) [of 6] first_names [of 7]
    by (simp add: child_def is_dir_at_def v'(4,6) initrd_entries_def bytes_of_def)
  have dev: "child initrd_entries v' (BlkI 0 4) ''tty1'' = Some (DevI 4)"
    by (simp add: child_def v'(6) devices_def)
  have proc: "child initrd_entries v' (BlkI 0 5) ''meminfo'' = Some (ProcI 193)"
    by (simp add: child_def v'(6) proc_child_def is_digit_def other_info_def)
  have mnt: "child initrd_entries v' (BlkI 0 3) ''txt'' = None"
    by (simp add: child_def v'(6) initrd_entries_def)
  have dirs: "is_dir_at v' (BlkI 0 7)" "is_dir_at v' (BlkI 0 3)" "\<not> is_dir_at v' (BlkI 0 2)"
    using first_nodes(3) [of 7] first_nodes(4) v'(5)
    by (simp_all add: is_dir_at_def v'(4,6) YLS_DIR_def YLS_FILE_def del: One_nat_def)
  have "vfs_lookup v' ''/txt'' O_RDONLY = Some (Some (BlkI 0 2), v')"
    using look [where c = "''txt''" and cs = "[]" and flags = O_RDONLY] root(4) fl by (simp add: arrives_def found_by_def prefix_text_def)
  moreover have "vfs_lookup v' ''/home/michael'' (O_RDONLY + O_DIRECTORY) = Some (Some (BlkI 0 7), v')"
    using look [where c = "''home''" and cs = "[''michael'']" and flags = "O_RDONLY + O_DIRECTORY"] root(5) home dirs(1) fl
    by (simp add: arrives_def found_by_def prefix_text_def)
  moreover have "vfs_lookup v' ''/mnt'' (O_RDONLY + O_DIRECTORY) = Some (Some (BlkI 0 3), v')"
    using look [where c = "''mnt''" and cs = "[]" and flags = "O_RDONLY + O_DIRECTORY"] root(1) dirs(2) fl by (simp add: arrives_def found_by_def prefix_text_def)
  moreover have "vfs_lookup v' ''/dev/tty1'' O_RDONLY = Some (Some (DevI 4), v')"
    using look [where c = "''dev''" and cs = "[''tty1'']" and flags = O_RDONLY] root(2) dev fl by (simp add: arrives_def found_by_def prefix_text_def)
  moreover have "vfs_lookup v' ''/proc/meminfo'' O_RDONLY = Some (Some (ProcI 193), v')"
    using look [where c = "''proc''" and cs = "[''meminfo'']" and flags = O_RDONLY] root(3) proc fl by (simp add: arrives_def found_by_def prefix_text_def)
  moreover have "\<exists>w. vfs_lookup v' ''/txt'' (O_RDONLY + O_DIRECTORY) = Some (None, warn w v')"
    using look [where c = "''txt''" and cs = "[]" and flags = "O_RDONLY + O_DIRECTORY"] root(4) dirs(3) fl by (simp add: arrives_def found_by_def prefix_text_def)
  moreover have "\<exists>w. vfs_lookup v' ''/mnt/txt'' O_RDONLY = Some (None, warn w v')"
    using look [where c = "''mnt''" and cs = "[''txt'']" and flags = O_RDONLY] root(1) mnt fl by (simp add: arrives_def found_by_def prefix_text_def)
  moreover have "contents v' (BlkI 0 3) = BlkI 1 0" by (simp add: v'(6))
  moreover have "rd_init 1 initrd_disk = initrd_disk" by (simp add: rd_init_def)
  ultimately show ?thesis using v'(1,2) by simp
qed

end
