(* ===== verification/Video.thy ===== *)
theory Video
  imports Prelude
begin

unbundle bit_operations_syntax

text \<open>
  The frame buffer device, \<^verbatim>\<open>kernel/src/devices/video/video.c\<close>: textures of 8 by 8 pixels, sprites
  that put a texture on the screen, and the font.  What reaches the display controller through
  \<^verbatim>\<open>_io_write\<close> is the list of requests a write produces.
\<close>

definition TEXTURE_W :: nat where "TEXTURE_W = 8"
definition TEXTURE_H :: nat where "TEXTURE_H = 8"
definition NTEXTURE :: nat where "NTEXTURE = 16384"
definition SPRITE_BRK :: nat where "SPRITE_BRK = 0x1000000"
definition DEFAULT_BG :: u32 where "DEFAULT_BG = 0x00300A24"
definition DEFAULT_FG :: u32 where "DEFAULT_FG = 0x00ffffff"

record sprite =
  sp_texture :: nat
  sp_x :: nat
  sp_y :: nat
  sp_display :: nat
  sp_z :: nat
  sp_fg :: u32
  sp_bg :: u32

record display_info =
  di_width :: nat
  di_height :: nat
  di_num_displays :: nat
  di_current :: nat
  di_num_textures :: nat
  di_num_sprites :: nat

record fb =
  fb_info :: display_info
  fb_textures :: "nat \<Rightarrow> u32 list"

record fbctl =
  ctl_x :: nat
  ctl_y :: nat
  ctl_w :: nat
  ctl_h :: nat
  ctl_pixels :: "u32 list"

section \<open>Textures\<close>

definition texture_fill :: "bool \<Rightarrow> u8 list \<Rightarrow> u32 \<Rightarrow> u32 \<Rightarrow> u32 list" where
  "texture_fill upper bits fg bg =
     concat (map (\<lambda>y. map (\<lambda>x.
       (let bitmask = (if upper then bits ! (y + TEXTURE_H) else bits ! y)
        in if drop_bit (7 - x) bitmask AND 1 \<noteq> 0 then fg else bg)) [0..<TEXTURE_W]) [0..<TEXTURE_H])"

definition font_load :: "(nat \<Rightarrow> u32 list) \<Rightarrow> u8 list \<Rightarrow> nat \<Rightarrow> u32 list" where
  "font_load textures font =
     foldl (\<lambda>tx ch. tx(ch * 2 + 1 := texture_fill False (drop (16 * ch) font) DEFAULT_FG DEFAULT_BG,
                       ch * 2 + 2 := texture_fill True (drop (16 * ch) font) DEFAULT_FG DEFAULT_BG))
       textures [0..<256]"

text \<open>A colour the source texture does not use fails the assertion.\<close>

fun reload_color :: "u32 list \<Rightarrow> u32 \<Rightarrow> u32 \<Rightarrow> u32 list result" where
  "reload_color [] fg bg = Inr []"
| "reload_color (p # src) fg bg =
     (if p = DEFAULT_FG then and_then (reload_color src fg bg) (\<lambda>dst. Inr (fg # dst))
      else if p = DEFAULT_BG then and_then (reload_color src fg bg) (\<lambda>dst. Inr (bg # dst))
      else Inl AssertFail)"

section \<open>Operations\<close>

text \<open>The font and the size of the screen are what the linked font and the machine give.\<close>

definition fb_init :: "nat \<Rightarrow> nat \<Rightarrow> u8 list \<Rightarrow> fb" where
  "fb_init screen_width screen_height font =
     \<lparr>fb_info = \<lparr>di_width = screen_width, di_height = screen_height, di_num_displays = 8, di_current = 0,
        di_num_textures = NTEXTURE, di_num_sprites = 16384\<rparr>,
      fb_textures = font_load (\<lambda>_. replicate 64 0) font\<rparr>"

definition fb_read :: "fb \<Rightarrow> nat \<Rightarrow> nat \<Rightarrow> nat \<times> display_info option" where
  "fb_read fb off count = (0, if off \<noteq> 0 \<or> count \<noteq> 24 then None else Some (fb_info fb))"

text \<open>Bytes laid over the textures from an offset on.\<close>

definition px_byte :: "u32 \<Rightarrow> nat \<Rightarrow> u32" where
  "px_byte p b = drop_bit (8 * b) p AND 0xff"

definition texture_bytes :: "(nat \<Rightarrow> u32 list) \<Rightarrow> nat \<Rightarrow> u8 list \<Rightarrow> nat \<Rightarrow> u32 list" where
  "texture_bytes textures off buf k =
     map (\<lambda>j.
       (let b = (\<lambda>i. let a = 256 * k + 4 * j + i
                     in if off \<le> a \<and> a < off + length buf then ucast (buf ! (a - off)) else px_byte (textures k ! j) i)
        in b 0 OR push_bit 8 (b 1) OR push_bit 16 (b 2) OR push_bit 24 (b 3))) [0..<64]"

definition draw_sprite :: "fb \<Rightarrow> sprite \<Rightarrow> fbctl list result" where
  "draw_sprite fb sp =
     (if sp_texture sp > 0 \<and> sp_display sp = di_current (fb_info fb) then
        (if sp_texture sp \<ge> NTEXTURE then Inl WildAccess
         else
           and_then (if sp_fg sp \<noteq> DEFAULT_FG \<or> sp_bg sp \<noteq> DEFAULT_BG
                     then reload_color (fb_textures fb (sp_texture sp)) (sp_fg sp) (sp_bg sp)
                     else Inr (fb_textures fb (sp_texture sp)))
             (\<lambda>pixels. Inr [\<lparr>ctl_x = sp_x sp, ctl_y = sp_y sp, ctl_w = TEXTURE_W, ctl_h = TEXTURE_H,
                             ctl_pixels = pixels\<rparr>]))
      else Inr [])"

fun draw_sprites :: "fb \<Rightarrow> sprite list \<Rightarrow> fbctl list result" where
  "draw_sprites fb [] = Inr []"
| "draw_sprites fb (sp # sps) =
     and_then (draw_sprite fb sp) (\<lambda>a. and_then (draw_sprites fb sps) (\<lambda>b. Inr (a @ b)))"

text \<open>
  The buffer is read as a \<^verbatim>\<open>display_info\<close>, as bytes of textures or as sprites, depending on the
  offset; the bound on the textures is the memory \<^verbatim>\<open>fb_init\<close> allocates.
\<close>

record fb_data =
  as_current :: nat
  as_bytes :: "u8 list"
  as_sprites :: "sprite list"

definition fb_write :: "fb \<Rightarrow> nat \<Rightarrow> fb_data \<Rightarrow> (fb \<times> fbctl list) result" where
  "fb_write fb off buf =
     (if off = 0 then Inr (fb\<lparr>fb_info := (fb_info fb)\<lparr>di_current := as_current buf\<rparr>\<rparr>, [])
      else if off < SPRITE_BRK then
        (if off + length (as_bytes buf) \<le> NTEXTURE * 256
         then Inr (fb\<lparr>fb_textures := texture_bytes (fb_textures fb) off (as_bytes buf)\<rparr>, [])
         else Inl WildAccess)
      else and_then (draw_sprites fb (as_sprites buf)) (\<lambda>reqs. Inr (fb, reqs)))"

section \<open>Glyphs\<close>

text \<open>The eight by eight pixels of half a glyph.\<close>

definition tile :: "u8 list \<Rightarrow> u32 \<Rightarrow> u32 \<Rightarrow> u32 list" where
  "tile rows fg bg = map (\<lambda>i. if bit (rows ! (i div 8)) (7 - i mod 8) then fg else bg) [0..<64]"

lemma and_one_bit: "drop_bit n (b :: u8) AND 1 \<noteq> 0 \<longleftrightarrow> bit b n"
  by (simp add: and_one_eq bit_iff_odd_drop_bit mod_2_eq_odd)

lemma concat_rows:
  assumes "0 < c"
  shows "concat (map (\<lambda>y. map (g y) [0..<c]) [0..<n]) = map (\<lambda>i. g (i div c) (i mod c)) [0..<n * c]"
proof (induction n)
  case (Suc n)
  have "map (g n) [0..<c] = map (\<lambda>i. g (i div c) (i mod c)) [n * c..<n * c + c]"
    using assms by (intro nth_equalityI) auto
  moreover have "[0..<Suc n * c] = [0..<n * c] @ [n * c..<n * c + c]"
    using upt_add_eq_append [of 0 "n * c" c] by (simp add: add.commute)
  ultimately show ?case using Suc by simp
qed simp

lemma texture_fill_tile:
  assumes "16 \<le> length bits"
  shows "texture_fill upper bits fg bg = tile (if upper then drop 8 bits else bits) fg bg"
proof -
  have "(if upper then bits ! (y + 8) else bits ! y) = (if upper then drop 8 bits else bits) ! y" if "y < 8" for y
    using that assms by (simp add: add.commute)
  then show ?thesis
    by (simp only: texture_fill_def tile_def Let_def and_one_bit TEXTURE_W_def TEXTURE_H_def)
      (auto simp: concat_rows less_mult_imp_div_less simp del: upt_rec_numeral)
qed

lemma reload_tile: "reload_color (tile rows DEFAULT_FG DEFAULT_BG) fg bg = Inr (tile rows fg bg)"
proof -
  have "reload_color (map (\<lambda>i. if f i then DEFAULT_FG else DEFAULT_BG) is) fg bg =
      Inr (map (\<lambda>i. if f i then fg else bg) is)" for f and "is" :: "nat list"
    by (induction "is") (auto simp: DEFAULT_FG_def DEFAULT_BG_def)
  then show ?thesis by (simp only: tile_def)
qed

lemma font_load_upto:
  "foldl (\<lambda>tx c. tx(c * 2 + 1 := f c, c * 2 + 2 := g c)) tx [0..<n] k =
     (if k = 0 \<or> 2 * n < k then tx k else if odd k then f ((k - 1) div 2) else g ((k - 2) div 2))"
proof (induction n)
  case (Suc n)
  define F where "F = foldl (\<lambda>tx c. tx(c * 2 + 1 := f c, c * 2 + 2 := g c)) tx [0..<n]"
  have step: "foldl (\<lambda>tx c. tx(c * 2 + 1 := f c, c * 2 + 2 := g c)) tx [0..<Suc n] = F(n * 2 + 1 := f n, n * 2 + 2 := g n)"
    by (simp add: F_def del: fun_upd_apply)
  have IH: "F k = (if k = 0 \<or> 2 * n < k then tx k else if odd k then f ((k - 1) div 2) else g ((k - 2) div 2))"
    using Suc.IH by (simp only: F_def)
  consider "k = 2 * n + 1" | "k = 2 * n + 2" | "k \<noteq> 2 * n + 1" "k \<noteq> 2 * n + 2" by blast
  then show ?case
  proof cases
    case 3
    then have "2 * Suc n < k \<longleftrightarrow> 2 * n < k" by auto
    then show ?thesis unfolding step using 3 IH by (simp add: mult.commute)
  qed (simp_all only: step, simp_all)
qed auto

lemma font_load_tiles:
  assumes "length font = 4096" "c < 256"
  shows "font_load tx font (c * 2 + 1) = tile (drop (16 * c) font) DEFAULT_FG DEFAULT_BG"
    and "font_load tx font (c * 2 + 2) = tile (drop (16 * c + 8) font) DEFAULT_FG DEFAULT_BG"
proof -
  have l: "16 \<le> length (drop (16 * c) font)" using assms by simp
  show "font_load tx font (c * 2 + 1) = tile (drop (16 * c) font) DEFAULT_FG DEFAULT_BG"
    unfolding font_load_def font_load_upto using assms(2) texture_fill_tile [OF l, of False] by simp
  show "font_load tx font (c * 2 + 2) = tile (drop (16 * c + 8) font) DEFAULT_FG DEFAULT_BG"
    unfolding font_load_def font_load_upto using assms(2) texture_fill_tile [OF l, of True] by (simp add: add.commute)
qed

end
