(* ===== verification/Tty.thy ===== *)
theory Tty
  imports Video
begin

text \<open>
  The terminals, \<^verbatim>\<open>kernel/src/devices/tty/tty.c\<close>: the queue of cooked lines the keyboard fills and
  \<^verbatim>\<open>read\<close> empties, and the screen of characters \<^verbatim>\<open>write\<close> moves over.  The pointers into a buffer
  are indices.  \<^verbatim>\<open>tty->lock\<close> makes every operation one step; \<open>tty_cooked\<close> is the count of
  the semaphore of that name.
\<close>

section \<open>State\<close>

definition TTY_COOK_BUF_SZ :: nat where
  "TTY_COOK_BUF_SZ = 1024"


record character =
  ch_metadata :: u32
  ch_ch :: char
  ch_fg :: u32
  ch_bg :: u32

record tty_queue =
  q_buf :: string
  q_front :: nat
  q_rear :: nat

record tty =
  tty_cooked :: nat
  tty_display :: nat
  tty_lines :: nat
  tty_columns :: nat
  tty_size :: nat
  tty_buf :: "character list"
  tty_cursor :: nat
  tty_queue_of :: tty_queue
  tty_dirty :: "bool list"
  tty_fg :: u32
  tty_bg :: u32

definition tty_defaultch :: character where
  "tty_defaultch = \<lparr>ch_metadata = 0, ch_ch = CHR 0x00, ch_fg = DEFAULT_FG, ch_bg = DEFAULT_BG\<rparr>"

section \<open>The queue of cooked lines\<close>

definition tty_enqueue :: "tty_queue \<Rightarrow> char \<Rightarrow> tty_queue result" where
  "tty_enqueue q ch =
     (let buf = (q_buf q)[q_rear q := ch];
          rear = (if q_rear q + 1 = TTY_COOK_BUF_SZ then 0 else q_rear q + 1)
      in if rear = q_front q then Inl Panic
         else Inr (q\<lparr>q_buf := buf[rear := CHR 0x00], q_rear := rear\<rparr>))"

text \<open>The flag returned tells that there was nothing to take back.\<close>

definition tty_pop_back :: "tty_queue \<Rightarrow> bool \<times> tty_queue" where
  "tty_pop_back q =
     (if q_front q \<noteq> TTY_COOK_BUF_SZ then
        (let pos = (if q_rear q = 0 then TTY_COOK_BUF_SZ else q_rear q)
         in if q_buf q ! (pos - 1) \<noteq> CHR 0x00
            then (False, q\<lparr>q_buf := (q_buf q)[pos - 1 := CHR 0x00], q_rear := pos - 1\<rparr>)
            else (True, q))
      else (True, q))"

definition tty_cook :: "tty \<Rightarrow> char \<Rightarrow> (bool \<times> tty) result" where
  "tty_cook t ch =
     (let q = tty_queue_of t
      in if ch = CHR 0x0a then
           and_then (tty_enqueue q ch) (\<lambda>q1.
           and_then (tty_enqueue q1 (CHR 0x00)) (\<lambda>q2.
           Inr (False, t\<lparr>tty_queue_of := q2, tty_cooked := tty_cooked t + 1\<rparr>)))
         else if ch = CHR 0x00 then
           and_then (tty_enqueue q (CHR 0x00)) (\<lambda>q1.
           Inr (False, t\<lparr>tty_queue_of := q1, tty_cooked := tty_cooked t + 1\<rparr>))
         else if ch = CHR 0x08 then
           (case tty_pop_back q of (r, q1) \<Rightarrow> Inr (r, t\<lparr>tty_queue_of := q1\<rparr>))
         else and_then (tty_enqueue q ch) (\<lambda>q1. Inr (False, t\<lparr>tty_queue_of := q1\<rparr>)))"

text \<open>
  The loop of \<^verbatim>\<open>tty_read\<close> ends at a zero; \<open>fuel\<close> is the number of cells it may look at, and a ring
  with no zero in it would keep it going for ever.
\<close>

fun tty_read_loop :: "nat \<Rightarrow> tty_queue \<Rightarrow> nat \<Rightarrow> nat \<Rightarrow> string \<Rightarrow> (nat \<times> string \<times> tty_queue) option" where
  "tty_read_loop 0 q count nread out = None"
| "tty_read_loop (Suc fuel) q count nread out =
     (let ch = q_buf q ! q_front q;
          out' = (if nread < count \<and> ch \<noteq> CHR 0x00 then out @ [ch] else out);
          q' = q\<lparr>q_front := (if q_front q + 1 = TTY_COOK_BUF_SZ then 0 else q_front q + 1)\<rparr>
      in if ch = CHR 0x00 then Some (nread, out', q')
         else tty_read_loop fuel q' count (nread + 1) out')"

text \<open>\<open>None\<close>: the caller sleeps until a line is cooked.\<close>

definition tty_read :: "tty \<Rightarrow> nat \<Rightarrow> (nat \<times> string \<times> tty) option" where
  "tty_read t count =
     (if tty_cooked t = 0 then None
      else
        (case tty_read_loop TTY_COOK_BUF_SZ (tty_queue_of t) count 0 [] of
           None \<Rightarrow> None
         | Some (nread, out, q) \<Rightarrow> Some (nread, out, t\<lparr>tty_queue_of := q, tty_cooked := tty_cooked t - 1\<rparr>)))"

section \<open>The screen\<close>

definition tty_upd_scrollup :: "tty \<Rightarrow> tty" where
  "tty_upd_scrollup t =
     (let move_sz = tty_columns t * (tty_lines t - 1);
          buf = take move_sz (drop (tty_columns t) (tty_buf t)) @ drop move_sz (tty_buf t);
          dirty = take move_sz (drop (tty_columns t) (tty_dirty t)) @ drop move_sz (tty_dirty t);
          cursor = tty_cursor t - tty_columns t
      in t\<lparr>tty_buf := foldl (\<lambda>b i. b[cursor + i := tty_defaultch]) buf [0..<tty_columns t],
           tty_dirty := dirty, tty_cursor := cursor\<rparr>)"

definition tty_upd_cr :: "tty \<Rightarrow> tty" where
  "tty_upd_cr t = t\<lparr>tty_cursor := tty_cursor t - tty_cursor t mod tty_columns t\<rparr>"

definition tty_upd_lf :: "tty \<Rightarrow> tty" where
  "tty_upd_lf t = t\<lparr>tty_cursor := tty_cursor t + tty_columns t\<rparr>"

definition tty_upd_backsp :: "tty \<Rightarrow> tty" where
  "tty_upd_backsp t =
     (if tty_cursor t > 0 then
        (let c = tty_cursor t - 1
         in t\<lparr>tty_cursor := c, tty_buf := (tty_buf t)[c := (tty_buf t ! c)\<lparr>ch_ch := CHR 0x00\<rparr>]\<rparr>)
      else t)"

definition tty_upd_putc :: "tty \<Rightarrow> char \<Rightarrow> tty" where
  "tty_upd_putc t ch =
     t\<lparr>tty_buf := (tty_buf t)[tty_cursor t :=
           (tty_buf t ! tty_cursor t)\<lparr>ch_ch := ch, ch_fg := tty_fg t, ch_bg := tty_bg t\<rparr>],
       tty_cursor := tty_cursor t + 1\<rparr>"

definition tty_mark :: "tty \<Rightarrow> nat \<Rightarrow> tty" where
  "tty_mark t i = t\<lparr>tty_dirty := (tty_dirty t)[i := True]\<rparr>"

definition tty_mark_line :: "tty \<Rightarrow> nat \<Rightarrow> tty" where
  "tty_mark_line t i = foldl (\<lambda>u k. tty_mark u (i - i mod tty_columns t + k)) t [0..<tty_columns t]"

definition tty_mark_all :: "tty \<Rightarrow> tty" where
  "tty_mark_all t = foldl tty_mark t [0..<tty_size t]"

definition tty_putc :: "tty \<Rightarrow> char \<Rightarrow> tty" where
  "tty_putc t ch =
     (if ch = CHR 0x0d then
        (let t1 = tty_upd_cr t in tty_mark_line t1 (tty_cursor t1))
      else if ch = CHR 0x08 then
        (let t1 = tty_upd_backsp t in tty_mark (tty_mark t1 (tty_cursor t1)) (tty_cursor t1 + 1))
      else if ch = CHR 0x0a then
        (let t1 = tty_upd_lf (tty_upd_cr t)
         in if tty_cursor t1 = tty_size t1 then tty_mark_all (tty_upd_scrollup t1)
            else tty_mark_line (tty_mark_line t1 (tty_cursor t1 - tty_columns t1)) (tty_cursor t1))
      else
        (let t1 = tty_upd_putc t ch
         in if tty_cursor t1 = tty_size t1 then tty_mark_all (tty_upd_scrollup t1)
            else tty_mark (tty_mark t1 (tty_cursor t1 - 1)) (tty_cursor t1)))"

text \<open>The memory \<^verbatim>\<open>pmm->alloc\<close> gives for the queue is zeroed.\<close>

definition tty_init :: "nat \<Rightarrow> nat \<Rightarrow> nat \<Rightarrow> tty" where
  "tty_init dev_id width height =
     (let lines = height div 16; columns = width div 8
      in \<lparr>tty_cooked = 0, tty_display = dev_id - 1, tty_lines = lines, tty_columns = columns,
          tty_size = columns * lines, tty_buf = replicate (columns * lines) tty_defaultch, tty_cursor = 0,
          tty_queue_of = \<lparr>q_buf = replicate TTY_COOK_BUF_SZ (CHR 0x00), q_front = 0, q_rear = 0\<rparr>,
          tty_dirty = replicate (columns * lines) True, tty_fg = 0xffffff, tty_bg = 0x300A24\<rparr>)"

definition tty_get_color :: "tty \<Rightarrow> u32 \<times> u32" where
  "tty_get_color t = (tty_fg t, tty_bg t)"

definition tty_set_color :: "tty \<Rightarrow> u32 \<times> u32 \<Rightarrow> tty" where
  "tty_set_color t colors = t\<lparr>tty_fg := fst colors, tty_bg := snd colors\<rparr>"

end
