(* ===== verification/Tty_Lines.thy ===== *)
theory Tty_Lines
  imports Tty Systems
begin

text \<open>
  The queue of a terminal as a list of cooked lines and the line being typed, and the proof that
  the ring with its zero bytes implements it.
\<close>

section \<open>Lines\<close>

type_synonym typed = "string list \<times> string"

definition cells :: "typed \<Rightarrow> string" where
  "cells s = concat (map (\<lambda>l. l @ [CHR 0x00]) (fst s)) @ snd s"

definition edit :: "typed \<Rightarrow> char \<Rightarrow> bool \<times> typed" where
  "edit s ch =
     (if ch = CHR 0x0a then (False, fst s @ [snd s @ [ch]], [])
      else if ch = CHR 0x00 then (False, fst s @ [snd s], [])
      else if ch = CHR 0x08 then (snd s = [], fst s, butlast (snd s))
      else (False, fst s, snd s @ [ch]))"

text \<open>Typing stops the machine when the ring cannot hold the cells.\<close>

definition cook_lines :: "typed \<Rightarrow> char \<Rightarrow> (bool \<times> typed) result" where
  "cook_lines s ch =
     (if TTY_COOK_BUF_SZ \<le> length (cells (snd (edit s ch))) then Inl Panic else Inr (edit s ch))"

definition read_lines :: "typed \<Rightarrow> nat \<Rightarrow> (nat \<times> string \<times> typed) option" where
  "read_lines s count =
     (case fst s of [] \<Rightarrow> None | l # ls \<Rightarrow> Some (length l, take count l, ls, snd s))"

definition typed_ok :: "typed \<Rightarrow> bool" where
  "typed_ok s \<longleftrightarrow> (\<forall>l\<in>set (fst s). CHR 0x00 \<notin> set l) \<and> CHR 0x00 \<notin> set (snd s)"

lemma edit_ok: "typed_ok s \<Longrightarrow> typed_ok (snd (edit s ch))"
  by (auto simp: typed_ok_def edit_def dest: in_set_butlastD)

section \<open>The ring\<close>

definition holds :: "tty_queue \<Rightarrow> string \<Rightarrow> bool" where
  "holds q xs \<longleftrightarrow> length (q_buf q) = TTY_COOK_BUF_SZ \<and> q_front q < TTY_COOK_BUF_SZ \<and>
     length xs < TTY_COOK_BUF_SZ \<and> q_rear q = (q_front q + length xs) mod TTY_COOK_BUF_SZ \<and>
     ring_seg (q_buf q) (q_front q) (length xs) = xs"

text \<open>The cell before the front is zero, which stops \<^verbatim>\<open>tty_pop_back\<close>.\<close>

definition before_front :: "tty_queue \<Rightarrow> char" where
  "before_front q = q_buf q ! ((q_front q + (TTY_COOK_BUF_SZ - 1)) mod TTY_COOK_BUF_SZ)"

lemma SZ_pos [simp]: "0 < TTY_COOK_BUF_SZ" "TTY_COOK_BUF_SZ \<noteq> 0"
  by (simp_all add: TTY_COOK_BUF_SZ_def)

lemma holds_rear: "holds q xs \<Longrightarrow> q_rear q < TTY_COOK_BUF_SZ"
  by (simp add: holds_def)

lemma ring_next: "i < TTY_COOK_BUF_SZ \<Longrightarrow> (if i + 1 = TTY_COOK_BUF_SZ then 0 else i + 1) = Suc i mod TTY_COOK_BUF_SZ"
  by (simp add: mod_Suc)

lemma ring_prev:
  "(if Suc i mod TTY_COOK_BUF_SZ = 0 then TTY_COOK_BUF_SZ else Suc i mod TTY_COOK_BUF_SZ) - 1 = i mod TTY_COOK_BUF_SZ"
  by (auto simp: mod_Suc)

lemma ring_full:
  assumes "i < TTY_COOK_BUF_SZ" "k < TTY_COOK_BUF_SZ"
  shows "Suc (i + k) mod TTY_COOK_BUF_SZ = i \<longleftrightarrow> Suc k = TTY_COOK_BUF_SZ"
proof
  assume e: "Suc (i + k) mod TTY_COOK_BUF_SZ = i"
  show "Suc k = TTY_COOK_BUF_SZ"
  proof (rule ccontr)
    assume "Suc k \<noteq> TTY_COOK_BUF_SZ"
    then have "(i + 0) mod TTY_COOK_BUF_SZ \<noteq> (i + Suc k) mod TTY_COOK_BUF_SZ"
      using assms by (intro mod_add_neq) auto
    then show False using e assms by simp
  qed
next
  assume "Suc k = TTY_COOK_BUF_SZ"
  then have e: "Suc (i + k) = i + TTY_COOK_BUF_SZ" by simp
  show "Suc (i + k) mod TTY_COOK_BUF_SZ = i" unfolding e using assms by simp
qed

lemma enqueue_holds:
  assumes "holds q xs" "before_front q = CHR 0x00"
  shows "\<exists>q'. tty_enqueue q ch = (if TTY_COOK_BUF_SZ \<le> length (xs @ [ch]) then Inl Panic else Inr q') \<and>
    (length (xs @ [ch]) < TTY_COOK_BUF_SZ \<longrightarrow> holds q' (xs @ [ch]) \<and> before_front q' = CHR 0x00)"
proof -
  let ?N = TTY_COOK_BUF_SZ and ?k = "length xs"
  have h: "length (q_buf q) = ?N" "q_front q < ?N" "?k < ?N" "q_rear q = (q_front q + ?k) mod ?N"
    "ring_seg (q_buf q) (q_front q) ?k = xs" using assms(1) by (auto simp: holds_def)
  have r: "(if q_rear q + 1 = ?N then 0 else q_rear q + 1) = (q_front q + Suc ?k) mod ?N"
    by (simp only: ring_next [OF holds_rear [OF assms(1)]]) (simp add: h(4) mod_Suc_eq)
  have full: "(q_front q + Suc ?k) mod ?N = q_front q \<longleftrightarrow> Suc ?k = ?N"
    using ring_full [OF h(2,3)] by simp
  define q' where "q' = q\<lparr>q_buf := (q_buf q)[q_rear q := ch, (q_front q + Suc ?k) mod ?N := CHR 0x00],
    q_rear := (q_front q + Suc ?k) mod ?N\<rparr>"
  have e: "tty_enqueue q ch = (if Suc ?k = ?N then Inl Panic else Inr q')"
    by (simp only: tty_enqueue_def Let_def r full q'_def)
  moreover have "holds q' (xs @ [ch]) \<and> before_front q' = CHR 0x00" if l: "Suc ?k < ?N"
  proof
    have "ring_seg (q_buf q') (q_front q) (Suc ?k) = xs @ [ch]"
      using ring_seg_update_end [of "Suc ?k" "(q_buf q)[q_rear q := ch]" "q_front q" "CHR 0x00"]
        ring_seg_push [of ?k "q_buf q" "q_front q" ch] h l by (simp add: q'_def)
    then show "holds q' (xs @ [ch])" using h l by (simp add: holds_def q'_def)
    have "(q_front q + ?k) mod ?N \<noteq> (q_front q + (?N - 1)) mod ?N" using l by (intro mod_add_neq) auto
    then show "before_front q' = CHR 0x00" using assms(2) h(1,4)
      by (simp add: before_front_def q'_def nth_list_update)
  qed
  ultimately show ?thesis using h(3) by (intro exI [of _ q']) auto
qed

lemma pop_holds:
  assumes "holds q (xs @ [c])" "c \<noteq> CHR 0x00" "before_front q = CHR 0x00"
  shows "\<exists>q'. tty_pop_back q = (False, q') \<and> holds q' xs \<and> before_front q' = CHR 0x00"
proof -
  let ?N = TTY_COOK_BUF_SZ and ?k = "length xs"
  have h: "length (q_buf q) = ?N" "q_front q < ?N" "Suc ?k < ?N" "q_rear q = Suc (q_front q + ?k) mod ?N"
    "ring_seg (q_buf q) (q_front q) (Suc ?k) = xs @ [c]" using assms(1) by (auto simp: holds_def)
  have seg: "ring_seg (q_buf q) (q_front q) ?k = xs" "q_buf q ! ((q_front q + ?k) mod ?N) = c"
    using h(1,5) by (auto simp: ring_seg_Suc)
  define q' where "q' = q\<lparr>q_buf := (q_buf q)[(q_front q + ?k) mod ?N := CHR 0x00], q_rear := (q_front q + ?k) mod ?N\<rparr>"
  have "tty_pop_back q = (False, q')"
    using h(2) seg(2) assms(2) unfolding tty_pop_back_def h(4) Let_def ring_prev q'_def by simp
  moreover have "ring_seg (q_buf q') (q_front q) ?k = xs"
    using ring_seg_update_end [of ?k "q_buf q" "q_front q" "CHR 0x00"] h seg by (simp add: q'_def)
  moreover have "(q_front q + ?k) mod ?N \<noteq> (q_front q + (?N - 1)) mod ?N" using h(3) by (intro mod_add_neq) auto
  ultimately show ?thesis using h assms(3) by (auto simp: holds_def before_front_def q'_def)
qed

lemma pop_nothing:
  assumes "holds q xs" "xs = [] \<or> last xs = CHR 0x00" "before_front q = CHR 0x00"
  shows "tty_pop_back q = (True, q)"
proof -
  let ?N = TTY_COOK_BUF_SZ
  have h: "length (q_buf q) = ?N" "q_front q < ?N" "q_rear q = (q_front q + length xs) mod ?N"
    "ring_seg (q_buf q) (q_front q) (length xs) = xs" using assms(1) by (auto simp: holds_def)
  have "q_buf q ! ((if q_rear q = 0 then ?N else q_rear q) - 1) = CHR 0x00"
  proof (cases xs rule: rev_cases)
    case Nil
    then have r: "q_rear q = q_front q" using h by simp
    have p: "(if q_front q = 0 then ?N else q_front q) - 1 = (q_front q + (?N - 1)) mod ?N"
      using h(2) by (auto simp: mod_if)
    show ?thesis using assms(3) by (simp only: r p before_front_def)
  next
    case (snoc ys c)
    then have "q_rear q = Suc (q_front q + length ys) mod ?N" using h(3) by simp
    then have "(if q_rear q = 0 then ?N else q_rear q) - 1 = (q_front q + length ys) mod ?N"
      by (simp only: ring_prev)
    moreover have "q_buf q ! ((q_front q + length ys) mod ?N) = c" using h(1,4) snoc by (simp add: ring_seg_Suc)
    ultimately show ?thesis using assms(2) snoc by simp
  qed
  then show ?thesis using h(2) by (simp add: tty_pop_back_def Let_def)
qed

lemma front_holds:
  assumes "holds q (c # xs)"
    and "q' = q\<lparr>q_front := (if q_front q + 1 = TTY_COOK_BUF_SZ then 0 else q_front q + 1)\<rparr>"
  shows "q_buf q ! q_front q = c" "holds q' xs" "before_front q' = c"
proof -
  let ?N = TTY_COOK_BUF_SZ
  have h: "length (q_buf q) = ?N" "q_front q < ?N" "Suc (length xs) < ?N" "q_rear q = (q_front q + Suc (length xs)) mod ?N"
    "ring_seg (q_buf q) (q_front q) (Suc (length xs)) = c # xs" using assms(1) by (auto simp: holds_def)
  have q': "q' = q\<lparr>q_front := Suc (q_front q) mod ?N\<rparr>" unfolding assms(2) ring_next [OF h(2)] ..
  show c: "q_buf q ! q_front q = c" using h by (simp add: ring_seg_Cons)
  have "ring_seg (q_buf q) (Suc (q_front q) mod ?N) (length xs) = xs"
    using h ring_seg_mod [of "q_buf q" "Suc (q_front q)"] by (simp add: ring_seg_Cons)
  moreover have "(Suc (q_front q) mod ?N + length xs) mod ?N = (q_front q + Suc (length xs)) mod ?N"
    by (simp add: mod_add_left_eq)
  ultimately show "holds q' xs" using h by (simp add: holds_def q')
  have "(Suc (q_front q) mod ?N + (?N - 1)) mod ?N = (Suc (q_front q) + (?N - 1)) mod ?N" by (rule mod_add_left_eq)
  also have "\<dots> = q_front q" using h(2) by simp
  finally show "before_front q' = c" using c by (simp add: before_front_def q')
qed

lemma read_loop_holds:
  assumes "holds q (l @ CHR 0x00 # xs)" "CHR 0x00 \<notin> set l" "length l < fuel"
  shows "\<exists>q'. tty_read_loop fuel q count n out = Some (n + length l, out @ take (count - n) l, q') \<and>
    holds q' xs \<and> before_front q' = CHR 0x00"
  using assms
proof (induction l arbitrary: fuel q n out)
  case Nil
  then obtain f where "fuel = Suc f" by (cases fuel) auto
  with front_holds [OF _ refl, of q "CHR 0x00" xs] Nil.prems(1) show ?case by (simp add: Let_def)
next
  case (Cons c l)
  then obtain f where f: "fuel = Suc f" "length l < f" by (cases fuel) auto
  have h: "holds q (c # l @ CHR 0x00 # xs)" using Cons.prems(1) by simp
  let ?q = "q\<lparr>q_front := (if q_front q + 1 = TTY_COOK_BUF_SZ then 0 else q_front q + 1)\<rparr>"
  have c: "q_buf q ! q_front q = c" "holds ?q (l @ CHR 0x00 # xs)" using front_holds [OF h refl] by blast+
  have "c \<noteq> CHR 0x00" using Cons.prems(2) by auto
  then have "tty_read_loop fuel q count n out = tty_read_loop f ?q count (n + 1) (if n < count then out @ [c] else out)"
    using c(1) by (simp add: f Let_def)
  moreover have "(if n < count then out @ [c] else out) @ take (count - (n + 1)) l = out @ take (count - n) (c # l)"
    by (cases "n < count") (auto simp: take_Cons' )
  ultimately show ?case using Cons.IH [OF c(2) _ f(2), of "n + 1" "if n < count then out @ [c] else out"] Cons.prems(2)
    by auto
qed

section \<open>Simulation\<close>

definition shows_lines :: "tty \<Rightarrow> typed \<Rightarrow> bool" where
  "shows_lines t s \<longleftrightarrow> holds (tty_queue_of t) (cells s) \<and> before_front (tty_queue_of t) = CHR 0x00 \<and>
     tty_cooked t = length (fst s) \<and> typed_ok s"

definition rel_cook :: "(bool \<times> tty) result \<Rightarrow> (bool \<times> typed) result \<Rightarrow> bool" where
  "rel_cook x y \<longleftrightarrow>
     (case (x, y) of
        (Inl e, Inl e') \<Rightarrow> e = e'
      | (Inr (r, t), Inr (r', s)) \<Rightarrow> r = r' \<and> shows_lines t s
      | _ \<Rightarrow> False)"

definition rel_read :: "(nat \<times> string \<times> tty) option \<Rightarrow> (nat \<times> string \<times> typed) option \<Rightarrow> bool" where
  "rel_read x y \<longleftrightarrow>
     (case (x, y) of
        (None, None) \<Rightarrow> True
      | (Some (n, out, t), Some (n', out', s)) \<Rightarrow> n = n' \<and> out = out' \<and> shows_lines t s
      | _ \<Rightarrow> False)"

lemma cells_simps:
  "cells (ls, p @ q) = cells (ls, p) @ q" "cells (ls @ [l], []) = cells (ls, l) @ [CHR 0x00]"
  "cells (l # ls, p) = l @ CHR 0x00 # cells (ls, p)"
  by (simp_all add: cells_def)

lemma enqueue_cells:
  assumes "shows_lines t s"
  shows "\<exists>q'. tty_enqueue (tty_queue_of t) ch =
      (if TTY_COOK_BUF_SZ \<le> length (cells s @ [ch]) then Inl Panic else Inr q') \<and>
    (length (cells s @ [ch]) < TTY_COOK_BUF_SZ \<longrightarrow> holds q' (cells s @ [ch]) \<and> before_front q' = CHR 0x00)"
  using assms by (intro enqueue_holds) (auto simp: shows_lines_def)

lemma cook_sim:
  assumes "shows_lines t s"
  shows "rel_cook (tty_cook t ch) (cook_lines s ch)"
proof -
  obtain ls p where s: "s = (ls, p)" by (cases s)
  have h: "holds (tty_queue_of t) (cells (ls, p))" "before_front (tty_queue_of t) = CHR 0x00"
    "tty_cooked t = length ls" "typed_ok (ls, p)" using assms by (auto simp: shows_lines_def s)
  have ok: "typed_ok (snd (edit s c))" for c using edit_ok h(4) s by simp
  consider "ch = CHR 0x0a" | "ch = CHR 0x00" | "ch = CHR 0x08" | "ch \<notin> {CHR 0x0a, CHR 0x00, CHR 0x08}" by blast
  then show ?thesis
  proof cases
    case 1
    obtain q1 where q1: "tty_enqueue (tty_queue_of t) ch =
        (if TTY_COOK_BUF_SZ \<le> length (cells s @ [ch]) then Inl Panic else Inr q1)"
      "length (cells s @ [ch]) < TTY_COOK_BUF_SZ \<longrightarrow> holds q1 (cells s @ [ch]) \<and> before_front q1 = CHR 0x00"
      using enqueue_cells [OF assms] by blast
    show ?thesis
    proof (cases "length (cells s @ [ch]) < TTY_COOK_BUF_SZ")
      case True
      then obtain q2 where "tty_enqueue q1 (CHR 0x00) =
          (if TTY_COOK_BUF_SZ \<le> length ((cells s @ [ch]) @ [CHR 0x00]) then Inl Panic else Inr q2)"
        "length ((cells s @ [ch]) @ [CHR 0x00]) < TTY_COOK_BUF_SZ \<longrightarrow>
           holds q2 ((cells s @ [ch]) @ [CHR 0x00]) \<and> before_front q2 = CHR 0x00"
        using enqueue_holds [of q1 "cells s @ [ch]"] q1(2) by blast
      then show ?thesis using 1 q1 h(3) ok [of ch] True
        by (auto simp: tty_cook_def cook_lines_def edit_def rel_cook_def shows_lines_def s cells_simps)
    qed (use 1 q1(1) in \<open>auto simp: tty_cook_def cook_lines_def edit_def rel_cook_def s cells_simps\<close>)
  next
    case 2
    obtain q1 where q1: "tty_enqueue (tty_queue_of t) (CHR 0x00) =
        (if TTY_COOK_BUF_SZ \<le> length (cells s @ [CHR 0x00]) then Inl Panic else Inr q1)"
      "length (cells s @ [CHR 0x00]) < TTY_COOK_BUF_SZ \<longrightarrow> holds q1 (cells s @ [CHR 0x00]) \<and> before_front q1 = CHR 0x00"
      using enqueue_cells [OF assms] by blast
    then show ?thesis using 2 h(3) ok [of ch]
      by (auto simp: tty_cook_def cook_lines_def edit_def rel_cook_def shows_lines_def s cells_simps)
  next
    case 3
    have len: "length (cells (ls, butlast p)) < TTY_COOK_BUF_SZ" using h(1) by (auto simp: holds_def cells_def)
    show ?thesis
    proof (cases p rule: rev_cases)
      case Nil
      have "cells (ls, []) = [] \<or> last (cells (ls, [])) = CHR 0x00"
        by (cases ls rule: rev_cases) (auto simp: cells_def)
      then have "tty_pop_back (tty_queue_of t) = (True, tty_queue_of t)" using h(1,2) Nil by (intro pop_nothing) auto
      then show ?thesis using 3 h len ok [of ch] Nil
        by (auto simp: tty_cook_def cook_lines_def edit_def rel_cook_def shows_lines_def s)
    next
      case (snoc p' c)
      then have "c \<noteq> CHR 0x00" using h(4) by (auto simp: typed_ok_def)
      then obtain q' where "tty_pop_back (tty_queue_of t) = (False, q')" "holds q' (cells (ls, p'))"
        "before_front q' = CHR 0x00"
        using pop_holds [of "tty_queue_of t" "cells (ls, p')" c] h(1,2) snoc by (auto simp: cells_simps)
      then show ?thesis using 3 h len ok [of ch] snoc
        by (auto simp: tty_cook_def cook_lines_def edit_def rel_cook_def shows_lines_def s)
    qed
  next
    case 4
    obtain q1 where q1: "tty_enqueue (tty_queue_of t) ch =
        (if TTY_COOK_BUF_SZ \<le> length (cells s @ [ch]) then Inl Panic else Inr q1)"
      "length (cells s @ [ch]) < TTY_COOK_BUF_SZ \<longrightarrow> holds q1 (cells s @ [ch]) \<and> before_front q1 = CHR 0x00"
      using enqueue_cells [OF assms] by blast
    then show ?thesis using 4 h(3) ok [of ch]
      by (auto simp: tty_cook_def cook_lines_def edit_def rel_cook_def shows_lines_def s cells_simps)
  qed
qed

lemma read_sim:
  assumes "shows_lines t s"
  shows "rel_read (tty_read t count) (read_lines s count)"
proof (cases "fst s")
  case Nil
  then show ?thesis using assms by (simp add: tty_read_def read_lines_def rel_read_def shows_lines_def)
next
  case (Cons l ls)
  then have s: "cells s = l @ CHR 0x00 # cells (ls, snd s)" by (simp add: cells_def)
  have h: "holds (tty_queue_of t) (l @ CHR 0x00 # cells (ls, snd s))" "CHR 0x00 \<notin> set l" "typed_ok (ls, snd s)"
    "tty_cooked t = Suc (length ls)"
    using assms Cons by (auto simp: shows_lines_def typed_ok_def s)
  then have "length l < TTY_COOK_BUF_SZ" by (simp add: holds_def)
  from read_loop_holds [OF h(1,2) this, of count 0 "[]"] h(3,4) Cons show ?thesis
    by (auto simp: tty_read_def read_lines_def rel_read_def shows_lines_def)
qed

lemma init_lines: "shows_lines (tty_init i w h) ([], [])"
  by (simp add: shows_lines_def tty_init_def holds_def before_front_def cells_def typed_ok_def Let_def)

section \<open>Histories\<close>

datatype tty_op = Cook char | Read nat

datatype tty_answer = Echo bool | Line nat string | Sleeps

fun tty_run :: "tty \<Rightarrow> tty_op list \<Rightarrow> tty_answer list result" where
  "tty_run t [] = Inr []"
| "tty_run t (Cook ch # ops) =
     and_then (tty_cook t ch) (\<lambda>(r, t'). and_then (tty_run t' ops) (\<lambda>out. Inr (Echo r # out)))"
| "tty_run t (Read n # ops) =
     (case tty_read t n of
        None \<Rightarrow> and_then (tty_run t ops) (\<lambda>out. Inr (Sleeps # out))
      | Some (k, txt, t') \<Rightarrow> and_then (tty_run t' ops) (\<lambda>out. Inr (Line k txt # out)))"

fun lines_run :: "typed \<Rightarrow> tty_op list \<Rightarrow> tty_answer list result" where
  "lines_run s [] = Inr []"
| "lines_run s (Cook ch # ops) =
     and_then (cook_lines s ch) (\<lambda>(r, s'). and_then (lines_run s' ops) (\<lambda>out. Inr (Echo r # out)))"
| "lines_run s (Read n # ops) =
     (case read_lines s n of
        None \<Rightarrow> and_then (lines_run s ops) (\<lambda>out. Inr (Sleeps # out))
      | Some (k, txt, s') \<Rightarrow> and_then (lines_run s' ops) (\<lambda>out. Inr (Line k txt # out)))"

fun tty_act :: "tty \<Rightarrow> tty_op \<Rightarrow> (tty_answer \<times> tty) result" where
  "tty_act t (Cook ch) = and_then (tty_cook t ch) (\<lambda>(r, t'). Inr (Echo r, t'))"
| "tty_act t (Read n) = Inr (case tty_read t n of None \<Rightarrow> (Sleeps, t) | Some (k, txt, t') \<Rightarrow> (Line k txt, t'))"

fun lines_act :: "typed \<Rightarrow> tty_op \<Rightarrow> (tty_answer \<times> typed) result" where
  "lines_act s (Cook ch) = and_then (cook_lines s ch) (\<lambda>(r, s'). Inr (Echo r, s'))"
| "lines_act s (Read n) = Inr (case read_lines s n of None \<Rightarrow> (Sleeps, s) | Some (k, txt, s') \<Rightarrow> (Line k txt, s'))"

interpretation lines: simulation tty_act lines_act shows_lines
proof unfold_locales
  show "same_answer shows_lines (tty_act t op) (lines_act s op)" if "shows_lines t s" for t s op
  proof (cases op)
    case (Cook ch)
    then show ?thesis using cook_sim [OF that, of ch]
      by (cases "tty_cook t ch"; cases "cook_lines s ch") (auto simp: same_answer_def rel_cook_def)
  next
    case (Read n)
    then show ?thesis using read_sim [OF that, of n] that
      by (auto simp: same_answer_def rel_read_def split: option.splits)
  qed
qed

lemma tty_run_acts: "tty_run t ops = op_run tty_act t ops"
proof (induction ops arbitrary: t)
  case (Cons op ops)
  then show ?case
  proof (cases op)
    case (Cook ch)
    then show ?thesis by (cases "tty_cook t ch") (auto simp: Cons.IH)
  qed (auto simp: Cons.IH split: option.split)
qed simp

lemma lines_run_acts: "lines_run s ops = op_run lines_act s ops"
proof (induction ops arbitrary: s)
  case (Cons op ops)
  then show ?case
  proof (cases op)
    case (Cook ch)
    then show ?thesis by (cases "cook_lines s ch") (auto simp: Cons.IH)
  qed (auto simp: Cons.IH split: option.split)
qed simp

text \<open>C23: whatever is typed and read in whatever order, the ring of a terminal behaves as a list of
  finished lines and a line being typed: backspace takes back one character but never one of a
  finished line, a read delivers the oldest finished line, cut to the size asked for, or sleeps,
  and the machine stops only when the lines no longer fit in 1023 cells.\<close>

theorem tty_history: "tty_run (tty_init i w h) ops = lines_run ([], []) ops"
  unfolding tty_run_acts lines_run_acts by (rule lines.runs_agree [OF init_lines])

end
