(* ===== verification/Tty_Screen.thy ===== *)
theory Tty_Screen
  imports Tty
begin

text \<open>
  The screen of a terminal as a window on an endless sheet of paper, as wide as the screen, that
  only moves down.
\<close>

section \<open>Paper\<close>

record sheet =
  sh_paper :: "nat \<Rightarrow> character"
  sh_pos :: nat
  sh_top :: nat

definition blank :: sheet where
  "blank = \<lparr>sh_paper = (\<lambda>_. tty_defaultch), sh_pos = 0, sh_top = 0\<rparr>"

text \<open>The window, \<open>L\<close> rows of \<open>C\<close> columns, moves down just enough to keep the position inside.\<close>

definition feed :: "nat \<Rightarrow> nat \<Rightarrow> nat \<Rightarrow> sheet \<Rightarrow> sheet" where
  "feed L C p s = s\<lparr>sh_pos := p, sh_top := max (sh_top s) (p div C + 1 - L)\<rparr>"

definition type_char :: "nat \<Rightarrow> nat \<Rightarrow> u32 \<Rightarrow> u32 \<Rightarrow> sheet \<Rightarrow> char \<Rightarrow> sheet" where
  "type_char L C fg bg s ch =
     (let p = sh_pos s; put = (\<lambda>i x. s\<lparr>sh_paper := (sh_paper s)(i := x)\<rparr>)
      in if ch = CHR 0x0d then s\<lparr>sh_pos := p div C * C\<rparr>
         else if ch = CHR 0x08 then
           (if p = sh_top s * C then s else (put (p - 1) (sh_paper s (p - 1)\<lparr>ch_ch := CHR 0x00\<rparr>))\<lparr>sh_pos := p - 1\<rparr>)
         else if ch = CHR 0x0a then feed L C ((p div C + 1) * C) s
         else feed L C (p + 1) (put p (sh_paper s p\<lparr>ch_ch := ch, ch_fg := fg, ch_bg := bg\<rparr>)))"

definition window :: "tty \<Rightarrow> sheet \<Rightarrow> bool" where
  "window t s \<longleftrightarrow>
     (let L = tty_lines t; C = tty_columns t in
      0 < L \<and> 0 < C \<and> tty_size t = C * L \<and> length (tty_buf t) = C * L \<and> length (tty_dirty t) = C * L \<and>
      sh_pos s = sh_top s * C + tty_cursor t \<and> tty_cursor t < C * L \<and>
      (\<forall>i < C * L. tty_buf t ! i = sh_paper s (sh_top s * C + i)) \<and>
      (\<forall>j \<ge> (sh_top s + L) * C. sh_paper s j = tty_defaultch))"

section \<open>Marks\<close>

lemma mark_same [simp]:
  "tty_buf (tty_mark t i) = tty_buf t" "tty_cursor (tty_mark t i) = tty_cursor t"
  "tty_lines (tty_mark t i) = tty_lines t" "tty_columns (tty_mark t i) = tty_columns t"
  "tty_size (tty_mark t i) = tty_size t" "length (tty_dirty (tty_mark t i)) = length (tty_dirty t)"
  "tty_fg (tty_mark t i) = tty_fg t" "tty_bg (tty_mark t i) = tty_bg t"
  by (simp_all add: tty_mark_def)

lemma window_mark [simp]: "window (tty_mark t i) s = window t s"
  by (simp add: window_def)

lemma window_marks [simp]: "window (foldl (\<lambda>t k. tty_mark t (f k)) t ks) s = window t s"
  by (induction ks arbitrary: t) simp_all

lemma window_mark_line [simp]: "window (tty_mark_line t i) s = window t s"
  by (simp only: tty_mark_line_def window_marks)

lemma window_mark_all [simp]: "window (tty_mark_all t) s = window t s"
  using window_marks [of "\<lambda>k. k" t "[0..<tty_size t]" s] by (simp add: tty_mark_all_def)

text \<open>What no operation on the screen changes.\<close>

definition fixed :: "tty \<Rightarrow> u32 \<times> u32 \<times> nat \<times> nat" where
  "fixed t = (tty_fg t, tty_bg t, tty_lines t, tty_columns t)"

lemma fixed_marks: "fixed (foldl (\<lambda>t k. tty_mark t (f k)) t ks) = fixed t"
  by (induction ks arbitrary: t) (simp_all add: fixed_def)

lemma fixed_ops [simp]:
  "fixed (tty_mark t i) = fixed t" "fixed (tty_mark_line t i) = fixed t" "fixed (tty_mark_all t) = fixed t"
  "fixed (tty_upd_cr t) = fixed t" "fixed (tty_upd_lf t) = fixed t" "fixed (tty_upd_backsp t) = fixed t"
  "fixed (tty_upd_putc t ch) = fixed t" "fixed (tty_upd_scrollup t) = fixed t"
  using fixed_marks [of "\<lambda>k. k" t]
  by (simp_all only: tty_mark_line_def tty_mark_all_def fixed_marks)
    (simp_all add: fixed_def tty_upd_cr_def tty_upd_lf_def tty_upd_backsp_def tty_upd_putc_def
      tty_upd_scrollup_def Let_def)

lemma fixed_putc: "fixed (tty_putc t ch) = fixed t"
  by (simp add: tty_putc_def Let_def)

section \<open>Moves\<close>

text \<open>The state right after the cursor has left the last row.\<close>

definition overrun :: "tty \<Rightarrow> sheet \<Rightarrow> bool" where
  "overrun t s \<longleftrightarrow>
     (let L = tty_lines t; C = tty_columns t in
      0 < L \<and> 0 < C \<and> tty_size t = C * L \<and> length (tty_buf t) = C * L \<and> length (tty_dirty t) = C * L \<and>
      sh_pos s = sh_top s * C + tty_cursor t \<and> tty_cursor t = C * L \<and>
      (\<forall>i < C * L. tty_buf t ! i = sh_paper s (sh_top s * C + i)) \<and>
      (\<forall>j \<ge> (sh_top s + L) * C. sh_paper s j = tty_defaultch))"

lemma fill_length [simp]: "length (foldl (\<lambda>b k. b[c + k := x]) b ks) = length b"
  by (induction ks arbitrary: b) simp_all

lemma fill_nth:
  "i < length b \<Longrightarrow> foldl (\<lambda>b k. b[c + k := x]) b [0..<n] ! i = (if c \<le> i \<and> i < c + n then x else b ! i)"
  by (induction n) (auto simp: nth_list_update less_Suc_eq)

lemma scrollup_window:
  assumes "overrun t s"
  shows "window (tty_upd_scrollup t) (s\<lparr>sh_top := sh_top s + 1\<rparr>)"
proof -
  define L C where "L = tty_lines t" "C = tty_columns t"
  have h: "0 < L" "0 < C" "tty_size t = C * L" "length (tty_buf t) = C * L" "length (tty_dirty t) = C * L"
    "sh_pos s = sh_top s * C + C * L" "tty_cursor t = C * L"
    "\<And>i. i < C * L \<Longrightarrow> tty_buf t ! i = sh_paper s (sh_top s * C + i)"
    "\<And>j. (sh_top s + L) * C \<le> j \<Longrightarrow> sh_paper s j = tty_defaultch"
    using assms by (auto simp: overrun_def Let_def L_C_def)
  have m: "C * (L - 1) + C = C * L" using h(1) by (simp add: algebra_simps)
  define buf where "buf = take (C * (L - 1)) (drop C (tty_buf t)) @ drop (C * (L - 1)) (tty_buf t)"
  have len: "length buf = C * L" using m h(4) by (simp add: buf_def)
  have cell: "foldl (\<lambda>b k. b[C * (L - 1) + k := tty_defaultch]) buf [0..<C] ! i = sh_paper s (sh_top s * C + (C + i))"
    if i: "i < C * L" for i
  proof (cases "i < C * (L - 1)")
    case True
    moreover have "C \<le> C * L" using h(1) by simp
    ultimately have "buf ! i = tty_buf t ! (C + i)" using m h(4) by (simp add: buf_def nth_append)
    moreover have "C + i < C * L" using True m by simp
    ultimately show ?thesis using True h(8) i len by (simp add: fill_nth)
  next
    case False
    then have "(sh_top s + L) * C \<le> sh_top s * C + (C + i)" using m by (simp add: algebra_simps)
    then show ?thesis using False h(9) i len m by (simp add: fill_nth)
  qed
  define D where "D = take (C * (L - 1)) (drop C (tty_dirty t)) @ drop (C * (L - 1)) (tty_dirty t)"
  have D: "length D = C * L" using m h(5) by (simp add: D_def)
  have "C * L - C = C * (L - 1)" using m by simp
  then have scr: "tty_upd_scrollup t = t\<lparr>tty_buf := foldl (\<lambda>b k. b[C * (L - 1) + k := tty_defaultch]) buf [0..<C],
      tty_dirty := D, tty_cursor := C * (L - 1)\<rparr>"
    by (simp only: tty_upd_scrollup_def Let_def L_C_def [symmetric] buf_def [symmetric] D_def [symmetric] h(7))
  have "(sh_top s + 1) * C + i = sh_top s * C + (C + i)" for i by simp
  then have "\<forall>i < C * L. foldl (\<lambda>b k. b[C * (L - 1) + k := tty_defaultch]) buf [0..<C] ! i =
      sh_paper s ((sh_top s + 1) * C + i)"
    using cell by presburger
  moreover have "C * (L - 1) < C * L" using h(1,2) by simp
  moreover have "(sh_top s + 1) * C + C * (L - 1) = sh_top s * C + C * L" unfolding m [symmetric] by simp
  moreover have "(sh_top s + L) * C \<le> j" if "(sh_top s + 1 + L) * C \<le> j" for j
    using that by (simp add: algebra_simps)
  then have "\<forall>j \<ge> (sh_top s + 1 + L) * C. sh_paper s j = tty_defaultch" using h(9) by blast
  ultimately show ?thesis
    using h(1-6) D len unfolding scr window_def Let_def by (simp add: L_C_def [symmetric])
qed

lemma window_split:
  assumes "window t s"
  shows "sh_pos s div tty_columns t = sh_top s + tty_cursor t div tty_columns t"
    "sh_pos s mod tty_columns t = tty_cursor t mod tty_columns t"
    "tty_cursor t div tty_columns t < tty_lines t"
  using assms by (auto simp: window_def Let_def less_mult_imp_div_less mult.commute)

lemma feed_stay: "p div C < sh_top s + L \<Longrightarrow> feed L C p s = s\<lparr>sh_pos := p\<rparr>"
  by (simp add: feed_def max_def)

lemma feed_scroll: "0 < C \<Longrightarrow> p = (sh_top s + L) * C \<Longrightarrow> feed L C p s = s\<lparr>sh_pos := p, sh_top := sh_top s + 1\<rparr>"
  by (simp add: feed_def max_def)

lemma forward:
  assumes "window t s" "tty_cursor t' \<le> tty_size t" "tty_cursor t \<le> tty_cursor t'"
    and "t' = t\<lparr>tty_buf := tty_buf t', tty_cursor := tty_cursor t'\<rparr>" "length (tty_buf t') = length (tty_buf t)"
    and "s' = s\<lparr>sh_paper := sh_paper s'\<rparr>"
    and "\<forall>i < tty_size t. tty_buf t' ! i = sh_paper s' (sh_top s * tty_columns t + i)"
    and "\<forall>j \<ge> (sh_top s + tty_lines t) * tty_columns t. sh_paper s' j = tty_defaultch"
  shows "window (if tty_cursor t' = tty_size t' then tty_upd_scrollup t' else t')
    (feed (tty_lines t) (tty_columns t) (sh_top s * tty_columns t + tty_cursor t') s')"
proof -
  define L C where "L = tty_lines t" "C = tty_columns t"
  have h: "0 < L" "0 < C" "tty_size t = C * L" "length (tty_buf t) = C * L" "length (tty_dirty t) = C * L"
    using assms(1) by (auto simp: window_def Let_def L_C_def)
  have t': "tty_lines t' = L" "tty_columns t' = C" "tty_size t' = C * L" "length (tty_buf t') = C * L"
    "length (tty_dirty t') = C * L"
    using assms(5) h by (subst assms(4), simp add: L_C_def)+
  have top: "sh_top s' = sh_top s" by (subst assms(6)) simp
  let ?p = "sh_top s * C + tty_cursor t'"
  have pos: "s'\<lparr>sh_pos := q\<rparr> = s'\<lparr>sh_pos := q, sh_top := sh_top s\<rparr>" for q using top by simp
  show ?thesis
  proof (cases "tty_cursor t' = C * L")
    case True
    then have "?p = (sh_top s + L) * C" by (simp add: algebra_simps)
    then have f: "feed L C ?p s' = (s'\<lparr>sh_pos := ?p\<rparr>)\<lparr>sh_top := sh_top (s'\<lparr>sh_pos := ?p\<rparr>) + 1\<rparr>"
      using feed_scroll [of C ?p s' L] h(2) top by simp
    have "overrun t' (s'\<lparr>sh_pos := ?p\<rparr>)"
      using h t' top True assms(7,8) by (simp add: overrun_def Let_def L_C_def)
    then have "window (tty_upd_scrollup t') (feed L C ?p s')" unfolding f by (rule scrollup_window)
    then show ?thesis using True t'(3) by (simp add: L_C_def)
  next
    case False
    then have lt: "tty_cursor t' < C * L" using assms(2) h(3) by simp
    then have "tty_cursor t' div C < L" by (simp add: less_mult_imp_div_less mult.commute)
    then have "feed L C ?p s' = s'\<lparr>sh_pos := ?p\<rparr>" using h(2) top by (intro feed_stay) simp
    moreover have "window t' (s'\<lparr>sh_pos := ?p\<rparr>)"
      using h t' top lt assms(7,8) by (simp add: window_def Let_def L_C_def)
    ultimately show ?thesis using False t'(3) by (simp add: L_C_def)
  qed
qed

lemma putc_window:
  assumes "window t s"
  shows "window (tty_putc t ch) (type_char (tty_lines t) (tty_columns t) (tty_fg t) (tty_bg t) s ch)"
proof -
  define L C where "L = tty_lines t" "C = tty_columns t"
  have h: "0 < L" "0 < C" "tty_size t = C * L" "length (tty_buf t) = C * L" "length (tty_dirty t) = C * L"
    "sh_pos s = sh_top s * C + tty_cursor t" "tty_cursor t < C * L"
    "\<And>i. i < C * L \<Longrightarrow> tty_buf t ! i = sh_paper s (sh_top s * C + i)"
    "\<And>j. (sh_top s + L) * C \<le> j \<Longrightarrow> sh_paper s j = tty_defaultch"
    using assms by (auto simp: window_def Let_def L_C_def)
  have sp: "sh_pos s div C = sh_top s + tty_cursor t div C" "tty_cursor t div C < L"
    using window_split [OF assms] by (auto simp: L_C_def)
  have row: "tty_cursor t - tty_cursor t mod C = tty_cursor t div C * C"
    by (simp add: minus_mod_eq_div_mult)
  consider "ch = CHR 0x0d" | "ch = CHR 0x08" | "ch = CHR 0x0a" | "ch \<notin> {CHR 0x0d, CHR 0x08, CHR 0x0a}" by blast
  then show ?thesis
  proof cases
    case 1
    have "tty_cursor t div C * C \<le> tty_cursor t" by simp
    then have "tty_cursor t div C * C < C * L" using h(7) by linarith
    then have "window (tty_upd_cr t) (s\<lparr>sh_pos := sh_pos s div C * C\<rparr>)"
      using h row sp by (simp add: window_def tty_upd_cr_def Let_def L_C_def [symmetric] algebra_simps)
    then show ?thesis using 1 by (simp add: tty_putc_def type_char_def Let_def L_C_def)
  next
    case 2
    show ?thesis
    proof (cases "tty_cursor t = 0")
      case True
      then have "tty_upd_backsp t = t" "sh_pos s = sh_top s * C" using h(6) by (simp_all add: tty_upd_backsp_def)
      then show ?thesis using 2 assms by (simp add: tty_putc_def type_char_def Let_def L_C_def)
    next
      case False
      let ?c = "tty_cursor t - 1"
      have p: "sh_pos s \<noteq> sh_top s * C" "sh_pos s - 1 = sh_top s * C + ?c" using False h(6) by auto
      have "sh_top s * C + i = sh_top s * C + ?c \<longleftrightarrow> i = ?c" for i by simp
      moreover have "sh_top s * C + ?c < (sh_top s + L) * C" using h(7) by (simp add: algebra_simps)
      ultimately have "window (tty_upd_backsp t)
          (s\<lparr>sh_paper := (sh_paper s)(sh_pos s - 1 := sh_paper s (sh_pos s - 1)\<lparr>ch_ch := CHR 0x00\<rparr>), sh_pos := sh_pos s - 1\<rparr>)"
        using h False unfolding p(2)
        by (auto simp: window_def tty_upd_backsp_def Let_def L_C_def [symmetric] nth_list_update)
      then show ?thesis using 2 p(1) by (simp add: tty_putc_def type_char_def Let_def L_C_def)
    qed
  next
    case 3
    let ?t = "tty_upd_lf (tty_upd_cr t)"
    have t: "?t = t\<lparr>tty_cursor := (tty_cursor t div C + 1) * C\<rparr>"
      using row by (simp add: tty_upd_lf_def tty_upd_cr_def L_C_def)
    then have c: "tty_cursor ?t = (tty_cursor t div C + 1) * C" by simp
    have "(tty_cursor t div C + 1) * C \<le> L * C" using sp(2) by (intro mult_le_mono1) simp
    moreover have "tty_cursor t \<le> (tty_cursor t div C + 1) * C"
      using dividend_less_div_times [OF h(2), of "tty_cursor t"] by (simp add: algebra_simps)
    ultimately have "window (if tty_cursor ?t = tty_size ?t then tty_upd_scrollup ?t else ?t)
        (feed L C (sh_top s * C + tty_cursor ?t) s)"
      using forward [of t s ?t s] assms h(3,8,9)
      by (simp add: t L_C_def [symmetric] mult.commute)
    moreover have "sh_top s * C + tty_cursor ?t = (sh_pos s div C + 1) * C" using c sp(1) by (simp add: algebra_simps)
    ultimately show ?thesis using 3 by (auto simp: tty_putc_def type_char_def Let_def L_C_def split: if_splits)
  next
    case 4
    let ?t = "tty_upd_putc t ch"
    let ?s = "s\<lparr>sh_paper := (sh_paper s)(sh_pos s := sh_paper s (sh_pos s)\<lparr>ch_ch := ch, ch_fg := tty_fg t, ch_bg := tty_bg t\<rparr>)\<rparr>"
    have c: "tty_cursor ?t = tty_cursor t + 1" by (simp add: tty_upd_putc_def)
    have in_row: "sh_top s * C + tty_cursor t < (sh_top s + L) * C" using h(7) by (simp add: algebra_simps)
    have cells: "\<forall>i < tty_size t. tty_buf ?t ! i = sh_paper ?s (sh_top s * tty_columns t + i)"
      using h by (simp add: tty_upd_putc_def nth_list_update L_C_def [symmetric])
    have rest: "\<forall>j \<ge> (sh_top s + tty_lines t) * tty_columns t. sh_paper ?s j = tty_defaultch"
      using h(6,9) in_row by (auto simp: L_C_def [symmetric])
    have t: "?t = t\<lparr>tty_buf := tty_buf ?t, tty_cursor := tty_cursor ?t\<rparr>" "length (tty_buf ?t) = length (tty_buf t)"
      by (simp_all add: tty_upd_putc_def)
    have s: "?s = s\<lparr>sh_paper := sh_paper ?s\<rparr>" by simp
    have "tty_cursor ?t \<le> tty_size t" "tty_cursor t \<le> tty_cursor ?t" using h(3,7) c by auto
    from forward [OF assms this t s cells rest]
    have "window (if tty_cursor ?t = tty_size ?t then tty_upd_scrollup ?t else ?t) (feed L C (sh_pos s + 1) ?s)"
      using h(6) c by (simp add: L_C_def [symmetric] del: fun_upd_apply)
    then show ?thesis using 4 by (auto simp: tty_putc_def type_char_def Let_def L_C_def split: if_splits)
  qed
qed

lemma text_window:
  "window t s \<Longrightarrow> window (foldl tty_putc t str)
    (foldl (type_char (tty_lines t) (tty_columns t) (tty_fg t) (tty_bg t)) s str)"
proof (induction str arbitrary: t s)
  case (Cons ch str)
  from Cons.IH [OF putc_window [OF Cons.prems, of ch]] show ?case
    using fixed_putc [of t ch] by (simp add: fixed_def)
qed simp

lemma init_window: "0 < h div 16 \<Longrightarrow> 0 < w div 8 \<Longrightarrow> window (tty_init i w h) blank"
  by (simp add: window_def tty_init_def blank_def Let_def)

text \<open>C24: whatever is written to a terminal, the screen shows a window of as many rows as it has on an
  endless sheet: characters are typed in the colours of the terminal from left to right and on from
  row to row, and the window moves down by whole rows, bringing up blank ones, exactly when the
  position would leave it.\<close>

theorem screen_window:
  assumes "0 < h div 16" "0 < w div 8"
  shows "window (foldl tty_putc (tty_init i w h) str)
    (foldl (type_char (h div 16) (w div 8) 0xffffff 0x300A24) blank str)"
  using text_window [OF init_window [OF assms], of i str] by (simp add: tty_init_def Let_def)

theorem screen_window_witness:
  "map ch_ch (tty_buf (foldl tty_putc (tty_init 1 16 32) (''ab'' @ [CHR 0x0a] @ ''c''))) =
    [CHR 0x00, CHR 0x00, CHR ''c'', CHR 0x00]"
proof -
  let ?str = "''ab'' @ [CHR 0x0a] @ ''c''"
  define t where "t = foldl tty_putc (tty_init 1 16 32) ?str"
  define s where "s = foldl (type_char (32 div 16) (16 div 8) 0xffffff 0x300A24) blank ?str"
  have w: "window t s" unfolding t_def s_def by (rule screen_window) simp_all
  have "fixed (foldl tty_putc u xs) = fixed u" for u xs by (induction xs arbitrary: u) (simp_all add: fixed_putc)
  then have f: "tty_lines t = 2" "tty_columns t = 2" unfolding t_def
    by (simp_all only: fixed_def prod.inject) (simp_all add: tty_init_def Let_def)
  have s: "sh_top s = 1" "map (\<lambda>i. ch_ch (sh_paper s i)) [2, 3, 4, 5] = [CHR 0x00, CHR 0x00, CHR ''c'', CHR 0x00]"
    by (simp_all add: s_def type_char_def feed_def blank_def Let_def tty_defaultch_def)
  have "length (tty_buf t) = 4" "\<forall>i<4. tty_buf t ! i = sh_paper s (2 + i)"
    using w f s(1) by (auto simp: window_def Let_def)
  then have "tty_buf t = map (\<lambda>i. sh_paper s (2 + i)) [0..<4]" by (intro nth_equalityI) auto
  moreover have "[0..<4] = [0, 1, 2, 3 :: nat]" by (simp add: upt_rec)
  ultimately have "map ch_ch (tty_buf t) = map (\<lambda>i. ch_ch (sh_paper s i)) [2, 3, 4, 5]" by (simp add: numeral_eq_Suc)
  then show ?thesis using s(2) by (simp only: t_def)
qed

end
