(* ===== verification/Input.thy ===== *)
theory Input
  imports Prelude
begin

text \<open>
  The keyboard, \<^verbatim>\<open>kernel/src/devices/input/input.c\<close> and \<^verbatim>\<open>keymaps.c\<close>: the modifier keys, the two
  keymaps and the ring of events.  The numbers of the keys are constants of the machine's
  header \<^verbatim>\<open>amdev.h\<close>, which is not part of the sources: \<open>decode\<close> stands for them, and
  \<open>KEY_NONE\<close> for every other number.
\<close>

section \<open>Keys\<close>

datatype (plugins only: size code) key =
  KEY_NONE | KEY_CAPSLOCK | KEY_LCTRL | KEY_RCTRL | KEY_LALT | KEY_RALT | KEY_LSHIFT
  | KEY_RSHIFT | KEY_0 | KEY_1 | KEY_2 | KEY_3 | KEY_4 | KEY_5 | KEY_6 | KEY_7 | KEY_8 | KEY_9
  | KEY_GRAVE | KEY_MINUS | KEY_EQUALS | KEY_LEFTBRACKET | KEY_RIGHTBRACKET | KEY_BACKSLASH
  | KEY_SEMICOLON | KEY_APOSTROPHE | KEY_RETURN | KEY_COMMA | KEY_PERIOD | KEY_SLASH | KEY_SPACE
  | KEY_BACKSPACE | KEY_A | KEY_B | KEY_C | KEY_D | KEY_E | KEY_F | KEY_G | KEY_H | KEY_I
  | KEY_J | KEY_K | KEY_L | KEY_M | KEY_N | KEY_O | KEY_P | KEY_Q | KEY_R | KEY_S | KEY_T
  | KEY_U | KEY_V | KEY_W | KEY_X | KEY_Y | KEY_Z

definition keymap_table :: "(key \<times> char) list" where
  "keymap_table =
  [(KEY_0, CHR ''0''), (KEY_1, CHR ''1''), (KEY_2, CHR ''2''), (KEY_3, CHR ''3''),
   (KEY_4, CHR ''4''), (KEY_5, CHR ''5''), (KEY_6, CHR ''6''), (KEY_7, CHR ''7''),
   (KEY_8, CHR ''8''), (KEY_9, CHR ''9''), (KEY_GRAVE, CHR 0x60), (KEY_MINUS, CHR ''-''),
   (KEY_EQUALS, CHR ''=''), (KEY_LEFTBRACKET, CHR ''[''), (KEY_RIGHTBRACKET, CHR '']''), (KEY_BACKSLASH, CHR 0x5c),
   (KEY_SEMICOLON, CHR '';''), (KEY_APOSTROPHE, CHR 0x27), (KEY_RETURN, CHR 0x0a), (KEY_COMMA, CHR '',''),
   (KEY_PERIOD, CHR ''.''), (KEY_SLASH, CHR ''/''), (KEY_SPACE, CHR '' ''), (KEY_BACKSPACE, CHR 0x08),
   (KEY_A, CHR ''a''), (KEY_B, CHR ''b''), (KEY_C, CHR ''c''), (KEY_D, CHR ''d''),
   (KEY_E, CHR ''e''), (KEY_F, CHR ''f''), (KEY_G, CHR ''g''), (KEY_H, CHR ''h''),
   (KEY_I, CHR ''i''), (KEY_J, CHR ''j''), (KEY_K, CHR ''k''), (KEY_L, CHR ''l''),
   (KEY_M, CHR ''m''), (KEY_N, CHR ''n''), (KEY_O, CHR ''o''), (KEY_P, CHR ''p''),
   (KEY_Q, CHR ''q''), (KEY_R, CHR ''r''), (KEY_S, CHR ''s''), (KEY_T, CHR ''t''),
   (KEY_U, CHR ''u''), (KEY_V, CHR ''v''), (KEY_W, CHR ''w''), (KEY_X, CHR ''x''),
   (KEY_Y, CHR ''y''), (KEY_Z, CHR ''z'')]"

definition keymap_shift_table :: "(key \<times> char) list" where
  "keymap_shift_table =
  [(KEY_0, CHR '')''), (KEY_1, CHR ''!''), (KEY_2, CHR ''@''), (KEY_3, CHR ''#''),
   (KEY_4, CHR ''$''), (KEY_5, CHR ''%''), (KEY_6, CHR ''^''), (KEY_7, CHR ''&''),
   (KEY_8, CHR ''*''), (KEY_9, CHR ''(''), (KEY_GRAVE, CHR ''~''), (KEY_MINUS, CHR ''_''),
   (KEY_EQUALS, CHR ''+''), (KEY_LEFTBRACKET, CHR ''{''), (KEY_RIGHTBRACKET, CHR ''}''), (KEY_BACKSLASH, CHR ''|''),
   (KEY_SEMICOLON, CHR '':''), (KEY_APOSTROPHE, CHR 0x22), (KEY_COMMA, CHR ''<''), (KEY_PERIOD, CHR ''>''),
   (KEY_SLASH, CHR ''?''), (KEY_SPACE, CHR '' ''), (KEY_BACKSPACE, CHR 0x08), (KEY_A, CHR ''A''),
   (KEY_B, CHR ''B''), (KEY_C, CHR ''C''), (KEY_D, CHR ''D''), (KEY_E, CHR ''E''),
   (KEY_F, CHR ''F''), (KEY_G, CHR ''G''), (KEY_H, CHR ''H''), (KEY_I, CHR ''I''),
   (KEY_J, CHR ''J''), (KEY_K, CHR ''K''), (KEY_L, CHR ''L''), (KEY_M, CHR ''M''),
   (KEY_N, CHR ''N''), (KEY_O, CHR ''O''), (KEY_P, CHR ''P''), (KEY_Q, CHR ''Q''),
   (KEY_R, CHR ''R''), (KEY_S, CHR ''S''), (KEY_T, CHR ''T''), (KEY_U, CHR ''U''),
   (KEY_V, CHR ''V''), (KEY_W, CHR ''W''), (KEY_X, CHR ''X''), (KEY_Y, CHR ''Y''),
   (KEY_Z, CHR ''Z'')]"

definition keymap :: "key \<Rightarrow> char" where
  "keymap k = (case map_of keymap_table k of None \<Rightarrow> CHR 0x00 | Some c \<Rightarrow> c)"

definition keymap_shift :: "key \<Rightarrow> char" where
  "keymap_shift k = (case map_of keymap_shift_table k of None \<Rightarrow> CHR 0x00 | Some c \<Rightarrow> c)"

section \<open>Events\<close>

definition NEVENTS :: nat where
  "NEVENTS = 128"

record input_event =
  ev_ctrl :: bool
  ev_alt :: bool
  ev_data :: char

record input =
  in_event_sem :: nat
  in_events :: "input_event list"
  in_front :: nat
  in_rear :: nat
  in_capslock :: bool
  in_shift_down :: "bool \<times> bool"
  in_ctrl_down :: "bool \<times> bool"
  in_alt_down :: "bool \<times> bool"

definition event :: "bool \<Rightarrow> bool \<Rightarrow> char \<Rightarrow> input_event" where
  "event ctrl alt data = \<lparr>ev_ctrl = ctrl, ev_alt = alt, ev_data = data\<rparr>"

text \<open>The spin lock around the ring makes each call one step.\<close>

definition push_event :: "input \<Rightarrow> input_event \<Rightarrow> input result" where
  "push_event i ev =
     (let rear = (in_rear i + 1) mod NEVENTS
      in if rear = in_front i then Inl Panic
         else Inr (i\<lparr>in_events := (in_events i)[in_rear i := ev], in_rear := rear, in_event_sem := in_event_sem i + 1\<rparr>))"

text \<open>\<open>None\<close>: the caller sleeps on \<^verbatim>\<open>event_sem\<close>.\<close>

definition pop_event :: "input \<Rightarrow> (input_event \<times> input) result option" where
  "pop_event i =
     (if in_event_sem i = 0 then None
      else if in_rear i = in_front i then Some (Inl Panic)
      else Some (Inr (in_events i ! in_front i,
             i\<lparr>in_front := (in_front i + 1) mod NEVENTS, in_event_sem := in_event_sem i - 1\<rparr>)))"

definition both :: "bool \<times> bool \<Rightarrow> bool" where
  "both d \<longleftrightarrow> fst d \<or> snd d"

definition is_lower :: "char \<Rightarrow> bool" where
  "is_lower c \<longleftrightarrow> (of_char CHR ''a'' :: nat) \<le> of_char c \<and> (of_char c :: nat) \<le> of_char CHR ''z''"

definition input_keydown :: "(nat \<Rightarrow> key) \<Rightarrow> input \<Rightarrow> nat \<Rightarrow> input result" where
  "input_keydown decode i code =
     (if code \<ge> 0x8000 then
        (let key = decode (code - 0x8000)
         in if key = KEY_CAPSLOCK then Inr (i\<lparr>in_capslock := \<not> in_capslock i\<rparr>)
            else if key = KEY_LCTRL then Inr (i\<lparr>in_ctrl_down := (True, snd (in_ctrl_down i))\<rparr>)
            else if key = KEY_RCTRL then Inr (i\<lparr>in_ctrl_down := (fst (in_ctrl_down i), True)\<rparr>)
            else if key = KEY_LALT then Inr (i\<lparr>in_alt_down := (True, snd (in_alt_down i))\<rparr>)
            else if key = KEY_RALT then Inr (i\<lparr>in_alt_down := (fst (in_alt_down i), True)\<rparr>)
            else if key = KEY_LSHIFT then Inr (i\<lparr>in_shift_down := (True, snd (in_shift_down i))\<rparr>)
            else if key = KEY_RSHIFT then Inr (i\<lparr>in_shift_down := (fst (in_shift_down i), True)\<rparr>)
            else
              (let ch = keymap key; shift = both (in_shift_down i); ctrl = both (in_ctrl_down i); alt = both (in_alt_down i)
               in if ch = CHR 0x00 then Inr i
                  else if ctrl \<or> alt then push_event i (event ctrl alt ch)
                  else if (if is_lower ch then shift \<noteq> in_capslock i else shift)
                    then push_event i (event False False (keymap_shift key))
                  else push_event i (event False False ch)))
      else
        (let key = decode code
         in if key = KEY_LCTRL then Inr (i\<lparr>in_ctrl_down := (False, snd (in_ctrl_down i))\<rparr>)
            else if key = KEY_RCTRL then Inr (i\<lparr>in_ctrl_down := (fst (in_ctrl_down i), False)\<rparr>)
            else if key = KEY_LALT then Inr (i\<lparr>in_alt_down := (False, snd (in_alt_down i))\<rparr>)
            else if key = KEY_RALT then Inr (i\<lparr>in_alt_down := (fst (in_alt_down i), False)\<rparr>)
            else if key = KEY_LSHIFT then Inr (i\<lparr>in_shift_down := (False, snd (in_shift_down i))\<rparr>)
            else if key = KEY_RSHIFT then Inr (i\<lparr>in_shift_down := (fst (in_shift_down i), False)\<rparr>)
            else Inr i))"

text \<open>One turn of \<^verbatim>\<open>input_task\<close>: the keys read until there is none.\<close>

fun input_task :: "(nat \<Rightarrow> key) \<Rightarrow> input \<Rightarrow> nat list \<Rightarrow> input result" where
  "input_task decode i [] = Inr i"
| "input_task decode i (code # codes) =
     (if code = 0 then Inr i
      else and_then (input_keydown decode i code) (\<lambda>i'. input_task decode i' codes))"

definition input_init :: "input_event list \<Rightarrow> input" where
  "input_init events =
     \<lparr>in_event_sem = 0, in_events = events, in_front = 0, in_rear = 0, in_capslock = False,
      in_shift_down = (False, False), in_ctrl_down = (False, False), in_alt_down = (False, False)\<rparr>"

text \<open>An event takes four bytes; a smaller buffer loses it.\<close>

definition input_read :: "input \<Rightarrow> nat \<Rightarrow> (nat \<times> input_event option \<times> input) result option" where
  "input_read i count =
     map_option (\<lambda>r. and_then r (\<lambda>(ev, i'). Inr (if count \<ge> 4 then (4, Some ev, i') else (0, None, i')))) (pop_event i)"

definition input_write :: "nat \<Rightarrow> char list \<Rightarrow> nat" where
  "input_write off buf = 0"

section \<open>The ring as a queue\<close>

definition ev_enq :: "input \<Rightarrow> input_event \<Rightarrow> input option" where
  "ev_enq i ev = (case push_event i ev of Inl _ \<Rightarrow> None | Inr i' \<Rightarrow> Some i')"

definition ev_deq :: "input \<Rightarrow> (input_event \<times> input) option" where
  "ev_deq i = (case pop_event i of Some (Inr r) \<Rightarrow> Some r | _ \<Rightarrow> None)"

definition pending :: "input \<Rightarrow> input_event list" where
  "pending i = ring_seg (in_events i) (in_front i) (ring_dist NEVENTS (in_front i) (in_rear i))"

definition input_ok :: "input \<Rightarrow> bool" where
  "input_ok i \<longleftrightarrow> length (in_events i) = NEVENTS \<and> in_front i < NEVENTS \<and> in_rear i < NEVENTS \<and>
     in_event_sem i = length (pending i)"

lemma NEVENTS_pos [simp]: "0 < NEVENTS" "NEVENTS \<noteq> 0"
  by (simp_all add: NEVENTS_def)

lemma push_pending:
  assumes "input_ok i"
  shows "case push_event i ev of
      Inl e \<Rightarrow> e = Panic \<and> length (pending i) = NEVENTS - 1
    | Inr i' \<Rightarrow> input_ok i' \<and> pending i' = pending i @ [ev] \<and> length (pending i) < NEVENTS - 1"
proof -
  let ?f = "in_front i" and ?r = "in_rear i" and ?k = "ring_dist NEVENTS (in_front i) (in_rear i)"
  have h: "length (in_events i) = NEVENTS" "?f < NEVENTS" "?r < NEVENTS" "in_event_sem i = ?k"
    using assms by (auto simp: input_ok_def pending_def)
  show ?thesis
  proof (cases "Suc ?r mod NEVENTS = ?f")
    case True
    then show ?thesis using ring_full_dist [OF h(2,3) True] by (simp add: push_event_def pending_def)
  next
    case False
    have d: "ring_dist NEVENTS ?f (Suc ?r mod NEVENTS) = Suc ?k" by (rule ring_dist_push [OF h(2,3) False])
    then have k: "Suc ?k < NEVENTS" by (metis NEVENTS_pos(1) ring_dist_less)
    have "ring_seg ((in_events i)[?r := ev]) ?f (Suc ?k) = ring_seg (in_events i) ?f ?k @ [ev]"
      using ring_seg_push [of ?k "in_events i" ?f ev] ring_dist_head [OF h(2,3)] h(1) k by simp
    then show ?thesis using False h d k by (simp add: push_event_def input_ok_def pending_def Let_def)
  qed
qed

lemma pop_pending:
  assumes "input_ok i"
  shows "case pop_event i of
      None \<Rightarrow> pending i = []
    | Some (Inl _) \<Rightarrow> False
    | Some (Inr (ev, i')) \<Rightarrow> input_ok i' \<and> pending i = ev # pending i'"
proof -
  let ?f = "in_front i" and ?r = "in_rear i" and ?k = "ring_dist NEVENTS (in_front i) (in_rear i)"
  have h: "length (in_events i) = NEVENTS" "?f < NEVENTS" "?r < NEVENTS" "in_event_sem i = ?k"
    using assms by (auto simp: input_ok_def pending_def)
  show ?thesis
  proof (cases "?f = ?r")
    case True
    then show ?thesis using h by (simp add: pop_event_def pending_def)
  next
    case False
    have d: "Suc (ring_dist NEVENTS (Suc ?f mod NEVENTS) ?r) = ?k" by (rule ring_dist_pop [OF h(2,3) False])
    have "ring_seg (in_events i) ?f ?k = in_events i ! ?f # ring_seg (in_events i) (Suc ?f mod NEVENTS) (?k - 1)"
      using h(1,2) ring_seg_mod [of "in_events i" "Suc ?f" "?k - 1"] unfolding d [symmetric]
      by (simp add: ring_seg_Cons)
    then have "pending i = in_events i ! ?f # ring_seg (in_events i) (Suc ?f mod NEVENTS) (ring_dist NEVENTS (Suc ?f mod NEVENTS) ?r)"
      unfolding pending_def d [symmetric] by simp
    moreover have "in_event_sem i - 1 = ring_dist NEVENTS (Suc ?f mod NEVENTS) ?r" "in_event_sem i \<noteq> 0"
      using h(4) d by auto
    ultimately show ?thesis using False h by (simp add: pop_event_def input_ok_def pending_def)
  qed
qed

lemma pending_cap: "input_ok i \<Longrightarrow> length (pending i) \<le> NEVENTS - 1"
  using ring_dist_less [OF NEVENTS_pos(1), of "in_front i" "in_rear i"] unfolding pending_def length_ring_seg by linarith

interpretation events: bounded_fifo ev_enq ev_deq pending input_ok "NEVENTS - 1"
proof
  fix i i' ev
  assume i: "input_ok i"
  show "ev_enq i ev = Some i' \<Longrightarrow> input_ok i' \<and> pending i' = pending i @ [ev]"
    using push_pending [OF i, of ev] by (auto simp: ev_enq_def split: sum.splits)
  show "ev_enq i ev = None \<longleftrightarrow> length (pending i) = NEVENTS - 1"
    using push_pending [OF i, of ev] by (auto simp: ev_enq_def split: sum.splits)
  show "ev_deq i = Some (ev, i') \<Longrightarrow> input_ok i' \<and> pending i = ev # pending i'"
    using pop_pending [OF i] by (auto simp: ev_deq_def split: option.splits sum.splits)
  show "ev_deq i = None \<longleftrightarrow> pending i = []"
    using pop_pending [OF i] by (auto simp: ev_deq_def split: option.splits sum.splits)
  show "length (pending i) \<le> NEVENTS - 1" using i by (rule pending_cap)
qed

end
