(* ===== verification/Tty_Task.thy ===== *)
theory Tty_Task
  imports Tty_Lines Tty_Screen Input
begin

text \<open>
  Drawing a terminal through the frame buffer, and the task that hands keyboard events to the
  terminal on display: the rest of \<^verbatim>\<open>kernel/src/devices/tty/tty.c\<close>.
\<close>

section \<open>Drawing\<close>

text \<open>The fields of a sprite have 16 bits, the display 4.\<close>

definition cell_sprites :: "tty \<Rightarrow> nat \<Rightarrow> sprite list" where
  "cell_sprites t i =
     (let ch = tty_buf t ! i; x = i mod tty_columns t; y = i div tty_columns t;
          draw = (if i = tty_cursor t then 0xdb else of_char (ch_ch ch));
          half = (\<lambda>dy tex. \<lparr>sp_texture = tex mod 2 ^ 16, sp_x = x * 8 mod 2 ^ 16, sp_y = (y * 16 + dy) mod 2 ^ 16,
             sp_display = tty_display t mod 2 ^ 4, sp_z = 0, sp_fg = ch_fg ch, sp_bg = ch_bg ch\<rparr>)
      in [half 0 (draw * 2 + 1), half 8 (draw * 2 + 2)])"

fun render_cells :: "tty \<Rightarrow> nat list \<Rightarrow> fb \<Rightarrow> (fb \<times> fbctl list) result" where
  "render_cells t [] fb = Inr (fb, [])"
| "render_cells t (i # is) fb =
     (if tty_dirty t ! i
      then and_then (fb_write fb SPRITE_BRK \<lparr>as_current = 0, as_bytes = [], as_sprites = cell_sprites t i\<rparr>)
        (\<lambda>(fb', a). and_then (render_cells t is fb') (\<lambda>(fb'', b). Inr (fb'', a @ b)))
      else render_cells t is fb)"

definition tty_render :: "tty \<Rightarrow> fb \<Rightarrow> (fb \<times> fbctl list) result" where
  "tty_render t fb = render_cells t [0..<tty_lines t * tty_columns t] fb"

definition tty_write :: "tty \<Rightarrow> fb \<Rightarrow> string \<Rightarrow> (nat \<times> tty \<times> fb \<times> fbctl list) result" where
  "tty_write t fb buf =
     (let t1 = foldl tty_putc t buf
      in and_then (tty_render t1 fb) (\<lambda>(fb', reqs). Inr (length buf, t1, fb', reqs)))"

section \<open>The task\<close>

text \<open>
  The terminals by number, the one on display, the frame buffer, the requests drawn and what
  \<^verbatim>\<open>printf\<close> put on the machine's console.
\<close>

record console =
  con_ttys :: "nat \<Rightarrow> tty"
  con_cur :: nat
  con_fb :: fb
  con_reqs :: "fbctl list"
  con_out :: string

definition con_write :: "console \<Rightarrow> nat \<Rightarrow> string \<Rightarrow> console result" where
  "con_write c k buf =
     and_then (tty_write (con_ttys c k) (con_fb c) buf)
       (\<lambda>(n, t, fb, reqs). Inr (c\<lparr>con_ttys := (con_ttys c)(k := t), con_fb := fb, con_reqs := con_reqs c @ reqs\<rparr>))"

definition con_cook :: "console \<Rightarrow> char \<Rightarrow> (bool \<times> console) result" where
  "con_cook c ch =
     and_then (tty_cook (con_ttys c (con_cur c)) ch)
       (\<lambda>(r, t). Inr (r, c\<lparr>con_ttys := (con_ttys c)(con_cur c := t)\<rparr>))"

text \<open>Alt and a digit switch the terminal.\<close>

definition switch_target :: "nat \<Rightarrow> char \<Rightarrow> nat" where
  "switch_target cur ch =
     (if ch = CHR ''1'' then 0 else if ch = CHR ''2'' then 1 else if ch = CHR ''3'' then 2
      else if ch = CHR ''4'' then 3 else cur)"

definition switch_to :: "console \<Rightarrow> nat \<Rightarrow> console result" where
  "switch_to c next =
     (let t = tty_mark_all (con_ttys c next); c1 = c\<lparr>con_cur := next, con_ttys := (con_ttys c)(next := t)\<rparr>
      in and_then (fb_write (con_fb c1) 0 \<lparr>as_current = tty_display t, as_bytes = [], as_sprites = []\<rparr>)
           (\<lambda>(fb, _). con_write (c1\<lparr>con_fb := fb\<rparr>) next []))"

definition tty_task :: "console \<Rightarrow> input_event \<Rightarrow> console result" where
  "tty_task c ev =
     and_then
       (if ev_alt ev then
          (let next = switch_target (con_cur c) (ev_data ev);
               c1 = (if ev_data ev = CHR ''7'' then c\<lparr>con_out := con_out c @ ''Switch to terminal'' @ [CHR 0x0a]\<rparr> else c)
           in if next \<noteq> con_cur c then switch_to c1 next else Inr c1)
        else Inr c)
       (\<lambda>c2. and_then
         (if ev_ctrl ev then
            (if ev_data ev = CHR ''c'' then Inr (c2\<lparr>con_out := con_out c2 @ ''Ctrl - c'' @ [CHR 0x0a]\<rparr>)
             else if ev_data ev = CHR ''d'' then
               and_then (con_cook (c2\<lparr>con_out := con_out c2 @ ''Ctrl - d(Considered as EOF)'' @ [CHR 0x0a]\<rparr>) (CHR 0x00))
                 (\<lambda>(r, c3). Inr c3)
             else Inr c2)
          else Inr c2)
         (\<lambda>c3. if \<not> ev_ctrl ev \<and> \<not> ev_alt ev
                then and_then (con_cook c3 (ev_data ev))
                  (\<lambda>(r, c4). if r then Inr c4 else con_write c4 (con_cur c4) [ev_data ev])
                else Inr c3))"

section \<open>What is drawn\<close>

text \<open>The two requests that draw a character: its glyph in its colours, or a block at the cursor.\<close>

definition glyph :: "u8 list \<Rightarrow> tty \<Rightarrow> nat \<Rightarrow> fbctl list" where
  "glyph font t i =
     (let ch = tty_buf t ! i; code = (if i = tty_cursor t then 0xdb else of_char (ch_ch ch));
          half = (\<lambda>dy. \<lparr>ctl_x = 8 * (i mod tty_columns t), ctl_y = 16 * (i div tty_columns t) + dy, ctl_w = 8, ctl_h = 8,
             ctl_pixels = tile (drop (16 * code + dy) font) (ch_fg ch) (ch_bg ch)\<rparr>)
      in [half 0, half 8])"

definition font_loaded :: "u8 list \<Rightarrow> fb \<Rightarrow> bool" where
  "font_loaded font fb \<longleftrightarrow>
     (\<forall>c<256. fb_textures fb (c * 2 + 1) = tile (drop (16 * c) font) DEFAULT_FG DEFAULT_BG \<and>
       fb_textures fb (c * 2 + 2) = tile (drop (16 * c + 8) font) DEFAULT_FG DEFAULT_BG)"

lemma init_font: "length font = 4096 \<Longrightarrow> font_loaded font (fb_init w h font)"
  unfolding font_loaded_def fb_init_def fb.simps using font_load_tiles by blast

lemma draw_tile:
  assumes "fb_textures fb (sp_texture sp) = tile rows DEFAULT_FG DEFAULT_BG" "0 < sp_texture sp" "sp_texture sp < NTEXTURE"
  shows "draw_sprite fb sp = Inr (if sp_display sp = di_current (fb_info fb)
    then [\<lparr>ctl_x = sp_x sp, ctl_y = sp_y sp, ctl_w = 8, ctl_h = 8, ctl_pixels = tile rows (sp_fg sp) (sp_bg sp)\<rparr>] else [])"
  using assms by (auto simp: draw_sprite_def reload_tile TEXTURE_W_def TEXTURE_H_def)

lemma cell_drawn:
  assumes "font_loaded font fb" "tty_display t < 16" "i < tty_size t" "tty_size t = tty_columns t * tty_lines t"
    and "8 * tty_columns t \<le> 2 ^ 16" "16 * tty_lines t \<le> 2 ^ 16"
  shows "draw_sprites fb (cell_sprites t i) =
    Inr (if tty_display t = di_current (fb_info fb) then glyph font t i else [])"
proof -
  define code where "code = (if i = tty_cursor t then 0xdb else of_char (ch_ch (tty_buf t ! i)) :: nat)"
  have c: "code < 256" using nat_of_char_less_256 by (simp add: code_def)
  then have n: "code * 2 + 1 < NTEXTURE" "code * 2 + 2 < NTEXTURE" "code * 2 + 1 < 2 ^ 16" "code * 2 + 2 < 2 ^ 16"
    by (simp_all add: NTEXTURE_def)
  have col: "0 < tty_columns t" using assms(3,4) by (cases "tty_columns t") auto
  then have "i mod tty_columns t < tty_columns t" "i div tty_columns t < tty_lines t"
    using assms(3,4) by (simp_all add: less_mult_imp_div_less mult.commute)
  then have xy: "i mod tty_columns t * 8 < 2 ^ 16" "i div tty_columns t * 16 < 2 ^ 16" "i div tty_columns t * 16 + 8 < 2 ^ 16"
    using assms(5,6) by auto
  have tex: "fb_textures fb (code * 2 + 1) = tile (drop (16 * code) font) DEFAULT_FG DEFAULT_BG"
    "fb_textures fb (code * 2 + 2) = tile (drop (16 * code + 8) font) DEFAULT_FG DEFAULT_BG"
    using assms(1) c by (simp_all only: font_loaded_def)
  show ?thesis
    using tex n xy assms(2)
    by (simp add: cell_sprites_def glyph_def code_def [symmetric] Let_def draw_tile mult.commute
        del: add_2_eq_Suc')
qed

lemma render_drawn:
  assumes "font_loaded font fb" "tty_display t < 16" "tty_size t = tty_columns t * tty_lines t"
    and "8 * tty_columns t \<le> 2 ^ 16" "16 * tty_lines t \<le> 2 ^ 16" "\<forall>i\<in>set is. i < tty_size t"
  shows "render_cells t is fb =
    Inr (fb, if tty_display t = di_current (fb_info fb)
      then concat (map (glyph font t) (filter (\<lambda>i. tty_dirty t ! i) is)) else [])"
  using assms(6)
proof (induction "is")
  case (Cons i "is")
  then show ?case
    using cell_drawn [OF assms(1,2) _ assms(3-5), of i]
    by (simp add: fb_write_def SPRITE_BRK_def)
qed simp

text \<open>Nothing clears a mark, so from \<^verbatim>\<open>tty_init\<close> on every cell is marked.\<close>

definition marked :: "tty \<Rightarrow> bool" where
  "marked t \<longleftrightarrow> set (tty_dirty t) \<subseteq> {True}"

lemma marked_mark: "marked t \<Longrightarrow> marked (tty_mark t i)"
  using set_update_subset_insert [of "tty_dirty t" i True] by (auto simp: marked_def tty_mark_def)

lemma marked_marks: "marked t \<Longrightarrow> marked (foldl (\<lambda>t k. tty_mark t (f k)) t ks)"
  by (induction ks arbitrary: t) (simp_all add: marked_mark)

lemma marked_putc: "marked t \<Longrightarrow> marked (tty_putc t ch)"
proof -
  assume m: "marked t"
  have ops: "marked (tty_upd_cr u) \<longleftrightarrow> marked u" "marked (tty_upd_lf u) \<longleftrightarrow> marked u"
    "marked (tty_upd_backsp u) \<longleftrightarrow> marked u" "marked (tty_upd_putc u c) \<longleftrightarrow> marked u" for u c
    by (simp_all add: marked_def tty_upd_cr_def tty_upd_lf_def tty_upd_backsp_def tty_upd_putc_def Let_def)
  have scroll: "marked u \<Longrightarrow> marked (tty_upd_scrollup u)" for u
    by (auto simp: marked_def tty_upd_scrollup_def Let_def dest!: in_set_takeD in_set_dropD)
  have all: "marked u \<Longrightarrow> marked (tty_mark_all u)" "marked u \<Longrightarrow> marked (tty_mark_line u i)" for u i
    using marked_marks [of u "\<lambda>k. k"] by (simp_all only: tty_mark_all_def tty_mark_line_def marked_marks)
  show ?thesis using m by (simp add: tty_putc_def Let_def ops all scroll marked_mark)
qed

lemma putc_display:
  "tty_display (tty_putc t ch) = tty_display t"
proof -
  have m: "tty_display (foldl (\<lambda>t k. tty_mark t (f k)) u ks) = tty_display u" for f u ks
    by (induction ks arbitrary: u) (simp_all add: tty_mark_def)
  have "tty_display (tty_mark_all u) = tty_display u" "tty_display (tty_mark_line u i) = tty_display u"
    "tty_display (tty_mark u i) = tty_display u" for u i
    using m [of "\<lambda>k. k" u] by (simp_all only: tty_mark_all_def tty_mark_line_def m) (simp add: tty_mark_def)
  then show ?thesis
    by (simp add: tty_putc_def Let_def tty_upd_cr_def tty_upd_lf_def tty_upd_backsp_def tty_upd_putc_def tty_upd_scrollup_def)
qed

lemma text_kept:
  "marked t \<Longrightarrow> marked (foldl tty_putc t str) \<and> fixed (foldl tty_putc t str) = fixed t \<and>
   tty_display (foldl tty_putc t str) = tty_display t"
  by (induction str arbitrary: t) (simp_all add: marked_putc fixed_putc putc_display)



end
