(* ===== verification/Kvdb.thy ===== *)
theory Kvdb
  imports Ramdisk
begin

text \<open>
  The key-value store, \<^verbatim>\<open>libkvdb/kvdb.c\<close>: a file with a header, a list of tables from offset 0 and
  strings in chains of 32-byte blocks.  Offsets are relative to the end of the header, as in the
  code.  A read that comes back short makes \<^verbatim>\<open>safe_call\<close> exit: \<open>None\<close>.  The calls run under the
  lock of the store; strings are lists of bytes other than zero, without their terminator.
\<close>

section \<open>The file\<close>

record kfile =
  kf_mem :: "nat \<Rightarrow> u8"
  kf_len :: nat

definition HEADER_LEN :: nat where "HEADER_LEN = 0x100"
definition BLOCK_LEN :: nat where "BLOCK_LEN = 0x1c"
definition STRING_SZ :: nat where "STRING_SZ = 0x20"
definition TAB_SZ :: nat where "TAB_SZ = 20"

definition pread :: "kfile \<Rightarrow> nat \<Rightarrow> nat \<Rightarrow> u8 list" where
  "pread f len off = map (kf_mem f) [off..<min (off + len) (kf_len f)]"

text \<open>A write beyond the end leaves a hole of zeros.\<close>

definition pwrite :: "kfile \<Rightarrow> u8 list \<Rightarrow> nat \<Rightarrow> kfile" where
  "pwrite f bs off =
     \<lparr>kf_mem = put (\<lambda>x. if kf_len f \<le> x then 0 else kf_mem f x) off bs, kf_len = max (kf_len f) (off + length bs)\<rparr>"

definition pread32 :: "kfile \<Rightarrow> nat \<Rightarrow> nat option" where
  "pread32 f off = (let bs = pread f 4 off in if length bs = 4 then Some (le_bytes bs) else None)"

definition read_db :: "kfile \<Rightarrow> nat \<Rightarrow> nat \<Rightarrow> u8 list option" where
  "read_db f off len =
     (let bs = pread f len (add32 HEADER_LEN off) in if length bs = len then Some bs else None)"

definition write_db :: "kfile \<Rightarrow> nat \<Rightarrow> u8 list \<Rightarrow> kfile" where
  "write_db f off bs = pwrite f bs (add32 HEADER_LEN off)"

section \<open>Structures\<close>

record ktab =
  t_next :: nat
  t_key :: nat
  t_key_len :: nat
  t_value :: nat
  t_value_len :: nat

definition word_at :: "u8 list \<Rightarrow> nat \<Rightarrow> nat" where
  "word_at bs i = le_bytes (take 4 (drop (4 * i) bs))"

definition tab_of :: "u8 list \<Rightarrow> ktab" where
  "tab_of bs = \<lparr>t_next = word_at bs 0, t_key = word_at bs 1, t_key_len = word_at bs 2, t_value = word_at bs 3,
     t_value_len = word_at bs 4\<rparr>"

definition tab_bytes :: "ktab \<Rightarrow> u8 list" where
  "tab_bytes t = bytes32 (t_next t) @ bytes32 (t_key t) @ bytes32 (t_key_len t) @ bytes32 (t_value t) @ bytes32 (t_value_len t)"

definition read_tab :: "kfile \<Rightarrow> nat \<Rightarrow> ktab option" where
  "read_tab f off = map_option tab_of (read_db f off TAB_SZ)"

record kstring =
  s_info :: "u8 list"
  s_next :: nat

definition read_str :: "kfile \<Rightarrow> nat \<Rightarrow> kstring option" where
  "read_str f off = map_option (\<lambda>bs. \<lparr>s_info = take BLOCK_LEN bs, s_next = le_bytes (drop BLOCK_LEN bs)\<rparr>)
     (read_db f off STRING_SZ)"

text \<open>The places of the fields in the header.\<close>

definition OFF_TAIL :: nat where "OFF_TAIL = 4"
definition OFF_SIZE :: nat where "OFF_SIZE = 8"
definition OFF_BACKUP_LIST :: nat where "OFF_BACKUP_LIST = 12"
definition OFF_BACKUP_TAB :: nat where "OFF_BACKUP_TAB = 24"
definition OFF_BACKUP_KEY :: nat where "OFF_BACKUP_KEY = 28"
definition OFF_POS :: nat where "OFF_POS = 44"
definition OFF_BACKUP_PREV :: nat where "OFF_BACKUP_PREV = 48"
definition OFF_BACKUP_FLAG :: nat where "OFF_BACKUP_FLAG = 52"

definition init_db :: "kfile \<Rightarrow> kfile" where
  "init_db f =
     (let off = TAB_SZ; sz = HEADER_LEN + TAB_SZ + STRING_SZ;
          f1 = pwrite f (bytes32 off) 0;
          f2 = pwrite f1 (bytes32 off) 4;
          f3 = pwrite f2 (bytes32 sz) 8;
          f4 = pwrite f3 (replicate (HEADER_LEN - 12) 0) 12;
          f5 = pwrite f4 (replicate TAB_SZ 0) HEADER_LEN
      in pwrite f5 (replicate STRING_SZ 0) (HEADER_LEN + TAB_SZ))"

section \<open>Strings\<close>

text \<open>\<^verbatim>\<open>strncmp\<close> of a terminated string and the bytes of a block: do they agree?\<close>

definition cstr :: "u8 list \<Rightarrow> u8 list" where
  "cstr bs = takeWhile (\<lambda>b. b \<noteq> 0) bs"

definition strn_eq :: "u8 list \<Rightarrow> u8 list \<Rightarrow> bool" where
  "strn_eq key info \<longleftrightarrow> take BLOCK_LEN key = cstr info"

text \<open>Is the key the string?  Moving past the end of the key is undefined.\<close>

partial_function (option) string_cmp :: "kfile \<Rightarrow> u8 list \<Rightarrow> kstring \<Rightarrow> bool option" where
  "string_cmp f key str =
     (if s_next str \<noteq> 0 then
        (if \<not> strn_eq key (s_info str) then Some False
         else if length key < BLOCK_LEN then None
         else do {
           str' \<leftarrow> read_str f (s_next str);
           string_cmp f (drop BLOCK_LEN key) str'})
      else Some (strn_eq key (s_info str)))"

text \<open>The last \<^verbatim>\<open>strcpy\<close> may run on into the \<^verbatim>\<open>next\<close> field behind the bytes of the block.\<close>

partial_function (option) string_cpy :: "kfile \<Rightarrow> kstring \<Rightarrow> u8 list option" where
  "string_cpy f str =
     (if s_next str \<noteq> 0 then do {
        str' \<leftarrow> read_str f (s_next str);
        rest \<leftarrow> string_cpy f str';
        Some (take BLOCK_LEN (cstr (s_info str) @ replicate BLOCK_LEN 0) @ rest)}
      else Some (cstr (s_info str @ bytes32 (s_next str))))"

section \<open>Blocks\<close>

partial_function (option) last_block :: "kfile \<Rightarrow> nat \<Rightarrow> nat \<Rightarrow> nat option" where
  "last_block f prev cur =
     (if cur = 0 then Some prev
      else do {
        bs \<leftarrow> read_db f (add32 cur BLOCK_LEN) 4;
        last_block f cur (le_bytes bs)})"

definition add_free_list :: "kfile \<Rightarrow> nat \<Rightarrow> kfile option" where
  "add_free_list f cur = do {
     tail_old \<leftarrow> pread32 f OFF_TAIL;
     let f1 = write_db f (add32 tail_old BLOCK_LEN) (bytes32 cur);
     prev \<leftarrow> last_block f1 cur cur;
     Some (pwrite f1 (bytes32 prev) OFF_TAIL)}"

definition get_end :: "kfile \<Rightarrow> nat \<Rightarrow> (nat \<times> kfile) option" where
  "get_end f n = do {
     ret \<leftarrow> pread32 f OFF_SIZE;
     Some (ret, pwrite f (bytes32 (add32 ret n)) OFF_SIZE)}"

text \<open>
  The loop of \<^verbatim>\<open>alloc_str\<close>; \<^verbatim>\<open>prev\<close> equals \<open>cur\<close> at its head, \<open>flag\<close> tells that blocks of the free
  list are left before its tail, \<open>list1\<close>.
\<close>

definition next_block :: "kfile \<Rightarrow> bool \<Rightarrow> nat \<Rightarrow> nat \<Rightarrow> bool \<Rightarrow> (kfile \<times> bool \<times> nat) option" where
  "next_block f flag list1 prev short =
     (if flag then do {
        cur \<leftarrow> pread32 f (prev + BLOCK_LEN + HEADER_LEN);
        let f1 = (if short then pwrite f (bytes32 prev) OFF_BACKUP_PREV else f);
        if cur = list1 then do {
          (e, f2) \<leftarrow> get_end (pwrite f1 (bytes32 list1) 0) STRING_SZ;
          Some (f2, False, sub32 e HEADER_LEN)}
        else Some (f1, True, cur)}
      else do {
        (e, f2) \<leftarrow> get_end f STRING_SZ;
        Some (f2, False, sub32 e HEADER_LEN)})"

definition fill_block :: "kfile \<Rightarrow> nat \<Rightarrow> u8 list \<Rightarrow> kfile" where
  "fill_block f cur src =
     (if length src < BLOCK_LEN
      then pwrite (pwrite f (replicate BLOCK_LEN 0) (cur + HEADER_LEN)) src (cur + HEADER_LEN)
      else pwrite f (take BLOCK_LEN src) (cur + HEADER_LEN))"

definition end_block :: "kfile \<Rightarrow> bool \<Rightarrow> nat \<Rightarrow> nat \<Rightarrow> bool \<Rightarrow> kfile" where
  "end_block f flag prev cur again =
     (if again then write_db f (add32 prev BLOCK_LEN) (bytes32 cur)
      else write_db (if flag then pwrite f (bytes32 cur) 0 else f) (add32 prev BLOCK_LEN) (bytes32 0))"

function alloc_loop :: "kfile \<Rightarrow> bool \<Rightarrow> nat \<Rightarrow> nat \<Rightarrow> u8 list \<Rightarrow> (kfile \<times> bool \<times> nat) option" where
  "alloc_loop f flag list1 cur src =
     (if src = [] then Some (f, flag, cur)
      else do {
        (f1, flag', cur') \<leftarrow> next_block (fill_block f cur src) flag list1 cur (length src < BLOCK_LEN);
        alloc_loop (end_block f1 flag' cur cur' (BLOCK_LEN < length src)) flag' list1 cur' (drop BLOCK_LEN src)})"
  by pat_completeness auto

termination
  by (relation "measure (\<lambda>(_, _, _, _, src). length src)") (auto simp: BLOCK_LEN_def)

declare alloc_loop.simps [simp del]

definition alloc_str :: "kfile \<Rightarrow> u8 list \<Rightarrow> (nat \<times> kfile) option" where
  "alloc_str f src = do {
     list0 \<leftarrow> pread32 f 0;
     list1 \<leftarrow> pread32 f OFF_TAIL;
     let flag = (list0 \<noteq> list1);
     (ret, f1) \<leftarrow> (if flag then Some (list0, f) else map_option (\<lambda>(e, g). (sub32 e HEADER_LEN, g)) (get_end f STRING_SZ));
     (f2, flag', cur) \<leftarrow> alloc_loop f1 flag list1 ret src;
     Some (ret, pwrite f2 (bytes32 (if flag' then cur else list1)) 0)}"

section \<open>The backup in the header\<close>

definition neg_backup :: "kfile \<Rightarrow> kfile" where
  "neg_backup f = pwrite f [0] OFF_BACKUP_FLAG"

definition backup_flag :: "kfile \<Rightarrow> bool option" where
  "backup_flag f = (case pread f 1 OFF_BACKUP_FLAG of [b] \<Rightarrow> Some (b \<noteq> 0) | _ \<Rightarrow> None)"

definition recov_backup :: "kfile \<Rightarrow> kfile option" where
  "recov_backup f = do {
     flag \<leftarrow> backup_flag f;
     if \<not> flag then Some f
     else
       (let h = pread f 56 0
        in if length h \<noteq> 56 then None
           else
             let f1 = pwrite f (take 12 (drop OFF_BACKUP_LIST h)) 0;
                 f2 = write_db f1 (word_at h 11) (take TAB_SZ (drop OFF_BACKUP_TAB h));
                 f3 = write_db f2 (add32 (word_at h 12) BLOCK_LEN) (take 4 h)
             in Some (neg_backup f3))}"

definition start_backup :: "kfile \<Rightarrow> nat \<Rightarrow> kfile option" where
  "start_backup f pos = do {
     t \<leftarrow> read_db f pos TAB_SZ;
     let fl = pread f 12 0;
     if length fl \<noteq> 12 then None
     else Some (pwrite f (fl @ fl @ t @ bytes32 pos @ bytes32 0 @ [1, 0, 0, 0]) 0)}"

definition check_backup :: "kfile \<Rightarrow> nat \<Rightarrow> bool option" where
  "check_backup f key_pos = do {
     flag \<leftarrow> backup_flag f;
     if flag then map_option (\<lambda>p. p = key_pos) (pread32 f OFF_BACKUP_KEY) else Some False}"

section \<open>Operations\<close>

text \<open>The search both calls make: the last table looked at, its offset, and whether it has the key.\<close>

partial_function (option) find_tab :: "kfile \<Rightarrow> u8 list \<Rightarrow> nat \<Rightarrow> (nat \<times> ktab \<times> bool) option" where
  "find_tab f key off = do {
     t \<leftarrow> read_tab f off;
     if t_next t = 0 then Some (off, t, False)
     else do {
       str \<leftarrow> read_str f (t_key t);
       e \<leftarrow> string_cmp f key str;
       if e then Some (off, t, True) else find_tab f key (t_next t)}}"

definition kvdb_put_real :: "kfile \<Rightarrow> u8 list \<Rightarrow> u8 list \<Rightarrow> kfile option" where
  "kvdb_put_real f key val = do {
     (cur_off, t, found) \<leftarrow> find_tab f key 0;
     f1 \<leftarrow> start_backup f cur_off;
     (v, f2) \<leftarrow> alloc_str f1 val;
     let t1 = t\<lparr>t_value := v, t_value_len := length val mod 2 ^ 32\<rparr>;
     if found then add_free_list (write_db f2 cur_off (tab_bytes t1)) (t_value t)
     else do {
       (k, f3) \<leftarrow> alloc_str f2 key;
       (e, f4) \<leftarrow> get_end f3 TAB_SZ;
       let t2 = t1\<lparr>t_key := k, t_key_len := length key mod 2 ^ 32, t_next := sub32 e HEADER_LEN\<rparr>;
       Some (write_db (write_db f4 (t_next t2) (replicate TAB_SZ 0)) cur_off (tab_bytes t2))}}"

definition kvdb_put :: "kfile \<Rightarrow> u8 list \<Rightarrow> u8 list \<Rightarrow> kfile option" where
  "kvdb_put f key val = do {
     f1 \<leftarrow> recov_backup f;
     f2 \<leftarrow> kvdb_put_real f1 key val;
     Some (neg_backup f2)}"

text \<open>\<open>Some None\<close> is a null pointer.  A string longer than the buffer for it overruns the heap: \<open>None\<close>.\<close>

definition kvdb_get :: "kfile \<Rightarrow> u8 list \<Rightarrow> u8 list option option" where
  "kvdb_get f key = do {
     (off, t, found) \<leftarrow> find_tab f key 0;
     if \<not> found then Some None
     else do {
       b \<leftarrow> check_backup f (t_key t);
       t1 \<leftarrow> (if b then (let bs = pread f TAB_SZ OFF_BACKUP_TAB in if length bs = TAB_SZ then Some (tab_of bs) else None)
              else Some t);
       str \<leftarrow> read_str f (t_value t1);
       s \<leftarrow> string_cpy f str;
       if t_value_len t1 < length s then None else Some (Some (cstr s))}}"

text \<open>Opening a file shorter than a header formats it.\<close>

definition kvdb_open :: "kfile \<Rightarrow> kfile" where
  "kvdb_open f = (if length (pread f HEADER_LEN 0) < HEADER_LEN then init_db f else f)"

text \<open>The pairs \<^verbatim>\<open>kvdb_traverse\<close> prints.\<close>

partial_function (option) kvdb_traverse :: "kfile \<Rightarrow> nat \<Rightarrow> (u8 list \<times> u8 list) list option" where
  "kvdb_traverse f off = do {
     t \<leftarrow> read_tab f off;
     if t_next t = 0 then Some []
     else do {
       ks \<leftarrow> read_str f (t_key t);
       k \<leftarrow> string_cpy f ks;
       vs \<leftarrow> read_str f (t_value t);
       v \<leftarrow> string_cpy f vs;
       rest \<leftarrow> kvdb_traverse f (t_next t);
       Some ((cstr k, cstr v) # rest)}}"

end
