(* ===== verification/Kvdb_Blocks.thy ===== *)
theory Kvdb_Blocks
  imports Kvdb
begin

text \<open>
  Strings in chains of blocks: what a chain in the file stands for, comparison and copying, and the
  allocation of a string from the free list and the end of the file.
\<close>

section \<open>Bytes of the file\<close>

definition view :: "kfile \<Rightarrow> nat \<Rightarrow> nat \<Rightarrow> u8 list" where
  "view f a n = map (kf_mem f) [a..<a + n]"

definition gw :: "kfile \<Rightarrow> nat \<Rightarrow> nat" where
  "gw f a = le_bytes (view f a 4)"

lemma length_view [simp]: "length (view f a n) = n"
  by (simp add: view_def)

lemma view_nth: "i < n \<Longrightarrow> view f a n ! i = kf_mem f (a + i)"
  by (simp add: view_def)

lemma view_add: "view f a (m + n) = view f a m @ view f (a + m) n"
proof -
  have "[a..<a + (m + n)] = [a..<a + m] @ [a + m..<a + m + n]"
    using upt_add_eq_append [of a "a + m" n] by (simp add: add.assoc)
  then show ?thesis by (simp only: view_def map_append)
qed

lemma pread_view: "a + n \<le> kf_len f \<Longrightarrow> pread f n a = view f a n"
  by (simp add: pread_def view_def min_def)

lemma pread32_gw: "a + 4 \<le> kf_len f \<Longrightarrow> pread32 f a = Some (gw f a)"
  by (simp add: pread32_def pread_view gw_def)

lemma gw_less: "gw f a < 2 ^ 32"
  using le_bytes_less [of "view f a 4"] by (simp add: gw_def)

lemma read_db_view: "256 + a + n \<le> kf_len f \<Longrightarrow> 256 + a < 2 ^ 32 \<Longrightarrow> read_db f a n = Some (view f (256 + a) n)"
  by (simp add: read_db_def HEADER_LEN_def add32_eq pread_view)

lemma write_db_pwrite: "256 + a < 2 ^ 32 \<Longrightarrow> write_db f a bs = pwrite f bs (256 + a)"
  by (simp add: write_db_def HEADER_LEN_def add32_eq)

text \<open>What a step leaves alone: every byte of the file outside \<open>R\<close>.\<close>

definition keep :: "kfile \<Rightarrow> kfile \<Rightarrow> nat set \<Rightarrow> bool" where
  "keep f f' R \<longleftrightarrow> kf_len f \<le> kf_len f' \<and> (\<forall>x < kf_len f. x \<notin> R \<longrightarrow> kf_mem f' x = kf_mem f x)"

lemma keep_refl: "keep f f R"
  by (simp add: keep_def)

lemma keep_trans: "keep f g R \<Longrightarrow> keep g h R' \<Longrightarrow> R \<subseteq> S \<Longrightarrow> R' \<subseteq> S \<Longrightarrow> keep f h S"
  unfolding keep_def by (metis (no_types, lifting) less_le_trans order_trans subsetD)

lemma keep_mono: "keep f g R \<Longrightarrow> R \<subseteq> S \<Longrightarrow> keep f g S"
  by (auto simp: keep_def)

lemma keep_pwrite: "keep f (pwrite f bs a) {a..<a + length bs}"
  by (auto simp: keep_def pwrite_def put_def)

lemma len_pwrite [simp]: "kf_len (pwrite f bs a) = max (kf_len f) (a + length bs)"
  by (simp add: pwrite_def)

lemma view_keep: "keep f f' R \<Longrightarrow> a + n \<le> kf_len f \<Longrightarrow> {a..<a + n} \<inter> R = {} \<Longrightarrow> view f' a n = view f a n"
  by (auto simp: keep_def view_def disjoint_iff)

lemma gw_keep: "keep f f' R \<Longrightarrow> a + 4 \<le> kf_len f \<Longrightarrow> {a..<a + 4} \<inter> R = {} \<Longrightarrow> gw f' a = gw f a"
  using view_keep [of f f' R a 4] by (simp add: gw_def)

lemma view_pwrite: "view (pwrite f bs a) a (length bs) = bs"
  by (rule nth_equalityI) (auto simp: view_def pwrite_def put_def)

lemma gw_pwrite: "v < 2 ^ 32 \<Longrightarrow> gw (pwrite f (bytes32 v) a) a = v"
  using view_pwrite [of f "bytes32 v" a] by (simp add: gw_def le_bytes32)

section \<open>Chains\<close>

definition info :: "kfile \<Rightarrow> nat \<Rightarrow> u8 list" where
  "info f b = view f (256 + b) 28"

definition nxt :: "kfile \<Rightarrow> nat \<Rightarrow> nat" where
  "nxt f b = gw f (256 + b + 28)"

definition cell :: "nat \<Rightarrow> nat set" where
  "cell b = {256 + b..<256 + b + 32}"

definition room :: "kfile \<Rightarrow> nat \<Rightarrow> bool" where
  "room f b \<longleftrightarrow> 256 + b + 32 \<le> kf_len f \<and> 256 + b + 32 < 2 ^ 32 \<and> 0 < b"

fun links :: "kfile \<Rightarrow> nat list \<Rightarrow> bool" where
  "links f [] \<longleftrightarrow> False"
| "links f [b] \<longleftrightarrow> room f b \<and> nxt f b = 0"
| "links f (b # c # bs) \<longleftrightarrow> room f b \<and> nxt f b = c \<and> links f (c # bs)"

fun str_in :: "kfile \<Rightarrow> u8 list \<Rightarrow> nat list \<Rightarrow> bool" where
  "str_in f s [] \<longleftrightarrow> False"
| "str_in f s [b] \<longleftrightarrow> room f b \<and> nxt f b = 0 \<and> s \<noteq> [] \<and> length s \<le> 28 \<and> info f b = s @ replicate (28 - length s) 0"
| "str_in f s (b # c # bs) \<longleftrightarrow>
     room f b \<and> nxt f b = c \<and> 28 < length s \<and> info f b = take 28 s \<and> str_in f (drop 28 s) (c # bs)"

lemma str_links: "str_in f s bs \<Longrightarrow> links f bs"
  by (induction f s bs rule: str_in.induct) auto

lemma links_room: "links f bs \<Longrightarrow> b \<in> set bs \<Longrightarrow> room f b"
  by (induction f bs rule: links.induct) auto

lemma links_split: "links f (xs @ b # ys) \<Longrightarrow> links f (b # ys)"
proof (induction xs)
  case (Cons x xs)
  then show ?case by (cases "xs @ b # ys") auto
qed simp

lemma room_keep: "keep f f' R \<Longrightarrow> room f b \<Longrightarrow> room f' b"
  by (auto simp: keep_def room_def)

lemma cell_keep:
  assumes "keep f f' R" "room f b" "cell b \<inter> R = {}"
  shows "info f' b = info f b" "nxt f' b = nxt f b"
proof -
  have "{256 + b..<256 + b + 28} \<inter> R = {}" "{256 + b + 28..<256 + b + 28 + 4} \<inter> R = {}"
    using assms(3) by (auto simp: cell_def disjoint_iff)
  then show "info f' b = info f b" "nxt f' b = nxt f b"
    using assms(1,2) view_keep [of f f' R "256 + b" 28] gw_keep [of f f' R "256 + b + 28"]
    by (simp_all add: info_def nxt_def room_def)
qed

lemma links_keep: "keep f f' R \<Longrightarrow> \<forall>b\<in>set bs. cell b \<inter> R = {} \<Longrightarrow> links f bs \<Longrightarrow> links f' bs"
  by (induction f bs rule: links.induct) (auto simp: room_keep cell_keep)

lemma str_keep: "keep f f' R \<Longrightarrow> \<forall>b\<in>set bs. cell b \<inter> R = {} \<Longrightarrow> str_in f s bs \<Longrightarrow> str_in f' s bs"
  by (induction f s bs rule: str_in.induct) (auto simp: room_keep cell_keep)

text \<open>Comparing and copying.\<close>

definition block_at :: "kfile \<Rightarrow> nat \<Rightarrow> kstring" where
  "block_at f b = \<lparr>s_info = info f b, s_next = nxt f b\<rparr>"

lemma read_str_block: "room f b \<Longrightarrow> read_str f b = Some (block_at f b)"
  using view_add [of f "256 + b" 28 4]
  by (simp add: read_str_def STRING_SZ_def read_db_view room_def block_at_def BLOCK_LEN_def info_def nxt_def gw_def)

lemma cstr_pad: "0 \<notin> set s \<Longrightarrow> cstr (s @ replicate n 0) = s"
  by (induction s) (auto simp: cstr_def takeWhile_eq_Nil_iff)

lemma cstr_id: "0 \<notin> set s \<Longrightarrow> cstr s = s"
  using cstr_pad [of s 0] by simp

lemma string_cmp_str:
  "str_in f s bs \<Longrightarrow> 0 \<notin> set s \<Longrightarrow> length s mod 28 \<noteq> 0 \<Longrightarrow>
     string_cmp f key (block_at f (hd bs)) = Some (key = s)"
proof (induction f s bs arbitrary: key rule: str_in.induct)
  case (2 f s b)
  have "take 28 key = s \<longleftrightarrow> key = s"
    using 2 by (cases "length key \<le> 28") auto
  then show ?case using 2
    by (subst string_cmp.simps) (auto simp: block_at_def strn_eq_def cstr_pad BLOCK_LEN_def)
next
  case (3 f s b c bs)
  have z: "0 \<notin> set (take 28 s)" "0 \<notin> set (drop 28 s)"
    using 3(3) by (auto dest: in_set_takeD in_set_dropD)
  have c: "room f c" "0 < c" using links_room [OF str_links, of f "drop 28 s" "c # bs" c] 3(2) by (auto simp: room_def)
  have m: "length (drop 28 s) mod 28 \<noteq> 0" using 3(2,4) by (simp add: le_mod_geq)
  have split: "key = s \<longleftrightarrow> take 28 key = take 28 s \<and> drop 28 key = drop 28 s"
    by (metis append_take_drop_id)
  show ?case
  proof (cases "take 28 key = take 28 s")
    case True
    have "length (take 28 key) = 28" unfolding True using 3(2) by simp
    then have "28 \<le> length key" by (simp add: min_def split: if_splits)
    then have "string_cmp f key (block_at f b) = string_cmp f (drop 28 key) (block_at f c)"
      using True 3(2) c z(1) read_str_block [OF c(1)]
      by (subst string_cmp.simps) (simp add: block_at_def strn_eq_def cstr_id BLOCK_LEN_def)
    also have "\<dots> = Some (drop 28 key = drop 28 s)" using 3(1) [of "drop 28 key"] 3(2) z(2) m by simp
    finally show ?thesis using True split by simp
  next
    case False
    then show ?thesis using 3(2) c z(1)
      by (subst string_cmp.simps) (auto simp: block_at_def strn_eq_def cstr_id BLOCK_LEN_def)
  qed
qed simp

lemma string_cpy_str:
  "str_in f s bs \<Longrightarrow> 0 \<notin> set s \<Longrightarrow> string_cpy f (block_at f (hd bs)) = Some s"
proof (induction f s bs rule: str_in.induct)
  case (2 f s b)
  have "replicate 4 (0 :: u8) = [0, 0, 0, 0]" by (intro nth_equalityI) (auto simp: less_Suc_eq nth_Cons')
  then have "bytes32 0 = replicate 4 0" by (simp add: bytes32_def)
  then have "replicate (28 - length s) 0 @ bytes32 0 = (replicate (28 - length s + 4) 0 :: u8 list)"
    by (simp only: replicate_add)
  then have "cstr (s @ replicate (28 - length s) 0 @ bytes32 0) = s"
    using cstr_pad [of s "28 - length s + 4"] 2 by (simp only: simp_thms)
  then show ?case using 2 by (subst string_cpy.simps) (simp add: block_at_def)
next
  case (3 f s b c bs)
  have z: "0 \<notin> set (take 28 s)" "0 \<notin> set (drop 28 s)"
    using 3(3) by (auto dest: in_set_takeD in_set_dropD)
  have c: "room f c" "0 < c" using links_room [OF str_links, of f "drop 28 s" "c # bs" c] 3(2) by (auto simp: room_def)
  have "string_cpy f (block_at f c) = Some (drop 28 s)" using 3(1,2) z(2) by simp
  then show ?case using 3(2) c z(1) read_str_block [OF c(1)]
    by (subst string_cpy.simps) (simp add: block_at_def cstr_id BLOCK_LEN_def)
qed simp

end
