(* ===== verification/Kvdb_Alloc.thy ===== *)
theory Kvdb_Alloc
  imports Kvdb_Blocks
begin

text \<open>
  Allocating a string: the blocks come from the front of the free list, whose tail always stays,
  and then from the end of the file; nothing else of the file changes but the header.
\<close>

text \<open>The bytes of the header an allocation may change: the head, the size and the backup, not the tail or the flag.\<close>

definition hdr :: "nat set" where
  "hdr = {0..<4} \<union> {8..<52}"

definition cells :: "nat list \<Rightarrow> nat set" where
  "cells bs = (\<Union>b\<in>set bs. cell b)"

lemma blocks_simps [simp]: "cells [] = {}" "cells (b # bs) = cell b \<union> cells bs" "cells (xs @ ys) = cells xs \<union> cells ys"
  by (auto simp: cells_def)

definition apart :: "nat \<Rightarrow> nat \<Rightarrow> bool" where
  "apart b c \<longleftrightarrow> cell b \<inter> cell c = {}"

lemma blocks_apart_sym: "apart b c \<Longrightarrow> apart c b"
  by (auto simp: apart_def)

lemma cell_hdr: "cell b \<inter> hdr = {}"
  by (auto simp: cell_def hdr_def)

lemma cell_order: "b + 32 \<le> c \<Longrightarrow> cell b \<inter> cell c = {}"
  by (auto simp: cell_def)

fun path :: "kfile \<Rightarrow> nat list \<Rightarrow> nat \<Rightarrow> bool" where
  "path f [] q \<longleftrightarrow> True"
| "path f [b] q \<longleftrightarrow> room f b \<and> nxt f b = q"
| "path f (b # c # bs) q \<longleftrightarrow> room f b \<and> nxt f b = c \<and> path f (c # bs) q"

lemma path_keep: "keep f f' R \<Longrightarrow> \<forall>b\<in>set bs. cell b \<inter> R = {} \<Longrightarrow> path f bs q \<Longrightarrow> path f' bs q"
  by (induction f bs q rule: path.induct) (auto simp: room_keep cell_keep)

lemma links_path: "links f (bs @ [q]) \<longleftrightarrow> path f bs q \<and> links f [q]"
  by (induction f bs q rule: path.induct) auto

lemma path_tl: "path f (b # bs) q \<Longrightarrow> path f bs q"
  by (cases bs) auto

section \<open>One turn of the loop\<close>

lemma fill_block_spec:
  assumes "src \<noteq> []"
  shows "keep f (fill_block f cur src) (cell cur)" "256 + cur + 28 \<le> kf_len (fill_block f cur src)"
    "info (fill_block f cur src) cur = take 28 src @ replicate (28 - length src) 0"
proof -
  show "keep f (fill_block f cur src) (cell cur)"
  proof (cases "length src < 28")
    case True
    then have "fill_block f cur src = pwrite (pwrite f (replicate 28 0) (256 + cur)) src (256 + cur)"
      by (simp add: fill_block_def BLOCK_LEN_def HEADER_LEN_def add.commute)
    then show ?thesis
      using True by (simp only:, intro keep_trans [OF keep_pwrite keep_pwrite]) (auto simp: cell_def)
  next
    case False
    then have "fill_block f cur src = pwrite f (take 28 src) (256 + cur)"
      by (simp add: fill_block_def BLOCK_LEN_def HEADER_LEN_def add.commute)
    then show ?thesis using False by (simp only:, intro keep_mono [OF keep_pwrite]) (auto simp: cell_def)
  qed
  show "256 + cur + 28 \<le> kf_len (fill_block f cur src)"
    by (auto simp: fill_block_def BLOCK_LEN_def HEADER_LEN_def)
  show "info (fill_block f cur src) cur = take 28 src @ replicate (28 - length src) 0"
  proof (cases "length src < 28")
    case True
    let ?g = "pwrite f (replicate 28 0) (256 + cur)"
    have z: "view ?g (256 + cur) 28 = replicate 28 0" using view_pwrite [of f "replicate 28 0" "256 + cur"] by simp
    have "view (pwrite ?g src (256 + cur)) (256 + cur + length src) (28 - length src) =
        view ?g (256 + cur + length src) (28 - length src)"
      using True by (intro view_keep [OF keep_pwrite]) auto
    also have "\<dots> = drop (length src) (view ?g (256 + cur) 28)"
      using view_add [of ?g "256 + cur" "length src" "28 - length src"] True by simp
    also have "\<dots> = replicate (28 - length src) 0" unfolding z by simp
    finally show ?thesis
      using view_add [of "pwrite ?g src (256 + cur)" "256 + cur" "length src" "28 - length src"]
        view_pwrite [of ?g src "256 + cur"] True
      by (simp add: info_def fill_block_def BLOCK_LEN_def HEADER_LEN_def add.commute)
  next
    case False
    then have "length (take 28 src) = 28" by simp
    then have "view (pwrite f (take 28 src) (256 + cur)) (256 + cur) 28 = take 28 src"
      using view_pwrite [of f "take 28 src" "256 + cur"] by (simp only:)
    then show ?thesis using False
      by (simp add: info_def fill_block_def BLOCK_LEN_def HEADER_LEN_def add.commute)
  qed
qed

lemma get_end_spec:
  assumes "256 \<le> kf_len f" "gw f 8 = sz" "sz + n < 2 ^ 32"
  shows "get_end f n = Some (sz, pwrite f (bytes32 (sz + n)) 8)" "gw (pwrite f (bytes32 (sz + n)) 8) 8 = sz + n"
    "keep f (pwrite f (bytes32 (sz + n)) 8) hdr"
  using assms by (auto simp: get_end_def OFF_SIZE_def pread32_gw add32_eq gw_pwrite hdr_def
      intro: keep_mono [OF keep_pwrite])

lemma next_block_spec:
  assumes "256 \<le> kf_len f" "gw f 8 = sz" "256 \<le> sz" "sz + 32 < 2 ^ 32"
    and "flag \<Longrightarrow> room f prev \<and> nxt f prev = c"
  shows "\<exists>g. next_block f flag list1 prev short =
      Some (g, flag \<and> c \<noteq> list1, if flag \<and> c \<noteq> list1 then c else sz - 256) \<and>
    keep f g hdr \<and> gw g 8 = (if flag \<and> c \<noteq> list1 then sz else sz + 32)"
proof -
  have e: "sub32 sz HEADER_LEN = sz - 256" using assms(3,4) by (simp add: HEADER_LEN_def sub32_eq)
  show ?thesis
  proof (cases flag)
    case False
    then show ?thesis using get_end_spec [OF assms(1,2,4)] e by (simp add: next_block_def STRING_SZ_def)
  next
    case True
    then have rd: "pread32 f (prev + BLOCK_LEN + HEADER_LEN) = Some c"
      using assms(5) pread32_gw [of "256 + prev + 28" f]
      by (simp add: room_def nxt_def BLOCK_LEN_def HEADER_LEN_def add.commute add.left_commute)
    define f1 where "f1 = (if short then pwrite f (bytes32 prev) OFF_BACKUP_PREV else f)"
    have k1: "keep f f1 hdr"
      using keep_pwrite [of f "bytes32 prev" 48] by (auto simp: f1_def OFF_BACKUP_PREV_def keep_refl hdr_def intro: keep_mono)
    have s1: "gw f1 8 = sz"
      using assms(1,2) gw_keep [OF keep_pwrite, of 8 f 48 "bytes32 prev"] by (auto simp: f1_def OFF_BACKUP_PREV_def)
    define f2 where "f2 = pwrite f1 (bytes32 list1) 0"
    have k2: "keep f1 f2 hdr" using keep_pwrite [of f1 "bytes32 list1" 0] by (auto simp: f2_def hdr_def intro: keep_mono)
    have l: "256 \<le> kf_len f1" "256 \<le> kf_len f2" using assms(1) k1 k2 by (auto simp: keep_def)
    have s2: "gw f2 8 = sz" unfolding f2_def using s1 l gw_keep [OF keep_pwrite, of 8 f1 0 "bytes32 list1"] by auto
    note g = get_end_spec [OF l(2) s2 assms(4)]
    have k: "keep f (pwrite f2 (bytes32 (sz + 32)) 8) hdr"
      using keep_trans [OF keep_trans [OF k1 k2 order_refl order_refl] g(3) order_refl order_refl] .
    show ?thesis using True rd k1 s1 g k e
      by (auto simp: next_block_def f1_def [symmetric] f2_def [symmetric] STRING_SZ_def)
  qed
qed

lemma end_block_spec:
  assumes "256 + prev + 28 \<le> kf_len f" "256 + prev + 32 < 2 ^ 32" "cur < 2 ^ 32" "256 \<le> kf_len f"
  shows "keep f (end_block f flag prev cur again) (hdr \<union> {256 + prev + 28..<256 + prev + 32})"
    "256 + prev + 32 \<le> kf_len (end_block f flag prev cur again)"
    "nxt (end_block f flag prev cur again) prev = (if again then cur else 0)"
    "gw (end_block f flag prev cur again) 8 = gw f 8"
proof -
  define g where "g = (if again then f else if flag then pwrite f (bytes32 cur) 0 else f)"
  define v where "v = (if again then cur else 0)"
  have e: "end_block f flag prev cur again = pwrite g (bytes32 v) (256 + prev + 28)"
    using assms(2) by (auto simp: end_block_def g_def v_def write_db_def add32_eq HEADER_LEN_def BLOCK_LEN_def add.assoc)
  have kg: "keep f g hdr"
    using keep_pwrite [of f "bytes32 cur" 0] by (auto simp: g_def keep_refl hdr_def intro: keep_mono)
  have kp: "keep g (pwrite g (bytes32 v) (256 + prev + 28)) {256 + prev + 28..<256 + prev + 32}"
    using keep_pwrite [of g "bytes32 v" "256 + prev + 28"] by simp
  show "keep f (end_block f flag prev cur again) (hdr \<union> {256 + prev + 28..<256 + prev + 32})"
    unfolding e by (rule keep_trans [OF kg kp]) auto
  show "256 + prev + 32 \<le> kf_len (end_block f flag prev cur again)" unfolding e by simp
  have "v < 2 ^ 32" using assms(3) by (simp add: v_def)
  then show "nxt (end_block f flag prev cur again) prev = (if again then cur else 0)"
    unfolding e nxt_def by (simp only: gw_pwrite v_def)
  have "gw g 8 = gw f 8" using gw_keep [OF keep_pwrite, of 8 f 0 "bytes32 cur"] assms(4) by (auto simp: g_def)
  moreover have "gw (pwrite g (bytes32 v) (256 + prev + 28)) 8 = gw g 8"
    using kg assms(4) by (intro gw_keep [OF kp]) (auto simp: keep_def)
  ultimately show "gw (end_block f flag prev cur again) 8 = gw f 8" unfolding e by simp
qed

lemma alloc_step:
  fixes c list1 sz :: nat and flag :: bool
  assumes "src \<noteq> []" "256 \<le> kf_len f" "gw f 8 = sz" "256 + cur + 32 \<le> sz" "sz + 32 < 2 ^ 32" "0 < cur"
    and "flag \<Longrightarrow> room f cur \<and> nxt f cur = c" "c < 2 ^ 32"
  defines "c' \<equiv> if flag \<and> c \<noteq> list1 then c else sz - 256"
  shows "\<exists>g. alloc_loop f flag list1 cur src = alloc_loop g (flag \<and> c \<noteq> list1) list1 c' (drop 28 src) \<and>
    keep f g (hdr \<union> cell cur) \<and> room g cur \<and> info g cur = take 28 src @ replicate (28 - length src) 0 \<and>
    nxt g cur = (if 28 < length src then c' else 0) \<and> gw g 8 = (if flag \<and> c \<noteq> list1 then sz else sz + 32)"
proof -
  let ?f1 = "fill_block f cur src"
  note fb = fill_block_spec [OF assms(1), where f = f and cur = cur]
  have l1: "256 \<le> kf_len ?f1" using assms(2) fb(1) by (simp add: keep_def)
  have s1: "gw ?f1 8 = sz" using assms(2,3) by (subst gw_keep [OF fb(1)]) (auto simp: cell_def)
  have n1: "room ?f1 cur \<and> nxt ?f1 cur = c" if flag
  proof -
    have "room f cur" "nxt f cur = c" using assms(7) that by auto
    moreover have k: "keep f ?f1 {256 + cur..<256 + cur + 28}"
    proof (cases "length src < 28")
      case True
      then have "?f1 = pwrite (pwrite f (replicate 28 0) (256 + cur)) src (256 + cur)"
        by (simp add: fill_block_def BLOCK_LEN_def HEADER_LEN_def add.commute)
      then show ?thesis using keep_trans [OF keep_pwrite keep_pwrite] True by simp
    next
      case False
      then have "?f1 = pwrite f (take 28 src) (256 + cur)"
        by (simp add: fill_block_def BLOCK_LEN_def HEADER_LEN_def add.commute)
      moreover have "length (take 28 src) = 28" using False by simp
      then have "256 + cur + length (take 28 src) = 256 + cur + 28" by (simp only:)
      ultimately show ?thesis using keep_pwrite [of f "take 28 src" "256 + cur"] by (simp only:)
    qed
    ultimately show ?thesis
      using room_keep [OF k] gw_keep [OF k, of "256 + cur + 28"] by (simp add: nxt_def room_def)
  qed
  have sz: "256 \<le> sz" using assms(4) by simp
  obtain f2 where f2: "next_block ?f1 flag list1 cur (length src < BLOCK_LEN) = Some (f2, flag \<and> c \<noteq> list1, c')"
    "keep ?f1 f2 hdr" "gw f2 8 = (if flag \<and> c \<noteq> list1 then sz else sz + 32)"
    using next_block_spec [OF l1 s1 sz assms(5) n1] unfolding c'_def by blast
  have l2: "256 + cur + 28 \<le> kf_len f2" "256 \<le> kf_len f2" using f2(2) fb(2) l1 by (auto simp: keep_def)
  have b: "256 + cur + 32 < 2 ^ 32" "c' < 2 ^ 32" using assms(4,5,8) by (auto simp: c'_def)
  note eb = end_block_spec [OF l2(1) b l2(2), where flag = "flag \<and> c \<noteq> list1" and again = "28 < length src"]
  let ?g = "end_block f2 (flag \<and> c \<noteq> list1) cur c' (28 < length src)"
  have kb: "keep f f2 (hdr \<union> cell cur)" by (rule keep_trans [OF fb(1) f2(2)]) auto
  have k: "keep f ?g (hdr \<union> cell cur)" by (rule keep_trans [OF kb eb(1)]) (auto simp: cell_def)
  have "info ?g cur = info f2 cur"
    using l2 unfolding info_def by (intro view_keep [OF eb(1)]) (auto simp: hdr_def)
  also have "\<dots> = info ?f1 cur"
    using fb(2) unfolding info_def by (intro view_keep [OF f2(2)]) (auto simp: hdr_def)
  finally have "info ?g cur = take 28 src @ replicate (28 - length src) 0" using fb(3) by simp
  moreover have "alloc_loop f flag list1 cur src = alloc_loop ?g (flag \<and> c \<noteq> list1) list1 c' (drop 28 src)"
    using assms(1) f2(1) by (subst alloc_loop.simps) (simp add: BLOCK_LEN_def)
  moreover have "room ?g cur" using eb(2) b(1) assms(6) by (simp add: room_def)
  moreover have "gw ?g 8 = (if flag \<and> c \<noteq> list1 then sz else sz + 32)" using eb(4) f2(3) by (rule trans)
  ultimately show ?thesis using k eb(3) by (intro exI [of _ ?g] conjI)
qed

section \<open>The whole loop\<close>

lemma path_less: "path f (b # bs) q \<Longrightarrow> nxt f b = (case bs of [] \<Rightarrow> q | c # _ \<Rightarrow> c)" "path f (b # bs) q \<Longrightarrow> room f b"
  by (cases bs; simp)+

lemma str_in_Cons:
  assumes "room f b" "s \<noteq> []" "info f b = take 28 s @ replicate (28 - length s) 0"
    and "nxt f b = (if 28 < length s then hd bs else 0)"
    and "if 28 < length s then str_in f (drop 28 s) bs else bs = []"
  shows "str_in f s (b # bs)"
  using assms by (cases bs) (auto split: if_splits)

lemma alloc_loop_spec:
  assumes "src \<noteq> []" "ps \<noteq> []" "256 \<le> kf_len f" "gw f 8 = sz"
    and "sz + 32 * (length src div 28 + 1) < 2 ^ 32" "\<forall>b\<in>set ps. 0 < b \<and> 256 + b + 32 \<le> sz" "sorted_wrt apart ps"
    and "if flag then path f ps list1 \<and> list1 \<notin> set ps else length ps = 1"
  shows "\<exists>g flag' cur p fr sz'. alloc_loop f flag list1 (hd ps) src = Some (g, flag', cur) \<and>
    str_in g src (p @ fr) \<and>
    (if flag' then flag \<and> fr = [] \<and> (\<exists>rest. ps = p @ rest \<and> rest \<noteq> [] \<and> cur = hd rest) else p = ps) \<and>
    sorted_wrt apart fr \<and> (\<forall>b\<in>set fr. sz \<le> 256 + b \<and> 256 + b + 32 \<le> sz') \<and>
    sz \<le> sz' \<and> sz' \<le> sz + 32 * (length src div 28 + 1) \<and> gw g 8 = sz' \<and> keep f g (hdr \<union> cells (p @ fr))"
  using assms
proof (induction "length src" arbitrary: src f flag ps sz rule: less_induct)
  case less
  obtain cur ps' where ps: "ps = cur # ps'" using less.prems(2) by (cases ps) auto
  define c where "c = (case ps' of [] \<Rightarrow> list1 | b # _ \<Rightarrow> b) mod 2 ^ 32"
  have fl: "room f cur \<and> nxt f cur = (case ps' of [] \<Rightarrow> list1 | b # _ \<Rightarrow> b)" if flag
    using less.prems(8) that path_less [of f cur ps' list1] by (simp add: ps)
  have c: "nxt f cur = c" "c = (case ps' of [] \<Rightarrow> list1 | b # _ \<Rightarrow> b)" if flag
  proof -
    have "nxt f cur < 2 ^ 32" unfolding nxt_def by (rule gw_less)
    then show "nxt f cur = c" "c = (case ps' of [] \<Rightarrow> list1 | b # _ \<Rightarrow> b)" using fl that by (simp_all add: c_def)
  qed
  have fl': "room f cur \<and> nxt f cur = c" if flag using fl c that by simp
  have cl: "c < 2 ^ 32" by (simp add: c_def)
  have cur: "0 < cur" "256 + cur + 32 \<le> sz" using less.prems(6) by (auto simp: ps)
  have sz: "sz + 32 < 2 ^ 32" using less.prems(5) by simp
  define stay where "stay \<longleftrightarrow> flag \<and> c \<noteq> list1"
  define c' where "c' = (if stay then c else sz - 256)"
  define sz1 where "sz1 = (if stay then sz else sz + 32)"
  have stay: "stay \<longleftrightarrow> flag \<and> ps' \<noteq> []"
    using c less.prems(8) by (auto simp: stay_def ps split: list.splits)
  then have nstay: "\<not> stay \<Longrightarrow> ps' = []" using less.prems(8) by (auto simp: ps)
  obtain g where g: "alloc_loop f flag list1 cur src = alloc_loop g stay list1 c' (drop 28 src)"
    "keep f g (hdr \<union> cell cur)" "room g cur" "info g cur = take 28 src @ replicate (28 - length src) 0"
    "nxt g cur = (if 28 < length src then c' else 0)" "gw g 8 = sz1"
    using alloc_step [where flag = flag and c = c and ?list1.0 = list1, OF less.prems(1,3,4) cur(2) sz cur(1) _ cl] fl'
    unfolding stay_def c'_def sz1_def by blast
  show ?case
  proof (cases "28 < length src")
    case False
    then have "alloc_loop f flag list1 (hd ps) src = Some (g, stay, c')" using g(1) by (simp add: ps alloc_loop.simps)
    moreover have "str_in g src [cur]" using g(3-5) less.prems(1) False by (intro str_in_Cons) auto
    moreover have "if stay then flag \<and> ps = [cur] @ ps' \<and> ps' \<noteq> [] \<and> c' = hd ps' else [cur] = ps"
      using stay nstay c by (auto simp: ps c'_def split: list.splits)
    moreover have "keep f g (hdr \<union> cells ([cur] @ []))" using g(2) by simp
    moreover have "sz \<le> sz1" "sz1 \<le> sz + 32 * (length src div 28 + 1)" by (auto simp: sz1_def)
    ultimately show ?thesis using g(6)
      by (intro exI [of _ g] exI [of _ stay] exI [of _ c'] exI [of _ "[cur]"] exI [of _ "[]"] exI [of _ sz1])
        (auto split: if_splits)
  next
    case True
    define ps2 where "ps2 = (if stay then ps' else [sz - 256])"
    have hd2: "hd ps2 = c'" "ps2 \<noteq> []"
      using stay c by (auto simp: ps2_def c'_def split: list.splits)
    have div: "length (drop 28 src) div 28 + 1 = length src div 28" using True by (simp add: le_div_geq)
    have l: "256 \<le> kf_len g" using less.prems(3) g(2) by (simp add: keep_def)
    have dis: "cell b \<inter> cell cur = {}" if "b \<in> set ps'" for b
      using less.prems(7) that by (auto simp: ps apart_def)
    have 1: "drop 28 src \<noteq> []" "length (drop 28 src) < length src" using True by auto
    have 2: "sz1 + 32 * (length (drop 28 src) div 28 + 1) < 2 ^ 32"
      using less.prems(5) unfolding div by (auto simp: sz1_def)
    have 3: "\<forall>b\<in>set ps2. 0 < b \<and> 256 + b + 32 \<le> sz1"
      using less.prems(6) cur by (auto simp: ps2_def sz1_def ps)
    have 4: "sorted_wrt apart ps2" using less.prems(7) by (simp add: ps2_def ps)
    have 5: "if stay then path g ps2 list1 \<and> list1 \<notin> set ps2 else length ps2 = 1"
    proof -
      have "\<forall>b\<in>set ps'. cell b \<inter> (hdr \<union> cell cur) = {}" using dis cell_hdr by blast
      then show ?thesis
        using less.prems(8) path_tl [of f cur ps' list1] path_keep [OF g(2), of ps' list1] stay
        by (auto simp: ps2_def ps)
    qed
    obtain h flag' e p fr sz' where h: "alloc_loop g stay list1 c' (drop 28 src) = Some (h, flag', e)"
      "str_in h (drop 28 src) (p @ fr)"
      "if flag' then stay \<and> fr = [] \<and> (\<exists>rest. ps2 = p @ rest \<and> rest \<noteq> [] \<and> e = hd rest) else p = ps2"
      "sorted_wrt apart fr" "\<forall>b\<in>set fr. sz1 \<le> 256 + b \<and> 256 + b + 32 \<le> sz'" "sz1 \<le> sz'"
      "sz' \<le> sz1 + 32 * (length (drop 28 src) div 28 + 1)" "gw h 8 = sz'" "keep g h (hdr \<union> cells (p @ fr))"
      using less.hyps [OF 1(2) 1(1) hd2(2) l g(6) 2 3 4 5] unfolding hd2(1) by blast
    have ne: "p \<noteq> []" using h(2,3) hd2(2) by (cases flag') auto
    have p: "hd p = c'" "set p \<subseteq> set ps2" using h(3) hd2(1) ne by (auto split: if_splits)
    have far: "cell b \<inter> cell cur = {}" if "b \<in> set (p @ fr)" for b
    proof (cases "b \<in> set ps'")
      case True
      then show ?thesis by (rule dis)
    next
      case False
      then have "sz \<le> 256 + b" using that p(2) h(5) cur by (fastforce simp: ps2_def sz1_def split: if_splits)
      then show ?thesis using cell_order [of cur b] cur by auto
    qed
    have "cell cur \<inter> (hdr \<union> cells (p @ fr)) = {}"
      using far cell_hdr [of cur] by (auto simp: cells_def)
    note at = cell_keep [OF h(9) g(3) this] room_keep [OF h(9) g(3)]
    have str: "str_in h src (cur # p @ fr)"
      using at g(4,5) True less.prems(1) h(2) ne p(1) by (intro str_in_Cons) auto
    have k: "keep f h (hdr \<union> cells (cur # p @ fr))"
      by (rule keep_trans [OF g(2) h(9)]) auto
    have fin: "alloc_loop f flag list1 (hd ps) src = Some (h, flag', e)" using g(1) h(1) by (simp add: ps)
    have bound: "sz \<le> sz'" "sz' \<le> sz + 32 * (length src div 28 + 1)"
      using h(6,7) unfolding div by (auto simp: sz1_def split: if_splits)
    show ?thesis
    proof (cases stay)
      case True
      then have "if flag' then flag \<and> fr = [] \<and> (\<exists>rest. ps = (cur # p) @ rest \<and> rest \<noteq> [] \<and> e = hd rest) else cur # p = ps"
        using h(3) stay by (auto simp: ps2_def ps split: if_splits)
      moreover have "\<forall>b\<in>set fr. sz \<le> 256 + b \<and> 256 + b + 32 \<le> sz'" using h(5) True by (simp add: sz1_def)
      ultimately show ?thesis using fin str k bound h(4,8)
        by (intro exI [of _ h] exI [of _ flag'] exI [of _ e] exI [of _ "cur # p"] exI [of _ fr] exI [of _ sz']) simp
    next
      case False
      then have f: "\<not> flag'" "p = [sz - 256]" using h(3) by (auto simp: ps2_def split: if_splits)
      have "sorted_wrt apart (p @ fr)"
        using h(4,5) f(2) False cur by (auto simp: apart_def sz1_def intro!: cell_order)
      moreover have "\<forall>b\<in>set (p @ fr). sz \<le> 256 + b \<and> 256 + b + 32 \<le> sz'"
        using h(5,6) f(2) False cur by (auto simp: sz1_def)
      moreover have "ps = [cur]" using nstay False by (simp add: ps)
      ultimately show ?thesis using fin str k bound h(8) f(1)
        by (intro exI [of _ h] exI [of _ flag'] exI [of _ e] exI [of _ "[cur]"] exI [of _ "p @ fr"] exI [of _ sz']) simp
    qed
  qed
qed

section \<open>Strings and the free list\<close>

text \<open>The free list, and the end of the file.\<close>

definition free_ok :: "kfile \<Rightarrow> nat list \<Rightarrow> nat \<Rightarrow> bool" where
  "free_ok f fs sz \<longleftrightarrow> 256 \<le> kf_len f \<and> links f fs \<and> gw f 0 = hd fs \<and> gw f 4 = last fs \<and> gw f 8 = sz \<and>
     sorted_wrt apart fs \<and> (\<forall>b\<in>set fs. 256 + b + 32 \<le> sz) \<and> 256 < sz"

lemma links_last: "links f (bs @ [q]) \<Longrightarrow> links f [q]"
  by (simp add: links_path)

lemma alloc_str_spec:
  assumes "free_ok f fs sz" "src \<noteq> []" "sz + 32 * (length src div 28 + 2) < 2 ^ 32"
  shows "\<exists>g p fr fs' sz'. alloc_str f src = Some (hd (p @ fr), g) \<and> fs = p @ fs' \<and> str_in g src (p @ fr) \<and>
    free_ok g fs' sz' \<and> sorted_wrt apart fr \<and> (\<forall>b\<in>set fr. sz \<le> 256 + b \<and> 256 + b + 32 \<le> sz') \<and>
    sz \<le> sz' \<and> sz' \<le> sz + 32 * (length src div 28 + 2) \<and> keep f g (hdr \<union> cells (p @ fr))"
proof -
  have f: "256 \<le> kf_len f" "links f fs" "gw f 0 = hd fs" "gw f 4 = last fs" "gw f 8 = sz" "sorted_wrt apart fs"
    "\<forall>b\<in>set fs. 256 + b + 32 \<le> sz" "256 < sz" using assms(1) by (auto simp: free_ok_def)
  obtain qs q where fs: "fs = qs @ [q]" using f(2) by (cases fs rule: rev_cases) auto
  have path: "path f qs q" "links f [q]" using f(2) by (auto simp: fs links_path)
  have apart: "q \<notin> set qs" "\<forall>b\<in>set qs. cell b \<inter> cell q = {}"
    using f(6) by (auto simp: fs sorted_wrt_append apart_def cell_def)
  have rd: "pread32 f 0 = Some (hd fs)" "pread32 f OFF_TAIL = Some q"
    using f pread32_gw [of 0 f] pread32_gw [of 4 f] by (simp_all add: OFF_TAIL_def fs)
  define flag where "flag \<longleftrightarrow> qs \<noteq> []"
  have hd: "hd fs \<noteq> q \<longleftrightarrow> flag" using apart(1) by (cases qs) (auto simp: fs flag_def)
  define f1 where "f1 = (if flag then f else pwrite f (bytes32 (sz + 32)) 8)"
  define ps where "ps = (if flag then qs else [sz - 256])"
  define sz1 where "sz1 = (if flag then sz else sz + 32)"
  have end': "get_end f STRING_SZ = Some (sz, pwrite f (bytes32 (sz + 32)) 8)"
    "gw (pwrite f (bytes32 (sz + 32)) 8) 8 = sz + 32" "keep f (pwrite f (bytes32 (sz + 32)) 8) hdr"
    using get_end_spec [OF f(1,5), of 32] assms(3) by (simp_all add: STRING_SZ_def)
  have e: "sub32 sz HEADER_LEN = sz - 256" using f(8) assms(3) by (simp add: HEADER_LEN_def sub32_eq)
  have start: "(if flag then Some (hd fs, f) else map_option (\<lambda>(e, g). (sub32 e HEADER_LEN, g)) (get_end f STRING_SZ)) =
      Some (hd ps, f1)"
    using e end'(1) by (auto simp: f1_def ps_def fs flag_def)
  have k1: "keep f f1 hdr" "gw f1 8 = sz1" using end' f(5) by (auto simp: f1_def sz1_def keep_refl)
  have l1: "256 \<le> kf_len f1" using f(1) k1 by (simp add: keep_def)
  have pre: "ps \<noteq> []" "sz1 + 32 * (length src div 28 + 1) < 2 ^ 32" "\<forall>b\<in>set ps. 0 < b \<and> 256 + b + 32 \<le> sz1"
    "sorted_wrt apart ps" "if flag then path f1 ps q \<and> q \<notin> set ps else length ps = 1"
  proof -
    show "ps \<noteq> []" by (simp add: ps_def flag_def)
    show "sz1 + 32 * (length src div 28 + 1) < 2 ^ 32" using assms(3) by (auto simp: sz1_def)
    show "\<forall>b\<in>set ps. 0 < b \<and> 256 + b + 32 \<le> sz1"
      using f(7,8) links_room [OF f(2)] by (auto simp: ps_def sz1_def fs room_def)
    show "sorted_wrt apart ps" using f(6) by (simp add: ps_def fs sorted_wrt_append)
    show "if flag then path f1 ps q \<and> q \<notin> set ps else length ps = 1"
      using path(1) apart(1) by (simp add: ps_def f1_def)
  qed
  obtain g flag' cur p fr sz' where h: "alloc_loop f1 flag q (hd ps) src = Some (g, flag', cur)" "str_in g src (p @ fr)"
    "if flag' then flag \<and> fr = [] \<and> (\<exists>rest. ps = p @ rest \<and> rest \<noteq> [] \<and> cur = hd rest) else p = ps"
    "sorted_wrt apart fr" "\<forall>b\<in>set fr. sz1 \<le> 256 + b \<and> 256 + b + 32 \<le> sz'" "sz1 \<le> sz'"
    "sz' \<le> sz1 + 32 * (length src div 28 + 1)" "gw g 8 = sz'" "keep f1 g (hdr \<union> cells (p @ fr))"
    using alloc_loop_spec [OF assms(2) pre(1) l1 k1(2) pre(2-5)] by blast
  define head where "head = (if flag' then cur else q)"
  define g' where "g' = pwrite g (bytes32 head) 0"
  have run: "alloc_str f src = Some (hd ps, g')"
    using rd start h(1) by (simp add: alloc_str_def hd f1_def g'_def head_def del: option.map)
  have lg: "256 \<le> kf_len g" using l1 h(9) by (simp add: keep_def)
  have kg: "keep g g' {0..<4}" using keep_pwrite [of g "bytes32 head" 0] by (simp add: g'_def)
  have k: "keep f g' (hdr \<union> cells (p @ fr))"
    by (rule keep_trans [OF keep_trans [OF k1(1) h(9), of "hdr \<union> cells (p @ fr)"] kg]) (auto simp: hdr_def)
  have all: "cell b \<inter> {0..<4} = {}" for b by (auto simp: cell_def)
  have str: "str_in g' src (p @ fr)" using str_keep [OF kg _ h(2)] all by blast
  obtain P FR rest where P: "fs = P @ rest @ [q]" "p @ fr = P @ FR" "head = hd (rest @ [q])" "sorted_wrt apart FR"
    "\<forall>b\<in>set FR. sz \<le> 256 + b \<and> 256 + b + 32 \<le> sz'" "hd ps = hd (p @ fr)"
  proof (cases flag')
    case True
    then obtain rest where r: "flag" "fr = []" "ps = p @ rest" "rest \<noteq> []" "cur = hd rest" using h(3) by auto
    then have "p \<noteq> []" using h(2) by auto
    show thesis
      by (rule that [of p rest "[]"]) (use r \<open>p \<noteq> []\<close> True in \<open>simp_all add: fs ps_def head_def\<close>)
  next
    case F: False
    then have p: "p = ps" using h(3) by simp
    show thesis
    proof (cases flag)
      case True
      show thesis
        by (rule that [of qs "[]" fr]) (use F True p h(4,5) pre(1) in \<open>simp_all add: fs ps_def sz1_def head_def\<close>)
    next
      case False
      have "sorted_wrt apart ((sz - 256) # fr)"
        using h(4,5) False f(8) by (auto simp: apart_def sz1_def intro!: cell_order)
      moreover have "\<forall>b\<in>set ((sz - 256) # fr). sz \<le> 256 + b \<and> 256 + b + 32 \<le> sz'"
        using h(5,6) False f(8) by (auto simp: sz1_def)
      ultimately show thesis
        by (intro that [of "[]" "[]" "(sz - 256) # fr"])
          (use F False p in \<open>simp_all add: fs ps_def head_def flag_def\<close>)
    qed
  qed
  have fs': "\<forall>b\<in>set (rest @ [q]). cell b \<inter> (hdr \<union> cells (P @ FR)) = {}"
  proof
    fix b assume b: "b \<in> set (rest @ [q])"
    have "cell b \<inter> cell c = {}" if c: "c \<in> set P" for c
      using f(6) b c unfolding P(1) sorted_wrt_append apart_def by blast
    moreover have "cell b \<inter> cell c = {}" if "c \<in> set FR" for c
    proof -
      have "256 + b + 32 \<le> sz" using f(7) b by (auto simp: P(1))
      moreover have "sz \<le> 256 + c" using P(5) that by blast
      ultimately show ?thesis by (intro cell_order) simp
    qed
    ultimately show "cell b \<inter> (hdr \<union> cells (P @ FR)) = {}" using cell_hdr [of b] by (auto simp: cells_def)
  qed
  have "links f (rest @ [q])" using f(2) links_split [of f P] unfolding P(1) by (cases "rest @ [q]") auto
  then have "links g' (rest @ [q])" using links_keep [OF k _] fs' unfolding P(2) by blast
  moreover have "gw g' 0 = hd (rest @ [q])"
  proof -
    have "head \<in> set fs" unfolding P(1,3) by (cases rest) auto
    then have "head < 2 ^ 32" using links_room [OF f(2), of head] by (simp add: room_def)
    then show ?thesis unfolding g'_def P(3) by (rule gw_pwrite)
  qed
  moreover have "gw g' 4 = q"
  proof -
    have "{4..<4 + 4} \<inter> (hdr \<union> cells (p @ fr)) = {}" by (auto simp: hdr_def cells_def cell_def)
    then show ?thesis using gw_keep [OF k, of 4] f(1,4) by (simp add: fs)
  qed
  moreover have "gw g' 8 = sz'" using gw_keep [OF kg, of 8] lg h(8) by simp
  moreover have "256 \<le> kf_len g'" using lg kg by (simp add: keep_def)
  moreover have bnd: "sz \<le> sz'" "sz' \<le> sz + 32 * (length src div 28 + 2)" using h(6,7) by (auto simp: sz1_def split: if_splits)
  moreover have "\<forall>b\<in>set (rest @ [q]). 256 + b + 32 \<le> sz'"
  proof
    fix b assume "b \<in> set (rest @ [q])"
    then have "256 + b + 32 \<le> sz" using f(7) by (auto simp: P(1))
    then show "256 + b + 32 \<le> sz'" using bnd(1) by simp
  qed
  moreover have "sorted_wrt apart (rest @ [q])" using f(6) by (simp add: P(1) sorted_wrt_append)
  ultimately have "free_ok g' (rest @ [q]) sz'"
    using f(8) by (simp add: free_ok_def)
  then show ?thesis using run P k str bnd
    by (intro exI [of _ g'] exI [of _ P] exI [of _ FR] exI [of _ "rest @ [q]"] exI [of _ sz']) simp
qed

text \<open>Putting the blocks of a string back.\<close>

lemma last_block_links:
  "links f bs \<Longrightarrow> last_block f prev (hd bs) = Some (last bs)"
proof (induction f bs arbitrary: prev rule: links.induct)
  case (2 f b)
  have "read_db f (add32 b BLOCK_LEN) 4 = Some (view f (256 + b + 28) 4)"
    using 2 read_db_view [of "b + 28" 4 f] by (simp add: room_def add32_eq BLOCK_LEN_def add.assoc)
  then show ?case using 2
    by (subst last_block.simps, subst last_block.simps) (simp add: room_def nxt_def gw_def)
next
  case (3 f b c bs)
  then have r: "room f b" by simp
  have "read_db f (add32 b BLOCK_LEN) 4 = Some (view f (256 + b + 28) 4)"
    using r read_db_view [of "b + 28" 4 f] by (simp add: room_def add32_eq BLOCK_LEN_def add.assoc)
  then have "last_block f prev (hd (b # c # bs)) = last_block f b c"
    using 3(2) r by (subst last_block.simps) (simp add: room_def nxt_def gw_def)
  then show ?case using 3 by simp
qed simp

lemma links_append:
  "links f xs \<Longrightarrow> links f ys \<Longrightarrow> keep f g R \<Longrightarrow> \<forall>b\<in>set xs. cell b \<inter> R \<subseteq> {256 + last xs + 28..<256 + last xs + 32} \<Longrightarrow>
   \<forall>b\<in>set ys. cell b \<inter> R = {} \<Longrightarrow> sorted_wrt apart xs \<Longrightarrow> nxt g (last xs) = hd ys \<Longrightarrow> links g (xs @ ys)"
proof (induction f xs rule: links.induct)
  case (2 f b)
  then show ?case using links_keep [OF 2(3,5,2)] room_keep [OF 2(3)] by (cases ys) auto
next
  case (3 f b c bs)
  have "last (c # bs) \<in> set (c # bs)" by (rule last_in_set) simp
  then have "cell b \<inter> cell (last (c # bs)) = {}" using 3(7) unfolding sorted_wrt.simps apart_def by blast
  moreover have "cell b \<inter> R \<subseteq> {256 + last (c # bs) + 28..<256 + last (c # bs) + 32}" using 3(5) by simp
  ultimately have "cell b \<inter> R = {}" by (auto simp: cell_def)
  then have "room g b" "nxt g b = c" using cell_keep [OF 3(4)] room_keep [OF 3(4)] 3(2) by auto
  then show ?case using 3 by simp
qed simp

lemma add_free_list_spec:
  assumes "free_ok f fs sz" "links f vs" "sorted_wrt apart (fs @ vs)" "\<forall>b\<in>set vs. 256 + b + 32 \<le> sz"
  shows "\<exists>g. add_free_list f (hd vs) = Some g \<and> free_ok g (fs @ vs) sz \<and>
    keep f g ({4..<8} \<union> {256 + last fs + 28..<256 + last fs + 32})"
proof -
  have f: "256 \<le> kf_len f" "links f fs" "gw f 0 = hd fs" "gw f 4 = last fs" "gw f 8 = sz" "sorted_wrt apart fs"
    "\<forall>b\<in>set fs. 256 + b + 32 \<le> sz" "256 < sz" using assms(1) by (auto simp: free_ok_def)
  have ne: "fs \<noteq> []" "vs \<noteq> []" using f(2) assms(2) by auto
  have r: "room f (last fs)" "room f (hd vs)" "room f (last vs)" using links_room f(2) assms(2) ne by simp_all
  define f1 where "f1 = pwrite f (bytes32 (hd vs)) (256 + last fs + 28)"
  have w: "write_db f (add32 (last fs) BLOCK_LEN) (bytes32 (hd vs)) = f1"
    using r(1) by (simp add: f1_def write_db_pwrite room_def add32_eq BLOCK_LEN_def add.assoc)
  have k1: "keep f f1 {256 + last fs + 28..<256 + last fs + 32}"
    using keep_pwrite [of f "bytes32 (hd vs)" "256 + last fs + 28"] by (simp add: f1_def)
  have far: "cell b \<inter> {256 + last fs + 28..<256 + last fs + 32} = {}" if "b \<in> set vs" for b
  proof -
    have "cell b \<inter> cell (last fs) = {}"
      using assms(3) that last_in_set [OF ne(1)] unfolding sorted_wrt_append apart_def by blast
    then show ?thesis by (auto simp: cell_def)
  qed
  have links1: "links f1 vs" using links_keep [OF k1 _ assms(2)] far by blast
  have "hd vs < 2 ^ 32" using r(2) by (simp add: room_def)
  then have n1: "nxt f1 (last fs) = hd vs" unfolding f1_def nxt_def by (rule gw_pwrite)
  have all: "links f1 (fs @ vs)"
    using links_append [OF f(2) assms(2) k1 _ _ f(6) n1] far by blast
  define g where "g = pwrite f1 (bytes32 (last vs)) 4"
  have k2: "keep f1 g {4..<8}" using keep_pwrite [of f1 "bytes32 (last vs)" 4] by (simp add: g_def)
  have run: "add_free_list f (hd vs) = Some g"
    using pread32_gw [of 4 f] f(1,4) w last_block_links [OF links1, of "hd vs"]
    by (simp add: add_free_list_def OFF_TAIL_def g_def)
  have k: "keep f g ({4..<8} \<union> {256 + last fs + 28..<256 + last fs + 32})" by (rule keep_trans [OF k1 k2]) auto
  have "links g (fs @ vs)" using links_keep [OF k2 _ all] by (auto simp: cell_def)
  moreover have "{0..<0 + 4} \<inter> ({4..<8} \<union> {256 + last fs + 28..<256 + last fs + 32}) = {}"
    "{8..<8 + 4} \<inter> ({4..<8} \<union> {256 + last fs + 28..<256 + last fs + 32}) = {}" by auto
  then have "gw g 0 = hd fs" "gw g 8 = sz" using gw_keep [OF k _ _] f(1,3,5) by simp_all
  moreover have "gw g 4 = last vs" unfolding g_def by (rule gw_pwrite) (use r(3) in \<open>simp add: room_def\<close>)
  moreover have "256 \<le> kf_len g" using f(1) k by (simp add: keep_def)
  ultimately have "free_ok g (fs @ vs) sz"
    using ne assms(3,4) f(7,8) by (auto simp: free_ok_def)
  then show ?thesis using run k by blast
qed

end
