(* ===== verification/Kvdb_Map.thy ===== *)
theory Kvdb_Map
  imports Kvdb_Alloc
begin

text \<open>
  The store as a map from keys to values: where its parts lie in the file, and the proofs that
  looking up and putting act on the map.
\<close>

section \<open>Where everything lies\<close>

type_synonym kv_entry = "u8 list \<times> u8 list \<times> nat list \<times> nat list"

definition tcell :: "nat \<Rightarrow> nat set" where
  "tcell t = {256 + t..<256 + t + 20}"

definition tabrec :: "kfile \<Rightarrow> nat \<Rightarrow> ktab" where
  "tabrec f t = \<lparr>t_next = gw f (256 + t), t_key = gw f (256 + t + 4), t_key_len = gw f (256 + t + 8),
     t_value = gw f (256 + t + 12), t_value_len = gw f (256 + t + 16)\<rparr>"

fun entry :: "kfile \<Rightarrow> nat \<Rightarrow> nat \<Rightarrow> kv_entry \<Rightarrow> bool" where
  "entry f t t' (k, v, kb, vb) \<longleftrightarrow>
     t' \<noteq> 0 \<and> tabrec f t = \<lparr>t_next = t', t_key = hd kb, t_key_len = length k, t_value = hd vb, t_value_len = length v\<rparr> \<and>
     str_in f k kb \<and> str_in f v vb \<and> 0 \<notin> set k \<and> 0 \<notin> set v \<and> length k mod 28 \<noteq> 0"

definition hits :: "nat \<Rightarrow> nat list \<Rightarrow> nat" where
  "hits x bs = length (filter (\<lambda>b. x \<in> cell b) bs)"

definition thits :: "nat \<Rightarrow> nat list \<Rightarrow> nat" where
  "thits x ts = length (filter (\<lambda>t. x \<in> tcell t) ts)"

definition ehits :: "nat \<Rightarrow> kv_entry list \<Rightarrow> nat" where
  "ehits x es = sum_list (map (\<lambda>(k, v, kb, vb). hits x kb + hits x vb) es)"

text \<open>How many parts of the store a byte of the file belongs to.\<close>

definition cover :: "nat list \<Rightarrow> kv_entry list \<Rightarrow> nat list \<Rightarrow> nat \<Rightarrow> nat" where
  "cover ts es fs x = thits x ts + ehits x es + hits x fs"

definition db_ok :: "kfile \<Rightarrow> nat list \<Rightarrow> kv_entry list \<Rightarrow> nat list \<Rightarrow> nat \<Rightarrow> bool" where
  "db_ok f ts es fs sz \<longleftrightarrow>
     free_ok f fs sz \<and> sz < 2 ^ 32 \<and> kf_mem f 52 = 0 \<and> length ts = Suc (length es) \<and> ts ! 0 = 0 \<and>
     (\<forall>i < length es. entry f (ts ! i) (ts ! Suc i) (es ! i)) \<and> gw f (256 + ts ! length es) = 0 \<and>
     (\<forall>t\<in>set ts. 256 + t + 20 \<le> kf_len f \<and> 256 + t + 20 \<le> sz) \<and>
     (\<forall>(k, v, kb, vb)\<in>set es. \<forall>b\<in>set (kb @ vb). 256 + b + 32 \<le> sz) \<and>
     (\<forall>x. cover ts es fs x \<le> 1)"

definition db_map :: "kv_entry list \<Rightarrow> u8 list \<Rightarrow> u8 list option" where
  "db_map es = map_of (map (\<lambda>(k, v, kb, vb). (k, v)) es)"

lemma hits_simps [simp]: "hits x [] = 0" "hits x (xs @ ys) = hits x xs + hits x ys"
  by (simp_all add: hits_def)

lemma thits_simps [simp]: "thits x [] = 0" "thits x (xs @ ys) = thits x xs + thits x ys"
  "thits x (t # ts) = (if x \<in> tcell t then 1 else 0) + thits x ts"
  by (simp_all add: thits_def)

lemma ehits_simps [simp]: "ehits x [] = 0" "ehits x (xs @ ys) = ehits x xs + ehits x ys"
  "ehits x ((k, v, kb, vb) # es) = hits x kb + hits x vb + ehits x es"
  by (simp_all add: ehits_def)

lemma hits_pos: "b \<in> set bs \<Longrightarrow> x \<in> cell b \<Longrightarrow> 1 \<le> hits x bs"
  using filter_empty_conv [of "\<lambda>b. x \<in> cell b" bs] by (auto simp: hits_def Suc_le_eq)

lemma thits_pos: "t \<in> set ts \<Longrightarrow> x \<in> tcell t \<Longrightarrow> 1 \<le> thits x ts"
  using filter_empty_conv [of "\<lambda>b. x \<in> tcell b" ts] by (auto simp: thits_def Suc_le_eq)

lemma hits_0: "x \<notin> cells bs \<Longrightarrow> hits x bs = 0"
  by (auto simp: hits_def cells_def filter_empty_conv)

lemma apart_hits: "sorted_wrt apart bs \<longleftrightarrow> (\<forall>x. hits x bs \<le> 1)"
proof (induction bs)
  case (Cons b bs)
  have h: "hits x (b # bs) = (if x \<in> cell b then 1 else 0) + hits x bs" for x by (simp add: hits_def)
  show ?case
  proof
    assume s: "sorted_wrt apart (b # bs)"
    then have "x \<notin> cells bs" if "x \<in> cell b" for x using that by (auto simp: apart_def cells_def)
    then have "hits x bs = 0" if "x \<in> cell b" for x using that hits_0 by blast
    then show "\<forall>x. hits x (b # bs) \<le> 1" using s Cons by (simp add: h)
  next
    assume a: "\<forall>x. hits x (b # bs) \<le> 1"
    then have "\<forall>x. hits x bs \<le> 1" unfolding h by (metis add_leD2)
    moreover have "cell b \<inter> cell c = {}" if "c \<in> set bs" for c
    proof (rule ccontr)
      assume "cell b \<inter> cell c \<noteq> {}"
      then obtain x where "x \<in> cell b" "x \<in> cell c" by blast
      then show False using hits_pos [OF that, of x] a [rule_format, of x] by (simp add: h)
    qed
    then have "\<forall>c\<in>set bs. apart b c" by (simp add: apart_def)
    ultimately show "sorted_wrt apart (b # bs)" using Cons by simp
  qed
qed simp

lemma ehits_pos: "(k, v, kb, vb) \<in> set es \<Longrightarrow> b \<in> set kb \<union> set vb \<Longrightarrow> x \<in> cell b \<Longrightarrow> 1 \<le> ehits x es"
proof (induction es)
  case (Cons e es)
  obtain k' v' kb' vb' where e: "e = (k', v', kb', vb')" by (cases e)
  show ?case
  proof (cases "(k, v, kb, vb) = e")
    case True
    then show ?thesis using Cons.prems(2,3) hits_pos [of b kb x] hits_pos [of b vb x] by (auto simp: e)
  next
    case False
    then show ?thesis using Cons by (auto simp: e)
  qed
qed simp

text \<open>The parts a byte of the free list or of fresh blocks is apart from.\<close>

lemma cover_apart:
  assumes "\<forall>x. cover ts es fs x \<le> 1" "b \<in> set fs"
  shows "\<And>t. t \<in> set ts \<Longrightarrow> tcell t \<inter> cell b = {}"
    "\<And>k v kb vb c. (k, v, kb, vb) \<in> set es \<Longrightarrow> c \<in> set kb \<union> set vb \<Longrightarrow> cell c \<inter> cell b = {}"
proof -
  show "tcell t \<inter> cell b = {}" if "t \<in> set ts" for t
  proof (rule ccontr)
    assume "tcell t \<inter> cell b \<noteq> {}"
    then obtain x where "x \<in> tcell t" "x \<in> cell b" by blast
    then show False using thits_pos [OF that] hits_pos [OF assms(2)] assms(1) [rule_format, of x]
      by (force simp: cover_def)
  qed
  show "cell c \<inter> cell b = {}" if "(k, v, kb, vb) \<in> set es" "c \<in> set kb \<union> set vb" for k v kb vb c
  proof (rule ccontr)
    assume "cell c \<inter> cell b \<noteq> {}"
    then obtain x where "x \<in> cell c" "x \<in> cell b" by blast
    then show False using ehits_pos [OF that] hits_pos [OF assms(2)] assms(1) [rule_format, of x]
      by (force simp: cover_def)
  qed
qed

lemma cover_tabs:
  assumes "\<forall>x. cover ts es fs x \<le> 1" "i < length ts" "(k, v, kb, vb) \<in> set es" "c \<in> set kb \<union> set vb"
  shows "cell c \<inter> tcell (ts ! i) = {}"
proof (rule ccontr)
  assume "cell c \<inter> tcell (ts ! i) \<noteq> {}"
  then obtain x where "x \<in> cell c" "x \<in> tcell (ts ! i)" by blast
  then show False using thits_pos [OF nth_mem [OF assms(2)]] ehits_pos [OF assms(3,4)] assms(1) [rule_format, of x]
    by (force simp: cover_def)
qed

lemma cover_two_tabs:
  assumes "\<forall>x. cover ts es fs x \<le> 1" "i < length ts" "j < length ts" "i \<noteq> j"
  shows "tcell (ts ! i) \<inter> tcell (ts ! j) = {}"
proof (rule ccontr)
  assume "tcell (ts ! i) \<inter> tcell (ts ! j) \<noteq> {}"
  then obtain x where x: "x \<in> tcell (ts ! i)" "x \<in> tcell (ts ! j)" by blast
  have "{i, j} \<subseteq> {k. k < length ts \<and> x \<in> tcell (ts ! k)}" using x assms(2,3) by auto
  then have "card {i, j} \<le> card {k. k < length ts \<and> x \<in> tcell (ts ! k)}" by (intro card_mono) auto
  then have "2 \<le> thits x ts" using assms(4) by (simp add: thits_def length_filter_conv_card)
  then show False using assms(1) [rule_format, of x] by (simp add: cover_def)
qed

section \<open>Reading\<close>

lemma view_part: "m + n \<le> l \<Longrightarrow> take n (drop m (view f a l)) = view f (a + m) n"
  by (rule nth_equalityI) (auto simp: view_nth add.assoc)

lemma tab_of_view: "tab_of (view f (256 + t) 20) = tabrec f t"
proof -
  have "word_at (view f (256 + t) 20) i = gw f (256 + t + 4 * i)" if "i < 5" for i
    unfolding word_at_def gw_def by (subst view_part) (use that in auto)
  from this [of 0] this [of 1] this [of 2] this [of 3] this [of 4] show ?thesis by (simp add: tab_of_def tabrec_def)
qed

lemma read_tab_rec: "256 + t + 20 \<le> kf_len f \<Longrightarrow> 256 + t < 2 ^ 32 \<Longrightarrow> read_tab f t = Some (tabrec f t)"
  by (simp add: read_tab_def TAB_SZ_def read_db_view tab_of_view)

lemma tabrec_keep: "keep f g R \<Longrightarrow> 256 + t + 20 \<le> kf_len f \<Longrightarrow> tcell t \<inter> R = {} \<Longrightarrow> tabrec g t = tabrec f t"
proof -
  assume k: "keep f g R" "256 + t + 20 \<le> kf_len f" "tcell t \<inter> R = {}"
  have "gw g (256 + t + d) = gw f (256 + t + d)" if "d + 4 \<le> 20" for d
    using k that by (intro gw_keep [OF k(1)]) (auto simp: tcell_def disjoint_iff)
  from this [of 0] this [of 4] this [of 8] this [of 12] this [of 16] show ?thesis by (simp add: tabrec_def)
qed

lemma entry_keep:
  assumes "keep f g R" "256 + t + 20 \<le> kf_len f" "tcell t \<inter> R = {}" "\<forall>b\<in>set (kb @ vb). cell b \<inter> R = {}"
    and "entry f t t' (k, v, kb, vb)"
  shows "entry g t t' (k, v, kb, vb)"
  using assms tabrec_keep [OF assms(1-3)] str_keep [OF assms(1), of kb k] str_keep [OF assms(1), of vb v] by auto

lemma db_tab:
  assumes "db_ok f ts es fs sz" "i \<le> length es"
  shows "read_tab f (ts ! i) = Some (tabrec f (ts ! i))" "256 + ts ! i + 20 \<le> kf_len f" "256 + ts ! i + 20 < 2 ^ 32"
proof -
  have "ts ! i \<in> set ts" using assms by (simp add: db_ok_def)
  then have "256 + ts ! i + 20 \<le> kf_len f \<and> 256 + ts ! i + 20 \<le> sz" "sz < 2 ^ 32" using assms(1) by (auto simp: db_ok_def)
  then show "read_tab f (ts ! i) = Some (tabrec f (ts ! i))" "256 + ts ! i + 20 \<le> kf_len f" "256 + ts ! i + 20 < 2 ^ 32"
    by (auto intro: read_tab_rec)
qed

lemma find_tab_step:
  assumes "db_ok f ts es fs sz" "i < length es" "es ! i = (k, v, kb, vb)"
  shows "find_tab f key (ts ! i) =
    (if key = k then Some (ts ! i, tabrec f (ts ! i), True) else find_tab f key (ts ! Suc i))"
proof -
  have e: "entry f (ts ! i) (ts ! Suc i) (k, v, kb, vb)" using assms by (auto simp: db_ok_def)
  have "hd kb \<in> set kb" using e by (cases kb) auto
  then have "room f (hd kb)" using links_room [OF str_links] e by fastforce
  then have "read_str f (hd kb) = Some (block_at f (hd kb))" by (rule read_str_block)
  moreover have "string_cmp f key (block_at f (hd kb)) = Some (key = k)" using e by (intro string_cmp_str) auto
  ultimately show ?thesis using e db_tab(1) [OF assms(1), of i] assms(2)
    by (subst find_tab.simps) (simp add: )
qed

lemma find_tab_end:
  assumes "db_ok f ts es fs sz"
  shows "find_tab f key (ts ! length es) = Some (ts ! length es, tabrec f (ts ! length es), False)"
proof -
  have "gw f (256 + ts ! length es) = 0" using assms by (simp add: db_ok_def)
  then show ?thesis using db_tab(1) [OF assms order_refl] by (subst find_tab.simps) (simp add: tabrec_def)
qed

lemma find_tab_spec:
  assumes "db_ok f ts es fs sz"
  obtains (hit) es1 k v kb vb es2 where "es = es1 @ (k, v, kb, vb) # es2" "k = key" "\<forall>e\<in>set es1. fst e \<noteq> key"
      "find_tab f key 0 = Some (ts ! length es1, tabrec f (ts ! length es1), True)"
  | (miss) "\<forall>e\<in>set es. fst e \<noteq> key"
      "find_tab f key 0 = Some (ts ! length es, tabrec f (ts ! length es), False)"
proof -
  have skip: "find_tab f key (ts ! 0) = find_tab f key (ts ! n)" if "n \<le> length es" "\<forall>i<n. fst (es ! i) \<noteq> key" for n
    using that
  proof (induction n)
    case (Suc n)
    obtain k v kb vb where e: "es ! n = (k, v, kb, vb)" by (cases "es ! n") auto
    then have "key \<noteq> k" using Suc.prems(2) by auto
    then show ?case using Suc find_tab_step [OF assms _ e, of key] by simp
  qed simp
  have t0: "ts ! 0 = 0" using assms by (simp add: db_ok_def)
  show thesis
  proof (cases "\<exists>e\<in>set es. fst e = key")
    case True
    then obtain es1 e es2 where e: "es = es1 @ e # es2" "fst e = key" "\<forall>x\<in>set es1. fst x \<noteq> key"
      using split_list_first_prop [OF True] by blast
    obtain k v kb vb where e': "e = (k, v, kb, vb)" by (cases e)
    have "find_tab f key (ts ! 0) = find_tab f key (ts ! length es1)"
      using e by (intro skip) (auto simp: nth_append)
    also have "\<dots> = Some (ts ! length es1, tabrec f (ts ! length es1), True)"
      using find_tab_step [OF assms, of "length es1" k v kb vb key] e e' by simp
    finally show thesis using hit [of es1 k v kb vb es2] e e' t0 by simp
  next
    case False
    then have "find_tab f key (ts ! 0) = find_tab f key (ts ! length es)"
      by (intro skip) auto
    then show thesis using miss False find_tab_end [OF assms] t0 by auto
  qed
qed

lemma db_map_miss: "\<forall>e\<in>set es. fst e \<noteq> key \<Longrightarrow> db_map es key = None"
  by (auto simp: db_map_def map_of_eq_None_iff)

lemma db_map_hit: "\<forall>e\<in>set es1. fst e \<noteq> key \<Longrightarrow> db_map (es1 @ (key, v, kb, vb) # es2) key = Some v"
  using db_map_miss [of es1 key] by (simp add: db_map_def map_add_Some_iff)

lemma flag_clear: "db_ok f ts es fs sz \<Longrightarrow> backup_flag f = Some False"
proof -
  assume "db_ok f ts es fs sz"
  then have "256 \<le> kf_len f" "kf_mem f 52 = 0" by (auto simp: db_ok_def free_ok_def)
  then show ?thesis by (simp add: backup_flag_def OFF_BACKUP_FLAG_def pread_view view_def)
qed

lemma kvdb_get_map:
  assumes "db_ok f ts es fs sz"
  shows "kvdb_get f key = Some (db_map es key)"
  using assms
proof (cases rule: find_tab_spec [of f ts es fs sz key])
  case (hit es1 k v kb vb es2)
  have e: "entry f (ts ! length es1) (ts ! Suc (length es1)) (k, v, kb, vb)"
  proof -
    have "length es1 < length es" "es ! length es1 = (k, v, kb, vb)" using hit(1) by auto
    then show ?thesis using assms unfolding db_ok_def by metis
  qed
  have "hd vb \<in> set vb" using e by (cases vb) auto
  then have "room f (hd vb)" using links_room [OF str_links] e by fastforce
  then have r: "read_str f (hd vb) = Some (block_at f (hd vb))" by (rule read_str_block)
  have c: "string_cpy f (block_at f (hd vb)) = Some v" "cstr v = v" using e string_cpy_str cstr_id by auto
  have "check_backup f p = Some False" for p using flag_clear [OF assms] by (simp add: check_backup_def)
  then show ?thesis using e hit r c db_map_hit [OF hit(3)] by (simp add: kvdb_get_def)
next
  case miss
  then show ?thesis using db_map_miss [OF miss(1)] by (simp add: kvdb_get_def)
qed

section \<open>Steps of putting\<close>

lemma tab_bytes_back:
  assumes "t_next t < 2 ^ 32" "t_key t < 2 ^ 32" "t_key_len t < 2 ^ 32" "t_value t < 2 ^ 32" "t_value_len t < 2 ^ 32"
  shows "tab_of (tab_bytes t) = t"
  using assms by (simp add: tab_of_def tab_bytes_def word_at_def le_bytes32)

lemma length_tab_bytes [simp]: "length (tab_bytes t) = 20"
  by (simp add: tab_bytes_def)

lemma write_tab:
  assumes "256 + off < 2 ^ 32" "tab_of bs = t" "length bs = 20"
  shows "keep f (write_db f off bs) (tcell off)" "tabrec (write_db f off bs) off = t"
    "256 + off + 20 \<le> kf_len (write_db f off bs)"
proof -
  have w: "write_db f off bs = pwrite f bs (256 + off)" using assms(1) by (rule write_db_pwrite)
  show "keep f (write_db f off bs) (tcell off)"
    unfolding w using keep_pwrite [of f bs "256 + off"] assms(3) by (simp add: tcell_def)
  show "tabrec (write_db f off bs) off = t"
    unfolding w using view_pwrite [of f bs "256 + off"] tab_of_view [of "pwrite f bs (256 + off)" off] assms(2,3) by simp
  show "256 + off + 20 \<le> kf_len (write_db f off bs)" unfolding w using assms(3) by simp
qed

lemma free_keep:
  assumes "free_ok f fs sz" "keep f g R" "{0..<12} \<inter> R = {}" "\<forall>b\<in>set fs. cell b \<inter> R = {}"
  shows "free_ok g fs sz"
proof -
  have f: "256 \<le> kf_len f" "links f fs" using assms(1) by (auto simp: free_ok_def)
  have "gw g a = gw f a" if "a + 4 \<le> 12" for a
    using f(1) that assms(3) by (intro gw_keep [OF assms(2)]) (auto simp: disjoint_iff)
  from this [of 0] this [of 4] this [of 8] show ?thesis
    using assms(1) links_keep [OF assms(2,4) f(2)] assms(2) by (auto simp: free_ok_def keep_def)
qed

lemma start_backup_spec:
  assumes "256 \<le> kf_len f" "256 + t + 20 \<le> kf_len f" "256 + t < 2 ^ 32"
  shows "\<exists>g. start_backup f t = Some g \<and> keep f g {12..<56}"
proof -
  let ?bs = "view f 0 12 @ view f 0 12 @ view f (256 + t) 20 @ bytes32 t @ bytes32 0 @ [1, 0, 0, 0]"
  have "start_backup f t = Some (pwrite f ?bs 0)"
    using assms by (simp add: start_backup_def TAB_SZ_def read_db_view pread_view Let_def)
  moreover have "keep f (pwrite f ?bs 0) {12..<56}"
  proof -
    have "kf_mem (pwrite f ?bs 0) x = kf_mem f x" if "x < kf_len f" "x \<notin> {12..<56}" for x
      using that by (auto simp: pwrite_def put_def nth_append view_nth)
    then show ?thesis by (simp add: keep_def)
  qed
  ultimately show ?thesis by blast
qed

lemma neg_backup_spec: "keep f (neg_backup f) {52..<53}" "kf_mem (neg_backup f) 52 = 0"
  using keep_pwrite [of f "[0]" 52] by (simp_all add: neg_backup_def OFF_BACKUP_FLAG_def pwrite_def put_def)

lemma hits_range:
  "\<forall>b\<in>set fr. lo \<le> 256 + b \<and> 256 + b + 32 \<le> hi \<Longrightarrow> x < lo \<or> hi \<le> x \<Longrightarrow> hits x fr = 0"
  by (rule hits_0) (fastforce simp: cells_def cell_def)

lemma cover_beyond:
  assumes "db_ok f ts es fs sz" "sz \<le> x"
  shows "cover ts es fs x = 0"
proof -
  have "thits x ts = 0"
    using assms by (force simp: db_ok_def thits_def filter_empty_conv tcell_def)
  moreover have "hits x fs = 0"
    using assms by (intro hits_range [of _ 0 sz]) (auto simp: db_ok_def free_ok_def)
  moreover have "ehits x es = 0"
  proof -
    have "hits x kb + hits x vb = 0" if "(k, v, kb, vb) \<in> set es" for k v kb vb
    proof -
      have "\<forall>b\<in>set (kb @ vb). 0 \<le> 256 + b \<and> 256 + b + 32 \<le> sz" using assms(1) that by (fastforce simp: db_ok_def)
      then have "hits x (kb @ vb) = 0" using assms(2) by (intro hits_range [of _ 0 sz]) auto
      then show ?thesis by simp
    qed
    then show ?thesis by (auto simp: ehits_def sum_list_eq_0_iff)
  qed
  ultimately show ?thesis by (simp add: cover_def)
qed

text \<open>What a put touches besides the header: blocks of the free list, fresh parts and the given table.\<close>

definition touched :: "nat list \<Rightarrow> nat \<Rightarrow> nat \<Rightarrow> nat set" where
  "touched fs sz t = {0..<256} \<union> cells fs \<union> {sz..} \<union> tcell t"

lemma untouched:
  assumes "db_ok f ts es fs sz" "i < length ts"
  shows "\<And>j. j < length ts \<Longrightarrow> j \<noteq> i \<Longrightarrow> tcell (ts ! j) \<inter> touched fs sz (ts ! i) = {}"
    "\<And>k v kb vb b. (k, v, kb, vb) \<in> set es \<Longrightarrow> b \<in> set kb \<union> set vb \<Longrightarrow> cell b \<inter> touched fs sz (ts ! i) = {}"
proof -
  have c: "\<forall>x. cover ts es fs x \<le> 1" and sz: "\<forall>t\<in>set ts. 256 + t + 20 \<le> sz"
    and bs: "\<And>k v kb vb b. (k, v, kb, vb) \<in> set es \<Longrightarrow> b \<in> set kb \<union> set vb \<Longrightarrow> 256 + b + 32 \<le> sz"
    using assms(1) by (auto simp: db_ok_def)
  show "tcell (ts ! j) \<inter> touched fs sz (ts ! i) = {}" if j: "j < length ts" "j \<noteq> i" for j
  proof -
    have "256 + ts ! j + 20 \<le> sz" using sz j(1) by simp
    then have "tcell (ts ! j) \<inter> ({0..<256} \<union> {sz..}) = {}" by (auto simp: tcell_def)
    moreover have "tcell (ts ! j) \<inter> tcell (ts ! i) = {}" using cover_two_tabs [OF c j(1) assms(2) j(2)] .
    moreover have "tcell (ts ! j) \<inter> cells fs = {}"
      using cover_apart(1) [OF c _ nth_mem [OF j(1)]] by (auto simp: cells_def)
    ultimately show ?thesis by (auto simp: touched_def)
  qed
  show "cell b \<inter> touched fs sz (ts ! i) = {}" if b: "(k, v, kb, vb) \<in> set es" "b \<in> set kb \<union> set vb" for k v kb vb b
  proof -
    have "256 + b + 32 \<le> sz" using bs b by blast
    then have "cell b \<inter> ({0..<256} \<union> {sz..}) = {}" by (auto simp: cell_def)
    moreover have "cell b \<inter> tcell (ts ! i) = {}" using cover_tabs [OF c assms(2) b] .
    moreover have "cell b \<inter> cells fs = {}" using cover_apart(2) [OF c _ b] by (auto simp: cells_def)
    ultimately show ?thesis by (auto simp: touched_def)
  qed
qed

lemma entries_kept:
  assumes "db_ok f ts es fs sz" "keep f g (touched fs sz (ts ! i))" "i < length ts" "j < length es" "j \<noteq> i"
  shows "entry g (ts ! j) (ts ! Suc j) (es ! j)"
proof -
  obtain k v kb vb where e: "es ! j = (k, v, kb, vb)" by (cases "es ! j") auto
  have m: "(k, v, kb, vb) \<in> set es" using nth_mem [OF assms(4)] e by simp
  have l: "length ts = Suc (length es)" and en: "entry f (ts ! j) (ts ! Suc j) (k, v, kb, vb)"
    using assms(1,4) e by (auto simp: db_ok_def)
  have j: "j < length ts" using assms(4) l by simp
  show ?thesis unfolding e
    using entry_keep [OF assms(2) db_tab(2) [OF assms(1)] untouched(1) [OF assms(1,3) j assms(5)] _ en]
      untouched(2) [OF assms(1,3) m] assms(4) by auto
qed

end
