(* ===== verification/Kvdb_Put.thy ===== *)
theory Kvdb_Put
  imports Kvdb_Map
begin

text \<open>
  Putting a pair into the store: what it does to the layout, and histories of calls.
\<close>

definition good_pair :: "u8 list \<Rightarrow> u8 list \<Rightarrow> bool" where
  "good_pair key val \<longleftrightarrow> 0 \<notin> set key \<and> 0 \<notin> set val \<and> val \<noteq> [] \<and> length key mod 28 \<noteq> 0"

definition cost :: "u8 list \<Rightarrow> u8 list \<Rightarrow> nat" where
  "cost key val = 20 + 32 * (length key div 28 + length val div 28 + 4)"

lemma str_room: "str_in f s bs \<Longrightarrow> hd bs \<in> set bs \<and> room f (hd bs)"
  using links_room [OF str_links, of f s bs "hd bs"] by (cases bs) auto

lemma db_apart: "db_ok f ts es fs sz \<Longrightarrow> sorted_wrt apart fs"
  by (simp add: db_ok_def free_ok_def)

lemma cells_fresh: "\<forall>b\<in>set fr. sz \<le> 256 + b \<and> P b \<Longrightarrow> cells fr \<subseteq> {sz..}"
  by (auto simp: cells_def cell_def)

lemma touched_parts:
  "fs = p @ fs' \<Longrightarrow> \<forall>b\<in>set fr. sz \<le> 256 + b \<and> P b \<Longrightarrow> hdr \<union> cells (p @ fr) \<subseteq> touched fs sz t"
  using cells_fresh [of fr sz P] by (auto simp: touched_def hdr_def)

text \<open>Both kinds of put first save the header and store the value.\<close>

lemma value_step:
  assumes db: "db_ok f ts es fs sz" and i: "t \<in> set ts"
    and val: "val \<noteq> []" "sz + 32 * (length val div 28 + 2) < 2 ^ 32"
  shows "\<exists>f1 f2 p fr fs' sz'. start_backup f t = Some f1 \<and> alloc_str f1 val = Some (hd (p @ fr), f2) \<and>
    fs = p @ fs' \<and> str_in f2 val (p @ fr) \<and> free_ok f2 fs' sz' \<and> sorted_wrt apart fr \<and>
    (\<forall>b\<in>set fr. sz \<le> 256 + b \<and> 256 + b + 32 \<le> sz') \<and> sz \<le> sz' \<and> sz' \<le> sz + 32 * (length val div 28 + 2) \<and>
    keep f f2 (touched fs sz t)"
proof -
  have fo: "free_ok f fs sz" "256 \<le> kf_len f" using db by (auto simp: db_ok_def free_ok_def)
  have t: "256 + t + 20 \<le> kf_len f" "256 + t < 2 ^ 32" using db i by (fastforce simp: db_ok_def)+
  obtain f1 where f1: "start_backup f t = Some f1" "keep f f1 {12..<56}"
    using start_backup_spec [OF fo(2) t] by auto
  have fo1: "free_ok f1 fs sz" by (rule free_keep [OF fo(1) f1(2)]) (auto simp: cell_def)
  obtain f2 p fr fs' sz' where f2: "alloc_str f1 val = Some (hd (p @ fr), f2)" "fs = p @ fs'" "str_in f2 val (p @ fr)"
    "free_ok f2 fs' sz'" "sorted_wrt apart fr" "\<forall>b\<in>set fr. sz \<le> 256 + b \<and> 256 + b + 32 \<le> sz'" "sz \<le> sz'"
    "sz' \<le> sz + 32 * (length val div 28 + 2)" "keep f1 f2 (hdr \<union> cells (p @ fr))"
    using alloc_str_spec [OF fo1 val] by blast
  have "keep f f2 (touched fs sz t)"
  proof (rule keep_trans [OF f1(2) f2(9)])
    show "{12..<56} \<subseteq> touched fs sz t" by (auto simp: touched_def)
  qed (use touched_parts [OF f2(2,6)] in auto)
  then show ?thesis using f1(1) f2 by blast
qed

lemma parts_apart:
  assumes db: "db_ok f ts es fs sz" and fs: "fs = p @ fs'"
    and b: "b \<in> set (p @ fr)" "\<forall>b\<in>set fr. sz \<le> 256 + b \<and> P b"
  shows "t \<in> set ts \<Longrightarrow> cell b \<inter> tcell t = {}" "c \<in> set fs' \<Longrightarrow> cell b \<inter> cell c = {}"
proof -
  have cov: "\<forall>x. cover ts es fs x \<le> 1" and ap: "sorted_wrt apart fs" using db by (auto simp: db_ok_def free_ok_def)
  consider "b \<in> set p" | "sz \<le> 256 + b" using b by auto
  note two = this
  show "cell b \<inter> tcell t = {}" if t: "t \<in> set ts"
    using two
  proof cases
    case 1
    then show ?thesis using cover_apart(1) [OF cov _ t, of b] fs by (simp add: Int_commute)
  next
    case 2
    have "256 + t + 20 \<le> sz" using db t by (simp add: db_ok_def)
    then show ?thesis using 2 by (auto simp: tcell_def cell_def)
  qed
  show "cell b \<inter> cell c = {}" if c: "c \<in> set fs'"
    using two
  proof cases
    case 1
    then show ?thesis using ap c unfolding fs sorted_wrt_append apart_def by blast
  next
    case 2
    have "256 + c + 32 \<le> sz" using db c fs by (simp add: db_ok_def free_ok_def)
    then show ?thesis using 2 cell_order [of c b] by (simp add: Int_commute)
  qed
qed

lemma cover_fresh:
  assumes db: "db_ok f ts es fs sz" and fr: "\<forall>b\<in>set fr. sz \<le> 256 + b \<and> 256 + b + 32 \<le> sz'" "sorted_wrt apart fr"
  shows "cover ts es fs x + hits x fr \<le> 1" "sz' \<le> x \<Longrightarrow> sz \<le> sz' \<Longrightarrow> cover ts es fs x + hits x fr = 0"
proof -
  show "cover ts es fs x + hits x fr \<le> 1"
  proof (cases "x < sz")
    case True
    then have "hits x fr = 0" using hits_range [OF fr(1)] by blast
    then show ?thesis using db by (simp add: db_ok_def)
  next
    case False
    then have "cover ts es fs x = 0" using cover_beyond [OF db] by simp
    then show ?thesis using fr(2) by (simp add: apart_hits)
  qed
  show "cover ts es fs x + hits x fr = 0" if "sz' \<le> x" "sz \<le> sz'"
    using hits_range [OF fr(1), of x] cover_beyond [OF db, of x] that by simp
qed

lemma tab_kept:
  assumes "db_ok f ts es fs sz" "keep f g (touched fs sz (ts ! i))" "i < length ts" "j < length ts" "j \<noteq> i"
  shows "tabrec g (ts ! j) = tabrec f (ts ! j)"
  using untouched(1) [OF assms(1,3-5)] db_tab(2) [OF assms(1), of j] assms
  by (intro tabrec_keep [OF assms(2)]) (auto simp: db_ok_def)

lemma old_below:
  assumes "db_ok f ts es fs sz" "sz \<le> sz'"
  shows "(k, v, kb, vb) \<in> set es \<Longrightarrow> b \<in> set kb \<union> set vb \<Longrightarrow> 256 + b + 32 \<le> sz'"
    "b \<in> set fs \<Longrightarrow> 256 + b + 32 \<le> sz'"
proof -
  show "256 + b + 32 \<le> sz'" if "(k, v, kb, vb) \<in> set es" "b \<in> set kb \<union> set vb"
  proof -
    have "\<forall>(k, v, kb, vb)\<in>set es. \<forall>b\<in>set (kb @ vb). 256 + b + 32 \<le> sz" using assms(1) by (simp add: db_ok_def)
    then have "\<forall>b\<in>set (kb @ vb). 256 + b + 32 \<le> sz" using that(1) by blast
    moreover have "b \<in> set (kb @ vb)" using that(2) by simp
    ultimately have "256 + b + 32 \<le> sz" by blast
    then show ?thesis using assms(2) by simp
  qed
  show "256 + b + 32 \<le> sz'" if "b \<in> set fs" using assms that by (auto simp: db_ok_def free_ok_def)
qed

text \<open>Writing the table of the value, and giving back the blocks of the old one.\<close>

lemma recycle_step:
  assumes db: "db_ok f ts es fs sz" and m: "(key, v, kb, vb) \<in> set es" and i: "i < length ts"
    and k: "keep f f3 (touched fs sz (ts ! i))" and fs: "fs = p @ fs'" "free_ok f3 fs' sz'" "sz \<le> sz'" and vb: "links f vb"
  shows "\<exists>g. map_option neg_backup (add_free_list f3 (hd vb)) = Some g \<and> free_ok g (fs' @ vb) sz' \<and>
    kf_mem g 52 = 0 \<and> keep f3 g ({0..<256} \<union> cell (last fs')) \<and> keep f g (touched fs sz (ts ! i)) \<and> last fs' \<in> set fs'"
proof -
  have dis: "cell b \<inter> touched fs sz (ts ! i) = {}" if "b \<in> set vb" for b
    using untouched(2) [OF db i m, of b] that by simp
  have vb3: "links f3 vb" using links_keep [OF k _ vb] dis by blast
  have "hits x (fs' @ vb) \<le> cover ts es fs x" for x
  proof -
    obtain es1 es2 where "es = es1 @ (key, v, kb, vb) # es2" using split_list [OF m] by blast
    then show ?thesis by (simp add: cover_def fs(1))
  qed
  then have ap: "sorted_wrt apart (fs' @ vb)"
    unfolding apart_hits using db le_trans unfolding db_ok_def by blast
  have "\<forall>b\<in>set vb. 256 + b + 32 \<le> sz'" using old_below(1) [OF db fs(3) m] by blast
  then obtain f4 where f4: "add_free_list f3 (hd vb) = Some f4" "free_ok f4 (fs' @ vb) sz'"
    "keep f3 f4 ({4..<8} \<union> {256 + last fs' + 28..<256 + last fs' + 32})"
    using add_free_list_spec [OF fs(2) vb3 ap] by blast
  note nb = neg_backup_spec [of f4]
  have l: "last fs' \<in> set fs'" using fs(2) by (cases fs' rule: rev_cases) (auto simp: free_ok_def)
  have k3: "keep f3 (neg_backup f4) ({0..<256} \<union> cell (last fs'))"
    by (rule keep_trans [OF f4(3) nb(1)]) (auto simp: cell_def)
  have "keep f (neg_backup f4) (touched fs sz (ts ! i))"
    by (rule keep_trans [OF k k3]) (use l fs(1) in \<open>auto simp: touched_def cells_def\<close>)
  moreover have "free_ok (neg_backup f4) (fs' @ vb) sz'"
    by (rule free_keep [OF f4(2) nb(1)]) (auto simp: cell_def)
  ultimately show ?thesis using f4(1) nb(2) k3 l by simp
qed

text \<open>A new value for a key that is there.\<close>

lemma put_hit:
  assumes db: "db_ok f ts es fs sz" and es: "es = es1 @ (key, v, kb, vb) # es2"
    and find: "find_tab f key 0 = Some (ts ! length es1, tabrec f (ts ! length es1), True)"
    and val: "good_pair key val" "sz + cost key val < 2 ^ 32"
  shows "\<exists>g fs' sz' bs. kvdb_put f key val = Some g \<and> db_ok g ts (es1 @ (key, val, kb, bs) # es2) fs' sz' \<and>
    sz' \<le> sz + cost key val"
proof -
  let ?i = "length es1" and ?t = "ts ! length es1"
  have lt: "length ts = Suc (length es)" using db by (auto simp: db_ok_def)
  have i: "?i < length ts" "?i < length es" "?t \<in> set ts" using lt es(1) by auto
  have ei: "es ! ?i = (key, v, kb, vb)" by (simp add: es(1))
  have e: "entry f ?t (ts ! Suc ?i) (key, v, kb, vb)" using db i(2) unfolding db_ok_def ei [symmetric] by blast
  have t: "256 + ?t + 20 \<le> kf_len f" "256 + ?t + 20 < 2 ^ 32" using db_tab [OF db, of ?i] i(2) by auto
  have m: "(key, v, kb, vb) \<in> set es" using es(1) by simp
  have val': "val \<noteq> []" "sz + 32 * (length val div 28 + 2) < 2 ^ 32" using val by (auto simp: good_pair_def cost_def)
  obtain f1 f2 p fr fs' sz' where f2: "start_backup f ?t = Some f1" "alloc_str f1 val = Some (hd (p @ fr), f2)" "fs = p @ fs'"
    "str_in f2 val (p @ fr)" "free_ok f2 fs' sz'" "sorted_wrt apart fr" "\<forall>b\<in>set fr. sz \<le> 256 + b \<and> 256 + b + 32 \<le> sz'"
    "sz \<le> sz'" "sz' \<le> sz + 32 * (length val div 28 + 2)" "keep f f2 (touched fs sz ?t)"
    using value_step [OF db i(3) val'] by blast
  define t1 where "t1 = (tabrec f ?t)\<lparr>t_value := hd (p @ fr), t_value_len := length val\<rparr>"
  have rl: "length val < 2 ^ 32" using val(2) by (simp add: cost_def)
  have small: "t_next t1 < 2 ^ 32" "t_key t1 < 2 ^ 32" "t_key_len t1 < 2 ^ 32" "t_value t1 < 2 ^ 32" "t_value_len t1 < 2 ^ 32"
    using str_room [OF f2(4)] rl gw_less by (auto simp: t1_def tabrec_def room_def)
  define f3 where "f3 = write_db f2 ?t (tab_bytes t1)"
  have w: "keep f2 f3 (tcell ?t)" "tabrec f3 ?t = t1"
    using write_tab [OF _ tab_bytes_back [OF small], of ?t f2] t(2) by (auto simp: f3_def)
  have ap: "cell b \<inter> tcell ?t = {}" "c \<in> set fs' \<Longrightarrow> cell b \<inter> cell c = {}" if "b \<in> set (p @ fr)" for b c
    using parts_apart [OF db f2(3) that f2(7)] i(3) by auto
  have fsp: "\<forall>b\<in>set fs'. cell b \<inter> tcell ?t = {}"
    using parts_apart(1) [OF db, of fs "[]" _ "[]" _ ?t] f2(3) i(3) by auto
  have fo3: "free_ok f3 fs' sz'"
    by (rule free_keep [OF f2(5) w(1)]) (use fsp in \<open>auto simp: tcell_def\<close>)
  have k3: "keep f f3 (touched fs sz ?t)" by (rule keep_trans [OF f2(10) w(1)]) (auto simp: touched_def)
  have "links f vb" using e str_links by auto
  then obtain g where g: "map_option neg_backup (add_free_list f3 (hd vb)) = Some g" "free_ok g (fs' @ vb) sz'"
    "kf_mem g 52 = 0" "keep f3 g ({0..<256} \<union> cell (last fs'))" "keep f g (touched fs sz ?t)" "last fs' \<in> set fs'"
    using recycle_step [OF db m i(1) k3 f2(3) fo3 f2(8)] by blast
  have run: "kvdb_put f key val = Some g"
    using flag_clear [OF db] find f2(1,2) g(1) rl e
    by (auto simp: kvdb_put_def recov_backup_def kvdb_put_real_def f3_def t1_def)
  have k2g: "keep f2 g (tcell ?t \<union> ({0..<256} \<union> cell (last fs')))" by (rule keep_trans [OF w(1) g(4)]) auto
  have "\<forall>b\<in>set (p @ fr). cell b \<inter> (tcell ?t \<union> ({0..<256} \<union> cell (last fs'))) = {}"
  proof
    fix b
    assume b: "b \<in> set (p @ fr)"
    have "cell b \<inter> {0..<256} = {}" by (auto simp: cell_def)
    then show "cell b \<inter> (tcell ?t \<union> ({0..<256} \<union> cell (last fs'))) = {}"
      using ap(1) [OF b] ap(2) [OF b g(6)] by blast
  qed
  then have strg: "str_in g val (p @ fr)" using str_keep [OF k2g _ f2(4)] by blast
  have "256 + ?t + 20 \<le> kf_len f3" using t(1) k3 by (auto simp: keep_def)
  moreover have "tcell ?t \<inter> ({0..<256} \<union> cell (last fs')) = {}" using fsp g(6) by (auto simp: tcell_def)
  ultimately have tabg: "tabrec g ?t = t1" using tabrec_keep [OF g(4)] w(2) by simp
  have kbg: "str_in g key kb" using str_keep [OF g(5) _, of kb key] e untouched(2) [OF db i(1) m] by auto
  have entg: "entry g ?t (ts ! Suc ?i) (key, val, kb, p @ fr)"
    using e val(1) strg kbg by (simp add: tabg t1_def good_pair_def)
  let ?es = "es1 @ (key, val, kb, p @ fr) # es2"
  have ents: "entry g (ts ! j) (ts ! Suc j) (?es ! j)" if j: "j < length es" for j
  proof (cases "j = ?i")
    case False
    then have "?es ! j = es ! j" by (simp add: es(1) nth_append nth_Cons')
    then show ?thesis using entries_kept [OF db g(5) i(1) j False] by simp
  qed (use entg in simp)
  have last: "gw g (256 + ts ! length es) = 0"
    using tab_kept [OF db g(5) i(1), of "length es"] i(2) lt db by (simp add: db_ok_def tabrec_def)
  have cov: "cover ts ?es (fs' @ vb) x \<le> 1" for x
    using cover_fresh(1) [OF db f2(7,6), of x] by (simp add: cover_def es(1) f2(3))
  have "256 + t' + 20 \<le> kf_len g \<and> 256 + t' + 20 \<le> sz'" if "t' \<in> set ts" for t'
    using db that g(5) f2(8) by (auto simp: db_ok_def keep_def)
  moreover have "\<forall>(k', v', kb', vb')\<in>set ?es. \<forall>b\<in>set (kb' @ vb'). 256 + b + 32 \<le> sz'"
    using old_below(1) [OF db f2(8)] old_below(2) [OF db f2(8)] f2(3,7) by (fastforce simp: es(1))
  moreover have "sz' < 2 ^ 32" using f2(9) val(2) by (simp add: cost_def)
  moreover have "ts ! 0 = 0" using db by (simp add: db_ok_def)
  ultimately have "db_ok g ts ?es (fs' @ vb) sz'"
    using g(2,3) lt ents last cov by (simp add: db_ok_def es(1))
  moreover have "sz' \<le> sz + cost key val" using f2(9) by (simp add: cost_def)
  ultimately show ?thesis using run by blast
qed

text \<open>A new key goes behind the last table.\<close>

lemma new_tab_step:
  assumes fo: "free_ok f fs sz" and sz: "sz + 20 < 2 ^ 32" and t: "256 + t + 20 \<le> sz" "t + 256 \<le> sz - 20"
    and rec: "tab_of (tab_bytes r) = r" and fs: "\<forall>b\<in>set fs. cell b \<inter> tcell t = {}"
  shows "\<exists>f4 g. get_end f 20 = Some (sz, f4) \<and>
    neg_backup (write_db (write_db f4 (sz - 256) (replicate 20 0)) t (tab_bytes r)) = g \<and>
    free_ok g fs (sz + 20) \<and> kf_mem g 52 = 0 \<and> keep f g ({0..<256} \<union> {sz..} \<union> tcell t) \<and>
    tabrec g t = r \<and> gw g sz = 0 \<and> sz + 20 \<le> kf_len g"
proof -
  let ?f4 = "pwrite f (bytes32 (sz + 20)) 8" and ?n = "sz - 256"
  let ?f5 = "write_db ?f4 ?n (replicate 20 0)"
  let ?f6 = "write_db ?f5 t (tab_bytes r)"
  have f: "256 \<le> kf_len f" "gw f 8 = sz" "256 < sz" "links f fs" using fo by (auto simp: free_ok_def)
  note ge = get_end_spec [OF f(1,2) sz]
  have n: "256 + ?n = sz" "256 + ?n < 2 ^ 32" "256 + t < 2 ^ 32" using f(3) sz t by auto
  have z: "tab_of (replicate 20 0) = \<lparr>t_next = 0, t_key = 0, t_key_len = 0, t_value = 0, t_value_len = 0\<rparr>"
    by (simp add: tab_of_def word_at_def numeral_eq_Suc)
  note w5 = write_tab [OF n(2) z, of ?f4, simplified]
  note w6 = write_tab [OF n(3) rec length_tab_bytes, of ?f5]
  note nb = neg_backup_spec [of ?f6]
  have sub: "{8..<12 :: nat} \<subseteq> {0..<256}" "tcell ?n \<subseteq> {sz..}" "{52..<53 :: nat} \<subseteq> {0..<256}" using n(1) by (auto simp: tcell_def)
  have k4: "keep f ?f4 {8..<12}" using keep_pwrite [of f "bytes32 (sz + 20)" 8] by simp
  let ?R = "{0..<256} \<union> {sz..} \<union> tcell t"
  have k5: "keep f ?f5 ({8..<12} \<union> {sz..})" by (rule keep_trans [OF k4 w5(1)]) (use sub in auto)
  have k6: "keep f ?f6 ({8..<12} \<union> {sz..} \<union> tcell t)" by (rule keep_trans [OF k5 w6(1)]) auto
  have kg: "keep f (neg_backup ?f6) ({8..<12} \<union> {52..<53} \<union> {sz..} \<union> tcell t)" by (rule keep_trans [OF k6 nb(1)]) auto
  have kR: "keep f (neg_backup ?f6) ?R" by (rule keep_mono [OF kg]) auto
  have k46: "keep ?f4 (neg_backup ?f6) ({52..<53} \<union> {sz..} \<union> tcell t)"
    by (rule keep_trans [OF keep_trans [OF w5(1) w6(1) Un_upper1 Un_upper2] nb(1)]) (use sub in auto)
  have g8: "gw (neg_backup ?f6) 8 = sz + 20"
    using ge(2) f(1,3) by (subst gw_keep [OF k46]) (auto simp: tcell_def)
  have g: "gw (neg_backup ?f6) 0 = gw f 0" "gw (neg_backup ?f6) 4 = gw f 4"
    using f(1,3) by (auto intro!: gw_keep [OF kg] simp: tcell_def)
  have "\<forall>b\<in>set fs. cell b \<inter> ({8..<12} \<union> {52..<53} \<union> {sz..} \<union> tcell t) = {}"
  proof
    fix b
    assume b: "b \<in> set fs"
    then have "256 + b + 32 \<le> sz" using fo by (simp add: free_ok_def)
    then have "cell b \<inter> ({8..<12} \<union> {52..<53} \<union> {sz..}) = {}" by (auto simp: cell_def)
    then show "cell b \<inter> ({8..<12} \<union> {52..<53} \<union> {sz..} \<union> tcell t) = {}" using fs b by blast
  qed
  then have "links (neg_backup ?f6) fs" using links_keep [OF kg _ f(4)] by blast
  then have "free_ok (neg_backup ?f6) fs (sz + 20)"
    using fo g g8 kg by (auto simp: free_ok_def keep_def)
  moreover have "tabrec (neg_backup ?f6) t = r"
    using w6(2,3) by (subst tabrec_keep [OF nb(1)]) (auto simp: tcell_def)
  moreover have "gw (neg_backup ?f6) sz = 0"
  proof -
    have k: "keep ?f5 (neg_backup ?f6) ({52..<53} \<union> tcell t)" by (rule keep_trans [OF w6(1) nb(1)]) auto
    have "gw (neg_backup ?f6) sz = gw ?f5 sz"
      using t f(3) w5(3) n(1) by (intro gw_keep [OF k]) (auto simp: tcell_def)
    also have "\<dots> = 0" using w5(2) n(1) by (simp add: tabrec_def)
    finally show ?thesis .
  qed
  moreover have "sz + 20 \<le> kf_len (neg_backup ?f6)"
    using w5(3) n(1) w6(1) nb(1) by (auto simp: keep_def)
  ultimately show ?thesis using ge(1) nb(2) kR by blast
qed

text \<open>The blocks and the table a new key takes, one behind the other, are covered once.\<close>

lemma cover_grow:
  assumes db: "db_ok f ts es fs sz" and fs: "fs = p @ q @ fs2"
    and fr: "sorted_wrt apart fr" "\<forall>b\<in>set fr. sz \<le> 256 + b \<and> 256 + b + 32 \<le> sz1" "sz \<le> sz1"
    and fr': "sorted_wrt apart fr'" "\<forall>b\<in>set fr'. sz1 \<le> 256 + b \<and> 256 + b + 32 \<le> sz2" "sz1 \<le> sz2" and sz: "256 < sz2"
  shows "cover (ts @ [sz2 - 256]) (es @ [(key, val, q @ fr', p @ fr)]) fs2 x \<le> 1"
proof -
  have s: "cover (ts @ [sz2 - 256]) (es @ [(key, val, q @ fr', p @ fr)]) fs2 x =
      cover ts es fs x + hits x fr + hits x fr' + (if x \<in> tcell (sz2 - 256) then 1 else 0)"
    by (simp add: cover_def fs)
  have n: "tcell (sz2 - 256) \<subseteq> {sz2..}" using sz by (auto simp: tcell_def)
  show ?thesis
  proof (cases "x < sz1")
    case True
    then have "hits x fr' = 0" using hits_range [OF fr'(2)] by blast
    moreover have "x \<notin> tcell (sz2 - 256)" using n True fr'(3) by auto
    ultimately show ?thesis using s cover_fresh(1) [OF db fr(2,1), of x] by simp
  next
    case False
    then have z: "cover ts es fs x + hits x fr = 0" using cover_fresh(2) [OF db fr(2,1)] fr(3) by simp
    show ?thesis
    proof (cases "x < sz2")
      case True
      then have "x \<notin> tcell (sz2 - 256)" using n by auto
      then show ?thesis using s z fr'(1) by (simp add: apart_hits)
    next
      case False
      then have "hits x fr' = 0" using hits_range [OF fr'(2)] by simp
      then show ?thesis using s z by simp
    qed
  qed
qed

text \<open>A key that is not there yet.\<close>

lemma put_miss:
  assumes db: "db_ok f ts es fs sz"
    and find: "find_tab f key 0 = Some (ts ! length es, tabrec f (ts ! length es), False)"
    and val: "good_pair key val" "sz + cost key val < 2 ^ 32"
  shows "\<exists>g fs' sz' tn kb vb. kvdb_put f key val = Some g \<and> db_ok g (ts @ [tn]) (es @ [(key, val, kb, vb)]) fs' sz' \<and>
    sz' \<le> sz + cost key val"
proof -
  let ?i = "length es" and ?t = "ts ! length es"
  have lt: "length ts = Suc ?i" using db by (simp add: db_ok_def)
  have i: "?i < length ts" "?t \<in> set ts" using lt by auto
  have t: "256 + ?t + 20 \<le> kf_len f" "256 + ?t + 20 < 2 ^ 32" using db_tab [OF db order_refl] by auto
  have tsz: "256 + ?t + 20 \<le> sz" using db i(2) by (simp add: db_ok_def)
  have key: "key \<noteq> []" using val(1) by (auto simp: good_pair_def)
  have val': "val \<noteq> []" "sz + 32 * (length val div 28 + 2) < 2 ^ 32" using val by (auto simp: good_pair_def cost_def)
  obtain f1 f2 p fr fs1 sz1 where f2: "start_backup f ?t = Some f1" "alloc_str f1 val = Some (hd (p @ fr), f2)" "fs = p @ fs1"
    "str_in f2 val (p @ fr)" "free_ok f2 fs1 sz1" "sorted_wrt apart fr" "\<forall>b\<in>set fr. sz \<le> 256 + b \<and> 256 + b + 32 \<le> sz1"
    "sz \<le> sz1" "sz1 \<le> sz + 32 * (length val div 28 + 2)" "keep f f2 (touched fs sz ?t)"
    using value_step [OF db i(2) val'] by blast
  have key': "sz1 + 32 * (length key div 28 + 2) < 2 ^ 32" using f2(9) val(2) by (simp add: cost_def)
  obtain f3 q fr' fs2 sz2 where f3: "alloc_str f2 key = Some (hd (q @ fr'), f3)" "fs1 = q @ fs2" "str_in f3 key (q @ fr')"
    "free_ok f3 fs2 sz2" "sorted_wrt apart fr'" "\<forall>b\<in>set fr'. sz1 \<le> 256 + b \<and> 256 + b + 32 \<le> sz2" "sz1 \<le> sz2"
    "sz2 \<le> sz1 + 32 * (length key div 28 + 2)" "keep f2 f3 (hdr \<union> cells (q @ fr'))"
    using alloc_str_spec [OF f2(5) key key'] by blast
  have fs: "fs = p @ q @ fs2" using f2(3) f3(2) by simp
  have szs: "256 < sz2" "sz \<le> sz2" "sz2 + 20 \<le> sz + cost key val"
    using f3(4,7,8) f2(8,9) by (auto simp: free_ok_def cost_def)
  have vap: "cell b \<inter> tcell ?t = {}" "c \<in> set (q @ fs2) \<Longrightarrow> cell b \<inter> cell c = {}" if "b \<in> set (p @ fr)" for b c
    using parts_apart [OF db fs that f2(7)] i(2) by auto
  have fr': "\<forall>b\<in>set fr'. sz \<le> 256 + b \<and> True" using f3(6) f2(8) by auto
  have kap: "cell b \<inter> tcell ?t = {}" if "b \<in> set (q @ fr')" for b
    using parts_apart(1) [OF db, of "p @ q" fs2 b fr' "\<lambda>_. True"] fs that fr' i(2) by auto
  have fap: "\<forall>b\<in>set fs2. cell b \<inter> tcell ?t = {}"
    using parts_apart(1) [OF db, of fs "[]" _ "[]" _ ?t] fs i(2) by auto
  have vtop: "256 + b + 32 \<le> sz1" if "b \<in> set (p @ fr)" for b
    using that old_below(2) [OF db f2(8)] f2(7) fs by auto
  have ktop: "256 + b + 32 \<le> sz2" if "b \<in> set (q @ fr')" for b
    using that old_below(2) [OF db szs(2)] f3(6) fs by auto
  have "cell b \<inter> (hdr \<union> cells (q @ fr')) = {}" if b: "b \<in> set (p @ fr)" for b
  proof -
    have "cell b \<inter> cells q = {}" using vap(2) [OF b] by (auto simp: cells_def)
    moreover have "cell b \<inter> cells fr' = {}"
      using vtop [OF b] f3(6) cells_fresh [of fr' sz1 "\<lambda>b. 256 + b + 32 \<le> sz2"] by (auto simp: cell_def)
    ultimately show ?thesis using cell_hdr [of b] by auto
  qed
  then have val3: "str_in f3 val (p @ fr)" using str_keep [OF f3(9) _ f2(4)] by blast
  define r where "r = \<lparr>t_next = sz2 - 256, t_key = hd (q @ fr'), t_key_len = length key, t_value = hd (p @ fr),
    t_value_len = length val\<rparr>"
  have len: "length val < 2 ^ 32" "length key < 2 ^ 32" "sz2 + 20 < 2 ^ 32" using val(2) szs(3) by (auto simp: cost_def)
  have rec: "tab_of (tab_bytes r) = r"
    using len str_room [OF f3(3)] str_room [OF f2(4)] by (intro tab_bytes_back) (auto simp: r_def room_def)
  have tsz': "256 + ?t + 20 \<le> sz2" "?t + 256 \<le> sz2 - 20" using tsz szs(2) by auto
  obtain f4 g where g: "get_end f3 20 = Some (sz2, f4)"
    "neg_backup (write_db (write_db f4 (sz2 - 256) (replicate 20 0)) ?t (tab_bytes r)) = g"
    "free_ok g fs2 (sz2 + 20)" "kf_mem g 52 = 0" "keep f3 g ({0..<256} \<union> {sz2..} \<union> tcell ?t)"
    "tabrec g ?t = r" "gw g sz2 = 0" "sz2 + 20 \<le> kf_len g"
    using new_tab_step [OF f3(4) len(3) _ _ rec fap] tsz'(1,2) by metis
  have run: "kvdb_put f key val = Some g"
    using flag_clear [OF db] find f2(1,2) f3(1) g(1,2) len szs(1)
    by (simp add: kvdb_put_def recov_backup_def kvdb_put_real_def r_def tabrec_def TAB_SZ_def HEADER_LEN_def sub32_eq)
  have "keep f f3 (touched fs sz ?t)"
    by (rule keep_trans [OF f2(10) f3(9)])
      (use cells_fresh [OF fr'] fs in \<open>auto simp: touched_def hdr_def cells_def\<close>)
  then have k: "keep f g (touched fs sz ?t)"
    by (rule keep_trans [OF _ g(5)]) (use szs(2) in \<open>auto simp: touched_def\<close>)
  have out: "cell b \<inter> ({0..<256} \<union> {sz2..} \<union> tcell ?t) = {}"
    if "256 + b + 32 \<le> sz2" "cell b \<inter> tcell ?t = {}" for b
    using that by (auto simp: cell_def)
  have "\<forall>b\<in>set (p @ fr). cell b \<inter> ({0..<256} \<union> {sz2..} \<union> tcell ?t) = {}"
    using out vap(1) vtop f3(7) le_trans by blast
  then have valg: "str_in g val (p @ fr)" using str_keep [OF g(5) _ val3] by blast
  have "\<forall>b\<in>set (q @ fr'). cell b \<inter> ({0..<256} \<union> {sz2..} \<union> tcell ?t) = {}"
    using out kap ktop by blast
  then have keyg: "str_in g key (q @ fr')" using str_keep [OF g(5) _ f3(3)] by blast
  let ?es = "es @ [(key, val, q @ fr', p @ fr)]" and ?ts = "ts @ [sz2 - 256]"
  have ents: "entry g (?ts ! j) (?ts ! Suc j) (?es ! j)" if j: "j < length ?es" for j
  proof (cases "j = ?i")
    case True
    then show ?thesis using lt valg keyg g(6) val(1) szs(1) by (simp add: nth_append r_def good_pair_def)
  next
    case False
    then show ?thesis using entries_kept [OF db k i(1), of j] j lt by (simp add: nth_append)
  qed
  have "cover ?ts ?es fs2 x \<le> 1" for x
    using cover_grow [OF db fs f2(6-8) f3(5-7) szs(1)] .
  moreover have "256 + t' + 20 \<le> kf_len g \<and> 256 + t' + 20 \<le> sz2 + 20" if "t' \<in> set ?ts" for t'
    using db that k szs g(8) by (auto simp: db_ok_def keep_def)
  moreover have "\<forall>(k', v', kb', vb')\<in>set ?es. \<forall>b\<in>set (kb' @ vb'). 256 + b + 32 \<le> sz2 + 20"
  proof -
    have "256 + b + 32 \<le> sz2 + 20" if "(k', v', kb', vb') \<in> set es" "b \<in> set kb' \<union> set vb'" for k' v' kb' vb' b
      using old_below(1) [OF db szs(2) that] by simp
    moreover have "256 + b + 32 \<le> sz2 + 20" if "b \<in> set (p @ fr)" for b using vtop [OF that] f3(7) by simp
    moreover have "256 + b + 32 \<le> sz2 + 20" if "b \<in> set (q @ fr')" for b using ktop [OF that] by simp
    ultimately show ?thesis by fastforce
  qed
  moreover have "?ts ! 0 = 0" using db lt by (simp add: db_ok_def nth_append)
  ultimately have "db_ok g ?ts ?es fs2 (sz2 + 20)"
    using g(3,4,7) lt len(3) ents szs(1) by (simp add: db_ok_def nth_append)
  then show ?thesis using run szs(3) by blast
qed

end
