(* ===== verification/Kvdb_Spec.thy ===== *)
theory Kvdb_Spec
  imports Kvdb_Put
begin

text \<open>
  What the store promises: a fresh file is the empty map, and every history of puts that fits in the
  offsets of the file is the map of the last value of each key.
\<close>

section \<open>The interface\<close>

text \<open>\<open>rep s n m\<close>: the state \<open>s\<close>, of size \<open>n\<close>, stands for the map \<open>m\<close>.\<close>

locale key_value =
  fixes put_pair :: "'s \<Rightarrow> 'k \<Rightarrow> 'v \<Rightarrow> 's option"
    and get_value :: "'s \<Rightarrow> 'k \<Rightarrow> 'v option option"
    and rep :: "'s \<Rightarrow> nat \<Rightarrow> ('k \<rightharpoonup> 'v) \<Rightarrow> bool"
    and good :: "'k \<Rightarrow> 'v \<Rightarrow> bool"
    and price :: "'k \<Rightarrow> 'v \<Rightarrow> nat"
    and limit :: nat
  assumes get_rep: "rep s n m \<Longrightarrow> get_value s k = Some (m k)"
    and put_rep: "rep s n m \<Longrightarrow> good k v \<Longrightarrow> n + price k v < limit \<Longrightarrow>
      \<exists>s' n'. put_pair s k v = Some s' \<and> rep s' n' (m(k \<mapsto> v)) \<and> n' \<le> n + price k v"
begin

lemma history:
  assumes "rep s n m" "\<forall>(k, v)\<in>set ps. good k v" "n + (\<Sum>(k, v)\<leftarrow>ps. price k v) < limit"
  shows "\<exists>s' n'. fold (\<lambda>(k, v) s. Option.bind s (\<lambda>s. put_pair s k v)) ps (Some s) = Some s' \<and>
    rep s' n' (m ++ map_of (rev ps))"
  using assms
proof (induction ps arbitrary: s n m)
  case (Cons p ps)
  obtain k v where p: "p = (k, v)" by (cases p)
  obtain s1 n1 where s1: "put_pair s k v = Some s1" "rep s1 n1 (m(k \<mapsto> v))" "n1 \<le> n + price k v"
    using put_rep [of s n m k v] Cons.prems p by auto
  have "\<forall>(k, v)\<in>set ps. good k v" "n1 + (\<Sum>(k, v)\<leftarrow>ps. price k v) < limit" using Cons.prems(2,3) s1(3) by (auto simp: p)
  moreover have "m ++ map_of (rev (p # ps)) = m(k \<mapsto> v) ++ map_of (rev ps)"
    by (rule ext) (simp add: p map_add_def split: option.split)
  moreover have "fold (\<lambda>(k, v) s. Option.bind s (\<lambda>s. put_pair s k v)) (p # ps) (Some s) =
      fold (\<lambda>(k, v) s. Option.bind s (\<lambda>s. put_pair s k v)) ps (Some s1)"
    using s1(1) by (simp add: p)
  ultimately show ?case using Cons.IH [OF s1(2)] by (simp only: simp_thms)
qed auto

lemma history_get:
  assumes "rep s n m" "\<forall>(k, v)\<in>set ps. good k v" "n + (\<Sum>(k, v)\<leftarrow>ps. price k v) < limit"
  shows "\<exists>s'. fold (\<lambda>(k, v) s. Option.bind s (\<lambda>s. put_pair s k v)) ps (Some s) = Some s' \<and>
    (\<forall>k. get_value s' k = Some ((m ++ map_of (rev ps)) k))"
  using history [OF assms] get_rep by blast

end

section \<open>The file provides it\<close>

definition db_rep :: "kfile \<Rightarrow> nat \<Rightarrow> (u8 list \<rightharpoonup> u8 list) \<Rightarrow> bool" where
  "db_rep f sz m \<longleftrightarrow> (\<exists>ts es fs. db_ok f ts es fs sz \<and> db_map es = m)"

lemma db_map_update:
  assumes "\<forall>e\<in>set es1. fst e \<noteq> key"
  shows "db_map (es1 @ (key, val, kb', vb') # es2) = (db_map (es1 @ (key, v, kb, vb) # es2))(key \<mapsto> val)"
proof -
  have "map_of (map (\<lambda>(k, v, kb, vb). (k, v)) es1) key = None"
    using db_map_miss [OF assms] by (simp add: db_map_def)
  then show ?thesis by (auto simp: db_map_def fun_eq_iff map_add_def split: option.splits)
qed

lemma db_map_snoc:
  assumes "\<forall>e\<in>set es. fst e \<noteq> key"
  shows "db_map (es @ [(key, val, kb, vb)]) = (db_map es)(key \<mapsto> val)"
  using db_map_miss [OF assms] by (auto simp: db_map_def fun_eq_iff map_add_def split: option.splits)

lemma put_rep:
  assumes "db_rep f sz m" "good_pair key val" "sz + cost key val < 2 ^ 32"
  shows "\<exists>g sz'. kvdb_put f key val = Some g \<and> db_rep g sz' (m(key \<mapsto> val)) \<and> sz' \<le> sz + cost key val"
proof -
  obtain ts es fs where db: "db_ok f ts es fs sz" "db_map es = m" using assms(1) by (auto simp: db_rep_def)
  from db(1) show ?thesis
  proof (cases rule: find_tab_spec [of f ts es fs sz key])
    case (hit es1 k v kb vb es2)
    then have "es = es1 @ (key, v, kb, vb) # es2" by simp
    from put_hit [OF db(1) this hit(4) assms(2,3)] show ?thesis
      using db_map_update [OF hit(3)] db(2) hit(1,2) unfolding db_rep_def by metis
  next
    case miss
    from put_miss [OF db(1) miss(2) assms(2,3)] show ?thesis
      using db_map_snoc [OF miss(1)] db(2) unfolding db_rep_def by metis
  qed
qed

interpretation kv: key_value kvdb_put kvdb_get db_rep good_pair cost "2 ^ 32"
proof unfold_locales
  show "kvdb_get f key = Some (m key)" if "db_rep f sz m" for f sz m key
    using that kvdb_get_map by (auto simp: db_rep_def)
qed (use put_rep in blast)

lemma gw_zero: "(\<And>x. a \<le> x \<Longrightarrow> x < a + 4 \<Longrightarrow> kf_mem f x = 0) \<Longrightarrow> gw f a = 0"
proof -
  assume z: "\<And>x. a \<le> x \<Longrightarrow> x < a + 4 \<Longrightarrow> kf_mem f x = 0"
  have "view f a 4 = bytes32 0"
    by (rule nth_equalityI) (use z in \<open>auto simp: view_nth bytes32_def nth_Cons'\<close>)
  then show ?thesis by (simp add: gw_def le_bytes32)
qed

lemma init_db_rep: "db_rep (init_db f) 0x134 Map.empty"
proof -
  define f1 where "f1 = pwrite f (bytes32 20) 0"
  define f2 where "f2 = pwrite f1 (bytes32 20) 4"
  define f3 where "f3 = pwrite f2 (bytes32 0x134) 8"
  define g where "g = pwrite (pwrite (pwrite f3 (replicate 244 0) 12) (replicate 20 0) 256) (replicate 32 0) 276"
  have e: "init_db f = g"
    by (simp add: init_db_def TAB_SZ_def HEADER_LEN_def STRING_SZ_def f1_def f2_def f3_def g_def)
  have len: "308 \<le> kf_len g" by (simp add: g_def)
  have mem: "kf_mem g x = 0" if "12 \<le> x" "x < 308" for x
    using that by (auto simp: g_def pwrite_def put_def)
  have k3: "keep f3 g {12..<308}"
    unfolding g_def by (intro keep_trans [OF keep_trans [OF keep_pwrite keep_pwrite Un_upper1 Un_upper2] keep_pwrite]) auto
  have k2: "keep f2 g {8..<308}" unfolding f3_def by (rule keep_trans [OF keep_pwrite k3 [unfolded f3_def]]) auto
  have k1: "keep f1 g {4..<308}" unfolding f2_def by (rule keep_trans [OF keep_pwrite k2 [unfolded f2_def]]) auto
  have hd: "gw g 0 = 20" "gw g 4 = 20" "gw g 8 = 0x134"
    using gw_keep [OF k1, of 0] gw_keep [OF k2, of 4] gw_keep [OF k3, of 8] gw_pwrite
    by (simp_all add: f1_def f2_def f3_def)
  have "free_ok g [20] 0x134"
    using hd len gw_zero [of 304 g] mem by (simp add: free_ok_def room_def nxt_def)
  moreover have "cover [0] [] [20] x \<le> 1" for x
    by (simp add: cover_def hits_def tcell_def cell_def)
  ultimately have "db_ok g [0] [] [20] 0x134"
    using len mem gw_zero [of 256 g] by (simp add: db_ok_def)
  then show ?thesis unfolding e db_rep_def by (intro exI conjI) (auto simp: db_map_def)
qed

section \<open>Histories\<close>

text \<open>C26: After opening a file that is not a database yet, any sequence of puts succeeds as long as the file
  stays below 4 GB (a put takes at most its blocks, two more and a table), and a get then returns the
  value last put under its key, or a null pointer if there was none.  Keys are of a length that is
  not a multiple of the block length and values are not empty.
\<close>

theorem kvdb_history:
  assumes "kf_len f < 0x100" "\<forall>(k, v)\<in>set ps. good_pair k v" "0x134 + (\<Sum>(k, v)\<leftarrow>ps. cost k v) < 2 ^ 32"
  shows "\<exists>g. fold (\<lambda>(k, v) s. Option.bind s (\<lambda>s. kvdb_put s k v)) ps (Some (kvdb_open f)) = Some g \<and>
    (\<forall>k. kvdb_get g k = Some (map_of (rev ps) k))"
proof -
  have "length (pread f HEADER_LEN 0) < HEADER_LEN" using assms(1) by (simp add: pread_def HEADER_LEN_def)
  then have "kvdb_open f = init_db f" by (simp add: kvdb_open_def)
  then show ?thesis using kv.history_get [OF init_db_rep assms(2,3), of f] by simp
qed

theorem kvdb_history_witness:
  "\<exists>g. Option.bind (Option.bind (kvdb_put (kvdb_open \<lparr>kf_mem = (\<lambda>_. 0), kf_len = 0\<rparr>) [1, 2] [3])
      (\<lambda>s. kvdb_put s [4] [5, 6])) (\<lambda>s. kvdb_put s [1, 2] (replicate 70 7)) = Some g \<and>
    kvdb_get g [1, 2] = Some (Some (replicate 70 7)) \<and> kvdb_get g [4] = Some (Some [5, 6]) \<and> kvdb_get g [9] = Some None"
proof -
  let ?ps = "[([1, 2], [3]), ([4], [5, 6]), ([1, 2], replicate 70 7)] :: (u8 list \<times> u8 list) list"
  have "\<forall>(k, v)\<in>set ?ps. good_pair k v" by (simp add: good_pair_def)
  moreover have "0x134 + (\<Sum>(k, v)\<leftarrow>?ps. cost k v) < 2 ^ 32" by (simp add: cost_def)
  ultimately obtain g where
    "fold (\<lambda>(k, v) s. Option.bind s (\<lambda>s. kvdb_put s k v)) ?ps (Some (kvdb_open \<lparr>kf_mem = (\<lambda>_. 0), kf_len = 0\<rparr>)) = Some g"
    "\<forall>k. kvdb_get g k = Some (map_of (rev ?ps) k)"
    using kvdb_history [of "\<lparr>kf_mem = (\<lambda>_. 0), kf_len = 0\<rparr>" ?ps] by auto
  then show ?thesis by (intro exI [of _ g]) simp
qed

end
