(* ===== verification/Shell_Cmds.thy ===== *)
theory Shell_Cmds
  imports Vfs Tty Klib_Stdio
begin

text \<open>
  The commands of the shell, \<^verbatim>\<open>kernel/src/shell/buildin.c\<close> and \<^verbatim>\<open>buildin/\<close>, and \<^verbatim>\<open>fprintf\<close>
  (\<^verbatim>\<open>vfs/stdio.c\<close>).  A command gets the arguments after its name; the name is that of the task, which
  error messages start with.  \<open>None\<close> is a call that does not return properly; the buffer of
  \<^verbatim>\<open>fprintf\<close> holds 255 characters.
\<close>

section \<open>The system below a command\<close>

text \<open>
  The address of the next open file, the clock readings of the command, and the terminals among
  the devices.  A command returns, or its task exits in a state.
\<close>

record 'd sys =
  sys_env :: "'d env"
  sys_alloc :: "'d vfs \<Rightarrow> nat"
  sys_clock :: "u32 list"
  sys_tty :: "nat \<Rightarrow> 'd \<Rightarrow> tty"
  sys_set_tty :: "nat \<Rightarrow> tty \<Rightarrow> 'd \<Rightarrow> 'd"

datatype 'd flow = Returns int "'d vfs" | Exits "'d vfs"

abbreviation (input) STDOUT :: nat where "STDOUT \<equiv> 1"
abbreviation (input) STDERR :: nat where "STDERR \<equiv> 2"

definition nl :: string where "nl = [CHR 0x0a]"
definition apo :: string where "apo = [CHR 0x27]"

definition fprintf :: "'d sys \<Rightarrow> nat \<Rightarrow> string \<Rightarrow> unit varg list \<Rightarrow> 'd vfs \<Rightarrow> (int \<times> 'd vfs) option" where
  "fprintf y fd fmt args v =
     (case sprintf (\<lambda>_. []) fmt args of
        Inl _ \<Rightarrow> None
      | Inr (t, len) \<Rightarrow> if 0x100 \<le> length t then None else vfs_write (sys_env y) v fd (take len (bytes_of t)))"

definition std_write :: "'d sys \<Rightarrow> string \<Rightarrow> 'd vfs \<Rightarrow> 'd vfs option" where
  "std_write y s v = map_option snd (vfs_write (sys_env y) v STDOUT (bytes_of s))"

definition complain :: "'d sys \<Rightarrow> string \<Rightarrow> 'd vfs \<Rightarrow> 'd flow option" where
  "complain y s v = map_option (\<lambda>(_, v'). Returns (- 1) v') (fprintf y STDERR s [] v)"

text \<open>A null pointer for \<^verbatim>\<open>%s\<close> is not a string.\<close>

definition str_arg :: "string option \<Rightarrow> unit varg" where
  "str_arg a = (case a of None \<Rightarrow> VInt 0 | Some s \<Rightarrow> VStr s)"

definition error_print :: "'d sys \<Rightarrow> string \<Rightarrow> string \<Rightarrow> unit varg list \<Rightarrow> 'd vfs \<Rightarrow> 'd vfs option" where
  "error_print y nm fmt args v =
     (if err v = [] then Some v
      else map_option (\<lambda>(_, v'). clear_warn v') (fprintf y STDERR (''%s: '' @ fmt @ ''%s'' @ nl) (VStr nm # args @ [VStr (err v)]) v))"

definition warning :: "'d sys \<Rightarrow> string \<Rightarrow> string \<Rightarrow> 'd vfs \<Rightarrow> 'd vfs option" where
  "warning y nm w v = map_option snd (fprintf y STDERR (''%s: %s'' @ nl) [VStr nm, VStr w] v)"

definition sys_open :: "'d sys \<Rightarrow> string \<Rightarrow> nat \<Rightarrow> 'd vfs \<Rightarrow> (int \<times> 'd vfs) option" where
  "sys_open y path flags v = vfs_open v (sys_alloc y v) path flags"

text \<open>A negative descriptor is outside the table.\<close>

definition fd_of :: "int \<Rightarrow> nat option" where
  "fd_of fd = (if fd < 0 then None else Some (nat fd))"

text \<open>The part of the buffer a read fills.\<close>

definition filled :: "int \<Rightarrow> u8 list \<Rightarrow> u8 list option" where
  "filled n bs = (if nat n \<le> length bs then Some (take (nat n) bs) else None)"

definition chars :: "u8 list \<Rightarrow> string" where
  "chars bs = map (\<lambda>b. char_of (unat b)) (takeWhile (\<lambda>b. b \<noteq> 0) bs)"

text \<open>
  Is the descriptor a terminal?  For a file that is not in the device file system the code takes
  the private data of the inode for a device, whose operations are not those of a terminal.
\<close>

definition tty_at :: "'d vfs \<Rightarrow> nat \<Rightarrow> nat option option" where
  "tty_at v fd =
     (if fds v fd = 0 then None
      else Some (case contents v (file_inode (files v (fds v fd))) of
        DevI i \<Rightarrow> if take 3 (devices ! i) = ''tty'' then Some i else None
      | _ \<Rightarrow> None))"

section \<open>Printing\<close>

fun echo_words :: "'d sys \<Rightarrow> string list \<Rightarrow> 'd vfs \<Rightarrow> 'd vfs option" where
  "echo_words y [] v = std_write y nl v"
| "echo_words y [a] v = do {v1 \<leftarrow> std_write y a v; std_write y nl v1}"
| "echo_words y (a # b # as) v = do {v1 \<leftarrow> std_write y a v; v2 \<leftarrow> std_write y '' '' v1; echo_words y (b # as) v2}"

definition mysh_echo :: "'d sys \<Rightarrow> string list \<Rightarrow> 'd vfs \<Rightarrow> 'd flow option" where
  "mysh_echo y args v = map_option (Returns 0) (echo_words y args v)"

partial_function (option) cat_loop :: "'d sys \<Rightarrow> nat \<Rightarrow> 'd vfs \<Rightarrow> 'd vfs option" where
  "cat_loop y fd v = do {
     (n, buf, v1) \<leftarrow> vfs_read (sys_env y) v fd 0x200;
     if n > 0 then do {
       bs \<leftarrow> filled n buf;
       (_, v2) \<leftarrow> vfs_write (sys_env y) v1 STDOUT bs;
       cat_loop y fd v2}
     else Some (if n = EISDIR then warn ''Is a directory'' v1 else v1)}"

definition single_cat :: "'d sys \<Rightarrow> string \<Rightarrow> int \<Rightarrow> string option \<Rightarrow> 'd vfs \<Rightarrow> 'd vfs option" where
  "single_cat y nm fd file v = do {
     v1 \<leftarrow> (if fd \<ge> 0 then cat_loop y (nat fd) v else Some v);
     error_print y nm ''%s: '' [str_arg file] v1}"

fun cat_files :: "'d sys \<Rightarrow> string \<Rightarrow> string list \<Rightarrow> 'd vfs \<Rightarrow> 'd vfs option" where
  "cat_files y nm [] v = Some v"
| "cat_files y nm (a # as) v = do {
     v2 \<leftarrow> (if a \<noteq> ''-'' then do {(fd, v1) \<leftarrow> sys_open y a O_RDONLY v; single_cat y nm fd (Some a) v1}
           else single_cat y nm 0 None v);
     cat_files y nm as v2}"

definition mysh_cat :: "'d sys \<Rightarrow> string \<Rightarrow> string list \<Rightarrow> 'd vfs \<Rightarrow> 'd flow option" where
  "mysh_cat y nm args v =
     map_option (Returns 0) (if args = [] then single_cat y nm 0 None v else cat_files y nm args v)"

section \<open>Counting\<close>

definition is_blank :: "u8 \<Rightarrow> bool" where
  "is_blank b \<longleftrightarrow> b \<in> {0x20, 0x0d, 0x09, 0x0a, 0x0b}"

type_synonym counts = "nat \<times> nat \<times> nat"

text \<open>Lines, words and characters so far, and whether the last character is in a word.\<close>

definition wc_byte :: "u8 \<Rightarrow> counts \<times> bool \<Rightarrow> counts \<times> bool" where
  "wc_byte b st =
     (case st of ((l, w, c), inword) \<Rightarrow>
        let l' = (if b = 0x0a then l + 1 else l)
        in if is_blank b then ((l', w, c + 1), False)
           else if \<not> inword then ((l', w + 1, c + 1), True)
           else ((l', w, c + 1), True))"

partial_function (option) wc_loop :: "'d sys \<Rightarrow> nat \<Rightarrow> counts \<times> bool \<Rightarrow> 'd vfs \<Rightarrow> (counts \<times> int \<times> 'd vfs) option" where
  "wc_loop y fd st v = do {
     (n, buf, v1) \<leftarrow> vfs_read (sys_env y) v fd 0x200;
     if n > 0 then do {
       bs \<leftarrow> filled n buf;
       wc_loop y fd (fold wc_byte bs st) v1}
     else Some (fst st, n, v1)}"

definition num_arg :: "nat \<Rightarrow> unit varg" where
  "num_arg n = VInt (of_nat n)"

text \<open>The left side: the read failed and the task ended.\<close>

definition single_wc :: "'d sys \<Rightarrow> nat \<Rightarrow> string \<Rightarrow> counts \<Rightarrow> 'd vfs \<Rightarrow> ('d vfs + counts \<times> 'd vfs) option" where
  "single_wc y fd name tot v = do {
     ((l, w, c), n, v1) \<leftarrow> wc_loop y fd ((0, 0, 0), False) v;
     if n < 0 then map_option (\<lambda>(_, v2). Inl v2) (vfs_write (sys_env y) v1 STDERR (bytes_of (''wc: read error'' @ nl)))
     else do {
       (_, v2) \<leftarrow> fprintf y STDOUT (''%4d %4d %4d %s'' @ nl) [num_arg l, num_arg w, num_arg c, VStr name] v1;
       (case tot of (l0, w0, c0) \<Rightarrow> Some (Inr ((l0 + l, w0 + w, c0 + c), v2)))}}"

text \<open>An error ends the loop early: its result on the left.\<close>

fun wc_files :: "'d sys \<Rightarrow> string list \<Rightarrow> counts \<Rightarrow> 'd vfs \<Rightarrow> ('d flow + counts \<times> 'd vfs) option" where
  "wc_files y [] tot v = Some (Inr (tot, v))"
| "wc_files y (a # as) tot v =
     (if a \<noteq> ''-'' then do {
        (fd, v1) \<leftarrow> sys_open y a 0 v;
        if fd < 0 then map_option (\<lambda>(_, v2). Inl (Returns (- 1) v2)) (fprintf y STDERR (''wc: cannot open %s'' @ nl) [VStr a] v1)
        else do {
          r \<leftarrow> single_wc y (nat fd) a tot v1;
          (case r of Inl v2 \<Rightarrow> Some (Inl (Exits v2))
           | Inr (tot1, v2) \<Rightarrow> do {v3 \<leftarrow> vfs_close v2 (nat fd); wc_files y as tot1 v3})}}
      else do {
        r \<leftarrow> single_wc y 0 ''-'' tot v;
        (case r of Inl v2 \<Rightarrow> Some (Inl (Exits v2)) | Inr (tot1, v2) \<Rightarrow> wc_files y as tot1 v2)})"

definition wc_total :: "'d sys \<Rightarrow> counts \<Rightarrow> 'd vfs \<Rightarrow> 'd vfs option" where
  "wc_total y tot v =
     (case tot of (l, w, c) \<Rightarrow> do {
        (_, v1) \<leftarrow> fprintf y STDOUT ''%4d '' [num_arg l] v;
        (_, v2) \<leftarrow> fprintf y STDOUT ''%4d '' [num_arg w] v1;
        (_, v3) \<leftarrow> fprintf y STDOUT ''%4d '' [num_arg c] v2;
        std_write y (''total'' @ nl) v3})"

definition mysh_wc :: "'d sys \<Rightarrow> string list \<Rightarrow> 'd vfs \<Rightarrow> 'd flow option" where
  "mysh_wc y args v =
     (if args = [] then do {
        r \<leftarrow> single_wc y 0 [] (0, 0, 0) v;
        (case r of Inl v1 \<Rightarrow> Some (Exits v1) | Inr (_, v1) \<Rightarrow> Some (Returns 0 v1))}
      else do {
        r \<leftarrow> wc_files y args (0, 0, 0) v;
        (case r of
           Inl f \<Rightarrow> Some f
         | Inr (tot, v1) \<Rightarrow>
             if length args \<ge> 2 then map_option (Returns 0) (wc_total y tot v1) else Some (Returns 0 v1))})"

end
