(* ===== verification/Shell_Files.thy ===== *)
theory Shell_Files
  imports Shell_Cmds
begin

text \<open>
  The commands that list, change and copy directories and files, \<^verbatim>\<open>kernel/src/shell/buildin/\<close>.
\<close>

section \<open>Listing\<close>

text \<open>
  A name longer than the buffer of 200 characters overruns the stack; an empty one has no last
  character, and a buffer without a terminator is not a string.
\<close>

definition ls_file :: "string \<Rightarrow> string option" where
  "ls_file path =
     (if path = [] \<or> 200 \<le> length path then None
      else Some (if char_at path (length path - 1) \<noteq> CHR ''/'' then path @ ''/'' else path))"

text \<open>On a terminal a directory is blue, and a line is broken when a name would go beyond column 80.\<close>

definition ls_name :: "'d sys \<Rightarrow> nat \<Rightarrow> u32 \<times> u32 \<Rightarrow> string \<Rightarrow> string \<Rightarrow> int \<Rightarrow> 'd vfs \<Rightarrow> (int \<times> 'd vfs) option" where
  "ls_name y i ori file name cnt v =
     (if 200 \<le> length file + length name then None
      else do {
        (no, v1) \<leftarrow> vfs_access v (file @ name) O_DIRECTORY;
        let colors = (if no then ori else (0x00006fb8, snd ori));
        let v2 = clear_warn (v1\<lparr>devs := sys_set_tty y i (tty_set_color (sys_tty y i (devs v1)) colors) (devs v1)\<rparr>);
        let wide = 80 < nat ((cnt + int (length name)) mod 2 ^ 32);
        let cnt1 = (if wide then 0 else cnt);
        v3 \<leftarrow> (if wide then std_write y nl v2 else Some v2);
        (n, v4) \<leftarrow> fprintf y STDOUT ''%s  '' [VStr name] v3;
        Some (cnt1 + n, v4)})"

partial_function (option) ls_loop ::
  "'d sys \<Rightarrow> (nat \<times> (u32 \<times> u32) \<times> string) option \<Rightarrow> nat \<Rightarrow> int \<Rightarrow> 'd vfs \<Rightarrow> (int \<times> int \<times> 'd vfs) option" where
  "ls_loop y mode fd cnt v = do {
     (n, buf, v1) \<leftarrow> vfs_readdir v fd 200;
     if n > 0 then do {
       name \<leftarrow> (if 0 \<in> set buf then Some (chars buf) else None);
       (cnt', v2) \<leftarrow> (case mode of
          Some (i, ori, file) \<Rightarrow> ls_name y i ori file name cnt v1
        | None \<Rightarrow> map_option (\<lambda>(_, v2). (cnt, v2)) (fprintf y STDOUT (''%s'' @ nl) [VStr name] v1));
       ls_loop y mode fd cnt' v2}
     else Some (n, cnt, v1)}"

text \<open>The result tells whether reading the directory failed; a directory that cannot be opened does not count.\<close>

definition single_ls :: "'d sys \<Rightarrow> string \<Rightarrow> string \<Rightarrow> 'd vfs \<Rightarrow> (bool \<times> 'd vfs) option" where
  "single_ls y nm path v = do {
     (fd, v1) \<leftarrow> sys_open y path (O_RDONLY + O_DIRECTORY) v;
     if fd < 0 then map_option (\<lambda>v2. (False, v2)) (error_print y nm ''%s: '' [VStr path] v1)
     else do {
       t \<leftarrow> tty_at v1 STDOUT;
       mode \<leftarrow> (case t of None \<Rightarrow> Some None
                 | Some i \<Rightarrow> map_option (\<lambda>f. Some (i, tty_get_color (sys_tty y i (devs v1)), f)) (ls_file path));
       (n, cnt, v2) \<leftarrow> ls_loop y mode (nat fd) 0 v1;
       let v3 = (case mode of None \<Rightarrow> v2
                 | Some (i, ori, _) \<Rightarrow> v2\<lparr>devs := sys_set_tty y i (tty_set_color (sys_tty y i (devs v2)) ori) (devs v2)\<rparr>);
       v4 \<leftarrow> vfs_close v3 (nat fd);
       v5 \<leftarrow> (if cnt \<noteq> 0 then std_write y nl v4 else Some v4);
       Some (n < 0, v5)}}"

fun ls_dirs :: "'d sys \<Rightarrow> string \<Rightarrow> string list \<Rightarrow> bool \<Rightarrow> 'd vfs \<Rightarrow> (bool \<times> 'd vfs) option" where
  "ls_dirs y nm [] e v = Some (e, v)"
| "ls_dirs y nm (a # as) e v = do {
     (_, v1) \<leftarrow> fprintf y STDOUT (''%s:'' @ nl) [VStr a] v;
     (e1, v2) \<leftarrow> single_ls y nm a v1;
     v3 \<leftarrow> (if as \<noteq> [] then std_write y nl v2 else Some v2);
     ls_dirs y nm as (e \<or> e1) v3}"

definition mysh_ls :: "'d sys \<Rightarrow> string \<Rightarrow> string list \<Rightarrow> 'd vfs \<Rightarrow> 'd flow option" where
  "mysh_ls y nm args v =
     map_option (\<lambda>(e, v'). Returns (if e then - 1 else 0) v')
       (case args of [] \<Rightarrow> single_ls y nm ''.'' v | [a] \<Rightarrow> single_ls y nm a v | _ \<Rightarrow> ls_dirs y nm args False v)"

section \<open>Directories and links\<close>

text \<open>One call for every argument, then the error message if there is one.\<close>

fun each_arg :: "(string \<Rightarrow> 'd vfs \<Rightarrow> 'd vfs option) \<Rightarrow> string list \<Rightarrow> 'd vfs \<Rightarrow> 'd vfs option" where
  "each_arg f [] v = Some v"
| "each_arg f (a # as) v = do {v1 \<leftarrow> f a v; each_arg f as v1}"

definition mysh_cd :: "'d sys \<Rightarrow> string \<Rightarrow> string option \<Rightarrow> 'd vfs \<Rightarrow> 'd flow option" where
  "mysh_cd y nm a v = do {
     (r, v1) \<leftarrow> vfs_chdir v (case a of None \<Rightarrow> ''/'' | Some d \<Rightarrow> d);
     if r \<noteq> 0 then map_option (Returns (- 1)) (error_print y nm ''cd: %s: '' [str_arg a] v1)
     else Some (Returns 0 v1)}"

definition mysh_mkdir :: "'d sys \<Rightarrow> string \<Rightarrow> string list \<Rightarrow> 'd vfs \<Rightarrow> 'd flow option" where
  "mysh_mkdir y nm args v =
     (if args = [] then complain y (''Usage: mkdir files...'' @ nl) v
      else map_option (Returns 0)
        (each_arg (\<lambda>a v. do {
           (r, v1) \<leftarrow> vfs_mkdir v a;
           if r \<noteq> 0 then error_print y nm ''%s: '' [VStr a] v1 else Some v1}) args v))"

definition mysh_rmdir :: "'d sys \<Rightarrow> string \<Rightarrow> string list \<Rightarrow> 'd vfs \<Rightarrow> 'd flow option" where
  "mysh_rmdir y nm args v =
     (if args = [] then complain y (''Usage: rmdir [FILE]'' @ nl) v
      else map_option (Returns 0)
        (each_arg (\<lambda>a v. do {
           (_, v1) \<leftarrow> vfs_rmdir v a;
           error_print y nm ('' cannot remove '' @ apo @ ''%s'' @ apo @ '': '') [VStr a] v1}) args v))"

definition mysh_rm :: "'d sys \<Rightarrow> string \<Rightarrow> string list \<Rightarrow> 'd vfs \<Rightarrow> 'd flow option" where
  "mysh_rm y nm args v =
     (if args = [] then complain y (''Usage: rm [FILE]'' @ nl) v
      else map_option (Returns 0)
        (each_arg (\<lambda>a v. do {
           (_, v1) \<leftarrow> vfs_unlink v a;
           error_print y nm ('' cannot remove '' @ apo @ ''%s'' @ apo @ '': '') [VStr a] v1}) args v))"

text \<open>The message of \<^verbatim>\<open>printf\<close> goes to the console, which is not part of the state.\<close>

definition mysh_unlink :: "'d sys \<Rightarrow> string \<Rightarrow> string list \<Rightarrow> 'd vfs \<Rightarrow> 'd flow option" where
  "mysh_unlink y nm args v =
     (case args of
        [] \<Rightarrow> complain y (''Missing operand'' @ nl @ ''Usage: unlink FILE'' @ nl) v
      | [a] \<Rightarrow> do {
          (ret, v1) \<leftarrow> vfs_unlink v a;
          map_option (Returns ret) (error_print y nm ('' cannot unlink '' @ apo @ ''%s'' @ apo @ '': '') [VStr a] v1)}
      | _ \<Rightarrow> complain y (''To much operand'' @ nl @ ''Usage: unlink FILE'' @ nl) v)"

definition mysh_link :: "'d sys \<Rightarrow> string \<Rightarrow> string list \<Rightarrow> 'd vfs \<Rightarrow> 'd flow option" where
  "mysh_link y nm args v =
     (case args of
        [a, b] \<Rightarrow> do {
          (ret, v1) \<leftarrow> vfs_link (clear_warn v) a b;
          map_option (Returns ret)
            (error_print y nm (''cannot create link '' @ apo @ ''%s'' @ apo @ '' to '' @ apo @ ''%s'' @ apo @ '': '') [VStr b, VStr a] v1)}
      | a # b # c # _ \<Rightarrow> complain y (''To much operand'' @ nl @ ''Usage: link FILE1 FILE2'' @ nl) v
      | _ \<Rightarrow> complain y (''Missing operand'' @ nl @ ''Usage: link FILE1 FILE2'' @ nl) v)"

text \<open>A file that cannot be opened is closed nevertheless, with descriptor \<open>-1\<close>.\<close>

definition mysh_touch :: "'d sys \<Rightarrow> string \<Rightarrow> string list \<Rightarrow> 'd vfs \<Rightarrow> 'd flow option" where
  "mysh_touch y nm args v =
     (if args = [] then map_option (Returns 0) (warning y nm '' missing file operand'' v)
      else map_option (Returns 0)
        (each_arg (\<lambda>a v. do {
           (fd, v1) \<leftarrow> sys_open y a (O_WRONLY + O_APPEND + O_CREATE) v;
           n \<leftarrow> fd_of fd;
           vfs_close v1 n}) args v))"

section \<open>Copying and moving\<close>

definition mv_usage :: string where
  "mv_usage = ''Usage: mv SOURCE DEST'' @ nl @ ''  or:  mv FILE DIRECTORY'' @ nl"

text \<open>Any number of bytes but 0 is written; a failed read would write the buffer \<open>2 ^ 32 - 1\<close> bytes long.\<close>

partial_function (option) cp_loop :: "'d sys \<Rightarrow> nat \<Rightarrow> nat \<Rightarrow> 'd vfs \<Rightarrow> 'd vfs option" where
  "cp_loop y src dst v = do {
     (n, buf, v1) \<leftarrow> vfs_read (sys_env y) v src 0x100;
     if n = 0 then Some v1
     else if n < 0 then None
     else do {
       bs \<leftarrow> filled n buf;
       (_, v2) \<leftarrow> vfs_write (sys_env y) v1 dst bs;
       cp_loop y src dst v2}}"

text \<open>
  The name to write to: in a directory the last component of the source, otherwise the destination
  itself, which is removed first.  When neither can be reached the name is not set.
\<close>

definition cp_dest :: "'d sys \<Rightarrow> string \<Rightarrow> string \<Rightarrow> string \<Rightarrow> 'd vfs \<Rightarrow> (string \<times> 'd vfs) option" where
  "cp_dest y nm a b v = do {
     (no, v1) \<leftarrow> vfs_access v b (O_RDONLY + O_DIRECTORY);
     if no then do {
       (no', v2) \<leftarrow> vfs_access v1 b (O_RDONLY + O_CREATE);
       if no' then None
       else if 0x100 \<le> length b then None
       else do {(_, v3) \<leftarrow> vfs_unlink v2 b; Some (b, v3)}}
     else
       (let dest = b @ ''/'' @ drop (nat (get_last_slash a + 1)) a
        in if 0x100 \<le> length dest then None else Some (dest, v1))}"

definition copy_file :: "'d sys \<Rightarrow> string \<Rightarrow> string \<Rightarrow> string \<Rightarrow> 'd vfs \<Rightarrow> 'd vfs option" where
  "copy_file y nm a dest v = do {
     (s, v1) \<leftarrow> sys_open y a O_RDONLY (clear_warn v);
     (d, v2) \<leftarrow> sys_open y dest (O_WRONLY + O_CREATE) v1;
     src \<leftarrow> fd_of s;
     dst \<leftarrow> fd_of d;
     v3 \<leftarrow> cp_loop y src dst v2;
     error_print y nm [] [] v3}"

definition mysh_cp :: "'d sys \<Rightarrow> string \<Rightarrow> string list \<Rightarrow> 'd vfs \<Rightarrow> 'd flow option" where
  "mysh_cp y nm args v =
     (case args of
        [a, b] \<Rightarrow> do {
          (dest, v1) \<leftarrow> cp_dest y nm a b v;
          map_option (Returns 0) (copy_file y nm a dest v1)}
      | a # b # c # _ \<Rightarrow> complain y (''To much operand'' @ nl @ mv_usage) v
      | _ \<Rightarrow> complain y (''Missing operand'' @ nl @ mv_usage) v)"

definition mysh_mv :: "'d sys \<Rightarrow> string \<Rightarrow> string list \<Rightarrow> 'd vfs \<Rightarrow> 'd flow option" where
  "mysh_mv y nm args v =
     (case args of
        [a, b] \<Rightarrow> do {
          f \<leftarrow> mysh_cp y nm [a, b] v;
          (case f of
             Exits v1 \<Rightarrow> Some (Exits v1)
           | Returns ret v1 \<Rightarrow> if ret \<noteq> 0 then Some (Returns ret v1) else mysh_unlink y nm [a] v1)}
      | a # b # c # _ \<Rightarrow> complain y (''To much operand'' @ nl @ mv_usage) v
      | _ \<Rightarrow> complain y (''Missing operand'' @ nl @ mv_usage) v)"

end
