(* ===== verification/Shell_Main.thy ===== *)
theory Shell_Main
  imports Shell_Files Shell_Parse Klib_Stdlib
begin

text \<open>
  The remaining commands, the table of commands (\<^verbatim>\<open>kernel/src/shell/buildin.c\<close>), running a parsed
  line (\<^verbatim>\<open>shell/runcmd.c\<close>) and the loop of the shell (\<^verbatim>\<open>shell/shell.c\<close>).  A son the shell waits for
  runs to its end before the shell goes on; what runs side by side, a pipeline or a command in the
  background, is where \<open>runcmd\<close> stops.
\<close>

section \<open>Colours and waiting\<close>

text \<open>The colours that are set, or nothing for a wrong call.\<close>

definition color_args :: "string list \<Rightarrow> u32 \<times> u32 \<Rightarrow> (u32 \<times> u32) option" where
  "color_args args cur =
     (case args of
        [a, b] \<Rightarrow>
          if length a = 2 then
            (if a = ''bg'' \<or> a = ''BG'' then Some (fst cur, atoi16 b)
             else if a = ''fg'' \<or> a = ''FG'' then Some (atoi16 b, snd cur)
             else None)
          else if length a = 6 \<and> length b = 6 then Some (atoi16 a, atoi16 b)
          else None
      | _ \<Rightarrow> None)"

text \<open>The length of both arguments is taken before they are tested: with fewer it is that of a null pointer.\<close>

definition mysh_color :: "'d sys \<Rightarrow> string list \<Rightarrow> 'd vfs \<Rightarrow> 'd flow option" where
  "mysh_color y args v = do {
     t \<leftarrow> tty_at v STDOUT;
     i \<leftarrow> t;
     let cur = tty_get_color (sys_tty y i (devs v));
     let set_color = (\<lambda>c v. v\<lparr>devs := sys_set_tty y i (tty_set_color (sys_tty y i (devs v)) c) (devs v)\<rparr>);
     if length args < 2 then None
     else (case color_args args cur of
        Some c \<Rightarrow> Some (Returns 0 (set_color c v))
      | None \<Rightarrow> do {
          (_, v1) \<leftarrow> fprintf y STDERR
            (''Usage: color'' @ nl @ ''  or:  color [fg|bg] COLOR'' @ nl @ ''  or:  color COLOR COLOR'' @ nl @ ''FORMAT: ffffff'' @ nl) [] v;
          Some (Returns (- 1) (set_color cur v1))})}"

definition sleep_ms :: "string \<Rightarrow> u32" where
  "sleep_ms num = 1000 * fold (\<lambda>c w. w * 10 + of_int (cval c - 48)) num 0"

text \<open>The readings of the clock after the first one that is late enough; other tasks run meanwhile.\<close>

definition wait_since :: "u32 \<Rightarrow> u32 \<Rightarrow> u32 list \<Rightarrow> u32 list option" where
  "wait_since start ms clock = (case dropWhile (\<lambda>now. now - start < ms) clock of [] \<Rightarrow> None | _ # rest \<Rightarrow> Some rest)"

definition single_sleep :: "string \<Rightarrow> u32 list \<Rightarrow> u32 list option" where
  "single_sleep num clock = (case clock of [] \<Rightarrow> None | start # rest \<Rightarrow> wait_since start (sleep_ms num) rest)"

fun sleep_args :: "string list \<Rightarrow> u32 list \<Rightarrow> u32 list option" where
  "sleep_args [] clock = Some clock"
| "sleep_args (a # as) clock = do {rest \<leftarrow> single_sleep a clock; sleep_args as rest}"

definition mysh_sleep :: "'d sys \<Rightarrow> string list \<Rightarrow> 'd vfs \<Rightarrow> 'd flow option" where
  "mysh_sleep y args v =
     (if args \<noteq> [] then map_option (\<lambda>_. Returns 0 v) (sleep_args args (sys_clock y))
      else do {
        (_, v1) \<leftarrow> fprintf y STDERR (''sleep: missing operand'' @ nl) [] v;
        (_, v2) \<leftarrow> fprintf y STDERR ''Usage: sleep NUMBER'' [] v1;
        Some (Exits v2)})"

text \<open>Lines \<open>i\<close> to 20, one every second.\<close>

function test_loop :: "'d sys \<Rightarrow> nat \<Rightarrow> u32 \<Rightarrow> u32 list \<Rightarrow> 'd vfs \<Rightarrow> 'd vfs option" where
  "test_loop y i start clock v =
     (if 20 < i then Some v
      else do {
        rest \<leftarrow> wait_since start 1000 clock;
        (case rest of
           [] \<Rightarrow> None
         | now # rest' \<Rightarrow> do {
             (_, v1) \<leftarrow> fprintf y STDOUT (''Hello, world for the %d-th time!'' @ nl) [num_arg i] v;
             test_loop y (i + 1) now rest' v1})})"
  by pat_completeness auto
termination by (relation "measure (\<lambda>(_, i, _). 21 - i)") auto

definition mysh_test :: "'d sys \<Rightarrow> 'd vfs \<Rightarrow> 'd flow option" where
  "mysh_test y v = (case sys_clock y of [] \<Rightarrow> None | start # rest \<Rightarrow> map_option (Returns 0) (test_loop y 1 start rest v))"

section \<open>The table of commands\<close>

definition buildin_helps :: "(string \<times> string) list" where
  "buildin_helps =
    [(''echo'', ''Write arguments to the standard output.''),
     (''cat'', ''Concatenate FILE(s) to standard output.''),
     (''help'', ''Display information about builtin commands or commands with help information in help.h.''),
     (''cd'', ''Change the shell working directory.''),
     (''wc'', ''Print newline, word, and byte counts for each FILE, and a total line if more than one FILE is specified.''),
     (''ls'', ''List information about the FILEs (the current directory by default).''),
     (''mkdir'', ''Create the DIRECTORY(ies), if they do not already exist.''),
     (''sleep'', ''Pause for NUMBER seconds.''),
     (''touch'', ''Update the access and modification times of each FILE to the current time.''),
     (''test'', ''A test command. Now is used to test pipe''),
     (''link'', ''Call the link function to create a link named FILE2 to an existing FILE1.''),
     (''unlink'', ''Call the unlink function to remove the specified FILE.''),
     (''rm'', ''Remove (unlink) the FILE(s).''),
     (''mv'', ''Rename SOURCE to DEST, or move SOURCE to DIRECTORY.''),
     (''cp'', ''Copy SOURCE to DEST, or copy SOURCE to DIRECTORY.''),
     (''color'', ''Set color of current terminal.''),
     (''rmdir'', ''Remove the DIRECTORY(ies), if they are empty.'')]"

definition buildin_help :: "string \<Rightarrow> string option" where
  "buildin_help arg = map_of buildin_helps arg"

definition help_for :: "'d sys \<Rightarrow> string \<Rightarrow> 'd vfs \<Rightarrow> 'd vfs option" where
  "help_for y a v = do {
     v3 \<leftarrow> (case buildin_help a of
        Some help \<Rightarrow> std_write y help v
      | None \<Rightarrow> do {
          v1 \<leftarrow> std_write y (''help: no help topics match '' @ [CHR 0x60]) v;
          v2 \<leftarrow> std_write y a v1;
          std_write y apo v2});
     std_write y nl v3}"

definition mysh_help :: "'d sys \<Rightarrow> string list \<Rightarrow> 'd vfs \<Rightarrow> 'd flow option" where
  "mysh_help y args v =
     map_option (Returns 0)
       (if args = [] then
          std_write y (''Type '' @ [CHR 0x60] @ ''help name'' @ apo @ '' to find out more about the function '' @ [CHR 0x60] @ ''name'' @ apo @ ''.'' @ nl) v
        else each_arg (help_for y) args v)"

text \<open>The functions of the table, in its order; the task takes the name of the command.\<close>

definition buildin_binaries :: "('d sys \<Rightarrow> string \<Rightarrow> string list \<Rightarrow> 'd vfs \<Rightarrow> 'd flow option) list" where
  "buildin_binaries =
    [\<lambda>y nm. mysh_echo y, mysh_cat, \<lambda>y nm. mysh_help y,
     \<lambda>y nm args. mysh_cd y nm (if args = [] then None else Some (hd args)),
     \<lambda>y nm. mysh_wc y, mysh_ls, mysh_mkdir, \<lambda>y nm. mysh_sleep y, mysh_touch, \<lambda>y nm args. mysh_test y,
     mysh_link, mysh_unlink, mysh_rm, mysh_mv, mysh_cp, \<lambda>y nm. mysh_color y, mysh_rmdir]"

definition exec_buildin :: "'d sys \<Rightarrow> string \<Rightarrow> string list \<Rightarrow> 'd vfs \<Rightarrow> 'd flow option option" where
  "exec_buildin y file args v =
     map_option (\<lambda>binary. binary y file args v) (map_of (zip (map fst buildin_helps) buildin_binaries) file)"

definition vfs_exec :: "'d sys \<Rightarrow> string \<Rightarrow> string list \<Rightarrow> 'd vfs \<Rightarrow> 'd flow option" where
  "vfs_exec y file args v =
     (case exec_buildin y file args v of
        Some r \<Rightarrow> r
      | None \<Rightarrow> map_option (\<lambda>(_, v1). Returns (- 1) v1) (fprintf y STDERR (''%s: command not found'' @ nl) [VStr file] v))"

section \<open>Running a command\<close>

datatype 'd ran = Ran "'d flow" | Side_by_side cmd "'d vfs"

text \<open>The close, the name and the open of a redirection; the descriptor must be the one just closed.\<close>

definition run_redir_cmd :: "'d sys \<Rightarrow> string \<Rightarrow> nat \<Rightarrow> nat \<Rightarrow> 'd vfs \<Rightarrow> (bool \<times> 'd vfs) option" where
  "run_redir_cmd y file mode fd v = do {
     v1 \<leftarrow> vfs_close v fd;
     (case to_absolute (cur_pwd v1) file of
        Inl _ \<Rightarrow> None
      | Inr dest \<Rightarrow>
          if 0x100 \<le> length dest then None
          else map_option (\<lambda>(r, v2). (r = int fd, v2)) (sys_open y dest mode v1))}"

text \<open>A son shares the open files; \<^verbatim>\<open>exit\<close> closes what it has open.\<close>

fun share_files :: "nat list \<Rightarrow> 'd vfs \<Rightarrow> 'd vfs option" where
  "share_files [] v = Some v"
| "share_files (i # is) v =
     (if fds v i = 0 then share_files is v
      else (let file = files v (fds v i)
            in if file_lk file then None
               else share_files is (v\<lparr>files := (files v)(fds v i := file\<lparr>file_refcnt := file_refcnt file + 1\<rparr>)\<rparr>)))"

fun close_files :: "nat list \<Rightarrow> 'd vfs \<Rightarrow> 'd vfs option" where
  "close_files [] v = Some v"
| "close_files (i # is) v = (if fds v i = 0 then close_files is v else do {v1 \<leftarrow> vfs_close v i; close_files is v1})"

definition back_to :: "'d vfs \<Rightarrow> 'd vfs \<Rightarrow> 'd vfs" where
  "back_to v v1 = v1\<lparr>fds := fds v, cur_dir := cur_dir v, cur_pwd := cur_pwd v, err := err v\<rparr>"

definition in_son :: "('d vfs \<Rightarrow> 'd ran option) \<Rightarrow> 'd vfs \<Rightarrow> ('d vfs + cmd \<times> 'd vfs) option" where
  "in_son run v = do {
     v1 \<leftarrow> share_files [0..<FD_NUM] v;
     r \<leftarrow> run (clear_warn v1);
     (case r of
        Side_by_side c v2 \<Rightarrow> Some (Inr (c, v2))
      | Ran (Returns _ v2) \<Rightarrow> map_option (\<lambda>v3. Inl (back_to v v3)) (close_files [0..<FD_NUM] v2)
      | Ran (Exits v2) \<Rightarrow> map_option (\<lambda>v3. Inl (back_to v v3)) (close_files [0..<FD_NUM] v2))}"

fun runcmd :: "'d sys \<Rightarrow> cmd \<Rightarrow> 'd vfs \<Rightarrow> 'd ran option" where
  "runcmd y (EXEC argv) v =
     (if argv = [] then Some (Ran (Returns 0 v))
      else do {
        f \<leftarrow> vfs_exec y (hd argv) (tl argv) v;
        Some (Ran (case f of Returns _ v1 \<Rightarrow> Returns 0 v1 | Exits v1 \<Rightarrow> Exits v1))})"
| "runcmd y (REDIR c file mode fd) v = do {
     (ok, v1) \<leftarrow> run_redir_cmd y file mode fd v;
     if ok then runcmd y c v1 else Some (Ran (Exits v1))}"
| "runcmd y (LIST l r) v = do {
     s \<leftarrow> in_son (runcmd y l) v;
     (case s of Inl v1 \<Rightarrow> runcmd y r v1 | Inr (c, v1) \<Rightarrow> Some (Side_by_side c v1))}"
| "runcmd y (PIPE l r) v = Some (Side_by_side (PIPE l r) v)"
| "runcmd y (BACK c) v = Some (Side_by_side (BACK c) v)"

text \<open>A syntax error ends the son.\<close>

definition fork_and_run_raw :: "'d sys \<Rightarrow> string \<Rightarrow> 'd vfs \<Rightarrow> 'd ran option" where
  "fork_and_run_raw y input v =
     (case parsecmd input of
        Inr c \<Rightarrow> runcmd y c v
      | Inl (Panic_msg m) \<Rightarrow> map_option (\<lambda>(_, v1). Ran (Exits v1)) (vfs_write (sys_env y) v STDERR (bytes_of m))
      | Inl No_fuel \<Rightarrow> None)"

section \<open>The loop of the shell\<close>

definition is_cd :: "string \<Rightarrow> bool" where
  "is_cd input \<longleftrightarrow> take 2 input = ''cd'' \<and> (length input = 2 \<or> input ! 2 = CHR '' '')"

definition mysh_line :: "'d sys \<Rightarrow> string \<Rightarrow> string \<Rightarrow> 'd vfs \<Rightarrow> ('d vfs + cmd \<times> 'd vfs) option" where
  "mysh_line y nm input v =
     (if is_cd input then do {
        f \<leftarrow> mysh_cd y nm (if length input = 2 then None else Some (drop 3 input)) v;
        (case f of Returns _ v1 \<Rightarrow> Some (Inl v1) | Exits v1 \<Rightarrow> Some (Inl v1))}
      else in_son (fork_and_run_raw y input) v)"

text \<open>Prompt and read until there is something; the last character read is dropped.\<close>

partial_function (option) mysh_read :: "'d sys \<Rightarrow> string \<Rightarrow> 'd vfs \<Rightarrow> (string \<times> 'd vfs) option" where
  "mysh_read y prompt v = do {
     v1 \<leftarrow> std_write y prompt v;
     (n, buf, v2) \<leftarrow> vfs_read (sys_env y) v1 0 (2 ^ 32 - 1);
     if n = 0 then mysh_read y prompt v2
     else if n < 0 then None
     else do {
       bs \<leftarrow> filled n buf;
       if 0x100 < length bs then None else Some (chars (butlast bs), v2)}}"

definition mysh_step :: "'d sys \<Rightarrow> string \<Rightarrow> 'd vfs \<Rightarrow> ('d vfs + cmd \<times> 'd vfs) option" where
  "mysh_step y nm v =
     (case sprintf (\<lambda>_. []) ''(%s) [%s] $ '' [VStr nm, VStr (cur_pwd v)] of
        Inl _ \<Rightarrow> None
      | Inr (prompt, _) \<Rightarrow>
          if 0x100 \<le> length prompt then None
          else do {
            (input, v1) \<leftarrow> mysh_read y prompt v;
            mysh_line y nm input v1})"

definition mysh_init :: "'d sys \<Rightarrow> string \<Rightarrow> 'd vfs \<Rightarrow> 'd vfs option" where
  "mysh_init y tty v = do {
     (a, v1) \<leftarrow> sys_open y tty 7 v;
     if a \<noteq> 0 then None
     else do {
       (b, v2) \<leftarrow> sys_open y tty 7 v1;
       if b \<noteq> 1 then None
       else do {
         (c, v3) \<leftarrow> sys_open y tty 7 v2;
         if c \<noteq> 2 then None
         else do {(_, v4) \<leftarrow> vfs_chdir v3 ''/''; Some v4}}}}"

end
