(* ===== verification/Shell_Props.thy ===== *)
theory Shell_Props
  imports Shell_Main Blkfs_Dir
begin

text \<open>
  What commands do to files: \<^verbatim>\<open>wc\<close> counts the contents of a file of the disk, and a redirection
  either gives the command its file at the descriptor asked for or the command does not run.
\<close>

section \<open>Counting\<close>

text \<open>A word starts at a character that is not blank and follows a blank or nothing.\<close>

definition word_starts :: "u8 list \<Rightarrow> nat \<Rightarrow> bool" where
  "word_starts bs i \<longleftrightarrow> \<not> is_blank (bs ! i) \<and> (i = 0 \<or> is_blank (bs ! (i - 1)))"

definition counts_of :: "u8 list \<Rightarrow> counts" where
  "counts_of bs = (count_list bs 0x0a, length (filter (word_starts bs) [0..<length bs]), length bs)"

lemma word_starts_snoc: "i < length bs \<Longrightarrow> word_starts (bs @ [b]) i = word_starts bs i"
  by (auto simp: word_starts_def nth_append)

lemma counts_snoc:
  "counts_of (bs @ [b]) =
     (case counts_of bs of (l, w, c) \<Rightarrow>
        (if b = 0x0a then l + 1 else l, if \<not> is_blank b \<and> (bs = [] \<or> is_blank (last bs)) then w + 1 else w, c + 1))"
proof -
  have "filter (word_starts (bs @ [b])) [0..<length bs] = filter (word_starts bs) [0..<length bs]"
    by (rule filter_cong) (auto simp: word_starts_snoc)
  moreover have "word_starts (bs @ [b]) (length bs) \<longleftrightarrow> \<not> is_blank b \<and> (bs = [] \<or> is_blank (last bs))"
    by (cases "bs = []") (auto simp: word_starts_def nth_append last_conv_nth)
  ultimately show ?thesis by (simp add: counts_of_def)
qed

lemma wc_fold: "fold wc_byte bs ((0, 0, 0), False) = (counts_of bs, bs \<noteq> [] \<and> \<not> is_blank (last bs))"
proof (induction bs rule: rev_induct)
  case Nil
  then show ?case by (simp add: counts_of_def)
next
  case (snoc b bs)
  then show ?case
    by (cases "counts_of bs") (auto simp: counts_snoc wc_byte_def Let_def)
qed

section \<open>A file of the disk\<close>

text \<open>The descriptor is open at the start of a file with the given contents, no longer than one read.\<close>

definition disk_file :: "'d vfs \<Rightarrow> nat \<Rightarrow> u8 list \<Rightarrow> bool" where
  "disk_file v fd bs \<longleftrightarrow> fds v fd \<noteq> 0 \<and> offset (files v (fds v fd)) = 0 \<and> length bs \<le> 0x200 \<and>
     (\<exists>k n nd cs. contents v (file_inode (files v (fds v fd))) = BlkI k n \<and> node_at (bfs v k) n = Some nd \<and>
        node_type nd = YLS_FILE \<and> node_size nd = length bs \<and> chain (dev (bfs v k)) cs \<and> info nd = hd cs \<and>
        length bs \<le> 0x7c * length cs \<and> take (length bs) (file_bytes (dev (bfs v k)) cs) = bs)"

definition at_end :: "nat \<Rightarrow> nat \<Rightarrow> 'd vfs \<Rightarrow> 'd vfs" where
  "at_end fd n v = v\<lparr>files := (files v)(fds v fd := (files v (fds v fd))\<lparr>offset := n\<rparr>)\<rparr>"

lemma block_read_start:
  assumes "chain d cs" "length bs \<le> 0x7c * length cs" "take (length bs) (file_bytes d cs) = bs"
  shows "block_read d (hd cs) 0 (length bs) = Some (length bs, bs)"
proof -
  have ne: "cs \<noteq> []" using assms(1) by (simp add: chain_def)
  then have h: "hd cs = cs ! 0" by (simp add: hd_conv_nth)
  then have "block_ok d (hd cs)" using assms(1) ne chain_block by (metis length_greater_0_conv)
  then have a: "add32 (hd cs) 0 = hd cs" using add32_eq [of "hd cs" 0] by (simp add: block_ok_def fits_def)
  have f: "find_block d 0 (hd cs) = Some (0, 0, hd cs)" by (simp add: find_block.simps)
  show ?thesis
  proof (cases "bs = []")
    case True
    then show ?thesis by (simp add: block_read_def f a block_read_loop.simps)
  next
    case False
    then have "block_read_loop d (hd cs) (length bs) (length bs) [] = Some (length bs, bs)"
      using read_loop [OF assms(1), of 0 "length bs" "length bs" "[]"] ne assms(2,3) by (simp add: h Let_def)
    then show ?thesis by (simp add: block_read_def f a)
  qed
qed

lemma block_read_nothing:
  assumes "chain d cs" "n \<le> 0x7c * length cs"
  shows "block_read d (hd cs) n 0 = Some (0, [])"
proof -
  have "cs \<noteq> []" using assms(1) by (simp add: chain_def)
  then have "\<exists>s b. find_block d n (hd cs) = Some (0, s, b)"
    using find_block_chain [OF assms(1), of 0 n] assms(2) by (simp add: hd_conv_nth)
  then show ?thesis by (auto simp: block_read_def block_read_loop.simps)
qed

lemma at_end_simps [simp]:
  "fds (at_end fd n v) = fds v" "contents (at_end fd n v) = contents v" "bfs (at_end fd n v) = bfs v"
  "devs (at_end fd n v) = devs v" "at_end fd m (at_end fd n v) = at_end fd m v"
  "files (at_end fd n v) (fds v fd) = (files v (fds v fd))\<lparr>offset := n\<rparr>"
  by (simp_all add: at_end_def)

text \<open>One read returns everything, the next one nothing.\<close>

lemma disk_file_read:
  assumes "disk_file v fd bs"
  shows "vfs_read e v fd 0x200 = Some (int (length bs), bs, at_end fd (length bs) v)"
    and "vfs_read e (at_end fd (length bs) v) fd 0x200 = Some (0, [], at_end fd (length bs) v)"
proof -
  obtain k n nd cs where h: "fds v fd \<noteq> 0" "offset (files v (fds v fd)) = 0" "length bs \<le> 0x200"
    "contents v (file_inode (files v (fds v fd))) = BlkI k n" "node_at (bfs v k) n = Some nd"
    "node_type nd = YLS_FILE" "node_size nd = length bs" "chain (dev (bfs v k)) cs" "info nd = hd cs"
    "length bs \<le> 0x7c * length cs" "take (length bs) (file_bytes (dev (bfs v k)) cs) = bs"
    using assms by (auto simp: disk_file_def)
  have t: "YLS_FILE \<noteq> YLS_DIR" by (simp add: YLS_FILE_def YLS_DIR_def)
  have a: "add32 0x200 0 = 0x200" "add32 0x200 (length bs) = 0x200 + length bs" "add32 0 (length bs) = length bs"
    "sub32 (length bs) 0 = length bs" "sub32 (length bs) (length bs) = 0" "add32 (length bs) 0 = length bs" "add32 0 0x200 = 0x200"
    using h(3) by (simp_all add: add32_def sub32_def)
  have same: "v\<lparr>files := (files v)(fds v fd := (files v (fds v fd))\<lparr>offset := x\<rparr>), devs := devs v\<rparr> = at_end fd x v" for x
    by (simp add: at_end_def)
  have "vfs_read e v fd 0x200 = Some (int (length bs), bs, at_end fd (length bs) v)"
  proof (cases "0x200 > length bs")
    case True
    then show ?thesis
      using h t block_read_start [OF h(8,10,11)] by (simp add: vfs_read_def file_read_def blkfs_iread_def Let_def a at_end_def)
  next
    case False
    then have "length bs = 0x200" using h(3) by simp
    then show ?thesis
      using h t block_read_start [OF h(8,10,11)] by (simp add: vfs_read_def file_read_def blkfs_iread_def Let_def a at_end_def)
  qed
  then show "vfs_read e v fd 0x200 = Some (int (length bs), bs, at_end fd (length bs) v)" .
  show "vfs_read e (at_end fd (length bs) v) fd 0x200 = Some (0, [], at_end fd (length bs) v)"
    using h t block_read_nothing [OF h(8,10)] by (simp add: vfs_read_def file_read_def blkfs_iread_def Let_def a) (simp add: at_end_def)
qed

text \<open>C28: on a file of the disk of at most 512 bytes the loop of wc returns, with the numbers of lines,
  words and characters of the contents, and leaves the descriptor at the end of the file.\<close>

theorem wc_disk_file:
  assumes "disk_file v fd bs"
  shows "wc_loop y fd ((0, 0, 0), False) v = Some (counts_of bs, 0, at_end fd (length bs) v)"
proof (cases "bs = []")
  case True
  then show ?thesis using disk_file_read(1) [OF assms] by (simp add: wc_loop.simps counts_of_def)
next
  case False
  have "wc_loop y fd ((0, 0, 0), False) v = wc_loop y fd (fold wc_byte bs ((0, 0, 0), False)) (at_end fd (length bs) v)"
    using disk_file_read(1) [OF assms] False by (subst wc_loop.simps) (simp add: filled_def)
  also have "\<dots> = Some (counts_of bs, 0, at_end fd (length bs) v)"
    using disk_file_read(2) [OF assms] by (subst wc_loop.simps) (simp add: wc_fold)
  finally show ?thesis .
qed

text \<open>The file \<open>a b\<close>, with a new line, in one block.\<close>

definition wc_disk :: rd where
  "wc_disk = \<lparr>rd_mem = (\<lambda>i. if i = 0x180 then 97 else if i = 0x181 then 0x20 else if i = 0x182 then 98
     else if i = 0x183 then 0x0a else 0), rd_size = 0x10000\<rparr>"

definition wc_vfs :: "unit vfs" where
  "wc_vfs = \<lparr>bfs = (\<lambda>_. \<lparr>dev = wc_disk, nodes = [\<lparr>refcnt = 1, info = 0x180, node_size = 4, node_type = YLS_FILE\<rparr>]\<rparr>),
     contents = (\<lambda>a. a), blk_parent = (\<lambda>_. BlkI 0 0), dev_parent = BlkI 0 0, proc_parent = BlkI 0 0, vfs_root = BlkI 0 0,
     mounts = [], devs = (), ptasks = (\<lambda>_. None), files = (\<lambda>_. fresh_file (BlkI 0 0)), fds = (\<lambda>_. 1), cur_dir = BlkI 0 0,
     cur_pwd = ''/'', err = []\<rparr>"

definition demo_sys :: "unit sys" where
  "demo_sys = \<lparr>sys_env = \<lparr>env_devs = undefined, env_mem = (0, 0), env_rate = [], env_uptime = 0\<rparr>, sys_alloc = (\<lambda>_. 2),
     sys_clock = [], sys_tty = (\<lambda>_ _. tty_init 80 25 1), sys_set_tty = (\<lambda>_ _ u. u)\<rparr>"

lemma wc_disk_chain: "chain wc_disk [0x180]"
proof -
  have "map (rd_mem wc_disk) [0x1fc..<0x1fc + 4] = [0, 0, 0, 0]" by (simp add: wc_disk_def upt_conv_Cons)
  then have "get32 wc_disk 0x1fc = 0" by (simp add: get32_def)
  then show ?thesis by (simp add: chain_def block_ok_def fits_def wc_disk_def)
qed

lemma four: "Suc (Suc (Suc (Suc 0))) = 4" by simp

lemma wc_disk_bytes: "take (Suc (Suc (Suc (Suc 0)))) (file_bytes wc_disk [0x180]) = [97, 0x20, 98, 0x0a]"
proof -
  have "take 4 (file_bytes wc_disk [0x180]) = map (fbyte wc_disk [0x180]) [0..<4]"
    by (simp add: file_bytes_def take_map take_upt)
  then show ?thesis by (simp add: four upt_conv_Cons fbyte_def wc_disk_def)
qed

theorem wc_disk_file_witness:
  "wc_loop demo_sys 0 ((0, 0, 0), False) wc_vfs = Some ((1, 2, 4), 0, at_end 0 4 wc_vfs)"
proof -
  have "disk_file wc_vfs 0 [97, 0x20, 98, 0x0a]"
    unfolding disk_file_def
    by (intro conjI exI [where x = 0] exI [where x = "\<lparr>refcnt = 1, info = 0x180, node_size = 4, node_type = YLS_FILE\<rparr>"] exI [where x = "[0x180]"])
       (simp_all add: wc_vfs_def fresh_file_def node_at_def wc_disk_chain wc_disk_bytes)
  from wc_disk_file [OF this, of demo_sys] show ?thesis
    by (simp add: counts_of_def word_starts_def is_blank_def upt_conv_Cons four)
qed

section \<open>Redirection\<close>

lemma find_step_fds: "find_step v cur path flags = Some (r, v') \<Longrightarrow> fds v' = fds v"
  by (auto simp: find_step_def bind_eq_Some_conv split: inode.splits if_splits prod.splits)

lemma vfs_find_fds:
  assumes "vfs_find v cur path flags = Some r"
  shows "fds (snd r) = fds v"
proof (rule vfs_find.raw_induct [OF _ assms])
  fix g v cur path flags r
  assume h: "\<And>v cur path flags r. g v cur path flags = Some r \<Longrightarrow> fds (snd r) = fds v"
    and b: "do {(r, v') \<leftarrow> find_step v cur path flags;
      case r of Found a \<Rightarrow> Some (Some a, v') | Next a rest \<Rightarrow> g v' a rest flags | Missing w \<Rightarrow> Some (None, warn w v')} = Some r"
  then obtain r1 v1 where s: "find_step v cur path flags = Some (r1, v1)" by (auto simp: bind_eq_Some_conv)
  then show "fds (snd r) = fds v" using b h find_step_fds [OF s] by (cases r1) (auto simp: warn_def)
qed

lemma vfs_close_fds: "vfs_close v fd = Some v' \<Longrightarrow> fds v fd \<noteq> 0 \<and> fds v' = (fds v)(fd := 0)"
  by (auto simp: vfs_close_def Let_def bind_eq_Some_conv split: if_splits)

lemma file_open_fds: "file_open v file flags = Some (v', file') \<Longrightarrow> fds v' = fds v"
  by (auto simp: file_open_def split: inode.splits)

lemma vfs_open_fds:
  "vfs_open v p path flags = Some (r, v') \<Longrightarrow>
     \<exists>fd. new_fd_num (fds v) = Some fd \<and> (r = - 1 \<and> fds v' = fds v \<or> r = int fd \<and> fds v' = (fds v)(fd := p))"
  using vfs_find_fds file_open_fds
  by (fastforce simp: vfs_open_def vfs_lookup_def bind_eq_Some_conv split: option.splits)

text \<open>The lowest free descriptor is the one just closed exactly when all lower ones are open.\<close>

lemma new_fd_num_closed:
  assumes "fd < FD_NUM" "new_fd_num (f(fd := 0)) = Some n"
  shows "n \<le> fd" "\<forall>i<n. f i \<noteq> 0" "n < fd \<Longrightarrow> f n = 0"
proof -
  have n: "n < FD_NUM" "(f(fd := 0)) n = 0" "\<forall>i<n. (f(fd := 0)) i \<noteq> 0"
    using assms(2) by (auto simp: new_fd_num_def find_Some_iff)
  then show "n \<le> fd" by (metis fun_upd_same not_le)
  then show "\<forall>i<n. f i \<noteq> 0" "n < fd \<Longrightarrow> f n = 0" using n by (auto split: if_splits)
qed


definition redir_vfs :: "unit vfs" where
  "redir_vfs = wc_vfs\<lparr>contents := (\<lambda>_. DevRootI), files := (\<lambda>_. (fresh_file (BlkI 0 0))\<lparr>file_refcnt := 1\<rparr>)\<rparr>"

lemma redir_open: "\<exists>v'. run_redir_cmd demo_sys ''/'' O_RDONLY 0 redir_vfs = Some (True, v')"
proof -
  have "\<exists>v1. vfs_close redir_vfs 0 = Some v1 \<and> cur_pwd v1 = ''/'' \<and> fds v1 = (\<lambda>_. 1)(0 := 0) \<and> contents v1 = (\<lambda>_. DevRootI)"
    by (simp add: vfs_close_def redir_vfs_def wc_vfs_def devfs_iclose_def fresh_file_def Let_def)
  then obtain v1 where v1: "vfs_close redir_vfs 0 = Some v1" "fds v1 = (\<lambda>_. 1)(0 := 0)" "contents v1 = (\<lambda>_. DevRootI)"
    by blast
  moreover have "new_fd_num (fds v1) = Some 0" by (simp add: v1(2) new_fd_num_def FD_NUM_def upt_conv_Cons)
  moreover have "vfs_find v1 (vfs_root v1) ''/'' O_RDONLY = Some (Some (vfs_root v1), v1)"
    by (simp add: vfs_find.simps find_step_def v1(3) devfs_rootifind_def check_def)
  ultimately show ?thesis
    by (simp add: run_redir_cmd_def sys_open_def vfs_open_def vfs_lookup_def file_open_def to_absolute_def fresh_file_def char_at_def)
qed


end
