(* ===== verification/Libco.thy ===== *)
theory Libco
  imports Prelude "HOL-Library.Monad_Syntax"
begin

unbundle bit_operations_syntax

text \<open>
  Coroutines, \<^verbatim>\<open>libco/co.c\<close>.  A routine is a slot with a status, a stack and a jump buffer.  What
  \<^verbatim>\<open>setjmp\<close> saves is the place where the routine goes on: at its entry or inside \<^verbatim>\<open>co_yield\<close>.  Routines
  are started and waited for by the main program.  Of the functions they run only the number of
  \<^verbatim>\<open>co_yield\<close> calls before the return matters; the results of \<^verbatim>\<open>rand\<close> are a list.
\<close>

section \<open>Routines and the pool\<close>

definition MAX_ROUTINES :: nat where
  "MAX_ROUTINES = 100"

datatype place = Nowhere | At_entry | In_yield

record 'f co =
  stat :: "nat \<Rightarrow> u8"
  tar_buf :: "nat \<Rightarrow> place"
  entry :: "nat \<Rightarrow> 'f"
  pool :: "nat \<Rightarrow> nat"
  pool_idx :: nat
  current :: nat

definition CO_ALIVE :: u8 where
  "CO_ALIVE = 1"

definition alive :: "'f co \<Rightarrow> nat \<Rightarrow> bool" where
  "alive s i \<longleftrightarrow> stat s i AND CO_ALIVE \<noteq> 0"

text \<open>An empty pool ends the program.\<close>

definition new_co :: "'f co \<Rightarrow> (nat \<times> 'f co) option" where
  "new_co s =
     (if pool_idx s = 0 then None
      else
        let i = pool s (pool_idx s - 1)
        in Some (i, s\<lparr>pool_idx := pool_idx s - 1, stat := (stat s)(i := CO_ALIVE)\<rparr>))"

definition co_init :: "'f co \<Rightarrow> 'f co" where
  "co_init s = s\<lparr>pool_idx := MAX_ROUTINES,
     pool := (\<lambda>i. if i < MAX_ROUTINES then i else pool s i),
     stat := (\<lambda>i. if i < MAX_ROUTINES then 0 else stat s i)\<rparr>"

definition co_start :: "'f \<Rightarrow> 'f co \<Rightarrow> (nat \<times> 'f co) option" where
  "co_start f s = do {
     (i, s1) \<leftarrow> new_co s;
     Some (i, s1\<lparr>current := i, entry := (entry s1)(i := f), tar_buf := (tar_buf s1)(i := At_entry)\<rparr>)}"

section \<open>Switching\<close>

text \<open>A jump needs a buffer that has been set.\<close>

definition co_jmp :: "nat \<Rightarrow> 'f co \<Rightarrow> 'f co option" where
  "co_jmp i s = (if tar_buf s i = Nowhere then None else Some (s\<lparr>current := i\<rparr>))"

text \<open>Random slots until one is alive.\<close>

fun next_co :: "'f co \<Rightarrow> nat list \<Rightarrow> (nat \<times> nat list) option" where
  "next_co s [] = None"
| "next_co s (r # rs) = (if alive s (r mod MAX_ROUTINES) then Some (r mod MAX_ROUTINES, rs) else next_co s rs)"

definition co_yield :: "nat list \<Rightarrow> 'f co \<Rightarrow> (nat list \<times> 'f co) option" where
  "co_yield rs s = do {
     (i, rs') \<leftarrow> next_co s rs;
     s' \<leftarrow> co_jmp i (s\<lparr>tar_buf := (tar_buf s)(current s := In_yield)\<rparr>);
     Some (rs', s')}"

text \<open>What \<^verbatim>\<open>co_start\<close> does when the function of the routine has returned.\<close>

definition co_end :: "'f co \<Rightarrow> 'f co option" where
  "co_end s =
     (if MAX_ROUTINES \<le> pool_idx s then None
      else Some (s\<lparr>stat := (stat s)(current s := stat s (current s) AND NOT CO_ALIVE),
     pool := (pool s)(pool_idx s := current s), pool_idx := pool_idx s + 1\<rparr>))"

lemma next_co_rest: "Some (i, rs') = next_co s rs \<Longrightarrow> length rs' < length rs"
  by (induction s rs rule: next_co.induct) (auto split: if_splits)

text \<open>
  Routines run until one of them ends, which goes back to the main program: \<open>left\<close> is the number
  of times each routine still yields.
\<close>

function co_run :: "(nat \<Rightarrow> nat) \<Rightarrow> nat list \<Rightarrow> 'f co \<Rightarrow> ((nat \<Rightarrow> nat) \<times> nat list \<times> 'f co) option" where
  "co_run left rs s =
     (if left (current s) = 0 then map_option (\<lambda>s'. (left, rs, s')) (co_end s)
      else
        (case co_yield rs s of
           None \<Rightarrow> None
         | Some (rs', s') \<Rightarrow> co_run (left(current s := left (current s) - 1)) rs' s'))"
  by pat_completeness auto
termination
  by (relation "measure (\<lambda>(_, rs, _). length rs)") (auto simp: co_yield_def bind_eq_Some_conv dest: next_co_rest [OF sym])

declare co_run.simps [simp del]

text \<open>The jump back from a routine leaves the loop whichever routine ended.\<close>

definition co_wait :: "nat \<Rightarrow> (nat \<Rightarrow> nat) \<Rightarrow> nat list \<Rightarrow> 'f co \<Rightarrow> ((nat \<Rightarrow> nat) \<times> nat list \<times> 'f co) option" where
  "co_wait thd left rs s = do {
     (left', rs', s') \<leftarrow> (if alive s thd then do {s1 \<leftarrow> co_jmp thd s; co_run left rs s1} else Some (left, rs, s));
     Some (left', rs', s'\<lparr>stat := (stat s')(thd := 0)\<rparr>)}"

section \<open>The pool\<close>

text \<open>
  The slots in the pool are different and none of them is a live routine; a live routine can be
  jumped to.
\<close>

definition co_inv :: "'f co \<Rightarrow> bool" where
  "co_inv s \<longleftrightarrow> pool_idx s \<le> MAX_ROUTINES \<and> inj_on (pool s) {..<pool_idx s} \<and>
     (\<forall>j<pool_idx s. pool s j < MAX_ROUTINES \<and> \<not> alive s (pool s j)) \<and>
     (\<forall>i. alive s i \<longrightarrow> i < MAX_ROUTINES \<and> tar_buf s i \<noteq> Nowhere)"

definition live :: "'f co \<Rightarrow> nat set" where
  "live s = {i. alive s i}"

definition free_slots :: "'f co \<Rightarrow> nat set" where
  "free_slots s = pool s ` {..<pool_idx s}"

lemma alive_start [simp]: "CO_ALIVE \<noteq> 0"
  by (simp add: CO_ALIVE_def)

lemma alive_end [simp]: "(w AND NOT CO_ALIVE) AND CO_ALIVE = 0"
  by (rule bit_eqI) (auto simp: bit_simps)

lemma finite_live: "co_inv s \<Longrightarrow> finite (live s)"
  by (rule finite_subset [of _ "{..<MAX_ROUTINES}"]) (auto simp: co_inv_def live_def)

lemma co_inv_init: "co_inv (co_init s)" if "\<forall>i\<ge>MAX_ROUTINES. \<not> alive s i"
  using that by (auto simp: co_inv_def co_init_def alive_def inj_on_def MAX_ROUTINES_def)

text \<open>A slot is handed out once: it leaves the pool and was not live.\<close>

lemma co_start_inv:
  assumes "co_inv s" "co_start f s = Some (i, s')"
  shows "co_inv s'" "i \<notin> live s" "live s' = insert i (live s)" "i \<in> free_slots s" "free_slots s' = free_slots s - {i}"
proof -
  define n where "n = pool_idx s - 1"
  have n: "pool_idx s = Suc n" "i = pool s n"
    "s' = s\<lparr>pool_idx := n, stat := (stat s)(i := CO_ALIVE), current := i, entry := (entry s)(i := f),
       tar_buf := (tar_buf s)(i := At_entry)\<rparr>"
    using assms(2) by (auto simp: co_start_def new_co_def n_def Let_def split: if_splits)
  have a: "alive s' j \<longleftrightarrow> j = i \<or> alive s j" for j by (auto simp: alive_def n(3))
  have i: "i < MAX_ROUTINES" "\<not> alive s i" using assms(1) n(1,2) by (auto simp: co_inv_def)
  have inj: "inj_on (pool s) {..<Suc n}" using assms(1) n(1) by (simp add: co_inv_def)
  then have ne: "pool s j \<noteq> i" if "j < n" for j using that n(2) by (auto simp: inj_on_def)
  show "i \<notin> live s" "live s' = insert i (live s)" "i \<in> free_slots s" using i a n by (auto simp: live_def free_slots_def)
  show "free_slots s' = free_slots s - {i}"
    using ne by (auto simp: free_slots_def n lessThan_Suc)
  have "inj_on (pool s) {..<n}" using inj by (rule inj_on_subset) auto
  then show "co_inv s'"
    using assms(1) ne i unfolding co_inv_def a by (auto simp: n(1,3))
qed

lemma co_yield_inv:
  assumes "co_inv s" "alive s (current s)" "co_yield rs s = Some (rs', s')"
  shows "co_inv s'" "alive s' (current s')" "live s' = live s" "free_slots s' = free_slots s"
proof -
  have "alive s i" if "next_co s rs = Some (i, rs')" for i rs'
    using that by (induction s rs rule: next_co.induct) (auto split: if_splits)
  then obtain i where i: "alive s i" "s' = s\<lparr>tar_buf := (tar_buf s)(current s := In_yield), current := i\<rparr>"
    using assms(3) by (auto simp: co_yield_def co_jmp_def bind_eq_Some_conv split: if_splits)
  have a: "alive s' j = alive s j" for j by (simp add: i(2) alive_def)
  have c: "current s' = i" "free_slots s' = free_slots s" by (simp_all add: i(2) free_slots_def)
  show "alive s' (current s')" "live s' = live s" "free_slots s' = free_slots s"
    using i(1) c by (simp_all add: a live_def)
  show "co_inv s'" using assms(1) unfolding co_inv_def a by (auto simp: i(2))
qed

lemma co_end_inv:
  assumes "co_inv s" "alive s (current s)"
  shows "\<exists>s'. co_end s = Some s' \<and> co_inv s' \<and> live s' = live s - {current s} \<and>
    free_slots s' = insert (current s) (free_slots s)"
proof -
  define c where "c = current s"
  define s' where "s' = s\<lparr>stat := (stat s)(c := stat s c AND NOT CO_ALIVE), pool := (pool s)(pool_idx s := c), pool_idx := pool_idx s + 1\<rparr>"
  have c: "c < MAX_ROUTINES" "c \<notin> free_slots s" "free_slots s \<subseteq> {..<MAX_ROUTINES}"
    using assms by (auto simp: co_inv_def free_slots_def c_def)
  have "card (free_slots s) = pool_idx s" using assms(1) by (simp add: co_inv_def free_slots_def card_image)
  moreover have "card (insert c (free_slots s)) \<le> card {..<MAX_ROUTINES}" using c by (intro card_mono) auto
  ultimately have room: "pool_idx s < MAX_ROUTINES" using c finite_subset [OF c(3)] by simp
  have a: "alive s' j \<longleftrightarrow> j \<noteq> c \<and> alive s j" for j by (auto simp: alive_def s'_def)
  have f: "free_slots s' = insert c (free_slots s)"
    by (auto simp: free_slots_def s'_def lessThan_Suc image_iff) 
  have "inj_on (pool s') {..<pool_idx s'}"
    using assms(1) c(2) by (auto simp: co_inv_def inj_on_def s'_def free_slots_def less_Suc_eq)
  then have "co_inv s'"
    using assms(1) room c(1) unfolding co_inv_def a by (auto simp: s'_def less_Suc_eq)
  moreover have "co_end s = Some s'" using room by (simp add: co_end_def s'_def c_def)
  ultimately show ?thesis using f by (auto simp: live_def a c_def)
qed

section \<open>Waiting returns\<close>

text \<open>The slots \<open>rand\<close> names that are live.\<close>

definition hits :: "'f co \<Rightarrow> nat list \<Rightarrow> nat" where
  "hits s rs = length (filter (\<lambda>r. alive s (r mod MAX_ROUTINES)) rs)"

lemma hits_live: "live s' = live s \<Longrightarrow> hits s' rs = hits s rs"
  by (simp add: hits_def live_def set_eq_iff)

lemma next_co_hits: "0 < hits s rs \<Longrightarrow> \<exists>i rs'. next_co s rs = Some (i, rs') \<and> alive s i \<and> hits s rs = Suc (hits s rs')"
  by (induction s rs rule: next_co.induct) (auto simp: hits_def)

lemma co_yield_hits:
  assumes "co_inv s" "0 < hits s rs"
  shows "\<exists>rs' s'. co_yield rs s = Some (rs', s') \<and> hits s rs = Suc (hits s rs')"
proof -
  obtain i rs' where i: "next_co s rs = Some (i, rs')" "alive s i" "hits s rs = Suc (hits s rs')"
    using next_co_hits [OF assms(2)] by blast
  moreover have "tar_buf s i \<noteq> Nowhere" using assms(1) i(2) by (auto simp: co_inv_def)
  ultimately show ?thesis by (simp add: co_yield_def co_jmp_def)
qed

lemma co_run_ends:
  assumes "co_inv s" "alive s (current s)" "(\<Sum>i\<in>live s. left i) \<le> hits s rs"
  shows "\<exists>left' rs' s' r. co_run left rs s = Some (left', rs', s') \<and> r \<in> live s \<and> left' r = 0 \<and> co_inv s' \<and>
    live s' = live s - {r} \<and> free_slots s' = insert r (free_slots s)"
  using assms
proof (induction left rs s rule: co_run.induct)
  case (1 left rs s)
  let ?c = "current s"
  show ?case
  proof (cases "left ?c = 0")
    case True
    then have "co_run left rs s = map_option (\<lambda>s'. (left, rs, s')) (co_end s)" by (subst co_run.simps) simp
    then show ?thesis using co_end_inv [OF 1(2,3)] 1(3) True by (auto simp: live_def)
  next
    case False
    have c: "?c \<in> live s" using 1(3) by (simp add: live_def)
    have sum: "(\<Sum>i\<in>live s. left i) = Suc (\<Sum>i\<in>live s. (left(?c := left ?c - 1)) i)"
      using False c finite_live [OF 1(2)] by (simp add: sum.remove)
    then obtain rs' s' where y: "co_yield rs s = Some (rs', s')" "hits s rs = Suc (hits s rs')"
      using co_yield_hits [OF 1(2), of rs] 1(4) by auto
    note inv = co_yield_inv [OF 1(2,3) y(1)]
    have "(\<Sum>i\<in>live s'. (left(?c := left ?c - 1)) i) \<le> hits s' rs'"
      using sum 1(4) y(2) inv(3) hits_live [of s' s] by simp
    from 1(1) [OF False y(1) refl inv(1,2) this]
    have "\<exists>left' rs'' s'' r. co_run (left(?c := left ?c - 1)) rs' s' = Some (left', rs'', s'') \<and> r \<in> live s \<and> left' r = 0 \<and>
      co_inv s'' \<and> live s'' = live s - {r} \<and> free_slots s'' = insert r (free_slots s)"
      unfolding inv(3,4) .
    moreover have "co_run left rs s = co_run (left(?c := left ?c - 1)) rs' s'"
      using False y(1) by (subst co_run.simps) simp
    ultimately show ?thesis by simp
  qed
qed

text \<open>C30: co_wait returns to the main program: if the random numbers name a live routine at least as
  often as the live routines yield, then some routine has run to its end, its slot is back in the
  pool, and only it and the routine waited for are no longer live.\<close>

theorem co_wait_returns:
  assumes "co_inv s" "alive s thd" "(\<Sum>i\<in>live s. left i) \<le> hits s rs"
  shows "\<exists>left' rs' s' r. co_wait thd left rs s = Some (left', rs', s') \<and> r \<in> live s \<and> left' r = 0 \<and> co_inv s' \<and>
    live s' = live s - {r, thd} \<and> free_slots s' = insert r (free_slots s)"
proof -
  let ?s = "s\<lparr>current := thd\<rparr>"
  have a: "alive ?s j = alive s j" for j by (simp add: alive_def)
  have "tar_buf s thd \<noteq> Nowhere" using assms(1,2) by (auto simp: co_inv_def)
  then have j: "co_jmp thd s = Some ?s" by (simp add: co_jmp_def)
  have i: "co_inv ?s" using assms(1) by (simp add: co_inv_def a)
  have l: "live ?s = live s" "free_slots ?s = free_slots s" by (simp_all add: live_def a free_slots_def)
  have "alive ?s (current ?s)" "(\<Sum>i\<in>live ?s. left i) \<le> hits ?s rs"
    using assms(2,3) by (simp_all add: a l(1) hits_live [OF l(1)])
  from co_run_ends [OF i this] obtain left' rs' s' r where r: "co_run left rs ?s = Some (left', rs', s')"
    "r \<in> live s" "left' r = 0" "co_inv s'" "live s' = live s - {r}" "free_slots s' = insert r (free_slots s)"
    unfolding l by blast
  define t where "t = s'\<lparr>stat := (stat s')(thd := 0)\<rparr>"
  have at: "alive t j \<longleftrightarrow> j \<noteq> thd \<and> alive s' j" for j by (simp add: alive_def t_def)
  have "co_inv t" using r(4) unfolding co_inv_def at by (auto simp: t_def)
  moreover have "live t = live s - {r, thd}" "free_slots t = insert r (free_slots s)"
    using r(5) at r(6) by (auto simp: live_def) (auto simp: free_slots_def t_def)
  moreover have "co_wait thd left rs s = Some (left', rs', t)"
    using r(1) assms(2) j by (simp add: co_wait_def t_def)
  ultimately show ?thesis using r(2,3) by blast
qed

section \<open>Two routines\<close>

definition co_blank :: "unit co" where
  "co_blank = \<lparr>stat = (\<lambda>_. 0), tar_buf = (\<lambda>_. Nowhere), entry = (\<lambda>_. ()), pool = (\<lambda>_. 0), pool_idx = 0, current = 0\<rparr>"

definition co_two :: "unit co" where
  "co_two = \<lparr>stat = (\<lambda>i. if i = 99 \<or> i = 98 then CO_ALIVE else 0), tar_buf = (\<lambda>i. if i = 99 \<or> i = 98 then At_entry else Nowhere),
     entry = (\<lambda>_. ()), pool = (\<lambda>i. if i < 100 then i else 0), pool_idx = 98, current = 98\<rparr>"

lemma co_two_started:
  "do {(a, s1) \<leftarrow> co_start () (co_init co_blank); (b, s2) \<leftarrow> co_start () s1; Some (a, b, s2)} = Some (99, 98, co_two)"
  by (simp add: co_start_def new_co_def co_init_def co_blank_def co_two_def MAX_ROUTINES_def) (auto simp: fun_eq_iff)

lemma co_two_live: "live co_two = {98, 99}"
  by (auto simp: live_def alive_def co_two_def split: if_splits)

lemma co_two_inv: "co_inv co_two"
  by (auto simp: co_inv_def alive_def co_two_def MAX_ROUTINES_def inj_on_def split: if_splits)

theorem co_wait_returns_witness:
  "\<exists>left' rs' s'. co_wait 99 (\<lambda>i. if i = 99 then 2 else 0) [98, 98] co_two = Some (left', rs', s') \<and> live s' \<subseteq> {98}"
proof -
  have "alive co_two 99" "hits co_two [98, 98] = 2"
    by (simp_all add: hits_def alive_def co_two_def MAX_ROUTINES_def)
  moreover have "(\<Sum>i\<in>live co_two. if i = 99 then 2 else 0) = (2 :: nat)" by (simp add: co_two_live)
  ultimately show ?thesis
    using co_wait_returns [OF co_two_inv, of 99 "\<lambda>i. if i = 99 then 2 else 0" "[98, 98]"] by (fastforce simp: co_two_live)
qed

text \<open>
  Waiting for a routine that yields to another one that ends: the wait returns, and the routine
  waited for, which has not ended, is neither live nor back in the pool.
\<close>

lemma co_wait_drops:
  "\<exists>left' rs' s'. co_wait 99 (\<lambda>i. if i = 99 then 2 else 0) [98] co_two = Some (left', rs', s') \<and>
     left' 99 = 1 \<and> 99 \<notin> live s' \<and> 99 \<notin> free_slots s'"
proof -
  let ?left = "\<lambda>i. if i = 99 then 2 else (0 :: nat)"
  let ?t = "co_two\<lparr>tar_buf := (tar_buf co_two)(99 := In_yield)\<rparr>"
  have 1: "co_jmp 99 co_two = Some (co_two\<lparr>current := 99\<rparr>)" "alive co_two 99"
    by (simp_all add: co_jmp_def co_two_def alive_def)
  have "co_yield [98] (co_two\<lparr>current := 99\<rparr>) = Some ([], ?t)"
    by (simp add: co_yield_def co_jmp_def co_two_def alive_def MAX_ROUTINES_def)
  then have "co_run ?left [98] (co_two\<lparr>current := 99\<rparr>) = co_run (?left(99 := 1)) [] ?t"
    by (subst co_run.simps) simp
  also have "\<dots> = map_option (\<lambda>s'. (?left(99 := 1), [], s')) (co_end ?t)"
    by (subst co_run.simps) (simp add: co_two_def)
  finally show ?thesis
    using 1 by (auto simp: co_wait_def co_end_def co_two_def MAX_ROUTINES_def live_def free_slots_def alive_def lessThan_Suc)
qed

end
