(* ===== verification/Sperf.thy ===== *)
theory Sperf
  imports Prelude "HOL-Library.Monad_Syntax" "HOL-Library.Multiset"
begin

text \<open>
  The list of system calls of \<^verbatim>\<open>sperf/sperf.c\<close>: a ring of nodes on the heap through a guard node
  \<open>head\<close>, its bubble sort and its display.  Addresses are natural numbers; times are of any ordered
  type with an addition.
\<close>

section \<open>The ring\<close>

record 't ring =
  node_name :: "nat \<Rightarrow> string"
  nxt :: "nat \<Rightarrow> nat"
  time :: "nat \<Rightarrow> 't"
  total_time :: 't

definition head :: nat where
  "head = 0"

text \<open>Before \<open>p\<close>, \<open>a\<close>, \<open>b\<close>, after \<open>p\<close>, \<open>b\<close>, \<open>a\<close>.\<close>

definition swap_next :: "nat \<Rightarrow> nat \<Rightarrow> nat \<Rightarrow> (nat \<Rightarrow> nat) \<Rightarrow> nat \<Rightarrow> nat" where
  "swap_next p a b nx =
     (let nx1 = nx(p := b); nx2 = nx1(a := nx1 b) in nx2(b := a))"

definition swap :: "nat \<Rightarrow> nat \<Rightarrow> nat \<Rightarrow> 't ring \<Rightarrow> 't ring" where
  "swap p a b h = h\<lparr>nxt := swap_next p a b (nxt h)\<rparr>"

text \<open>One pass of the bubble sort, up to \<open>p\<close>: the last node before \<open>p\<close>.\<close>

partial_function (option) sort_pass :: "nat \<Rightarrow> nat \<Rightarrow> nat \<Rightarrow> 't::linorder ring \<Rightarrow> (nat \<times> 't ring) option" where
  "sort_pass p q r h =
     (if q = p then Some (r, h)
      else if time h q < time h (nxt h q) then
        (let h' = swap r q (nxt h q) h in sort_pass p (nxt h' r) r h')
      else sort_pass p (nxt h q) q h)"

partial_function (option) sort_from :: "nat \<Rightarrow> 't::linorder ring \<Rightarrow> 't ring option" where
  "sort_from p h =
     (if p = nxt h head then Some h
      else do {
        (r, h') \<leftarrow> sort_pass p (nxt h head) head h;
        sort_from r h'})"

definition sort_ring :: "'t::linorder ring \<Rightarrow> 't ring option" where
  "sort_ring h = sort_from head h"

text \<open>One line for every node; \<open>line\<close> is the formatting of the name, the time and the share of the total.\<close>

partial_function (option) display_from :: "(string \<Rightarrow> 't \<Rightarrow> 't \<Rightarrow> string) \<Rightarrow> nat \<Rightarrow> 't ring \<Rightarrow> string \<Rightarrow> string option" where
  "display_from line p h out =
     (if p = head then Some out else display_from line (nxt h p) h (out @ line (node_name h p) (time h p) (total_time h)))"

definition display :: "(string \<Rightarrow> 't \<Rightarrow> 't \<Rightarrow> string) \<Rightarrow> 't ring \<Rightarrow> string option" where
  "display line h =
     display_from line (nxt h head) h ([CHR 0x1b] @ ''[2J'' @ [CHR 0x1b] @ ''[39m'' @ [CHR 0x1b] @ ''[49mSyscalls:'' @ [CHR 0x0a])"

section \<open>Recording a call\<close>

text \<open>The node before the first one with the name, and that node, or the last node and the guard.\<close>

partial_function (option) find_call :: "string \<Rightarrow> nat \<Rightarrow> 't ring \<Rightarrow> (nat \<times> nat) option" where
  "find_call call p h =
     (let q = p; p' = nxt h q
      in if p' \<noteq> head \<and> node_name h p' \<noteq> call then find_call call p' h else Some (q, p'))"

text \<open>\<open>new\<close> is the address \<^verbatim>\<open>malloc\<close> returns, \<open>zero\<close> and \<open>add\<close> the arithmetic of the times.\<close>

definition record_call :: "'t \<Rightarrow> ('t \<Rightarrow> 't \<Rightarrow> 't) \<Rightarrow> nat \<Rightarrow> string \<Rightarrow> 't \<Rightarrow> 't ring \<Rightarrow> 't ring option" where
  "record_call zero add new call cost h = do {
     (q, p) \<leftarrow> find_call call head h;
     let (q1, h1) =
       (if node_name h p \<noteq> call then
          (new, h\<lparr>nxt := (nxt h)(q := new, new := p), node_name := (node_name h)(new := call), time := (time h)(new := zero)\<rparr>)
        else (q, h));
     Some (h1\<lparr>time := (time h1)(q1 := add (time h1 q1) cost), total_time := add (total_time h1) cost\<rparr>)}"

section \<open>Nodes in a row\<close>

fun links :: "(nat \<Rightarrow> nat) \<Rightarrow> nat \<Rightarrow> nat list \<Rightarrow> nat \<Rightarrow> bool" where
  "links nx a [] b \<longleftrightarrow> nx a = b"
| "links nx a (x # xs) b \<longleftrightarrow> nx a = x \<and> links nx x xs b"

definition ring_of :: "'t ring \<Rightarrow> nat list \<Rightarrow> bool" where
  "ring_of h xs \<longleftrightarrow> links (nxt h) head xs head \<and> distinct (head # xs)"

lemma row_links_append: "links nx a (xs @ ys) b \<longleftrightarrow> (\<exists>c. links nx a xs c \<and> (case ys of [] \<Rightarrow> c = b | y # ys \<Rightarrow> c = y \<and> links nx y ys b))"
  by (induction xs arbitrary: a) (auto split: list.splits)

lemma links_cong: "\<forall>x\<in>set (a # xs). nx' x = nx x \<Longrightarrow> links nx' a xs b = links nx a xs b"
  by (induction xs arbitrary: a) auto

text \<open>What a pass does to the row.\<close>

fun bubble :: "(nat \<Rightarrow> 't::linorder) \<Rightarrow> nat \<Rightarrow> nat list \<Rightarrow> nat list" where
  "bubble t q [] = [q]"
| "bubble t q (v # vs) = (if t q < t v then v # bubble t q vs else q # bubble t v vs)"

lemma bubble_mset: "mset (bubble t q vs) = mset (q # vs)"
  by (induction t q vs rule: bubble.induct) auto

lemma bubble_set: "set (bubble t q vs) = set (q # vs)"
  by (metis bubble_mset mset_eq_setD)

lemma bubble_not_Nil [simp]: "bubble t q vs \<noteq> []"
  by (induction t q vs rule: bubble.induct) auto

lemma bubble_last: "\<forall>x\<in>set (q # vs). t (last (bubble t q vs)) \<le> t x"
  by (induction t q vs rule: bubble.induct) (auto simp: not_less)

lemma pass_bubble:
  assumes "links (nxt h) r (q # vs) p" "distinct (r # q # vs)" "p \<notin> set (q # vs)"
    and "\<forall>x\<in>set (q # vs). time h p \<le> time h x"
  shows "\<exists>nx. sort_pass p q r h = Some (last (bubble (time h) q vs), h\<lparr>nxt := nx\<rparr>) \<and>
    links nx r (bubble (time h) q vs) p \<and> (\<forall>x. x \<notin> set (r # q # vs) \<longrightarrow> nx x = nxt h x)"
  using assms
proof (induction vs arbitrary: h r q)
  case Nil
  then have "nxt h r = q" "nxt h q = p" "q \<noteq> p" "\<not> time h q < time h p" by auto
  then have "sort_pass p q r h = Some (q, h\<lparr>nxt := nxt h\<rparr>)"
    by (subst sort_pass.simps) (simp add: sort_pass.simps)
  then show ?case using Nil by (intro exI [where x = "nxt h"]) auto
next
  case (Cons v vs)
  have n: "nxt h r = q" "nxt h q = v" "links (nxt h) v vs p" "q \<noteq> p" "v \<noteq> p" "r \<noteq> v" "q \<noteq> v" "r \<noteq> q"
    using Cons.prems by auto
  show ?case
  proof (cases "time h q < time h v")
    case True
    define h1 where "h1 = swap r q v h"
    have h1: "nxt h1 r = v" "nxt h1 v = q" "nxt h1 q = nxt h v" "time h1 = time h"
      "x \<notin> {r, q, v} \<Longrightarrow> nxt h1 x = nxt h x" for x
      using n by (auto simp: h1_def swap_def swap_next_def Let_def)
    have l: "links (nxt h1) v (q # vs) p"
    proof (cases vs)
      case Nil
      then show ?thesis using n(3) h1 by simp
    next
      case (Cons w ws)
      then have "w \<notin> {r, q, v}" "set ws \<inter> {r, q, v} = {}" using Cons.prems(2) Cons by auto
      then have "links (nxt h1) w ws p = links (nxt h) w ws p" by (intro links_cong ballI h1(5)) auto
      then show ?thesis using n(3) h1 Cons by simp
    qed
    have "sort_pass p q r h = sort_pass p v r h1"
      using True n h1(1) by (subst sort_pass.simps) (simp add: h1_def Let_def)
    also have "\<dots> = sort_pass p q v h1"
      using True n(5) h1 by (subst sort_pass.simps) (auto dest: less_asym)
    finally have s: "sort_pass p q r h = sort_pass p q v h1" .
    obtain nx where nx: "sort_pass p q v h1 = Some (last (bubble (time h) q vs), h1\<lparr>nxt := nx\<rparr>)"
      "links nx v (bubble (time h) q vs) p" "\<forall>x. x \<notin> set (v # q # vs) \<longrightarrow> nx x = nxt h1 x"
      using Cons.IH [OF l] Cons.prems(2-4) h1(4) by auto
    have "h1\<lparr>nxt := nx\<rparr> = h\<lparr>nxt := nx\<rparr>" by (simp add: h1_def swap_def)
    moreover have "nx r = v" using nx(3) Cons.prems(2) h1(1) by auto
    moreover have "\<forall>x. x \<notin> set (r # q # v # vs) \<longrightarrow> nx x = nxt h x" using nx(3) h1(5) by auto
    ultimately show ?thesis using True s nx by auto
  next
    case False
    have s: "sort_pass p q r h = sort_pass p v q h" using False n by (subst sort_pass.simps) simp
    have "links (nxt h) q (v # vs) p" using n by simp
    then obtain nx where nx: "sort_pass p v q h = Some (last (bubble (time h) v vs), h\<lparr>nxt := nx\<rparr>)"
      "links nx q (bubble (time h) v vs) p" "\<forall>x. x \<notin> set (q # v # vs) \<longrightarrow> nx x = nxt h x"
      using Cons.IH [of h q v] Cons.prems(2-4) by auto
    moreover have "nx r = q" using nx(3) Cons.prems(2) n(1) by auto
    ultimately show ?thesis using False s by auto
  qed
qed

section \<open>The sort\<close>

lemma links_suffix: "links nx a (xs @ ps) b \<longleftrightarrow> links nx a xs (hd (ps @ [b])) \<and> (ps = [] \<or> links nx (hd ps) (tl ps) b)"
  by (cases ps) (auto simp: row_links_append)

lemma sort_from_ok:
  assumes "links (nxt h) head (xs @ ps) head" "distinct (head # xs @ ps)"
    and "sorted_wrt (\<lambda>x y. time h y \<le> time h x) ps" "\<forall>x\<in>set xs. \<forall>y\<in>set ps. time h y \<le> time h x"
    and "\<forall>x\<in>set xs \<union> set ps. time h head \<le> time h x"
  shows "\<exists>nx ys. sort_from (hd (ps @ [head])) h = Some (h\<lparr>nxt := nx\<rparr>) \<and> links nx head ys head \<and>
    mset ys = mset (xs @ ps) \<and> sorted_wrt (\<lambda>x y. time h y \<le> time h x) ys"
  using assms
proof (induction "length xs" arbitrary: h xs ps rule: less_induct)
  case less
  let ?p = "hd (ps @ [head])"
  show ?case
  proof (cases xs)
    case Nil
    then have "?p = nxt h head" using less.prems(1) by (cases ps) auto
    then have "sort_from ?p h = Some (h\<lparr>nxt := nxt h\<rparr>)" by (subst sort_from.simps) simp
    then show ?thesis using less.prems Nil by (intro exI [where x = "nxt h"] exI [where x = ps]) simp
  next
    case (Cons q vs)
    define B where "B = bubble (time h) q vs"
    have p: "?p \<in> insert head (set ps)" by (cases ps) auto
    have l: "links (nxt h) head (q # vs) ?p" "ps = [] \<or> links (nxt h) (hd ps) (tl ps) head"
      using less.prems(1) Cons by (simp_all only: links_suffix)
    obtain nx where nx: "sort_pass ?p q head h = Some (last B, h\<lparr>nxt := nx\<rparr>)" "links nx head B ?p"
      "\<forall>x. x \<notin> set (head # q # vs) \<longrightarrow> nx x = nxt h x"
      using pass_bubble [OF l(1)] p less.prems(2,4,5) Cons unfolding B_def by fastforce
    have "ps = [] \<or> links nx (hd ps) (tl ps) head"
    proof (cases ps)
      case (Cons a as)
      have "x \<notin> set (head # q # vs)" if "x \<in> set (a # as)" for x
        using that less.prems(2) \<open>xs = q # vs\<close> Cons by auto
      then have "\<forall>x\<in>set (a # as). nx x = nxt h x" using nx(3) by blast
      then show ?thesis using l(2) links_cong [of a as nx "nxt h" head] Cons by simp
    qed simp
    then have row: "links nx head (B @ ps) head" using nx(2) by (simp add: links_suffix)
    have xs: "mset B = mset xs" "set B = set xs" "B \<noteq> []"
      unfolding B_def Cons by (rule bubble_mset, rule bubble_set, rule bubble_not_Nil)
    have "distinct xs" using less.prems(2) by simp
    then have "distinct B" using mset_eq_imp_distinct_iff [OF xs(1)] by blast
    then have B: "mset B = mset xs" "set B = set xs" "B = butlast B @ [last B]" "distinct B"
      using xs append_butlast_last_id [of B] by auto
    define us r where "us = butlast B" and "r = last B"
    have us: "B = us @ [r]" "set us \<subseteq> set xs" "r \<in> set xs" "length us < length xs"
      using B(2,3) xs(3) in_set_butlastD [of _ B] last_in_set [of B] mset_eq_length [OF B(1)] length_butlast [of B]
      unfolding us_def r_def by (auto simp del: append_butlast_last_id simp: length_greater_0_conv [symmetric] simp del: length_greater_0_conv)
    have low: "time h r \<le> time h x" if "x \<in> set xs" for x
      using bubble_last [of q vs "time h"] that Cons by (auto simp: r_def B_def)
    have "sort_from ?p h = sort_from r (h\<lparr>nxt := nx\<rparr>)"
      using nx(1) l(1) less.prems(2) p Cons by (subst sort_from.simps) (auto simp: r_def)
    moreover have "\<exists>nx' ys. sort_from (hd ((r # ps) @ [head])) (h\<lparr>nxt := nx\<rparr>) = Some (h\<lparr>nxt := nx\<rparr>\<lparr>nxt := nx'\<rparr>) \<and>
      links nx' head ys head \<and> mset ys = mset (us @ r # ps) \<and>
      sorted_wrt (\<lambda>x y. time (h\<lparr>nxt := nx\<rparr>) y \<le> time (h\<lparr>nxt := nx\<rparr>) x) ys"
    proof (rule less.hyps)
      show "length us < length xs" by (rule us(4))
      show "links (nxt (h\<lparr>nxt := nx\<rparr>)) head (us @ r # ps) head" using row by (simp add: us(1))
      have "distinct (us @ [r])" "set (us @ [r]) = set xs" using B(2,4) us(1) by metis+
      then show "distinct (head # us @ r # ps)" using less.prems(2) by auto
    qed (use less.prems(3-5) low us(2,3) in auto)
    moreover have m: "mset (us @ r # ps) = mset (xs @ ps)" using B(1) us(1) by (metis append.assoc append_Cons append_Nil mset_append)
    ultimately show ?thesis unfolding m by fastforce
  qed
qed


definition demo_ring :: "nat ring" where
  "demo_ring = \<lparr>node_name = (\<lambda>i. if i = 0 then [CHR 0x01] else if i = 1 then ''read'' else ''write''),
     nxt = (\<lambda>i. if i < 2 then i + 1 else 0), time = (\<lambda>i. if i = 0 then 0 else if i = 1 then 3 else 5), total_time = 8\<rparr>"


section \<open>The time of a call\<close>

text \<open>The search stops in front of the first node with the name or, when there is none, at the last node.\<close>

lemma find_call_row:
  assumes "links (nxt h) a (us @ vs) head" "head \<notin> set us" "\<forall>x\<in>set us. node_name h x \<noteq> call"
    and "vs = [] \<or> node_name h (hd vs) = call"
  shows "find_call call a h = Some (last (a # us), hd (vs @ [head]))"
  using assms
proof (induction us arbitrary: a)
  case Nil
  then show ?case by (subst find_call.simps) (cases vs; auto simp: Let_def)
next
  case (Cons u us)
  then show ?case by (subst find_call.simps) (auto simp: Let_def)
qed

text \<open>A call that is already in the list is added to the time of the node before it.\<close>

lemma record_known_call:
  assumes "ring_of h (us @ p # vs)" "\<forall>x\<in>set us. node_name h x \<noteq> call" "node_name h p = call"
  shows "record_call zero add new call cost h =
    Some (h\<lparr>time := (time h)(last (head # us) := add (time h (last (head # us))) cost), total_time := add (total_time h) cost\<rparr>)"
  using find_call_row [of h head us "p # vs" call] assms
  by (auto simp: record_call_def ring_of_def)

text \<open>A new call gets a node of its own at the end of the list.\<close>

lemma record_new_call:
  assumes "ring_of h us" "\<forall>x\<in>set (head # us). node_name h x \<noteq> call" "new \<notin> set (head # us)"
  shows "\<exists>h'. record_call zero add new call cost h = Some h' \<and> ring_of h' (us @ [new]) \<and>
    node_name h' new = call \<and> time h' = (time h)(new := add zero cost)"
proof -
  have "find_call call head h = Some (last (head # us), head)"
    using find_call_row [of h head us "[]" call] assms by (auto simp: ring_of_def)
  moreover have "links ((nxt h)(last (a # us) := new, new := b)) a (us @ [new]) b"
    if "links (nxt h) a us b" "distinct (a # us)" "new \<notin> set (a # us)" for a b us
    using that by (induction us arbitrary: a) (auto simp: fun_upd_twist)
  ultimately show ?thesis using assms by (auto simp: record_call_def ring_of_def)
qed

end
