(* ===== verification/Pstree.thy ===== *)
theory Pstree
  imports Prelude "HOL-Library.Monad_Syntax" "HOL-Library.List_Lexorder" "HOL-Library.Multiset"
begin

text \<open>
  The tree of processes of \<^verbatim>\<open>pstree/pstree.c\<close>: records found by process number, whose sons are a list
  through \<open>son\<close> and \<open>bro\<close>; its ordered insertion, the options and the drawing.  How the numbers
  and names are read from \<^verbatim>\<open>/proc\<close> is in \<open>Pstree_Proc\<close>.  \<open>None\<close> is a null pointer that is followed, or a tree too
  deep for the arrays of the drawing.
\<close>

section \<open>Comparing processes\<close>

record proc =
  pid :: nat
  cnt :: nat
  name :: "string option"
  son :: "nat option"
  bro :: "nat option"

record flags =
  by_num :: bool
  show_pids :: bool

fun str_cmp :: "string \<Rightarrow> string \<Rightarrow> int" where
  "str_cmp [] [] = 0"
| "str_cmp [] (d # ds) = - int (of_char d)"
| "str_cmp (c # cs) [] = int (of_char c)"
| "str_cmp (c # cs) (d # ds) =
     (if c = d \<and> c \<noteq> CHR 0x00 then str_cmp cs ds else int (of_char c) - int (of_char d))"

definition alpha :: "proc \<Rightarrow> proc \<Rightarrow> int option" where
  "alpha p1 p2 = do {a \<leftarrow> name p1; b \<leftarrow> name p2; Some (str_cmp a b)}"

definition num :: "bool \<Rightarrow> proc \<Rightarrow> proc \<Rightarrow> int option" where
  "num show p1 p2 =
     (if show then Some (int (pid p1) - int (pid p2))
      else do {
        a \<leftarrow> name p1;
        b \<leftarrow> name p2;
        Some (if str_cmp a b \<noteq> 0 then int (pid p1) - int (pid p2) else 0)})"

definition cmp :: "flags \<Rightarrow> (nat \<rightharpoonup> proc) \<Rightarrow> nat \<Rightarrow> nat \<Rightarrow> int option" where
  "cmp f info a b = do {
     p \<leftarrow> info a;
     q \<leftarrow> info b;
     if by_num f then num (show_pids f) p q else alpha p q}"

section \<open>Adding a son\<close>

definition init_pid :: "nat \<Rightarrow> (nat \<rightharpoonup> proc) \<Rightarrow> (nat \<rightharpoonup> proc)" where
  "init_pid i info = info(i \<mapsto> \<lparr>pid = i, cnt = 0, name = None, son = None, bro = None\<rparr>)"

definition upd :: "nat \<Rightarrow> (proc \<Rightarrow> proc) \<Rightarrow> (nat \<rightharpoonup> proc) \<Rightarrow> (nat \<rightharpoonup> proc) option" where
  "upd i f info = map_option (\<lambda>p. info(i \<mapsto> f p)) (info i)"

text \<open>A thread more with the same name; the count has 8 bits.\<close>

definition more_of :: "proc \<Rightarrow> proc" where
  "more_of p = p\<lparr>cnt := (cnt p + 1) mod 256\<rparr>"

text \<open>The place in the list: the last process before it and the one after it.\<close>

partial_function (option) seek_bro :: "flags \<Rightarrow> (nat \<rightharpoonup> proc) \<Rightarrow> nat \<Rightarrow> nat \<Rightarrow> nat option \<Rightarrow> (nat \<times> nat option) option" where
  "seek_bro f info i l r =
     (case r of
        None \<Rightarrow> Some (l, None)
      | Some x \<Rightarrow> do {
          c \<leftarrow> cmp f info x i;
          if c < 0 then do {p \<leftarrow> info x; seek_bro f info i x (bro p)}
          else Some (l, Some x)})"

definition put_after :: "nat \<Rightarrow> nat \<Rightarrow> (nat \<rightharpoonup> proc) \<Rightarrow> (nat \<rightharpoonup> proc) option" where
  "put_after l i info = do {
     p \<leftarrow> info l;
     info1 \<leftarrow> upd i (\<lambda>q. q\<lparr>bro := bro p\<rparr>) info;
     upd l (\<lambda>q. q\<lparr>bro := Some i\<rparr>) info1}"

definition add_sonpro :: "flags \<Rightarrow> nat \<Rightarrow> nat \<Rightarrow> (nat \<rightharpoonup> proc) \<Rightarrow> (nat \<rightharpoonup> proc) option" where
  "add_sonpro f pp i info = do {
     p \<leftarrow> info pp;
     (case son p of
        None \<Rightarrow> upd pp (\<lambda>q. q\<lparr>son := Some i\<rparr>) info
      | Some s \<Rightarrow> do {
          sp \<leftarrow> info s;
          c \<leftarrow> cmp f info s i;
          if c > 0 then do {
            info1 \<leftarrow> upd i (\<lambda>q. q\<lparr>bro := Some s\<rparr>) info;
            upd pp (\<lambda>q. q\<lparr>son := Some i\<rparr>) info1}
          else if cnt sp \<noteq> 0 \<and> c = 0 then upd s more_of info
          else do {
            (l, r) \<leftarrow> seek_bro f info i s (bro sp);
            (case r of
               None \<Rightarrow> put_after l i info
             | Some x \<Rightarrow> do {
                 xp \<leftarrow> info x;
                 c' \<leftarrow> cmp f info x i;
                 if cnt xp \<noteq> 0 \<and> c' = 0 then upd x more_of info else put_after l i info})}})}"

section \<open>Options\<close>

datatype handler = Version | Numeric_sort | Show_pids | Bug_fix_log

definition two_dash_arg_list :: "(string \<times> handler) list" where
  "two_dash_arg_list =
    [(''--version'', Version), (''--numeric-sort'', Numeric_sort), (''--show-pids'', Show_pids), (''--log'', Bug_fix_log)]"

definition single_dash_arg_list :: "(char \<times> handler) list" where
  "single_dash_arg_list = [(CHR ''V'', Version), (CHR ''n'', Numeric_sort), (CHR ''p'', Show_pids)]"

text \<open>On the left, what ends the program.\<close>

definition handle :: "handler \<Rightarrow> flags \<Rightarrow> handler + flags" where
  "handle a f =
     (case a of Numeric_sort \<Rightarrow> Inr (f\<lparr>by_num := True\<rparr>) | Show_pids \<Rightarrow> Inr (f\<lparr>show_pids := True\<rparr>) | _ \<Rightarrow> Inl a)"

fun single_args :: "string \<Rightarrow> flags \<Rightarrow> handler + bool \<times> flags" where
  "single_args [] f = Inr (True, f)"
| "single_args (c # cs) f =
     (case map_of single_dash_arg_list c of
        None \<Rightarrow> Inr (False, f)
      | Some a \<Rightarrow> (case handle a f of Inl a' \<Rightarrow> Inl a' | Inr f' \<Rightarrow> single_args cs f'))"

definition arg_matched :: "string \<Rightarrow> flags \<Rightarrow> handler + bool \<times> flags" where
  "arg_matched arg f =
     (if take 1 arg = ''-'' then
        (if take 2 arg = ''--'' then
           (case map_of two_dash_arg_list arg of
              None \<Rightarrow> Inr (False, f)
            | Some a \<Rightarrow> (case handle a f of Inl a' \<Rightarrow> Inl a' | Inr f' \<Rightarrow> Inr (True, f')))
         else single_args (drop 1 arg) f)
      else Inr (False, f))"

datatype parsed = Ends handler | Unsupported string | Go flags

fun main_args :: "string list \<Rightarrow> flags \<Rightarrow> parsed" where
  "main_args [] f = Go f"
| "main_args (a # as) f =
     (case arg_matched a f of Inl h \<Rightarrow> Ends h | Inr (ok, f') \<Rightarrow> if ok then main_args as f' else Unsupported a)"

definition digit_judge :: "string \<Rightarrow> bool" where
  "digit_judge s \<longleftrightarrow> dropWhile (\<lambda>c. (of_char c :: nat) \<in> {0x30..0x39}) s = []"

section \<open>Drawing\<close>

text \<open>The box drawing characters are three bytes each.\<close>

definition box_h :: string where "box_h = [CHR 0xe2, CHR 0x94, CHR 0x80]"
definition box_v :: string where "box_v = [CHR 0xe2, CHR 0x94, CHR 0x82]"
definition box_vr :: string where "box_vr = [CHR 0xe2, CHR 0x94, CHR 0x9c]"
definition box_ur :: string where "box_ur = [CHR 0xe2, CHR 0x94, CHR 0x94]"
definition box_dh :: string where "box_dh = [CHR 0xe2, CHR 0x94, CHR 0xac]"

definition MAX_DEP :: nat where
  "MAX_DEP = 20"

text \<open>\<open>levels\<close> is \<^verbatim>\<open>depth + 1\<close>.\<close>

record drawing =
  levels :: nat
  blank_len :: "nat list"
  bar_exist :: "bool list"
  out :: string

definition draw :: "string \<Rightarrow> drawing \<Rightarrow> drawing" where
  "draw s st = st\<lparr>out := out st @ s\<rparr>"

text \<open>\<^verbatim>\<open>%d\<close> and \<^verbatim>\<open>%*s\<close> of a blank.\<close>

fun decimal :: "nat \<Rightarrow> string" where
  "decimal n = (if n < 10 then [] else decimal (n div 10)) @ [char_of (48 + n mod 10)]"

definition indent :: "drawing \<Rightarrow> string" where
  "indent st =
     concat (map (\<lambda>i. replicate (max 1 (blank_len st ! i)) CHR '' '' @
       (if i + 1 < levels st then (if bar_exist st ! i then box_v @ '' '' else ''  '') else [])) [0..<levels st])"

text \<open>The bar of the level ends with its last process.\<close>

definition delete_bar :: "drawing \<Rightarrow> drawing" where
  "delete_bar st = st\<lparr>bar_exist := (bar_exist st)[levels st - 1 := False]\<rparr>"

definition print_branch :: "proc \<Rightarrow> bool \<Rightarrow> drawing \<Rightarrow> drawing" where
  "print_branch p is_first st =
     (if \<not> is_first then
        (if bro p \<noteq> None then draw (indent st @ box_vr @ box_h) st
         else delete_bar (draw (indent st @ box_ur @ box_h) st))
      else if pid p \<noteq> 1 then
        (if bro p \<noteq> None then draw (box_h @ box_dh @ box_h) st
         else delete_bar (draw (box_h @ box_h @ box_h) st))
      else st)"

definition label :: "flags \<Rightarrow> proc \<Rightarrow> string option" where
  "label f p = do {
     s \<leftarrow> name p;
     Some ((if cnt p > 1 then decimal (cnt p) @ ''*['' else []) @ s @
       (if show_pids f then ''('' @ decimal (pid p) @ '')'' else []) @ (if cnt p > 1 then '']'' else []))}"

text \<open>Down to the sons: the width of what was printed and a blank, and a bar when there are several.\<close>

definition enter_sons :: "nat \<Rightarrow> proc \<Rightarrow> drawing \<Rightarrow> drawing option" where
  "enter_sons len s st =
     (if levels st < MAX_DEP then
        Some (st\<lparr>levels := levels st + 1, blank_len := (blank_len st)[levels st := len + 1],
          bar_exist := (bar_exist st)[levels st := (bro s \<noteq> None)]\<rparr>)
      else None)"

text \<open>A process, its sons and, below the root, the processes after it in the list.\<close>

partial_function (option) print_tree :: "flags \<Rightarrow> (nat \<rightharpoonup> proc) \<Rightarrow> nat \<Rightarrow> bool \<Rightarrow> bool \<Rightarrow> drawing \<Rightarrow> drawing option" where
  "print_tree f info i is_first root st = do {
     p \<leftarrow> info i;
     t \<leftarrow> label f p;
     let st1 = draw t (print_branch p is_first st);
     st2 \<leftarrow> (case son p of
        None \<Rightarrow> Some (draw [CHR 0x0a] st1)
      | Some s \<Rightarrow> do {
          sp \<leftarrow> info s;
          st' \<leftarrow> enter_sons (length t) sp st1;
          st'' \<leftarrow> print_tree f info s True False st';
          Some (st''\<lparr>levels := levels st'' - 1\<rparr>)});
     (case (if root then None else bro p) of
        None \<Rightarrow> Some st2
      | Some b \<Rightarrow> do {
          bp \<leftarrow> info b;
          print_tree f info b False False (st2\<lparr>bar_exist := (bar_exist st2)[levels st2 - 1 := (bro bp \<noteq> None)]\<rparr>)})}"

section \<open>The list of sons stays ordered\<close>

fun row :: "(nat \<rightharpoonup> proc) \<Rightarrow> nat option \<Rightarrow> nat list \<Rightarrow> bool" where
  "row info r [] \<longleftrightarrow> r = None"
| "row info r (x # xs) \<longleftrightarrow> r = Some x \<and> (\<exists>p. info x = Some p \<and> row info (bro p) xs)"

text \<open>What a name is compared by.\<close>

definition key :: "(nat \<rightharpoonup> proc) \<Rightarrow> nat \<Rightarrow> nat list" where
  "key info i = map of_char (takeWhile (\<lambda>c. c \<noteq> CHR 0x00) (the (name (the (info i)))))"

definition named :: "(nat \<rightharpoonup> proc) \<Rightarrow> nat \<Rightarrow> bool" where
  "named info i \<longleftrightarrow> (\<exists>p. info i = Some p \<and> name p \<noteq> None)"

lemma code_0: "(of_char c :: nat) = 0 \<longleftrightarrow> c = CHR 0x00"
  using of_char_eq_iff [where ?'a = nat, of c "CHR 0x00"] by simp

lemma code_pos: "(0 :: nat) < of_char c \<longleftrightarrow> c \<noteq> CHR 0x00" "(0 :: int) < of_char c \<longleftrightarrow> c \<noteq> CHR 0x00"
  using code_0 [of c] by (metis neq0_conv of_nat_0_less_iff of_nat_of_char)+

lemma str_cmp_key:
  fixes s t :: string
  defines "k \<equiv> \<lambda>s. map (of_char :: char \<Rightarrow> nat) (takeWhile (\<lambda>c. c \<noteq> CHR 0x00) s)"
  shows "(str_cmp s t < 0 \<longleftrightarrow> k s < k t) \<and> (str_cmp s t = 0 \<longleftrightarrow> k s = k t)"
  by (induction s t rule: str_cmp.induct) (auto simp: k_def code_0 code_pos)

lemma cmp_key:
  assumes "named info a" "named info b" "\<not> by_num f"
  shows "\<exists>c. cmp f info a b = Some c \<and> (c < 0 \<longleftrightarrow> key info a < key info b) \<and> (c = 0 \<longleftrightarrow> key info a = key info b)"
  using assms str_cmp_key by (fastforce simp: cmp_def alpha_def named_def key_def)

lemma row_cong:
  "\<forall>x\<in>set xs. map_option bro (info' x) = map_option bro (info x) \<Longrightarrow> row info' r xs = row info r xs"
proof (induction xs arbitrary: r)
  case (Cons x xs)
  then have "map_option bro (info' x) = map_option bro (info x)" "\<And>r. row info' r xs = row info r xs" by auto
  then show ?case by (cases "info x"; cases "info' x") auto
qed simp

lemma row_member: "row info r xs \<Longrightarrow> x \<in> set xs \<Longrightarrow> info x \<noteq> None"
  by (induction xs arbitrary: r) auto

text \<open>Updates that leave the names alone.\<close>

lemma upd_key: "upd i g info = Some info' \<Longrightarrow> \<forall>p. name (g p) = name p \<Longrightarrow> key info' = key info"
  by (rule ext) (auto simp: upd_def key_def)

lemma upd_cnt: "upd i g info = Some info' \<Longrightarrow> \<forall>p. cnt (g p) = cnt p \<Longrightarrow> map_option cnt (info' x) = map_option cnt (info x)"
  by (auto simp: upd_def)

lemma upd_row:
  "upd i g info = Some info' \<Longrightarrow> i \<notin> set xs \<or> (\<forall>p. bro (g p) = bro p) \<Longrightarrow> row info' r xs = row info r xs"
  by (intro row_cong) (auto simp: upd_def)

lemma seek_row:
  assumes "row info r xs" "\<forall>x\<in>set (i # xs). named info x" "\<not> by_num f"
  shows "\<exists>us vs. xs = us @ vs \<and> seek_bro f info i l r = Some (last (l # us), case vs of [] \<Rightarrow> None | v # _ \<Rightarrow> Some v) \<and>
    (\<forall>u\<in>set us. key info u < key info i) \<and> (vs \<noteq> [] \<longrightarrow> key info i \<le> key info (hd vs))"
  using assms
proof (induction xs arbitrary: l r)
  case Nil
  then show ?case by (subst seek_bro.simps) simp
next
  case (Cons x xs)
  then obtain p where p: "r = Some x" "info x = Some p" "row info (bro p) xs" by auto
  obtain c where c: "cmp f info x i = Some c" "c < 0 \<longleftrightarrow> key info x < key info i"
    using cmp_key [of info x i f] Cons.prems by auto
  show ?case
  proof (cases "c < 0")
    case True
    have s: "seek_bro f info i l r = seek_bro f info i x (bro p)"
      using True c(1) p(1,2) by (subst seek_bro.simps) simp
    obtain us vs where "xs = us @ vs"
      "seek_bro f info i x (bro p) = Some (last (x # us), case vs of [] \<Rightarrow> None | v # _ \<Rightarrow> Some v)"
      "\<forall>u\<in>set us. key info u < key info i" "vs \<noteq> [] \<longrightarrow> key info i \<le> key info (hd vs)"
      using Cons.IH [OF p(3), of x] Cons.prems(2,3) by auto
    then show ?thesis using s c(2) True by (intro exI [where x = "x # us"] exI [where x = vs]) simp
  next
    case False
    then have "seek_bro f info i l r = Some (l, Some x)" using c(1) p(1) by (subst seek_bro.simps) simp
    then show ?thesis using False c(2) by (intro exI [where x = "[]"] exI [where x = "x # xs"]) (simp add: not_less)
  qed
qed

lemma row_put:
  assumes "row info r (as @ l # bs)" "distinct (i # as @ l # bs)" "info i \<noteq> None"
  shows "\<exists>info'. put_after l i info = Some info' \<and> row info' r (as @ l # i # bs) \<and> key info' = key info \<and>
    (\<forall>x. map_option cnt (info' x) = map_option cnt (info x)) \<and> (\<forall>x. x \<notin> {l, i} \<longrightarrow> info' x = info x) \<and>
    (\<forall>x. map_option son (info' x) = map_option son (info x)) \<and> (\<forall>x. map_option name (info' x) = map_option name (info x))"
proof -
  obtain p q where p: "info l = Some p" "info i = Some q" using row_member [OF assms(1), of l] assms(3) by auto
  define info' where "info' = info(i \<mapsto> q\<lparr>bro := bro p\<rparr>, l \<mapsto> p\<lparr>bro := Some i\<rparr>)"
  have put: "put_after l i info = Some info'"
    using p assms(2) by (simp add: put_after_def upd_def info'_def)
  have "row info' r (as @ l # i # bs)" using assms(1,2)
  proof (induction as arbitrary: r)
    case Nil
    then have "row info' (bro p) bs = row info (bro p) bs" by (intro row_cong) (auto simp: info'_def)
    moreover have "info' l = Some (p\<lparr>bro := Some i\<rparr>)" "info' i = Some (q\<lparr>bro := bro p\<rparr>)"
      using Nil by (simp_all add: info'_def)
    ultimately show ?case using Nil p by simp
  next
    case (Cons a as)
    then show ?case by (auto simp: info'_def)
  qed
  moreover have "key info' = key info" using p by (intro ext) (auto simp: key_def info'_def)
  ultimately show ?thesis using put p by (auto simp: info'_def)
qed

lemma sorted_insert_between:
  assumes "sorted (map k (us @ vs))" "\<forall>u\<in>set us. k u \<le> k i" "vs \<noteq> [] \<longrightarrow> k i \<le> k (hd vs)"
  shows "sorted (map k (us @ i # vs))"
proof -
  have "\<forall>v\<in>set vs. k i \<le> k v" using assms(1,3) by (cases vs) (auto simp: sorted_append intro: order_trans)
  then show ?thesis using assms(1,2) by (auto simp: sorted_append)
qed

text \<open>The two outcomes: a process linked in, or a thread counted.\<close>

definition linked :: "nat \<Rightarrow> nat \<Rightarrow> nat list \<Rightarrow> (nat \<rightharpoonup> proc) \<Rightarrow> (nat \<rightharpoonup> proc) \<Rightarrow> bool" where
  "linked pp i xs info info' \<longleftrightarrow> (\<exists>p' ys. info' pp = Some p' \<and> row info' (son p') ys \<and> mset ys = mset (i # xs) \<and>
     sorted (map (key info') ys) \<and> key info' = key info \<and> (\<forall>x. map_option cnt (info' x) = map_option cnt (info x))) \<and>
     (\<forall>x. x \<notin> set (i # xs) \<longrightarrow> map_option bro (info' x) = map_option bro (info x)) \<and>
     (\<forall>x. x \<noteq> pp \<longrightarrow> map_option son (info' x) = map_option son (info x)) \<and>
     (\<forall>x. map_option name (info' x) = map_option name (info x))"

definition counted :: "nat \<Rightarrow> nat \<Rightarrow> nat list \<Rightarrow> (nat \<rightharpoonup> proc) \<Rightarrow> (nat \<rightharpoonup> proc) \<Rightarrow> bool" where
  "counted pp i xs info info' \<longleftrightarrow> (\<exists>x\<in>set xs. key info x = key info i \<and> cnt (the (info x)) \<noteq> 0 \<and> info' = info(x \<mapsto> more_of (the (info x)))) \<and>
     key info' = key info \<and> (\<exists>p. info' pp = Some p \<and> row info' (son p) xs)"

lemma count_one:
  assumes "row info (son p) xs" "x \<in> set xs" "info pp = Some p" "pp \<notin> set xs" "key info x = key info i" "cnt (the (info x)) \<noteq> 0"
  shows "\<exists>info'. upd x more_of info = Some info' \<and> counted pp i xs info info'"
proof -
  obtain q where q: "info x = Some q" using row_member [OF assms(1,2)] by auto
  define info' where "info' = info(x \<mapsto> more_of q)"
  have u: "upd x more_of info = Some info'" by (simp add: upd_def q info'_def)
  moreover have "key info' = key info" by (rule upd_key [OF u]) (simp add: more_of_def)
  moreover have "row info' (son p) xs" using assms(1) upd_row [OF u, of xs "son p"] by (simp add: more_of_def)
  ultimately show ?thesis using assms(2-6) q by (auto simp: counted_def info'_def)
qed

lemma link_between:
  assumes "info pp = Some p" "row info (son p) (us @ vs)" "us \<noteq> []" "distinct (pp # i # us @ vs)" "info i \<noteq> None"
    and "sorted (map (key info) (us @ vs))" "\<forall>u\<in>set us. key info u \<le> key info i" "vs \<noteq> [] \<longrightarrow> key info i \<le> key info (hd vs)"
  shows "\<exists>info'. put_after (last us) i info = Some info' \<and> linked pp i (us @ vs) info info'"
proof -
  have us: "us = butlast us @ [last us]" using assms(3) by simp
  have "row info (son p) (butlast us @ last us # vs)" "distinct (i # butlast us @ last us # vs)"
    using assms(2,4) us by (metis append.assoc append_Cons append_Nil, metis append.assoc append_Cons append_Nil distinct_tl list.sel(3))
  from row_put [OF this assms(5)] obtain info' where i: "put_after (last us) i info = Some info'"
    "row info' (son p) (us @ i # vs)" "key info' = key info" "\<forall>x. map_option cnt (info' x) = map_option cnt (info x)"
    "\<forall>x. x \<notin> {last us, i} \<longrightarrow> info' x = info x" "\<forall>x. map_option son (info' x) = map_option son (info x)"
    "\<forall>x. map_option name (info' x) = map_option name (info x)"
    using us by (metis append.assoc append_Cons append_Nil)
  have "pp \<noteq> last us" using last_in_set [OF assms(3)] assms(4) by auto
  then have "info' pp = Some p" using i(5) assms(1,4) by auto
  moreover have "\<forall>x. x \<notin> set (i # us @ vs) \<longrightarrow> map_option bro (info' x) = map_option bro (info x)"
  proof (intro allI impI)
    fix x assume "x \<notin> set (i # us @ vs)"
    then have "x \<noteq> last us" "x \<noteq> i" using last_in_set [OF assms(3)] by auto
    then show "map_option bro (info' x) = map_option bro (info x)" using i(5) by simp
  qed
  ultimately show ?thesis
    using i sorted_insert_between [OF assms(6-8)] by (auto simp: linked_def intro!: exI [where x = "us @ i # vs"])
qed

lemma add_sonpro_cases:
  assumes "\<not> by_num f" "info pp = Some p" "row info (son p) xs" "distinct (pp # i # xs)" "info i = Some q" "bro q = None"
    and "\<forall>x\<in>set (i # xs). named info x" "sorted (map (key info) xs)"
  shows "\<exists>info'. add_sonpro f pp i info = Some info' \<and> (linked pp i xs info info' \<or> counted pp i xs info info')"
proof (cases xs)
  case Nil
  define info' where "info' = info(pp \<mapsto> p\<lparr>son := Some i\<rparr>)"
  have u: "upd pp (\<lambda>q. q\<lparr>son := Some i\<rparr>) info = Some info'" by (simp add: upd_def assms(2) info'_def)
  have "key info' = key info" by (rule upd_key [OF u]) simp
  then have "linked pp i xs info info'"
    using Nil assms(2,4,5,6) by (auto simp: linked_def info'_def intro!: exI [where x = "[i]"])
  then show ?thesis using u Nil assms(2,3) by (auto simp: add_sonpro_def)
next
  case (Cons s ss)
  then obtain sp where s: "son p = Some s" "info s = Some sp" "row info (bro sp) ss" using assms(3) by auto
  obtain c where c: "cmp f info s i = Some c" "c < 0 \<longleftrightarrow> key info s < key info i" "c = 0 \<longleftrightarrow> key info s = key info i"
    using cmp_key [of info s i f] assms(1,7) Cons by auto
  consider "c > 0" | "c \<le> 0" "cnt sp \<noteq> 0" "c = 0" | "c \<le> 0" "\<not> (cnt sp \<noteq> 0 \<and> c = 0)" by linarith
  then show ?thesis
  proof cases
    case 1
    define info' where "info' = info(i \<mapsto> q\<lparr>bro := Some s\<rparr>, pp \<mapsto> p\<lparr>son := Some i\<rparr>)"
    have "row info' (Some s) xs = row info (Some s) xs"
      using assms(4) by (intro row_cong) (auto simp: info'_def)
    moreover have "key info' = key info" using assms(2,4,5) by (intro ext) (auto simp: key_def info'_def)
    moreover have "key info i \<le> key info s" using 1 c(2,3) by (auto simp: not_less)
    moreover from this have "\<forall>x\<in>set ss. key info i \<le> key info x"
      using assms(8) Cons order_trans [of "key info i" "key info s"] by simp
    ultimately have "linked pp i xs info info'"
      using Cons assms(2-5,8) s(1) by (auto simp: linked_def info'_def intro!: exI [where x = "i # xs"])
    moreover have "add_sonpro f pp i info = Some info'"
      using 1 s c(1) assms(2,4,5) by (simp add: add_sonpro_def upd_def info'_def)
    ultimately show ?thesis by blast
  next
    case 2
    then show ?thesis
      using count_one [OF assms(3) _ assms(2), of s i] assms(2,4) s c Cons by (auto simp: add_sonpro_def)
  next
    case 3
    obtain us vs where v: "ss = us @ vs" "\<forall>u\<in>set us. key info u < key info i" "vs \<noteq> [] \<longrightarrow> key info i \<le> key info (hd vs)"
      "seek_bro f info i s (bro sp) = Some (last (s # us), case vs of [] \<Rightarrow> None | v # _ \<Rightarrow> Some v)"
      using seek_row [OF s(3), of i f s] assms(1,7) Cons by auto
    have le: "\<forall>u\<in>set (s # us). key info u \<le> key info i" using v(2) 3(1) c(2,3) by (auto simp: less_imp_le) 
    have put: "\<exists>info'. put_after (last (s # us)) i info = Some info' \<and> linked pp i xs info info'"
      using link_between [where info = info and us = "s # us" and vs = vs, OF assms(2) _ _ _ _ _ le v(3)] assms(3-5,8) Cons v(1) by simp
    show ?thesis
    proof (cases vs)
      case Nil
      then show ?thesis using put 3 v(4) s c(1) assms(2) by (auto simp: add_sonpro_def)
    next
      case (Cons x ws)
      then obtain xp where x: "info x = Some xp" "x \<in> set xs"
        using row_member [OF s(3), of x] v(1) \<open>xs = s # ss\<close> by auto
      obtain c' where c': "cmp f info x i = Some c'" "c' = 0 \<longleftrightarrow> key info x = key info i"
        using cmp_key [of info x i f] assms(1,7) x(2) by auto
      then show ?thesis
        using put count_one [OF assms(3) x(2) assms(2), of i] assms(2,4) 3 v(4) s c(1) x(1) Cons
        by (cases "cnt xp \<noteq> 0 \<and> c' = 0") (auto simp: add_sonpro_def)
    qed
  qed
qed

text \<open>Adding a process or thread to the sons of another keeps the list of sons ordered by name:
  either it is linked in, with all counts unchanged, or the count of one thread of the same name
  goes up by one (modulo 256) and the list stays as it is.\<close>

theorem add_sonpro_ordered:
  assumes "\<not> by_num f" "info pp = Some p" "row info (son p) xs" "distinct (pp # i # xs)" "info i = Some q" "bro q = None"
    and "\<forall>x\<in>set (i # xs). named info x" "sorted (map (key info) xs)"
  shows "\<exists>info' p' ys. add_sonpro f pp i info = Some info' \<and> info' pp = Some p' \<and> row info' (son p') ys \<and>
    sorted (map (key info') ys) \<and> key info' = key info \<and>
    (mset ys = mset (i # xs) \<and> (\<forall>x. map_option cnt (info' x) = map_option cnt (info x)) \<or>
     ys = xs \<and> (\<exists>x\<in>set xs. key info x = key info i \<and> info' = info(x \<mapsto> more_of (the (info x)))))"
proof -
  obtain info' where a: "add_sonpro f pp i info = Some info'" "linked pp i xs info info' \<or> counted pp i xs info info'"
    using add_sonpro_cases [OF assms] by blast
  from a(2) show ?thesis
  proof
    assume "linked pp i xs info info'"
    then show ?thesis using a(1) unfolding linked_def by blast
  next
    assume "counted pp i xs info info'"
    then obtain p' where "info' pp = Some p'" "row info' (son p') xs" "key info' = key info"
      "\<exists>x\<in>set xs. key info x = key info i \<and> info' = info(x \<mapsto> more_of (the (info x)))"
      unfolding counted_def by blast
    then show ?thesis using a(1) assms(8) by (intro exI [where x = info'] exI [where x = p'] exI [where x = xs]) simp
  qed
qed

definition demo_procs :: "nat \<rightharpoonup> proc" where
  "demo_procs = [1 \<mapsto> \<lparr>pid = 1, cnt = 0, name = Some ''init'', son = Some 2, bro = None\<rparr>,
     2 \<mapsto> \<lparr>pid = 2, cnt = 0, name = Some ''sh'', son = None, bro = None\<rparr>,
     3 \<mapsto> \<lparr>pid = 3, cnt = 0, name = Some ''cron'', son = None, bro = None\<rparr>]"

theorem add_sonpro_ordered_witness:
  "\<exists>info' p' ys. add_sonpro \<lparr>by_num = False, show_pids = False\<rparr> 1 3 demo_procs = Some info' \<and> info' 1 = Some p' \<and>
     row info' (son p') ys \<and> sorted (map (key info') ys) \<and> set ys \<subseteq> {2, 3}"
proof -
  have "row demo_procs (Some 2) [2]" "distinct [1, 3, 2 :: nat]" "\<forall>x\<in>set [3, 2]. named demo_procs x"
    by (simp_all add: demo_procs_def named_def)
  then obtain info' p' ys where "add_sonpro \<lparr>by_num = False, show_pids = False\<rparr> 1 3 demo_procs = Some info'" "info' 1 = Some p'"
    "row info' (son p') ys" "sorted (map (key info') ys)" "mset ys = mset [3, 2] \<or> ys = [2]"
    using add_sonpro_ordered [of "\<lparr>by_num = False, show_pids = False\<rparr>" demo_procs 1
      "\<lparr>pid = 1, cnt = 0, name = Some ''init'', son = Some 2, bro = None\<rparr>" "[2]" 3
      "\<lparr>pid = 3, cnt = 0, name = Some ''cron'', son = None, bro = None\<rparr>"]
    by (simp add: demo_procs_def del: mset.simps) blast
  moreover from this(5) have "set ys \<subseteq> {2, 3}" using mset_eq_setD [of ys "[3, 2]"] by auto
  ultimately show ?thesis by blast
qed

section \<open>Where the order fails\<close>

text \<open>By number, three processes of two names are not ordered: the first and the last compare equal.\<close>

lemma num_not_transitive:
  "\<exists>p q r. num False p q = Some (- 1) \<and> num False q r = Some (- 1) \<and> num False p r = Some 0"
proof -
  let ?p = "\<lambda>i n. \<lparr>pid = i, cnt = 0, name = Some n, son = None, bro = None\<rparr>"
  have "num False (?p 1 ''a'') (?p 2 ''b'') = Some (- 1)" "num False (?p 2 ''b'') (?p 3 ''a'') = Some (- 1)"
    "num False (?p 1 ''a'') (?p 3 ''a'') = Some 0" by (simp_all add: num_def)
  then show ?thesis by blast
qed

text \<open>After 256 threads of a name the count is that of a process.\<close>

lemma count_wraps: "cnt p = 255 \<Longrightarrow> cnt (more_of p) = 0"
  by (simp add: more_of_def)

end
