(* ===== verification/Amgame_Draw.thy ===== *)
theory Amgame_Draw
  imports Prelude "HOL-Library.Monad_Syntax" "HOL-Library.Signed_Division"
begin

text \<open>
  Drawing in the game of \<^verbatim>\<open>amgame\<close> (\<^verbatim>\<open>src/shape.c\<close>, \<^verbatim>\<open>src/font.c\<close>): rectangles of one colour sent to the
  display.  A cell of the grid is three sides wide; \<^verbatim>\<open>SIDE\<close> is the text \<^verbatim>\<open>w/40\<close>, so in \<^verbatim>\<open>n*SIDE\<close> the product
  is divided.
\<close>

section \<open>Figures\<close>

datatype rect = Rect int int int int u32  \<comment> \<open>x, y, width, height, colour\<close>

definition mono_rect :: "int \<Rightarrow> int \<Rightarrow> int \<Rightarrow> int \<Rightarrow> u32 \<Rightarrow> rect list" where
  "mono_rect x y w h c = [Rect x y w h c]"

definition SIDE :: "int \<Rightarrow> int" where
  "SIDE w = w div 40"

text \<open>\<^verbatim>\<open>n*SIDE\<close>, the corner of a cell, and \<^verbatim>\<open>coor_to_pix\<close> for one coordinate.\<close>

definition sides :: "int \<Rightarrow> int \<Rightarrow> int" where
  "sides n w = (n * w) sdiv 40"

definition cell :: "int \<Rightarrow> int \<Rightarrow> int" where
  "cell w x = sides (x + 1) w * 3"

definition coor_to_pix :: "int \<Rightarrow> int \<Rightarrow> int" where
  "coor_to_pix w x = cell w x + SIDE w"

text \<open>The inner loop of \<^verbatim>\<open>draw_circle\<close>: down while inside the circle, then one up.\<close>

definition four :: "int \<Rightarrow> int \<Rightarrow> int \<Rightarrow> int \<Rightarrow> u32 \<Rightarrow> rect list" where
  "four x y dx dy c =
     mono_rect (x + dx) (y + dy) 2 2 c @ mono_rect (x - dx) (y + dy) 2 2 c @
     mono_rect (x + dx) (y - dy) 2 2 c @ mono_rect (x - dx) (y - dy) 2 2 c"

lemma square_less: "dx * dx + dy * dy < r * r \<Longrightarrow> - \<bar>r\<bar> < dy" for dx dy r :: int
proof (rule ccontr)
  assume h: "dx * dx + dy * dy < r * r" "\<not> - \<bar>r\<bar> < dy"
  then have "\<bar>r\<bar> * \<bar>r\<bar> \<le> (- dy) * (- dy)" by (intro mult_mono) auto
  moreover have "0 \<le> dx * dx" by simp
  ultimately show False using h(1) by simp
qed

function circle_column :: "int \<Rightarrow> int \<Rightarrow> int \<Rightarrow> int \<Rightarrow> int \<Rightarrow> u32 \<Rightarrow> int \<times> rect list" where
  "circle_column x y r dx dy c =
     (if dx * dx + dy * dy < r * r then
        (case circle_column x y r dx (dy - 1) c of (dy', rs) \<Rightarrow> (dy', four x y dx dy c @ rs))
      else (dy, []))"
  by pat_completeness auto

termination
  by (relation "measure (\<lambda>(x, y, r, dx, dy, c). nat (dy + \<bar>r\<bar>))") (auto dest: square_less)

declare circle_column.simps [simp del]

function circle_columns :: "int \<Rightarrow> int \<Rightarrow> int \<Rightarrow> int \<Rightarrow> int \<Rightarrow> u32 \<Rightarrow> rect list" where
  "circle_columns x y r dx dy c =
     (if dx > 0 then
        (case circle_column x y r dx dy c of (dy', rs) \<Rightarrow> rs @ circle_columns x y r (dx - 1) (dy' + 1) c)
      else [])"
  by pat_completeness auto
termination
  by (relation "measure (\<lambda>(x, y, r, dx, dy, c). nat dx)") auto

declare circle_columns.simps [simp del]

definition draw_circle :: "int \<Rightarrow> int \<Rightarrow> int \<Rightarrow> u32 \<Rightarrow> rect list" where
  "draw_circle x0 y0 r c =
     (let x = x0 + r sdiv 2; y = y0 + r sdiv 2
      in circle_columns x y r r 0 c @ mono_rect x (y + r) 1 1 c @ mono_rect x (y - r) 1 1 c)"

definition draw_cross :: "int \<Rightarrow> int \<Rightarrow> int \<Rightarrow> u32 \<Rightarrow> rect list" where
  "draw_cross x y len c = concat (map (\<lambda>i. four x y i i c) [0..len - 1])"

text \<open>The arrows, \<open>0\<close> to \<open>3\<close> for left, right, up and down.\<close>

definition draw_arrow :: "int \<Rightarrow> int \<Rightarrow> int \<Rightarrow> u32 \<Rightarrow> nat \<Rightarrow> rect list" where
  "draw_arrow w x y c direc =
     (let s = SIDE w; far = (\<lambda>i. sides (if odd direc then 10 - i else 2 + i) w div 4)
      in if 2 \<le> direc then
           mono_rect (cell w x + s * 5 div 4) (cell w y + s * 3 div 4) (s div 2) (s * 3 div 2) c @
           concat (map (\<lambda>i.
             mono_rect (cell w x + sides (6 - i) w div 4) (cell w y + far i) (s div 4) (s div 4) c @
             mono_rect (cell w x + sides (5 + i) w div 4) (cell w y + far i) (s div 4) (s div 4) c) [1..3])
         else
           mono_rect (cell w x + s * 3 div 4) (cell w y + s * 5 div 4) (s * 3 div 2) (s div 2) c @
           concat (map (\<lambda>i.
             mono_rect (cell w x + far i) (cell w y + sides (6 - i) w div 4) (s div 4) (s div 4) c @
             mono_rect (cell w x + far i) (cell w y + sides (5 + i) w div 4) (s div 4) (s div 4) c) [1..3]))"

definition draw_tick :: "int \<Rightarrow> int \<Rightarrow> int \<Rightarrow> u32 \<Rightarrow> rect list" where
  "draw_tick w x y c =
     (let s = SIDE w
      in concat (map (\<lambda>i. mono_rect (cell w x + sides (2 + i) w div 4) (cell w y + sides (8 + i) w div 5) (s div 4) (s div 4) c) [0..2]) @
         concat (map (\<lambda>i. mono_rect (cell w x + sides (6 + i) w div 5) (cell w y + sides (9 - i) w div 4) (s div 4) (s div 4) c) [0..6]))"

section \<open>Text\<close>

definition font8x8_basic :: "nat list list" where
  "font8x8_basic = [
    [0x00, 0x00, 0x00, 0x00, 0x00, 0x00, 0x00, 0x00],
    [0x00, 0x00, 0x00, 0x00, 0x00, 0x00, 0x00, 0x00],
    [0x00, 0x00, 0x00, 0x00, 0x00, 0x00, 0x00, 0x00],
    [0x00, 0x00, 0x00, 0x00, 0x00, 0x00, 0x00, 0x00],
    [0x00, 0x00, 0x00, 0x00, 0x00, 0x00, 0x00, 0x00],
    [0x00, 0x00, 0x00, 0x00, 0x00, 0x00, 0x00, 0x00],
    [0x00, 0x00, 0x00, 0x00, 0x00, 0x00, 0x00, 0x00],
    [0x00, 0x00, 0x00, 0x00, 0x00, 0x00, 0x00, 0x00],
    [0x00, 0x00, 0x00, 0x00, 0x00, 0x00, 0x00, 0x00],
    [0x00, 0x00, 0x00, 0x00, 0x00, 0x00, 0x00, 0x00],
    [0x00, 0x00, 0x00, 0x00, 0x00, 0x00, 0x00, 0x00],
    [0x00, 0x00, 0x00, 0x00, 0x00, 0x00, 0x00, 0x00],
    [0x00, 0x00, 0x00, 0x00, 0x00, 0x00, 0x00, 0x00],
    [0x00, 0x00, 0x00, 0x00, 0x00, 0x00, 0x00, 0x00],
    [0x00, 0x00, 0x00, 0x00, 0x00, 0x00, 0x00, 0x00],
    [0x00, 0x00, 0x00, 0x00, 0x00, 0x00, 0x00, 0x00],
    [0x00, 0x00, 0x00, 0x00, 0x00, 0x00, 0x00, 0x00],
    [0x00, 0x00, 0x00, 0x00, 0x00, 0x00, 0x00, 0x00],
    [0x00, 0x00, 0x00, 0x00, 0x00, 0x00, 0x00, 0x00],
    [0x00, 0x00, 0x00, 0x00, 0x00, 0x00, 0x00, 0x00],
    [0x00, 0x00, 0x00, 0x00, 0x00, 0x00, 0x00, 0x00],
    [0x00, 0x00, 0x00, 0x00, 0x00, 0x00, 0x00, 0x00],
    [0x00, 0x00, 0x00, 0x00, 0x00, 0x00, 0x00, 0x00],
    [0x00, 0x00, 0x00, 0x00, 0x00, 0x00, 0x00, 0x00],
    [0x00, 0x00, 0x00, 0x00, 0x00, 0x00, 0x00, 0x00],
    [0x00, 0x00, 0x00, 0x00, 0x00, 0x00, 0x00, 0x00],
    [0x00, 0x00, 0x00, 0x00, 0x00, 0x00, 0x00, 0x00],
    [0x00, 0x00, 0x00, 0x00, 0x00, 0x00, 0x00, 0x00],
    [0x00, 0x00, 0x00, 0x00, 0x00, 0x00, 0x00, 0x00],
    [0x00, 0x00, 0x00, 0x00, 0x00, 0x00, 0x00, 0x00],
    [0x00, 0x00, 0x00, 0x00, 0x00, 0x00, 0x00, 0x00],
    [0x00, 0x00, 0x00, 0x00, 0x00, 0x00, 0x00, 0x00],
    [0x00, 0x00, 0x00, 0x00, 0x00, 0x00, 0x00, 0x00],
    [0x18, 0x3c, 0x3c, 0x18, 0x18, 0x00, 0x18, 0x00],
    [0x36, 0x36, 0x00, 0x00, 0x00, 0x00, 0x00, 0x00],
    [0x36, 0x36, 0x7f, 0x36, 0x7f, 0x36, 0x36, 0x00],
    [0x0c, 0x3e, 0x03, 0x1e, 0x30, 0x1f, 0x0c, 0x00],
    [0x00, 0x63, 0x33, 0x18, 0x0c, 0x66, 0x63, 0x00],
    [0x1c, 0x36, 0x1c, 0x6e, 0x3b, 0x33, 0x6e, 0x00],
    [0x06, 0x06, 0x03, 0x00, 0x00, 0x00, 0x00, 0x00],
    [0x18, 0x0c, 0x06, 0x06, 0x06, 0x0c, 0x18, 0x00],
    [0x06, 0x0c, 0x18, 0x18, 0x18, 0x0c, 0x06, 0x00],
    [0x00, 0x66, 0x3c, 0xff, 0x3c, 0x66, 0x00, 0x00],
    [0x00, 0x0c, 0x0c, 0x3f, 0x0c, 0x0c, 0x00, 0x00],
    [0x00, 0x00, 0x00, 0x00, 0x00, 0x0c, 0x0c, 0x06],
    [0x00, 0x00, 0x00, 0x3f, 0x00, 0x00, 0x00, 0x00],
    [0x00, 0x00, 0x00, 0x00, 0x00, 0x0c, 0x0c, 0x00],
    [0x60, 0x30, 0x18, 0x0c, 0x06, 0x03, 0x01, 0x00],
    [0x3e, 0x63, 0x73, 0x7b, 0x6f, 0x67, 0x3e, 0x00],
    [0x0c, 0x0e, 0x0c, 0x0c, 0x0c, 0x0c, 0x3f, 0x00],
    [0x1e, 0x33, 0x30, 0x1c, 0x06, 0x33, 0x3f, 0x00],
    [0x1e, 0x33, 0x30, 0x1c, 0x30, 0x33, 0x1e, 0x00],
    [0x38, 0x3c, 0x36, 0x33, 0x7f, 0x30, 0x78, 0x00],
    [0x3f, 0x03, 0x1f, 0x30, 0x30, 0x33, 0x1e, 0x00],
    [0x1c, 0x06, 0x03, 0x1f, 0x33, 0x33, 0x1e, 0x00],
    [0x3f, 0x33, 0x30, 0x18, 0x0c, 0x0c, 0x0c, 0x00],
    [0x1e, 0x33, 0x33, 0x1e, 0x33, 0x33, 0x1e, 0x00],
    [0x1e, 0x33, 0x33, 0x3e, 0x30, 0x18, 0x0e, 0x00],
    [0x00, 0x0c, 0x0c, 0x00, 0x00, 0x0c, 0x0c, 0x00],
    [0x00, 0x0c, 0x0c, 0x00, 0x00, 0x0c, 0x0c, 0x06],
    [0x18, 0x0c, 0x06, 0x03, 0x06, 0x0c, 0x18, 0x00],
    [0x00, 0x00, 0x3f, 0x00, 0x00, 0x3f, 0x00, 0x00],
    [0x06, 0x0c, 0x18, 0x30, 0x18, 0x0c, 0x06, 0x00],
    [0x1e, 0x33, 0x30, 0x18, 0x0c, 0x00, 0x0c, 0x00],
    [0x3e, 0x63, 0x7b, 0x7b, 0x7b, 0x03, 0x1e, 0x00],
    [0x0c, 0x1e, 0x33, 0x33, 0x3f, 0x33, 0x33, 0x00],
    [0x3f, 0x66, 0x66, 0x3e, 0x66, 0x66, 0x3f, 0x00],
    [0x3c, 0x66, 0x03, 0x03, 0x03, 0x66, 0x3c, 0x00],
    [0x1f, 0x36, 0x66, 0x66, 0x66, 0x36, 0x1f, 0x00],
    [0x7f, 0x46, 0x16, 0x1e, 0x16, 0x46, 0x7f, 0x00],
    [0x7f, 0x46, 0x16, 0x1e, 0x16, 0x06, 0x0f, 0x00],
    [0x3c, 0x66, 0x03, 0x03, 0x73, 0x66, 0x7c, 0x00],
    [0x33, 0x33, 0x33, 0x3f, 0x33, 0x33, 0x33, 0x00],
    [0x1e, 0x0c, 0x0c, 0x0c, 0x0c, 0x0c, 0x1e, 0x00],
    [0x78, 0x30, 0x30, 0x30, 0x33, 0x33, 0x1e, 0x00],
    [0x67, 0x66, 0x36, 0x1e, 0x36, 0x66, 0x67, 0x00],
    [0x0f, 0x06, 0x06, 0x06, 0x46, 0x66, 0x7f, 0x00],
    [0x63, 0x77, 0x7f, 0x7f, 0x6b, 0x63, 0x63, 0x00],
    [0x63, 0x67, 0x6f, 0x7b, 0x73, 0x63, 0x63, 0x00],
    [0x1c, 0x36, 0x63, 0x63, 0x63, 0x36, 0x1c, 0x00],
    [0x3f, 0x66, 0x66, 0x3e, 0x06, 0x06, 0x0f, 0x00],
    [0x1e, 0x33, 0x33, 0x33, 0x3b, 0x1e, 0x38, 0x00],
    [0x3f, 0x66, 0x66, 0x3e, 0x36, 0x66, 0x67, 0x00],
    [0x1e, 0x33, 0x07, 0x0e, 0x38, 0x33, 0x1e, 0x00],
    [0x3f, 0x2d, 0x0c, 0x0c, 0x0c, 0x0c, 0x1e, 0x00],
    [0x33, 0x33, 0x33, 0x33, 0x33, 0x33, 0x3f, 0x00],
    [0x33, 0x33, 0x33, 0x33, 0x33, 0x1e, 0x0c, 0x00],
    [0x63, 0x63, 0x63, 0x6b, 0x7f, 0x77, 0x63, 0x00],
    [0x63, 0x63, 0x36, 0x1c, 0x1c, 0x36, 0x63, 0x00],
    [0x33, 0x33, 0x33, 0x1e, 0x0c, 0x0c, 0x1e, 0x00],
    [0x7f, 0x63, 0x31, 0x18, 0x4c, 0x66, 0x7f, 0x00],
    [0x1e, 0x06, 0x06, 0x06, 0x06, 0x06, 0x1e, 0x00],
    [0x03, 0x06, 0x0c, 0x18, 0x30, 0x60, 0x40, 0x00],
    [0x1e, 0x18, 0x18, 0x18, 0x18, 0x18, 0x1e, 0x00],
    [0x08, 0x1c, 0x36, 0x63, 0x00, 0x00, 0x00, 0x00],
    [0x00, 0x00, 0x00, 0x00, 0x00, 0x00, 0x00, 0xff],
    [0x0c, 0x0c, 0x18, 0x00, 0x00, 0x00, 0x00, 0x00],
    [0x00, 0x00, 0x1e, 0x30, 0x3e, 0x33, 0x6e, 0x00],
    [0x07, 0x06, 0x06, 0x3e, 0x66, 0x66, 0x3b, 0x00],
    [0x00, 0x00, 0x1e, 0x33, 0x03, 0x33, 0x1e, 0x00],
    [0x38, 0x30, 0x30, 0x3e, 0x33, 0x33, 0x6e, 0x00],
    [0x00, 0x00, 0x1e, 0x33, 0x3f, 0x03, 0x1e, 0x00],
    [0x1c, 0x36, 0x06, 0x0f, 0x06, 0x06, 0x0f, 0x00],
    [0x00, 0x00, 0x6e, 0x33, 0x33, 0x3e, 0x30, 0x1f],
    [0x07, 0x06, 0x36, 0x6e, 0x66, 0x66, 0x67, 0x00],
    [0x0c, 0x00, 0x0e, 0x0c, 0x0c, 0x0c, 0x1e, 0x00],
    [0x30, 0x00, 0x30, 0x30, 0x30, 0x33, 0x33, 0x1e],
    [0x07, 0x06, 0x66, 0x36, 0x1e, 0x36, 0x67, 0x00],
    [0x0e, 0x0c, 0x0c, 0x0c, 0x0c, 0x0c, 0x1e, 0x00],
    [0x00, 0x00, 0x33, 0x7f, 0x7f, 0x6b, 0x63, 0x00],
    [0x00, 0x00, 0x1f, 0x33, 0x33, 0x33, 0x33, 0x00],
    [0x00, 0x00, 0x1e, 0x33, 0x33, 0x33, 0x1e, 0x00],
    [0x00, 0x00, 0x3b, 0x66, 0x66, 0x3e, 0x06, 0x0f],
    [0x00, 0x00, 0x6e, 0x33, 0x33, 0x3e, 0x30, 0x78],
    [0x00, 0x00, 0x3b, 0x6e, 0x66, 0x06, 0x0f, 0x00],
    [0x00, 0x00, 0x3e, 0x03, 0x1e, 0x30, 0x1f, 0x00],
    [0x08, 0x0c, 0x3e, 0x0c, 0x0c, 0x2c, 0x18, 0x00],
    [0x00, 0x00, 0x33, 0x33, 0x33, 0x33, 0x6e, 0x00],
    [0x00, 0x00, 0x33, 0x33, 0x33, 0x1e, 0x0c, 0x00],
    [0x00, 0x00, 0x63, 0x6b, 0x7f, 0x7f, 0x36, 0x00],
    [0x00, 0x00, 0x63, 0x36, 0x1c, 0x36, 0x63, 0x00],
    [0x00, 0x00, 0x33, 0x33, 0x33, 0x3e, 0x30, 0x1f],
    [0x00, 0x00, 0x3f, 0x19, 0x0c, 0x26, 0x3f, 0x00],
    [0x38, 0x0c, 0x0c, 0x07, 0x0c, 0x0c, 0x38, 0x00],
    [0x18, 0x18, 0x18, 0x00, 0x18, 0x18, 0x18, 0x00],
    [0x07, 0x0c, 0x0c, 0x38, 0x0c, 0x0c, 0x07, 0x00],
    [0x6e, 0x3b, 0x00, 0x00, 0x00, 0x00, 0x00, 0x00],
    [0x00, 0x00, 0x00, 0x00, 0x00, 0x00, 0x00, 0x00]]"

text \<open>A character outside the table has no picture.\<close>

definition draw_character :: "char \<Rightarrow> int \<Rightarrow> int \<Rightarrow> int \<Rightarrow> u32 \<Rightarrow> rect list option" where
  "draw_character ch x y sz c =
     (if of_char ch < (128 :: nat) then
        Some (concat (map (\<lambda>i. concat (map (\<lambda>j.
          if bit (font8x8_basic ! of_char ch ! i) j then mono_rect (x + int j * sz) (y + int i * sz) sz sz c else [])
          [0..<8])) [0..<8]))
      else None)"

text \<open>The comparison with the width of the screen is one of unsigned numbers.\<close>

fun draw_str_from :: "int \<Rightarrow> int \<Rightarrow> string \<Rightarrow> int \<Rightarrow> int \<Rightarrow> int \<Rightarrow> u32 \<Rightarrow> rect list option" where
  "draw_str_from w x [] cx cy sz c = Some []"
| "draw_str_from w x (ch # s) cx cy sz c = do {
     rs \<leftarrow> draw_character ch cx cy sz c;
     let (cx1, cy1) = (if ch = CHR 0x0a then (if cx = x then (cx, cy) else (x, cy + sz * 8)) else (cx + sz * 7, cy));
     let (cx2, cy2) = (if (cx1 + 7 * sz) mod 2 ^ 32 > w mod 2 ^ 32 then (x, cy1 + sz * 8) else (cx1, cy1));
     rs' \<leftarrow> draw_str_from w x s cx2 cy2 sz c;
     Some (rs @ rs')}"

definition draw_str :: "int \<Rightarrow> string \<Rightarrow> int \<Rightarrow> int \<Rightarrow> int \<Rightarrow> u32 \<Rightarrow> rect list option" where
  "draw_str w s x y sz c = draw_str_from w x s x y sz c"

end
