(* ===== verification/Amgame.thy ===== *)
theory Amgame
  imports Amgame_Draw
begin

unbundle bit_operations_syntax

text \<open>
  The game of \<^verbatim>\<open>amgame\<close> (\<^verbatim>\<open>src/logic.c\<close>, \<^verbatim>\<open>src/draw.c\<close>, \<^verbatim>\<open>include/game.h\<close>): an eight by eight grid of
  colours is shuffled, and pairs of cells are swapped back into order.  The results of \<^verbatim>\<open>rand\<close>, the
  clock and the keys are arguments; what is drawn is a list of rectangles.  \<open>None\<close> is a list of
  random numbers that ends too early, or a character without a picture.
\<close>

section \<open>The state\<close>

definition GRID_NUM :: nat where
  "GRID_NUM = 8"

definition SHUFFLE_TIMES :: nat where
  "SHUFFLE_TIMES = 2"

record pixel =
  p_b :: int
  p_g :: int
  p_r :: int
  p_alpha :: nat

definition pixel_val :: "pixel \<Rightarrow> u32" where
  "pixel_val p = of_int (p_b p) + of_int (p_g p) * 0x100 + of_int (p_r p) * 0x10000 + of_nat (p_alpha p) * 0x1000000"

definition of_val :: "nat \<Rightarrow> pixel" where
  "of_val v = \<lparr>p_b = int (v mod 0x100), p_g = int (v div 0x100 mod 0x100), p_r = int (v div 0x10000 mod 0x100),
     p_alpha = v div 0x1000000\<rparr>"

datatype status = GAME_PLAYING | GAME_PAUSE | GAME_WIN

record game =
  scr_w :: int
  scr_h :: int
  stat :: status
  color :: "nat \<Rightarrow> nat \<Rightarrow> pixel"
  idx :: "nat \<Rightarrow> nat \<Rightarrow> nat"
  choosen :: "nat \<times> nat"
  choosen_idx :: nat
  cursor_x :: nat
  cursor_y :: nat
  print_flag :: bool
  screen :: "rect list"
  console :: "nat list list"
  blink_time :: u32
  is_white :: bool
  old_key :: nat
  old_time :: int

definition paint :: "rect list \<Rightarrow> game \<Rightarrow> game" where
  "paint rs g = g\<lparr>screen := screen g @ rs\<rparr>"

definition draw_grid :: "nat \<Rightarrow> nat \<Rightarrow> game \<Rightarrow> game" where
  "draw_grid x y g =
     (let w = scr_w g; px = int x; py = int y
      in paint (mono_rect (cell w px) (cell w py) (SIDE w * 3) (SIDE w * 3) (pixel_val (color g x y)) @
           (if p_alpha (color g x y) = 1
            then draw_cross (SIDE w div 2 + coor_to_pix w px) (coor_to_pix w py + SIDE w div 2) (SIDE w) 0xffffff else []) @
           (if choosen_idx g = 1 \<and> choosen g = (x, y)
            then draw_circle (coor_to_pix w px) (coor_to_pix w py) (SIDE w) 0xffffff else [])) g)"

section \<open>Setting up\<close>

definition gradient :: "pixel \<Rightarrow> pixel \<Rightarrow> int \<Rightarrow> pixel" where
  "gradient a b i = \<lparr>p_b = (((p_b b - p_b a) * i) sdiv 8 + p_b a) mod 256, p_g = (((p_g b - p_g a) * i) sdiv 8 + p_g a) mod 256,
     p_r = (((p_r b - p_r a) * i) sdiv 8 + p_r a) mod 256, p_alpha = 0\<rparr>"

definition corner :: "nat \<Rightarrow> nat \<Rightarrow> bool" where
  "corner x y \<longleftrightarrow> x \<in> {0, GRID_NUM - 1} \<and> y \<in> {0, GRID_NUM - 1}"

text \<open>The colours in order, with the corners fixed.\<close>

definition ordered_color :: "nat \<Rightarrow> nat \<Rightarrow> pixel" where
  "ordered_color x y =
     (let rd = of_val 0x00000000; ld = of_val 0x00ff0000; ru = of_val 0x0000ff00; lu = of_val 0x000000ff;
          p = gradient (gradient ld lu (int x)) (gradient rd ru (int x)) (int y)
      in if corner x y then p\<lparr>p_alpha := 1\<rparr> else p)"

text \<open>Random numbers until one names a cell that is not fixed.\<close>

fun random_cell :: "game \<Rightarrow> nat list \<Rightarrow> (nat \<times> nat list) option" where
  "random_cell g [] = None"
| "random_cell g (r # rs) =
     (let j = r mod (GRID_NUM * GRID_NUM)
      in if p_alpha (color g (j div GRID_NUM) (j mod GRID_NUM)) = 1 then random_cell g rs else Some (j, rs))"

definition upd2 :: "(nat \<Rightarrow> nat \<Rightarrow> 'a) \<Rightarrow> nat \<Rightarrow> nat \<Rightarrow> 'a \<Rightarrow> nat \<Rightarrow> nat \<Rightarrow> 'a" where
  "upd2 f x y v = f(x := (f x)(y := v))"

definition swap2 :: "(nat \<Rightarrow> nat \<Rightarrow> 'a) \<Rightarrow> nat \<times> nat \<Rightarrow> nat \<times> nat \<Rightarrow> nat \<Rightarrow> nat \<Rightarrow> 'a" where
  "swap2 f a b = (let temp = f (fst a) (snd a) in upd2 (upd2 f (fst a) (snd a) (f (fst b) (snd b))) (fst b) (snd b) temp)"

definition swap_cells :: "nat \<times> nat \<Rightarrow> nat \<times> nat \<Rightarrow> game \<Rightarrow> game" where
  "swap_cells a b g = g\<lparr>color := swap2 (color g) a b, idx := swap2 (idx g) a b\<rparr>"

fun shuffle :: "nat \<Rightarrow> nat list \<Rightarrow> game \<Rightarrow> (nat list \<times> game) option" where
  "shuffle 0 rs g = Some (rs, g)"
| "shuffle (Suc n) rs g = do {
     (j, rs1) \<leftarrow> random_cell g rs;
     (k, rs2) \<leftarrow> random_cell g rs1;
     shuffle n rs2 (swap_cells (j div GRID_NUM, j mod GRID_NUM) (k div GRID_NUM, k mod GRID_NUM) g)}"

definition say :: "string \<Rightarrow> int \<Rightarrow> int \<Rightarrow> game \<Rightarrow> game option" where
  "say s x y g = do {rs \<leftarrow> draw_str (scr_w g) s x y (SIDE (scr_w g) div 8) 0x3fff00; Some (paint rs g)}"

definition draw_all :: "game \<Rightarrow> game" where
  "draw_all g = fold (\<lambda>(x, y). draw_grid x y) (List.product [0..<GRID_NUM] [0..<GRID_NUM]) g"

definition in_place :: "game \<Rightarrow> game" where
  "in_place g = g\<lparr>cursor_x := 0, cursor_y := 0, choosen_idx := 0, stat := GAME_PLAYING,
     color := (\<lambda>x y. if x < GRID_NUM \<and> y < GRID_NUM then ordered_color x y else color g x y),
     idx := (\<lambda>x y. if x < GRID_NUM \<and> y < GRID_NUM then x * 8 + y else idx g x y)\<rparr>"

definition draw_help :: "game \<Rightarrow> game option" where
  "draw_help g = do {
     g2 \<leftarrow> say (''Move with arrow keys'' @ [CHR 0x0a] @ ''Select with space key'' @ [CHR 0x0a]) 0 0 g;
     g3 \<leftarrow> say (''Swap to'' @ [CHR 0x0a] @ ''put the'' @ [CHR 0x0a] @ ''colors'' @ [CHR 0x0a] @ ''in order!'') (scr_w g - 14 * 8) (8 * 8) g2;
     say ''Press h for hints'' 0 (scr_h g - 2 * 8) g3}"

definition init :: "nat list \<Rightarrow> game \<Rightarrow> (nat list \<times> game) option" where
  "init rs g = do {
     g1 \<leftarrow> draw_help (in_place g);
     (rs', g2) \<leftarrow> shuffle SHUFFLE_TIMES rs g1;
     Some (rs', draw_all g2)}"

section \<open>Playing\<close>

definition in_order :: "game \<Rightarrow> bool" where
  "in_order g \<longleftrightarrow> (\<forall>i\<in>{..<GRID_NUM}. \<forall>j\<in>{..<GRID_NUM}. idx g i j = i * GRID_NUM + j)"

definition swap_pixel :: "game \<Rightarrow> game option" where
  "swap_pixel g = do {
     let g1 = swap_cells (choosen g) (cursor_x g, cursor_y g) g;
     let g2 = draw_grid (cursor_x g) (cursor_y g) (draw_grid (fst (choosen g)) (snd (choosen g)) g1);
     if in_order g2 then do {
       let w = scr_w g; let h = scr_h g;
       let g3 = paint (concat (map (\<lambda>k. mono_rect (w div 2 + sides (k * 3 - 13) w) (h div 2 - SIDE w * 5 div 2) (SIDE w * 3) (SIDE w * 6) 0xffffff) [0..5]))
         (g2\<lparr>stat := GAME_WIN\<rparr>);
       g4 \<leftarrow> say (''You Win!'' @ [CHR 0x0a] @ ''press r to restart'') (w div 2 - SIDE w * 12) (h div 2 - sides 2 w) g3;
       say (''Too simple?'' @ [CHR 0x0a] @ ''Edit include/game.h'') (w div 2 - SIDE w * 12) (h div 2 + SIDE w) g4}
     else Some g2}"

text \<open>The numbers of the keys, by their place in the list of the machine header.\<close>

definition KEY_R :: nat where "KEY_R = 32"
definition KEY_T :: nat where "KEY_T = 33"
definition KEY_H :: nat where "KEY_H = 48"
definition KEY_SPACE :: nat where "KEY_SPACE = 70"
definition KEY_UP :: nat where "KEY_UP = 73"
definition KEY_DOWN :: nat where "KEY_DOWN = 74"
definition KEY_LEFT :: nat where "KEY_LEFT = 75"
definition KEY_RIGHT :: nat where "KEY_RIGHT = 76"

definition press_space :: "game \<Rightarrow> game option" where
  "press_space g =
     (if p_alpha (color g (cursor_x g) (cursor_y g)) = 1 then Some g
      else
        (let w = scr_w g; g1 = paint (draw_circle (coor_to_pix w (int (cursor_x g))) (coor_to_pix w (int (cursor_y g))) (SIDE w) 0xffffff) g
         in if choosen_idx g1 = 0 then Some (g1\<lparr>choosen_idx := 1, choosen := (cursor_x g, cursor_y g)\<rparr>)
            else swap_pixel (g1\<lparr>choosen_idx := 0\<rparr>)))"

definition press :: "nat \<Rightarrow> game \<Rightarrow> game option" where
  "press key g0 =
     (let g = draw_grid (cursor_x g0) (cursor_y g0) g0
      in if key = KEY_SPACE then press_space g
         else if key = KEY_RIGHT then Some (g\<lparr>cursor_x := (if cursor_x g + 1 \<ge> GRID_NUM then cursor_x g + 1 - GRID_NUM else cursor_x g + 1)\<rparr>)
         else if key = KEY_LEFT then Some (g\<lparr>cursor_x := (if cursor_x g = 0 then GRID_NUM - 1 else cursor_x g - 1)\<rparr>)
         else if key = KEY_DOWN then Some (g\<lparr>cursor_y := (if cursor_y g + 1 \<ge> GRID_NUM then cursor_y g + 1 - GRID_NUM else cursor_y g + 1)\<rparr>)
         else if key = KEY_UP then Some (g\<lparr>cursor_y := (if cursor_y g = 0 then GRID_NUM - 1 else cursor_y g - 1)\<rparr>)
         else if key = KEY_H then Some (g\<lparr>print_flag := \<not> print_flag g\<rparr>)
         else if key = KEY_T then Some (g\<lparr>console := console g @ map (\<lambda>i. map (\<lambda>j. idx g j i) [0..<GRID_NUM]) [0..<GRID_NUM]\<rparr>)
         else Some g)"

text \<open>\<open>key\<close> has bit 15 set when a key goes down.\<close>

definition operate :: "nat list \<Rightarrow> nat \<Rightarrow> game \<Rightarrow> (nat list \<times> game) option" where
  "operate rs key g =
     (if odd (key div 0x8000) then
        (case stat g of
           GAME_PLAYING \<Rightarrow> map_option (\<lambda>g'. (rs, g')) (press (key - 0x8000) g)
         | GAME_WIN \<Rightarrow> if key = KEY_R + 0x8000 then init rs g else Some (rs, g)
         | GAME_PAUSE \<Rightarrow> Some (rs, g))
      else Some (rs, g))"

section \<open>The marks at the cursor\<close>

text \<open>\<^verbatim>\<open>mode\<close> 0 wipes, 1 draws; the colour changes every 100 milliseconds.\<close>

definition draw_cursor :: "nat \<Rightarrow> u32 \<Rightarrow> game \<Rightarrow> game" where
  "draw_cursor mode now g =
     (let w = scr_w g; x = int (cursor_x g); y = int (cursor_y g);
          c = (if mode = 0 then pixel_val (color g (cursor_x g) (cursor_y g)) else if is_white g then 0xffffff else 0);
          g1 = paint (mono_rect (cell w x + SIDE w) (cell w y + SIDE w) (SIDE w) (SIDE w) c) g
      in if now - blink_time g > 100 then g1\<lparr>blink_time := now, is_white := \<not> is_white g\<rparr> else g1)"

text \<open>An arrow towards the place of the cell chosen, or a tick on it.\<close>

definition print_instr :: "u32 \<Rightarrow> game \<Rightarrow> game" where
  "print_instr now g =
     (if print_flag g then draw_cursor 1 now g
      else
        (let (hx, hy) = (if choosen_idx g = 1 then choosen g else (cursor_x g, cursor_y g));
             dx = int (idx g hx hy div 8) - int (cursor_x g); dy = int (idx g hx hy mod 8) - int (cursor_y g);
             x = int (cursor_x g); y = int (cursor_y g); w = scr_w g
         in if dx \<noteq> 0 \<or> dy \<noteq> 0 then
              paint (draw_arrow w x y (NOT (pixel_val (color g hx hy))) (if dx > 0 then 1 else if dx < 0 then 0 else if dy > 0 then 3 else 2)) g
            else paint (draw_tick w x y 0xffffff) g))"

text \<open>A key held down counts again after 50 milliseconds.\<close>

definition next_key :: "nat \<Rightarrow> int \<Rightarrow> game \<Rightarrow> nat \<times> game" where
  "next_key new_key new_time g =
     (if new_time - old_time g > 50 \<or> new_key \<noteq> old_key g \<and> new_key \<noteq> 0
      then (new_key, g\<lparr>old_time := new_time, old_key := new_key\<rparr>)
      else (0, g))"

text \<open>One round of the loop of \<^verbatim>\<open>main\<close>, and many.\<close>

definition game_round :: "nat list \<Rightarrow> u32 \<times> nat \<times> int \<Rightarrow> game \<Rightarrow> (nat list \<times> game) option" where
  "game_round rs input g =
     (case input of (now, key, t) \<Rightarrow> (case next_key key t (print_instr now g) of (k, g') \<Rightarrow> operate rs k g'))"

fun game_rounds :: "nat list \<Rightarrow> (u32 \<times> nat \<times> int) list \<Rightarrow> game \<Rightarrow> (nat list \<times> game) option" where
  "game_rounds rs [] g = Some (rs, g)"
| "game_rounds rs (i # is) g = do {(rs', g') \<leftarrow> game_round rs i g; game_rounds rs' is g'}"

section \<open>The board\<close>

definition grid :: "(nat \<times> nat) set" where
  "grid = {..<GRID_NUM} \<times> {..<GRID_NUM}"

text \<open>
  The indices are a rearrangement of the grid that leaves the corners alone, every cell has the
  colour that belongs to its index, and a game that is won is in order.
\<close>

definition board :: "(nat \<Rightarrow> nat \<Rightarrow> pixel) \<Rightarrow> (nat \<Rightarrow> nat \<Rightarrow> nat) \<Rightarrow> bool" where
  "board c ix \<longleftrightarrow> inj_on (\<lambda>p. ix (fst p) (snd p)) grid \<and>
     (\<forall>(x, y)\<in>grid. ix x y < 64 \<and> c x y = ordered_color (ix x y div 8) (ix x y mod 8) \<and> (corner x y \<longrightarrow> ix x y = x * 8 + y))"

definition game_ok :: "game \<Rightarrow> bool" where
  "game_ok g \<longleftrightarrow> board (color g) (idx g) \<and> (cursor_x g, cursor_y g) \<in> grid \<and> choosen_idx g \<le> 1 \<and>
     (choosen_idx g = 1 \<longrightarrow> choosen g \<in> grid \<and> \<not> corner (fst (choosen g)) (snd (choosen g))) \<and>
     (stat g = GAME_WIN \<longrightarrow> in_order g)"

lemma paint_simps [simp]:
  "color (paint rs g) = color g" "idx (paint rs g) = idx g" "stat (paint rs g) = stat g" "choosen (paint rs g) = choosen g"
  "choosen_idx (paint rs g) = choosen_idx g" "cursor_x (paint rs g) = cursor_x g" "cursor_y (paint rs g) = cursor_y g"
  by (simp_all add: paint_def)

lemma game_ok_paint [simp]: "game_ok (paint rs g) = game_ok g"
  by (simp add: game_ok_def in_order_def)

lemma game_ok_draw_grid [simp]: "game_ok (draw_grid x y g) = game_ok g"
  by (simp add: draw_grid_def Let_def)

lemma ordered_alpha: "p_alpha (ordered_color x y) = (if corner x y then 1 else 0)"
  by (simp add: ordered_color_def gradient_def Let_def)

lemma swap2_apply: "swap2 f a b x y = (if (x, y) = b then f (fst a) (snd a) else if (x, y) = a then f (fst b) (snd b) else f x y)"
  by (cases a; cases b) (auto simp: swap2_def upd2_def)

text \<open>A cell is marked as fixed exactly at the corners.\<close>

lemma board_alpha:
  assumes "board c ix" "(x, y) \<in> grid"
  shows "p_alpha (c x y) = 1 \<longleftrightarrow> corner x y"
proof -
  let ?u = "ix x y div 8" let ?v = "ix x y mod 8"
  have b: "ix x y < 64" "c x y = ordered_color ?u ?v" "corner x y \<longrightarrow> ix x y = x * 8 + y"
    using assms by (auto simp: board_def)
  have g: "(?u, ?v) \<in> grid" using b(1) by (auto simp: grid_def GRID_NUM_def)
  have "corner ?u ?v \<longleftrightarrow> corner x y"
  proof
    assume c: "corner ?u ?v"
    then have "ix ?u ?v = ix x y" using assms(1) g by (auto simp: board_def)
    then have "(?u, ?v) = (x, y)"
      using assms g inj_onD [of "\<lambda>p. ix (fst p) (snd p)" grid "(?u, ?v)" "(x, y)"] by (simp add: board_def)
    then show "corner x y" using c by simp
  next
    assume "corner x y"
    then show "corner ?u ?v" using b(3) assms(2) by (auto simp: grid_def GRID_NUM_def)
  qed
  then show ?thesis by (simp add: b(2) ordered_alpha)
qed

lemma board_swap:
  assumes "board c ix" "a \<in> grid" "b \<in> grid" "\<not> corner (fst a) (snd a)" "\<not> corner (fst b) (snd b)"
  shows "board (swap2 c a b) (swap2 ix a b)"
proof -
  let ?t = "\<lambda>p. if p = b then a else if p = a then b else p"
  have s: "swap2 f a b x y = f (fst (?t (x, y))) (snd (?t (x, y)))" for f :: "nat \<Rightarrow> nat \<Rightarrow> 'z" and x y
    by (simp add: swap2_apply)
  have t: "inj_on ?t grid" "?t ` grid \<subseteq> grid" using assms(2,3) by (auto simp: inj_on_def)
  have "inj_on (\<lambda>p. ix (fst p) (snd p)) (?t ` grid)"
    using inj_on_subset [OF _ t(2)] assms(1) unfolding board_def by blast
  then have "inj_on ((\<lambda>p. ix (fst p) (snd p)) \<circ> ?t) grid" by (rule comp_inj_on [OF t(1)])
  then have "inj_on (\<lambda>p. swap2 ix a b (fst p) (snd p)) grid" by (simp only: comp_def s prod.collapse)
  moreover have "swap2 ix a b x y < 64 \<and>
      swap2 c a b x y = ordered_color (swap2 ix a b x y div 8) (swap2 ix a b x y mod 8) \<and>
      (corner x y \<longrightarrow> swap2 ix a b x y = x * 8 + y)" if "(x, y) \<in> grid" for x y
  proof -
    obtain u v where uv: "?t (x, y) = (u, v)" by force
    then have "(u, v) \<in> grid" "corner x y \<longrightarrow> (u, v) = (x, y)"
      using assms(2-5) that by (auto split: if_splits)
    moreover have "swap2 ix a b x y = ix u v" "swap2 c a b x y = c u v" unfolding s uv by simp_all
    ultimately show ?thesis using assms(1) by (auto simp: board_def)
  qed
  ultimately show ?thesis by (auto simp: board_def)
qed

section \<open>Every game\<close>

lemma random_cell_free:
  assumes "board (color g) (idx g)" "random_cell g rs = Some (j, rs')"
  shows "(j div GRID_NUM, j mod GRID_NUM) \<in> grid" "\<not> corner (j div GRID_NUM) (j mod GRID_NUM)"
proof -
  have "j < 64 \<and> p_alpha (color g (j div GRID_NUM) (j mod GRID_NUM)) \<noteq> 1"
    using assms(2) by (induction g rs rule: random_cell.induct) (auto simp: GRID_NUM_def Let_def split: if_splits)
  moreover from this show "(j div GRID_NUM, j mod GRID_NUM) \<in> grid" by (auto simp: grid_def GRID_NUM_def)
  ultimately show "\<not> corner (j div GRID_NUM) (j mod GRID_NUM)" using board_alpha [OF assms(1)] by blast
qed

lemma shuffle_ok:
  assumes "game_ok g" "choosen_idx g = 0" "stat g = GAME_PLAYING" "shuffle n rs g = Some (rs', g')"
  shows "game_ok g'"
  using assms
proof (induction n arbitrary: rs g)
  case (Suc n)
  obtain j rs1 where j: "random_cell g rs = Some (j, rs1)" using Suc.prems(4) by (auto simp: bind_eq_Some_conv)
  obtain k rs2 where k: "random_cell g rs1 = Some (k, rs2)" using Suc.prems(4) j by (auto simp: bind_eq_Some_conv)
  define h where "h = swap_cells (j div GRID_NUM, j mod GRID_NUM) (k div GRID_NUM, k mod GRID_NUM) g"
  have b: "board (color g) (idx g)" using Suc.prems(1) by (simp add: game_ok_def)
  have "board (color h) (idx h)"
    using board_swap [OF b random_cell_free(1) [OF b j] random_cell_free(1) [OF b k]] random_cell_free(2) [OF b j]
      random_cell_free(2) [OF b k] by (simp add: h_def swap_cells_def)
  then have "game_ok h" "choosen_idx h = 0" "stat h = GAME_PLAYING" "shuffle n rs2 h = Some (rs', g')"
    using Suc.prems j k by (simp_all add: game_ok_def h_def swap_cells_def)
  then show ?case by (rule Suc.IH)
qed simp

lemma board_ordered: "board (\<lambda>x y. if x < GRID_NUM \<and> y < GRID_NUM then ordered_color x y else c x y) (\<lambda>x y. if x < GRID_NUM \<and> y < GRID_NUM then x * 8 + y else ix x y)"
proof -
  have "inj_on (\<lambda>p. fst p * 8 + snd p) grid"
  proof (rule inj_onI)
    fix p q assume a: "p \<in> grid" "q \<in> grid" "fst p * 8 + snd p = fst q * 8 + snd q"
    have "(fst r * 8 + snd r) mod 8 = snd r" if "r \<in> grid" for r using that by (cases r) (simp add: grid_def GRID_NUM_def)
    then have "snd p = snd q" using a by metis
    then show "p = q" using a(3) by (simp add: prod_eq_iff)
  qed
  then have "inj_on (\<lambda>p. if fst p < GRID_NUM \<and> snd p < GRID_NUM then fst p * 8 + snd p else ix (fst p) (snd p)) grid"
    by (rule inj_on_cong [THEN iffD1, rotated]) (auto simp: grid_def)
  then show ?thesis unfolding board_def by (auto simp: grid_def GRID_NUM_def)
qed

lemma say_ok: "say s x y g = Some g' \<Longrightarrow> game_ok g' = game_ok g \<and> choosen_idx g' = choosen_idx g \<and> stat g' = stat g"
  by (auto simp: say_def bind_eq_Some_conv)

lemma draw_help_ok:
  assumes "draw_help g = Some g'"
  shows "game_ok g' = game_ok g \<and> choosen_idx g' = choosen_idx g \<and> stat g' = stat g"
proof -
  obtain s2 x2 y2 g2 s3 x3 y3 g3 s4 x4 y4 where "say s2 x2 y2 g = Some g2" "say s3 x3 y3 g2 = Some g3" "say s4 x4 y4 g3 = Some g'"
    using assms unfolding draw_help_def bind_eq_Some_conv by blast
  from this [THEN say_ok] show ?thesis by simp
qed

lemma draw_all_ok: "game_ok (draw_all g) = game_ok g"
proof -
  have "game_ok (fold (\<lambda>(x, y). draw_grid x y) ps g) = game_ok g" for ps
    by (induction ps arbitrary: g) (simp_all add: case_prod_beta)
  then show ?thesis by (simp add: draw_all_def)
qed

lemma game_init_ok:
  assumes "init rs g = Some (rs', g')"
  shows "game_ok g'"
proof -
  obtain g1 g2 where g: "draw_help (in_place g) = Some g1" "shuffle SHUFFLE_TIMES rs g1 = Some (rs', g2)" "g' = draw_all g2"
    using assms by (auto simp: init_def bind_eq_Some_conv)
  have "game_ok (in_place g)" "choosen_idx (in_place g) = 0" "stat (in_place g) = GAME_PLAYING"
    using board_ordered by (simp_all add: game_ok_def in_place_def grid_def GRID_NUM_def)
  then have "game_ok g1" "choosen_idx g1 = 0" "stat g1 = GAME_PLAYING"
    using draw_help_ok [OF g(1)] by simp_all
  then show ?thesis using shuffle_ok [OF _ _ _ g(2)] g(3) draw_all_ok by blast
qed

lemma in_order_paint [simp]: "in_order (paint rs g) = in_order g"
  by (simp add: in_order_def)

lemma draw_grid_simps [simp]:
  "color (draw_grid x y g) = color g" "idx (draw_grid x y g) = idx g" "stat (draw_grid x y g) = stat g"
  "choosen (draw_grid x y g) = choosen g" "choosen_idx (draw_grid x y g) = choosen_idx g"
  "cursor_x (draw_grid x y g) = cursor_x g" "cursor_y (draw_grid x y g) = cursor_y g"
  by (simp_all add: draw_grid_def Let_def)

lemma swap_pixel_ok:
  assumes "game_ok g" "choosen_idx g = 0" "stat g = GAME_PLAYING" "choosen g \<in> grid" "\<not> corner (fst (choosen g)) (snd (choosen g))"
    and "\<not> corner (cursor_x g) (cursor_y g)" "swap_pixel g = Some g'"
  shows "game_ok g'"
proof -
  define g2 where "g2 = draw_grid (cursor_x g) (cursor_y g) (draw_grid (fst (choosen g)) (snd (choosen g)) (swap_cells (choosen g) (cursor_x g, cursor_y g) g))"
  have b: "board (color g) (idx g)" "(cursor_x g, cursor_y g) \<in> grid" using assms(1) by (simp_all add: game_ok_def)
  have g2: "game_ok g2" "choosen_idx g2 = 0"
    using board_swap [OF b(1) assms(4) b(2) assms(5)] assms(1-3,6) by (simp_all add: g2_def game_ok_def swap_cells_def)
  show ?thesis
  proof (cases "in_order g2")
    case True
    then have "game_ok (g2\<lparr>stat := GAME_WIN\<rparr>)" using g2 by (simp add: game_ok_def in_order_def)
    moreover obtain rs s3 x3 y3 g3 s4 x4 y4 where
      "say s3 x3 y3 (paint rs (g2\<lparr>stat := GAME_WIN\<rparr>)) = Some g3" "say s4 x4 y4 g3 = Some g'"
      using assms(7) True unfolding swap_pixel_def Let_def g2_def [symmetric] by (simp only: if_True bind_eq_Some_conv) blast
    ultimately show ?thesis using say_ok by fastforce
  next
    case False
    then show ?thesis using assms(7) g2(1) unfolding swap_pixel_def Let_def g2_def [symmetric] by simp
  qed
qed

lemma press_space_ok:
  assumes "game_ok g" "stat g = GAME_PLAYING" "press_space g = Some g'"
  shows "game_ok g'"
proof (cases "p_alpha (color g (cursor_x g) (cursor_y g)) = 1")
  case False
  have c: "(cursor_x g, cursor_y g) \<in> grid" "\<not> corner (cursor_x g) (cursor_y g)"
    using assms(1) False board_alpha by (auto simp: game_ok_def)
  define g1 where "g1 = paint (draw_circle (coor_to_pix (scr_w g) (int (cursor_x g))) (coor_to_pix (scr_w g) (int (cursor_y g))) (SIDE (scr_w g)) 0xffffff) g"
  have g1: "game_ok g1" "choosen_idx g1 = choosen_idx g" "choosen g1 = choosen g" "stat g1 = GAME_PLAYING"
    "cursor_x g1 = cursor_x g" "cursor_y g1 = cursor_y g" using assms(1,2) by (simp_all add: g1_def)
  show ?thesis
  proof (cases "choosen_idx g = 0")
    case True
    then have "g' = g1\<lparr>choosen_idx := 1, choosen := (cursor_x g, cursor_y g)\<rparr>"
      using assms(3) False g1(2) unfolding press_space_def Let_def g1_def [symmetric] by simp
    then show ?thesis using g1 c by (simp add: game_ok_def)
  next
    case one: False
    then have "choosen_idx g = 1" using assms(1) by (simp add: game_ok_def)
    then have "choosen g \<in> grid" "\<not> corner (fst (choosen g)) (snd (choosen g))" using assms(1) by (simp_all add: game_ok_def)
    moreover have "swap_pixel (g1\<lparr>choosen_idx := 0\<rparr>) = Some g'"
      using assms(3) False one g1(2) unfolding press_space_def Let_def g1_def [symmetric] by simp
    moreover have "game_ok (g1\<lparr>choosen_idx := 0\<rparr>)" using g1(1,4) by (simp add: game_ok_def)
    ultimately show ?thesis using swap_pixel_ok [of "g1\<lparr>choosen_idx := 0\<rparr>" g'] g1 c by simp
  qed
qed (use assms in \<open>simp add: press_space_def\<close>)

lemma press_ok:
  assumes "game_ok g" "stat g = GAME_PLAYING" "press key g = Some g'"
  shows "game_ok g'"
proof -
  define g0 where "g0 = draw_grid (cursor_x g) (cursor_y g) g"
  have g0: "game_ok g0" "stat g0 = GAME_PLAYING" using assms by (simp_all add: g0_def)
  show ?thesis
  proof (cases "key = KEY_SPACE")
    case True
    then show ?thesis using press_space_ok [OF g0] assms(3) by (simp add: press_def g0_def [symmetric] Let_def)
  next
    case False
    then show ?thesis using assms(3) g0 unfolding press_def Let_def g0_def [symmetric]
      by (auto simp: game_ok_def grid_def GRID_NUM_def in_order_def split: if_splits)
  qed
qed

lemma operate_ok: "game_ok g \<Longrightarrow> operate rs key g = Some (rs', g') \<Longrightarrow> game_ok g'"
  using press_ok game_init_ok by (auto simp: operate_def split: if_splits status.splits)

lemma game_round_ok: "game_ok g \<Longrightarrow> game_round rs input g = Some (rs', g') \<Longrightarrow> game_ok g'"
proof -
  assume a: "game_ok g" "game_round rs input g = Some (rs', g')"
  obtain now key t where i: "input = (now, key, t)" by (cases input)
  have "game_ok (draw_cursor 1 now g)" using a(1) by (simp add: draw_cursor_def Let_def game_ok_def in_order_def)
  then have "game_ok (print_instr now g)" using a(1) by (simp add: print_instr_def Let_def split: prod.split)
  then have "game_ok (snd (next_key key t (print_instr now g)))" by (simp add: next_key_def game_ok_def in_order_def)
  then show "game_ok g'" using a(2) operate_ok by (auto simp: game_round_def i split: prod.splits)
qed

lemma game_rounds_ok: "game_ok g \<Longrightarrow> game_rounds rs inputs g = Some (rs', g') \<Longrightarrow> game_ok g'"
proof (induction inputs arbitrary: rs g)
  case (Cons i inputs)
  then obtain rs1 g1 where "game_round rs i g = Some (rs1, g1)" "game_rounds rs1 inputs g1 = Some (rs', g')"
    by (auto simp: bind_eq_Some_conv)
  then show ?case using Cons game_round_ok by blast
qed simp

text \<open>C32: whatever the random numbers, the keys and the times are, the grid is a rearrangement of the
  ordered colours that leaves the corners alone, and when the game is won the colours are in order.\<close>

theorem game_invariant:
  assumes "init rs g = Some (rs1, g1)" "game_rounds rs1 inputs g1 = Some (rs2, g2)"
  shows "board (color g2) (idx g2) \<and> (stat g2 = GAME_WIN \<longrightarrow> (\<forall>(x, y)\<in>grid. color g2 x y = ordered_color x y))"
proof -
  have ok: "game_ok g2" using game_rounds_ok [OF game_init_ok [OF assms(1)] assms(2)] .
  have "color g2 x y = ordered_color x y" if "stat g2 = GAME_WIN" "(x, y) \<in> grid" for x y
  proof -
    have "idx g2 x y = x * GRID_NUM + y" using ok that by (auto simp: game_ok_def in_order_def grid_def)
    moreover have "color g2 x y = ordered_color (idx g2 x y div 8) (idx g2 x y mod 8)"
      using ok that(2) by (auto simp: game_ok_def board_def)
    ultimately show ?thesis using that(2) by (simp add: grid_def GRID_NUM_def)
  qed
  then show ?thesis using ok by (auto simp: game_ok_def)
qed

section \<open>A game\<close>

lemma draw_str_ascii: "\<forall>ch\<in>set s. of_char ch < (128 :: nat) \<Longrightarrow> draw_str_from w x s cx cy sz c \<noteq> None"
proof (induction s arbitrary: cx cy)
  case (Cons ch s)
  have "draw_character ch cx cy sz c \<noteq> None" using Cons.prems by (simp add: draw_character_def)
  then show ?case using Cons by (simp add: bind_eq_None_conv case_prod_beta Let_def del: not_None_eq)
qed simp

lemma say_ascii: "\<forall>ch\<in>set s. of_char ch < (128 :: nat) \<Longrightarrow> \<exists>rs. say s x y g = Some (paint rs g)"
  using draw_str_ascii [where s = s and w = "scr_w g" and x = x and cx = x and cy = y and sz = "SIDE (scr_w g) div 8" and c = "0x3fff00"]
  by (cases "draw_str_from (scr_w g) x s x y (SIDE (scr_w g) div 8) 0x3fff00") (auto simp: say_def draw_str_def)

lemma random_cell_first:
  "board (color g) (idx g) \<Longrightarrow> r < 64 \<Longrightarrow> \<not> corner (r div 8) (r mod 8) \<Longrightarrow> random_cell g (r # rs) = Some (r, rs)"
  using board_alpha [of "color g" "idx g" "r div 8" "r mod 8"] by (simp add: GRID_NUM_def grid_def Let_def)

lemma shuffle_first: "\<exists>rs' g'. shuffle 2 [1, 2, 3, 4] g = Some (rs', g')" if "board (color g) (idx g)"
proof -
  let ?h = "swap_cells (0, 1) (0, 2) g"
  have "board (color ?h) (idx ?h)"
    using board_swap [OF that, of "(0, 1)" "(0, 2)"] by (simp add: swap_cells_def grid_def GRID_NUM_def corner_def)
  then show ?thesis
    using that random_cell_first [of g 1] random_cell_first [of g 2] random_cell_first [of ?h 3] random_cell_first [of ?h 4]
    by (simp add: numeral_2_eq_2 corner_def GRID_NUM_def)
qed

lemma draw_help_exists: "\<exists>rs. draw_help g = Some (paint rs g)"
proof -
  let ?a = "''Move with arrow keys'' @ [CHR 0x0a] @ ''Select with space key'' @ [CHR 0x0a]"
  let ?b = "''Swap to'' @ [CHR 0x0a] @ ''put the'' @ [CHR 0x0a] @ ''colors'' @ [CHR 0x0a] @ ''in order!''"
  obtain a where a: "say ?a 0 0 g = Some (paint a g)" using say_ascii [of ?a 0 0 g] by auto
  obtain b where b: "say ?b (scr_w g - 14 * 8) (8 * 8) (paint a g) = Some (paint b (paint a g))"
    using say_ascii [of ?b "scr_w g - 14 * 8" "8 * 8" "paint a g"] by auto
  obtain c where c: "say ''Press h for hints'' 0 (scr_h g - 2 * 8) (paint b (paint a g)) = Some (paint c (paint b (paint a g)))"
    using say_ascii [of "''Press h for hints''" 0 "scr_h g - 2 * 8" "paint b (paint a g)"] by auto
  have "paint c (paint b (paint a g)) = paint (a @ b @ c) g" by (simp add: paint_def)
  then show ?thesis using c unfolding draw_help_def a b Option.bind.bind_lunit by auto
qed

lemma init_exists: "\<exists>rs' g'. init [1, 2, 3, 4] g = Some (rs', g')"
proof -
  obtain ps where p: "draw_help (in_place g) = Some (paint ps (in_place g))" using draw_help_exists by blast
  have "board (color (paint ps (in_place g))) (idx (paint ps (in_place g)))" using board_ordered by (simp add: in_place_def)
  from shuffle_first [OF this] show ?thesis using p by (auto simp: init_def SHUFFLE_TIMES_def)
qed

definition demo_game :: game where
  "demo_game = \<lparr>scr_w = 640, scr_h = 480, stat = GAME_PAUSE, color = (\<lambda>_ _. of_val 0), idx = (\<lambda>_ _. 0), choosen = (0, 0),
     choosen_idx = 0, cursor_x = 0, cursor_y = 0, print_flag = True, screen = [], console = [], blink_time = 0, is_white = True,
     old_key = 0, old_time = 0\<rparr>"

theorem game_invariant_witness:
  "\<exists>rs g. init [1, 2, 3, 4] demo_game = Some (rs, g) \<and> board (color g) (idx g)"
proof -
  obtain rs g where g: "init [1, 2, 3, 4] demo_game = Some (rs, g)" using init_exists by blast
  then show ?thesis using game_invariant [OF g, of "[]" rs g] by simp
qed

end
