(* ===== verification/Vme.thy ===== *)
theory Vme
  imports Prelude "HOL-Library.Monad_Syntax"
begin

unbundle bit_operations_syntax

text \<open>
  Page tables of the abstract machine, \<^verbatim>\<open>abstract-machine/am/src/x86/qemu/vme.c\<close>.  Memory is a function
  from the addresses of words to words; the pages the kernel's allocator hands out are a list, and
  the pages given back another.  \<open>None\<close> is a panic.  Above the code stands what the processor does
  with the tables: translation in two steps.
\<close>

section \<open>Words of the page tables\<close>

definition PGSIZE :: nat where
  "PGSIZE = 4096"

definition PTE_P :: u32 where "PTE_P = 1"
definition PTE_W :: u32 where "PTE_W = 2"
definition PTE_U :: u32 where "PTE_U = 4"

definition PDX :: "u32 \<Rightarrow> nat" where
  "PDX va = unat (drop_bit 22 va AND 0x3ff)"

definition PTX :: "u32 \<Rightarrow> nat" where
  "PTX va = unat (drop_bit 12 va AND 0x3ff)"

definition PTE_ADDR :: "u32 \<Rightarrow> u32" where
  "PTE_ADDR pte = pte AND NOT 0xfff"

definition ROUNDDOWN :: "u32 \<Rightarrow> u32" where
  "ROUNDDOWN a = a AND NOT 0xfff"

definition present :: "u32 \<Rightarrow> bool" where
  "present w \<longleftrightarrow> w AND PTE_P \<noteq> 0"

text \<open>Element \<open>i\<close> of the table at \<open>t\<close>.\<close>

definition elem :: "u32 \<Rightarrow> nat \<Rightarrow> u32" where
  "elem t i = t + 4 * of_nat i"

record vm =
  mem :: "u32 \<Rightarrow> u32"
  pages :: "u32 list"
  freed :: "u32 list"
  kpt :: u32

section \<open>Pages\<close>

fun zero_words :: "nat \<Rightarrow> u32 \<Rightarrow> (u32 \<Rightarrow> u32) \<Rightarrow> u32 \<Rightarrow> u32" where
  "zero_words 0 p m = m"
| "zero_words (Suc i) p m = (zero_words i p m)(elem p i := 0)"

definition pgalloc :: "vm \<Rightarrow> (u32 \<times> vm) option" where
  "pgalloc s =
     (case pages s of
        [] \<Rightarrow> None
      | p # ps \<Rightarrow> if p = 0 then None else Some (p, s\<lparr>pages := ps, mem := zero_words (PGSIZE div 4) p (mem s)\<rparr>))"

definition pgfree :: "u32 \<Rightarrow> vm \<Rightarrow> vm" where
  "pgfree p s = s\<lparr>freed := p # freed s\<rparr>"

section \<open>The kernel's tables\<close>

text \<open>The areas; only the first and the last are memory and devices mapped where they are.\<close>

definition areas :: "(u32 \<times> u32 \<times> bool) list" where
  "areas = [(0, 0x20000000, True), (0x40000000, 0x80000000, False), (0xf0000000, 0, True)]"

definition map_page :: "u32 \<Rightarrow> vm \<Rightarrow> vm option" where
  "map_page pa s = do {
     let d = elem (kpt s) (PDX pa);
     (ptab, s1) \<leftarrow> (if \<not> present (mem s d) then do {
          (t, s1) \<leftarrow> pgalloc s;
          Some (t, s1\<lparr>mem := (mem s1)(d := PTE_P OR PTE_W OR t)\<rparr>)}
        else Some (PTE_ADDR (mem s d), s));
     Some (s1\<lparr>mem := (mem s1)(elem ptab (PTX pa) := PTE_P OR PTE_W OR pa)\<rparr>)}"

text \<open>From \<open>pa\<close> on, \<open>n\<close> pages: the loop ends when \<open>pa\<close> meets the end of the area, possibly by wrapping.\<close>

fun map_pages :: "nat \<Rightarrow> u32 \<Rightarrow> vm \<Rightarrow> vm option" where
  "map_pages 0 pa s = Some s"
| "map_pages (Suc n) pa s = do {s1 \<leftarrow> map_page pa s; map_pages n (pa + of_nat PGSIZE) s1}"

fun map_areas :: "(u32 \<times> u32 \<times> bool) list \<Rightarrow> vm \<Rightarrow> vm option" where
  "map_areas [] s = Some s"
| "map_areas ((from, until, physical) # as) s =
     (if physical then do {s1 \<leftarrow> map_pages (unat (until - from) div PGSIZE) from s; map_areas as s1}
      else map_areas as s)"

definition vme_init :: "nat \<Rightarrow> vm \<Rightarrow> vm option" where
  "vme_init cpu s = do {
     _ \<leftarrow> (if cpu \<noteq> 0 then None else Some ());
     (k, s1) \<leftarrow> pgalloc s;
     map_areas areas (s1\<lparr>kpt := k\<rparr>)}"

section \<open>Address spaces\<close>

fun copy_words :: "nat \<Rightarrow> u32 \<Rightarrow> u32 \<Rightarrow> (u32 \<Rightarrow> u32) \<Rightarrow> u32 \<Rightarrow> u32" where
  "copy_words 0 src dst m = m"
| "copy_words (Suc i) src dst m = (let m1 = copy_words i src dst m in m1(elem dst i := m1 (elem src i)))"

definition protect :: "vm \<Rightarrow> (u32 \<times> vm) option" where
  "protect s = do {
     (dir, s1) \<leftarrow> pgalloc s;
     Some (dir, s1\<lparr>mem := copy_words (PGSIZE div 4) (kpt s1) dir (mem s1)\<rparr>)}"

text \<open>The tables of the user area, one for every 4 MB, then the directory.\<close>

definition unprotect :: "u32 \<Rightarrow> vm \<Rightarrow> vm" where
  "unprotect dir s =
     pgfree dir (fold (\<lambda>i s. if present (mem s (elem dir i)) then pgfree (PTE_ADDR (mem s (elem dir i))) s else s) [256..<512] s)"

definition PROT_NONE :: u32 where "PROT_NONE = 1"
definition PROT_WRITE :: u32 where "PROT_WRITE = 4"

definition in_user :: "u32 \<Rightarrow> bool" where
  "in_user va \<longleftrightarrow> 0x40000000 \<le> va \<and> va < 0x80000000"

definition vm_map :: "u32 \<Rightarrow> u32 \<Rightarrow> u32 \<Rightarrow> u32 \<Rightarrow> vm \<Rightarrow> (int \<times> vm) option" where
  "vm_map dir va pa prot s =
     (if prot AND PROT_NONE \<noteq> 0 \<and> prot \<noteq> PROT_NONE then None
      else if va \<noteq> ROUNDDOWN va \<or> pa \<noteq> ROUNDDOWN pa then None
      else if \<not> in_user va then Some (1, s)
      else do {
        let d = elem dir (PDX va);
        s1 \<leftarrow> (if \<not> present (mem s d) then do {
             (t, s1) \<leftarrow> pgalloc s;
             Some (s1\<lparr>mem := (mem s1)(d := PTE_P OR PTE_W OR PTE_U OR t)\<rparr>)}
           else Some s);
        let pte = elem (PTE_ADDR (mem s1 d)) (PTX va);
        let w = (if prot AND PROT_NONE \<noteq> 0 then 0
                 else PTE_P OR (if prot AND PROT_WRITE \<noteq> 0 then PTE_W else 0) OR PTE_U OR pa);
        Some (0, s1\<lparr>mem := (mem s1)(pte := w)\<rparr>)})"

section \<open>Translation\<close>

text \<open>The entry of the processor's walk for an address: the page and the flags.\<close>

definition walk_entry :: "u32 \<Rightarrow> (u32 \<Rightarrow> u32) \<Rightarrow> u32 \<Rightarrow> u32 option" where
  "walk_entry dir m va =
     (let d = m (elem dir (PDX va))
      in if present d then
           (let e = m (elem (PTE_ADDR d) (PTX va)) in if present e then Some e else None)
         else None)"

definition page_of :: "u32 \<Rightarrow> nat \<times> nat" where
  "page_of va = (PDX va, PTX va)"

section \<open>Addresses of entries\<close>

definition aligned :: "u32 \<Rightarrow> bool" where
  "aligned p \<longleftrightarrow> p AND 0xfff = 0"

lemma mask_12: "(0xfff :: u32) = mask 12"
  by (simp add: mask_eq_exp_minus_1)

lemma bit_imp_less: "bit w n \<Longrightarrow> n < 32" for w :: u32
  using bit_imp_le_length [of w n] by simp

lemma aligned_bits: "aligned p \<longleftrightarrow> (\<forall>n<12. \<not> bit p n)"
proof -
  have "aligned p \<longleftrightarrow> (\<forall>n<32. bit p n \<longrightarrow> \<not> n < 12)" by (auto simp: aligned_def mask_12 bit_eq_iff bit_simps)
  then show ?thesis using bit_imp_less [of p] by blast
qed

lemma aligned_unat: "aligned p \<longleftrightarrow> unat p mod 4096 = 0"
proof -
  have "aligned p \<longleftrightarrow> take_bit 12 p = 0" by (simp add: aligned_def mask_12 take_bit_eq_mask)
  also have "\<dots> \<longleftrightarrow> unat (take_bit 12 p) = 0" by (simp only: unat_eq_zero)
  also have "unat (take_bit 12 p) = take_bit 12 (unat p)" by (rule unsigned_take_bit_eq)
  also have "take_bit 12 (unat p) = unat p mod 4096" by (simp add: take_bit_eq_mod)
  finally show ?thesis .
qed

lemma elem_unat:
  assumes "aligned p" "i < 1024"
  shows "unat (elem p i) = unat p + 4 * i"
proof -
  have "unat p < 2 ^ 32" using unsigned_less [of p] by simp
  moreover have "unat p mod 4096 = 0" using assms(1) aligned_unat by blast
  ultimately have "unat p + 4 * i < 2 ^ 32" using assms(2) mult_div_mod_eq [of 4096 "unat p"] by auto
  moreover have "unat (of_nat i :: u32) = i" using assms(2) by (simp add: unat_of_nat)
  ultimately show ?thesis by (simp add: elem_def unat_word_ariths)
qed

lemma elem_inj:
  assumes "aligned p" "aligned q" "i < 1024" "j < 1024" "elem p i = elem q j"
  shows "p = q \<and> i = j"
proof -
  have e: "unat p + 4 * i = unat q + 4 * j" using assms elem_unat by metis
  have m: "unat p mod 4096 = 0" "unat q mod 4096 = 0" using assms(1,2) aligned_unat by blast+
  then have "unat p = 4096 * (unat p div 4096)" "unat q = 4096 * (unat q div 4096)" by auto
  then have "unat p div 4096 = unat q div 4096" using e assms(3,4) by linarith
  then have "unat p = unat q" using m by (metis mult_div_mod_eq)
  then show ?thesis using e by (simp add: word_unat_eq_iff)
qed

lemma elem_eq: "aligned p \<Longrightarrow> aligned q \<Longrightarrow> i < 1024 \<Longrightarrow> j < 1024 \<Longrightarrow> elem p i = elem q j \<longleftrightarrow> p = q \<and> i = j"
  using elem_inj by blast

lemma zero_words_apply: "zero_words n p m a = (if \<exists>i<n. a = elem p i then 0 else m a)"
  by (induction n) (auto simp: less_Suc_eq)

lemma index_less [simp]: "PDX va < 1024" "PTX va < 1024"
proof -
  have "unat (w AND 0x3ff) < 1024" for w :: u32
  proof -
    have "(0x3ff :: u32) = mask 10" by (simp add: mask_eq_exp_minus_1)
    then have "unat (w AND 0x3ff) = unat (take_bit 10 w)" by (simp add: take_bit_eq_mask)
    also have "\<dots> = take_bit 10 (unat w)" by (rule unsigned_take_bit_eq)
    also have "\<dots> < 1024" by (simp add: take_bit_eq_mod)
    finally show ?thesis .
  qed
  then show "PDX va < 1024" "PTX va < 1024" by (simp_all add: PDX_def PTX_def)
qed

lemma PTE_ADDR_or: "PTE_ADDR f = 0 \<Longrightarrow> aligned p \<Longrightarrow> PTE_ADDR (f OR p) = p"
  unfolding PTE_ADDR_def mask_12 aligned_bits by (auto simp: bit_eq_iff bit_simps)

lemma PTE_ADDR_aligned [simp]: "aligned (PTE_ADDR w)"
  unfolding PTE_ADDR_def mask_12 aligned_bits by (auto simp: bit_simps)

lemma ROUNDDOWN_aligned: "va = ROUNDDOWN va \<longleftrightarrow> aligned va"
  unfolding ROUNDDOWN_def mask_12 aligned_bits using bit_imp_less [of va] by (auto simp: bit_eq_iff bit_simps)

lemma flags_addr: "PTE_ADDR PTE_P = 0" "PTE_ADDR PTE_W = 0" "PTE_ADDR PTE_U = 0" "PTE_ADDR (a OR b) = PTE_ADDR a OR PTE_ADDR b"
  by (simp_all add: PTE_ADDR_def PTE_P_def PTE_W_def PTE_U_def bit.conj_disj_distrib2)

lemma present_or: "present (PTE_P OR w)"
  by (simp add: present_def PTE_P_def and_one_eq odd_iff_mod_2_eq_one [symmetric] even_or_iff)

section \<open>Mapping is an update of the translation\<close>

text \<open>
  The directory and its tables are different pages, and the allocator still has none of them.
\<close>

definition table :: "u32 \<Rightarrow> (u32 \<Rightarrow> u32) \<Rightarrow> nat \<Rightarrow> u32 option" where
  "table dir m i = (if present (m (elem dir i)) then Some (PTE_ADDR (m (elem dir i))) else None)"

definition vm_ok :: "u32 \<Rightarrow> vm \<Rightarrow> bool" where
  "vm_ok dir s \<longleftrightarrow> aligned dir \<and> distinct (pages s) \<and>
     (\<forall>p\<in>set (pages s). aligned p \<and> p \<noteq> 0 \<and> p \<noteq> dir \<and> (\<forall>i<1024. table dir (mem s) i \<noteq> Some p)) \<and>
     (\<forall>i<1024. table dir (mem s) i \<noteq> Some dir) \<and>
     (\<forall>i<1024. \<forall>j<1024. \<forall>q. table dir (mem s) i = Some q \<and> table dir (mem s) j = Some q \<longrightarrow> i = j)"

lemma table_aligned: "table dir m i = Some t \<Longrightarrow> aligned t"
  by (auto simp: table_def split: if_splits)

lemma walk_table:
  "walk_entry dir m va =
     (case table dir m (PDX va) of None \<Rightarrow> None
      | Some t \<Rightarrow> if present (m (elem t (PTX va))) then Some (m (elem t (PTX va))) else None)"
  by (simp add: walk_entry_def table_def Let_def)

text \<open>A table is there afterwards, and no translation has changed.\<close>

lemma table_ready:
  assumes "vm_ok dir s" "d = elem dir i" "i < 1024" "pages s \<noteq> []"
  shows "\<exists>s1 t. (if \<not> present (mem s d) then do {
             (t, s1) \<leftarrow> pgalloc s;
             Some (s1\<lparr>mem := (mem s1)(d := PTE_P OR PTE_W OR PTE_U OR t)\<rparr>)}
           else Some s) = Some s1 \<and> vm_ok dir s1 \<and> table dir (mem s1) i = Some t \<and>
    (\<forall>va. walk_entry dir (mem s1) va = walk_entry dir (mem s) va)"
proof (cases "present (mem s d)")
  case True
  then show ?thesis using assms(1,2) by (simp add: table_def)
next
  case False
  obtain p ps where p: "pages s = p # ps" using assms(4) by (cases "pages s") auto
  have ok: "aligned dir" "aligned p" "p \<noteq> 0" "p \<noteq> dir" "p \<notin> set ps" "distinct ps" using assms(1) p by (auto simp: vm_ok_def)
  define z where "z = zero_words 1024 p (mem s)"
  define w where "w = PTE_P OR PTE_W OR PTE_U OR p"
  define m1 where "m1 = z(d := w)"
  define s1 where "s1 = s\<lparr>pages := ps, mem := m1\<rparr>"
  have w: "present w" "PTE_ADDR w = p"
    using present_or [of "PTE_W OR PTE_U OR p"] PTE_ADDR_or [of "PTE_P OR PTE_W OR PTE_U" p] ok(2)
    by (simp_all add: w_def flags_addr or.assoc)
  have z: "z (elem q k) = (if q = p then 0 else mem s (elem q k))" if "aligned q" "k < 1024" for q k
    using elem_eq [OF that(1) ok(2) that(2)] that(2) by (auto simp: z_def zero_words_apply)
  have m1: "m1 (elem q k) = (if q = p then 0 else if q = dir \<and> k = i then w else mem s (elem q k))" if "aligned q" "k < 1024" for q k
    using z [OF that] elem_eq [OF that(1) ok(1) that(2) assms(3)] ok(4) by (auto simp: m1_def assms(2))
  have t: "table dir m1 k = (if k = i then Some p else table dir (mem s) k)" if "k < 1024" for k
    using m1 [OF ok(1) that] ok(4) w by (cases "k = i") (auto simp: table_def)
  have "vm_ok dir s1"
    using assms(1) p t unfolding vm_ok_def s1_def by (auto split: if_splits)
  moreover have "walk_entry dir m1 va = walk_entry dir (mem s) va" for va
  proof (cases "PDX va = i")
    case True
    then have "m1 (elem p (PTX va)) = 0" using m1 [OF ok(2), of "PTX va"] by simp
    then have "walk_entry dir m1 va = None" using t [of "PDX va"] True assms(3) by (simp add: walk_table present_def)
    then show ?thesis using False True assms(2) by (simp add: walk_table table_def)
  next
    case no: False
    have "m1 (elem q (PTX va)) = mem s (elem q (PTX va))" if "table dir (mem s) (PDX va) = Some q" for q
      using m1 [OF table_aligned [OF that], of "PTX va"] assms(1) that p by (auto simp: vm_ok_def)
    then show ?thesis using t [of "PDX va"] no by (auto simp: walk_table split: option.splits)
  qed
  moreover have "table dir m1 i = Some p" using t [of i] assms(3) by simp
  ultimately show ?thesis
    using False ok(3) p by (simp add: pgalloc_def PGSIZE_def s1_def m1_def z_def w_def)
qed

text \<open>The entry that is written.\<close>

lemma entry_view:
  assumes "aligned pa"
  shows "present (PTE_P OR (if b then PTE_W else 0) OR PTE_U OR pa)"
    and "PTE_ADDR (PTE_P OR (if b then PTE_W else 0) OR PTE_U OR pa) = pa"
    and "(PTE_P OR (if b then PTE_W else 0) OR PTE_U OR pa) AND PTE_W = (if b then PTE_W else 0)"
proof -
  show "present (PTE_P OR (if b then PTE_W else 0) OR PTE_U OR pa)" by (rule present_or)
  have "PTE_ADDR (PTE_P OR (if b then PTE_W else 0) OR PTE_U) = 0"
    using flags_addr by (cases b) (simp_all add: PTE_ADDR_def)
  from PTE_ADDR_or [OF this assms] show "PTE_ADDR (PTE_P OR (if b then PTE_W else 0) OR PTE_U OR pa) = pa"
    by (simp only: or.assoc)
  have f: "PTE_P = push_bit 0 1" "PTE_W = push_bit 1 1" "PTE_U = push_bit 2 1"
    by (simp_all add: PTE_P_def PTE_W_def PTE_U_def)
  have "\<not> bit pa 1" using assms by (simp add: aligned_bits)
  then show "(PTE_P OR (if b then PTE_W else 0) OR PTE_U OR pa) AND PTE_W = (if b then PTE_W else 0)"
    unfolding f by (intro bit_eqI) (cases b; auto simp: bit_simps)
qed

text \<open>C33: mapping a page of the user area succeeds and updates the processor's translation at the
  addresses of that page only: they lead to the physical page, with the flags asked for, or nowhere
  when the protection forbids access. An address outside the area changes nothing.\<close>

theorem vm_map_refines:
  assumes "vm_ok dir s" "pages s \<noteq> []" "aligned va" "aligned pa" "prot AND PROT_NONE = 0 \<or> prot = PROT_NONE"
  shows "\<exists>r s'. vm_map dir va pa prot s = Some (r, s') \<and> vm_ok dir s' \<and>
    (if in_user va then r = 0 \<and>
       (\<forall>va'. map_option (\<lambda>e. (PTE_ADDR e, e AND PTE_W)) (walk_entry dir (mem s') va') =
         (if page_of va' = page_of va
          then (if prot = PROT_NONE then None else Some (pa, if prot AND PROT_WRITE \<noteq> 0 then PTE_W else 0))
          else map_option (\<lambda>e. (PTE_ADDR e, e AND PTE_W)) (walk_entry dir (mem s) va')))
     else r = 1 \<and> s' = s)"
proof (cases "in_user va")
  case False
  then show ?thesis using assms by (auto simp: vm_map_def ROUNDDOWN_aligned [symmetric])
next
  case True
  obtain s1 t where s1: "(if \<not> present (mem s (elem dir (PDX va))) then do {
       (t, s1) \<leftarrow> pgalloc s;
       Some (s1\<lparr>mem := (mem s1)(elem dir (PDX va) := PTE_P OR PTE_W OR PTE_U OR t)\<rparr>)}
     else Some s) = Some s1" "vm_ok dir s1" "table dir (mem s1) (PDX va) = Some t"
     "\<forall>va. walk_entry dir (mem s1) va = walk_entry dir (mem s) va"
    using table_ready [OF assms(1) refl index_less(1) assms(2), of va] by blast
  have t: "aligned t" "t \<noteq> dir" "PTE_ADDR (mem s1 (elem dir (PDX va))) = t"
    using table_aligned [OF s1(3)] s1(2,3) by (auto simp: vm_ok_def table_def split: if_splits)
  define w where "w = (if prot AND PROT_NONE \<noteq> 0 then 0
                 else PTE_P OR (if prot AND PROT_WRITE \<noteq> 0 then PTE_W else 0) OR PTE_U OR pa)"
  define m' where "m' = (mem s1)(elem t (PTX va) := w)"
  have m': "m' (elem q k) = (if q = t \<and> k = PTX va then w else mem s1 (elem q k))" if "aligned q" "k < 1024" for q k
    using elem_eq [OF that(1) t(1) that(2) index_less(2), of va] by (simp add: m'_def)
  have tab: "table dir m' k = table dir (mem s1) k" if "k < 1024" for k
    using m' [of dir k] that s1(2) t(2) by (simp add: table_def vm_ok_def)
  have ok: "vm_ok dir (s1\<lparr>mem := m'\<rparr>)" using s1(2) unfolding vm_ok_def by (simp add: tab)
  have walk: "walk_entry dir m' va' =
      (if page_of va' = page_of va then (if present w then Some w else None) else walk_entry dir (mem s) va')" for va'
  proof (cases "table dir (mem s1) (PDX va')")
    case None
    then have "page_of va' \<noteq> page_of va" using s1(3) by (auto simp: page_of_def)
    then show ?thesis using None tab [of "PDX va'"] s1(4) [rule_format, of va'] by (simp add: walk_table)
  next
    case (Some q)
    have "q = t \<longleftrightarrow> PDX va' = PDX va" using s1(2,3) Some index_less(1) unfolding vm_ok_def by (metis option.inject)
    then have "m' (elem q (PTX va')) = (if page_of va' = page_of va then w else mem s1 (elem q (PTX va')))"
      using m' [OF table_aligned [OF Some], of "PTX va'"] by (auto simp: page_of_def)
    then show ?thesis using Some tab [of "PDX va'"] unfolding s1(4) [rule_format, of va', symmetric] by (simp add: walk_table)
  qed
  have "vm_map dir va pa prot s = Some (0, s1\<lparr>mem := m'\<rparr>)"
    unfolding vm_map_def Let_def s1(1) m'_def w_def using True assms(3-5) t(3) ROUNDDOWN_aligned [of va] ROUNDDOWN_aligned [of pa]
    by (auto simp: PROT_NONE_def)
  have ent: "map_option (\<lambda>e. (PTE_ADDR e, e AND PTE_W)) (if present w then Some w else None) =
      (if prot = PROT_NONE then None else Some (pa, if prot AND PROT_WRITE \<noteq> 0 then PTE_W else 0))"
  proof (cases "prot = PROT_NONE")
    case True
    then have "w = 0" by (simp add: w_def PROT_NONE_def)
    then show ?thesis using True by (simp add: present_def)
  next
    case False
    then have "w = PTE_P OR (if prot AND PROT_WRITE \<noteq> 0 then PTE_W else 0) OR PTE_U OR pa" using assms(5) by (simp add: w_def)
    then show ?thesis using False entry_view [OF assms(4), of "prot AND PROT_WRITE \<noteq> 0"] by simp
  qed
  have "map_option (\<lambda>e. (PTE_ADDR e, e AND PTE_W)) (walk_entry dir m' va') =
      (if page_of va' = page_of va
       then (if prot = PROT_NONE then None else Some (pa, if prot AND PROT_WRITE \<noteq> 0 then PTE_W else 0))
       else map_option (\<lambda>e. (PTE_ADDR e, e AND PTE_W)) (walk_entry dir (mem s) va'))" for va'
    unfolding walk ent [symmetric] by simp
  moreover have "vm_map dir va pa prot s = Some (0, s1\<lparr>mem := m'\<rparr>)" by fact
  ultimately show ?thesis using True ok by simp
qed

definition demo_vm :: vm where
  "demo_vm = \<lparr>mem = (\<lambda>_. 0), pages = [0x2000], freed = [], kpt = 0\<rparr>"

lemma demo_vm_ok: "vm_ok 0x1000 demo_vm" "pages demo_vm \<noteq> []" "aligned 0x40000000" "aligned 0x7000"
  "PROT_WRITE AND PROT_NONE = 0" "PROT_WRITE AND PROT_WRITE \<noteq> 0" "PROT_WRITE \<noteq> PROT_NONE" "in_user 0x40000000"
  by (simp_all add: vm_ok_def demo_vm_def aligned_def table_def present_def in_user_def PROT_WRITE_def PROT_NONE_def)

theorem vm_map_refines_witness:
  "\<exists>s'. vm_map 0x1000 0x40000000 0x7000 PROT_WRITE demo_vm = Some (0, s') \<and>
     map_option (\<lambda>e. (PTE_ADDR e, e AND PTE_W)) (walk_entry 0x1000 (mem s') 0x40000000) = Some (0x7000, PTE_W)"
proof -
  obtain r s' where r: "vm_map 0x1000 0x40000000 0x7000 PROT_WRITE demo_vm = Some (r, s')" "r = 0"
    and w: "\<forall>va'. map_option (\<lambda>e. (PTE_ADDR e, e AND PTE_W)) (walk_entry 0x1000 (mem s') va') =
      (if page_of va' = page_of 0x40000000
       then (if PROT_WRITE = PROT_NONE then None else Some (0x7000, if PROT_WRITE AND PROT_WRITE \<noteq> 0 then PTE_W else 0))
       else map_option (\<lambda>e. (PTE_ADDR e, e AND PTE_W)) (walk_entry 0x1000 (mem demo_vm) va'))"
    using vm_map_refines [OF demo_vm_ok(1-4) disjI1, OF demo_vm_ok(5)] unfolding if_P [OF demo_vm_ok(8)] by (elim exE conjE) (rule that)
  have "map_option (\<lambda>e. (PTE_ADDR e, e AND PTE_W)) (walk_entry 0x1000 (mem s') 0x40000000) = Some (0x7000, PTE_W)"
    by (simp only: w demo_vm_ok(6,7) refl if_True if_False simp_thms)
  then show ?thesis using r by blast
qed

end
