(* ===== verification/Frecov.thy ===== *)
theory Frecov
  imports Prelude "HOL-Library.Monad_Syntax"
begin

unbundle bit_operations_syntax

text \<open>
  Recovery of pictures from a formatted FAT32 disk, \<^verbatim>\<open>frecov/frecov.c\<close>.  The image is mapped into memory at
  a page boundary: addresses are relative to the mapping, the bytes after the file up to the end of
  its last page are zero, and any other access faults.  \<open>None\<close> is such a fault, an overrun of the
  buffer for names, or a scan that does not end.  What is recovered is the list of the files written,
  names and contents.
\<close>

section \<open>The mapped image\<close>

record image =
  bytes :: "u8 list"
  base :: int

definition rd8 :: "image \<Rightarrow> int \<Rightarrow> u8 option" where
  "rd8 d a =
     (if 0 \<le> a \<and> nat a < length (bytes d) then Some (bytes d ! nat a)
      else if 0 \<le> a \<and> nat a < (length (bytes d) + 4095) div 4096 * 4096 then Some 0
      else None)"

definition rd16 :: "image \<Rightarrow> int \<Rightarrow> u16 option" where
  "rd16 d a = do {l \<leftarrow> rd8 d a; h \<leftarrow> rd8 d (a + 1); Some (ucast l OR push_bit 8 (ucast h))}"

definition rd32 :: "image \<Rightarrow> int \<Rightarrow> u32 option" where
  "rd32 d a = do {l \<leftarrow> rd16 d a; h \<leftarrow> rd16 d (a + 2); Some (ucast l OR push_bit 16 (ucast h))}"

fun rd_bytes :: "image \<Rightarrow> int \<Rightarrow> nat \<Rightarrow> u8 list option" where
  "rd_bytes d a 0 = Some []"
| "rd_bytes d a (Suc n) = do {b \<leftarrow> rd8 d a; bs \<leftarrow> rd_bytes d (a + 1) n; Some (b # bs)}"

section \<open>The boot sector\<close>

record bpb =
  bytes_per_sector :: u16
  sectors_per_cluster :: u8
  sectors_reserved :: u16
  fat_cnt :: u8
  sectors_cnt_low :: u16
  sector_per_fat_low :: u16
  sectors_cnt_high :: u32
  sector_per_fat_high :: u32
  start_cluster :: u32

definition read_bpb :: "image \<Rightarrow> bpb option" where
  "read_bpb d = do {
     bps \<leftarrow> rd16 d 0xb; spc \<leftarrow> rd8 d 0xd; res \<leftarrow> rd16 d 0xe; fats \<leftarrow> rd8 d 0x10;
     low \<leftarrow> rd16 d 0x13; fatlow \<leftarrow> rd16 d 0x16; high \<leftarrow> rd32 d 0x20; fathigh \<leftarrow> rd32 d 0x24; start \<leftarrow> rd32 d 0x2c;
     Some \<lparr>bytes_per_sector = bps, sectors_per_cluster = spc, sectors_reserved = res, fat_cnt = fats,
       sectors_cnt_low = low, sector_per_fat_low = fatlow, sectors_cnt_high = high,
       sector_per_fat_high = fathigh, start_cluster = start\<rparr>}"

definition sector_per_fat :: "bpb \<Rightarrow> u32" where
  "sector_per_fat p = (if sector_per_fat_low p = 0 then sector_per_fat_high p else ucast (sector_per_fat_low p))"

definition bps :: "bpb \<Rightarrow> int" where
  "bps fs = uint (bytes_per_sector fs)"

text \<open>Sectors are counted modulo \<open>2 ^ 32\<close>, then multiplied in 64 bits.\<close>

definition first_entry :: "bpb \<Rightarrow> int" where
  "first_entry fs =
     uint (ucast (sectors_reserved fs) + ucast (fat_cnt fs) * sector_per_fat fs
           + (start_cluster fs - 2) * ucast (sectors_per_cluster fs)) * bps fs"

definition end_entry :: "bpb \<Rightarrow> int" where
  "end_entry fs = (uint (sectors_cnt_high fs) + uint (sectors_cnt_low fs)) * bps fs"

definition data_begin :: "bpb \<Rightarrow> int" where
  "data_begin fs = first_entry fs - 2 * uint (sectors_per_cluster fs) * bps fs"

section \<open>Pictures of one colour\<close>

datatype verdict = Verdict bool | Next int

fun test_pixel :: "image \<Rightarrow> int \<Rightarrow> u8 list \<Rightarrow> int \<Rightarrow> verdict option" where
  "test_pixel d sec [] c = Some (Next c)"
| "test_pixel d sec (p # ps) c = do {
     b \<leftarrow> rd8 d c;
     if b \<noteq> p then Some (Verdict ((base d + c) AND (sec - 1) < 4)) else test_pixel d sec ps (c + 1)}"

fun test_row :: "image \<Rightarrow> int \<Rightarrow> u8 list \<Rightarrow> nat \<Rightarrow> int \<Rightarrow> verdict option" where
  "test_row d sec px 0 c = Some (Next c)"
| "test_row d sec px (Suc w) c = do {
     v \<leftarrow> test_pixel d sec px c;
     (case v of Verdict r \<Rightarrow> Some (Verdict r) | Next c' \<Rightarrow> test_row d sec px w c')}"

fun test_rows :: "image \<Rightarrow> int \<Rightarrow> u8 list \<Rightarrow> nat \<Rightarrow> nat \<Rightarrow> int \<Rightarrow> verdict option" where
  "test_rows d sec px w 0 c = Some (Next c)"
| "test_rows d sec px w (Suc h) c = do {
     v \<leftarrow> test_row d sec px w c;
     (case v of Verdict r \<Rightarrow> Some (Verdict r) | Next c' \<Rightarrow> test_rows d sec px w h (c' + int (w mod 4)))}"

record bmp =
  data_off :: u32
  bmp_width :: u32
  bmp_height :: u32

definition read_bmp :: "image \<Rightarrow> int \<Rightarrow> bmp option" where
  "read_bmp d file = do {
     off \<leftarrow> rd32 d (file + 10); w \<leftarrow> rd32 d (file + 18); h \<leftarrow> rd32 d (file + 22);
     Some \<lparr>data_off = off, bmp_width = w, bmp_height = h\<rparr>}"

definition color_test :: "image \<Rightarrow> int \<Rightarrow> int \<Rightarrow> bmp \<Rightarrow> bool option" where
  "color_test d sec file b = do {
     let start = file + uint (data_off b);
     px \<leftarrow> rd_bytes d start 3;
     v \<leftarrow> test_rows d sec px (unat (bmp_width b)) (unat (bmp_height b)) start;
     Some (case v of Verdict r \<Rightarrow> r | Next c \<Rightarrow> True)}"

text \<open>The rows that are written: the first pixel \<open>w\<close> times, then zeros.\<close>

definition one_color :: "u8 list \<Rightarrow> nat \<Rightarrow> nat \<Rightarrow> u8 list" where
  "one_color px w h = concat (replicate h (concat (replicate w px) @ replicate (w mod 4) 0))"

definition recover :: "image \<Rightarrow> int \<Rightarrow> int \<Rightarrow> u32 \<Rightarrow> u8 list option" where
  "recover d sec file sz = do {
     b \<leftarrow> read_bmp d file;
     homo \<leftarrow> color_test d sec file b;
     if homo then do {
       header \<leftarrow> rd_bytes d file (unat (data_off b));
       px \<leftarrow> rd_bytes d (file + uint (data_off b)) 3;
       Some (header @ one_color px (unat (bmp_width b)) (unat (bmp_height b)))}
     else rd_bytes d file (unat sz)}"

section \<open>Names\<close>

definition name_offsets :: "int list" where
  "name_offsets = [1, 3, 5, 7, 9, 14, 16, 18, 20, 22, 24, 28, 30]"

definition BUFFER :: nat where
  "BUFFER = 68"

text \<open>The characters of an entry are appended to the buffer; one with bit 7 ends the name.\<close>

fun print_file_name :: "image \<Rightarrow> int \<Rightarrow> int list \<Rightarrow> u8 list \<Rightarrow> (bool \<times> u8 list) option" where
  "print_file_name d e [] buf = Some (False, buf)"
| "print_file_name d e (i # is) buf = do {
     c \<leftarrow> rd16 d (e + i);
     if BUFFER \<le> length buf then None
     else if c AND 0x80 \<noteq> 0 then Some (True, buf @ [0])
     else print_file_name d e is (buf @ [ucast c])}"

text \<open>From the last entry of the name, \<open>n\<close> entries backwards.\<close>

fun entries_name :: "image \<Rightarrow> nat \<Rightarrow> int \<Rightarrow> u8 list \<Rightarrow> u8 list option" where
  "entries_name d 0 tmp buf = Some buf"
| "entries_name d (Suc n) tmp buf = do {
     (stop, buf1) \<leftarrow> print_file_name d (tmp - 32) name_offsets buf;
     if stop then Some buf1 else entries_name d n (tmp - 32) buf1}"

partial_function (option) skip_long :: "image \<Rightarrow> int \<Rightarrow> int option" where
  "skip_long d tmp = do {
     mark \<leftarrow> rd8 d (tmp + 11);
     if mark = 0xf then skip_long d (tmp + 32) else Some tmp}"

definition c_string :: "u8 list \<Rightarrow> u8 list" where
  "c_string buf = takeWhile (\<lambda>c. c \<noteq> 0) buf"

definition ends_bmp :: "u8 list \<Rightarrow> bool" where
  "ends_bmp name \<longleftrightarrow> 4 \<le> length name \<and> drop (length name - 4) name = [0x2e, 0x62, 0x6d, 0x70]"

section \<open>The scan\<close>

definition wanted :: "image \<Rightarrow> int \<Rightarrow> u8 list \<Rightarrow> bool option" where
  "wanted d e name = do {
     first \<leftarrow> rd8 d e; sz \<leftarrow> rd32 d (e + 28); suffix \<leftarrow> rd_bytes d (e + 8) 3;
     Some (first \<noteq> 0xe5 \<and> sz \<noteq> 0 \<and> ends_bmp name \<and> suffix = [0x42, 0x4d, 0x50])}"

definition file_start :: "image \<Rightarrow> bpb \<Rightarrow> int \<Rightarrow> int option" where
  "file_start d fs e = do {
     high \<leftarrow> rd16 d (e + 20); low \<leftarrow> rd16 d (e + 26);
     Some (data_begin fs + (uint high * 65536 + uint low) * bps fs)}"

text \<open>A name and the entry \<open>e\<close> behind it: the file that is written, if any.\<close>

definition recover_entry :: "image \<Rightarrow> bpb \<Rightarrow> int \<Rightarrow> u8 list \<Rightarrow> (u8 list \<times> u8 list) list option" where
  "recover_entry d fs e name = do {
     w \<leftarrow> wanted d e name;
     if w then do {
       file \<leftarrow> file_start d fs e;
       sz \<leftarrow> rd32 d (e + 28);
       content \<leftarrow> recover d (bps fs) file sz;
       Some [(name, content)]}
     else Some []}"

partial_function (option) scan :: "image \<Rightarrow> bpb \<Rightarrow> int \<Rightarrow> (u8 list \<times> u8 list) list option" where
  "scan d fs e =
     (if e = end_entry fs then Some []
      else do {
        attr \<leftarrow> rd8 d (e + 11);
        if attr \<noteq> 0xf then scan d fs (e + 32)
        else do {
          tmp \<leftarrow> skip_long d e;
          buf \<leftarrow> entries_name d (nat ((tmp - e) div 32)) tmp [];
          fs1 \<leftarrow> recover_entry d fs tmp (c_string buf);
          rest \<leftarrow> scan d fs (tmp + 32);
          Some (fs1 @ rest)}})"

definition frecov :: "image \<Rightarrow> (u8 list \<times> u8 list) list option" where
  "frecov d = do {fs \<leftarrow> read_bpb d; scan d fs (first_entry fs)}"

section \<open>A picture of one colour is recovered as it is on the disk\<close>

lemma test_pixel_next:
  "test_pixel d sec px c = Some (Next c') \<Longrightarrow>
    c' = c + int (length px) \<and> (\<forall>k<length px. rd8 d (c + int k) = Some (px ! k))"
proof (induction px arbitrary: c)
  case (Cons p ps)
  then have r: "rd8 d c = Some p" and n: "test_pixel d sec ps (c + 1) = Some (Next c')"
    by (auto simp: bind_eq_Some_conv split: if_splits)
  from Cons.IH [OF n] have "rd8 d (c + int k) = Some ((p # ps) ! k)" if "k < Suc (length ps)" for k
    using that r by (cases k) (simp_all add: algebra_simps)
  then show ?case using Cons.IH [OF n] by simp
qed simp

lemma verdict_next:
  "(case v of Verdict r \<Rightarrow> Some (Verdict r) | Next c \<Rightarrow> f c) = Some (Next c') \<longleftrightarrow> (\<exists>c. v = Next c \<and> f c = Some (Next c'))"
  by (cases v) simp_all

lemma test_row_next:
  "test_row d sec px w c = Some (Next c') \<Longrightarrow>
    c' = c + int (w * length px) \<and>
    (\<forall>j<w. \<forall>k<length px. rd8 d (c + int (j * length px + k)) = Some (px ! k))"
proof (induction w arbitrary: c)
  case (Suc w)
  then have p: "test_pixel d sec px c = Some (Next (c + int (length px)))"
    and r: "test_row d sec px w (c + int (length px)) = Some (Next c')"
    by (auto simp: bind_eq_Some_conv verdict_next dest: test_pixel_next)
  have "rd8 d (c + int (j * length px + k)) = Some (px ! k)" if "j < Suc w" "k < length px" for j k
    using test_pixel_next [OF p] Suc.IH [OF r] that by (cases j) (auto simp: algebra_simps)
  then show ?case using Suc.IH [OF r] by (simp add: algebra_simps)
qed simp

text \<open>The length of a row with its padding.\<close>

definition row_size :: "nat \<Rightarrow> nat" where
  "row_size w = 3 * w + w mod 4"

lemma row_aligned: "4 dvd row_size w"
proof -
  have "row_size w = 4 * (w - w div 4)" by (simp add: row_size_def minus_div_mult_eq_mod [symmetric] algebra_simps)
  then show ?thesis by simp
qed

lemma test_rows_next:
  "test_rows d sec px w h c = Some (Next c') \<Longrightarrow> length px = 3 \<Longrightarrow>
    \<forall>i<h. \<forall>j<w. \<forall>k<3. rd8 d (c + int (i * row_size w + j * 3 + k)) = Some (px ! k)"
proof (induction h arbitrary: c)
  case (Suc h)
  then obtain c1 where p: "test_row d sec px w c = Some (Next c1)"
    and r: "test_rows d sec px w h (c1 + int (w mod 4)) = Some (Next c')"
    by (auto simp: bind_eq_Some_conv verdict_next)
  have c1: "c1 + int (w mod 4) = c + int (row_size w)"
    using test_row_next [OF p] Suc.prems(2) by (simp add: row_size_def)
  have "rd8 d (c + int (i * row_size w + j * 3 + k)) = Some (px ! k)" if "i < Suc h" "j < w" "k < 3" for i j k
    using test_row_next [OF p] Suc.IH [OF r Suc.prems(2)] that Suc.prems(2) unfolding c1
    by (cases i) (auto simp: algebra_simps)
  then show ?case by blast
qed simp

lemma concat_replicate_nth:
  "i < h \<Longrightarrow> k < length xs \<Longrightarrow> concat (replicate h xs) ! (i * length xs + k) = xs ! k"
proof (induction h arbitrary: i)
  case (Suc h)
  then show ?case by (cases i) (simp_all add: nth_append)
qed simp

lemma length_concat_replicate: "length (concat (replicate h xs)) = h * length xs"
  by (induction h) simp_all

lemma one_color_nth:
  assumes "length px = 3" "i < h" "j < w" "k < 3"
  shows "one_color px w h ! (i * row_size w + j * 3 + k) = px ! k"
proof -
  define row where "row = concat (replicate w px) @ replicate (w mod 4) (0 :: u8)"
  have row: "length row = row_size w" by (simp add: row_def length_concat_replicate assms(1) row_size_def)
  have b: "j * 3 + k < length (concat (replicate w px))" using assms by (simp add: length_concat_replicate)
  then have "j * 3 + k < length row" by (simp add: row_def)
  from concat_replicate_nth [OF assms(2) this]
  have "one_color px w h ! (i * row_size w + j * 3 + k) = row ! (j * 3 + k)"
    by (simp add: one_color_def row_def [symmetric] row add.assoc)
  also have "\<dots> = px ! k" using concat_replicate_nth [of j w k px] assms b by (simp add: row_def nth_append)
  finally show ?thesis .
qed

lemma one_color_length: "length px = 3 \<Longrightarrow> length (one_color px w h) = h * row_size w"
  by (simp add: one_color_def length_concat_replicate row_size_def)

lemma rd_bytes_length: "rd_bytes d a n = Some bs \<Longrightarrow> length bs = n"
  by (induction n arbitrary: a bs) (auto simp: bind_eq_Some_conv)

text \<open>C34: when the test runs over every pixel of a picture without meeting another colour, the
  file that is written has the header of the picture and, at the place of every byte of every pixel, that byte of
  the disk; its rows have lengths divisible by 4, as the format wants.\<close>

theorem homo_recovered:
  assumes "read_bmp d file = Some b" "rd_bytes d (file + uint (data_off b)) 3 = Some px"
    "rd_bytes d file (unat (data_off b)) = Some header"
    "test_rows d sec px (unat (bmp_width b)) (unat (bmp_height b)) (file + uint (data_off b)) = Some (Next c)"
  shows "\<exists>out. recover d sec file sz = Some out \<and> take (unat (data_off b)) out = header \<and>
    length out = unat (data_off b) + unat (bmp_height b) * row_size (unat (bmp_width b)) \<and>
    4 dvd row_size (unat (bmp_width b)) \<and>
    (\<forall>i<unat (bmp_height b). \<forall>j<unat (bmp_width b). \<forall>k<3.
       rd8 d (file + int (unat (data_off b) + (i * row_size (unat (bmp_width b)) + j * 3 + k))) =
       Some (out ! (unat (data_off b) + (i * row_size (unat (bmp_width b)) + j * 3 + k))))"
proof -
  have px: "length px = 3" and hd: "length header = unat (data_off b)"
    using rd_bytes_length assms(2,3) by blast+
  have "recover d sec file sz = Some (header @ one_color px (unat (bmp_width b)) (unat (bmp_height b)))"
    using assms by (simp add: recover_def color_test_def)
  moreover have "rd8 d (file + int (unat (data_off b) + (i * row_size (unat (bmp_width b)) + j * 3 + k))) =
      Some ((header @ one_color px (unat (bmp_width b)) (unat (bmp_height b))) !
        (unat (data_off b) + (i * row_size (unat (bmp_width b)) + j * 3 + k)))"
    if "i < unat (bmp_height b)" "j < unat (bmp_width b)" "k < 3" for i j k
    using test_rows_next [OF assms(4) px] one_color_nth [OF px that] that
    by (simp add: nth_append hd uint_nat [symmetric] add.assoc)
  ultimately show ?thesis by (simp add: hd one_color_length [OF px] row_aligned)
qed

text \<open>A picture of one row of three blue pixels, at the start of the image.\<close>

definition demo_image :: image where
  "demo_image = \<lparr>bytes = replicate 10 7 @ [26, 0, 0, 0] @ replicate 4 0 @ [3, 0, 0, 0, 1, 0, 0, 0] @
     concat (replicate 3 [255, 0, 0]) @ [0, 0, 0], base = 0x10000\<rparr>"

theorem homo_recovered_witness:
  "\<exists>out. recover demo_image 512 0 99 = Some out \<and> take 26 out = take 26 (bytes demo_image) \<and> length out = 38"
proof -
  have 1: "read_bmp demo_image 0 = Some \<lparr>data_off = 26, bmp_width = 3, bmp_height = 1\<rparr>" by code_simp
  have 2: "rd_bytes demo_image (0 + uint (26 :: u32)) 3 = Some [255, 0, 0]" by code_simp
  have 3: "rd_bytes demo_image 0 (unat (26 :: u32)) = Some (take 26 (bytes demo_image))" by code_simp
  have 4: "test_rows demo_image 512 [255, 0, 0] (unat (3 :: u32)) (unat (1 :: u32)) (0 + uint (26 :: u32)) = Some (Next 38)" by code_simp
  show ?thesis using homo_recovered [OF 1, of "[255, 0, 0]" "take 26 (bytes demo_image)" 512 38 99] 2 3 4
    by (auto simp: row_size_def)
qed

section \<open>Where a file lies\<close>

text \<open>In the format cluster \<open>n\<close> is \<open>n\<close> times the sectors of a cluster behind the start of the data; the
  program leaves that factor out, so it finds files only where a cluster is a sector.\<close>

definition cluster_addr :: "bpb \<Rightarrow> int \<Rightarrow> int" where
  "cluster_addr fs n = data_begin fs + n * uint (sectors_per_cluster fs) * bps fs"

lemma file_start_cluster:
  assumes "rd16 d (e + 20) = Some high" "rd16 d (e + 26) = Some low"
  defines "n \<equiv> uint high * 65536 + uint low"
  shows "file_start d fs e = Some (cluster_addr fs n) \<longleftrightarrow>
    sectors_per_cluster fs = 1 \<or> n = 0 \<or> bps fs = 0"
  using assms by (auto simp: file_start_def cluster_addr_def uint_1_eq word_uint_eq_iff)

end
