(* ===== verification/Crepl.thy ===== *)
theory Crepl
  imports Prelude "HOL-Library.Monad_Syntax"
begin

text \<open>
  The interactive C interpreter \<^verbatim>\<open>crepl/crepl.c\<close>.  The lines that readline returns are a list; its end
  is end of file, where the program passes a null pointer on.  The compiler, the loader and the
  programs that are run are parameters: \<open>cc\<close> whether gcc accepts a text, \<open>dl\<close> whether the library can be loaded,
  \<open>run\<close> what the expression evaluates to with the functions loaded so far, \<open>None\<close> when the child
  does not end well.
\<close>

section \<open>Reading a function\<close>

datatype gathered = Complete string "string list" | TooMuch "string list" | Eof | Overflow

text \<open>The braces still open after a line; \<open>None\<close> when one is closed that was not opened.\<close>

fun braces :: "string \<Rightarrow> nat \<Rightarrow> nat option" where
  "braces [] remain = Some remain"
| "braces (c # cs) remain =
     (if c = CHR ''{'' then braces cs (remain + 1)
      else if c = CHR ''}'' then (if remain = 0 then None else braces cs (remain - 1))
      else braces cs remain)"

definition BUFFER_SIZE :: nat where
  "BUFFER_SIZE = 0x1000"

fun gather :: "string \<Rightarrow> nat \<Rightarrow> string \<Rightarrow> string list \<Rightarrow> gathered" where
  "gather buffer remain cmd ls =
     (case braces cmd remain of
        None \<Rightarrow> TooMuch ls
      | Some r \<Rightarrow>
          if BUFFER_SIZE \<le> length buffer + length cmd then Overflow
          else if r = 0 then Complete (buffer @ cmd) ls
          else (case ls of [] \<Rightarrow> Eof | l # ls' \<Rightarrow> gather (buffer @ cmd) r l ls'))"

declare gather.simps [simp del]

section \<open>The loop\<close>

datatype message =
  Too_much | Compile_error | Load_failed | Added string | Value string int | Child_error

datatype ending = Exit | Null_line | Buffer_overrun

record repl =
  events :: "message list"
  funs :: "string list"
  ended :: "ending option"

definition is_function :: "string \<Rightarrow> bool" where
  "is_function cmd \<longleftrightarrow> take 3 cmd = ''int''"

definition wrapper :: "string \<Rightarrow> string" where
  "wrapper cmd = ''int __expr_wrapper(void){return '' @ cmd @ '';}''"

definition say :: "message \<Rightarrow> repl \<Rightarrow> repl" where
  "say e s = s\<lparr>events := events s @ [e]\<rparr>"

definition add_function :: "(string \<Rightarrow> bool) \<Rightarrow> (string \<Rightarrow> bool) \<Rightarrow> string \<Rightarrow> repl \<Rightarrow> repl" where
  "add_function cc dl txt s =
     (if \<not> cc txt then say Compile_error s
      else if \<not> dl txt then say Load_failed s
      else say (Added txt) (s\<lparr>funs := funs s @ [txt]\<rparr>))"

text \<open>An expression is loaded and run in a child: what it changes is lost with the child. When
  the child cannot load the library it returns to the prompt as a second interpreter, which is not
  followed; the parent waits for it.\<close>

definition evaluate :: "(string \<Rightarrow> bool) \<Rightarrow> (string list \<Rightarrow> string \<Rightarrow> int option) \<Rightarrow> string \<Rightarrow> repl \<Rightarrow> repl" where
  "evaluate cc run cmd s =
     (if \<not> cc (wrapper cmd) then say Compile_error s
      else (case run (funs s) (wrapper cmd) of Some v \<Rightarrow> say (Value cmd v) s | None \<Rightarrow> say Child_error s))"

text \<open>One command: the lines left, and the state.\<close>

definition main_loop ::
  "(string \<Rightarrow> bool) \<Rightarrow> (string \<Rightarrow> bool) \<Rightarrow> (string list \<Rightarrow> string \<Rightarrow> int option) \<Rightarrow>
   string \<Rightarrow> string list \<Rightarrow> repl \<Rightarrow> string list \<times> repl" where
  "main_loop cc dl run cmd ls s =
     (if is_function cmd then
        (case gather [] 0 cmd ls of
           TooMuch ls' \<Rightarrow> (ls', say Too_much s)
         | Eof \<Rightarrow> ([], s\<lparr>ended := Some Null_line\<rparr>)
         | Overflow \<Rightarrow> ([], s\<lparr>ended := Some Buffer_overrun\<rparr>)
         | Complete txt ls' \<Rightarrow> (ls', add_function cc dl txt s))
      else (ls, evaluate cc run cmd s))"

lemma gather_shorter:
  "gather buffer remain cmd ls = Complete txt ls' \<Longrightarrow> length ls' \<le> length ls"
  "gather buffer remain cmd ls = TooMuch ls' \<Longrightarrow> length ls' \<le> length ls"
proof (induction ls arbitrary: buffer remain cmd)
  case Nil
  { case 1 then show ?case by (subst (asm) gather.simps) (auto split: option.splits if_splits) }
  { case 2 then show ?case by (subst (asm) gather.simps) (auto split: option.splits if_splits) }
next
  case (Cons l ls)
  { case 1 then show ?case
      by (subst (asm) gather.simps) (force split: option.splits if_splits dest: Cons.IH(1)) }
  { case 2 then show ?case
      by (subst (asm) gather.simps) (force split: option.splits if_splits dest: Cons.IH(2)) }
qed

lemma main_loop_shorter: "length (fst (main_loop cc dl run cmd ls s)) \<le> length ls"
  by (auto simp: main_loop_def gather_shorter split: gathered.splits)

function crepl ::
  "(string \<Rightarrow> bool) \<Rightarrow> (string \<Rightarrow> bool) \<Rightarrow> (string list \<Rightarrow> string \<Rightarrow> int option) \<Rightarrow> string list \<Rightarrow> repl \<Rightarrow> repl" where
  "crepl cc dl run ls s =
     (if ended s \<noteq> None then s
      else (case ls of
          [] \<Rightarrow> s\<lparr>ended := Some Null_line\<rparr>
        | cmd # ls' \<Rightarrow>
            if cmd = ''exit'' then s\<lparr>ended := Some Exit\<rparr>
            else crepl cc dl run (fst (main_loop cc dl run cmd ls' s)) (snd (main_loop cc dl run cmd ls' s))))"
  by pat_completeness auto
termination
  by (relation "measure (\<lambda>(cc, dl, run, ls, s). length ls)") (auto simp: le_imp_less_Suc main_loop_shorter case_prod_beta)

declare crepl.simps [simp del]

section \<open>Functions end where their braces balance\<close>

lemma braces_append: "braces (xs @ ys) r = braces xs r \<bind> braces ys"
  by (induction xs r rule: braces.induct) auto

lemma gather_Nil:
  "gather b r cmd [] = Complete txt rest \<longleftrightarrow>
    txt = b @ cmd \<and> rest = [] \<and> braces cmd r = Some 0 \<and> length txt < BUFFER_SIZE"
  by (subst gather.simps) (auto split: option.splits)

lemma gather_Cons:
  "gather b r cmd (l # ls) = Complete txt rest \<longleftrightarrow>
    (txt = b @ cmd \<and> rest = l # ls \<and> braces cmd r = Some 0 \<and> length txt < BUFFER_SIZE) \<or>
    (\<exists>k>0. braces cmd r = Some k \<and> length (b @ cmd) < BUFFER_SIZE \<and> gather (b @ cmd) k l ls = Complete txt rest)"
  by (subst gather.simps) (auto split: option.splits)

text \<open>After \<open>n\<close> more lines the braces balance for the first time.\<close>

definition ends_at :: "nat \<Rightarrow> string \<Rightarrow> string list \<Rightarrow> nat \<Rightarrow> bool" where
  "ends_at r cmd ls n \<longleftrightarrow> n \<le> length ls \<and> braces (concat (cmd # take n ls)) r = Some 0 \<and>
     (\<forall>m<n. \<exists>k>0. braces (concat (cmd # take m ls)) r = Some k)"

lemma ends_at_Suc:
  "ends_at r cmd (l # ls) (Suc n) \<longleftrightarrow> (\<exists>k>0. braces cmd r = Some k \<and> ends_at k l ls n)"
proof
  assume e: "ends_at r cmd (l # ls) (Suc n)"
  then obtain k where k: "0 < k" "braces cmd r = Some k" by (force simp: ends_at_def)
  have "\<exists>k'>0. braces (concat (l # take m ls)) k = Some k'" if "m < n" for m
    using e that k unfolding ends_at_def by (auto simp: braces_append dest: spec [of _ "Suc m"])
  then show "\<exists>k>0. braces cmd r = Some k \<and> ends_at k l ls n"
    using e k unfolding ends_at_def by (intro exI [of _ k]) (auto simp: braces_append)
next
  assume "\<exists>k>0. braces cmd r = Some k \<and> ends_at k l ls n"
  then obtain k where k: "0 < k" "braces cmd r = Some k" "ends_at k l ls n" by blast
  have "\<exists>k>0. braces (concat (cmd # take m (l # ls))) r = Some k" if "m < Suc n" for m
    using that k by (cases m) (auto simp: ends_at_def braces_append)
  then show "ends_at r cmd (l # ls) (Suc n)" using k by (auto simp: ends_at_def braces_append)
qed

lemma ex_nat_Suc: "(\<exists>n. P n) \<longleftrightarrow> P 0 \<or> (\<exists>n. P (Suc n))"
  by (metis not0_implies_Suc)

lemma gather_ends:
  "gather b r cmd ls = Complete txt rest \<longleftrightarrow>
    (\<exists>n. ends_at r cmd ls n \<and> txt = b @ concat (cmd # take n ls) \<and> rest = drop n ls \<and> length txt < BUFFER_SIZE)"
proof (induction ls arbitrary: b r cmd)
  case Nil
  show ?case by (auto simp: gather_Nil ends_at_def)
next
  case (Cons l ls)
  have "(\<exists>n. ends_at r cmd (l # ls) n \<and> txt = b @ concat (cmd # take n (l # ls)) \<and> rest = drop n (l # ls) \<and> length txt < BUFFER_SIZE) \<longleftrightarrow>
      (txt = b @ cmd \<and> rest = l # ls \<and> braces cmd r = Some 0 \<and> length txt < BUFFER_SIZE) \<or>
      (\<exists>n. ends_at r cmd (l # ls) (Suc n) \<and> txt = b @ cmd @ concat (l # take n ls) \<and> rest = drop n ls \<and> length txt < BUFFER_SIZE)"
    by (subst ex_nat_Suc) (auto simp: ends_at_def)
  then show ?case unfolding gather_Cons Cons.IH ends_at_Suc by auto
qed

text \<open>The text that is compiled as a function is the shortest run of lines from the command on in which
  every brace that was opened is closed again, provided it fits the buffer, and the lines after
  it are left.\<close>

theorem function_text:
  "gather [] 0 cmd ls = Complete txt rest \<longleftrightarrow>
    (\<exists>n. ends_at 0 cmd ls n \<and> txt = concat (cmd # take n ls) \<and> rest = drop n ls \<and> length txt < BUFFER_SIZE)"
  by (simp add: gather_ends)

text \<open>The interpreter always ends: with the line \<open>exit\<close>, at the end of the input or when a function is too long.\<close>

lemma crepl_ends: "ended (crepl cc dl run ls s) \<noteq> None"
proof (induction cc dl run ls s rule: crepl.induct)
  case (1 cc dl run ls s)
  then show ?case by (subst crepl.simps) (auto split: list.split)
qed

text \<open>Only the first three characters are compared, so an expression that begins with \<open>int\<close> is
  taken for a function.\<close>

lemma integer_is_function: "is_function ''integers + 1''"
  by (simp add: is_function_def)

end
