(* ===== verification/Shell_Types.thy ===== *)
theory Shell_Types
  imports Shell_Parse
begin

text \<open>
  What the shell may rely on when it runs a command that \<^verbatim>\<open>parsecmd\<close> accepts
  (\<^verbatim>\<open>kernel/src/shell/parse.c\<close>): the argument vector always has room for its terminator, and
  every redirection names a file by a plain word and has one of three modes, on standard input or
  output.
\<close>

section \<open>Typed commands\<close>

definition plain :: "string \<Rightarrow> bool" where
  "plain f \<longleftrightarrow> f \<noteq> [] \<and> (\<forall>c\<in>set f. \<not> is_ws c \<and> \<not> is_sym c) \<and> hd f \<noteq> QUOTE \<and> hd f \<noteq> CHR 0x27"

fun typed :: "cmd \<Rightarrow> bool" where
  "typed (EXEC args) \<longleftrightarrow> length args < MAXARGS"
| "typed (REDIR c f mode fd) \<longleftrightarrow> typed c \<and> plain f \<and>
     (mode = O_RDONLY \<and> fd = 0 \<or> mode = O_WRONLY + O_CREATE \<and> fd = 1 \<or> mode = O_WRONLY + O_CREATE + O_APPEND \<and> fd = 1)"
| "typed (PIPE l r) \<longleftrightarrow> typed l \<and> typed r"
| "typed (LIST l r) \<longleftrightarrow> typed l \<and> typed r"
| "typed (BACK c) \<longleftrightarrow> typed c"

lemma gettoken_plain:
  assumes "gettoken ps = Inr (CHR ''a'', f, rest)"
  shows "plain f"
proof (cases "skip_ws ps")
  case Nil
  show ?thesis using assms unfolding gettoken_def Nil by simp
next
  case (Cons c cs)
  have w: "\<not> is_ws c" using hd_dropWhile [of is_ws ps] Cons by simp
  consider (quote) "c = QUOTE \<or> c = CHR 0x27" | (sym) "\<not> (c = QUOTE \<or> c = CHR 0x27)" "c \<in> set ''|();&<''"
    | (gt) "c = CHR ''>''" | (word) "\<not> (c = QUOTE \<or> c = CHR 0x27)" "c \<notin> set ''|();&<''" "c \<noteq> CHR ''>''"
    by blast
  then show ?thesis
  proof cases
    case quote
    then show ?thesis using assms Cons by (cases "dropWhile (\<lambda>d. d \<noteq> c) cs") (auto simp: gettoken_def)
  next
    case sym
    have "c = CHR ''a''"
      using assms unfolding gettoken_def Cons list.case if_not_P [OF sym(1)] if_P [OF sym(2)] by blast
    then show ?thesis using sym(2) by simp
  next
    case gt
    then show ?thesis using assms Cons by (auto simp: gettoken_def split: if_splits)
  next
    case word
    then have s: "\<not> is_sym c" by (auto simp: is_sym_def symbols_def)
    have "f = takeWhile (\<lambda>d. \<not> is_ws d \<and> \<not> is_sym d) (c # cs)"
      using assms unfolding gettoken_def Cons list.case if_not_P [OF word(1)] if_not_P [OF word(2)] if_not_P [OF word(3)] by blast
    then show ?thesis using w s word(1) unfolding plain_def by (auto dest: set_takeWhileD)
  qed
qed

abbreviation plain_files :: "(char \<times> string) list \<Rightarrow> bool" where
  "plain_files rs \<equiv> \<forall>(tok, f)\<in>set rs. plain f"

lemma typed_wrap: "typed c \<Longrightarrow> plain_files rs \<Longrightarrow> typed (wrap c rs)"
proof (induction rs arbitrary: c)
  case (Cons r rs)
  obtain tok f where r: "r = (tok, f)" by (cases r)
  have "typed (redir_of tok c f)" using Cons.prems r by (auto simp: redir_of_def)
  then show ?case using Cons r by (simp add: wrap_def)
qed (simp add: wrap_def)

lemma parseredirs_plain:
  "parseredirs rs ps = Inr (rs', ps') \<Longrightarrow> plain_files rs \<Longrightarrow> plain_files rs'"
proof (induction rs ps arbitrary: rs' ps' rule: parseredirs.induct)
  case (1 rs ps)
  show ?case
  proof (cases "peek ps ''<>''")
    case True
    then obtain tok t ps1 f ps2 where t: "gettoken ps = Inr (tok, t, ps1)"
      "gettoken ps1 = Inr (CHR ''a'', f, ps2)" "parseredirs (rs @ [(tok, f)]) ps2 = Inr (rs', ps')"
      using 1(2) by (subst (asm) parseredirs.simps) (auto split: sum.splits if_splits)
    have "plain_files (rs @ [(tok, f)])" using 1(3) gettoken_plain [OF t(2)] by auto
    then show ?thesis using "1.IH" [OF True t(1) refl refl t(2) refl refl _ t(3)] by simp
  next
    case False
    then show ?thesis using 1(2,3) by (subst (asm) parseredirs.simps) simp
  qed
qed

lemma parseargs_typed:
  "parseargs args rs ps = Inr (c, ps') \<Longrightarrow> length args < MAXARGS \<Longrightarrow> plain_files rs \<Longrightarrow> typed c"
proof (induction args rs ps arbitrary: c ps' rule: parseargs.induct)
  case (1 args rs ps)
  show ?case
  proof (cases "peek ps ''|)&;''")
    case True
    then show ?thesis using 1(2-4) by (subst (asm) parseargs.simps) (auto intro: typed_wrap)
  next
    case False
    then obtain tok t ps1 where g: "gettoken ps = Inr (tok, t, ps1)"
      using 1(2) by (subst (asm) parseargs.simps) (auto split: sum.splits)
    show ?thesis
    proof (cases "tok = CHR 0x00")
      case True
      then show ?thesis using 1(2-4) False g by (subst (asm) parseargs.simps) (auto intro: typed_wrap)
    next
      case tok: False
      define args' where "args' = args @ [if tok = QUOTE then butlast (tl t) else t]"
      from 1(2) False g tok obtain rs' ps2 where
        r: "\<not> (tok \<noteq> QUOTE \<and> tok \<noteq> CHR ''a'')" "length args' < MAXARGS"
          "parseredirs rs ps1 = Inr (rs', ps2)" "parseargs args' rs' ps2 = Inr (c, ps')"
        by (subst (asm) parseargs.simps) (auto simp: args'_def Let_def not_le split: sum.splits if_splits)
      have "\<not> MAXARGS \<le> length args'" using r(2) by simp
      from "1.IH" [OF False g refl refl tok r(1) args'_def this r(3) refl r(4) r(2)] show ?thesis
        using parseredirs_plain [OF r(3) 1(4)] by blast
    qed
  qed
qed

lemma parsebacks_typed: "parsebacks c ps = Inr (c', ps') \<Longrightarrow> typed c \<Longrightarrow> typed c'"
proof (induction c ps rule: parsebacks.induct)
  case (1 c ps)
  then show ?case by (subst (asm) (2) parsebacks.simps) (auto split: if_splits sum.splits)
qed

lemma parse_typed:
  "parseline n ps = Inr (c, ps') \<Longrightarrow> typed c"
  "parsepipe n ps = Inr (c, ps') \<Longrightarrow> typed c"
  "parseblock n ps = Inr (c, ps') \<Longrightarrow> typed c"
  "parseexec n ps = Inr (c, ps') \<Longrightarrow> typed c"
proof (induction n arbitrary: ps c ps')
  case (Suc n)
  { case 1 then show ?case
      by (fastforce split: sum.splits if_splits dest: parsebacks_typed Suc.IH(1,2)) }
  { case 2 then show ?case
      by (fastforce split: sum.splits if_splits dest: Suc.IH(2,4)) }
  { case 3 then show ?case
      by (fastforce split: sum.splits if_splits dest: Suc.IH(1) parseredirs_plain intro: typed_wrap) }
  { case 4 then show ?case
      by (auto simp: MAXARGS_def split: sum.splits if_splits
          dest: Suc.IH(3) intro: parseargs_typed dest!: parseredirs_plain) }
qed simp_all

text \<open>C35: every command the parser accepts is typed: a simple command has fewer than \<open>MAXARGS\<close>
  arguments, so that its vector of arguments ends with a null pointer, and every redirection names its file by a plain
  word and opens it for reading at descriptor 0 or for writing, with creation, at descriptor 1.\<close>

theorem parsecmd_typed: "parsecmd s = Inr c \<Longrightarrow> typed c"
  by (auto simp: parsecmd_def split: sum.splits if_splits dest: parse_typed(1))

theorem parsecmd_typed_witness:
  "\<exists>c. parsecmd ''wc > f'' = Inr c \<and> typed c"
proof -
  have "parsecmd ''wc > f'' = Inr (REDIR (EXEC [''wc'']) ''f'' (O_WRONLY + O_CREATE) 1)"
    by (simp add: parsecmd_def gettoken_def peek_def is_ws_def is_sym_def whitespace_def symbols_def MAXARGS_def
        wrap_def redir_of_def parseredirs.simps parseargs.simps parsebacks.simps numeral_eq_Suc)
  from parsecmd_typed [OF this] this show ?thesis by blast
qed

end
