(* ===== verification/Cte.thy ===== *)
theory Cte
  imports Prelude "HOL-Library.Monad_Syntax"
begin

unbundle bit_operations_syntax

text \<open>
  Traps of the abstract machine on x86: \<^verbatim>\<open>abstract-machine/am/src/x86/qemu/cte.c\<close>, the entry in
  \<^verbatim>\<open>cte_trap.S\<close> and the first contexts of threads (\<^verbatim>\<open>kcontext\<close>, and \<^verbatim>\<open>ucontext\<close> of \<^verbatim>\<open>vme.c\<close>).  Memory is a
  function from the addresses of words to words, stacks grow down in it.  The handler of the kernel is a
  parameter: it maps an event and the interrupted context to the context to resume, \<open>None\<close> is a
  null pointer.  The results of the functions are \<open>None\<close> where the code panics.
\<close>

section \<open>Processor, contexts and frames\<close>

record regs =
  eax :: u32
  ebx :: u32
  ecx :: u32
  edx :: u32
  esi :: u32
  edi :: u32
  ebp :: u32
  esp :: u32
  eip :: u32
  eflags :: u32
  cs :: u32
  ds :: u32
  es :: u32
  ss :: u32

record ctx =
  prot :: u32
  c_eax :: u32
  c_ebx :: u32
  c_ecx :: u32
  c_edx :: u32
  c_esi :: u32
  c_edi :: u32
  c_ebp :: u32
  esp3 :: u32
  c_eip :: u32
  c_eflags :: u32
  c_cs :: u32
  c_ds :: u32
  c_es :: u32
  c_ss :: u32
  ss0 :: u32
  esp0 :: u32

type_synonym memory = "u32 \<Rightarrow> u32"

text \<open>What belongs to the processor: its address space, the page directory in use, the stack for traps
  from user mode, and the end-of-interrupt messages sent.\<close>

record cpu =
  store :: memory
  cpu_prot :: u32
  cr3 :: u32
  tss_ss0 :: u32
  tss_esp0 :: u32
  eois :: nat

definition DPL_USER :: u32 where "DPL_USER = 3"
definition KSEL :: "u32 \<Rightarrow> u32" where "KSEL d = push_bit 3 d"
definition USEL :: "u32 \<Rightarrow> u32" where "USEL d = push_bit 3 d OR DPL_USER"
definition SEG_KCODE :: u32 where "SEG_KCODE = 1"
definition SEG_KDATA :: u32 where "SEG_KDATA = 2"
definition SEG_UCODE :: u32 where "SEG_UCODE = 3"
definition SEG_UDATA :: u32 where "SEG_UDATA = 4"
definition FL_IF :: u32 where "FL_IF = 0x200"

section \<open>The interrupt descriptor table\<close>

text \<open>Gates with an entry of their own: number, whether user programs may raise it, whether the processor
  pushes an error code.\<close>

definition IRQS :: "(nat \<times> bool \<times> bool) list" where
  "IRQS = map (\<lambda>i. (i, False, i \<in> {8, 10, 11, 12, 13, 14})) ([0..<17] @ [19, 31] @ [32..<48]) @ [(128, True, False)]"

text \<open>A gate leads to the entry that pushes this number, with this privilege.\<close>

definition cte_init :: "nat \<Rightarrow> (int \<times> bool) list option" where
  "cte_init c =
     (if c \<noteq> 0 then None
      else Some (fold (\<lambda>(i, user, err) idt. idt[i := (int i, user)]) IRQS (replicate 256 (-1, False))))"

section \<open>Stacks\<close>

definition push :: "u32 \<Rightarrow> u32 \<times> memory \<Rightarrow> u32 \<times> memory" where
  "push v = (\<lambda>(sp, m). (sp - 4, m(sp - 4 := v)))"

definition pushes :: "u32 list \<Rightarrow> u32 \<times> memory \<Rightarrow> u32 \<times> memory" where
  "pushes vs s = fold push vs s"

definition field :: "memory \<Rightarrow> u32 \<Rightarrow> nat \<Rightarrow> u32" where
  "field m p i = m (p + 4 * of_nat i)"

section \<open>Entry\<close>

definition from_user :: "u32 \<Rightarrow> bool" where
  "from_user c \<longleftrightarrow> c AND DPL_USER \<noteq> 0"

text \<open>The processor pushes the interrupted state, on another stack when it comes from user mode; the entry pushes the
  number of the interrupt (and an error code where the processor has none), the data segments and
  the registers.\<close>

definition frame :: "regs \<Rightarrow> u32 \<Rightarrow> u32 \<Rightarrow> u32 \<Rightarrow> u32 list" where
  "frame r irq err sp =
     [eflags r, cs r, eip r, err, irq, ds r, es r, eax r, ecx r, edx r, ebx r, sp, ebp r, esi r, edi r]"

definition trap :: "regs \<Rightarrow> u32 \<Rightarrow> u32 \<Rightarrow> cpu \<Rightarrow> u32 \<times> cpu" where
  "trap r irq err s =
     (let (sp, m) = (if from_user (cs r) then pushes [ss r, esp r] (tss_esp0 s, store s) else (esp r, store s));
          (tf, m1) = pushes (frame r irq err (sp - 28)) (sp, m)
      in (tf, s\<lparr>store := m1\<rparr>))"

section \<open>Events\<close>

datatype ev = EVENT_NULL | EVENT_ERROR | EVENT_IRQ_TIMER | EVENT_IRQ_IODEV | EVENT_PAGEFAULT | EVENT_YIELD | EVENT_SYSCALL

record am_event =
  kind :: ev
  cause :: u32
  ref :: u32

definition event_of :: "u32 \<Rightarrow> u32 \<Rightarrow> u32 \<Rightarrow> u32 \<Rightarrow> am_event" where
  "event_of irq err a cr2 =
     (if irq = 32 then \<lparr>kind = EVENT_IRQ_TIMER, cause = 0, ref = 0\<rparr>
      else if irq = 33 then \<lparr>kind = EVENT_IRQ_IODEV, cause = 0, ref = 0\<rparr>
      else if irq = 0x80 then \<lparr>kind = (if a = -1 then EVENT_YIELD else EVENT_SYSCALL), cause = 0, ref = 0\<rparr>
      else if irq \<in> {0, 6, 7, 8, 10, 11, 12, 13} then \<lparr>kind = EVENT_ERROR, cause = 0, ref = 0\<rparr>
      else if irq = 14 then
        \<lparr>kind = EVENT_PAGEFAULT,
         cause = (if err AND 1 \<noteq> 0 then 1 else 0) OR (if err AND 2 \<noteq> 0 then 4 else 2),
         ref = cr2\<rparr>
      else \<lparr>kind = EVENT_ERROR, cause = err, ref = 0\<rparr>)"

section \<open>Handling\<close>

text \<open>The context from the frame at \<open>tf\<close>.\<close>

definition save :: "u32 \<Rightarrow> cpu \<Rightarrow> ctx" where
  "save tf s =
     (let f = field (store s) tf; user = from_user (f 13)
      in \<lparr>prot = cpu_prot s, c_eax = f 7, c_ebx = f 4, c_ecx = f 6, c_edx = f 5, c_esi = f 1, c_edi = f 0, c_ebp = f 2,
          esp3 = (if user then f 15 else 0), c_eip = f 12, c_eflags = f 14, c_cs = f 13, c_ds = f 9, c_es = f 8,
          c_ss = (if user then f 16 else 0), ss0 = KSEL SEG_KDATA,
          esp0 = (if user then tf + 4 * 17 else tf + 4 * 17 - 4 * 2)\<rparr>)"

definition resume_words :: "ctx \<Rightarrow> u32 list" where
  "resume_words c = (if from_user (c_cs c) then [c_ss c, esp3 c] else []) @
     [c_eflags c, c_cs c, c_eip c, c_ds c, c_es c, c_eax c, c_ecx c, c_edx c, c_ebx c, esp0 c, c_ebp c, c_esi c, c_edi c]"

text \<open>\<open>popal\<close>, the segments and \<open>iret\<close>, from the stack pointer on.\<close>

definition restore :: "u32 \<Rightarrow> memory \<Rightarrow> u32 \<Rightarrow> regs" where
  "restore sp m ss_now =
     (let f = field m sp; user = from_user (f 11)
      in \<lparr>eax = f 7, ebx = f 4, ecx = f 6, edx = f 5, esi = f 1, edi = f 0, ebp = f 2,
          esp = (if user then f 13 else sp + 4 * 13), eip = f 10, eflags = f 12, cs = f 11, ds = f 9, es = f 8,
          ss = (if user then f 14 else ss_now)\<rparr>)"

text \<open>Back to a context; the stack segment of the kernel stays loaded.  The page directory lies 12 bytes
  into an address space, after the size of a page and the area.\<close>

definition resume :: "ctx \<Rightarrow> cpu \<Rightarrow> regs \<times> cpu" where
  "resume c s =
     (let s1 = s\<lparr>cpu_prot := prot c\<rparr>;
          s2 = (if from_user (c_cs c)
                then (if prot c \<noteq> 0 then s1\<lparr>cr3 := store s (prot c + 12)\<rparr> else s1)\<lparr>tss_ss0 := ss0 c, tss_esp0 := esp0 c\<rparr>
                else s1);
          (sp, m) = pushes (resume_words c) (esp0 c, store s2)
      in (restore sp m (KSEL SEG_KDATA), s2\<lparr>store := m\<rparr>))"

definition irq_handle ::
  "(am_event \<Rightarrow> ctx \<Rightarrow> cpu \<Rightarrow> (ctx \<times> cpu) option) option \<Rightarrow> u32 \<Rightarrow> u32 \<Rightarrow> cpu \<Rightarrow> (regs \<times> cpu) option" where
  "irq_handle handler cr2 tf s = do {
     let c = save tf s;
     let f = field (store s) tf;
     let s1 = (if 32 \<le> f 10 \<and> f 10 < 64 then s\<lparr>eois := eois s + 1\<rparr> else s);
     let e = event_of (f 10) (f 11) (f 7) cr2;
     (c1, s2) \<leftarrow> (case handler of None \<Rightarrow> Some (c, s1) | Some h \<Rightarrow> h e c s1);
     Some (resume c1 s2)}"

definition yield_trap :: "'a option \<Rightarrow> regs \<Rightarrow> regs option" where
  "yield_trap handler r = (if handler = None then None else Some (r\<lparr>eax := -1\<rparr>))"

definition intr_read :: "'a option \<Rightarrow> regs \<Rightarrow> bool option" where
  "intr_read handler r = (if handler = None then None else Some (eflags r AND FL_IF \<noteq> 0))"

definition intr_write :: "'a option \<Rightarrow> bool \<Rightarrow> regs \<Rightarrow> regs option" where
  "intr_write handler enable r =
     (if handler = None then None
      else Some (r\<lparr>eflags := (if enable then eflags r OR FL_IF else eflags r AND NOT FL_IF)\<rparr>))"

section \<open>First contexts\<close>

definition kcontext :: "u32 \<Rightarrow> u32 \<Rightarrow> u32 \<Rightarrow> u32 \<Rightarrow> memory \<Rightarrow> ctx \<times> memory" where
  "kcontext panic_on_return stack_end entry arg m =
     (let sp = stack_end - 8
      in (\<lparr>prot = 0, c_eax = 0, c_ebx = 0, c_ecx = 0, c_edx = 0, c_esi = 0, c_edi = 0, c_ebp = 0, esp3 = 0,
           c_eip = entry, c_eflags = FL_IF, c_cs = KSEL SEG_KCODE, c_ds = KSEL SEG_KDATA, c_es = KSEL SEG_KDATA,
           c_ss = KSEL SEG_KDATA, ss0 = 0, esp0 = sp\<rparr>,
          m(sp := panic_on_return, sp + 4 := arg)))"

definition ucontext :: "u32 \<Rightarrow> u32 \<Rightarrow> u32 \<Rightarrow> u32 \<Rightarrow> u32 \<Rightarrow> ctx" where
  "ucontext p ustack_end kstack_end entry args =
     \<lparr>prot = p, c_eax = args, c_ebx = 0, c_ecx = 0, c_edx = 0, c_esi = 0, c_edi = 0, c_ebp = 0, esp3 = ustack_end,
      c_eip = entry, c_eflags = FL_IF, c_cs = USEL SEG_UCODE, c_ds = USEL SEG_UDATA, c_es = USEL SEG_UDATA,
      c_ss = USEL SEG_UDATA, ss0 = KSEL SEG_KDATA, esp0 = kstack_end\<rparr>"

section \<open>What is pushed is found again\<close>

lemma pushes_snoc: "pushes (vs @ [v]) s = push v (pushes vs s)"
  by (simp add: pushes_def)

lemma pushes_sp: "fst (pushes vs (sp, m)) = sp - 4 * of_nat (length vs)"
proof (induction vs rule: rev_induct)
  case (snoc v vs)
  then show ?case by (cases "pushes vs (sp, m)") (simp add: pushes_snoc push_def algebra_simps)
qed (simp add: pushes_def)

lemma offset_eq:
  fixes p :: u32
  assumes "i < 2 ^ 30" "j < 2 ^ 30"
  shows "p + 4 * of_nat i = p + 4 * of_nat j \<longleftrightarrow> i = j"
proof -
  have "unat (4 * of_nat i :: u32) = 4 * i" if "i < 2 ^ 30" for i
    using that by (simp add: unat_word_ariths unat_of_nat)
  then show ?thesis using assms by (metis add_left_cancel mult_left_cancel zero_neq_numeral)
qed

lemma pushes_field:
  assumes "length vs < 2 ^ 30" "i < length vs"
  shows "field (snd (pushes vs (sp, m))) (fst (pushes vs (sp, m))) i = rev vs ! i"
  using assms
proof (induction vs arbitrary: i rule: rev_induct)
  case (snoc v vs)
  obtain sp1 m1 where p: "pushes vs (sp, m) = (sp1, m1)" by (cases "pushes vs (sp, m)")
  show ?case
  proof (cases i)
    case 0
    then show ?thesis by (simp add: pushes_snoc p push_def field_def)
  next
    case (Suc k)
    have "sp1 - 4 + 4 * of_nat i = sp1 + 4 * of_nat k" by (simp add: Suc algebra_simps)
    moreover have "sp1 - 4 + 4 * of_nat i \<noteq> sp1 - 4 + 4 * of_nat 0"
      using offset_eq [of i 0 "sp1 - 4"] snoc.prems Suc by simp
    moreover have "field m1 sp1 k = rev vs ! k"
      using snoc.IH [of k] snoc.prems Suc by (simp add: p)
    ultimately show ?thesis by (simp add: pushes_snoc p push_def field_def Suc)
  qed
qed simp

lemma pushes_other:
  "a \<notin> (\<lambda>k. sp - 4 * of_nat k) ` {1..length vs} \<Longrightarrow> snd (pushes vs (sp, m)) a = m a"
proof (induction vs rule: rev_induct)
  case (snoc v vs)
  obtain sp1 m1 where p: "pushes vs (sp, m) = (sp1, m1)" by (cases "pushes vs (sp, m)")
  have "sp1 - 4 = sp - 4 * of_nat (Suc (length vs))"
    using pushes_sp [of vs sp m] p by (simp add: algebra_simps)
  then have "sp1 - 4 \<in> (\<lambda>k. sp - 4 * of_nat k) ` {1..length (vs @ [v])}"
    by (intro image_eqI [of _ _ "Suc (length vs)"]) simp_all
  then have a: "a \<noteq> sp1 - 4" using snoc.prems by blast
  have "a \<notin> (\<lambda>k. sp - 4 * of_nat k) ` {1..length vs}" using snoc.prems by auto
  then have "m1 a = m a" using snoc.IH by (simp add: p)
  then show ?case using a by (simp add: pushes_snoc p push_def)
qed (simp add: pushes_def)

section \<open>Contexts and registers\<close>

definition regs_of :: "ctx \<Rightarrow> regs" where
  "regs_of c =
     \<lparr>eax = c_eax c, ebx = c_ebx c, ecx = c_ecx c, edx = c_edx c, esi = c_esi c, edi = c_edi c, ebp = c_ebp c,
      esp = (if from_user (c_cs c) then esp3 c else esp0 c), eip = c_eip c, eflags = c_eflags c, cs = c_cs c,
      ds = c_ds c, es = c_es c, ss = (if from_user (c_cs c) then c_ss c else KSEL SEG_KDATA)\<rparr>"

lemma resume_regs: "fst (resume c s) = regs_of c"
proof -
  define m0 where "m0 = store (if from_user (c_cs c)
    then (if prot c \<noteq> 0 then s\<lparr>cpu_prot := prot c, cr3 := store s (prot c + 12)\<rparr> else s\<lparr>cpu_prot := prot c\<rparr>)
      \<lparr>tss_ss0 := ss0 c, tss_esp0 := esp0 c\<rparr> else s\<lparr>cpu_prot := prot c\<rparr>)"
  obtain sp m where p: "pushes (resume_words c) (esp0 c, m0) = (sp, m)" by fastforce
  have len: "length (resume_words c) = (if from_user (c_cs c) then 15 else 13)" by (simp add: resume_words_def)
  have f: "field m sp i = rev (resume_words c) ! i" if "i < length (resume_words c)" for i
    using pushes_field [of "resume_words c" i "esp0 c" m0] that len by (simp add: p)
  have sp: "sp = esp0 c - 4 * of_nat (length (resume_words c))"
    using pushes_sp [of "resume_words c" "esp0 c" m0] p by simp
  have "fst (resume c s) = restore sp m (KSEL SEG_KDATA)" using p by (simp add: resume_def Let_def m0_def)
  also have "\<dots> = regs_of c"
    using f len sp by (auto simp: restore_def regs_of_def resume_words_def Let_def numeral_eq_Suc)
  finally show ?thesis .
qed

section \<open>A trap is invisible\<close>

text \<open>Kernel code runs on the kernel's stack segment, and so does the stack for traps from user mode.\<close>

definition cpu_ok :: "regs \<Rightarrow> cpu \<Rightarrow> bool" where
  "cpu_ok r s \<longleftrightarrow> (if from_user (cs r) then tss_ss0 s = KSEL SEG_KDATA else ss r = KSEL SEG_KDATA)"

definition trap_words :: "regs \<Rightarrow> u32 \<Rightarrow> u32 \<Rightarrow> u32 \<Rightarrow> u32 list" where
  "trap_words r irq err sp =
     (if from_user (cs r) then [ss r, esp r] else []) @ frame r irq err sp"

definition trap_top :: "regs \<Rightarrow> cpu \<Rightarrow> u32" where
  "trap_top r s = (if from_user (cs r) then tss_esp0 s else esp r)"

lemma trap_pushes:
  "trap r irq err s =
     (let (tf, m) = pushes (trap_words r irq err (trap_top r s - (if from_user (cs r) then 36 else 28))) (trap_top r s, store s)
      in (tf, s\<lparr>store := m\<rparr>))"
  by (simp add: trap_def trap_words_def trap_top_def pushes_def push_def)

lemma trap_words_length: "length (trap_words r irq err sp) = (if from_user (cs r) then 17 else 15)"
  by (simp add: trap_words_def frame_def)

lemma trap_frame:
  assumes "trap r irq err s = (tf, s1)"
  defines "n \<equiv> (if from_user (cs r) then 17 else 15 :: nat)"
  shows "tf = trap_top r s - 4 * of_nat n"
    and "i < n \<Longrightarrow> field (store s1) tf i =
      rev (trap_words r irq err (trap_top r s - (if from_user (cs r) then 36 else 28))) ! i"
    and "s1 = s\<lparr>store := store s1\<rparr>"
    and "a \<notin> (\<lambda>k. trap_top r s - 4 * of_nat k) ` {1..n} \<Longrightarrow> store s1 a = store s a"
proof -
  define vs where "vs = trap_words r irq err (trap_top r s - (if from_user (cs r) then 36 else 28))"
  have len: "length vs = n" by (simp add: vs_def trap_words_length n_def)
  obtain m where p: "pushes vs (trap_top r s, store s) = (tf, m)" "s1 = s\<lparr>store := m\<rparr>"
    using assms(1) by (auto simp: trap_pushes vs_def Let_def split: prod.splits)
  show "tf = trap_top r s - 4 * of_nat n" using pushes_sp [of vs "trap_top r s" "store s"] p len by simp
  show "i < n \<Longrightarrow> field (store s1) tf i = rev (trap_words r irq err (trap_top r s - (if from_user (cs r) then 36 else 28))) ! i"
    using pushes_field [of vs i "trap_top r s" "store s"] p len by (simp add: vs_def [symmetric] n_def)
  show "s1 = s\<lparr>store := store s1\<rparr>" using p by simp
  show "a \<notin> (\<lambda>k. trap_top r s - 4 * of_nat k) ` {1..n} \<Longrightarrow> store s1 a = store s a"
    using pushes_other [of a "trap_top r s" vs "store s"] p len by simp
qed

lemma save_regs:
  assumes "trap r irq err s = (tf, s1)" "cpu_ok r s"
  shows "regs_of (save tf s1) = r" "prot (save tf s1) = cpu_prot s"
    "from_user (cs r) \<Longrightarrow> esp0 (save tf s1) = tss_esp0 s \<and> ss0 (save tf s1) = KSEL SEG_KDATA"
    "field (store s1) tf 10 = irq" "field (store s1) tf 11 = err" "field (store s1) tf 7 = eax r"
proof -
  note f = trap_frame(2) [OF assms(1)]
  have w: "field (store s1) tf 13 = cs r" "field (store s1) tf 0 = edi r" "field (store s1) tf 1 = esi r"
    "field (store s1) tf 2 = ebp r" "field (store s1) tf 4 = ebx r" "field (store s1) tf 5 = edx r"
    "field (store s1) tf 6 = ecx r" "field (store s1) tf 7 = eax r" "field (store s1) tf 8 = es r"
    "field (store s1) tf 9 = ds r" "field (store s1) tf 10 = irq" "field (store s1) tf 11 = err"
    "field (store s1) tf 12 = eip r" "field (store s1) tf 14 = eflags r"
    by (simp_all add: f trap_words_def frame_def)
  have u: "field (store s1) tf 15 = esp r" "field (store s1) tf 16 = ss r" if "from_user (cs r)"
    using that by (simp_all add: f trap_words_def frame_def)
  show "field (store s1) tf 10 = irq" "field (store s1) tf 11 = err" "field (store s1) tf 7 = eax r" by (fact w)+
  show "regs_of (save tf s1) = r"
    using w u assms(2) trap_frame(1) [OF assms(1)]
    by (cases "from_user (cs r)") (simp_all add: save_def regs_of_def trap_top_def cpu_ok_def)
  show "prot (save tf s1) = cpu_prot s"
    by (subst trap_frame(3) [OF assms(1)]) (simp add: save_def Let_def)
  show "from_user (cs r) \<Longrightarrow> esp0 (save tf s1) = tss_esp0 s \<and> ss0 (save tf s1) = KSEL SEG_KDATA"
    using w trap_frame(1) [OF assms(1)] by (simp add: save_def trap_top_def Let_def)
qed

lemma resume_cpu:
  "cpu_prot (snd (resume c s)) = prot c"
  "from_user (c_cs c) \<Longrightarrow> tss_esp0 (snd (resume c s)) = esp0 c \<and> tss_ss0 (snd (resume c s)) = ss0 c \<and>
    (prot c \<noteq> 0 \<longrightarrow> cr3 (snd (resume c s)) = store s (prot c + 12))"
  by (simp_all add: resume_def Let_def split: prod.splits)

definition acknowledged :: "u32 \<Rightarrow> cpu \<Rightarrow> cpu" where
  "acknowledged irq s = (if 32 \<le> irq \<and> irq < 64 then s\<lparr>eois := eois s + 1\<rparr> else s)"

text \<open>C36: whatever is interrupted, in kernel or user mode, the handler is given the event of the interrupt
  and a context that stands for exactly the interrupted registers and address space, while
  memory has changed only in the frame; and the processor goes on with exactly the registers of the
  context the handler returns, in its address space and, for a user context, with its kernel stack for the next trap.
  So a handler that returns the context it was given is invisible to the interrupted code.\<close>

theorem trap_transparent:
  assumes "cpu_ok r s" "trap r irq err s = (tf, s1)"
    "h (event_of irq err (eax r) cr2) (save tf s1) (acknowledged irq s1) = Some (c, s2)"
  shows "regs_of (save tf s1) = r \<and> prot (save tf s1) = cpu_prot s \<and>
    (from_user (cs r) \<longrightarrow> esp0 (save tf s1) = tss_esp0 s) \<and>
    (\<forall>a. a \<notin> (\<lambda>k. trap_top r s - 4 * of_nat k) ` {1..17} \<longrightarrow> store s1 a = store s a) \<and>
    (\<exists>s3. irq_handle (Some h) cr2 tf s1 = Some (regs_of c, s3) \<and> cpu_prot s3 = prot c \<and>
      (from_user (c_cs c) \<longrightarrow> tss_esp0 s3 = esp0 c \<and> (prot c \<noteq> 0 \<longrightarrow> cr3 s3 = store s2 (prot c + 12))))"
proof -
  have "irq_handle (Some h) cr2 tf s1 = Some (resume c s2)"
    using assms(3) save_regs(4-6) [OF assms(2,1)] by (simp add: irq_handle_def acknowledged_def)
  then have "\<exists>s3. irq_handle (Some h) cr2 tf s1 = Some (regs_of c, s3) \<and> cpu_prot s3 = prot c \<and>
      (from_user (c_cs c) \<longrightarrow> tss_esp0 s3 = esp0 c \<and> (prot c \<noteq> 0 \<longrightarrow> cr3 s3 = store s2 (prot c + 12)))"
    using resume_regs [of c s2] resume_cpu [of c s2] by (intro exI [of _ "snd (resume c s2)"]) (auto simp: prod_eq_iff)
  moreover have "store s1 a = store s a" if "a \<notin> (\<lambda>k. trap_top r s - 4 * of_nat k) ` {1..17}" for a
    using that by (intro trap_frame(4) [OF assms(2)]) auto
  ultimately show ?thesis using save_regs(1-3) [OF assms(2,1)] by blast
qed

definition demo_cpu :: cpu where
  "demo_cpu = \<lparr>store = (\<lambda>_. 0), cpu_prot = 0x5000, cr3 = 0x6000, tss_ss0 = KSEL SEG_KDATA, tss_esp0 = 0x9000, eois = 0\<rparr>"

definition demo_regs :: regs where
  "demo_regs = regs_of (ucontext 0x5000 0x80000000 0x9000 0x40000000 7)"

theorem trap_transparent_witness:
  "\<exists>tf s1 s3. trap demo_regs 0x80 0 demo_cpu = (tf, s1) \<and>
     irq_handle (Some (\<lambda>e c s. Some (c, s))) 0 tf s1 = Some (demo_regs, s3)"
proof -
  obtain tf s1 where t: "trap demo_regs 0x80 0 demo_cpu = (tf, s1)" by fastforce
  have "cpu_ok demo_regs demo_cpu" by (simp add: cpu_ok_def demo_cpu_def demo_regs_def regs_of_def ucontext_def from_user_def USEL_def SEG_UCODE_def DPL_USER_def)
  from trap_transparent [OF this t, where h = "\<lambda>e c s. Some (c, s)" and c = "save tf s1" and ?cr2.0 = 0, OF refl]
  show ?thesis using t by auto
qed

text \<open>A new kernel thread starts at its entry, with its argument above the return address.\<close>

lemma kcontext_starts:
  assumes "kcontext por stack_end entry arg m = (c, m1)"
  shows "eip (regs_of c) = entry" "esp (regs_of c) = stack_end - 8"
    "m1 (esp (regs_of c)) = por" "m1 (esp (regs_of c) + 4) = arg" "eflags (regs_of c) = FL_IF"
proof -
  have "\<not> from_user (KSEL SEG_KCODE)" by (simp add: from_user_def KSEL_def SEG_KCODE_def DPL_USER_def)
  then show "eip (regs_of c) = entry" "esp (regs_of c) = stack_end - 8"
    "m1 (esp (regs_of c)) = por" "m1 (esp (regs_of c) + 4) = arg" "eflags (regs_of c) = FL_IF"
    using assms by (auto simp: kcontext_def regs_of_def Let_def)
qed

text \<open>User programs may raise the system call, and nothing else.\<close>

lemma idt_user:
  assumes "cte_init 0 = Some idt" "i < 256"
  shows "snd (idt ! i) \<longleftrightarrow> i = 0x80"
proof -
  have "list_all (\<lambda>i. snd (the (cte_init 0) ! i) = (i = 0x80)) [0..<256]" by code_simp
  then show ?thesis using assms by (simp add: list_all_iff)
qed

end
