(* ===== verification/Bootloader.thy ===== *)
theory Bootloader
  imports Prelude "HOL-Library.Monad_Syntax" "HOL-Library.Signed_Division"
begin

unbundle bit_operations_syntax

text \<open>
  The boot loader, \<^verbatim>\<open>abstract-machine/am/src/x86/qemu/boot/main.c\<close>: it reads an ELF image from the disk,
  from its second sector on, and jumps to its entry.  Memory is a function from addresses to bytes.  The
  disk is a parameter: what it answers to the four address registers of the controller.  \<open>None\<close> is
  a loop that does not end.
\<close>

section \<open>Memory and sectors\<close>

type_synonym bytes = "u32 \<Rightarrow> u8"

definition SECTSIZE :: nat where
  "SECTSIZE = 512"

text \<open>\<open>n\<close> bytes from \<open>a\<close> on, and writing them.\<close>

definition area :: "u32 \<Rightarrow> nat \<Rightarrow> u32 \<Rightarrow> bool" where
  "area a n x \<longleftrightarrow> unat (x - a) < n"

definition fill :: "u32 \<Rightarrow> nat \<Rightarrow> (nat \<Rightarrow> u8) \<Rightarrow> bytes \<Rightarrow> bytes" where
  "fill a n f m = (\<lambda>x. if area a n x then f (unat (x - a)) else m x)"

definition long :: "bytes \<Rightarrow> u32 \<Rightarrow> u32" where
  "long m a = ucast (m a) OR push_bit 8 (ucast (m (a + 1))) OR push_bit 16 (ucast (m (a + 2))) OR push_bit 24 (ucast (m (a + 3)))"

definition short :: "bytes \<Rightarrow> u32 \<Rightarrow> u16" where
  "short m a = ucast (m a) OR push_bit 8 (ucast (m (a + 1)))"

type_synonym disk = "u32 \<Rightarrow> nat \<Rightarrow> u8"

definition lba :: "int \<Rightarrow> u32" where
  "lba offset = word_of_int offset OR 0xE0000000"

definition readsect :: "disk \<Rightarrow> u32 \<Rightarrow> int \<Rightarrow> bytes \<Rightarrow> bytes" where
  "readsect d dst offset m = fill dst SECTSIZE (d (lba offset)) m"

partial_function (option) readsects :: "disk \<Rightarrow> u32 \<Rightarrow> u32 \<Rightarrow> int \<Rightarrow> bytes \<Rightarrow> bytes option" where
  "readsects d pa epa offset m =
     (if pa < epa then readsects d (pa + of_nat SECTSIZE) epa (offset + 1) (readsect d pa offset m) else Some m)"

definition readseg :: "disk \<Rightarrow> u32 \<Rightarrow> int \<Rightarrow> int \<Rightarrow> bytes \<Rightarrow> bytes option" where
  "readseg d pa count offset m =
     readsects d (pa - word_of_int (offset smod int SECTSIZE)) (pa + word_of_int count)
       (offset sdiv int SECTSIZE + 1) m"

section \<open>Loading\<close>

text \<open>The fields of a program header are read whenever they are needed.\<close>

partial_function (option) clear :: "u32 \<Rightarrow> u32 \<Rightarrow> u32 \<Rightarrow> bytes \<Rightarrow> bytes option" where
  "clear ph pa i m = (if i < pa + long m (ph + 20) then clear ph pa (i + 1) (m(i := 0)) else Some m)"

definition load_segment :: "disk \<Rightarrow> u32 \<Rightarrow> bytes \<Rightarrow> bytes option" where
  "load_segment d ph m = do {
     let off = long m (ph + 4);
     let pa = long m (ph + 12);
     let filesz = long m (ph + 16);
     m1 \<leftarrow> readseg d pa (sint filesz) (sint off) m;
     clear ph pa (pa + long m1 (ph + 16)) m1}"

fun load_segments :: "disk \<Rightarrow> nat \<Rightarrow> u32 \<Rightarrow> bytes \<Rightarrow> bytes option" where
  "load_segments d 0 ph m = Some m"
| "load_segments d (Suc n) ph m = do {m1 \<leftarrow> load_segment d ph m; load_segments d n (ph + 32) m1}"

definition ELF :: u32 where
  "ELF = 0x8000"

text \<open>The address that is jumped to, and memory then.\<close>

definition bootmain :: "disk \<Rightarrow> bytes \<Rightarrow> (u32 \<times> bytes) option" where
  "bootmain d m =
     (if long m 0x7000 = 1 then Some (long m 0x7004, m)
      else do {
        m1 \<leftarrow> readseg d ELF 4096 0 m;
        let ph = ELF + long m1 (ELF + 28);
        let eph = ph + 32 * ucast (short m1 (ELF + 44));
        m2 \<leftarrow> load_segments d ((unat eph - unat ph) div 32) ph m1;
        Some (long m2 (ELF + 24), m2)})"

section \<open>A run of sectors\<close>

text \<open>Byte \<open>x\<close> of the image, which starts at the second sector.\<close>

definition image_byte :: "disk \<Rightarrow> nat \<Rightarrow> u8" where
  "image_byte d x = d (lba (int (x div SECTSIZE) + 1)) (x mod SECTSIZE)"

lemma unat_minus_512: "unat (x - 512) = (if 512 \<le> unat x then unat x - 512 else unat x + 2 ^ 32 - 512)" for x :: u32
  by (simp add: unat_sub_if_size word_size)

lemma readsects_run:
  assumes "unat pa + 512 * n < 2 ^ 32" "unat epa \<le> unat pa + 512 * n" "n = 0 \<or> unat pa + 512 * (n - 1) < unat epa"
  shows "readsects d pa epa (int s) m =
    Some (fill pa (512 * n) (\<lambda>i. d (lba (int (s + i div 512))) (i mod 512)) m)"
  using assms
proof (induction n arbitrary: pa s m)
  case 0
  then have "\<not> pa < epa" by (simp add: word_less_nat_alt)
  then show ?case by (subst readsects.simps) (simp add: fill_def area_def)
next
  case (Suc n)
  have lt: "pa < epa" using Suc.prems(3) by (simp add: word_less_nat_alt)
  have u: "unat (pa + 512) = unat pa + 512" using Suc.prems(1) by (simp add: unat_word_ariths)
  have "readsects d (pa + 512) epa (int (Suc s)) (readsect d pa (int s) m) =
      Some (fill (pa + 512) (512 * n) (\<lambda>i. d (lba (int (Suc s + i div 512))) (i mod 512)) (readsect d pa (int s) m))"
    using Suc.prems u by (intro Suc.IH) auto
  moreover have "fill (pa + 512) (512 * n) (\<lambda>i. d (lba (int (Suc s + i div 512))) (i mod 512)) (readsect d pa (int s) m) a =
      fill pa (512 * Suc n) (\<lambda>i. d (lba (int (s + i div 512))) (i mod 512)) m a" for a
  proof -
    define k where "k = unat (a - pa)"
    have k: "k < 2 ^ 32" using unsigned_less [of "a - pa"] by (simp add: k_def)
    have "a - (pa + 512) = (a - pa) - 512" by simp
    then have s: "unat (a - (pa + 512)) = (if 512 \<le> k then k - 512 else k + 2 ^ 32 - 512)"
      unfolding k_def by (simp only: unat_minus_512)
    show ?thesis
    proof (cases "512 \<le> k")
      case True
      then obtain j where "k = j + 512" using le_Suc_ex by (metis add.commute)
      moreover have "(j + 512) div 512 = Suc (j div 512)" by simp
      ultimately show ?thesis using s
        by (auto simp: fill_def area_def readsect_def SECTSIZE_def k_def [symmetric] add.left_commute simp del: div_add_self2)
    next
      case False
      then show ?thesis using s Suc.prems(1)
        by (auto simp: fill_def area_def readsect_def SECTSIZE_def k_def [symmetric])
    qed
  qed
  ultimately show ?case using lt
    by (subst readsects.simps) (simp add: SECTSIZE_def fun_eq_iff add.commute)
qed

section \<open>A segment\<close>

text \<open>What a read of \<open>n\<close> bytes at \<open>off\<close> writes: whole sectors, from before the address to after the end.\<close>

definition sectors :: "nat \<Rightarrow> nat \<Rightarrow> nat" where
  "sectors off n = (off mod 512 + n + 511) div 512"

definition written :: "u32 \<Rightarrow> nat \<Rightarrow> nat \<Rightarrow> u32 \<Rightarrow> bool" where
  "written pa off n x \<longleftrightarrow> area (pa - of_nat (off mod 512)) (512 * sectors off n) x"

text \<open>The sectors lie below the end of the address space and the offset is a positive \<open>int\<close>.\<close>

definition fits :: "u32 \<Rightarrow> nat \<Rightarrow> nat \<Rightarrow> bool" where
  "fits pa off n \<longleftrightarrow> off < 2 ^ 31 \<and> n < 2 ^ 31 \<and> off mod 512 \<le> unat pa \<and> unat pa + n + 512 < 2 ^ 32"

lemma readseg_image:
  assumes "fits pa off n"
  shows "\<exists>m'. readseg d pa (int n) (int off) m = Some m' \<and>
    (\<forall>k<n. m' (pa + of_nat k) = image_byte d (off + k)) \<and>
    (\<forall>x. \<not> written pa off n x \<longrightarrow> m' x = m x)"
proof -
  define r where "r = off mod 512"
  define k where "k = sectors off n"
  define p where "p = pa - of_nat r"
  have f: "off < 2 ^ 31" "n < 2 ^ 31" "r \<le> unat pa" "unat pa + n + 512 < 2 ^ 32" "r < 512"
    using assms by (auto simp: fits_def r_def)
  have up: "unat p = unat pa - r"
    using f by (simp add: p_def unat_sub_if_size word_size unat_of_nat)
  have ue: "unat (pa + word_of_int (int n)) = unat pa + n"
    using f by (simp add: unat_word_ariths unat_of_nat)
  have k: "r + n \<le> 512 * k" "512 * k < r + n + 512" "k = 0 \<or> 512 * (k - 1) < r + n"
    using f(5) by (auto simp: k_def sectors_def r_def [symmetric])
  have "readsects d p (pa + word_of_int (int n)) (int (off div 512 + 1)) m =
      Some (fill p (512 * k) (\<lambda>i. d (lba (int (off div 512 + 1 + i div 512))) (i mod 512)) m)"
    using k f up ue by (intro readsects_run) auto
  moreover have "int off smod 512 = int r" "int off sdiv 512 = int (off div 512)"
    by (cases "off = 0"; simp add: signed_modulo_int_def signed_divide_int_def r_def zdiv_int zmod_int)+
  ultimately have "readseg d pa (int n) (int off) m =
      Some (fill p (512 * k) (\<lambda>i. d (lba (int (off div 512 + 1 + i div 512))) (i mod 512)) m)"
    by (simp add: readseg_def SECTSIZE_def p_def add.commute)
  moreover have "fill p (512 * k) (\<lambda>i. d (lba (int (off div 512 + 1 + i div 512))) (i mod 512)) m (pa + of_nat j) =
      image_byte d (off + j)" if "j < n" for j
  proof -
    have "unat (pa + of_nat j - p) = r + j"
      using f that by (simp add: p_def unat_word_ariths unat_of_nat)
    moreover have "r + j < 512 * k" using k that by simp
    moreover have "off + j = 512 * (off div 512) + (r + j)" by (simp add: r_def)
    then have "(off + j) div 512 = off div 512 + (r + j) div 512" "(off + j) mod 512 = (r + j) mod 512"
      by (metis add.commute div_mult_self4 zero_neq_numeral, metis mod_mult_self4)
    ultimately show ?thesis by (simp add: fill_def area_def image_byte_def SECTSIZE_def algebra_simps)
  qed
  moreover have "fill p (512 * k) f m x = m x" if "\<not> written pa off n x" for f x
    using that by (simp add: fill_def written_def p_def k_def r_def)
  ultimately show ?thesis by blast
qed

section \<open>All segments\<close>

text \<open>A program header: offset, address, size in the file and in memory.\<close>

record seg =
  off :: nat
  pa :: u32
  filesz :: nat
  memsz :: nat

definition header :: "bytes \<Rightarrow> u32 \<Rightarrow> seg" where
  "header m ph = \<lparr>off = unat (long m (ph + 4)), pa = long m (ph + 12),
     filesz = unat (long m (ph + 16)), memsz = unat (long m (ph + 20))\<rparr>"

definition seg_ok :: "seg \<Rightarrow> bool" where
  "seg_ok g \<longleftrightarrow> fits (pa g) (off g) (filesz g) \<and> filesz g \<le> memsz g \<and> unat (pa g) + memsz g < 2 ^ 32"

text \<open>The addresses loading a segment may change.\<close>

definition lo :: "seg \<Rightarrow> nat" where
  "lo g = unat (pa g) - off g mod 512"

definition hi :: "seg \<Rightarrow> nat" where
  "hi g = max (lo g + 512 * sectors (off g) (filesz g)) (unat (pa g) + memsz g)"

definition touches :: "seg \<Rightarrow> u32 \<Rightarrow> bool" where
  "touches g x \<longleftrightarrow> lo g \<le> unat x \<and> unat x < hi g"

definition loaded :: "disk \<Rightarrow> seg \<Rightarrow> bytes \<Rightarrow> bool" where
  "loaded d g m \<longleftrightarrow> (\<forall>k<filesz g. m (pa g + of_nat k) = image_byte d (off g + k)) \<and>
     (\<forall>k. filesz g \<le> k \<and> k < memsz g \<longrightarrow> m (pa g + of_nat k) = 0)"

lemma area_unat: "unat a + n < 2 ^ 32 \<Longrightarrow> area a n x \<longleftrightarrow> unat a \<le> unat x \<and> unat x < unat a + n"
  using unsigned_less [of x] by (auto simp: area_def unat_sub_if_size word_size)

lemma written_touches:
  assumes "seg_ok g" "written (pa g) (off g) (filesz g) x"
  shows "touches g x"
proof -
  define r where "r = off g mod 512"
  have f: "r \<le> unat (pa g)" "r < 512" "unat (pa g) + filesz g + 512 < 2 ^ 32"
    using assms(1) by (auto simp: seg_ok_def fits_def r_def)
  have u: "unat (pa g - of_nat r) = lo g"
    using f by (simp add: lo_def r_def [symmetric] unat_sub_if_size word_size unat_of_nat)
  have "512 * sectors (off g) (filesz g) < r + filesz g + 512" by (simp add: sectors_def r_def)
  then have "unat (pa g - of_nat r) + 512 * sectors (off g) (filesz g) < 2 ^ 32"
    using f u by (simp add: lo_def r_def [symmetric])
  from area_unat [OF this] show ?thesis
    using assms(2) u by (simp add: written_def touches_def hi_def r_def [symmetric] less_max_iff_disj)
qed

lemma long_cong:
  assumes "\<And>x. area a 4 x \<Longrightarrow> m x = m' x"
  shows "long m a = long m' a"
  using assms [of a] assms [of "a + 1"] assms [of "a + 2"] assms [of "a + 3"] by (simp add: long_def area_def)

lemma area_sub:
  assumes "area (a + of_nat i) n x" "i + n \<le> k" "k < 2 ^ 32"
  shows "area a k x"
proof -
  have "x - a = (x - (a + of_nat i)) + of_nat i" by simp
  moreover have "unat (x - (a + of_nat i)) + i < 2 ^ 32" using assms by (simp add: area_def)
  ultimately have "unat (x - a) = unat (x - (a + of_nat i)) + i"
    by (simp only: unat_word_ariths) (simp add: unat_of_nat)
  then show ?thesis using assms by (simp add: area_def)
qed

lemma long_same:
  assumes "\<And>x. area a k x \<Longrightarrow> m x = m' x" "i + 4 \<le> k" "k < 2 ^ 32"
  shows "long m (a + of_nat i) = long m' (a + of_nat i)"
proof (rule long_cong)
  fix x assume "area (a + of_nat i) 4 x"
  then have "area a k x" using assms(2,3) by (rule area_sub)
  then show "m x = m' x" by (rule assms(1))
qed

lemma header_same:
  assumes "\<And>x. area ph 32 x \<Longrightarrow> m x = m' x"
  shows "header m ph = header m' ph"
  using long_same [of ph 32 m m' 4] long_same [of ph 32 m m' 12] long_same [of ph 32 m m' 16] long_same [of ph 32 m m' 20] assms
  by (simp add: header_def)

lemma sint_nat: "unat w < 2 ^ 31 \<Longrightarrow> sint w = int (unat w)" for w :: u32
proof -
  assume "unat w < 2 ^ 31"
  then have "int (unat w) < int (2 ^ 31)" unfolding of_nat_less_iff .
  then have "uint w < 2 ^ 31" by simp
  then have "signed_take_bit 31 (uint w) = uint w"
    by (intro signed_take_bit_int_eq_self order_trans [OF _ uint_ge_0]) simp_all
  then show ?thesis by (simp add: sint_uint)
qed

text \<open>The loop that clears the rest of a segment, when it does not meet the header.\<close>

lemma clear_fill:
  assumes "unat i + n = unat p + unat (long m (ph + 20))" "unat p + unat (long m (ph + 20)) < 2 ^ 32"
    "\<And>x. area ph 32 x \<Longrightarrow> unat i \<le> unat x \<Longrightarrow> unat p + unat (long m (ph + 20)) \<le> unat x"
  shows "clear ph p i m = Some (fill i n (\<lambda>_. 0) m)"
  using assms
proof (induction n arbitrary: i m)
  case 0
  then have "\<not> i < p + long m (ph + 20)" by (simp add: word_less_nat_alt unat_word_ariths)
  then show ?case by (subst clear.simps) (simp add: fill_def area_def)
next
  case (Suc n)
  have u: "unat (i + 1) = unat i + 1" using Suc.prems by (simp add: unat_word_ariths)
  have lt: "i < p + long m (ph + 20)" using Suc.prems by (simp add: word_less_nat_alt unat_word_ariths)
  have "\<not> area ph 32 i" using Suc.prems(1) Suc.prems(3) [of i] by auto
  then have same: "long (m(i := 0)) (ph + of_nat 20) = long m (ph + of_nat 20)"
    by (intro long_same [of _ 32]) auto
  define m1 where "m1 = m(i := 0)"
  have "clear ph p (i + 1) m1 = Some (fill (i + 1) n (\<lambda>_. 0) m1)"
    using Suc.prems u same unfolding m1_def [symmetric] by (intro Suc.IH) auto
  moreover have "fill (i + 1) n (\<lambda>_. 0) (m(i := 0)) x = fill i (Suc n) (\<lambda>_. 0) m x" for x
    using area_unat [of "i + 1" n x] area_unat [of i "Suc n" x] Suc.prems(1,2) u
    by (auto simp: fill_def word_unat_eq_iff)
  ultimately show ?case using lt unfolding m1_def by (subst clear.simps) (simp add: fun_eq_iff)
qed

lemma load_segment_loads:
  assumes "seg_ok (header m ph)" "\<And>x. area ph 32 x \<Longrightarrow> \<not> touches (header m ph) x"
  shows "\<exists>m'. load_segment d ph m = Some m' \<and> loaded d (header m ph) m' \<and>
    (\<forall>x. \<not> touches (header m ph) x \<longrightarrow> m' x = m x)"
proof -
  define g where "g = header m ph"
  have h: "long m (ph + 12) = pa g" "unat (long m (ph + 4)) = off g" "unat (long m (ph + 16)) = filesz g"
    "unat (long m (ph + 20)) = memsz g"
    by (simp_all add: g_def header_def)
  have ok: "fits (pa g) (off g) (filesz g)" "filesz g \<le> memsz g" "unat (pa g) + memsz g < 2 ^ 32"
    using assms(1) by (auto simp: seg_ok_def g_def)
  note s = sint_nat
  obtain m1 where m1: "readseg d (pa g) (int (filesz g)) (int (off g)) m = Some m1"
    "\<forall>k<filesz g. m1 (pa g + of_nat k) = image_byte d (off g + k)"
    "\<forall>x. \<not> written (pa g) (off g) (filesz g) x \<longrightarrow> m1 x = m x"
    using readseg_image [OF ok(1)] by blast
  have w: "m1 x = m x" if "\<not> touches g x" for x
    using that m1(3) written_touches [of g x] assms(1) by (auto simp: g_def)
  have "header m1 ph = header m ph" using w assms(2) by (intro header_same) (auto simp: g_def)
  then have h1: "unat (long m1 (ph + 16)) = filesz g" "unat (long m1 (ph + 20)) = memsz g"
    by (simp_all add: g_def header_def)
  define i where "i = pa g + long m1 (ph + 16)"
  have i: "unat i = unat (pa g) + filesz g" "unat (pa g + long m1 (ph + 20)) = unat (pa g) + memsz g"
    using ok h1 by (simp_all add: i_def unat_word_ariths)
  define m2 where "m2 = fill i (memsz g - filesz g) (\<lambda>_. 0) m1"
  have a: "area i (memsz g - filesz g) x \<longleftrightarrow> unat (pa g) + filesz g \<le> unat x \<and> unat x < unat (pa g) + memsz g" for x
    using area_unat [of i "memsz g - filesz g" x] i ok by simp
  have "clear ph (pa g) i m1 = Some m2"
    unfolding m2_def
  proof (rule clear_fill)
    fix x assume "area ph 32 x" "unat i \<le> unat x"
    then show "unat (pa g) + unat (long m1 (ph + 20)) \<le> unat x"
      using assms(2) [of x] h1 i unfolding g_def [symmetric] by (auto simp: touches_def hi_def lo_def)
  qed (use ok h1 i in simp_all)
  then have "load_segment d ph m = Some m2"
    using m1(1) h s [of "long m (ph + 4)"] s [of "long m (ph + 16)"] ok(1)
    by (simp add: load_segment_def Let_def fits_def i_def)
  moreover have u: "unat (pa g + of_nat k) = unat (pa g) + k" if "k < memsz g" for k
    using that ok by (simp add: unat_word_ariths unat_of_nat)
  have "loaded d g m2"
    unfolding loaded_def m2_def fill_def using m1(2) a u ok(2) by auto
  moreover have "m2 x = m x" if "\<not> touches g x" for x
    using that w a by (auto simp: m2_def fill_def touches_def hi_def lo_def)
  ultimately show ?thesis unfolding g_def [symmetric] by blast
qed

text \<open>Headers in a row; nothing is loaded over them, nor over an earlier segment.\<close>

definition headers :: "bytes \<Rightarrow> u32 \<Rightarrow> nat \<Rightarrow> seg list" where
  "headers m ph n = map (\<lambda>i. header m (ph + 32 * of_nat i)) [0..<n]"

fun apart :: "nat \<Rightarrow> nat \<Rightarrow> seg list \<Rightarrow> bool" where
  "apart a b [] \<longleftrightarrow> True"
| "apart a b (g # gs) \<longleftrightarrow> seg_ok g \<and> (hi g \<le> a \<or> b \<le> lo g) \<and>
     (\<forall>h\<in>set gs. hi h \<le> unat (pa g) \<or> unat (pa g) + memsz g \<le> lo h) \<and> apart a b gs"

lemma headers_Suc: "headers m ph (Suc n) = header m ph # headers m (ph + 32) n"
proof -
  have "map (\<lambda>i. header m (ph + 32 * of_nat i)) (map Suc [0..<n]) = map (\<lambda>i. header m (ph + 32 + 32 * of_nat i)) [0..<n]"
    by (simp add: algebra_simps)
  then show ?thesis by (simp add: headers_def upt_conv_Cons map_Suc_upt [symmetric] del: upt_Suc map_map)
qed

lemma headers_same:
  assumes "\<And>x. a \<le> unat x \<Longrightarrow> unat x < b \<Longrightarrow> m x = m' x" "a \<le> unat ph" "unat ph + 32 * n \<le> b" "b < 2 ^ 32"
  shows "headers m ph n = headers m' ph n"
  unfolding headers_def
proof (intro map_cong refl header_same)
  fix i x assume i: "i \<in> set [0..<n]" and x: "area (ph + 32 * of_nat i) 32 x"
  then have "unat ph + 32 * i + 32 \<le> b" using assms(3) by auto
  then have "unat (ph + 32 * of_nat i) = unat ph + 32 * i"
    using assms(4) by (simp add: unat_word_ariths unat_of_nat)
  then show "m x = m' x"
    using x area_unat [of "ph + 32 * of_nat i" 32 x] \<open>unat ph + 32 * i + 32 \<le> b\<close> assms by (intro assms(1)) auto
qed

lemma loaded_same:
  assumes "loaded d g m" "seg_ok g" "\<And>x. unat (pa g) \<le> unat x \<Longrightarrow> unat x < unat (pa g) + memsz g \<Longrightarrow> m' x = m x"
  shows "loaded d g m'"
proof -
  have u: "unat (pa g + of_nat k) = unat (pa g) + k" if "k < memsz g" for k
    using that assms(2) by (simp add: seg_ok_def unat_word_ariths unat_of_nat)
  have "filesz g \<le> memsz g" using assms(2) by (simp add: seg_ok_def)
  then show ?thesis using assms(1) u unfolding loaded_def by (auto simp: assms(3))
qed

lemma load_segments_loads:
  assumes "apart a b (headers m ph n)" "a \<le> unat ph" "unat ph + 32 * n \<le> b" "b < 2 ^ 32"
  shows "\<exists>m'. load_segments d n ph m = Some m' \<and> (\<forall>g\<in>set (headers m ph n). loaded d g m') \<and>
    (\<forall>x. (\<forall>g\<in>set (headers m ph n). \<not> touches g x) \<longrightarrow> m' x = m x)"
  using assms
proof (induction n arbitrary: ph m)
  case 0
  then show ?case by (simp add: headers_def)
next
  case (Suc n)
  define g where "g = header m ph"
  have hd: "headers m ph (Suc n) = g # headers m (ph + 32) n" by (simp add: headers_Suc g_def)
  have u: "unat (ph + 32) = unat ph + 32" using Suc.prems by (simp add: unat_word_ariths)
  have g: "seg_ok g" "hi g \<le> a \<or> b \<le> lo g" using Suc.prems(1) by (simp_all add: hd)
  have free: "\<not> touches g x" if "a \<le> unat x" "unat x < b" for x using that g(2) by (auto simp: touches_def)
  have "\<not> touches g x" if "area ph 32 x" for x
    using that area_unat [of ph 32 x] Suc.prems free by auto
  then obtain m1 where m1: "load_segment d ph m = Some m1" "loaded d g m1" "\<And>x. \<not> touches g x \<Longrightarrow> m1 x = m x"
    using load_segment_loads [of m ph d] g(1) unfolding g_def [symmetric] by blast
  have same: "headers m1 (ph + 32) n = headers m (ph + 32) n"
    using Suc.prems u m1(3) free by (intro headers_same [of a b]) auto
  have ap: "apart a b (headers m1 (ph + 32) n)" using Suc.prems(1) by (simp add: hd same)
  obtain m2 where m2: "load_segments d n (ph + 32) m1 = Some m2"
    "\<forall>g\<in>set (headers m (ph + 32) n). loaded d g m2"
    "\<And>x. (\<forall>g\<in>set (headers m (ph + 32) n). \<not> touches g x) \<Longrightarrow> m2 x = m1 x"
    using Suc.IH [OF ap] Suc.prems u unfolding same by auto
  have "loaded d g m2"
  proof (rule loaded_same [OF m1(2) g(1)])
    fix x :: u32 assume x: "unat (pa g) \<le> unat x" "unat x < unat (pa g) + memsz g"
    have "\<not> touches h x" if "h \<in> set (headers m (ph + 32) n)" for h
      using Suc.prems(1) that x by (auto simp: hd touches_def)
    then show "m2 x = m1 x" by (intro m2(3)) blast
  qed
  moreover have "m2 x = m x" if "\<forall>g\<in>set (headers m ph (Suc n)). \<not> touches g x" for x
    using that m2(3) [of x] m1(3) [of x] by (simp add: hd)
  ultimately show ?case using m1(1) m2(1,2) by (simp add: hd)
qed

section \<open>Booting\<close>

lemma read_elf: "readseg d ELF 4096 0 m = Some (fill ELF 4096 (image_byte d) m)"
proof -
  have e: "image_byte d = (\<lambda>i. d (lba (int (1 + i div 512))) (i mod 512))"
    by (simp add: image_byte_def SECTSIZE_def fun_eq_iff add.commute)
  have "readsects d ELF (ELF + 4096) (int 1) m = Some (fill ELF (512 * 8) (\<lambda>i. d (lba (int (1 + i div 512))) (i mod 512)) m)"
    by (rule readsects_run) (simp_all add: ELF_def)
  then show ?thesis by (simp add: readseg_def e signed_modulo_int_def signed_divide_int_def)
qed

definition phdr :: "bytes \<Rightarrow> u32" where
  "phdr m = ELF + long m (ELF + 28)"

definition phnum :: "bytes \<Rightarrow> nat" where
  "phnum m = unat (short m (ELF + 44))"

text \<open>C37: on the first processor, when the segments of the image neither overlap one another, counting the
  whole sectors that are read, nor the ELF header and the program headers behind it, the loader ends,
  every segment lies at its address, followed by zeros up to its size in memory, and it jumps to
  the entry of the image.\<close>

theorem bootmain_loads:
  assumes "long m 0x7000 \<noteq> 1" "m1 = fill ELF 4096 (image_byte d) m"
    "unat ELF \<le> unat (phdr m1)" "unat (phdr m1) + 32 * phnum m1 \<le> b" "unat ELF + 52 \<le> b" "b < 2 ^ 32"
    "apart (unat ELF) b (headers m1 (phdr m1) (phnum m1))"
  shows "\<exists>m2. bootmain d m = Some (long m1 (ELF + 24), m2) \<and>
    (\<forall>g\<in>set (headers m1 (phdr m1) (phnum m1)). loaded d g m2)"
proof -
  obtain m2 where m2: "load_segments d (phnum m1) (phdr m1) m1 = Some m2"
    "\<forall>g\<in>set (headers m1 (phdr m1) (phnum m1)). loaded d g m2"
    "\<And>x. (\<forall>g\<in>set (headers m1 (phdr m1) (phnum m1)). \<not> touches g x) \<Longrightarrow> m2 x = m1 x"
    using load_segments_loads [OF assms(7,3,4,6), of d] by blast
  have "unat (phdr m1) + 32 * phnum m1 < 2 ^ 32" using assms(4,6) by simp
  moreover have "take_bit 32 (unat (short m1 (ELF + 44))) = unat (short m1 (ELF + 44))"
    using unsigned_less [of "short m1 (ELF + 44)", where ?'a = nat] by (intro take_bit_nat_eq_self) simp
  ultimately have "unat (phdr m1 + 32 * ucast (short m1 (ELF + 44))) = unat (phdr m1) + 32 * phnum m1"
    by (simp add: unat_word_ariths phnum_def unsigned_ucast_eq)
  then have n: "(unat (phdr m1 + 32 * ucast (short m1 (ELF + 44))) - unat (phdr m1)) div 32 = phnum m1" by simp
  have out: "hi g \<le> unat ELF \<or> b \<le> lo g" if "g \<in> set gs" "apart (unat ELF) b gs" for g gs
    using that by (induction gs) auto
  have "long m2 (ELF + of_nat 24) = long m1 (ELF + of_nat 24)"
  proof (rule long_same [of _ 28])
    fix x assume "area ELF 28 x"
    then have "unat ELF \<le> unat x" "unat x < b"
      using area_unat [of ELF 28 x] assms(5) by (auto simp: ELF_def)
    then have "\<not> touches g x" if "g \<in> set (headers m1 (phdr m1) (phnum m1))" for g
      using out [OF that assms(7)] by (auto simp: touches_def)
    then show "m2 x = m1 x" by (intro m2(3)) blast
  qed simp_all
  then have "bootmain d m = Some (long m1 (ELF + 24), m2)"
    using assms(1) m2(1) n by (simp add: bootmain_def read_elf assms(2) [symmetric] Let_def phdr_def [symmetric])
  then show ?thesis using m2(2) by blast
qed

text \<open>An image with one segment: 4 bytes at offset 4096 of the file, of 8 in memory.\<close>

definition demo_file :: "nat \<Rightarrow> u8" where
  "demo_file x =
     (if x = 25 then 0x10 else if x = 26 then 0x10 else if x = 28 then 52 else if x = 44 then 1
      else if x = 57 then 0x10 else if x = 66 then 0x10 else if x = 68 then 4 else if x = 72 then 8
      else if 4096 \<le> x \<and> x < 4100 then 7 else 0)"

definition demo_disk :: disk where
  "demo_disk r i = demo_file (512 * (unat (r AND 0x0fffffff) - 1) + i)"

theorem bootmain_loads_witness:
  "\<exists>m2. bootmain demo_disk (\<lambda>_. 0) = Some (0x101000, m2) \<and> m2 0x100003 = 7 \<and> m2 0x100004 = 0"
proof -
  define m1 where "m1 = fill ELF 4096 (image_byte demo_disk) (\<lambda>_. 0)"
  have b: "m1 (ELF + of_nat i) = demo_file i" if "i < 100" for i
  proof -
    have "i div 512 = 0" using that by simp
    then have "image_byte demo_disk i = demo_file i" using that by (simp add: image_byte_def demo_disk_def lba_def SECTSIZE_def)
    then show ?thesis using that by (simp add: m1_def fill_def area_def unat_of_nat)
  qed
  have l: "long m1 (ELF + 28) = 52" "long m1 (ELF + 24) = 0x101000" "short m1 (ELF + 44) = 1"
    using b [of 24] b [of 25] b [of 26] b [of 27] b [of 28] b [of 29] b [of 30] b [of 31] b [of 44] b [of 45]
    by (simp_all add: long_def short_def demo_file_def ELF_def)
  have p: "phdr m1 = 0x8034" "phnum m1 = 1" using l by (simp_all add: phdr_def phnum_def ELF_def)
  have h: "headers m1 (phdr m1) (phnum m1) = [\<lparr>off = 4096, pa = 0x100000, filesz = 4, memsz = 8\<rparr>]"
    using b [of 56] b [of 57] b [of 58] b [of 59] b [of 64] b [of 65] b [of 66] b [of 67] b [of 68] b [of 69]
      b [of 70] b [of 71] b [of 72] b [of 73] b [of 74] b [of 75] p
    by (simp add: headers_def header_def long_def demo_file_def ELF_def)
  have "apart (unat ELF) 0x9000 (headers m1 (phdr m1) (phnum m1))"
    by (simp add: h seg_ok_def fits_def lo_def hi_def ELF_def)
  then obtain m2 where m2: "bootmain demo_disk (\<lambda>_. 0) = Some (long m1 (ELF + 24), m2)"
    "\<forall>g\<in>set (headers m1 (phdr m1) (phnum m1)). loaded demo_disk g m2"
    using bootmain_loads [of "\<lambda>_. 0" m1 demo_disk "0x9000"] p by (auto simp: m1_def long_def ELF_def)
  have "loaded demo_disk \<lparr>off = 4096, pa = 0x100000, filesz = 4, memsz = 8\<rparr> m2" using m2(2) h by simp
  then have "m2 (0x100000 + of_nat 3) = image_byte demo_disk 4099" "m2 (0x100000 + of_nat 4) = 0"
    unfolding loaded_def by (simp_all only: seg.select_convs) auto
  moreover have "image_byte demo_disk 4099 = 7"
    by (simp add: image_byte_def demo_disk_def lba_def SECTSIZE_def demo_file_def)
  ultimately show ?thesis using m2(1) l by simp
qed

end
