(* ===== verification/Devices.thy ===== *)
theory Devices
  imports Prelude "HOL-Library.Monad_Syntax"
begin

unbundle bit_operations_syntax

text \<open>
  The devices of the abstract machine on x86 (\<^verbatim>\<open>abstract-machine/am/src/x86/qemu/devices\<close>: keyboard, timer, video
  and PCI configuration), their dispatch in \<^verbatim>\<open>ioe.c\<close> and the helpers on top, \<^verbatim>\<open>libs/klib/src/io.c\<close>.  The
  ports are arguments or lists of accesses; the frame buffer is a function from the number of a
  pixel to its colour.  \<open>None\<close> is a division by zero or a loop that does not end.
\<close>

section \<open>Keyboard\<close>

definition scan_code :: "nat list" where
  "scan_code =
     [0, 1, 59, 60, 61, 62, 63, 64, 65, 66, 67, 68, 87, 88,
      41, 2, 3, 4, 5, 6, 7, 8, 9, 10, 11, 12, 13, 14,
      15, 16, 17, 18, 19, 20, 21, 22, 23, 24, 25, 26, 27, 43,
      58, 30, 31, 32, 33, 34, 35, 36, 37, 38, 39, 40, 28,
      42, 44, 45, 46, 47, 48, 49, 50, 51, 52, 53, 54,
      29, 91, 56, 57, 56, 29,
      72, 80, 75, 77, 0, 0, 0, 0, 0, 0]"

text \<open>Key pressed or not, and the number of the key, by the first entry that fits.\<close>

fun decode :: "nat \<Rightarrow> nat list \<Rightarrow> nat \<Rightarrow> bool \<times> nat" where
  "decode i [] code = (False, 0)"
| "decode i (s # ss) code =
     (if s = 0 then decode (i + 1) ss code
      else if s = code then (True, i)
      else if s + 128 = code then (False, i)
      else decode (i + 1) ss code)"

definition kbd_read :: "u8 \<Rightarrow> u8 \<Rightarrow> bool \<times> nat" where
  "kbd_read status code =
     (if status AND 0x1 = 0 then (False, 0)
      else if status AND 0x20 \<noteq> 0 then (False, 0)
      else decode 0 scan_code (unat code))"

definition read_key :: "u8 \<Rightarrow> u8 \<Rightarrow> u32" where
  "read_key status code =
     (let (down, key) = kbd_read status code
      in if down then of_nat key OR 0x8000 else of_nat key)"

text \<open>Pressing and releasing a key gives the same number, and every code that is not 0 is found; the right
  control and alt keys have the codes of the left ones and are taken for them.\<close>

lemma decode_release:
  "\<forall>t\<in>set ss. t < 128 \<Longrightarrow> c \<in> set ss \<Longrightarrow> c \<noteq> 0 \<Longrightarrow>
    \<exists>k<length ss. decode i ss c = (True, i + k) \<and> decode i ss (c + 128) = (False, i + k) \<and> ss ! k = c"
proof (induction ss arbitrary: i)
  case (Cons t ss)
  show ?case
  proof (cases "t = c")
    case True
    then show ?thesis using Cons.prems by (intro exI [of _ 0]) auto
  next
    case False
    then obtain k where "k < length ss" "decode (i + 1) ss c = (True, i + 1 + k)"
      "decode (i + 1) ss (c + 128) = (False, i + 1 + k)" "ss ! k = c"
      using Cons.IH [of "i + 1"] Cons.prems by auto
    then show ?thesis using Cons.prems False by (intro exI [of _ "Suc k"]) auto
  qed
qed simp

lemma scan_pairs:
  assumes "c \<in> set scan_code" "c \<noteq> 0"
  shows "\<exists>k. decode 0 scan_code c = (True, k) \<and> decode 0 scan_code (c + 128) = (False, k) \<and> scan_code ! k = c"
proof -
  have "\<forall>t\<in>set scan_code. t < 128" by (simp add: scan_code_def)
  from decode_release [OF this assms, of 0] show ?thesis by auto
qed

section \<open>Timer\<close>

definition read_rtc :: "u8 \<Rightarrow> nat" where
  "read_rtc b = unat (b AND 0xf) + unat (drop_bit 4 b) * 10"

lemma read_rtc_bcd:
  assumes "n < 100"
  shows "read_rtc (of_nat (16 * (n div 10) + n mod 10)) = n"
proof -
  define m where "m = 16 * (n div 10) + n mod 10"
  have m: "m < 256" "m mod 16 = n mod 10" "m div 16 = n div 10" using assms by (auto simp: m_def)
  have b: "unat (of_nat m :: u8) = m" using m(1) by (simp add: unat_of_nat)
  have "(0xf :: u8) = mask 4" by (simp add: mask_eq_exp_minus_1)
  then have "unat (of_nat m AND 0xf :: u8) = unat (take_bit 4 (of_nat m :: u8))" by (simp only: take_bit_eq_mask)
  also have "\<dots> = take_bit 4 (unat (of_nat m :: u8))" by (rule unsigned_take_bit_eq)
  also have "\<dots> = n mod 10" using b m by (simp add: take_bit_eq_mod)
  finally have l: "unat (of_nat m AND 0xf :: u8) = n mod 10" .
  have "unat (drop_bit 4 (of_nat m) :: u8) = n div 10" using b m by (simp add: drop_bit_eq_div unat_div_distrib)
  then show ?thesis using l unfolding read_rtc_def m_def by simp
qed

record date =
  year :: nat
  month :: nat
  day :: nat
  hour :: nat
  minute :: nat
  second :: nat

text \<open>Read \<open>k\<close> of the clock gives \<open>clk k\<close> of its registers; a date is read until its second has not changed.\<close>

partial_function (option) get_date :: "(nat \<Rightarrow> nat \<Rightarrow> u8) \<Rightarrow> nat \<Rightarrow> (date \<times> nat) option" where
  "get_date clk k =
     (let d = \<lparr>year = read_rtc (clk (k + 5) 9) + 2000, month = read_rtc (clk (k + 4) 8), day = read_rtc (clk (k + 3) 7),
            hour = read_rtc (clk (k + 2) 4), minute = read_rtc (clk (k + 1) 2), second = read_rtc (clk k 0)\<rparr>;
          tmp = read_rtc (clk (k + 6) 0)
      in if tmp \<noteq> second d then get_date clk (k + 7) else Some (d, k + 7))"

definition seconds :: "nat \<Rightarrow> nat \<Rightarrow> nat \<Rightarrow> int" where
  "seconds h m s = int h * 3600 + int m * 60 + int s"

definition estimate_freq :: "int \<Rightarrow> 64 word \<Rightarrow> int \<Rightarrow> 64 word \<Rightarrow> u32" where
  "estimate_freq t1 tsc1 t2 tsc2 =
     (if t1 \<ge> t2 then 0 else ucast (drop_bit 20 (tsc2 - tsc1)) div word_of_int (t2 - t1))"

definition uptime_ms :: "u32 \<Rightarrow> 64 word \<Rightarrow> u32 option" where
  "uptime_ms freq_mhz tsc =
     (let mticks = ucast (drop_bit 20 tsc) :: u32
      in if freq_mhz = 0 then None else Some (mticks * 1000 div freq_mhz))"

text \<open>The time in milliseconds is right while \<open>mticks * 1000\<close> has 32 bits, and then starts
  again from 0; at 2000 MHz that is after some 37 minutes.\<close>

lemma uptime_exact:
  assumes "unat tsc div 2 ^ 20 * 1000 < 2 ^ 32" "f \<noteq> 0"
  shows "\<exists>ms. uptime_ms f tsc = Some ms \<and> unat ms = unat tsc div 2 ^ 20 * 1000 div unat f"
proof -
  define q where "q = drop_bit 20 tsc"
  have q: "unat q = unat tsc div 2 ^ 20" unfolding q_def by (simp add: drop_bit_eq_div unat_div_distrib)
  have "unat (ucast q :: u32) = unat q"
    using assms(1) q by (simp add: unsigned_ucast_eq take_bit_nat_eq_self)
  then have "unat ((ucast q :: u32) * 1000) = unat tsc div 2 ^ 20 * 1000"
    using assms(1) q by (simp add: unat_word_ariths)
  then show ?thesis using assms(2) by (simp add: uptime_ms_def Let_def q_def [symmetric] unat_div_distrib)
qed

lemma uptime_wraps: "uptime_ms 2000 (push_bit 20 4294967) = Some 2147483 \<and> uptime_ms 2000 (push_bit 20 4294968) = Some 0"
  by (simp add: uptime_ms_def)

section \<open>Video\<close>

type_synonym rgb = "u8 \<times> u8 \<times> u8"

definition rgb_of :: "u32 \<Rightarrow> rgb" where
  "rgb_of p = (ucast (drop_bit 16 p), ucast (drop_bit 8 p), ucast p)"

definition draw_row :: "(int \<Rightarrow> u32) \<Rightarrow> int \<Rightarrow> int \<Rightarrow> int \<Rightarrow> (int \<Rightarrow> rgb) \<Rightarrow> int \<Rightarrow> rgb" where
  "draw_row pixels p v len fb = fold (\<lambda>i fb. fb(v + int i := rgb_of (pixels (p + int i)))) [0..<nat len] fb"

definition clip_len :: "int \<Rightarrow> int \<Rightarrow> int \<Rightarrow> int" where
  "clip_len W x w = (if x + w \<ge> W then W - x else w)"

definition video_write ::
  "int \<Rightarrow> int \<Rightarrow> int \<Rightarrow> int \<Rightarrow> (int \<Rightarrow> u32) \<Rightarrow> int \<Rightarrow> int \<Rightarrow> (int \<Rightarrow> rgb) \<Rightarrow> int \<Rightarrow> rgb" where
  "video_write W H x y pixels w h fb =
     (let len = clip_len W x w
      in fold (\<lambda>j fb. if y + int j < H then draw_row pixels (int j * w) (x + (int j + y) * W) len fb else fb) [0..<nat h] fb)"

section \<open>PCI configuration\<close>

text \<open>The accesses to ports: address, width in bytes.  The cases fall through.\<close>

definition pci_accesses :: "nat \<Rightarrow> u32 \<Rightarrow> (nat \<times> nat) list" where
  "pci_accesses n reg =
     (0xcf8, 4) #
     (if n = 1 then [(0xcfc + unat (reg AND 3), 1), (0xcfc + unat (reg AND 2), 2), (0xcfc, 4)]
      else if n = 2 then [(0xcfc + unat (reg AND 2), 2), (0xcfc, 4)]
      else if n = 4 then [(0xcfc, 4)]
      else [])"

text \<open>So a read of one byte writes four bytes to the caller's buffer.\<close>

lemma pci_overruns: "\<exists>a\<in>set (pci_accesses 1 reg). snd a = 4 \<and> fst a = 0xcfc"
  by (simp add: pci_accesses_def)

text \<open>What a port gives depends on the register selected before; every read is stored at the start of the buffer.\<close>

definition bytes_le :: "nat \<Rightarrow> u32 \<Rightarrow> u8 list" where
  "bytes_le n v = map (\<lambda>i. ucast (drop_bit (8 * i) v)) [0..<n]"

definition store_front :: "u8 list \<Rightarrow> u8 list \<Rightarrow> u8 list" where
  "store_front bs buf = bs @ drop (length bs) buf"

definition pciconf_read :: "(u32 \<Rightarrow> nat \<Rightarrow> nat \<Rightarrow> u32) \<Rightarrow> u32 \<Rightarrow> nat \<Rightarrow> u8 list \<Rightarrow> nat \<times> u8 list" where
  "pciconf_read ports reg n buf =
     (n, fold (\<lambda>(a, w). store_front (bytes_le w (ports reg a w))) (tl (pci_accesses n reg)) buf)"

text \<open>The writes to ports: address, width and value, which is taken from the start of the buffer.\<close>

definition value_le :: "u8 list \<Rightarrow> u32" where
  "value_le bs = foldr (\<lambda>b v. push_bit 8 v + ucast b) bs 0"

definition pciconf_write :: "u32 \<Rightarrow> nat \<Rightarrow> u8 list \<Rightarrow> (nat \<times> nat \<times> u32) list" where
  "pciconf_write reg n buf =
     (0xcf8, 4, reg) # map (\<lambda>(a, w). (a, w, value_le (take w buf))) (tl (pci_accesses n reg))"

text \<open>Whatever is asked for, the buffer holds the four bytes of the register in the end: for a byte that is not the
  lowest, the wrong one.\<close>

lemma pci_read_whole:
  assumes "n \<in> {1, 2, 4}"
  shows "take 4 (snd (pciconf_read ports reg n buf)) = bytes_le 4 (ports reg 0xcfc 4)"
  using assms by (auto simp: pciconf_read_def pci_accesses_def store_front_def bytes_le_def)

section \<open>Dispatch\<close>

datatype reply = Kbd bool nat | Uptime u32 | Date date | Info int int | Config "u8 list"

record machine =
  kbd_status :: u8
  kbd_code :: u8
  clock :: "nat \<Rightarrow> nat \<Rightarrow> u8"
  tsc :: "64 word"
  uptsc :: "64 word"
  freq :: u32
  width :: int
  height :: int
  frame_buffer :: "int \<Rightarrow> rgb"
  pci_in :: "u32 \<Rightarrow> nat \<Rightarrow> nat \<Rightarrow> u32"
  pci_out :: "(nat \<times> nat \<times> u32) list"

definition DEV_PCICONF :: nat where "DEV_PCICONF = 0x80"
definition DEV_INPUT :: nat where "DEV_INPUT = 0xac02"
definition DEV_TIMER :: nat where "DEV_TIMER = 0xac03"
definition DEV_VIDEO :: nat where "DEV_VIDEO = 0xac04"

text \<open>The size that is returned, and what is written to the buffer \<open>buf\<close> of \<open>n\<close> bytes.\<close>

definition io_read :: "machine \<Rightarrow> nat \<Rightarrow> nat \<Rightarrow> u8 list \<Rightarrow> nat \<Rightarrow> (nat \<times> reply option) option" where
  "io_read mc dev reg buf n =
     (if dev = DEV_INPUT then Some (8, Some (case kbd_read (kbd_status mc) (kbd_code mc) of (d, k) \<Rightarrow> Kbd d k))
      else if dev = DEV_TIMER then
        (if reg = 1 then do {ms \<leftarrow> uptime_ms (freq mc) (tsc mc - uptsc mc); Some (8, Some (Uptime ms))}
         else if reg = 2 then do {(d, _) \<leftarrow> get_date (clock mc) 0; Some (24, Some (Date d))}
         else Some (0, None))
      else if dev = DEV_VIDEO then
        (if reg = 1 then Some (8, Some (Info (width mc) (height mc))) else Some (0, None))
      else if dev = DEV_PCICONF then
        (case pciconf_read (pci_in mc) (of_nat reg) n buf of (k, bs) \<Rightarrow> Some (k, Some (Config bs)))
      else Some (0, None))"

record draw_ctl =
  f_x :: int
  f_y :: int
  f_pixels :: "int \<Rightarrow> u32"
  f_w :: int
  f_h :: int

text \<open>The buffer read as a request for drawing, and as bytes.\<close>

definition io_write :: "machine \<Rightarrow> nat \<Rightarrow> nat \<Rightarrow> draw_ctl \<Rightarrow> u8 list \<Rightarrow> nat \<Rightarrow> nat \<times> machine" where
  "io_write mc dev reg c buf n =
     (if dev = DEV_VIDEO \<and> reg = 2 then
        (24, mc\<lparr>frame_buffer := video_write (width mc) (height mc) (f_x c) (f_y c) (f_pixels c) (f_w c) (f_h c) (frame_buffer mc)\<rparr>)
      else if dev = DEV_PCICONF then (n, mc\<lparr>pci_out := pci_out mc @ pciconf_write (of_nat reg) n buf\<rparr>)
      else (0, mc))"

definition ioe_init :: "nat \<Rightarrow> u32 \<Rightarrow> 64 word \<Rightarrow> int \<Rightarrow> int \<Rightarrow> machine \<Rightarrow> machine option" where
  "ioe_init cpu frq now w h mc =
     (if cpu \<noteq> 0 then None else Some (mc\<lparr>freq := frq, uptsc := now, width := w, height := h\<rparr>))"

definition draw_rect :: "(int \<Rightarrow> u32) \<Rightarrow> int \<Rightarrow> int \<Rightarrow> int \<Rightarrow> int \<Rightarrow> machine \<Rightarrow> machine" where
  "draw_rect pixels x y w h mc = snd (io_write mc DEV_VIDEO 2 \<lparr>f_x = x, f_y = y, f_pixels = pixels, f_w = w, f_h = h\<rparr> [] 24)"

definition draw_sync :: "machine \<Rightarrow> machine" where
  "draw_sync mc = snd (io_write mc DEV_VIDEO 2 \<lparr>f_x = 0, f_y = 0, f_pixels = (\<lambda>_. 0), f_w = 0, f_h = 0\<rparr> [] 24)"

definition screen_size :: "machine \<Rightarrow> (int \<times> int) option" where
  "screen_size mc =
     (case io_read mc DEV_VIDEO 1 [] 8 of Some (_, Some (Info w h)) \<Rightarrow> Some (w, h) | _ \<Rightarrow> None)"

definition uptime_now :: "machine \<Rightarrow> u32 option" where
  "uptime_now mc = (case io_read mc DEV_TIMER 1 [] 8 of Some (_, Some (Uptime ms)) \<Rightarrow> Some ms | _ \<Rightarrow> None)"

definition get_timeofday :: "machine \<Rightarrow> date option" where
  "get_timeofday mc = (case io_read mc DEV_TIMER 2 [] 24 of Some (_, Some (Date d)) \<Rightarrow> Some d | _ \<Rightarrow> None)"

section \<open>Drawing is clipped\<close>

lemma draw_row_apply:
  "draw_row pixels p v len fb a = (if v \<le> a \<and> a < v + len then rgb_of (pixels (p + (a - v))) else fb a)"
proof -
  have "fold (\<lambda>i fb. fb(v + int i := rgb_of (pixels (p + int i)))) [0..<n] fb a =
      (if v \<le> a \<and> a < v + int n then rgb_of (pixels (p + (a - v))) else fb a)" for n
    by (induction n) auto
  from this [of "nat len"] show ?thesis by (auto simp: draw_row_def)
qed

lemma cell_unique:
  fixes x y W :: int
  assumes "x + y * W \<le> a + b * W" "a + b * W < x + y * W + len" "0 \<le> x" "0 \<le> a" "a < W" "x + len \<le> W"
  shows "y = b"
proof -
  have "b * W < (y + 1) * W" using assms by (simp add: algebra_simps)
  moreover have "y * W < (b + 1) * W" using assms by (simp add: algebra_simps)
  ultimately show ?thesis using assms(4,5) by (simp add: mult_less_cancel_right)
qed

lemma video_rows:
  assumes "0 \<le> x" "0 \<le> a" "a < W" "x + len \<le> W"
  shows "fold (\<lambda>j fb. if y + int j < H then draw_row pixels (int j * w) (x + (int j + y) * W) len fb else fb) [0..<n] fb (a + b * W) =
    (if b < H \<and> y \<le> b \<and> b < y + int n \<and> x \<le> a \<and> a < x + len then rgb_of (pixels ((b - y) * w + (a - x))) else fb (a + b * W))"
proof (induction n)
  case (Suc n)
  have "x + (int n + y) * W \<le> a + b * W \<and> a + b * W < x + (int n + y) * W + len \<longleftrightarrow> b = y + int n \<and> x \<le> a \<and> a < x + len"
    using cell_unique [of x "int n + y" W a b len] assms by (auto simp: algebra_simps)
  then have step: "draw_row pixels (int n * w) (x + (int n + y) * W) len fb (a + b * W) =
      (if b = y + int n \<and> x \<le> a \<and> a < x + len then rgb_of (pixels (int n * w + (a - x))) else fb (a + b * W))" for fb
    unfolding draw_row_apply by (auto simp: algebra_simps)
  show ?case
  proof (cases "y + int n < H")
    case True
    then show ?thesis using Suc step by auto
  next
    case False
    then have "b < H \<and> b < y + int (Suc n) \<longleftrightarrow> b < H \<and> b < y + int n" by auto
    then show ?thesis using Suc False by auto
  qed
qed auto

text \<open>A rectangle drawn with its corner at non-negative coordinates is clipped at the screen: every
  pixel of the screen inside the rectangle gets its colour from the picture, and every other pixel of
  the screen keeps its colour; the helper \<open>draw_rect\<close> does just that.\<close>

theorem draw_rect_clips:
  assumes "0 \<le> x" "0 \<le> y" "0 \<le> w" "0 \<le> a" "a < width mc" "0 \<le> b" "b < height mc"
  shows "frame_buffer (draw_rect pixels x y w h mc) (a + b * width mc) =
    (if x \<le> a \<and> a < x + w \<and> y \<le> b \<and> b < y + h then rgb_of (pixels ((b - y) * w + (a - x)))
     else frame_buffer mc (a + b * width mc))"
proof -
  define cl where "cl = clip_len (width mc) x w"
  have "frame_buffer (draw_rect pixels x y w h mc) =
      fold (\<lambda>j fb. if y + int j < height mc then draw_row pixels (int j * w) (x + (int j + y) * width mc) cl fb else fb)
        [0..<nat h] (frame_buffer mc)"
    unfolding cl_def by (simp add: draw_rect_def io_write_def video_write_def Let_def)
  moreover have "x + cl \<le> width mc" by (simp add: cl_def clip_len_def)
  moreover have "a < x + cl \<longleftrightarrow> a < x + w" using assms by (auto simp: cl_def clip_len_def)
  ultimately show ?thesis using video_rows [of x a "width mc" cl y "height mc"] assms by auto
qed

definition demo_machine :: machine where
  "demo_machine = \<lparr>kbd_status = 0, kbd_code = 0, clock = (\<lambda>_ _. 0), tsc = 0, uptsc = 0, freq = 2000,
     width = 4, height = 3, frame_buffer = (\<lambda>_. (0, 0, 0)), pci_in = (\<lambda>_ _ _. 0), pci_out = []\<rparr>"

theorem draw_rect_clips_witness:
  "frame_buffer (draw_rect (\<lambda>i. word_of_int i) 3 2 2 2 demo_machine) (3 + 2 * 4) = (0, 0, 0) \<and>
   frame_buffer (draw_rect (\<lambda>i. 5) 3 2 2 2 demo_machine) (3 + 2 * 4) = (0, 0, 5)"
  using draw_rect_clips [of 3 2 2 3 demo_machine 2 "\<lambda>i. word_of_int i" 2] draw_rect_clips [of 3 2 2 3 demo_machine 2 "\<lambda>i. 5" 2]
  by (simp add: demo_machine_def rgb_of_def)

text \<open>A negative column is not clipped: the pixel appears at the end of the row above.\<close>

lemma negative_column:
  "frame_buffer (draw_rect (\<lambda>i. 5) (-1) 1 1 1 demo_machine) (3 + 0 * 4) = (0, 0, 5)"
  by (simp add: draw_rect_def io_write_def video_write_def draw_row_def demo_machine_def rgb_of_def Let_def DEV_VIDEO_def clip_len_def)

end
