(* ===== verification/Os.thy ===== *)
theory Os
  imports Irq Kmt_Sched
begin

text \<open>
  The trap of the whole kernel: the handlers that \<^verbatim>\<open>kmt_init\<close> and the keyboard register
  (\<^verbatim>\<open>kernel/src/kmt.c\<close>, \<^verbatim>\<open>devices/input/input.c\<close>), run by \<^verbatim>\<open>os_trap\<close>, and the start of the kernel in
  \<^verbatim>\<open>os_init\<close> (\<^verbatim>\<open>kernel/src/os.c\<close>).  A trap is shown to be a path of the steps of the scheduler, so that what holds
  of all their interleavings holds of traps.
\<close>

section \<open>Handlers\<close>

definition INT_MIN :: int where "INT_MIN = - (2 ^ 31)"
definition INT_MAX :: int where "INT_MAX = 2 ^ 31 - 1"
definition EVENT_IRQ_IODEV :: int where "EVENT_IRQ_IODEV = 3"

definition SAVE :: nat where "SAVE = 0"
definition SWITCH :: nat where "SWITCH = 1"
definition CLEAN :: nat where "CLEAN = 2"
definition NOTIFY :: nat where "NOTIFY = 3"

text \<open>The state is an error once a handler has stopped the machine.  The collector stops it when its queue is full;
  \<open>notify\<close> is the signal to the semaphore of the keyboard.\<close>

definition kernel_handler ::
  "nat \<Rightarrow> ('c sched \<Rightarrow> 'c sched) \<Rightarrow> nat \<Rightarrow> int \<Rightarrow> 'c \<Rightarrow> 'c sched result \<Rightarrow> 'c option \<times> 'c sched result" where
  "kernel_handler cpu notify h ev c st =
     (case st of
        Inl e \<Rightarrow> (None, Inl e)
      | Inr s \<Rightarrow>
          if h = SAVE then (None, Inr (kmt_context_save cpu c s))
          else if h = SWITCH then
            (case kmt_context_switch cpu s of Inl e \<Rightarrow> (None, Inl e) | Inr (c', s') \<Rightarrow> (Some c', Inr s'))
          else if h = CLEAN then
            (None, case kmt_context_clean s of None \<Rightarrow> Inl AssertFail | Some (s', _) \<Rightarrow> Inr s')
          else (None, Inr (notify s)))"

section \<open>Start\<close>

definition kmt_init :: "nat \<Rightarrow> (nat \<Rightarrow> 'c) \<Rightarrow> irq list \<Rightarrow> 'c sched \<Rightarrow> irq list \<times> 'c sched" where
  "kmt_init ncpu idle hs s =
     (os_on_irq INT_MAX EVENT_NULL CLEAN (os_on_irq INT_MAX EVENT_NULL SWITCH (os_on_irq INT_MIN EVENT_NULL SAVE hs)),
      s\<lparr>idles := (\<lambda>i. if i < ncpu then idle i else idles s i)\<rparr>)"

definition input_register :: "irq list \<Rightarrow> irq list" where
  "input_register hs = os_on_irq 0 EVENT_IRQ_IODEV NOTIFY hs"

text \<open>The shells: their blocks from \<^verbatim>\<open>pmm->alloc\<close> and their first contexts.\<close>

fun create_shells :: "nat \<Rightarrow> (ptr \<times> 'c) list \<Rightarrow> 'c sched \<Rightarrow> 'c sched option" where
  "create_shells i [] s = Some s"
| "create_shells i ((p, c) # ps) s =
     Option.bind (kmt_create 0 p (''shell'' @ [char_of (49 + i)]) c s) (create_shells (i + 1) ps)"

text \<open>\<open>dev_init\<close> creates the tasks of the devices; \<^verbatim>\<open>vfs_init\<close> does not touch the scheduler.\<close>

definition os_init ::
  "nat \<Rightarrow> (nat \<Rightarrow> 'c) \<Rightarrow> ('c sched \<Rightarrow> 'c sched option) \<Rightarrow> (ptr \<times> 'c) list \<Rightarrow> 'c sched \<Rightarrow> (irq list \<times> 'c sched) option" where
  "os_init ncpu idle dev_init shells s =
     (case kmt_init ncpu idle [] s of
        (hs, s1) \<Rightarrow> map_option (Pair (input_register hs)) (Option.bind (dev_init s1) (create_shells 0 shells)))"

definition kernel_handlers :: "irq list" where
  "kernel_handlers =
     [\<lparr>irq_seq = INT_MIN, irq_event = EVENT_NULL, irq_handler = SAVE\<rparr>,
      \<lparr>irq_seq = 0, irq_event = EVENT_IRQ_IODEV, irq_handler = NOTIFY\<rparr>,
      \<lparr>irq_seq = INT_MAX, irq_event = EVENT_NULL, irq_handler = SWITCH\<rparr>,
      \<lparr>irq_seq = INT_MAX, irq_event = EVENT_NULL, irq_handler = CLEAN\<rparr>]"

lemma os_init_handlers: "os_init ncpu idle dev_init shells s = Some (hs, s') \<Longrightarrow> hs = kernel_handlers"
  by (auto simp: os_init_def kmt_init_def input_register_def kernel_handlers_def INT_MIN_def INT_MAX_def)

section \<open>A trap\<close>

definition kernel_trap ::
  "irq list \<Rightarrow> nat \<Rightarrow> ('c sched \<Rightarrow> 'c sched) \<Rightarrow> int \<Rightarrow> 'c \<Rightarrow> 'c sched \<Rightarrow> ('c \<times> 'c sched) result" where
  "kernel_trap hs cpu notify ev c s =
     and_then (os_trap (kernel_handler cpu notify) hs ev (Some c) (Inr s))
       (\<lambda>(c', st). and_then st (\<lambda>s'. Inr (c', s')))"

definition notified :: "('c sched \<Rightarrow> 'c sched) \<Rightarrow> int \<Rightarrow> 'c sched \<Rightarrow> 'c sched" where
  "notified notify ev s = (if ev = EVENT_IRQ_IODEV then notify s else s)"

lemma kernel_trap_eq:
  "kernel_trap kernel_handlers cpu notify ev c s =
     (case kmt_context_switch cpu (notified notify ev (kmt_context_save cpu c s)) of
        Inl e \<Rightarrow> Inl e
      | Inr (c', s2) \<Rightarrow> (case kmt_context_clean s2 of None \<Rightarrow> Inl AssertFail | Some (s3, _) \<Rightarrow> Inr (c', s3)))"
  by (auto simp: kernel_trap_def os_trap_def kernel_handlers_def kernel_handler_def notified_def EVENT_NULL_def
      EVENT_IRQ_IODEV_def SAVE_def SWITCH_def CLEAN_def NOTIFY_def split: sum.splits prod.splits option.splits)


lemma pick_task_queue: "pick_task n s = (r, s') \<Longrightarrow> ctx_queue s' = ctx_queue s"
proof (induction n arbitrary: s)
  case (Suc n)
  then show ?case
    by (fastforce simp: Let_def upd_task_def split: prod.splits if_splits)
qed simp

lemma switch_queue: "kmt_context_switch cpu s = Inr (c, s') \<Longrightarrow> ctx_queue s' = ctx_queue s"
  by (auto simp: kmt_context_switch_def Let_def dest: pick_task_queue split: if_splits prod.splits option.splits)


end
