(* ===== verification/Shell_Pipe.thy ===== *)
theory Shell_Pipe
  imports Pipe Vfs Kmt_Sched "HOL-Library.Monad_Syntax"  "HOL-Library.Sublist"
begin

text \<open>
  Pipelines of the shell: \<^verbatim>\<open>pipe\<close> of \<^verbatim>\<open>kernel/src/pipe.c\<close>, which installs the two ends of a pipe,
  \<^verbatim>\<open>run_pipe_cmd\<close> and \<^verbatim>\<open>run_back_cmd\<close> of \<^verbatim>\<open>kernel/src/shell/runcmd.c\<close>, and the two sons of a pipeline running
  side by side in any interleaving.  Files are known by their addresses, as in the
  descriptor tables; of a file only its pipe, if it is an end of one, and its reference count matter.
\<close>

section \<open>Descriptors\<close>

record pf =
  pf_pipe :: "nat option"
  pf_ref :: int

record fdsys =
  d_fds :: "nat \<Rightarrow> nat"
  d_files :: "nat \<Rightarrow> pf"
  d_pipes :: "nat \<Rightarrow> pipe"

text \<open>\<open>p\<close>, \<open>f0\<close> and \<open>f1\<close> are the blocks the allocator gives for the pipe and its two files.\<close>

definition pipe_call :: "nat \<Rightarrow> nat \<Rightarrow> nat \<Rightarrow> fdsys \<Rightarrow> ((nat \<times> nat) \<times> fdsys) option" where
  "pipe_call p f0 f1 s = do {
     r \<leftarrow> new_fd_num (d_fds s);
     let fds1 = (d_fds s)(r := f0);
     w \<leftarrow> new_fd_num fds1;
     Some ((r, w), s\<lparr>d_fds := fds1(w := f1),
       d_files := (d_files s)(f0 := \<lparr>pf_pipe = Some p, pf_ref = 1\<rparr>, f1 := \<lparr>pf_pipe = Some p, pf_ref = 1\<rparr>),
       d_pipes := (d_pipes s)(p := pipe_init)\<rparr>)}"

text \<open>\<^verbatim>\<open>vfs_close\<close>: closing either end of a pipe marks the pipe as closed and counts nothing.\<close>

definition close_file :: "nat \<Rightarrow> fdsys \<Rightarrow> fdsys option" where
  "close_file f s =
     (case pf_pipe (d_files s f) of
        Some p \<Rightarrow> if pf_ref (d_files s f) < 0 then None
          else Some (s\<lparr>d_pipes := (d_pipes s)(p := fst (pipe_iclose (d_pipes s p)))\<rparr>)
      | None \<Rightarrow> if pf_ref (d_files s f) - 1 < 0 then None
          else Some (s\<lparr>d_files := (d_files s)(f := (d_files s f)\<lparr>pf_ref := pf_ref (d_files s f) - 1\<rparr>)\<rparr>))"

text \<open>A task that ends closes what its table holds.\<close>

fun exit_fds :: "nat list \<Rightarrow> (nat \<Rightarrow> nat) \<Rightarrow> fdsys \<Rightarrow> fdsys option" where
  "exit_fds [] tbl s = Some s"
| "exit_fds (i # is) tbl s =
     (if tbl i = 0 then exit_fds is tbl s else do {s1 \<leftarrow> close_file (tbl i) s; exit_fds is tbl s1})"

text \<open>A son gets the same table, with every file counted once more.\<close>

fun count_fds :: "nat list \<Rightarrow> (nat \<Rightarrow> nat) \<Rightarrow> (nat \<Rightarrow> pf) \<Rightarrow> nat \<Rightarrow> pf" where
  "count_fds [] tbl fs = fs"
| "count_fds (i # is) tbl fs =
     count_fds is tbl (if tbl i = 0 then fs else fs(tbl i := (fs (tbl i))\<lparr>pf_ref := pf_ref (fs (tbl i)) + 1\<rparr>))"

definition fork_fds :: "fdsys \<Rightarrow> (nat \<Rightarrow> nat) \<times> fdsys" where
  "fork_fds s = (d_fds s, s\<lparr>d_files := count_fds [0..<Vfs.FD_NUM] (d_fds s) (d_files s)\<rparr>)"

section \<open>Setting up a pipeline\<close>

text \<open>The tables of the left and the right son, and what the shell's task is left with.\<close>

definition run_pipe_cmd :: "nat \<Rightarrow> nat \<Rightarrow> nat \<Rightarrow> fdsys \<Rightarrow> ((nat \<Rightarrow> nat) \<times> (nat \<Rightarrow> nat) \<times> fdsys) option" where
  "run_pipe_cmd p f0 f1 s = do {
     ((r, w), s1) \<leftarrow> pipe_call p f0 f1 s;
     let backup = d_fds s1 1;
     let fds2 = (d_fds s1)(1 := d_fds s1 w);
     let s2 = s1\<lparr>d_fds := fds2(w := 0)\<rparr>;
     let (left, s3) = fork_fds s2;
     let fds4 = (d_fds s3)(1 := backup);
     let fds5 = fds4(0 := fds4 r);
     let s5 = s3\<lparr>d_fds := fds5(r := 0)\<rparr>;
     let (right, s6) = fork_fds s5;
     Some (left, right, s6)}"

text \<open>A command in the background, once its lock \<^verbatim>\<open>running\<close> is free: a son that has ended is freed,
  another is marked so that the collector will free it.\<close>

definition run_back_cmd :: "ptr \<Rightarrow> 'c sched \<Rightarrow> ('c sched \<times> ptr option) option" where
  "run_back_cmd son s =
     (case mutex_lock_turn (t_running (task_at s son)) of
        (False, _) \<Rightarrow> None
      | (True, l) \<Rightarrow>
          let s1 = upd_task son (\<lambda>t. t\<lparr>t_running := l\<rparr>) s
          in if t_attr (task_at s1 son) AND TASK_ZOMBIE \<noteq> 0 then Some (s1, Some son)
             else Some (upd_task son (\<lambda>t. t\<lparr>t_attr := t_attr t OR TASK_NOWAIT, t_running := mutex_unlock (t_running t)\<rparr>) s1, None))"

section \<open>The two sons side by side\<close>

text \<open>What the left son has asked to write so far is \<open>sent\<close>, \<open>pending\<close> the rest of a write that
  waits; the right son has received \<open>got\<close> and, with \<open>eof\<close>, an empty read.\<close>

record pl =
  sys :: fdsys
  left :: "nat \<Rightarrow> nat"
  right :: "nat \<Rightarrow> nat"
  pending :: "u8 list option"
  sent :: "u8 list"
  got :: "u8 list"
  left_done :: bool
  right_done :: bool
  eof :: bool

definition set_pipe :: "nat \<Rightarrow> pipe \<Rightarrow> fdsys \<Rightarrow> fdsys" where
  "set_pipe p q s = s\<lparr>d_pipes := (d_pipes s)(p := q)\<rparr>"

definition end_of :: "fdsys \<Rightarrow> nat \<Rightarrow> nat option" where
  "end_of s f = (if f = 0 then None else pf_pipe (d_files s f))"

inductive plstep :: "pl \<Rightarrow> pl \<Rightarrow> bool" where
  ask: "\<not> left_done x \<Longrightarrow> pending x = None \<Longrightarrow> plstep x (x\<lparr>pending := Some d, sent := sent x @ d\<rparr>)"
| finish: "pending x = Some d \<Longrightarrow> end_of (sys x) (left x 1) = Some p \<Longrightarrow>
    pipe_write (d_pipes (sys x) p) d = Some (WDone q n) \<Longrightarrow> plstep x (x\<lparr>pending := None, sys := set_pipe p q (sys x)\<rparr>)"
| block: "pending x = Some d \<Longrightarrow> end_of (sys x) (left x 1) = Some p \<Longrightarrow>
    pipe_write (d_pipes (sys x) p) d = Some (WWait q n rest) \<Longrightarrow> plstep x (x\<lparr>pending := Some rest, sys := set_pipe p q (sys x)\<rparr>)"
| receive: "\<not> right_done x \<Longrightarrow> end_of (sys x) (right x 0) = Some p \<Longrightarrow> 0 < n \<Longrightarrow>
    pipe_read (d_pipes (sys x) p) n = Some (RData b q) \<Longrightarrow>
    plstep x (x\<lparr>got := got x @ b, eof := (eof x \<or> b = []), sys := set_pipe p q (sys x)\<rparr>)"
| leave_left: "\<not> left_done x \<Longrightarrow> pending x = None \<Longrightarrow> exit_fds [0..<Vfs.FD_NUM] (left x) (sys x) = Some s \<Longrightarrow>
    plstep x (x\<lparr>left_done := True, sys := s\<rparr>)"
| leave_right: "\<not> right_done x \<Longrightarrow> exit_fds [0..<Vfs.FD_NUM] (right x) (sys x) = Some s \<Longrightarrow>
    plstep x (x\<lparr>right_done := True, sys := s\<rparr>)"

definition pl_start :: "(nat \<Rightarrow> nat) \<times> (nat \<Rightarrow> nat) \<times> fdsys \<Rightarrow> pl" where
  "pl_start = (\<lambda>(l, r, s). \<lparr>sys = s, left = l, right = r, pending = None, sent = [], got = [],
     left_done = False, right_done = False, eof = False\<rparr>)"

section \<open>The tables\<close>

lemma count_fds_pipe [simp]: "pf_pipe (count_fds is tbl fs f) = pf_pipe (fs f)"
  by (induction "is" arbitrary: fs) auto

lemma fork_fds_simps [simp]:
  "fst (fork_fds s) = d_fds s" "d_fds (snd (fork_fds s)) = d_fds s" "d_pipes (snd (fork_fds s)) = d_pipes s"
  "pf_pipe (d_files (snd (fork_fds s)) f) = pf_pipe (d_files s f)"
  by (simp_all add: fork_fds_def)

lemma new_fd_num_Some:
  "new_fd_num tbl = Some r \<Longrightarrow> r < Vfs.FD_NUM \<and> tbl r = 0 \<and> (\<forall>i<r. tbl i \<noteq> 0)"
  by (auto simp: new_fd_num_def find_Some_iff)

text \<open>With standard input, output and error open, the ends of the pipe take later descriptors; the left son has the
  pipe as its output, the right son as its input, and everything else of the standard descriptors
  stays.  The shell's task itself keeps the reading end as its standard input.\<close>

lemma run_pipe_cmd_tables:
  assumes "run_pipe_cmd p f0 f1 s = Some (l, r, s')" "d_fds s 0 \<noteq> 0" "d_fds s 1 \<noteq> 0" "d_fds s 2 \<noteq> 0"
    "f0 \<noteq> 0" "f1 \<noteq> 0" "f0 \<noteq> f1"
  shows "l 0 = d_fds s 0" "l 1 = f1" "l 2 = d_fds s 2" "r 0 = f0" "r 1 = d_fds s 1" "r 2 = d_fds s 2"
    "d_fds s' 0 = f0" "d_fds s' 1 = d_fds s 1"
    "end_of s' (l 1) = Some p" "end_of s' (r 0) = Some p" "d_pipes s' p = pipe_init"
proof -
  obtain a where a: "new_fd_num (d_fds s) = Some a" using assms(1) by (auto simp: run_pipe_cmd_def pipe_call_def bind_eq_Some_conv)
  obtain b where b: "new_fd_num ((d_fds s)(a := f0)) = Some b"
    using assms(1) a by (auto simp: run_pipe_cmd_def pipe_call_def bind_eq_Some_conv Let_def)
  have za: "d_fds s a = 0" using new_fd_num_Some [OF a] by simp
  have zb: "b \<noteq> a" "d_fds s b = 0" using new_fd_num_Some [OF b] assms(5) by (auto split: if_splits)
  have "a \<noteq> 0" "a \<noteq> 1" "a \<noteq> 2" "b \<noteq> 0" "b \<noteq> 1" "b \<noteq> 2"
    using za zb(2) assms(2-4) by metis+
  with zb(1) show "l 0 = d_fds s 0" "l 1 = f1" "l 2 = d_fds s 2" "r 0 = f0" "r 1 = d_fds s 1" "r 2 = d_fds s 2"
    "d_fds s' 0 = f0" "d_fds s' 1 = d_fds s 1"
    "end_of s' (l 1) = Some p" "end_of s' (r 0) = Some p" "d_pipes s' p = pipe_init"
    using assms a b by (auto simp: run_pipe_cmd_def pipe_call_def fork_fds_def Let_def end_of_def)
qed

section \<open>Every interleaving\<close>

definition rest_of :: "pl \<Rightarrow> u8 list" where
  "rest_of x = (case pending x of None \<Rightarrow> [] | Some d \<Rightarrow> d)"

definition pl_inv :: "nat \<Rightarrow> pl \<Rightarrow> bool" where
  "pl_inv p x \<longleftrightarrow> end_of (sys x) (left x 1) = Some p \<and> end_of (sys x) (right x 0) = Some p \<and>
     pipe_wf (d_pipes (sys x) p) \<and> got x @ pipe_contents (d_pipes (sys x) p) @ rest_of x = sent x \<and>
     p_open (d_pipes (sys x) p) = (\<not> left_done x \<and> \<not> right_done x) \<and> (left_done x \<longrightarrow> pending x = None) \<and>
     (eof x \<longrightarrow> left_done x \<and> pipe_contents (d_pipes (sys x) p) = [])"

lemma close_file_end: "close_file f s = Some s' \<Longrightarrow> end_of s' g = end_of s g"
  by (auto simp: close_file_def end_of_def split: option.splits if_splits)

lemma close_file_pipe:
  assumes "close_file f s = Some s'"
  shows "d_pipes s' p = d_pipes s p \<or> d_pipes s' p = (d_pipes s p)\<lparr>p_open := False\<rparr>"
    and "f \<noteq> 0 \<Longrightarrow> end_of s f = Some p \<Longrightarrow> d_pipes s' p = (d_pipes s p)\<lparr>p_open := False\<rparr>"
  using assms by (auto simp: close_file_def end_of_def pipe_iclose_def split: option.splits if_splits)

lemma exit_fds_end: "exit_fds is tbl s = Some s' \<Longrightarrow> end_of s' g = end_of s g"
  by (induction "is" arbitrary: s) (auto simp: bind_eq_Some_conv close_file_end split: if_splits)

lemma exit_fds_pipe:
  "exit_fds is tbl s = Some s' \<Longrightarrow>
    (d_pipes s' p = d_pipes s p \<or> d_pipes s' p = (d_pipes s p)\<lparr>p_open := False\<rparr>) \<and>
    (\<forall>i\<in>set is. end_of s (tbl i) = Some p \<longrightarrow> d_pipes s' p = (d_pipes s p)\<lparr>p_open := False\<rparr>)"
proof (induction "is" arbitrary: s)
  case (Cons i "is")
  show ?case
  proof (cases "tbl i = 0")
    case True
    then show ?thesis using Cons by (auto simp: end_of_def)
  next
    case False
    then obtain s1 where s1: "close_file (tbl i) s = Some s1" "exit_fds is tbl s1 = Some s'"
      using Cons.prems by (auto simp: bind_eq_Some_conv)
    show ?thesis
      using Cons.IH [OF s1(2)] close_file_pipe(1) [OF s1(1), of p] close_file_pipe(2) [OF s1(1) False, of p]
        close_file_end [OF s1(1)] by auto
  qed
qed simp

lemma closed_pipe:
  "pipe_contents (q\<lparr>p_open := b\<rparr>) = pipe_contents q" "pipe_wf (q\<lparr>p_open := b\<rparr>) = pipe_wf q"
  by (simp_all add: pipe_contents_def get_size_def pipe_wf_def)

lemma set_pipe_simps [simp]:
  "end_of (set_pipe p q s) f = end_of s f" "d_pipes (set_pipe p q s) p = q"
  by (simp_all add: set_pipe_def end_of_def)

lemma pl_inv_exit:
  assumes "exit_fds [0..<Vfs.FD_NUM] tbl s = Some s'" "end_of s (tbl i) = Some p" "i < Vfs.FD_NUM"
  shows "d_pipes s' p = (d_pipes s p)\<lparr>p_open := False\<rparr>" "end_of s' f = end_of s f"
  using exit_fds_pipe [OF assms(1), of p] exit_fds_end [OF assms(1)] assms(2,3) by auto

lemma pl_inv_step: "plstep x y \<Longrightarrow> pl_inv p x \<Longrightarrow> pl_inv p y"
proof (induction rule: plstep.induct)
  case (ask x d)
  then show ?case by (auto simp: pl_inv_def rest_of_def)
next
  case (finish x d p' q n)
  then have p: "p' = p" and wf: "pipe_wf (d_pipes (sys x) p)" by (auto simp: pl_inv_def)
  then show ?case using finish pipe_write_spec [OF wf, of d] by (auto simp: pl_inv_def rest_of_def split: if_splits)
next
  case (block x d p' q n rest)
  then have p: "p' = p" and wf: "pipe_wf (d_pipes (sys x) p)" by (auto simp: pl_inv_def)
  then show ?case using block pipe_write_spec [OF wf, of d] by (auto simp: pl_inv_def rest_of_def split: if_splits)
next
  case (receive x p' n b q)
  then have p: "p' = p" and wf: "pipe_wf (d_pipes (sys x) p)" by (auto simp: pl_inv_def)
  show ?case
  proof (cases "pipe_contents (d_pipes (sys x) p) = []")
    case True
    then have "\<not> p_open (d_pipes (sys x) p)" "b = []" "q = d_pipes (sys x) p"
      using receive p pipe_read_spec [OF wf, of n] by (auto split: if_splits)
    then show ?thesis using receive p True by (auto simp: pl_inv_def rest_of_def)
  next
    case False
    then have q: "b = take n (pipe_contents (d_pipes (sys x) p))" "pipe_wf q"
      "pipe_contents q = drop n (pipe_contents (d_pipes (sys x) p))" "p_open q = p_open (d_pipes (sys x) p)"
      using receive p pipe_read_spec [OF wf, of n] by auto
    then have "got x @ b @ pipe_contents q @ rest_of x = sent x" "b \<noteq> []"
      using receive False by (auto simp: pl_inv_def append_assoc [symmetric] simp del: append_assoc)
    then show ?thesis using receive p q False by (auto simp: pl_inv_def rest_of_def)
  qed
next
  case (leave_left x s)
  then have "end_of (sys x) (left x 1) = Some p" by (simp add: pl_inv_def)
  from pl_inv_exit [OF leave_left(3) this] leave_left show ?case
    by (auto simp: pl_inv_def rest_of_def closed_pipe Vfs.FD_NUM_def)
next
  case (leave_right x s)
  then have "end_of (sys x) (right x 0) = Some p" by (simp add: pl_inv_def)
  from pl_inv_exit [OF leave_right(2) this] leave_right show ?case
    by (auto simp: pl_inv_def rest_of_def closed_pipe Vfs.FD_NUM_def)
qed

interpretation pipeline: safe_steps plstep "pl_inv p" for p
  by unfold_locales (rule pl_inv_step)

lemma pl_inv_start:
  assumes "run_pipe_cmd p f0 f1 s = Some lrs" "d_fds s 0 \<noteq> 0" "d_fds s 1 \<noteq> 0" "d_fds s 2 \<noteq> 0"
    "f0 \<noteq> 0" "f1 \<noteq> 0" "f0 \<noteq> f1"
  shows "pl_inv p (pl_start lrs)"
proof -
  obtain l r s' where lrs: "lrs = (l, r, s')" by (cases lrs)
  show ?thesis
    using run_pipe_cmd_tables [OF assms(1) [unfolded lrs] assms(2-)] pipe_init_wf
    by (auto simp: lrs pl_inv_def pl_start_def rest_of_def pipe_init_def)
qed

text \<open>Something can always go on until the right son has seen the end.\<close>

lemma pl_progress:
  assumes "pl_inv p x" "left_done x \<or> pending x \<noteq> None" "\<not> right_done x" "\<not> eof x"
  shows "\<exists>y. plstep x y \<and> (got y \<noteq> got x \<or> eof y \<or> pending y \<noteq> pending x)"
proof -
  define q where "q = d_pipes (sys x) p"
  have i: "end_of (sys x) (left x 1) = Some p" "end_of (sys x) (right x 0) = Some p" "pipe_wf q"
    "p_open q = (\<not> left_done x \<and> \<not> right_done x)"
    using assms(1) by (auto simp: pl_inv_def q_def)
  show ?thesis
  proof (cases "pipe_contents q = []")
    case False
    then obtain q' where r: "pipe_read q 1 = Some (RData (take 1 (pipe_contents q)) q')"
      using pipe_read_spec [OF i(3), of 1] by auto
    have "plstep x (x\<lparr>got := got x @ take 1 (pipe_contents q),
        eof := (eof x \<or> take 1 (pipe_contents q) = []), sys := set_pipe p q' (sys x)\<rparr>)"
      using assms(3) i(2) r unfolding q_def by (intro plstep.receive [of _ _ 1]) simp_all
    then show ?thesis using False by (intro exI conjI disjI1) (assumption, simp)
  next
    case empty: True
    show ?thesis
    proof (cases "left_done x")
      case True
      then have "pipe_read q 1 = Some (RData [] q)" using pipe_read_spec [OF i(3), of 1] empty i(4) by simp
      then have "plstep x (x\<lparr>got := got x @ [], eof := (eof x \<or> [] = ([] :: u8 list)), sys := set_pipe p q (sys x)\<rparr>)"
        using assms(3) i(2) unfolding q_def by (intro plstep.receive [of _ _ 1]) simp_all
      then show ?thesis by (intro exI conjI disjI2 disjI1) (assumption, simp)
    next
      case False
      then obtain d where d: "pending x = Some d" using assms(2) by auto
      have sz: "get_size q = 0" using empty by (simp add: pipe_contents_Nil)
      obtain q' where "pipe_write q d = Some (if length d \<le> 0xff then WDone q' (length d) else WWait q' 0xff (drop 0xff d))"
        using pipe_write_spec [OF i(3), of d] sz by auto
      then show ?thesis
      proof (cases "length d \<le> 0xff")
        case True
        then have "plstep x (x\<lparr>pending := None, sys := set_pipe p q' (sys x)\<rparr>)"
          using \<open>pipe_write q d = _\<close> d i(1) unfolding q_def by (intro plstep.finish) auto
        then show ?thesis using d by (intro exI conjI disjI2) (assumption, simp)
      next
        case False
        then have "plstep x (x\<lparr>pending := Some (drop 0xff d), sys := set_pipe p q' (sys x)\<rparr>)"
          using \<open>pipe_write q d = _\<close> d i(1) unfolding q_def by (intro plstep.block) auto
        moreover have "length (drop 0xff d) \<noteq> length d" using False by simp
        then have "drop 0xff d \<noteq> d" by metis
        ultimately show ?thesis using d by (intro exI conjI disjI2) (assumption, simp)
      qed
    qed
  qed
qed


definition demo_fds :: fdsys where
  "demo_fds = \<lparr>d_fds = (\<lambda>i. if i < 3 then 7 else 0), d_files = (\<lambda>_. \<lparr>pf_pipe = None, pf_ref = 3\<rparr>), d_pipes = (\<lambda>_. pipe_init)\<rparr>"


section \<open>What goes wrong\<close>

text \<open>When the right command ends first, a writer that has filled the pipe waits for ever, and with
  it the shell's task, which waits for the left son first.\<close>

lemma writer_stuck:
  assumes "plstep\<^sup>*\<^sup>* x y" "pl_inv p x" "right_done x" "pending x = Some d" "get_size (d_pipes (sys x) p) = 0xff"
  shows "pending y = Some d \<and> right_done y \<and> get_size (d_pipes (sys y) p) = 0xff \<and> pl_inv p y"
proof -
  let ?P = "\<lambda>y. pending y = Some d \<and> right_done y \<and> get_size (d_pipes (sys y) p) = 0xff"
  have "?P z" if "plstep y z" "pl_inv p y" "?P y" for y z
  proof -
    have e: "end_of (sys y) (left y 1) = Some p" using that(2) by (simp add: pl_inv_def)
    have w: "pipe_write (d_pipes (sys y) p) d = Some (WWait (d_pipes (sys y) p) 0 d)"
      using that(3) by (subst pipe_write.simps) simp
    from that(1) show ?thesis by (cases rule: plstep.cases) (use that(3) e w in auto)
  qed
  then have "?P y" using pipeline.reach_stable [OF assms(1,2), of ?P] assms(3-5) by blast
  then show ?thesis using pipeline.reach [OF assms(1,2)] by blast
qed

text \<open>A son of the left command, as in a list, closes the pipe for everybody when it ends: the
  reader then takes an empty pipe for its end, although the rest of the list is still to be written.\<close>

lemma early_end:
  assumes "exit_fds [0..<Vfs.FD_NUM] tbl s = Some s'" "end_of s (tbl 1) = Some p" "pipe_wf (d_pipes s p)"
    "pipe_contents (d_pipes s p) = []"
  shows "pipe_read (d_pipes s' p) n = Some (RData [] (d_pipes s' p)) \<and>
    (\<exists>q. pipe_write (d_pipes s' p) [b] = Some (WDone q 1) \<and> pipe_contents q = [b])"
proof -
  have q: "d_pipes s' p = (d_pipes s p)\<lparr>p_open := False\<rparr>"
    by (rule pl_inv_exit(1) [OF assms(1,2)]) (simp add: Vfs.FD_NUM_def)
  have wf: "pipe_wf (d_pipes s' p)" and c: "pipe_contents (d_pipes s' p) = []"
    using assms(3,4) by (simp_all add: q closed_pipe)
  then have "get_size (d_pipes s' p) = 0" by (simp add: pipe_contents_Nil)
  then show ?thesis
    using pipe_read_spec [OF wf, of n] pipe_write_spec [OF wf, of "[b]"] c q by auto
qed

text \<open>Closing counts nothing down, so the two files of a pipe and its memory are never freed.\<close>

lemma ends_not_counted:
  assumes "close_file f s = Some s'" "pf_pipe (d_files s f) \<noteq> None"
  shows "d_files s' = d_files s"
  using assms by (auto simp: close_file_def split: if_splits)

end
