(* ===== verification/Kvdb_Crash.thy ===== *)
theory Kvdb_Crash
  imports Kvdb_Map
begin

text \<open>
  What recovery of the key-value store (\<^verbatim>\<open>recov_backup\<close> of \<^verbatim>\<open>libkvdb/kvdb.c\<close>) makes of a put that was cut
  off after its backup.  Writes are atomic here; a process may end between any two of them.
\<close>

section \<open>Cut off right after the backup\<close>

text \<open>The header that \<open>start_backup\<close> writes.\<close>

lemma start_backup_header:
  assumes "256 \<le> kf_len f" "256 + t + 20 \<le> kf_len f" "256 + t < 2 ^ 32"
  shows "\<exists>g. start_backup f t = Some g \<and> kf_len g = kf_len f \<and> keep f g {12..<56} \<and>
    view g 0 56 = view f 0 12 @ view f 0 12 @ view f (256 + t) 20 @ bytes32 t @ bytes32 0 @ [1, 0, 0, 0]"
proof -
  let ?bs = "view f 0 12 @ view f 0 12 @ view f (256 + t) 20 @ bytes32 t @ bytes32 0 @ [1, 0, 0, 0]"
  have s: "start_backup f t = Some (pwrite f ?bs 0)"
    using assms by (simp add: start_backup_def TAB_SZ_def read_db_view pread_view Let_def)
  have l: "length ?bs = 56" by (simp add: bytes32_def)
  have "view (pwrite f ?bs 0) 0 56 = ?bs" using view_pwrite [of f ?bs 0] l by simp
  moreover have "kf_len (pwrite f ?bs 0) = kf_len f" using assms(1) l by simp
  moreover have "keep f (pwrite f ?bs 0) {12..<56}" using start_backup_spec [OF assms] s by simp
  ultimately show ?thesis using s by blast
qed

definition link_20 :: "nat set" where
  "link_20 = {284..<288}"

text \<open>Recovery then gives back the file as it was, except for the rest of the header and four bytes: no last
  block of the free list has been noted yet, so the link that is restored is taken to lie at offset 28, in
  the middle of the block at offset 20, and the head of the free list is written over what is stored there.\<close>

lemma cut_after_backup:
  assumes "308 \<le> kf_len f" "256 + t + 20 \<le> kf_len f" "256 + t < 2 ^ 32" "t = 0 \<or> 52 \<le> t"
  shows "\<exists>g h. start_backup f t = Some g \<and> recov_backup g = Some h \<and>
    keep f h ({12..<56} \<union> link_20) \<and> view h 284 4 = view f 0 4 \<and> backup_flag h = Some False"
proof -
  obtain g where g: "start_backup f t = Some g" "kf_len g = kf_len f" "keep f g {12..<56}"
    "view g 0 56 = view f 0 12 @ view f 0 12 @ view f (256 + t) 20 @ bytes32 t @ bytes32 0 @ [1, 0, 0, 0]"
    using start_backup_header [of f t] assms by auto
  define hd where "hd = view g 0 56"
  have len56: "length hd = 56" by (simp add: hd_def)
  have hd: "take 12 (drop 12 hd) = view f 0 12" "word_at hd 11 = t" "take 20 (drop 24 hd) = view f (256 + t) 20"
    "word_at hd 12 = 0" "take 4 hd = view f 0 4" "hd ! 52 = 1"
    using assms(3) view_add [of f 0 4 8] by (simp_all add: hd_def g(4) word_at_def le_bytes32 nth_append)
  have flag: "backup_flag g = Some True"
  proof -
    have "pread g 1 52 = [hd ! 52]"
      using pread_view [of 52 1 g] g(2) assms(1) by (simp add: view_def hd_def)
    then show ?thesis by (simp add: backup_flag_def OFF_BACKUP_FLAG_def hd(6))
  qed
  define f1 where "f1 = pwrite g (view f 0 12) 0"
  define f2 where "f2 = pwrite f1 (view f (256 + t) 20) (256 + t)"
  define f3 where "f3 = pwrite f2 (view f 0 4) 284"
  have r: "recov_backup g = Some (neg_backup f3)"
    using flag assms(3) g(2) assms(1) pread_view [of 0 56 g] hd len56
    by (simp add: recov_backup_def Let_def OFF_BACKUP_LIST_def OFF_BACKUP_TAB_def TAB_SZ_def BLOCK_LEN_def
        add32_eq write_db_pwrite f1_def f2_def f3_def hd_def [symmetric])
  have len: "kf_len f1 = kf_len f" "kf_len f2 = kf_len f" "kf_len f3 = kf_len f" "kf_len (neg_backup f3) = kf_len f"
    using assms(1,2) g(2) by (simp_all add: f1_def f2_def f3_def neg_backup_def OFF_BACKUP_FLAG_def)
  have m: "kf_mem (neg_backup f3) x = kf_mem f x" if "x < kf_len f" "x \<notin> {12..<56} \<union> link_20" for x
  proof -
    have "kf_mem g x = kf_mem f x" using g(3) that by (simp add: keep_def)
    then show ?thesis using that len g(2)
      by (auto simp: neg_backup_def OFF_BACKUP_FLAG_def f3_def f2_def f1_def link_20_def pwrite_def put_def view_nth)
  qed
  have "view (neg_backup f3) 284 4 = view f3 284 4"
    using neg_backup_spec(1) [of f3] len assms(1) by (intro view_keep) auto
  also have "\<dots> = view f 0 4" using view_pwrite [of f2 "view f 0 4" 284] by (simp add: f3_def)
  finally have v: "view (neg_backup f3) 284 4 = view f 0 4" .
  have "pread (neg_backup f3) 1 52 = [0]"
    using pread_view [of 52 1 "neg_backup f3"] len assms(1) neg_backup_spec(2) [of f3] by (simp add: view_def)
  then have "backup_flag (neg_backup f3) = Some False" by (simp add: backup_flag_def OFF_BACKUP_FLAG_def)
  then show ?thesis using g(1) r m v len by (auto simp: keep_def)
qed

section \<open>Recovery cut off\<close>

text \<open>Recovery writes the old list first and the link last, and the link it writes is the head it finds: when it is cut
  off after its first write, the second attempt links the last block to the old head, which closes
  the free list to a cycle, instead of to the block where the list went on.\<close>

definition recov_first :: "kfile \<Rightarrow> kfile" where
  "recov_first f = pwrite f (take 12 (drop OFF_BACKUP_LIST (pread f 56 0))) 0"

lemma recov_link:
  assumes "backup_flag f = Some True" "256 \<le> kf_len f" "word_at (view f 0 56) 12 = p" "256 + p + 28 < 2 ^ 32"
    "recov_backup f = Some g"
  shows "view g (284 + p) 4 = view f 0 4"
proof -
  define hd where "hd = view f 0 56"
  have e: "pread f 56 0 = hd" using pread_view [of 0 56 f] assms(2) by (simp add: hd_def)
  have t: "take 4 hd = view f 0 4" using view_add [of f 0 4 52] by (simp add: hd_def)
  obtain f2 where g: "g = neg_backup (write_db f2 (add32 p BLOCK_LEN) (view f 0 4))"
    using assms(1,3,5) e t by (auto simp: recov_backup_def Let_def hd_def split: if_splits)
  have w: "write_db f2 (add32 p BLOCK_LEN) (view f 0 4) = pwrite f2 (view f 0 4) (284 + p)"
    using assms(4) by (simp add: BLOCK_LEN_def add32_eq write_db_pwrite)
  have "view g (284 + p) 4 = view (pwrite f2 (view f 0 4) (284 + p)) (284 + p) 4"
    unfolding g w by (rule view_keep [OF neg_backup_spec(1)]) auto
  then show ?thesis using view_pwrite [of f2 "view f 0 4" "284 + p"] by simp
qed

lemma recovery_not_restartable:
  assumes "backup_flag f = Some True" "256 \<le> kf_len f" "word_at (view f 0 56) 12 = p" "256 + p + 28 < 2 ^ 32"
    "recov_backup f = Some g" "recov_backup (recov_first f) = Some g'"
  shows "view g (284 + p) 4 = view f 0 4" "view g' (284 + p) 4 = view f 12 4"
proof -
  show "view g (284 + p) 4 = view f 0 4" by (rule recov_link [OF assms(1-5)])
  have e: "pread f 56 0 = view f 0 56" using pread_view [of 0 56 f] assms(2) by simp
  have s: "view f 0 56 = view f 0 12 @ view f 12 12 @ view f 24 32"
    using view_add [of f 0 12 44] view_add [of f 12 12 32] by simp
  have r: "recov_first f = pwrite f (view f 12 12) 0" by (simp add: recov_first_def e OFF_BACKUP_LIST_def s)
  have k: "keep f (recov_first f) {0..<12}" using keep_pwrite [of f "view f 12 12" 0] by (simp add: r)
  have len: "kf_len (recov_first f) = kf_len f" using assms(2) by (simp add: r)
  have "view (recov_first f) 52 1 = view f 52 1" using k assms(2) by (intro view_keep) auto
  then have flag: "backup_flag (recov_first f) = Some True"
    using assms(1,2) len by (simp add: backup_flag_def OFF_BACKUP_FLAG_def pread_view)
  have v0: "view (recov_first f) 0 12 = view f 12 12" using view_pwrite [of f "view f 12 12" 0] by (simp add: r)
  have "view (recov_first f) 12 44 = view f 12 44" using k assms(2) by (intro view_keep) auto
  then have "word_at (view (recov_first f) 0 56) 12 = word_at (view f 0 56) 12"
    using view_add [of "recov_first f" 0 12 44] view_add [of f 0 12 44] by (simp add: word_at_def)
  then have "view g' (284 + p) 4 = view (recov_first f) 0 4"
    using recov_link [OF flag _ _ assms(4,6)] len assms(2,3) by simp
  also have "\<dots> = view f 12 4"
    using v0 view_add [of "recov_first f" 0 4 8] view_add [of f 12 4 8] by simp
  finally show "view g' (284 + p) 4 = view f 12 4" .
qed

end
