(* ===== verification/Kvdb_Lock.thy ===== *)
theory Kvdb_Lock
  imports Systems
begin

unbundle bit_operations_syntax

text \<open>
  The lock of the key-value store and the check of its handle (\<^verbatim>\<open>kvdb_lock\<close>, \<^verbatim>\<open>valid_test\<close>, \<^verbatim>\<open>kvdb_close\<close> of
  \<^verbatim>\<open>libkvdb/kvdb.c\<close>).  Threads are interleaved at every access to the two counters that keep readers from starving writers;
  the library's read-write lock and the lock of the file let a waiting thread pass at
  some step.
\<close>

section \<open>The handle\<close>

definition MAGIC_NUM :: nat where "MAGIC_NUM = 0x3737"

record kvdb =
  k_fd :: nat
  k_hash :: nat

definition open_hash :: "nat \<Rightarrow> nat" where
  "open_hash fd = (MAGIC_NUM * fd mod 0xffff) XOR MAGIC_NUM"

definition valid_test :: "kvdb \<Rightarrow> bool" where
  "valid_test db \<longleftrightarrow> MAGIC_NUM * k_fd db mod 0xffff = k_hash db XOR MAGIC_NUM"

definition kvdb_close :: "kvdb \<Rightarrow> kvdb" where
  "kvdb_close db = db\<lparr>k_hash := MAGIC_NUM * k_fd db mod 0xffff\<rparr>"

lemma xor_twice: "(a XOR b) XOR b = a" for a b :: nat
  by (simp add: xor.assoc)

text \<open>A handle is accepted after it is opened and never after it is closed.\<close>

lemma valid_after_open: "valid_test \<lparr>k_fd = fd, k_hash = open_hash fd\<rparr>"
  by (simp add: valid_test_def open_hash_def xor_twice)

lemma invalid_after_close: "\<not> valid_test (kvdb_close db)"
proof
  assume v: "valid_test (kvdb_close db)"
  define a where "a = MAGIC_NUM * k_fd db mod 0xffff"
  from v have "a = a XOR MAGIC_NUM" by (simp add: valid_test_def kvdb_close_def a_def)
  then have "a XOR a = a XOR (a XOR MAGIC_NUM)" by simp
  then have "MAGIC_NUM = 0" by (simp add: xor.assoc [symmetric])
  then show False by (simp add: MAGIC_NUM_def)
qed

section \<open>Readers and writers\<close>

text \<open>Where a thread is: a reader that has seen \<open>tmp\<close> writers waiting, that has also read the count, that
  has written it back, that is about to reset it, that spins, that has passed; a writer that is announced and waits, that
  has the lock, that is no longer announced.\<close>

datatype kpc =
  Idle | RSeen nat | RLoaded nat nat | RCounted nat | RReset | RSpin | RIn
  | WWaits | WLocked | WLeft | WIn

record klock =
  wr_acq :: nat
  rd_cnt :: nat
  pcs :: "kpc list"

definition goto :: "nat \<Rightarrow> kpc \<Rightarrow> klock \<Rightarrow> klock" where
  "goto i p s = s\<lparr>pcs := (pcs s)[i := p]\<rparr>"

definition LIMIT :: nat where "LIMIT = 0x77"

inductive lstep :: "klock \<Rightarrow> klock \<Rightarrow> bool" where
  see: "i < length (pcs s) \<Longrightarrow> pcs s ! i = Idle \<Longrightarrow>
    lstep s (goto i (if wr_acq s > 0 then RSeen (wr_acq s) else RSpin) s)"
| load: "i < length (pcs s) \<Longrightarrow> pcs s ! i = RSeen tmp \<Longrightarrow> lstep s (goto i (RLoaded tmp (rd_cnt s)) s)"
| count: "i < length (pcs s) \<Longrightarrow> pcs s ! i = RLoaded tmp v \<Longrightarrow> lstep s (goto i (RCounted tmp) (s\<lparr>rd_cnt := v + 1\<rparr>))"
| compare: "i < length (pcs s) \<Longrightarrow> pcs s ! i = RCounted tmp \<Longrightarrow> lstep s (goto i (if tmp \<noteq> wr_acq s then RReset else RSpin) s)"
| reset: "i < length (pcs s) \<Longrightarrow> pcs s ! i = RReset \<Longrightarrow> lstep s (goto i RSpin (s\<lparr>rd_cnt := 0\<rparr>))"
| pass: "i < length (pcs s) \<Longrightarrow> pcs s ! i = RSpin \<Longrightarrow> rd_cnt s \<le> LIMIT \<Longrightarrow> lstep s (goto i RIn s)"
| r_unlock: "i < length (pcs s) \<Longrightarrow> pcs s ! i = RIn \<Longrightarrow> lstep s (goto i Idle s)"
| announce: "i < length (pcs s) \<Longrightarrow> pcs s ! i = Idle \<Longrightarrow> lstep s (goto i WWaits (s\<lparr>wr_acq := wr_acq s + 1\<rparr>))"
| w_lock: "i < length (pcs s) \<Longrightarrow> pcs s ! i = WWaits \<Longrightarrow> lstep s (goto i WLocked s)"
| leave: "i < length (pcs s) \<Longrightarrow> pcs s ! i = WLocked \<Longrightarrow> lstep s (goto i WLeft (s\<lparr>wr_acq := wr_acq s - 1\<rparr>))"
| clear: "i < length (pcs s) \<Longrightarrow> pcs s ! i = WLeft \<Longrightarrow> lstep s (goto i WIn (s\<lparr>rd_cnt := 0\<rparr>))"
| w_unlock: "i < length (pcs s) \<Longrightarrow> pcs s ! i = WIn \<Longrightarrow> lstep s (goto i Idle s)"

definition lock_init :: "nat \<Rightarrow> klock" where
  "lock_init n = \<lparr>wr_acq = 0, rd_cnt = 0, pcs = replicate n Idle\<rparr>"

section \<open>Who keeps a reader out\<close>

text \<open>The announced writers.\<close>

fun announced :: "kpc \<Rightarrow> nat" where
  "announced WWaits = 1"
| "announced WLocked = 1"
| "announced _ = 0"

text \<open>The threads that will still clear the count, or lead to a writer that will.\<close>

fun clearing :: "kpc \<Rightarrow> bool" where
  "clearing (RCounted tmp) = True"
| "clearing RReset = True"
| "clearing WWaits = True"
| "clearing WLocked = True"
| "clearing WLeft = True"
| "clearing _ = False"

fun seen :: "kpc \<Rightarrow> bool" where
  "seen (RSeen tmp) \<longleftrightarrow> tmp > 0"
| "seen (RLoaded tmp v) \<longleftrightarrow> tmp > 0"
| "seen (RCounted tmp) \<longleftrightarrow> tmp > 0"
| "seen _ \<longleftrightarrow> True"

definition lock_inv :: "klock \<Rightarrow> bool" where
  "lock_inv s \<longleftrightarrow> wr_acq s = sum_list (map announced (pcs s)) \<and> (\<forall>p\<in>set (pcs s). seen p) \<and>
     (rd_cnt s > LIMIT \<longrightarrow> (\<exists>p\<in>set (pcs s). clearing p))"

lemma lock_inv_seen: "lock_inv s \<Longrightarrow> i < length (pcs s) \<Longrightarrow> seen (pcs s ! i)"
  by (simp add: lock_inv_def)

lemma announced_update:
  assumes "i < length ps" "announced p = announced (ps ! i)"
  shows "sum_list (map announced (ps[i := p])) = sum_list (map announced ps)"
proof -
  have "(map announced ps)[i := announced p] = map announced ps"
    using assms by (intro list_update_same_conv [THEN iffD2]) simp_all
  then show ?thesis by (simp add: map_update)
qed

lemma announced_add:
  assumes "i < length ps"
  shows "sum_list (map announced (ps[i := p])) + announced (ps ! i) = sum_list (map announced ps) + announced p"
  using assms
proof (induction ps arbitrary: i)
  case (Cons q ps)
  then show ?case by (cases i) auto
qed simp

lemma seen_update: "x \<in> set (ps[i := q]) \<Longrightarrow> \<forall>p\<in>set ps. seen p \<Longrightarrow> seen q \<Longrightarrow> seen x"
  using set_update_subset_insert [of ps i q] by auto

lemma clearing_update:
  "\<exists>p\<in>set ps. clearing p \<Longrightarrow> i < length ps \<Longrightarrow> clearing q \<or> \<not> clearing (ps ! i) \<Longrightarrow> \<exists>p\<in>set (ps[i := q]). clearing p"
  by (metis in_set_conv_nth length_list_update nth_list_update_eq nth_list_update_neq)

lemma announced_exists: "sum_list (map announced ps) > 0 \<Longrightarrow> \<exists>p\<in>set ps. p = WWaits \<or> p = WLocked"
proof (induction ps)
  case (Cons p ps)
  then show ?case by (cases p) auto
qed simp

lemma lock_inv_step: "lstep s s' \<Longrightarrow> lock_inv s \<Longrightarrow> lock_inv s'"
proof (induction rule: lstep.induct)
  case (see i s)
  then show ?case
    by (auto simp: lock_inv_def goto_def announced_update intro: seen_update intro!: clearing_update)
next
  case (load i s tmp)
  have "seen (pcs s ! i)" using load lock_inv_seen by blast
  with load have "tmp > 0" by simp
  then show ?case using load
    by (auto simp: lock_inv_def goto_def announced_update intro: seen_update intro!: clearing_update)
next
  case (count i s tmp v)
  have "seen (pcs s ! i)" using count lock_inv_seen by blast
  with count have "tmp > 0" by simp
  then show ?case using count
    by (auto simp: lock_inv_def goto_def announced_update intro: seen_update intro!: bexI [of _ "RCounted tmp"] set_update_memI)
next
  case (compare i s tmp)
  have "seen (pcs s ! i)" using compare lock_inv_seen by blast
  with compare have t: "tmp > 0" by simp
  have "\<exists>p\<in>set ((pcs s)[i := RSpin]). clearing p" if "tmp = wr_acq s"
  proof -
    have "sum_list (map announced ((pcs s)[i := RSpin])) > 0"
      using compare t that announced_update [of i "pcs s" RSpin] by (simp add: lock_inv_def)
    from announced_exists [OF this] show ?thesis
      by (metis clearing.simps(3) clearing.simps(4))
  qed
  then show ?case using compare
    by (auto simp: lock_inv_def goto_def announced_update intro: seen_update intro!: bexI [of _ RReset] set_update_memI)
next
  case (reset i s)
  then show ?case by (auto simp: lock_inv_def goto_def announced_update LIMIT_def intro: seen_update)
next
  case (pass i s)
  then show ?case by (auto simp: lock_inv_def goto_def announced_update intro: seen_update)
next
  case (r_unlock i s)
  then show ?case by (auto simp: lock_inv_def goto_def announced_update intro: seen_update intro!: clearing_update)
next
  case (announce i s)
  then show ?case using announced_add [of i "pcs s" WWaits]
    by (auto simp: lock_inv_def goto_def intro: seen_update intro!: bexI [of _ WWaits] set_update_memI)
next
  case (w_lock i s)
  then show ?case by (auto simp: lock_inv_def goto_def announced_update intro: seen_update intro!: clearing_update)
next
  case (leave i s)
  then show ?case using announced_add [of i "pcs s" WLeft]
    by (auto simp: lock_inv_def goto_def intro: seen_update intro!: clearing_update)
next
  case (clear i s)
  then show ?case by (auto simp: lock_inv_def goto_def announced_update LIMIT_def intro: seen_update)
next
  case (w_unlock i s)
  then show ?case by (auto simp: lock_inv_def goto_def announced_update intro: seen_update intro!: clearing_update)
qed

interpretation file_lock: safe_steps lstep lock_inv
  by unfold_locales (rule lock_inv_step)

lemma lock_inv_init: "lock_inv (lock_init n)"
proof -
  have "sum_list (map announced (replicate n Idle)) = 0" by (induction n) simp_all
  then show ?thesis by (simp add: lock_inv_def lock_init_def)
qed

text \<open>However readers and writers are interleaved, also in the count that readers update without a lock, a
  reader is held back only while some other thread is about to clear the count: a writer that
  is announced or has just got the lock, or a reader that has still to compare.  So readers are never held back for ever.\<close>

theorem reader_held_back:
  assumes "lstep\<^sup>*\<^sup>* (lock_init n) s" "i < length (pcs s)" "pcs s ! i = RSpin"
  shows "(\<exists>s'. lstep s s' \<and> pcs s' = (pcs s)[i := RIn]) \<or>
    (\<exists>j<length (pcs s). j \<noteq> i \<and> clearing (pcs s ! j) \<and> (\<exists>s' p. lstep s s' \<and> pcs s' = (pcs s)[j := p]))"
proof (cases "rd_cnt s \<le> LIMIT")
  case True
  then show ?thesis using lstep.pass [OF assms(2,3)] by (auto simp: goto_def)
next
  case False
  then obtain j where j: "j < length (pcs s)" "clearing (pcs s ! j)"
    using file_lock.reach [OF assms(1) lock_inv_init] by (auto simp: lock_inv_def in_set_conv_nth)
  have "\<exists>s' p. lstep s s' \<and> pcs s' = (pcs s)[j := p]"
    using j lstep.compare [OF j(1)] lstep.reset [OF j(1)] lstep.w_lock [OF j(1)] lstep.leave [OF j(1)] lstep.clear [OF j(1)]
    by (cases "pcs s ! j") (force simp: goto_def)+
  moreover have "j \<noteq> i" using j(2) assms(3) by auto
  ultimately show ?thesis using j by blast
qed

end
