(* ===== verification/Sperf_Main.thy ===== *)
theory Sperf_Main
  imports Sperf
begin

text \<open>
  The main loop of \<^verbatim>\<open>sperf/sperf.c\<close>: the arguments for \<^verbatim>\<open>strace\<close> and what becomes of every line that it
  writes.  The regular expressions, the number parser and the formatting of a line are parameters, as are
  the clock and the allocator, whose answers come with each line.
\<close>

section \<open>The command that is traced\<close>

definition strace_args :: "string \<Rightarrow> string list \<Rightarrow> string list" where
  "strace_args file argv = ''/usr/bin/strace'' # [''-T'', ''-o'', file] @ tl argv"

section \<open>Reading the trace\<close>

text \<open>Where a regular expression matches, from and up to.\<close>

type_synonym regex = "string \<Rightarrow> (nat \<times> nat) option"

record 't patterns =
  name_re :: regex
  num_re :: regex
  exit_pat :: regex
  atof :: "string \<Rightarrow> 't"

text \<open>The time of the clock, a line, and the address \<^verbatim>\<open>malloc\<close> gives if it is asked.\<close>

type_synonym trace = "(nat \<times> string \<times> nat) list"

record 't sperf =
  calls :: "'t ring"
  oldtime :: nat
  shown :: string

text \<open>The ways the loop ends.\<close>

datatype run_end = Exited string | Read_error string

definition show_sorted :: "(string \<Rightarrow> 't \<Rightarrow> 't \<Rightarrow> string) \<Rightarrow> 't::linorder sperf \<Rightarrow> 't sperf option" where
  "show_sorted line st = do {
     h \<leftarrow> sort_ring (calls st);
     t \<leftarrow> display line h;
     Some (st\<lparr>calls := h, shown := shown st @ t\<rparr>)}"

definition tick :: "(string \<Rightarrow> 't \<Rightarrow> 't \<Rightarrow> string) \<Rightarrow> nat \<Rightarrow> 't::linorder sperf \<Rightarrow> 't sperf option" where
  "tick line now st = (if now > oldtime st then show_sorted line (st\<lparr>oldtime := now\<rparr>) else Some st)"

text \<open>The name is copied into 20 bytes; the bracket that follows it gives way to the terminator.\<close>

definition call_name :: "string \<Rightarrow> nat \<Rightarrow> nat \<Rightarrow> string option" where
  "call_name s so eo = (if eo - so \<le> 20 then Some (take (eo - so - 1) (drop so s)) else None)"

definition note_call :: "'t patterns \<Rightarrow> 't \<Rightarrow> ('t \<Rightarrow> 't \<Rightarrow> 't) \<Rightarrow> string \<Rightarrow> nat \<Rightarrow> 't ring \<Rightarrow> 't ring option" where
  "note_call re zero add s new h =
     (case name_re re s of
        None \<Rightarrow> Some h
      | Some (so, eo) \<Rightarrow> do {
          call \<leftarrow> call_name s so eo;
          (case num_re re s of
             None \<Rightarrow> Some h
           | Some (so', eo') \<Rightarrow> record_call zero add new call (atof re (drop (so' + 1) s)) h)})"

fun trace_loop :: "'t patterns \<Rightarrow> 't \<Rightarrow> ('t \<Rightarrow> 't \<Rightarrow> 't) \<Rightarrow> (string \<Rightarrow> 't \<Rightarrow> 't \<Rightarrow> string) \<Rightarrow> string \<Rightarrow>
    trace \<Rightarrow> 't::linorder sperf \<Rightarrow> run_end option" where
  "trace_loop re zero add line prog [] st = Some (Read_error (shown st))"
| "trace_loop re zero add line prog ((now, s, new) # rest) st = do {
     st1 \<leftarrow> tick line now st;
     (case exit_pat re s of
        Some (so, eo) \<Rightarrow> do {
          st2 \<leftarrow> show_sorted line st1;
          Some (Exited (shown st2 @ prog @ '' :'' @ take (eo - so) (drop so s) @ [CHR 0x0a]))}
      | None \<Rightarrow> do {
          h \<leftarrow> note_call re zero add s new (calls st1);
          trace_loop re zero add line prog rest (st1\<lparr>calls := h\<rparr>)})}"

definition empty_ring :: "'t \<Rightarrow> 't ring" where
  "empty_ring zero = \<lparr>node_name = (\<lambda>_. [CHR 0x01]), nxt = (\<lambda>_. head), time = (\<lambda>_. zero), total_time = zero\<rparr>"

definition sperf_main :: "'t::linorder patterns \<Rightarrow> 't \<Rightarrow> ('t \<Rightarrow> 't \<Rightarrow> 't) \<Rightarrow> (string \<Rightarrow> 't \<Rightarrow> 't \<Rightarrow> string) \<Rightarrow> string \<Rightarrow>
    trace \<Rightarrow> run_end option" where
  "sperf_main re zero add line prog input =
     trace_loop re zero add line prog input \<lparr>calls = empty_ring zero, oldtime = 0, shown = []\<rparr>"

section \<open>A guard with a time\<close>

text \<open>With two nodes behind a guard that has got more time than the second, the sort first brings the second
  in front of the first and then back, for ever.\<close>

lemma sort_hangs_aux:
  fixes h :: "'t::linorder ring"
  assumes "sort_from p h = Some h'" "a \<noteq> head" "b \<noteq> head" "a \<noteq> b"
  shows "time h b < time h a \<longrightarrow> time h b < time h head \<longrightarrow> \<not> (p = head \<and> nxt h head = a \<and> nxt h a = b \<and> nxt h b = head \<or>
    p = a \<and> nxt h head = b \<and> nxt h b = a \<and> nxt h a = head)"
    (is "?P p h h'")
proof (rule sort_from.raw_induct [where P = ?P, OF _ assms(1)])
  fix sf :: "nat \<Rightarrow> 't ring \<Rightarrow> 't ring option" and p h h'
  assume 1: "\<And>p h h'. sf p h = Some h' \<Longrightarrow> ?P p h h'"
    "(if p = nxt h head then Some h else do {(r, h') \<leftarrow> sort_pass p (nxt h head) head h; sf r h'}) = Some h'"
  show "?P p h h'"
  proof (intro impI notI, erule disjE)
    assume t: "time h b < time h a" "time h b < time h head"
    assume r: "p = head \<and> nxt h head = a \<and> nxt h a = b \<and> nxt h b = head"
    define g where "g = swap a b head h"
    have g: "nxt g head = b" "nxt g b = a" "nxt g a = head" "time g = time h"
      using r t assms(2-4) by (simp_all add: g_def swap_def swap_next_def Let_def)
    have "sort_pass head a head h = sort_pass head b a h"
      using r t assms(2-4) by (subst sort_pass.simps) (auto dest: less_asym)
    also have "\<dots> = sort_pass head (nxt g a) a g"
      using r t assms(2-4) by (subst sort_pass.simps) (simp add: g_def Let_def)
    also have "\<dots> = Some (a, g)" by (subst sort_pass.simps) (simp add: g(3))
    finally have "sf a g = Some h'" using 1(2) r assms(2-4) by simp
    then show False using 1(1) [of a g h'] g t by simp
  next
    assume t: "time h b < time h a" "time h b < time h head"
    assume r: "p = a \<and> nxt h head = b \<and> nxt h b = a \<and> nxt h a = head"
    define g where "g = swap head b a h"
    have g: "nxt g head = a" "nxt g b = head" "nxt g a = b" "time g = time h"
      using r t assms(2-4) by (simp_all add: g_def swap_def swap_next_def Let_def)
    have "sort_pass a b head h = sort_pass a (nxt g head) head g"
      using r t assms(2-4) by (subst sort_pass.simps) (simp add: g_def Let_def)
    also have "\<dots> = Some (head, g)" by (subst sort_pass.simps) (simp add: g(1))
    finally have "sf head g = Some h'" using 1(2) r assms(2-4) by simp
    then show False using 1(1) [of head g h'] g t by simp
  qed
qed

lemma sort_hangs:
  assumes "ring_of h [a, b]" "time h b < time h a" "time h b < time h head"
  shows "sort_ring h = None"
proof (cases "sort_ring h")
  case (Some h')
  then have "sort_from head h = Some h'" by (simp add: sort_ring_def)
  from sort_hangs_aux [OF this, of a b] show ?thesis using assms by (auto simp: ring_of_def)
qed simp

text \<open>Three calls are enough: the time of the second \<open>a\<close> is added to the guard.\<close>

lemma three_calls_hang:
  fixes x y z :: nat
  assumes "a \<noteq> b" "[CHR 0x01] \<notin> {a, b}" "m \<noteq> n" "head \<notin> {m, n}" "y < x" "y < z"
  shows "do {h1 \<leftarrow> record_call 0 (+) m a x (empty_ring 0);
             h2 \<leftarrow> record_call 0 (+) n b y h1;
             h3 \<leftarrow> record_call 0 (+) k a z h2;
             sort_ring h3} = None"
proof -
  define h1 where "h1 = \<lparr>node_name = (\<lambda>_. [CHR 0x01])(m := a), nxt = (\<lambda>_. head)(head := m, m := head),
    time = (\<lambda>_. 0 :: nat)(m := x), total_time = x\<rparr>"
  define h2 where "h2 = \<lparr>node_name = (node_name h1)(n := b), nxt = (nxt h1)(m := n, n := head),
    time = (time h1)(n := y), total_time = x + y\<rparr>"
  define h3 where "h3 = h2\<lparr>time := (time h2)(head := z), total_time := x + y + z\<rparr>"
  have "find_call a head (empty_ring 0 :: nat ring) = Some (head, head)"
    by (subst find_call.simps) (simp add: empty_ring_def)
  then have 1: "record_call 0 (+) m a x (empty_ring 0) = Some h1"
    using assms by (simp add: record_call_def empty_ring_def h1_def fun_eq_iff)
  have "ring_of h1 [m]" "ring_of h2 [m, n]" using assms by (auto simp: ring_of_def h1_def h2_def)
  have "find_call b head h1 = Some (m, head)"
    using find_call_row [of h1 head "[m]" "[]" b] \<open>ring_of h1 [m]\<close> assms by (auto simp: ring_of_def h1_def)
  then have 2: "record_call 0 (+) n b y h1 = Some h2"
    using assms by (simp add: record_call_def h1_def h2_def fun_eq_iff)
  have 3: "record_call 0 (+) k a z h2 = Some h3"
    using record_known_call [of h2 "[]" m "[n]" a 0 "(+)" k z] \<open>ring_of h2 [m, n]\<close> assms
    by (simp add: h3_def h2_def h1_def fun_eq_iff)
  have "sort_ring h3 = None"
    by (rule sort_hangs [of h3 m n]) (use \<open>ring_of h2 [m, n]\<close> assms in \<open>auto simp: ring_of_def h3_def h2_def h1_def\<close>)
  then show ?thesis using 1 2 3 by simp
qed

end
