(* ===== verification/Pstree_Proc.thy ===== *)
theory Pstree_Proc
  imports Pstree
begin

text \<open>
  How \<^verbatim>\<open>make_tree\<close> of \<^verbatim>\<open>pstree/pstree.c\<close> reads \<^verbatim>\<open>/proc\<close>: directories are lists of names, a file is its
  text, scanned as \<^verbatim>\<open>fscanf\<close> and \<^verbatim>\<open>fgets\<close> do.  \<open>None\<close> is a failing assertion, an access outside a buffer
  or the table, or a scan that never ends.
\<close>

section \<open>Scanning a text\<close>

definition space :: "char \<Rightarrow> bool" where
  "space c \<longleftrightarrow> c \<in> {CHR 0x20, CHR 0x09, CHR 0x0a, CHR 0x0b, CHR 0x0c, CHR 0x0d}"

definition digit :: "char \<Rightarrow> bool" where
  "digit c \<longleftrightarrow> (of_char c :: nat) \<in> {0x30..0x39}"

text \<open>The characters of the format before a conversion; what was read before a mismatch is gone.\<close>

fun scan_lit :: "string \<Rightarrow> string \<Rightarrow> bool \<times> string" where
  "scan_lit [] s = (True, s)"
| "scan_lit (c # cs) s =
     (if space c then scan_lit cs (dropWhile space s)
      else case s of
        [] \<Rightarrow> (False, [])
      | d # ds \<Rightarrow> if c = d then scan_lit cs ds else (False, s))"

definition digits_value :: "string \<Rightarrow> nat" where
  "digits_value ds = foldl (\<lambda>v c. 10 * v + (of_char c - 48)) 0 ds"

definition scan_sign :: "string \<Rightarrow> int \<times> string" where
  "scan_sign s =
     (case s of
        [] \<Rightarrow> (1, [])
      | c # cs \<Rightarrow> if c = CHR ''-'' then (- 1, cs) else if c = CHR ''+'' then (1, cs) else (1, s))"

definition scan_int :: "string \<Rightarrow> int option \<times> string" where
  "scan_int s =
     (let (sgn, s1) = scan_sign (dropWhile space s); ds = takeWhile digit s1
      in (if ds = [] then None else Some (sgn * int (digits_value ds)), dropWhile digit s1))"

text \<open>The rest of a line, of at most \<open>n\<close> characters.\<close>

fun drop_line :: "nat \<Rightarrow> string \<Rightarrow> string" where
  "drop_line n [] = []"
| "drop_line 0 s = s"
| "drop_line (Suc n) (c # cs) = (if c = CHR 0x0a then cs else drop_line n cs)"

definition MAXN :: nat where "MAXN = 100"

text \<open>Line by line until the format matches.\<close>

partial_function (option) find_field :: "string \<Rightarrow> string \<Rightarrow> (int \<times> string) option" where
  "find_field fmt s =
     (let (ok, r) = scan_lit fmt s; (v, r') = (if ok then scan_int r else (None, r))
      in case v of Some x \<Rightarrow> Some (x, r') | None \<Rightarrow> find_field fmt (drop_line (MAXN - 1) r'))"

definition name_key :: string where "name_key = ''Name:'' @ [CHR 0x09]"
definition pid_key :: string where "pid_key = ''Pid:'' @ [CHR 0x09]"
definition ppid_key :: string where "ppid_key = ''PPid:'' @ [CHR 0x09]"

text \<open>The name goes into 50 bytes; where the format does not match, they keep what they held.\<close>

definition scan_name :: "string \<Rightarrow> string \<Rightarrow> (string \<times> string) option" where
  "scan_name proname s =
     (case scan_lit name_key s of
        (False, r) \<Rightarrow> Some (proname, r)
      | (True, r) \<Rightarrow>
          (let r1 = dropWhile space r; w = takeWhile (\<lambda>c. \<not> space c) r1
           in if w = [] then Some (proname, r1)
              else if length w < 50 then Some (w, dropWhile (\<lambda>c. \<not> space c) r1)
              else None))"

section \<open>The directory of processes\<close>

record task_entry =
  t_name :: string
  t_status :: "string option"

record proc_entry =
  d_name :: string
  p_status :: "string option"
  p_tasks :: "task_entry list option"

text \<open>The name last read, and the table of processes.\<close>

type_synonym reading = "string \<times> (nat \<rightharpoonup> proc)"

definition index :: "int \<Rightarrow> nat option" where
  "index v = (if 0 \<le> v \<and> v < 2 ^ 16 then Some (nat v) else None)"

definition enter_pid :: "nat \<Rightarrow> (nat \<rightharpoonup> proc) \<Rightarrow> (nat \<rightharpoonup> proc)" where
  "enter_pid i info = (if info i = None then init_pid i info else info)"

definition name_process :: "nat \<Rightarrow> string \<Rightarrow> (nat \<rightharpoonup> proc) \<Rightarrow> (nat \<rightharpoonup> proc)" where
  "name_process i s info =
     (case info i of
        Some p \<Rightarrow> if name p = None then info(i \<mapsto> p\<lparr>name := Some s\<rparr>) else info
      | None \<Rightarrow> info)"

definition name_thread :: "nat \<Rightarrow> string \<Rightarrow> (nat \<rightharpoonup> proc) \<Rightarrow> (nat \<rightharpoonup> proc)" where
  "name_thread i s info =
     (case info i of
        Some p \<Rightarrow> if name p = None then info(i \<mapsto> p\<lparr>name := Some (''{'' @ s @ ''}''), cnt := 1\<rparr>) else info
      | None \<Rightarrow> info)"

definition read_task :: "flags \<Rightarrow> nat \<Rightarrow> task_entry \<Rightarrow> reading \<Rightarrow> reading option" where
  "read_task f ppid t st =
     (if digit_judge (t_name t) then
        (case t_status t of
           None \<Rightarrow> Some st
         | Some s \<Rightarrow> do {
             (w, s1) \<leftarrow> scan_name (fst st) s;
             (v, _) \<leftarrow> find_field pid_key s1;
             if v = int ppid then Some (w, snd st)
             else do {
               i \<leftarrow> index v;
               info \<leftarrow> add_sonpro f ppid i (name_thread i w (enter_pid i (snd st)));
               Some (w, info)}})
      else Some st)"

fun read_tasks :: "flags \<Rightarrow> nat \<Rightarrow> task_entry list \<Rightarrow> reading \<Rightarrow> reading option" where
  "read_tasks f ppid [] st = Some st"
| "read_tasks f ppid (t # ts) st = do {st' \<leftarrow> read_task f ppid t st; read_tasks f ppid ts st'}"

definition link_process :: "flags \<Rightarrow> nat \<Rightarrow> int \<Rightarrow> (nat \<rightharpoonup> proc) \<Rightarrow> (nat \<rightharpoonup> proc) option" where
  "link_process f i ppid info =
     (if ppid > 0 then do {j \<leftarrow> index ppid; add_sonpro f j i (enter_pid j info)} else Some info)"

definition read_proc :: "flags \<Rightarrow> proc_entry \<Rightarrow> reading \<Rightarrow> reading option" where
  "read_proc f e st =
     (if digit_judge (d_name e) then
        (case p_status e of
           None \<Rightarrow> Some st
         | Some s \<Rightarrow> do {
             (w, s1) \<leftarrow> scan_name (fst st) s;
             (v, s2) \<leftarrow> find_field pid_key s1;
             i \<leftarrow> index v;
             let info = name_process i w (enter_pid i (snd st));
             (ppid, _) \<leftarrow> find_field ppid_key s2;
             info' \<leftarrow> link_process f i ppid info;
             ts \<leftarrow> p_tasks e;
             read_tasks f i ts (w, info')})
      else Some st)"

fun read_procs :: "flags \<Rightarrow> proc_entry list \<Rightarrow> reading \<Rightarrow> reading option" where
  "read_procs f [] st = Some st"
| "read_procs f (e # es) st = do {st' \<leftarrow> read_proc f e st; read_procs f es st'}"

text \<open>\<open>junk\<close> is what the buffer for names holds at first.\<close>

definition make_tree :: "flags \<Rightarrow> string \<Rightarrow> proc_entry list \<Rightarrow> (nat \<rightharpoonup> proc) option" where
  "make_tree f junk es = map_option snd (read_procs f es (junk, \<lambda>_. None))"

definition pstree_main :: "string list \<Rightarrow> string \<Rightarrow> proc_entry list \<Rightarrow> (handler + string) + drawing option" where
  "pstree_main args junk es =
     (case main_args args \<lparr>by_num = False, show_pids = False\<rparr> of
        Ends h \<Rightarrow> Inl (Inl h)
      | Unsupported a \<Rightarrow> Inl (Inr a)
      | Go f \<Rightarrow> Inr (do {
          info \<leftarrow> make_tree f junk es;
          print_tree f info 1 True True
            \<lparr>levels = 0, blank_len = replicate MAX_DEP 0, bar_exist = replicate MAX_DEP False, out = []\<rparr>}))"

section \<open>What the kernel writes is what is read\<close>

definition unlines :: "string list \<Rightarrow> string" where
  "unlines ls = concat (map (\<lambda>l. l @ [CHR 0x0a]) ls)"

text \<open>A status file: the name, some lines, the number, the number of the parent, and the rest.\<close>

definition status_text :: "string \<Rightarrow> nat \<Rightarrow> nat \<Rightarrow> string list \<Rightarrow> string \<Rightarrow> string" where
  "status_text s i pp ls rest =
     name_key @ s @ [CHR 0x0a] @ unlines ls @ pid_key @ decimal i @ [CHR 0x0a] @ ppid_key @ decimal pp @ [CHR 0x0a] @ rest"

definition plain_name :: "string \<Rightarrow> bool" where
  "plain_name s \<longleftrightarrow> s \<noteq> [] \<and> length s < 50 \<and> (\<forall>c\<in>set s. \<not> space c \<and> c \<noteq> CHR 0x00)"

definition plain_line :: "string \<Rightarrow> bool" where
  "plain_line l \<longleftrightarrow> length l < 99 \<and> CHR 0x0a \<notin> set l \<and> take 1 l \<noteq> ''P''"

declare decimal.simps [simp del]

lemma decimal_digits: "\<forall>c\<in>set (decimal n). digit c"
  by (induction n rule: decimal.induct) (subst decimal.simps, auto simp: digit_def of_char_of)

lemma digit_not_space: "digit c \<Longrightarrow> \<not> space c"
  by (auto simp: digit_def space_def)

lemma decimal_not_Nil [simp]: "decimal n \<noteq> []"
  by (subst decimal.simps) simp

lemma decimal_value: "digits_value (decimal n) = n"
proof (induction n rule: decimal.induct)
  case (1 n)
  have "digits_value (decimal n) = 10 * (if n < 10 then 0 else digits_value (decimal (n div 10))) + n mod 10"
    by (subst decimal.simps) (simp add: digits_value_def of_char_of)
  then show ?case using 1 by auto
qed

lemma scan_int_decimal: "scan_int (decimal n @ CHR 0x0a # rest) = (Some (int n), CHR 0x0a # rest)"
proof -
  obtain c cs where c: "decimal n = c # cs" by (metis decimal_not_Nil neq_Nil_conv)
  have d: "\<forall>c\<in>set (decimal n). digit c" by (rule decimal_digits)
  have "\<not> space c" "c \<noteq> CHR ''-''" "c \<noteq> CHR ''+''" using d c by (auto simp: space_def digit_def)
  moreover have "takeWhile digit (decimal n @ CHR 0x0a # rest) = decimal n"
    "dropWhile digit (decimal n @ CHR 0x0a # rest) = CHR 0x0a # rest"
    using d by (auto simp: digit_def)
  ultimately show ?thesis using c decimal_value [of n] by (simp add: scan_int_def scan_sign_def Let_def)
qed

lemma drop_line_unlines: "length l < n \<Longrightarrow> CHR 0x0a \<notin> set l \<Longrightarrow> drop_line n (l @ CHR 0x0a # s) = s"
proof (induction l arbitrary: n)
  case Nil
  then show ?case by (cases n) auto
next
  case (Cons c l)
  then show ?case by (cases n) auto
qed

lemma find_skips:
  assumes "\<forall>l\<in>set ls. plain_line l"
  shows "find_field (CHR ''P'' # k) (unlines ls @ s) = find_field (CHR ''P'' # k) s"
  using assms
proof (induction ls)
  case (Cons l ls)
  have "scan_lit (CHR ''P'' # k) (unlines (l # ls) @ s) = (False, unlines (l # ls) @ s)"
    using Cons.prems by (cases l) (auto simp: unlines_def space_def plain_line_def)
  moreover have "drop_line (MAXN - 1) (unlines (l # ls) @ s) = unlines ls @ s"
    using drop_line_unlines [of l 99 "unlines ls @ s"] Cons.prems by (simp add: unlines_def plain_line_def MAXN_def)
  ultimately have "find_field (CHR ''P'' # k) (unlines (l # ls) @ s) = find_field (CHR ''P'' # k) (unlines ls @ s)"
    by (subst find_field.simps) simp
  then show ?case using Cons by simp
qed (simp add: unlines_def)

lemma scan_lit_same: "(\<forall>c\<in>set k. \<not> space c) \<Longrightarrow> scan_lit (k @ r) (k @ s) = scan_lit r s"
  by (induction k) auto

lemma scan_key:
  assumes "\<forall>c\<in>set k. \<not> space c" "s = [] \<or> \<not> space (hd s)"
  shows "scan_lit (k @ [CHR 0x09]) (k @ CHR 0x09 # s) = (True, s)"
  using assms by (cases s) (auto simp: scan_lit_same space_def)

lemma find_here:
  assumes "\<forall>c\<in>set k. \<not> space c"
  shows "find_field (k @ [CHR 0x09]) (k @ CHR 0x09 # decimal n @ CHR 0x0a # rest) = Some (int n, CHR 0x0a # rest)"
proof -
  have "digit (hd (decimal n))" using decimal_digits [of n] hd_in_set [OF decimal_not_Nil [of n]] by blast
  then have "\<not> space (hd (decimal n))" by (rule digit_not_space)
  then have "scan_lit (k @ [CHR 0x09]) (k @ CHR 0x09 # decimal n @ CHR 0x0a # rest) = (True, decimal n @ CHR 0x0a # rest)"
    using assms by (intro scan_key) simp_all
  then show ?thesis by (subst find_field.simps) (simp add: scan_int_decimal)
qed

lemma scan_status:
  assumes "plain_name s" "\<forall>l\<in>set ls. plain_line l"
  shows "scan_name junk (status_text s i pp ls rest) =
      Some (s, CHR 0x0a # unlines ls @ pid_key @ decimal i @ CHR 0x0a # ppid_key @ decimal pp @ CHR 0x0a # rest)"
    "find_field pid_key (CHR 0x0a # unlines ls @ pid_key @ decimal i @ CHR 0x0a # ppid_key @ decimal pp @ CHR 0x0a # rest) =
      Some (int i, CHR 0x0a # ppid_key @ decimal pp @ CHR 0x0a # rest)"
    "find_field ppid_key (CHR 0x0a # ppid_key @ decimal pp @ CHR 0x0a # rest) = Some (int pp, CHR 0x0a # rest)"
proof -
  have "\<not> space (hd s)" "s \<noteq> []" using assms(1) by (auto simp: plain_name_def)
  then have "scan_lit name_key (name_key @ s @ CHR 0x0a # r) = (True, s @ CHR 0x0a # r)" for r
    using scan_key [of "''Name:''" "s @ CHR 0x0a # r"] by (simp add: name_key_def space_def)
  moreover have "dropWhile space (s @ CHR 0x0a # r) = s @ CHR 0x0a # r" for r
    using \<open>\<not> space (hd s)\<close> \<open>s \<noteq> []\<close> by (cases s) auto
  moreover have "takeWhile (\<lambda>c. \<not> space c) (s @ CHR 0x0a # r) = s" "dropWhile (\<lambda>c. \<not> space c) (s @ CHR 0x0a # r) = CHR 0x0a # r" for r
    using assms(1) by (auto simp: plain_name_def space_def)
  ultimately show "scan_name junk (status_text s i pp ls rest) =
      Some (s, CHR 0x0a # unlines ls @ pid_key @ decimal i @ CHR 0x0a # ppid_key @ decimal pp @ CHR 0x0a # rest)"
    using assms(1) \<open>s \<noteq> []\<close> by (simp add: scan_name_def status_text_def Let_def plain_name_def)
  have p: "\<forall>l\<in>set ([] # ls). plain_line l" using assms(2) by (simp add: plain_line_def)
  have n: "CHR 0x0a # r = unlines [[]] @ r" for r by (simp add: unlines_def)
  have n': "CHR 0x0a # unlines ls @ r = unlines ([] # ls) @ r" for r by (simp add: unlines_def)
  show "find_field pid_key (CHR 0x0a # unlines ls @ pid_key @ decimal i @ CHR 0x0a # ppid_key @ decimal pp @ CHR 0x0a # rest) =
      Some (int i, CHR 0x0a # ppid_key @ decimal pp @ CHR 0x0a # rest)"
    using find_skips [OF p, of "''id:'' @ [CHR 0x09]"] find_here [of "''Pid:''" i "ppid_key @ decimal pp @ CHR 0x0a # rest"]
    by (simp add: n' pid_key_def space_def)
  show "find_field ppid_key (CHR 0x0a # ppid_key @ decimal pp @ CHR 0x0a # rest) = Some (int pp, CHR 0x0a # rest)"
    using find_skips [of "[[]]" "''Pid:'' @ [CHR 0x09]"] find_here [of "''PPid:''" pp rest]
    by (simp add: n plain_line_def ppid_key_def space_def)
qed

section \<open>The forest of processes\<close>

definition kids :: "(nat \<times> string \<times> nat) list \<Rightarrow> nat \<Rightarrow> nat list" where
  "kids P q = map fst (filter (\<lambda>(i, s, pp). pp = q \<and> pp > 0) P)"

text \<open>The processes read so far are named and their sons in order; what is only known as a parent has no name.\<close>

definition rows :: "(nat \<rightharpoonup> proc) \<Rightarrow> (nat \<times> string \<times> nat) list \<Rightarrow> bool" where
  "rows info P \<longleftrightarrow> (\<forall>q p. info q = Some p \<longrightarrow> cnt p = 0 \<and>
     (\<exists>ys. row info (son p) ys \<and> mset ys = mset (kids P q) \<and> sorted (map (key info) ys)))"

definition forest :: "(nat \<rightharpoonup> proc) \<Rightarrow> (nat \<times> string \<times> nat) list \<Rightarrow> bool" where
  "forest info P \<longleftrightarrow> distinct (map fst P) \<and>
     (\<forall>i s pp. (i, s, pp) \<in> set P \<longrightarrow> i \<noteq> pp \<and> (\<exists>p. info i = Some p \<and> name p = Some s) \<and> (pp > 0 \<longrightarrow> info pp \<noteq> None)) \<and>
     (\<forall>q p. info q = Some p \<and> q \<notin> fst ` set P \<longrightarrow> name p = None \<and> bro p = None) \<and> rows info P"

lemma kids_members: "set (kids P q) \<subseteq> fst ` set P"
  by (auto simp: kids_def)

lemma kids_snoc: "kids (P @ [(i, s, pp)]) q = kids P q @ (if pp = q \<and> pp > 0 then [i] else [])"
  by (simp add: kids_def)

lemma kids_distinct: "distinct (map fst P) \<Longrightarrow> distinct (kids P q)"
  by (simp add: kids_def distinct_map_filter)

lemma kids_disjoint: "distinct (map fst P) \<Longrightarrow> x \<in> set (kids P q) \<Longrightarrow> x \<in> set (kids P r) \<Longrightarrow> q = r"
  by (auto simp: kids_def dest: eq_key_imp_eq_value)

text \<open>Changing one record that is nobody's son keeps the other rows.\<close>

lemma rows_put:
  assumes "rows info P" "i \<notin> fst ` set P" "cnt p = 0"
    and "(\<exists>q. info i = Some q \<and> son q = son p) \<or> info i = None \<and> kids P i = [] \<and> son p = None"
  shows "rows (info(i \<mapsto> p)) P"
  unfolding rows_def
proof (intro allI impI)
  fix q r assume r: "(info(i \<mapsto> p)) q = Some r"
  have same: "row (info(i \<mapsto> p)) x ys = row info x ys" "map (key (info(i \<mapsto> p))) ys = map (key info) ys"
    if "mset ys = mset (kids P u)" for x ys u
  proof -
    have "i \<notin> set ys" using mset_eq_setD [OF that] kids_members [of P u] assms(2) by auto
    then show "row (info(i \<mapsto> p)) x ys = row info x ys" by (intro row_cong) auto
    show "map (key (info(i \<mapsto> p))) ys = map (key info) ys" using \<open>i \<notin> set ys\<close> by (auto simp: key_def)
  qed
  show "cnt r = 0 \<and> (\<exists>ys. row (info(i \<mapsto> p)) (son r) ys \<and> mset ys = mset (kids P q) \<and> sorted (map (key (info(i \<mapsto> p))) ys))"
  proof (cases "\<exists>q'. info q = Some q' \<and> son q' = son r")
    case True
    then obtain ys where "row info (son r) ys" "mset ys = mset (kids P q)" "sorted (map (key info) ys)"
      using assms(1) unfolding rows_def by metis
    moreover have "cnt r = 0" using r assms(1,3) by (auto simp: rows_def split: if_splits)
    ultimately show ?thesis using same by metis
  next
    case False
    then have "kids P q = []" "son r = None" "cnt r = 0" using r assms(3,4) by (auto split: if_splits)
    then show ?thesis by (intro conjI exI [where x = "[]"]) simp_all
  qed
qed

lemma forest_entry:
  assumes "forest info P" "(i, s, pp) \<in> set P"
  shows "i \<noteq> pp" "\<exists>p. info i = Some p \<and> name p = Some s" "pp > 0 \<Longrightarrow> info pp \<noteq> None"
  using assms unfolding forest_def by blast+

lemma forest_kids_Nil: "forest info P \<Longrightarrow> info j = None \<Longrightarrow> kids P j = []"
  by (auto simp: kids_def filter_empty_conv dest: forest_entry(3))

lemma forest_enter:
  assumes "forest info P"
  shows "forest (enter_pid j info) P"
proof (cases "info j")
  case None
  then have "j \<notin> fst ` set P" using assms by (auto dest: forest_entry(2))
  moreover have "rows (info(j \<mapsto> \<lparr>pid = j, cnt = 0, name = None, son = None, bro = None\<rparr>)) P"
    using None assms calculation forest_kids_Nil [OF assms None] by (intro rows_put) (simp_all add: forest_def)
  ultimately show ?thesis using None assms unfolding forest_def enter_pid_def init_pid_def
    by (auto simp: rev_image_eqI)
qed (use assms in \<open>simp add: enter_pid_def\<close>)

lemma forest_name:
  assumes "forest info P" "i \<notin> fst ` set P" "info i \<noteq> None"
  shows "\<exists>q. name_process i s info i = Some q \<and> name q = Some s \<and> bro q = None" "rows (name_process i s info) P"
    "x \<noteq> i \<Longrightarrow> name_process i s info x = info x"
proof -
  obtain p where p: "info i = Some p" "name p = None" "bro p = None" using assms by (auto simp: forest_def)
  then have i: "name_process i s info = info(i \<mapsto> p\<lparr>name := Some s\<rparr>)" by (simp add: name_process_def)
  show "\<exists>q. name_process i s info i = Some q \<and> name q = Some s \<and> bro q = None" using p by (simp add: i)
  show "x \<noteq> i \<Longrightarrow> name_process i s info x = info x" by (simp add: i)
  have "rows info P" using assms(1) by (simp add: forest_def)
  moreover have "cnt p = 0" using calculation p by (auto simp: rows_def)
  ultimately show "rows (name_process i s info) P" unfolding i by (intro rows_put assms(2)) (use p in simp_all)
qed

lemma rows_linked:
  assumes "rows info P" "distinct (map fst (P @ [(i, s, pp)]))" "pp > 0" "linked pp i xs info info'"
    and "mset xs = mset (kids P pp)"
  shows "rows info' (P @ [(i, s, pp)])"
  unfolding rows_def
proof (intro allI impI)
  fix q p assume q: "info' q = Some p"
  have l: "\<And>x. map_option cnt (info' x) = map_option cnt (info x)" "key info' = key info"
    "\<And>x. x \<notin> set (i # xs) \<Longrightarrow> map_option bro (info' x) = map_option bro (info x)"
    "\<And>x. x \<noteq> pp \<Longrightarrow> map_option son (info' x) = map_option son (info x)"
    using assms(4) by (auto simp: linked_def)
  have "cnt p = 0" using l(1) [of q] q assms(1) by (cases "info q") (auto simp: rows_def)
  moreover have "\<exists>ys. row info' (son p) ys \<and> mset ys = mset (kids (P @ [(i, s, pp)]) q) \<and> sorted (map (key info') ys)"
  proof (cases "q = pp")
    case True
    obtain p' ys where "info' pp = Some p'" "row info' (son p') ys" "mset ys = mset (i # xs)" "sorted (map (key info') ys)"
      using assms(4) unfolding linked_def by blast
    then show ?thesis using True q assms(3,5) by (auto simp: kids_snoc intro!: exI [where x = ys])
  next
    case False
    then obtain p0 where p0: "info q = Some p0" "son p0 = son p" using l(4) [OF False] q by (cases "info q") auto
    then obtain ys where ys: "row info (son p) ys" "mset ys = mset (kids P q)" "sorted (map (key info) ys)"
      using assms(1) unfolding rows_def by metis
    have "map_option bro (info' x) = map_option bro (info x)" if "x \<in> set ys" for x
    proof (rule l(3))
      have "x \<in> set (kids P q)" using that mset_eq_setD [OF ys(2)] by simp
      then have "x \<notin> set (kids P pp)" "x \<in> fst ` set P"
        using kids_disjoint [of P x q pp] kids_members [of P q] assms(2) False by auto
      then show "x \<notin> set (i # xs)" using mset_eq_setD [OF assms(5)] assms(2) by auto
    qed
    then have "row info' (son p) ys" using ys(1) row_cong [of ys info' info "son p"] by simp
    then show ?thesis using ys False l(2) by (auto simp: kids_snoc)
  qed
  ultimately show "cnt p = 0 \<and> (\<exists>ys. row info' (son p) ys \<and> mset ys = mset (kids (P @ [(i, s, pp)]) q) \<and> sorted (map (key info') ys))"
    by blast
qed

lemma rows_snoc_root: "rows info P \<Longrightarrow> rows info (P @ [(i, s, 0)])"
  by (simp add: rows_def kids_snoc)

lemma enter_name_swap:
  "i \<noteq> j \<Longrightarrow> enter_pid j (name_process i s (enter_pid i info)) = name_process i s (enter_pid i (enter_pid j info))"
  by (auto simp: enter_pid_def name_process_def init_pid_def fun_upd_twist split: option.splits)

text \<open>A named process in a forest, whose parent is there, and its row.\<close>

lemma forest_snoc:
  assumes "forest info P" "i \<notin> fst ` set P" "i \<noteq> pp" "rows info' (P @ [(i, s, pp)])"
    and "\<exists>p. info' i = Some p \<and> name p = Some s" "pp > 0 \<Longrightarrow> info' pp \<noteq> None"
    and "\<And>x. x \<noteq> i \<Longrightarrow> map_option name (info' x) = map_option name (info x)"
    and "\<And>x. x \<notin> insert i (fst ` set P) \<Longrightarrow> map_option bro (info' x) = map_option bro (info x)"
  shows "forest info' (P @ [(i, s, pp)])"
  unfolding forest_def
proof (intro conjI allI impI)
  show "distinct (map fst (P @ [(i, s, pp)]))" using assms(1,2) by (simp add: forest_def)
  show "rows info' (P @ [(i, s, pp)])" by (rule assms(4))
next
  fix k u r assume k: "(k, u, r) \<in> set (P @ [(i, s, pp)])"
  have old: "info' x \<noteq> None" if "info x \<noteq> None" "x \<noteq> i" for x
    using assms(7) [OF that(2)] that(1) by auto
  show "k \<noteq> r" using k assms(3) forest_entry(1) [OF assms(1)] by auto
  show "\<exists>p. info' k = Some p \<and> name p = Some u"
  proof (cases "k = i")
    case True
    then show ?thesis using k assms(2,5) by (auto simp: rev_image_eqI)
  next
    case False
    then have "(k, u, r) \<in> set P" using k by auto
    from forest_entry(2) [OF assms(1) this] obtain p where "info k = Some p" "name p = Some u" by blast
    then show ?thesis using assms(7) [OF False] by auto
  qed
  show "info' r \<noteq> None" if "r > 0"
    using that k old forest_entry(3) [OF assms(1)] assms(5,6) by (cases "r = i") auto
next
  fix q p assume q: "info' q = Some p \<and> q \<notin> fst ` set (P @ [(i, s, pp)])"
  then obtain p0 where p0: "info q = Some p0" "name p0 = name p" using assms(7) [of q] by (cases "info q") auto
  then have "name p0 = None" "bro p0 = None" using q assms(1) by (auto simp: forest_def)
  then show "name p = None" "bro p = None" using p0 q assms(8) [of q] by auto
qed

text \<open>One more process.\<close>

lemma forest_link:
  assumes "forest info P" "i \<notin> fst ` set P" "i \<noteq> pp" "pp < 2 ^ 16" "\<not> by_num f"
  shows "\<exists>info'. link_process f i (int pp) (name_process i s (enter_pid i info)) = Some info' \<and> forest info' (P @ [(i, s, pp)])"
proof (cases "pp > 0")
  case False
  let ?info = "enter_pid i info"
  have f: "forest ?info P" by (rule forest_enter [OF assms(1)])
  have "?info i \<noteq> None" by (simp add: enter_pid_def init_pid_def)
  note n = forest_name [OF f assms(2) this, where s = s]
  have "forest (name_process i s ?info) (P @ [(i, s, pp)])"
    by (rule forest_snoc [OF f assms(2,3)]) (use n False in \<open>auto simp: rows_snoc_root\<close>)
  then show ?thesis using False by (auto simp: link_process_def)
next
  case True
  let ?info = "enter_pid i (enter_pid pp info)"
  define g where "g = name_process i s ?info"
  have f: "forest ?info P" by (intro forest_enter assms(1))
  have "?info i \<noteq> None" "?info pp \<noteq> None" by (simp_all add: enter_pid_def init_pid_def)
  note n = forest_name [OF f assms(2) this(1), where s = s, folded g_def]
  have "g pp \<noteq> None" using n(3) [of pp] \<open>?info pp \<noteq> None\<close> assms(3) by simp
  then obtain p where p: "g pp = Some p" by blast
  then obtain xs where xs: "row g (son p) xs" "mset xs = mset (kids P pp)" "sorted (map (key g) xs)" and c: "cnt p = 0"
    using n(2) unfolding rows_def by metis
  obtain q where q: "g i = Some q" "name q = Some s" "bro q = None" using n(1) by blast
  have sub: "set xs \<subseteq> fst ` set P" "set xs = set (kids P pp)"
    using mset_eq_setD [OF xs(2)] kids_members [of P pp] by auto
  have "pp \<notin> set xs" using sub(2) by (auto simp: kids_def dest: forest_entry(1) [OF f])
  moreover have "distinct xs" using mset_eq_imp_distinct_iff [OF xs(2)] kids_distinct f by (auto simp: forest_def)
  ultimately have d: "distinct (pp # i # xs)" using sub(1) assms(2,3) by auto
  have "named g x" if x: "x \<in> set (i # xs)" for x
  proof (cases "x = i")
    case False
    then obtain u r where "(x, u, r) \<in> set P" using x sub(1) by auto
    from forest_entry(2) [OF f this] show ?thesis using n(3) [OF False] by (auto simp: named_def)
  qed (use q in \<open>simp add: named_def\<close>)
  then have nm: "\<forall>x\<in>set (i # xs). named g x" by blast
  obtain info' where a: "add_sonpro f pp i g = Some info'" "linked pp i xs g info' \<or> counted pp i xs g info'"
    using add_sonpro_cases [OF assms(5) p xs(1) d q(1,3) nm xs(3)] by blast
  have "\<not> counted pp i xs g info'"
  proof
    assume "counted pp i xs g info'"
    then obtain x where "x \<in> set xs" "cnt (the (g x)) \<noteq> 0" by (auto simp: counted_def)
    moreover from this obtain r where "g x = Some r" using row_member [OF xs(1)] by auto
    ultimately show False using n(2) by (auto simp: rows_def)
  qed
  with a have l: "linked pp i xs g info'" by simp
  then have lf: "\<And>x. map_option name (info' x) = map_option name (g x)"
    "\<And>x. x \<notin> set (i # xs) \<Longrightarrow> map_option bro (info' x) = map_option bro (g x)" by (auto simp: linked_def)
  have dist: "distinct (map fst (P @ [(i, s, pp)]))" using f assms(2) by (simp add: forest_def)
  have "forest info' (P @ [(i, s, pp)])"
  proof (rule forest_snoc [OF f assms(2,3) rows_linked [OF n(2) dist True l xs(2)]])
    show "\<exists>p. info' i = Some p \<and> name p = Some s" using lf(1) [of i] q by auto
    show "info' pp \<noteq> None" using lf(1) [of pp] p by auto
    show "map_option name (info' x) = map_option name (?info x)" if "x \<noteq> i" for x using lf(1) n(3) [OF that] by simp
    show "map_option bro (info' x) = map_option bro (?info x)" if "x \<notin> insert i (fst ` set P)" for x
      using that lf(2) [of x] n(3) [of x] sub(1) by auto
  qed
  moreover have "enter_pid pp (name_process i s (enter_pid i info)) = g"
    unfolding g_def by (rule enter_name_swap [OF assms(3)])
  ultimately show ?thesis using a(1) True assms(4) by (simp add: link_process_def index_def)
qed

section \<open>Reading a listing\<close>

text \<open>The text of a status file of process \<open>i\<close>.\<close>

definition tells :: "string option \<Rightarrow> nat \<Rightarrow> string \<Rightarrow> nat \<Rightarrow> bool" where
  "tells t i s pp \<longleftrightarrow> plain_name s \<and> (\<exists>ls rest. (\<forall>l\<in>set ls. plain_line l) \<and> t = Some (status_text s i pp ls rest))"

text \<open>A process without further threads: its only thread is itself, or already gone.\<close>

definition own_thread :: "nat \<Rightarrow> task_entry \<Rightarrow> bool" where
  "own_thread i t \<longleftrightarrow> digit_judge (t_name t) \<longrightarrow> t_status t = None \<or> (\<exists>s pp. tells (t_status t) i s pp)"

text \<open>The entries of the directory and the processes they tell of; other names, and processes that ended
  before their file was opened, are passed over.\<close>

inductive lists :: "proc_entry list \<Rightarrow> (nat \<times> string \<times> nat) list \<Rightarrow> bool" where
  nothing: "lists [] []"
| other: "lists es P \<Longrightarrow> \<not> digit_judge (d_name e) \<or> p_status e = None \<Longrightarrow> lists (e # es) P"
| process: "lists es P \<Longrightarrow> digit_judge (d_name e) \<Longrightarrow> tells (p_status e) i s pp \<Longrightarrow> p_tasks e = Some ts \<Longrightarrow>
    \<forall>t\<in>set ts. own_thread i t \<Longrightarrow> lists (e # es) ((i, s, pp) # P)"

lemma read_own_thread: "own_thread i t \<Longrightarrow> \<exists>w'. read_task f i t (w, info) = Some (w', info)"
  by (auto simp: read_task_def own_thread_def tells_def scan_status split: option.splits)

lemma read_own_threads: "\<forall>t\<in>set ts. own_thread i t \<Longrightarrow> \<exists>w'. read_tasks f i ts (w, info) = Some (w', info)"
proof (induction ts arbitrary: w)
  case (Cons t ts)
  obtain w1 where "read_task f i t (w, info) = Some (w1, info)" using read_own_thread [of i t f w info] Cons.prems by auto
  then show ?case using Cons by auto
qed simp

lemma read_process:
  assumes "digit_judge (d_name e)" "tells (p_status e) i s pp" "p_tasks e = Some ts" "\<forall>t\<in>set ts. own_thread i t"
    and "i < 2 ^ 16" "link_process f i (int pp) (name_process i s (enter_pid i info)) = Some info'"
  shows "\<exists>w'. read_proc f e (w, info) = Some (w', info')"
proof -
  obtain ls rest where t: "plain_name s" "\<forall>l\<in>set ls. plain_line l" "p_status e = Some (status_text s i pp ls rest)"
    using assms(2) by (auto simp: tells_def)
  obtain w' where "read_tasks f i ts (s, info') = Some (w', info')" using read_own_threads [OF assms(4)] by blast
  then show ?thesis using assms(1,3,5,6) t by (simp add: read_proc_def scan_status [OF t(1,2)] index_def)
qed

lemma read_listing:
  assumes "lists es Q" "forest info P" "distinct (map fst (P @ Q))" "\<not> by_num f"
    and "\<forall>(i, s, pp)\<in>set Q. i < 2 ^ 16 \<and> pp < 2 ^ 16 \<and> i \<noteq> pp"
  shows "\<exists>w' info'. read_procs f es (w, info) = Some (w', info') \<and> forest info' (P @ Q)"
  using assms
proof (induction arbitrary: P info w rule: lists.induct)
  case nothing
  then show ?case by simp
next
  case (other es Q e)
  then have "read_proc f e (w, info) = Some (w, info)" by (auto simp: read_proc_def)
  then show ?case using other by simp
next
  case (process es Q e i s pp ts)
  obtain info1 where l: "link_process f i (int pp) (name_process i s (enter_pid i info)) = Some info1"
    "forest info1 (P @ [(i, s, pp)])"
    using forest_link [OF process.prems(1), of i pp f s] process.prems by auto
  obtain w1 where "read_proc f e (w, info) = Some (w1, info1)"
    using read_process [OF process.hyps(2-5) _ l(1)] process.prems(4) by auto
  then show ?case using process.IH [OF l(2), of w1] process.prems by simp
qed

text \<open>C40: from the status files of single-threaded processes with different numbers, \<open>make_tree\<close> builds the forest
  of the processes: everyone has its name, and its list of sons holds exactly the processes that name it as their
  parent, ordered by name.\<close>

theorem make_tree_forest:
  assumes "lists es P" "distinct (map fst P)" "\<forall>(i, s, pp)\<in>set P. i < 2 ^ 16 \<and> pp < 2 ^ 16 \<and> i \<noteq> pp" "\<not> by_num f"
  shows "\<exists>info. make_tree f junk es = Some info \<and> (\<forall>(i, s, pp)\<in>set P. \<exists>p ys. info i = Some p \<and> name p = Some s \<and>
    row info (son p) ys \<and> mset ys = mset (kids P i) \<and> sorted (map (key info) ys))"
proof -
  have "forest (\<lambda>_. None) []" by (simp add: forest_def rows_def)
  then obtain w info where r: "read_procs f es (junk, \<lambda>_. None) = Some (w, info)" "forest info P"
    using read_listing [OF assms(1), of "\<lambda>_. None" "[]" f junk] assms by auto
  have "\<exists>p ys. info i = Some p \<and> name p = Some s \<and> row info (son p) ys \<and> mset ys = mset (kids P i) \<and> sorted (map (key info) ys)"
    if "(i, s, pp) \<in> set P" for i s pp
    using forest_entry(2) [OF r(2) that] r(2) unfolding forest_def rows_def by blast
  then show ?thesis using r(1) by (auto simp: make_tree_def)
qed

definition demo_entry :: "nat \<Rightarrow> string \<Rightarrow> nat \<Rightarrow> proc_entry" where
  "demo_entry i s pp =
     (let t = Some (status_text s i pp [''State: S''] [])
      in \<lparr>d_name = decimal i, p_status = t, p_tasks = Some [\<lparr>t_name = decimal i, t_status = t\<rparr>]\<rparr>)"

lemma digit_judge_decimal: "digit_judge (decimal n)"
  using decimal_digits [of n] by (simp add: digit_judge_def digit_def)

lemma lists_demo:
  assumes "plain_name s" "lists es P"
  shows "lists (demo_entry i s pp # es) ((i, s, pp) # P)"
proof (rule lists.process [OF assms(2)])
  have "\<forall>l\<in>set [''State: S'']. plain_line l" by (simp add: plain_line_def)
  then have "tells (Some (status_text s i pp [''State: S''] [])) i s pp" using assms(1) unfolding tells_def by blast
  then show "tells (p_status (demo_entry i s pp)) i s pp" "\<forall>t\<in>set [\<lparr>t_name = decimal i, t_status = p_status (demo_entry i s pp)\<rparr>]. own_thread i t"
    by (auto simp: demo_entry_def own_thread_def Let_def)
qed (simp_all add: demo_entry_def digit_judge_decimal Let_def)

theorem make_tree_forest_witness:
  "\<exists>info p ys. make_tree \<lparr>by_num = False, show_pids = False\<rparr> [] [demo_entry 1 ''init'' 0, demo_entry 5 ''sh'' 1, demo_entry 9 ''cron'' 1]
     = Some info \<and> info 1 = Some p \<and> row info (son p) ys \<and> mset ys = {#5, 9#} \<and> sorted (map (key info) ys)"
proof -
  let ?P = "[(1, ''init'', 0), (5, ''sh'', 1), (9, ''cron'', 1)] :: (nat \<times> string \<times> nat) list"
  have "lists [demo_entry 1 ''init'' 0, demo_entry 5 ''sh'' 1, demo_entry 9 ''cron'' 1] ?P"
    by (intro lists_demo lists.nothing) (simp_all add: plain_name_def space_def)
  from make_tree_forest [OF this, of "\<lparr>by_num = False, show_pids = False\<rparr>" "[]"]
  obtain info where "make_tree \<lparr>by_num = False, show_pids = False\<rparr> [] [demo_entry 1 ''init'' 0, demo_entry 5 ''sh'' 1, demo_entry 9 ''cron'' 1]
      = Some info" "\<exists>p ys. info 1 = Some p \<and> row info (son p) ys \<and> mset ys = mset (kids ?P 1) \<and> sorted (map (key info) ys)"
    by auto
  moreover have "mset (kids ?P 1) = {#5, 9#}" by (simp add: kids_def)
  ultimately show ?thesis by metis
qed

section \<open>Processes that end meanwhile\<close>

text \<open>A file whose text is gone when it is read is scanned for ever.\<close>

lemma find_never_ends: "find_field fmt s = Some r \<Longrightarrow> s = [] \<longrightarrow> fmt \<notin> {pid_key, ppid_key}"
proof (rule find_field.raw_induct [where P = "\<lambda>fmt s r. s = [] \<longrightarrow> fmt \<notin> {pid_key, ppid_key}"])
  fix ff fmt s r
  assume ih: "\<And>fmt s r. ff fmt s = Some r \<Longrightarrow> s = [] \<longrightarrow> fmt \<notin> {pid_key, ppid_key}"
    and b: "(let (ok, r) = scan_lit fmt s; (v, r') = (if ok then scan_int r else (None, r))
      in case v of Some x \<Rightarrow> Some (x, r') | None \<Rightarrow> ff fmt (drop_line (MAXN - 1) r')) = Some r"
  show "s = [] \<longrightarrow> fmt \<notin> {pid_key, ppid_key}"
  proof (intro impI notI)
    assume s: "s = []" "fmt \<in> {pid_key, ppid_key}"
    then have "scan_lit fmt [] = (False, [])" by (auto simp: pid_key_def ppid_key_def space_def)
    then have "ff fmt [] = Some r" using b s(1) by simp
    then show False using ih s(2) by blast
  qed
qed

lemma vanished_hangs:
  assumes "digit_judge (d_name e)" "p_status e = Some []"
  shows "make_tree f junk (e # es) = None"
proof -
  have "find_field pid_key [] = None" using find_never_ends [of pid_key "[]"] by (cases "find_field pid_key []") auto
  then show ?thesis using assms by (simp add: make_tree_def read_proc_def scan_name_def name_key_def space_def)
qed

text \<open>A process that ended before its threads were listed fails the assertion.\<close>

lemma gone_asserts: "digit_judge (d_name e) \<Longrightarrow> p_status e \<noteq> None \<Longrightarrow> p_tasks e = None \<Longrightarrow> make_tree f junk (e # es) = None"
  by (auto simp: make_tree_def read_proc_def Let_def split: prod.splits option.splits simp: bind_eq_None_conv)

end
