(* ===== verification/Mpe.thy ===== *)
theory Mpe
  imports Systems "HOL-Library.Monad_Syntax"
begin

unbundle bit_operations_syntax

text \<open>
  Processors of the abstract machine on x86: counting them, their segments, the interrupt controllers
  and the start of all of them (\<^verbatim>\<open>mpe.c\<close>, \<^verbatim>\<open>trm.c\<close>, \<^verbatim>\<open>devices/cpu.c\<close>, \<^verbatim>\<open>devices/apic.c\<close>, with the descriptors of \<^verbatim>\<open>x86.h\<close>).
  Memory is a function from addresses to bytes; what is written to a controller is a list or a table of
  registers.  The start is a step relation: the processors are interleaved at every access to the flag
  they share.  \<open>None\<close> is a panic or a search that does not end.
\<close>

section \<open>Counting the processors\<close>

definition MAX_CPU :: nat where "MAX_CPU = 8"
definition MP_MAGIC :: u32 where "MP_MAGIC = 0x5f504d5f"

definition word_le :: "(nat \<Rightarrow> u8) \<Rightarrow> nat \<Rightarrow> u32" where
  "word_le m a = ucast (m a) + push_bit 8 (ucast (m (a + 1))) + push_bit 16 (ucast (m (a + 2))) + push_bit 24 (ucast (m (a + 3)))"

text \<open>The entries of the table from \<open>p\<close> to \<open>e\<close>: 20 bytes for a processor, 8 for anything else.\<close>

function count_cpus :: "(nat \<Rightarrow> u8) \<Rightarrow> nat \<Rightarrow> nat \<Rightarrow> nat \<Rightarrow> nat option" where
  "count_cpus m p e n =
     (if p < e then
        (if m p = 0 then (if n + 1 > MAX_CPU then None else count_cpus m (p + 20) e (n + 1))
         else count_cpus m (p + 8) e n)
      else Some n)"
  by pat_completeness auto

termination by (relation "measure (\<lambda>(m, p, e, n). e - p)") auto

declare count_cpus.simps [simp del]

text \<open>The address of the local controller, and the number of processors.\<close>

definition bootcpu_init :: "(nat \<Rightarrow> u8) \<Rightarrow> (u32 \<times> nat) option" where
  "bootcpu_init m = do {
     st \<leftarrow> find (\<lambda>a. word_le m a = MP_MAGIC) [0xf0000..<0xffffff];
     let conf = unat (word_le m (st + 4));
     n \<leftarrow> count_cpus m (conf + 44) (conf + (unat (m (conf + 4)) + 256 * unat (m (conf + 5)))) 0;
     Some (word_le m (conf + 36), n)}"

text \<open>A table: processors and other entries by their first byte.\<close>

fun entries_at :: "(nat \<Rightarrow> u8) \<Rightarrow> nat \<Rightarrow> u8 list \<Rightarrow> nat \<Rightarrow> bool" where
  "entries_at m p [] e \<longleftrightarrow> p = e"
| "entries_at m p (t # ts) e \<longleftrightarrow> m p = t \<and> entries_at m (p + (if t = 0 then 20 else 8)) ts e"

lemma entries_end: "entries_at m p ts e \<Longrightarrow> p \<le> e \<and> (ts \<noteq> [] \<longrightarrow> p < e)"
  by (induction m p ts e rule: entries_at.induct) (auto split: if_splits)

lemma count_entries:
  assumes "entries_at m p ts e" "n + length (filter (\<lambda>t. t = 0) ts) \<le> MAX_CPU"
  shows "count_cpus m p e n = Some (n + length (filter (\<lambda>t. t = 0) ts))"
  using assms
proof (induction ts arbitrary: p n)
  case Nil
  then show ?case by (subst count_cpus.simps) simp
next
  case (Cons t ts)
  then have "p < e" using entries_end [of m p "t # ts" e] by simp
  then show ?case using Cons by (subst count_cpus.simps) auto
qed

section \<open>The heap\<close>

text \<open>Memory is probed in steps of a megabyte until what is written is not read back.\<close>

definition STEP :: nat where "STEP = 2 ^ 20"

definition ROUNDUP :: "nat \<Rightarrow> nat \<Rightarrow> nat" where
  "ROUNDUP a sz = (a + sz - 1) div sz * sz"

partial_function (option) probe_from :: "(nat \<Rightarrow> bool) \<Rightarrow> nat \<Rightarrow> nat option" where
  "probe_from present ed = (if present ed then probe_from present (add32 ed STEP) else Some ed)"

definition heap_init :: "nat \<Rightarrow> (nat \<Rightarrow> bool) \<Rightarrow> (nat \<times> nat) option" where
  "heap_init end_addr present = do {
     let st = ROUNDUP end_addr STEP;
     ed \<leftarrow> probe_from present st;
     Some (st, ed)}"

lemma probe_steps:
  assumes "\<forall>j<k. present (st + j * STEP)" "\<not> present (st + k * STEP)" "st + k * STEP < 2 ^ 32"
  shows "probe_from present st = Some (st + k * STEP)"
  using assms
proof (induction k arbitrary: st)
  case 0
  then show ?case by (subst probe_from.simps) simp
next
  case (Suc k)
  then have "present st" by force
  moreover have "add32 st STEP = st + STEP" using Suc.prems(3) by (simp add: add32_eq)
  moreover have "present (st + STEP + j * STEP)" if "j < k" for j
    using Suc.prems(1) [rule_format, of "Suc j"] that by (simp add: add.assoc)
  ultimately show ?case using Suc.IH [of "st + STEP"] Suc.prems(2,3) by (subst probe_from.simps) (simp add: add.assoc)
qed

text \<open>With memory up to \<open>mem_end\<close>, a multiple of the step, the heap reaches from the first step behind the program to it.\<close>

lemma heap_found:
  assumes "STEP dvd mem_end" "end_addr \<le> mem_end" "mem_end < 2 ^ 32"
  shows "heap_init end_addr (\<lambda>a. a < mem_end) = Some (ROUNDUP end_addr STEP, mem_end)"
proof -
  obtain q where q: "mem_end = q * STEP" using assms(1) by (auto simp: dvd_def mult.commute)
  define p where "p = (end_addr + STEP - 1) div STEP"
  have "p \<le> q"
  proof -
    have "p \<le> (q * STEP + (STEP - 1)) div STEP" unfolding p_def using assms(2) q by (intro div_le_mono) (simp add: STEP_def)
    then show ?thesis by (simp add: STEP_def)
  qed
  have start: "ROUNDUP end_addr STEP = p * STEP" by (simp add: ROUNDUP_def p_def)
  have "ROUNDUP end_addr STEP + (q - p) * STEP = mem_end"
    unfolding start q by (simp add: \<open>p \<le> q\<close> flip: add_mult_distrib)
  moreover have "ROUNDUP end_addr STEP + j * STEP < mem_end" if "j < q - p" for j
  proof -
    have "ROUNDUP end_addr STEP + j * STEP = (p + j) * STEP" unfolding start by (simp add: add_mult_distrib)
    moreover have "(p + j) * STEP < q * STEP" using that by (simp add: STEP_def)
    ultimately show ?thesis using q by simp
  qed
  ultimately show ?thesis
    using probe_steps [of "q - p" "\<lambda>a. a < mem_end" "ROUNDUP end_addr STEP"] assms(3) by (simp add: heap_init_def)
qed

text \<open>What a halt prints.\<close>

definition halt_text :: "nat \<Rightarrow> string" where
  "halt_text code = map (\<lambda>c. if c = CHR ''#'' then char_of (48 + code) else c) (''Exited (#).'' @ [CHR 0x0a])"

section \<open>Paging\<close>

text \<open>The control registers: with a table for the kernel, it is made current and paging switched on.\<close>

record control =
  cr0 :: u32
  cr3 :: u32

definition percpu_initpg :: "u32 \<Rightarrow> control \<Rightarrow> control" where
  "percpu_initpg kpt c = (if kpt \<noteq> 0 then c\<lparr>cr3 := kpt, cr0 := cr0 c OR 0x80000000\<rparr> else c)"

section \<open>Segments\<close>

record seg_desc =
  lim_15_0 :: "16 word"
  base_15_0 :: "16 word"
  base_23_16 :: u8
  d_type :: nat
  d_s :: bool
  d_dpl :: nat
  lim_19_16 :: "4 word"
  d_g :: bool
  base_31_24 :: u8

definition SEG :: "nat \<Rightarrow> u32 \<Rightarrow> u32 \<Rightarrow> nat \<Rightarrow> seg_desc" where
  "SEG ty base lim dpl =
     \<lparr>lim_15_0 = ucast (drop_bit 12 lim AND 0xffff), base_15_0 = ucast (base AND 0xffff),
      base_23_16 = ucast (drop_bit 16 base AND 0xff), d_type = ty, d_s = True, d_dpl = dpl,
      lim_19_16 = ucast (drop_bit 28 lim), d_g = True, base_31_24 = ucast (drop_bit 24 base)\<rparr>"

definition SEG16 :: "nat \<Rightarrow> u32 \<Rightarrow> u32 \<Rightarrow> nat \<Rightarrow> seg_desc" where
  "SEG16 ty base lim dpl =
     \<lparr>lim_15_0 = ucast (lim AND 0xffff), base_15_0 = ucast (base AND 0xffff),
      base_23_16 = ucast (drop_bit 16 base AND 0xff), d_type = ty, d_s = False, d_dpl = dpl,
      lim_19_16 = ucast (drop_bit 16 lim), d_g = False, base_31_24 = ucast (drop_bit 24 base)\<rparr>"

text \<open>What the processor makes of a descriptor: base and the largest offset.\<close>

definition seg_base :: "seg_desc \<Rightarrow> u32" where
  "seg_base d = ucast (base_15_0 d) OR push_bit 16 (ucast (base_23_16 d)) OR push_bit 24 (ucast (base_31_24 d))"

definition seg_limit :: "seg_desc \<Rightarrow> u32" where
  "seg_limit d =
     (let l = ucast (lim_15_0 d) OR push_bit 16 (ucast (lim_19_16 d))
      in if d_g d then push_bit 12 l OR 0xfff else l)"

lemma low_masks: "(0xffff :: u32) = mask 16" "(0xff :: u32) = mask 8" "(0xfff :: u32) = mask 12"
  by (simp_all add: mask_eq_exp_minus_1)

lemma join_base:
  fixes b :: u32
  shows "ucast (ucast (b AND mask 16) :: 16 word) OR push_bit 16 (ucast (ucast (drop_bit 16 b AND mask 8) :: u8)) OR
    push_bit 24 (ucast (ucast (drop_bit 24 b) :: u8)) = b" (is "?l = ?r")
proof (rule bit_word_eqI)
  fix n assume "n < LENGTH(32)"
  then show "bit ?l n = bit ?r n"
    by (cases "24 \<le> n") (auto simp: bit_simps not_less)
qed

lemma join_limit:
  fixes l :: u32
  shows "push_bit 12 (ucast (ucast (drop_bit 12 l AND mask 16) :: 16 word) OR push_bit 16 (ucast (ucast (drop_bit 28 l) :: 4 word))) OR mask 12 =
    l OR mask 12" (is "?l = ?r")
proof (rule bit_word_eqI)
  fix n assume "n < LENGTH(32)"
  then show "bit ?l n = bit ?r n"
    by (cases "28 \<le> n") (auto simp: bit_simps not_less)
qed

lemma join_small_limit:
  fixes l :: u32
  assumes "l = take_bit 20 l"
  shows "ucast (ucast (l AND mask 16) :: 16 word) OR push_bit 16 (ucast (ucast (drop_bit 16 l) :: 4 word)) = l" (is "?l = ?r")
proof (rule bit_word_eqI)
  fix n assume "n < LENGTH(32)"
  moreover have "bit l n = (n < 20 \<and> bit l n)" by (subst assms) (simp add: bit_take_bit_iff)
  ultimately show "bit ?l n = bit ?r n"
    by (auto simp: bit_simps not_less)
qed

text \<open>The processor finds the base and the limit that were asked for: the limit up to pages for code and data,
  exactly for the task segment.\<close>

lemma seg_decoded:
  "seg_base (SEG ty base lim dpl) = base" "seg_base (SEG16 ty base lim dpl) = base"
  "seg_limit (SEG ty base lim dpl) = lim OR 0xfff"
  "lim = take_bit 20 lim \<Longrightarrow> seg_limit (SEG16 ty base lim dpl) = lim"
  using join_base [of base] join_limit [of lim] join_small_limit [of lim]
  by (simp_all only: seg_base_def seg_limit_def SEG_def SEG16_def low_masks Let_def seg_desc.simps if_True if_False)

definition TSS_SIZE :: nat where "TSS_SIZE = 100"

text \<open>The table of a processor whose task state lies at \<open>tss\<close>; the first descriptor is not used.\<close>

definition percpu_initgdt :: "u32 \<Rightarrow> seg_desc option list" where
  "percpu_initgdt tss =
     [None, Some (SEG 0xa 0 0xffffffff 0), Some (SEG 0x2 0 0xffffffff 0), Some (SEG 0xa 0 0xffffffff 3),
      Some (SEG 0x2 0 0xffffffff 3), Some (SEG16 0x9 tss (of_nat TSS_SIZE - 1) 0)]"

text \<open>All of memory in every code and data segment, and the task state in the last.\<close>

lemma gdt_flat:
  "\<forall>i\<in>{1..4}. \<exists>d. percpu_initgdt tss ! i = Some d \<and> seg_base d = 0 \<and> seg_limit d = 0xffffffff \<and> (d_dpl d = 3 \<longleftrightarrow> i > 2)"
  "\<exists>d. percpu_initgdt tss ! 5 = Some d \<and> seg_base d = tss \<and> seg_limit d = 99"
proof -
  have "(0xffffffff :: u32) OR 0xfff = 0xffffffff" by simp
  then have "seg_limit (SEG ty 0 0xffffffff dpl) = 0xffffffff" for ty dpl by (simp only: seg_decoded)
  moreover have "{1..4 :: nat} = {1, 2, 3, 4}" by auto
  ultimately show "\<forall>i\<in>{1..4}. \<exists>d. percpu_initgdt tss ! i = Some d \<and> seg_base d = 0 \<and> seg_limit d = 0xffffffff \<and> (d_dpl d = 3 \<longleftrightarrow> i > 2)"
    by (auto simp: percpu_initgdt_def seg_decoded) (simp_all add: SEG_def)
  have "(99 :: u32) = take_bit 20 99" by simp
  then show "\<exists>d. percpu_initgdt tss ! 5 = Some d \<and> seg_base d = tss \<and> seg_limit d = 99"
    by (simp add: percpu_initgdt_def seg_decoded TSS_SIZE_def)
qed

section \<open>The input and output interrupt controller\<close>

definition T_IRQ0 :: u32 where "T_IRQ0 = 32"
definition INT_DISABLED :: u32 where "INT_DISABLED = 0x10000"
definition REG_VER :: nat where "REG_VER = 1"
definition REG_TABLE :: nat where "REG_TABLE = 0x10"

text \<open>The register selected, and the registers behind it.\<close>

record ioapic =
  io_reg :: nat
  io_regs :: "nat \<Rightarrow> u32"

definition ioapicread :: "nat \<Rightarrow> ioapic \<Rightarrow> u32 \<times> ioapic" where
  "ioapicread reg s = (io_regs s reg, s\<lparr>io_reg := reg\<rparr>)"

definition ioapicwrite :: "nat \<Rightarrow> u32 \<Rightarrow> ioapic \<Rightarrow> ioapic" where
  "ioapicwrite reg data s = s\<lparr>io_reg := reg, io_regs := (io_regs s)(reg := data)\<rparr>"

definition ioapic_mask :: "nat \<Rightarrow> ioapic \<Rightarrow> ioapic" where
  "ioapic_mask i s = ioapicwrite (REG_TABLE + 2 * i + 1) 0 (ioapicwrite (REG_TABLE + 2 * i) (INT_DISABLED OR (T_IRQ0 + of_nat i)) s)"

definition ioapic_init :: "ioapic \<Rightarrow> ioapic" where
  "ioapic_init s =
     (let (v, s1) = ioapicread REG_VER s; maxintr = unat (drop_bit 16 v AND 0xff)
      in fold ioapic_mask [0..<maxintr + 1] s1)"

definition ioapic_enable :: "nat \<Rightarrow> nat \<Rightarrow> ioapic \<Rightarrow> ioapic" where
  "ioapic_enable irq cpunum s =
     ioapicwrite (REG_TABLE + 2 * irq + 1) (push_bit 24 (of_nat cpunum)) (ioapicwrite (REG_TABLE + 2 * irq) (T_IRQ0 + of_nat irq) s)"

text \<open>The two registers of an interrupt.\<close>

definition route :: "ioapic \<Rightarrow> nat \<Rightarrow> u32 \<times> u32" where
  "route s i = (io_regs s (REG_TABLE + 2 * i), io_regs s (REG_TABLE + 2 * i + 1))"

lemma route_mask: "route (ioapic_mask j s) i = (if i = j then (INT_DISABLED OR (T_IRQ0 + of_nat i), 0) else route s i)"
proof -
  have "2 * i \<noteq> 2 * j + 1" "2 * i + 1 \<noteq> 2 * j" by presburger+
  then show ?thesis by (auto simp: route_def ioapic_mask_def ioapicwrite_def)
qed

lemma route_masks: "route (fold ioapic_mask [0..<n] s) i = (if i < n then (INT_DISABLED OR (T_IRQ0 + of_nat i), 0) else route s i)"
  by (induction n) (auto simp: route_mask)

text \<open>After the initialisation every interrupt of the controller is off; enabling one gives it its vector and its
  processor and leaves the others.\<close>

lemma route_init:
  "i \<le> unat (drop_bit 16 (io_regs s REG_VER) AND 0xff) \<Longrightarrow> route (ioapic_init s) i = (INT_DISABLED OR (T_IRQ0 + of_nat i), 0)"
  by (simp add: ioapic_init_def ioapicread_def route_masks del: upt_Suc)

lemma route_enable:
  "route (ioapic_enable irq c s) i = (if i = irq then (T_IRQ0 + of_nat irq, push_bit 24 (of_nat c)) else route s i)"
proof -
  have "2 * i \<noteq> 2 * irq + 1" "2 * i + 1 \<noteq> 2 * irq" by presburger+
  then show ?thesis by (auto simp: route_def ioapic_enable_def ioapicwrite_def)
qed

section \<open>The local interrupt controller\<close>

text \<open>Registers by their offset divided by four; what is written, in order.\<close>

definition EOI :: nat where "EOI = 0xb0 div 4"
definition ICRLO :: nat where "ICRLO = 0x300 div 4"
definition ICRHI :: nat where "ICRHI = 0x310 div 4"

text \<open>Spurious interrupts, timer, interrupt lines, performance counter (from version 4 on), errors, acknowledgement, the
  broadcast, and the priority.\<close>

definition percpu_initlapic :: "u32 \<Rightarrow> (nat \<times> u32) list" where
  "percpu_initlapic ver =
     [(0xf0 div 4, 0x100 OR (T_IRQ0 + 31)), (0x3e0 div 4, 0xb), (0x320 div 4, 0x20000 OR (T_IRQ0 + 0)), (0x380 div 4, 10000000),
      (0x350 div 4, 0x10000), (0x360 div 4, 0x10000)] @
     (if drop_bit 16 ver AND 0xff \<ge> 4 then [(0x340 div 4, 0x10000)] else []) @
     [(0x370 div 4, T_IRQ0 + 19), (0x280 div 4, 0), (0x280 div 4, 0), (EOI, 0), (ICRHI, 0), (ICRLO, 0x80000 OR 0x500 OR 0x8000),
      (0x80 div 4, 0)]"

definition lapic_eoi :: "bool \<Rightarrow> (nat \<times> u32) list" where
  "lapic_eoi found = (if found then [(EOI, 0)] else [])"

text \<open>Starting a processor: ports, half words of memory, and the controller.\<close>

record boot_writes =
  b_ports :: "(nat \<times> u8) list"
  b_mem :: "(nat \<times> 16 word) list"
  b_lapic :: "(nat \<times> u32) list"

definition lapic_bootap :: "nat \<Rightarrow> u32 \<Rightarrow> boot_writes" where
  "lapic_bootap apicid addr =
     (let dest = (ICRHI, push_bit 24 (of_nat apicid)); startup = (ICRLO, 0x600 OR drop_bit 12 addr)
      in \<lparr>b_ports = [(0x70, 0xf), (0x71, 0xa)], b_mem = [(0x467, 0), (0x469, ucast (drop_bit 4 addr))],
          b_lapic = [dest, (ICRLO, 0x500 OR 0x8000 OR 0x4000), (ICRLO, 0x500 OR 0x8000), dest, startup, dest, startup]\<rparr>)"

text \<open>The startup interrupt names a page only, the one at \<^verbatim>\<open>0x7000\<close> for the boot sector at \<^verbatim>\<open>0x7c00\<close>: the processor starts
  in the boot record.\<close>

definition start_page :: "u32 \<Rightarrow> u32" where
  "start_page cmd = push_bit 12 (cmd AND 0xff)"

lemma starts_below: "\<forall>w\<in>set (b_lapic (lapic_bootap c 0x7c00)). fst w = ICRLO \<and> snd w AND 0x700 = 0x600 \<longrightarrow> start_page (snd w) = 0x7000"
  by (simp add: lapic_bootap_def ICRLO_def ICRHI_def start_page_def Let_def)

section \<open>The start of all processors\<close>

text \<open>The bootstrap processor is about to start number \<open>c\<close>, waits for it, or runs the user's entry; another processor is off,
  on the stack and the record of the boot sector, in its own initialisation (of which it has done \<open>k\<close> parts: segments, traps,
  interrupts, paging), or past its report.\<close>

datatype bsp_pc = Boots nat | Waits nat | Runs

datatype ap_pc = Off | Booting | Initialising nat | Up

record smp =
  bsp :: bsp_pc
  aps :: "nat \<Rightarrow> ap_pc"
  apboot_done :: nat

definition smp_init :: smp where
  "smp_init = \<lparr>bsp = Boots 1, aps = (\<lambda>_. Off), apboot_done = 0\<rparr>"

inductive smp_step :: "nat \<Rightarrow> smp \<Rightarrow> smp \<Rightarrow> bool" for n where
  bootap: "bsp s = Boots c \<Longrightarrow> c < n \<Longrightarrow> smp_step n s (s\<lparr>bsp := Waits c, aps := (aps s)(c := Booting)\<rparr>)"
| finish: "bsp s = Boots c \<Longrightarrow> \<not> c < n \<Longrightarrow> smp_step n s (s\<lparr>bsp := Runs\<rparr>)"
| poll: "bsp s = Waits c \<Longrightarrow>
    smp_step n s (s\<lparr>bsp := (if apboot_done s = 1 then Boots (c + 1) else Waits c), apboot_done := 0\<rparr>)"
| jump: "aps s c = Booting \<Longrightarrow> smp_step n s (s\<lparr>aps := (aps s)(c := Initialising 0)\<rparr>)"
| initialise: "aps s c = Initialising k \<Longrightarrow> k < 4 \<Longrightarrow> smp_step n s (s\<lparr>aps := (aps s)(c := Initialising (k + 1))\<rparr>)"
| report: "aps s c = Initialising 4 \<Longrightarrow> smp_step n s (s\<lparr>aps := (aps s)(c := Up), apboot_done := 1\<rparr>)"

text \<open>The processors below \<open>c\<close> are up and those above it off.\<close>

definition started :: "nat \<Rightarrow> smp \<Rightarrow> bool" where
  "started c s \<longleftrightarrow> (\<forall>i. i \<noteq> c \<longrightarrow> aps s i = (if 1 \<le> i \<and> i < c then Up else Off))"

fun smp_inv :: "nat \<Rightarrow> smp \<Rightarrow> bool" where
  "smp_inv n s \<longleftrightarrow>
     (case bsp s of
        Boots c \<Rightarrow> 1 \<le> c \<and> c \<le> n \<and> started c s \<and> aps s c = Off \<and> apboot_done s = 0
      | Waits c \<Rightarrow> 1 \<le> c \<and> c < n \<and> started c s \<and> aps s c \<in> {Booting, Up} \<union> Initialising ` {..4} \<and>
          apboot_done s = (if aps s c = Up then 1 else 0)
      | Runs \<Rightarrow> started n s \<and> aps s n = Off)"

declare smp_inv.simps [simp del]

lemma smp_busy:
  assumes "smp_inv n s" "aps s i \<notin> {Off, Up}"
  shows "bsp s = Waits i"
proof (cases "bsp s")
  case (Waits c)
  then have "started c s" using assms(1) by (simp add: smp_inv.simps)
  then have "i = c" using assms(2) unfolding started_def by (metis insertCI)
  then show ?thesis using Waits by simp
next
  case (Boots c)
  then have "started c s" "aps s c = Off" using assms(1) by (simp_all add: smp_inv.simps)
  then show ?thesis using assms(2) unfolding started_def by (metis insertCI)
next
  case Runs
  then have "started n s" "aps s n = Off" using assms(1) by (simp_all add: smp_inv.simps)
  then show ?thesis using assms(2) unfolding started_def by (metis insertCI)
qed

lemma smp_inv_step: "smp_step n s s' \<Longrightarrow> smp_inv n s \<Longrightarrow> smp_inv n s'"
proof (induction rule: smp_step.induct)
  case (bootap s c)
  then show ?case by (simp add: smp_inv.simps started_def)
next
  case (finish s c)
  then have "c = n" by (simp add: smp_inv.simps)
  then show ?case using finish by (simp add: smp_inv.simps started_def)
next
  case (poll s c)
  have "aps s i = (if Suc 0 \<le> i \<and> i < Suc c then Up else Off)" if "aps s c = Up" "i \<noteq> Suc c" for i
    using that poll by (cases "i = c") (auto simp: smp_inv.simps started_def)
  then show ?case using poll by (auto simp: smp_inv.simps started_def)
next
  case (jump s c)
  then have "bsp s = Waits c" using smp_busy [of n s c] by simp
  then show ?case using jump by (simp add: smp_inv.simps started_def)
next
  case (initialise s c k)
  then have "bsp s = Waits c" using smp_busy [of n s c] by simp
  then show ?case using initialise by (simp add: smp_inv.simps started_def)
next
  case (report s c)
  then have "bsp s = Waits c" using smp_busy [of n s c] by simp
  then show ?case using report by (simp add: smp_inv.simps started_def)
qed

lemma smp_inv_init: "1 \<le> n \<Longrightarrow> smp_inv n smp_init"
  by (simp add: smp_init_def started_def smp_inv.simps)

text \<open>What is left to do before the bootstrap processor goes on.\<close>

fun smp_left :: "nat \<Rightarrow> smp \<Rightarrow> nat" where
  "smp_left n s =
     (case bsp s of
        Boots c \<Rightarrow> 8 * (n - c) + 8
      | Waits c \<Rightarrow> 8 * (n - c) + (case aps s c of Booting \<Rightarrow> 7 | Initialising k \<Rightarrow> 6 - k | _ \<Rightarrow> 1)
      | Runs \<Rightarrow> 0)"

lemma smp_nearer:
  assumes "smp_inv n s" "bsp s \<noteq> Runs"
  shows "\<exists>t. smp_step n s t \<and> (bsp t = Runs \<or> smp_left n t < smp_left n s)"
proof (cases "bsp s")
  case (Boots c)
  show ?thesis
  proof (cases "c < n")
    case True
    from smp_step.bootap [OF Boots True] Boots show ?thesis by (intro exI conjI) (assumption, simp)
  next
    case False
    from smp_step.finish [OF Boots False] show ?thesis by (intro exI conjI) (assumption, simp)
  qed
next
  case (Waits c)
  have i: "c < n" "aps s c \<in> {Booting, Up} \<union> Initialising ` {..4}" "apboot_done s = (if aps s c = Up then 1 else 0)"
    using assms(1) Waits by (simp_all add: smp_inv.simps)
  show ?thesis
  proof (cases "aps s c")
    case Up
    from smp_step.poll [OF Waits, of n] Waits Up i show ?thesis by (intro exI conjI) (assumption, simp)
  next
    case Booting
    from smp_step.jump [OF Booting, of n] Waits Booting show ?thesis by (intro exI conjI) (assumption, simp)
  next
    case (Initialising k)
    then consider "k < 4" | "k = 4" using i(2) by fastforce
    then show ?thesis
    proof cases
      case 1
      from smp_step.initialise [OF Initialising 1, of n] Waits Initialising 1 show ?thesis by (intro exI conjI) (assumption, simp)
    next
      case 2
      with Initialising have "aps s c = Initialising 4" by simp
      from smp_step.report [OF this, of n] Waits Initialising 2 show ?thesis by (intro exI conjI) (assumption, simp)
    qed
  qed (use i(2) in auto)
qed (use assms(2) in simp)

interpretation boot_sector: exclusive "smp_step n" "smp_inv n" "\<lambda>s i. aps s i \<notin> {Off, Up}" for n
proof unfold_locales
  show "i = j" if "smp_inv n s" "aps s i \<notin> {Off, Up}" "aps s j \<notin> {Off, Up}" for s i j
    using smp_busy [OF that(1,2)] smp_busy [OF that(1,3)] by simp
qed (rule smp_inv_step)

interpretation start_up: approaching "smp_step n" "smp_inv n" "\<lambda>s. bsp s = Runs" "smp_left n" for n
  by unfold_locales (rule smp_nearer)

text \<open>Never do two processors use the stack and the record of the boot sector, or initialise, at once; and the
  bootstrap processor enters the user's program only when all others have reported.\<close>

theorem smp_start_safe:
  assumes "(smp_step n)\<^sup>*\<^sup>* smp_init s" "1 \<le> n" "aps s i \<notin> {Off, Up}" "aps s j \<notin> {Off, Up}"
  shows "i = j \<and> bsp s = Waits i"
  using boot_sector.never_two [OF assms(1) smp_inv_init [OF assms(2)] assms(3,4)]
    smp_busy [OF boot_sector.reach [OF assms(1) smp_inv_init [OF assms(2)]] assms(3)] by blast

theorem smp_all_up:
  assumes "(smp_step n)\<^sup>*\<^sup>* smp_init s" "1 \<le> n" "bsp s = Runs" "1 \<le> i" "i < n"
  shows "aps s i = Up"
  using boot_sector.reach [OF assms(1) smp_inv_init [OF assms(2)]] assms(3-5) by (simp add: started_def smp_inv.simps)

text \<open>And from every state on the way it can: no step leads to a state from which the start does not complete.\<close>

theorem smp_start_completes:
  assumes "(smp_step n)\<^sup>*\<^sup>* smp_init s" "1 \<le> n"
  shows "\<exists>s'. (smp_step n)\<^sup>*\<^sup>* s s' \<and> bsp s' = Runs"
  using start_up.goal_ahead [OF assms(1) smp_inv_init [OF assms(2)]] .

end
