(* ===== verification/Native.thy ===== *)
theory Native
  imports Prelude "HOL-Library.Monad_Syntax"
begin

text \<open>
  The abstract machine as a program of the host (\<^verbatim>\<open>abstract-machine/am/src/native\<close>): address spaces as lists of page
  maps that are mapped into the process when the space is current (\<^verbatim>\<open>vme.c\<close>), the queue of keys (\<^verbatim>\<open>devices/input.c\<close>), the
  frame buffer (\<^verbatim>\<open>devices/video.c\<close>) and the clock (\<^verbatim>\<open>devices/timer.c\<close>).  What the host maps is a function from the numbers
  of pages; a failing assertion, and a copy of a negative size, are \<open>None\<close>.
\<close>

section \<open>Address spaces\<close>

record page_map =
  vpn :: nat
  ppn :: nat
  is_mapped :: bool

text \<open>Spaces by the address of their structure; \<open>empty_as\<close> is current at first.\<close>

record native_vme =
  vme_enable :: bool
  spaces :: "nat \<Rightarrow> page_map list"
  cur_as :: nat
  host :: "nat \<rightharpoonup> nat"

definition empty_as :: nat where "empty_as = 0"

definition n_vme_init :: "native_vme \<Rightarrow> native_vme" where
  "n_vme_init s = s\<lparr>vme_enable := True\<rparr>"

definition n_protect :: "nat \<Rightarrow> native_vme \<Rightarrow> native_vme" where
  "n_protect p s = s\<lparr>spaces := (spaces s)(p := [])\<rparr>"

definition n_munmap :: "page_map \<Rightarrow> (nat \<rightharpoonup> nat) \<Rightarrow> (nat \<rightharpoonup> nat)" where
  "n_munmap e h = (if is_mapped e then h(vpn e := None) else h)"

definition n_mmap :: "page_map \<Rightarrow> (nat \<rightharpoonup> nat) \<Rightarrow> (nat \<rightharpoonup> nat)" where
  "n_mmap e h = h(vpn e \<mapsto> ppn e)"

definition set_mapped :: "bool \<Rightarrow> page_map \<Rightarrow> page_map" where
  "set_mapped b e = e\<lparr>is_mapped := b\<rparr>"

text \<open>To the space of the context that is returned to.\<close>

definition n_switch :: "nat option \<Rightarrow> native_vme \<Rightarrow> native_vme option" where
  "n_switch prot s =
     (if \<not> vme_enable s then Some s
      else do {
        p \<leftarrow> prot;
        if p = cur_as s then Some s
        else
          let h1 = fold n_munmap (spaces s (cur_as s)) (host s);
              sp1 = (spaces s)(cur_as s := map (set_mapped False) (spaces s (cur_as s)));
              h2 = fold n_mmap (sp1 p) h1;
              sp2 = sp1(p := map (set_mapped True) (sp1 p))
          in Some (s\<lparr>host := h2, spaces := sp2, cur_as := p\<rparr>)})"

definition n_map :: "nat \<Rightarrow> nat \<Rightarrow> nat \<Rightarrow> native_vme \<Rightarrow> native_vme option" where
  "n_map p va pa s =
     (let v = va div 4096; f = pa div 4096
      in case find (\<lambda>e. vpn e = v) (spaces s p) of
           Some e \<Rightarrow> if ppn e = f then Some s else None
         | None \<Rightarrow>
             (let e = \<lparr>vpn = v, ppn = f, is_mapped = (p = cur_as s)\<rparr>;
                  s1 = s\<lparr>spaces := (spaces s)(p := e # spaces s p)\<rparr>
              in Some (if p = cur_as s then s1\<lparr>host := n_mmap e (host s1)\<rparr> else s1)))"

section \<open>What is mapped\<close>

definition lookup :: "page_map list \<Rightarrow> nat \<rightharpoonup> nat" where
  "lookup es v = map_option ppn (find (\<lambda>e. vpn e = v) es)"

text \<open>The pages of the host's own mapping of memory, which a space may cover.\<close>

definition own :: "nat \<Rightarrow> bool" where
  "own v \<longleftrightarrow> 0x100 \<le> v \<and> v < 0x8000"

definition n_inv :: "native_vme \<Rightarrow> bool" where
  "n_inv s \<longleftrightarrow>
     (\<forall>p. distinct (map vpn (spaces s p)) \<and> (\<forall>e\<in>set (spaces s p). is_mapped e \<longleftrightarrow> p = cur_as s)) \<and>
     (\<forall>v. (\<not> own v \<longrightarrow> host s v = lookup (spaces s (cur_as s)) v) \<and>
       (lookup (spaces s (cur_as s)) v \<noteq> None \<longrightarrow> host s v = lookup (spaces s (cur_as s)) v))"

definition n_init :: native_vme where
  "n_init = \<lparr>vme_enable = False, spaces = (\<lambda>_. []), cur_as = empty_as, host = (\<lambda>v. if own v then Some v else None)\<rparr>"

lemma n_inv_init: "n_inv n_init"
  by (simp add: n_inv_def n_init_def lookup_def)

lemma lookup_Cons [simp]: "lookup (e # es) v = (if vpn e = v then Some (ppn e) else lookup es v)"
  by (simp add: lookup_def)

lemma lookup_Nil [simp]: "lookup [] v = None"
  by (simp add: lookup_def)

lemma set_mapped_simps [simp]: "vpn (set_mapped b e) = vpn e" "ppn (set_mapped b e) = ppn e" "is_mapped (set_mapped b e) = b"
  by (simp_all add: set_mapped_def)

lemma lookup_set_mapped [simp]: "lookup (map (set_mapped b) es) = lookup es"
  by (rule ext, rename_tac v, induct_tac es) simp_all

lemma lookup_None: "lookup es v = None \<longleftrightarrow> v \<notin> vpn ` set es"
  by (induction es) auto

lemma unmap_all: "\<forall>e\<in>set es. is_mapped e \<Longrightarrow> fold n_munmap es h v = (if lookup es v = None then h v else None)"
  by (induction es arbitrary: h) (auto simp: n_munmap_def)

lemma map_all: "distinct (map vpn es) \<Longrightarrow> fold n_mmap es h v = (case lookup es v of None \<Rightarrow> h v | Some f \<Rightarrow> Some f)"
proof (induction es arbitrary: h)
  case (Cons e es)
  have "lookup es (vpn e) = None" using Cons.prems by (simp add: lookup_None)
  then show ?case using Cons by (auto simp: n_mmap_def split: option.splits)
qed simp

lemma n_switch_inv:
  assumes "n_inv s" "vme_enable s"
  shows "\<exists>s'. n_switch (Some p) s = Some s' \<and> n_inv s' \<and> cur_as s' = p \<and> vme_enable s' \<and>
    (\<forall>q. lookup (spaces s' q) = lookup (spaces s q))"
proof (cases "p = cur_as s")
  case True
  then show ?thesis using assms by (simp add: n_switch_def)
next
  case False
  define h1 where "h1 = fold n_munmap (spaces s (cur_as s)) (host s)"
  define sp where "sp = (spaces s)(cur_as s := map (set_mapped False) (spaces s (cur_as s)), p := map (set_mapped True) (spaces s p))"
  have d: "distinct (map vpn (spaces s q))" "\<forall>e\<in>set (spaces s q). is_mapped e \<longleftrightarrow> q = cur_as s" for q
    using assms(1) by (simp_all add: n_inv_def)
  have h1: "h1 v = (if lookup (spaces s (cur_as s)) v = None then host s v else None)" for v
    unfolding h1_def by (rule unmap_all) (use d(2) [of "cur_as s"] in simp)
  have own: "h1 v = None" if "\<not> own v" for v
    using that assms(1) h1 by (auto simp: n_inv_def)
  define s' where "s' = s\<lparr>host := fold n_mmap (spaces s p) h1, spaces := sp, cur_as := p\<rparr>"
  have sw: "n_switch (Some p) s = Some s'"
    using assms(2) False by (simp add: n_switch_def s'_def h1_def sp_def Let_def)
  have look: "lookup (sp q) = lookup (spaces s q)" for q by (simp add: sp_def)
  have v: "map vpn (sp q) = map vpn (spaces s q)" for q by (simp add: sp_def comp_def)
  have m: "\<forall>e\<in>set (sp q). is_mapped e \<longleftrightarrow> q = p" for q
    using d(2) [of q] False by (auto simp: sp_def)
  have "n_inv s'"
    unfolding n_inv_def s'_def
    using d(1) v m own by (auto simp: look map_all [OF d(1)] split: option.splits)
  then show ?thesis using sw assms(2) look by (simp add: s'_def)
qed

lemma n_map_inv:
  assumes "n_inv s" "n_map p va pa s = Some s'"
  shows "n_inv s' \<and> lookup (spaces s' p) (va div 4096) = Some (pa div 4096) \<and> cur_as s' = cur_as s \<and> vme_enable s' = vme_enable s \<and>
    (\<forall>q w. (q, w) \<noteq> (p, va div 4096) \<longrightarrow> lookup (spaces s' q) w = lookup (spaces s q) w)"
proof (cases "find (\<lambda>e. vpn e = va div 4096) (spaces s p)")
  case (Some e)
  then show ?thesis using assms by (auto simp: n_map_def lookup_def split: if_splits)
next
  case None
  then have new: "va div 4096 \<notin> vpn ` set (spaces s p)" by (auto simp: find_None_iff)
  define e where "e = \<lparr>vpn = va div 4096, ppn = pa div 4096, is_mapped = (p = cur_as s)\<rparr>"
  have e: "vpn e = va div 4096" "ppn e = pa div 4096" "is_mapped e \<longleftrightarrow> p = cur_as s" by (simp_all add: e_def)
  have s': "s' = (if p = cur_as s then s\<lparr>spaces := (spaces s)(p := e # spaces s p), host := n_mmap e (host s)\<rparr>
      else s\<lparr>spaces := (spaces s)(p := e # spaces s p)\<rparr>)"
    using assms(2) None by (simp add: n_map_def Let_def e_def split: if_splits)
  show ?thesis
  proof (cases "p = cur_as s")
    case True
    then show ?thesis using assms(1) new e unfolding s' n_inv_def by (auto simp: n_mmap_def)
  next
    case False
    then show ?thesis using assms(1) new e unfolding s' n_inv_def by auto
  qed
qed

text \<open>An address space is set up while it is not current.\<close>

lemma n_protect_inv: "n_inv s \<Longrightarrow> p \<noteq> cur_as s \<Longrightarrow> n_inv (n_protect p s)"
  by (simp add: n_protect_def n_inv_def)

text \<open>Histories of calls.\<close>

datatype n_call = Protect nat | Map nat nat nat | Switch nat

fun n_call_step :: "n_call \<Rightarrow> native_vme \<Rightarrow> native_vme option" where
  "n_call_step (Protect p) s = (if p = cur_as s then None else Some (n_protect p s))"
| "n_call_step (Map p va pa) s = n_map p va pa s"
| "n_call_step (Switch p) s = n_switch (Some p) s"

fun n_calls :: "n_call list \<Rightarrow> native_vme \<Rightarrow> native_vme option" where
  "n_calls [] s = Some s"
| "n_calls (c # cs) s = do {s' \<leftarrow> n_call_step c s; n_calls cs s'}"

lemma n_calls_inv: "n_calls cs s = Some s' \<Longrightarrow> n_inv s \<Longrightarrow> vme_enable s \<Longrightarrow> n_inv s' \<and> vme_enable s'"
proof (induction cs arbitrary: s)
  case (Cons c cs)
  then obtain s1 where s1: "n_call_step c s = Some s1" "n_calls cs s1 = Some s'" by (auto split: Option.bind_splits)
  have "n_inv s1 \<and> vme_enable s1"
  proof (cases c)
    case (Protect p)
    then show ?thesis using s1(1) n_protect_inv [of s p] Cons.prems by (auto simp: n_protect_def split: if_splits)
  next
    case (Map p va pa)
    then show ?thesis using s1(1) n_map_inv [of s p va pa s1] Cons.prems by simp
  next
    case (Switch p)
    then show ?thesis using s1(1) n_switch_inv [of s p] Cons.prems by auto
  qed
  then show ?case using Cons.IH [OF s1(2)] by blast
qed simp

text \<open>After any calls and a switch, the process sees exactly the pages of the space switched to, except where the
  host's own mapping of memory shows through.\<close>

theorem native_sees_space:
  assumes "n_calls cs (n_vme_init n_init) = Some s"
  shows "\<exists>s'. n_switch (Some p) s = Some s' \<and>
    (\<forall>v. \<not> own v \<longrightarrow> host s' v = lookup (spaces s p) v) \<and> (\<forall>v f. lookup (spaces s p) v = Some f \<longrightarrow> host s' v = Some f)"
proof -
  have "n_inv (n_vme_init n_init)" using n_inv_init by (simp add: n_inv_def n_vme_init_def)
  then have "n_inv s" "vme_enable s" using n_calls_inv [OF assms] by (simp_all add: n_vme_init_def)
  then obtain s' where s': "n_switch (Some p) s = Some s'" "n_inv s'" "cur_as s' = p" "\<forall>q. lookup (spaces s' q) = lookup (spaces s q)"
    using n_switch_inv by blast
  then show ?thesis by (auto simp: n_inv_def)
qed

section \<open>Keys\<close>

definition KEY_QUEUE_LEN :: nat where "KEY_QUEUE_LEN = 1024"

record key_queue =
  queue :: "nat list"
  key_f :: nat
  key_r :: nat

definition add_key :: "nat \<Rightarrow> key_queue \<Rightarrow> key_queue" where
  "add_key k q = q\<lparr>queue := (queue q)[key_r q := k], key_r := (key_r q + 1) mod KEY_QUEUE_LEN\<rparr>"

text \<open>A key event of the window system: its number in the machine's numbering, if it has one, and the bit for
  pressed keys.\<close>

definition key_event :: "(nat \<Rightarrow> nat) \<Rightarrow> bool \<Rightarrow> nat \<Rightarrow> key_queue \<Rightarrow> key_queue" where
  "key_event keymap down scancode q =
     (if keymap scancode \<noteq> 0 then add_key (keymap scancode + (if down then 0x8000 else 0)) q else q)"

definition n_input_read :: "key_queue \<Rightarrow> (bool \<times> nat) \<times> key_queue" where
  "n_input_read q =
     (let (k, q') = (if key_f q \<noteq> key_r q then (queue q ! key_f q, q\<lparr>key_f := (key_f q + 1) mod KEY_QUEUE_LEN\<rparr>) else (0, q))
      in ((k div 0x8000 mod 2 = 1, if k div 0x8000 mod 2 = 1 then k - 0x8000 else k), q'))"

definition keys_ok :: "key_queue \<Rightarrow> bool" where
  "keys_ok q \<longleftrightarrow> length (queue q) = KEY_QUEUE_LEN \<and> key_f q < KEY_QUEUE_LEN \<and> key_r q < KEY_QUEUE_LEN"

definition keys :: "key_queue \<Rightarrow> nat list" where
  "keys q = ring_seg (queue q) (key_f q) (ring_dist KEY_QUEUE_LEN (key_f q) (key_r q))"

lemma add_key_keys:
  assumes "keys_ok q" "length (keys q) < 1023"
  shows "keys (add_key k q) = keys q @ [k] \<and> keys_ok (add_key k q)"
proof -
  let ?d = "ring_dist KEY_QUEUE_LEN (key_f q) (key_r q)"
  have l: "length (queue q) = KEY_QUEUE_LEN" "key_f q < KEY_QUEUE_LEN" "key_r q < KEY_QUEUE_LEN" using assms(1) by (simp_all add: keys_ok_def)
  have "?d < 1023" using assms(2) by (simp add: keys_def)
  then have "Suc (key_r q) mod KEY_QUEUE_LEN \<noteq> key_f q" using ring_full_dist [OF l(2,3)] by (auto simp: KEY_QUEUE_LEN_def)
  then have d: "ring_dist KEY_QUEUE_LEN (key_f q) (Suc (key_r q) mod KEY_QUEUE_LEN) = Suc ?d" by (rule ring_dist_push [OF l(2,3)])
  have r: "(key_f q + ?d) mod KEY_QUEUE_LEN = key_r q" by (rule ring_dist_head [OF l(2,3)])
  have "?d < length (queue q)" using \<open>?d < 1023\<close> l(1) by (simp add: KEY_QUEUE_LEN_def)
  from ring_seg_push [OF this, of "key_f q" k] r l d show ?thesis
    by (simp add: keys_def add_key_def keys_ok_def KEY_QUEUE_LEN_def)
qed

lemma read_key_keys:
  assumes "keys_ok q"
  shows "keys (snd (n_input_read q)) = tl (keys q) \<and> keys_ok (snd (n_input_read q)) \<and>
    (keys q \<noteq> [] \<longrightarrow> fst (n_input_read q) = (hd (keys q) div 0x8000 mod 2 = 1,
       if hd (keys q) div 0x8000 mod 2 = 1 then hd (keys q) - 0x8000 else hd (keys q)))"
proof -
  have l: "length (queue q) = KEY_QUEUE_LEN" "key_f q < KEY_QUEUE_LEN" "key_r q < KEY_QUEUE_LEN" using assms by (simp_all add: keys_ok_def)
  show ?thesis
  proof (cases "key_f q = key_r q")
    case True
    then show ?thesis using assms by (simp add: n_input_read_def keys_def)
  next
    case False
    have d: "Suc (ring_dist KEY_QUEUE_LEN (Suc (key_f q) mod KEY_QUEUE_LEN) (key_r q)) = ring_dist KEY_QUEUE_LEN (key_f q) (key_r q)"
      by (rule ring_dist_pop [OF l(2,3) False])
    then have "0 < ring_dist KEY_QUEUE_LEN (key_f q) (key_r q)" by linarith
    note h = ring_seg_hd_tl [OF this, of "queue q" "key_f q"]
    have "ring_seg (queue q) (Suc (key_f q) mod KEY_QUEUE_LEN) (ring_dist KEY_QUEUE_LEN (Suc (key_f q) mod KEY_QUEUE_LEN) (key_r q)) =
        tl (keys q)"
      using h(2) ring_seg_mod [of "queue q" "Suc (key_f q)"] l(1) by (simp add: keys_def flip: d)
    moreover have "hd (keys q) = queue q ! key_f q" using h(1) l by (simp add: keys_def)
    ultimately show ?thesis using False l
      by (simp add: n_input_read_def keys_def keys_ok_def Let_def KEY_QUEUE_LEN_def)
  qed
qed

text \<open>There is no test for room: the key that fills the ring empties it.\<close>

lemma full_ring_empties:
  assumes "keys_ok q" "length (keys q) = 1023"
  shows "keys (add_key k q) = []"
proof -
  have l: "key_f q < KEY_QUEUE_LEN" "key_r q < KEY_QUEUE_LEN" using assms(1) by (simp_all add: keys_ok_def)
  have "ring_dist KEY_QUEUE_LEN (key_f q) (key_r q) = 1023" using assms(2) by (simp add: keys_def)
  then have "Suc (key_r q) mod KEY_QUEUE_LEN = key_f q"
    using l by (auto simp: ring_dist_def KEY_QUEUE_LEN_def mod_if split: if_splits)
  then show ?thesis by (simp add: keys_def add_key_def)
qed

section \<open>Pictures\<close>

definition SCR_W :: int where "SCR_W = 400"
definition SCR_H :: int where "SCR_H = 300"

definition copy_row :: "(int \<Rightarrow> u32) \<Rightarrow> int \<Rightarrow> int \<Rightarrow> int \<Rightarrow> (int \<Rightarrow> u32) \<Rightarrow> (int \<Rightarrow> u32)" where
  "copy_row pixels p v len fb = (\<lambda>a. if v \<le> a \<and> a < v + len then pixels (p + (a - v)) else fb a)"

text \<open>The rows down to the end of the screen, each copied as a block.\<close>

fun copy_rows :: "nat \<Rightarrow> int \<Rightarrow> int \<Rightarrow> int \<Rightarrow> (int \<Rightarrow> u32) \<Rightarrow> int \<Rightarrow> int \<Rightarrow> (int \<Rightarrow> u32) \<Rightarrow> (int \<Rightarrow> u32) option" where
  "copy_rows 0 j x y pixels w h fb = Some fb"
| "copy_rows (Suc n) j x y pixels w h fb =
     (if j < h \<and> y + j < SCR_H then
        (let len = min w (SCR_W - x)
         in if len < 0 then None
            else copy_rows n (j + 1) x y pixels w h (copy_row pixels (j * w) ((y + j) * SCR_W + x) len fb))
      else Some fb)"

definition n_video_write :: "int \<Rightarrow> int \<Rightarrow> (int \<Rightarrow> u32) \<Rightarrow> int \<Rightarrow> int \<Rightarrow> (int \<Rightarrow> u32) \<Rightarrow> (int \<Rightarrow> u32) option" where
  "n_video_write x y pixels w h fb = copy_rows (nat h) 0 x y pixels w h fb"

text \<open>A picture right of the screen is not clipped: the size of the copy is negative, a huge number for \<^verbatim>\<open>memcpy\<close>.\<close>

lemma right_of_screen: "SCR_W < x \<Longrightarrow> y < SCR_H \<Longrightarrow> 0 < h \<Longrightarrow> n_video_write x y pixels w h fb = None"
  by (cases "nat h") (simp_all add: n_video_write_def Let_def min_less_iff_disj)

lemma n_cell:
  assumes "0 \<le> x" "0 \<le> a" "a < SCR_W" "x + len \<le> SCR_W"
  shows "copy_row pixels p (k * SCR_W + x) len fb (b * SCR_W + a) =
    (if b = k \<and> x \<le> a \<and> a < x + len then pixels (p + (a - x)) else fb (b * SCR_W + a))"
proof -
  have "k * SCR_W + x \<le> b * SCR_W + a \<and> b * SCR_W + a < k * SCR_W + x + len \<longleftrightarrow> b = k \<and> x \<le> a \<and> a < x + len"
  proof
    assume c: "k * SCR_W + x \<le> b * SCR_W + a \<and> b * SCR_W + a < k * SCR_W + x + len"
    then have "k < b + 1" "b < k + 1" using assms unfolding SCR_W_def by linarith+
    then have "b = k" by simp
    then show "b = k \<and> x \<le> a \<and> a < x + len" using c by simp
  qed simp
  then show ?thesis by (auto simp: copy_row_def)
qed

lemma n_rows:
  assumes "0 \<le> x" "x \<le> SCR_W" "0 \<le> w" "0 \<le> a" "a < SCR_W" "j + int n = h"
  shows "\<exists>fb'. copy_rows n j x y pixels w h fb = Some fb' \<and> fb' (b * SCR_W + a) =
    (if j \<le> b - y \<and> b - y < h \<and> b < SCR_H \<and> x \<le> a \<and> a < x + w then pixels ((b - y) * w + (a - x)) else fb (b * SCR_W + a))"
  using assms(6)
proof (induction n arbitrary: j fb)
  case (Suc n)
  show ?case
  proof (cases "y + j < SCR_H")
    case True
    let ?fb = "copy_row pixels (j * w) ((y + j) * SCR_W + x) (min w (SCR_W - x)) fb"
    have c: "?fb (b * SCR_W + a) =
        (if b = y + j \<and> x \<le> a \<and> a < x + min w (SCR_W - x) then pixels (j * w + (a - x)) else fb (b * SCR_W + a))"
      by (rule n_cell) (use assms in auto)
    obtain fb' where f: "copy_rows n (j + 1) x y pixels w h ?fb = Some fb'" "fb' (b * SCR_W + a) =
      (if j + 1 \<le> b - y \<and> b - y < h \<and> b < SCR_H \<and> x \<le> a \<and> a < x + w then pixels ((b - y) * w + (a - x)) else ?fb (b * SCR_W + a))"
      using Suc.IH [of "j + 1" ?fb] Suc.prems by auto
    moreover have "copy_rows (Suc n) j x y pixels w h fb = Some fb'"
      using f(1) True Suc.prems assms(1-3) by (simp add: Let_def min_def)
    moreover have "a < x + min w (SCR_W - x) \<longleftrightarrow> a < x + w" using assms(5) by auto
    ultimately show ?thesis using c True Suc.prems by (intro exI [of _ fb']) auto
  next
    case False
    then show ?thesis by auto
  qed
qed auto

text \<open>Elsewhere a picture appears where it should, clipped at the screen.\<close>

lemma n_video_clips:
  assumes "0 \<le> x" "x \<le> SCR_W" "0 \<le> w" "0 \<le> h" "0 \<le> a" "a < SCR_W"
  shows "\<exists>fb'. n_video_write x y pixels w h fb = Some fb' \<and> fb' (b * SCR_W + a) =
    (if y \<le> b \<and> b < y + h \<and> b < SCR_H \<and> x \<le> a \<and> a < x + w then pixels ((b - y) * w + (a - x)) else fb (b * SCR_W + a))"
  using n_rows [OF assms(1-3,5,6), of 0 "nat h" h y pixels fb b] assms(4)
  by (auto simp: n_video_write_def algebra_simps)

section \<open>The clock\<close>

definition n_uptime :: "int \<times> int \<Rightarrow> int \<times> int \<Rightarrow> int" where
  "n_uptime now boot =
     (let u = snd now - snd boot + 500 in (fst now - fst boot) * 1000 + sgn u * (\<bar>u\<bar> div 1000))"

text \<open>Milliseconds, rounded: never off by more than one.\<close>

lemma n_uptime_close:
  assumes "0 \<le> snd now" "snd now < 1000000" "0 \<le> snd boot" "snd boot < 1000000"
  defines "t \<equiv> \<lambda>v :: int \<times> int. fst v * 1000000 + snd v"
  shows "\<bar>n_uptime now boot * 1000 - (t now - t boot)\<bar> \<le> 1500"
  unfolding n_uptime_def t_def Let_def sgn_if using assms(1-4) by (auto simp: abs_if)

end
