(* ===== verification/Bench_Lib.thy ===== *)
theory Bench_Lib
  imports Prelude
begin

unbundle bit_operations_syntax

text \<open>
  What the benchmarks share (\<^verbatim>\<open>apps/microbench/src/bench.c\<close>): an allocator that only moves a break, random
  numbers, the hash results are compared by, and the marks.  Addresses are words of 32 bits, memory is a function
  from them to bytes; a failed assertion is \<open>None\<close>.
\<close>

record bench =
  bench_start :: u32
  bench_end :: u32
  bench_hbrk :: u32
  bench_mlim :: u32
  bench_mem :: "u32 \<Rightarrow> u8"

definition bench_ROUNDUP :: "u32 \<Rightarrow> u32 \<Rightarrow> u32" where
  "bench_ROUNDUP a sz = (a + sz - 1) AND NOT (sz - 1)"

definition bench_reset :: "bench \<Rightarrow> bench" where
  "bench_reset s = s\<lparr>bench_hbrk := bench_ROUNDUP (bench_start s) 8\<rparr>"

text \<open>Eight bytes of zeros at a time until the pointer meets the break.\<close>

partial_function (option) bench_zero :: "u32 \<Rightarrow> u32 \<Rightarrow> (u32 \<Rightarrow> u8) \<Rightarrow> (u32 \<Rightarrow> u8) option" where
  "bench_zero p q m = (if p = q then Some m else bench_zero (p + 8) q (\<lambda>a. if a - p < 8 then 0 else m a))"

definition bench_alloc :: "u32 \<Rightarrow> bench \<Rightarrow> (u32 \<times> bench) option" where
  "bench_alloc n s =
     (let old = bench_hbrk s; brk = old + bench_ROUNDUP n 8 in
      if bench_start s \<le> brk \<and> brk < bench_end s then
        (case bench_zero old brk (bench_mem s) of
           None \<Rightarrow> None
         | Some m \<Rightarrow>
             if brk - bench_start s \<le> bench_mlim s then Some (old, s\<lparr>bench_hbrk := brk, bench_mem := m\<rparr>) else None)
      else None)"

definition bench_srand :: "u32 \<Rightarrow> u32" where
  "bench_srand s = s AND 0x7fff"

text \<open>The number and the next seed.\<close>

definition bench_rand :: "u32 \<Rightarrow> u32 \<times> u32" where
  "bench_rand seed = (let s = seed * 214013 + 2531011 in (drop_bit 16 s AND 0x7fff, s))"

section \<open>The hash\<close>

definition fnv_byte :: "u8 \<Rightarrow> u32 \<Rightarrow> u32" where
  "fnv_byte b h = (h XOR ucast b) * 16777619"

text \<open>Four bytes in a round, as long as there is more than that.\<close>

function fnv_loop :: "u8 list \<Rightarrow> u32 \<Rightarrow> u32" where
  "fnv_loop bs h = (if 4 < length bs then fnv_loop (drop 4 bs) (fold fnv_byte (take 4 bs) h) else h)"
  by pat_completeness auto

termination by (relation "measure (\<lambda>(bs, h). length bs)") auto

declare fnv_loop.simps [simp del]

text \<open>The shifts to the right are those of a signed number.\<close>

definition fnv_finish :: "u32 \<Rightarrow> u32" where
  "fnv_finish h0 =
     (let h1 = h0 + push_bit 13 h0;
          h2 = h1 XOR signed_drop_bit 7 h1;
          h3 = h2 + push_bit 3 h2;
          h4 = h3 XOR signed_drop_bit 17 h3
      in h4 + push_bit 5 h4)"

definition bench_checksum :: "u8 list \<Rightarrow> u32" where
  "bench_checksum bs = fnv_finish (fnv_loop bs 2166136261)"

definition bench_score :: "u32 \<Rightarrow> u32 \<Rightarrow> u32" where
  "bench_score ref msec = (if msec = 0 then 0 else (100000 div 1000) * ref div msec)"

definition bench_check :: "bench \<Rightarrow> bool" where
  "bench_check s \<longleftrightarrow> \<not> bench_end s - bench_start s < bench_mlim s"

section \<open>Allocation\<close>

lemma roundup_bounds:
  assumes "unat a + 7 < 2 ^ 32"
  shows "unat (bench_ROUNDUP a 8) = (unat a + 7) div 8 * 8"
proof -
  have e: "unat (a + 7) = unat a + 7" using assms by (simp add: unat_word_ariths)
  have "bench_ROUNDUP a 8 = push_bit 3 (drop_bit 3 (a + 7))"
  proof -
    have "(a + 7) AND NOT (7 :: u32) = push_bit 3 (drop_bit 3 (a + 7))"
    proof -
      have m: "(7 :: u32) = mask 3" by (simp add: mask_eq_exp_minus_1)
      have "x AND NOT (mask 3) = push_bit 3 (drop_bit 3 x)" for x :: u32
        by (rule bit_word_eqI) (auto simp: bit_simps)
      then show ?thesis unfolding m .
    qed
    moreover have "a + 8 - 1 = a + 7" "(8 - 1 :: u32) = 7" by simp_all
    ultimately show ?thesis unfolding bench_ROUNDUP_def by (simp only:)
  qed
  then show ?thesis using assms e
    by (simp add: unat_drop_bit_eq push_bit_eq_mult drop_bit_eq_div unat_word_ariths)
qed

text \<open>The loop meets the break after as many rounds as there are words between.\<close>

lemma bench_zero_steps:
  assumes "8 * n < 2 ^ 32"
  shows "bench_zero p (p + of_nat (8 * n)) m = Some (\<lambda>a. if unat (a - p) < 8 * n then 0 else m a)"
  using assms
proof (induction n arbitrary: p m)
  case 0
  then show ?case by (subst bench_zero.simps) simp
next
  case (Suc n)
  have "p \<noteq> p + of_nat (8 * Suc n)"
  proof
    assume "p = p + of_nat (8 * Suc n)"
    then have "(of_nat (8 * Suc n) :: u32) = 0" by simp
    then have "8 * Suc n mod 2 ^ 32 = 0" by (simp only: word_of_nat_eq_0_iff) auto
    then show False using Suc.prems by simp
  qed
  moreover have "p + of_nat (8 * Suc n) = (p + 8) + of_nat (8 * n)" by simp
  moreover have "bench_zero (p + 8) ((p + 8) + of_nat (8 * n)) (\<lambda>a. if a - p < 8 then 0 else m a) =
      Some (\<lambda>a. if unat (a - (p + 8)) < 8 * n then 0 else if a - p < 8 then 0 else m a)"
    using Suc.prems by (intro Suc.IH) simp
  moreover have "(if unat (a - (p + 8)) < 8 * n then 0 else if a - p < 8 then 0 else m a) =
      (if unat (a - p) < 8 * Suc n then 0 else m a)" for a
  proof (cases "a - p < 8")
    case True
    then have "unat (a - p) < 8" by (simp add: word_less_nat_alt)
    then show ?thesis using True by simp
  next
    case False
    then have "unat (a - p) \<ge> 8" by (simp add: word_less_nat_alt)
    moreover have "unat (a - (p + 8)) = unat (a - p) - 8"
    proof -
      have "a - (p + 8) = (a - p) - 8" by simp
      then show ?thesis using \<open>unat (a - p) \<ge> 8\<close> unat_sub [of 8 "a - p"] by (simp only: word_le_nat_alt) simp
    qed
    ultimately show ?thesis using False by auto
  qed
  ultimately show ?case by (subst bench_zero.simps) (simp only: if_False)
qed

text \<open>A break inside the heap, eight bytes aligned.\<close>

definition bench_ok :: "bench \<Rightarrow> bool" where
  "bench_ok s \<longleftrightarrow> bench_start s \<le> bench_hbrk s \<and> 8 dvd unat (bench_hbrk s)"

text \<open>Blocks are aligned, zeroed, follow each other, and what lay before the break is left alone.\<close>

theorem bench_alloc_block:
  assumes "bench_ok s" "unat (bench_hbrk s) + unat n + 7 < 2 ^ 32" "bench_alloc n s = Some (p, s')"
  shows "bench_ok s'" "p = bench_hbrk s" "unat p + unat n \<le> unat (bench_hbrk s')" "bench_hbrk s' < bench_end s"
    "unat (bench_hbrk s') - unat (bench_start s) \<le> unat (bench_mlim s)"
    "unat p \<le> unat a \<Longrightarrow> unat a < unat p + unat n \<Longrightarrow> bench_mem s' a = 0"
    "unat a < unat p \<Longrightarrow> bench_mem s' a = bench_mem s a"
proof -
  define k where "k = (unat n + 7) div 8"
  have r: "unat (bench_ROUNDUP n 8) = k * 8" using assms(2) by (simp add: roundup_bounds k_def)
  have k: "unat n \<le> 8 * k" "8 * k \<le> unat n + 7" by (auto simp: k_def)
  have b: "unat (bench_hbrk s + bench_ROUNDUP n 8) = unat (bench_hbrk s) + 8 * k"
    using assms(2) k r by (simp add: unat_word_ariths)
  have w: "bench_hbrk s + bench_ROUNDUP n 8 = bench_hbrk s + of_nat (8 * k)"
    using r by (metis mult.commute of_nat_unat ucast_id)
  have z: "bench_zero (bench_hbrk s) (bench_hbrk s + bench_ROUNDUP n 8) (bench_mem s) =
      Some (\<lambda>a. if unat (a - bench_hbrk s) < 8 * k then 0 else bench_mem s a)"
    unfolding w using assms(2) k by (intro bench_zero_steps) simp
  have p: "p = bench_hbrk s" and s': "s' = s\<lparr>bench_hbrk := bench_hbrk s + bench_ROUNDUP n 8,
      bench_mem := \<lambda>a. if unat (a - bench_hbrk s) < 8 * k then 0 else bench_mem s a\<rparr>"
    and i: "bench_start s \<le> bench_hbrk s + bench_ROUNDUP n 8" "bench_hbrk s + bench_ROUNDUP n 8 < bench_end s"
    and l: "bench_hbrk s + bench_ROUNDUP n 8 - bench_start s \<le> bench_mlim s"
    using assms(3) unfolding bench_alloc_def by (auto simp: Let_def z split: if_splits)
  show "p = bench_hbrk s" by (rule p)
  show "bench_ok s'" using assms(1) i(1) b by (simp add: bench_ok_def s')
  show "unat p + unat n \<le> unat (bench_hbrk s')" using b k by (simp add: p s')
  show "bench_hbrk s' < bench_end s" using i(2) by (simp add: s')
  show "unat (bench_hbrk s') - unat (bench_start s) \<le> unat (bench_mlim s)"
    using l i(1) by (simp add: s' unat_sub word_le_nat_alt)
  show "bench_mem s' a = 0" if "unat p \<le> unat a" "unat a < unat p + unat n"
  proof -
    have "unat a - unat (bench_hbrk s) < 8 * k" using that k(1) by (simp add: p)
    then show ?thesis using that by (simp add: p s' unat_sub word_le_nat_alt)
  qed
  show "bench_mem s' a = bench_mem s a" if "unat a < unat p"
  proof -
    have "\<not> unat (a - bench_hbrk s) < 8 * k"
    proof -
      have "unat (a - bench_hbrk s) = 2 ^ 32 + unat a - unat (bench_hbrk s)"
        using that unat_sub_if' [of a "bench_hbrk s"] by (simp add: p)
      then show ?thesis using assms(2) k by simp
    qed
    then show ?thesis by (simp add: s')
  qed
qed

section \<open>Random numbers and the hash\<close>

lemma bench_rand_bound: "fst (bench_rand seed) < 0x8000"
proof -
  have "fst (bench_rand seed) \<le> 0x7fff" by (simp add: bench_rand_def Let_def word_and_le1)
  then show ?thesis by (rule order.strict_trans1) simp
qed

text \<open>The last up to four bytes are not in the hash: of a sorted array the last number is never looked at.\<close>

lemma fnv_loop_blocks:
  assumes "length xs = 4 * n" "0 < length ys" "length ys \<le> 4"
  shows "fnv_loop (xs @ ys) h = fold fnv_byte xs h"
  using assms(1)
proof (induction n arbitrary: xs h)
  case 0
  then show ?case using assms by (subst fnv_loop.simps) simp
next
  case (Suc n)
  have "fnv_loop (xs @ ys) h = fnv_loop (drop 4 xs @ ys) (fold fnv_byte (take 4 xs) h)"
    using Suc.prems assms(2) by (subst fnv_loop.simps) simp
  also have "\<dots> = fold fnv_byte (drop 4 xs) (fold fnv_byte (take 4 xs) h)" using Suc by simp
  also have "\<dots> = fold fnv_byte xs h" by (metis append_take_drop_id fold_append comp_apply)
  finally show ?case .
qed

theorem checksum_ignores_tail:
  assumes "4 dvd length xs" "0 < length ys" "length ys \<le> 4" "length ys' = length ys"
  shows "bench_checksum (xs @ ys) = bench_checksum (xs @ ys')"
  using assms fnv_loop_blocks [of xs _ ys] fnv_loop_blocks [of xs _ ys'] by (auto simp: bench_checksum_def elim!: dvdE)

lemma checksum_ignores_tail_witness: "bench_checksum [1, 2, 3, 4, 5] = bench_checksum [1, 2, 3, 4, 6]"
  by (rule checksum_ignores_tail [of "[1, 2, 3, 4]" "[5]" "[6]", simplified]) (simp add: numeral_eq_Suc)

end
