(* ===== verification/Bench_Sort.thy ===== *)
theory Bench_Sort
  imports Prelude "HOL-Library.Multiset"
begin

text \<open>
  The quick sort of the benchmarks (\<^verbatim>\<open>apps/microbench/src/qsort/qsort.c\<close>) on a list in place of the array: the
  partition loop by exchanges, and the two recursive calls.
\<close>

definition swap_at :: "nat \<Rightarrow> nat \<Rightarrow> 'a list \<Rightarrow> 'a list" where
  "swap_at i j a = a[i := a ! j, j := a ! i]"

text \<open>The loop over \<open>j\<close>: the last place of the smaller elements, and the array.\<close>

function partition_loop :: "'a::linorder \<Rightarrow> nat \<Rightarrow> nat \<Rightarrow> nat \<Rightarrow> 'a list \<Rightarrow> nat \<times> 'a list" where
  "partition_loop p r j pivot a =
     (if j < r then
        (if a ! j < p then partition_loop p r (j + 1) (pivot + 1) (swap_at (pivot + 1) j a)
         else partition_loop p r (j + 1) pivot a)
      else (pivot, a))"
  by pat_completeness auto

termination by (relation "measure (\<lambda>(p, r, j, pivot, a). r - j)") auto

declare partition_loop.simps [simp del]

definition qsort_partition :: "nat \<Rightarrow> nat \<Rightarrow> 'a::linorder list \<Rightarrow> nat \<times> 'a list" where
  "qsort_partition l r a =
     (let (pivot, a1) = partition_loop (a ! l) r (l + 1) l a in (pivot, swap_at pivot l a1))"

lemma partition_loop_bounds:
  "pivot < j \<Longrightarrow> j \<le> r \<Longrightarrow> pivot \<le> fst (partition_loop p r j pivot a) \<and> fst (partition_loop p r j pivot a) < r"
proof (induction p r j pivot a rule: partition_loop.induct)
  case (1 p r j pivot a)
  then show ?case by (subst (1 2) partition_loop.simps) (cases "j < r"; cases "a ! j < p"; auto)
qed

lemma qsort_partition_bounds: "l < r \<Longrightarrow> l \<le> fst (qsort_partition l r a) \<and> fst (qsort_partition l r a) < r"
  using partition_loop_bounds [of l "l + 1" r "a ! l" a] by (auto simp: qsort_partition_def split: prod.splits)

function myqsort :: "nat \<Rightarrow> nat \<Rightarrow> 'a::linorder list \<Rightarrow> 'a list" where
  "myqsort l r a =
     (if l < r then
        (let (pivot, a1) = qsort_partition l r a in myqsort (pivot + 1) r (myqsort l pivot a1))
      else a)"
  by pat_completeness auto

termination
proof (relation "measure (\<lambda>(l, r, a). r - l)")
  fix l r :: nat and a :: "'a list" and x pivot a1
  assume "l < r" "x = qsort_partition l r a" "(pivot, a1) = x"
  then have "l \<le> pivot" "pivot < r" using qsort_partition_bounds [of l r a] by (metis fst_conv)+
  then show "((l, pivot, a1), l, r, a) \<in> measure (\<lambda>(l, r, a). r - l)"
    "((pivot + 1, r, myqsort l pivot a1), l, r, a) \<in> measure (\<lambda>(l, r, a). r - l)" by auto
qed simp

declare myqsort.simps [simp del]

definition bench_qsort_run :: "'a::linorder list \<Rightarrow> 'a list" where
  "bench_qsort_run data = myqsort 0 (length data) data"

section \<open>Sorting\<close>

lemma swap_at_simps [simp]: "length (swap_at i j a) = length a"
  by (simp add: swap_at_def)

lemma swap_at_nth: "i < length a \<Longrightarrow> j < length a \<Longrightarrow> swap_at i j a ! k = (if k = i then a ! j else if k = j then a ! i else a ! k)"
  by (auto simp: swap_at_def nth_list_update)

lemma swap_at_mset: "i < length a \<Longrightarrow> j < length a \<Longrightarrow> mset (swap_at i j a) = mset a"
  unfolding swap_at_def by (rule mset_swap)

text \<open>The elements up to the pivot are smaller than \<open>p\<close>, those behind it are not; nothing outside moves.\<close>

lemma partition_loop_parts:
  assumes "l \<le> pivot" "pivot < j" "j \<le> r" "r \<le> length a"
    and "\<forall>i. l < i \<and> i \<le> pivot \<longrightarrow> a ! i < p" "\<forall>i. pivot < i \<and> i < j \<longrightarrow> p \<le> a ! i"
    and "partition_loop p r j pivot a = (pivot', a')"
  shows "mset a' = mset a \<and> (\<forall>i. i \<le> l \<or> r \<le> i \<longrightarrow> a' ! i = a ! i) \<and>
    (\<forall>i. l < i \<and> i \<le> pivot' \<longrightarrow> a' ! i < p) \<and> (\<forall>i. pivot' < i \<and> i < r \<longrightarrow> p \<le> a' ! i)"
  using assms
proof (induction p r j pivot a rule: partition_loop.induct)
  case (1 p r j pivot a)
  show ?case
  proof (cases "j < r")
    case False
    then show ?thesis using 1(3-) by (subst (asm) partition_loop.simps) auto
  next
    case True
    show ?thesis
    proof (cases "a ! j < p")
      case False
      then have "partition_loop p r (j + 1) pivot a = (pivot', a')" using 1(9) True by (subst (asm) partition_loop.simps) simp
      moreover have "\<forall>i. pivot < i \<and> i < j + 1 \<longrightarrow> p \<le> a ! i" using 1(8) False by (auto simp: less_Suc_eq)
      ultimately show ?thesis using 1(2) [OF True False] 1(3-7) True by simp
    next
      case less: True
      let ?b = "swap_at (Suc pivot) j a"
      have l: "Suc pivot < length a" "j < length a" using True 1(4,6) by auto
      have "partition_loop p r (j + 1) (pivot + 1) ?b = (pivot', a')" using 1(9) True less by (subst (asm) partition_loop.simps) simp
      moreover have "\<forall>i. l < i \<and> i \<le> pivot + 1 \<longrightarrow> ?b ! i < p"
        using 1(4,7) less by (auto simp: swap_at_nth [OF l])
      moreover have "\<forall>i. pivot + 1 < i \<and> i < j + 1 \<longrightarrow> p \<le> ?b ! i"
        using 1(8) by (auto simp: swap_at_nth [OF l] less_Suc_eq)
      ultimately have "mset a' = mset ?b \<and> (\<forall>i. i \<le> l \<or> r \<le> i \<longrightarrow> a' ! i = ?b ! i) \<and>
        (\<forall>i. l < i \<and> i \<le> pivot' \<longrightarrow> a' ! i < p) \<and> (\<forall>i. pivot' < i \<and> i < r \<longrightarrow> p \<le> a' ! i)"
        using 1(1) [OF True less] 1(3-6) True by simp
      then show ?thesis using 1(3,4) True swap_at_mset [OF l] by (auto simp: swap_at_nth [OF l])
    qed
  qed
qed

lemma qsort_partition_parts:
  assumes "l < r" "r \<le> length a" "qsort_partition l r a = (m, a')"
  shows "l \<le> m \<and> m < r \<and> mset a' = mset a \<and> (\<forall>i. i < l \<or> r \<le> i \<longrightarrow> a' ! i = a ! i) \<and>
    (\<forall>i. l \<le> i \<and> i < m \<longrightarrow> a' ! i \<le> a' ! m) \<and> (\<forall>i. m < i \<and> i < r \<longrightarrow> a' ! m \<le> a' ! i)"
proof -
  obtain a1 where p: "partition_loop (a ! l) r (l + 1) l a = (m, a1)" "a' = swap_at m l a1"
    using assms(3) by (auto simp: qsort_partition_def split: prod.splits)
  have m: "l \<le> m" "m < r" using partition_loop_bounds [of l "l + 1" r "a ! l" a] assms(1) p(1) by auto
  have q: "mset a1 = mset a" "\<forall>i. i \<le> l \<or> r \<le> i \<longrightarrow> a1 ! i = a ! i" "\<forall>i. l < i \<and> i \<le> m \<longrightarrow> a1 ! i < a ! l"
    "\<forall>i. m < i \<and> i < r \<longrightarrow> a ! l \<le> a1 ! i"
  proof -
    have "\<forall>i. l < i \<and> i \<le> l \<longrightarrow> a ! i < a ! l" "\<forall>i. l < i \<and> i < l + 1 \<longrightarrow> a ! l \<le> a ! i" by auto
    note partition_loop_parts [OF le_refl _ _ assms(2) this p(1)]
    then show "mset a1 = mset a" "\<forall>i. i \<le> l \<or> r \<le> i \<longrightarrow> a1 ! i = a ! i" "\<forall>i. l < i \<and> i \<le> m \<longrightarrow> a1 ! i < a ! l"
      "\<forall>i. m < i \<and> i < r \<longrightarrow> a ! l \<le> a1 ! i" using assms(1) by simp_all
  qed
  have len: "length a1 = length a" using mset_eq_length [OF q(1)] .
  then have l: "m < length a1" "l < length a1" using m assms(1,2) by auto
  have n: "a' ! k = (if k = m then a ! l else if k = l then a1 ! m else a1 ! k)" for k
    using q(2) by (simp add: p(2) swap_at_nth [OF l])
  have "a1 ! m \<le> a ! l" using q(2,3) m(1) by (cases "l = m") (auto intro: less_imp_le)
  then show ?thesis using m q swap_at_mset [OF l] p(2) unfolding n by (auto intro: less_imp_le)
qed

text \<open>Two arrays of the same elements that agree outside a range have the same elements in it.\<close>

lemma segment_mset:
  assumes "mset a = mset b" "l \<le> m" "m \<le> length a" "\<forall>i. i < l \<or> m \<le> i \<longrightarrow> a ! i = b ! i"
  shows "image_mset ((!) a) (mset [l..<m]) = image_mset ((!) b) (mset [l..<m])"
proof -
  have len: "length a = length b" using mset_eq_length [OF assms(1)] .
  have split: "[0..<length a] = [0..<l] @ [l..<m] @ [m..<length a]"
    using assms(2,3) by (metis le_add_diff_inverse le_trans upt_add_eq_append zero_le)
  have whole: "mset c = image_mset ((!) c) (mset [0..<l]) + image_mset ((!) c) (mset [l..<m]) + image_mset ((!) c) (mset [m..<length a])"
    if "length c = length a" for c
  proof -
    have "mset c = mset (map ((!) c) [0..<length a])" using that by (metis map_nth)
    then show ?thesis by (simp add: split)
  qed
  have "image_mset ((!) a) (mset [0..<l]) = image_mset ((!) b) (mset [0..<l])"
    "image_mset ((!) a) (mset [m..<length a]) = image_mset ((!) b) (mset [m..<length a])"
    using assms(4) by (auto intro!: image_mset_cong)
  then show ?thesis using whole [of a] whole [of b] len assms(1) by simp
qed

lemma segment_values:
  assumes "mset a = mset b" "m \<le> length a" "\<forall>i. i < l \<or> m \<le> i \<longrightarrow> a ! i = b ! i" "l \<le> i" "i < m"
  shows "\<exists>k. l \<le> k \<and> k < m \<and> a ! i = b ! k"
proof -
  have "l \<le> m" using assms(4,5) by simp
  have "a ! i \<in># image_mset ((!) a) (mset [l..<m])" using assms(4,5) by auto
  then have "a ! i \<in># image_mset ((!) b) (mset [l..<m])"
    unfolding segment_mset [OF assms(1) \<open>l \<le> m\<close> assms(2,3)] .
  then show ?thesis by auto
qed

text \<open>The places \<open>l\<close> up to \<open>r\<close> are in order, nothing outside changes, and no element is lost.\<close>

lemma myqsort_parts:
  assumes "r \<le> length a"
  shows "mset (myqsort l r a) = mset a \<and> (\<forall>i. i < l \<or> r \<le> i \<longrightarrow> myqsort l r a ! i = a ! i) \<and>
    (\<forall>i j. l \<le> i \<and> i \<le> j \<and> j < r \<longrightarrow> myqsort l r a ! i \<le> myqsort l r a ! j)"
  using assms
proof (induction l r a rule: myqsort.induct)
  case (1 l r a)
  show ?case
  proof (cases "l < r")
    case False
    then show ?thesis by (subst (1 2 3 4) myqsort.simps) auto
  next
    case True
    obtain m a1 where p: "qsort_partition l r a = (m, a1)" by fastforce
    define b where "b = myqsort l m a1"
    define c where "c = myqsort (m + 1) r b"
    have s: "myqsort l r a = c" using True p by (subst myqsort.simps) (simp add: b_def c_def)
    have m: "l \<le> m" "m < r" "mset a1 = mset a" "\<forall>i. i < l \<or> r \<le> i \<longrightarrow> a1 ! i = a ! i"
      "\<forall>i. l \<le> i \<and> i < m \<longrightarrow> a1 ! i \<le> a1 ! m" "\<forall>i. m < i \<and> i < r \<longrightarrow> a1 ! m \<le> a1 ! i"
      using qsort_partition_parts [OF True 1(3) p] by auto
    have l1: "length a1 = length a" using mset_eq_length [OF m(3)] .
    have b: "mset b = mset a1" "\<forall>i. i < l \<or> m \<le> i \<longrightarrow> b ! i = a1 ! i" "\<forall>i j. l \<le> i \<and> i \<le> j \<and> j < m \<longrightarrow> b ! i \<le> b ! j"
      using 1(1) [OF True p [symmetric] refl] l1 1(3) m(2) by (auto simp: b_def)
    have lb: "length b = length a" using mset_eq_length [OF b(1)] l1 by simp
    have c: "mset c = mset b" "\<forall>i. i < m + 1 \<or> r \<le> i \<longrightarrow> c ! i = b ! i" "\<forall>i j. m + 1 \<le> i \<and> i \<le> j \<and> j < r \<longrightarrow> c ! i \<le> c ! j"
      using 1(2) [OF True p [symmetric] refl] lb 1(3) by (auto simp: c_def b_def)
    have low: "c ! i \<le> c ! m" if i: "l \<le> i" "i < m" for i
    proof -
      obtain k where k: "l \<le> k" "k < m" "b ! i = a1 ! k"
        using segment_values [of b a1 m l i] b(1,2) i lb 1(3) m(2) by auto
      then have "b ! i \<le> a1 ! m" using m(5) by simp
      then show ?thesis using b(2) c(2) i by simp
    qed
    have high: "c ! m \<le> c ! j" if j: "m < j" "j < r" for j
    proof -
      obtain k where k: "m + 1 \<le> k" "k < r" "c ! j = b ! k"
        using segment_values [of c b r "m + 1" j] c(1,2) j lb 1(3) mset_eq_length [OF c(1)] by auto
      then have "b ! k = a1 ! k" "a1 ! m \<le> a1 ! k" using b(2) m(6) by auto
      then show ?thesis using k(3) b(2) c(2) by simp
    qed
    have "c ! i \<le> c ! j" if ij: "l \<le> i" "i \<le> j" "j < r" for i j
    proof -
      consider "j < m" | "i < m" "m \<le> j" | "i = m" | "m < i" using ij by linarith
      then show ?thesis
      proof cases
        case 1
        then show ?thesis using ij b(3) c(2) by simp
      next
        case 2
        have "c ! i \<le> c ! m" by (rule low) (use 2 ij in auto)
        moreover have "c ! m \<le> c ! j" using high [of j] 2 ij by (cases "j = m") auto
        ultimately show ?thesis by (rule order_trans)
      next
        case 3
        then show ?thesis using high [of j] ij by (cases "j = m") auto
      next
        case 4
        then show ?thesis using c(3) ij by simp
      qed
    qed
    moreover have "\<forall>i. i < l \<or> r \<le> i \<longrightarrow> c ! i = a ! i" using m(1,2,4) b(2) c(2) by auto
    moreover have "mset c = mset a" using c(1) b(1) m(3) by simp
    ultimately show ?thesis unfolding s by blast
  qed
qed

text \<open>The benchmark sorts its array.\<close>

theorem bench_qsort_sorts: "bench_qsort_run data = sort data"
proof (rule properties_for_sort [symmetric])
  note p = myqsort_parts [of "length data" data 0]
  show "mset (bench_qsort_run data) = mset data" using p by (simp add: bench_qsort_run_def)
  then have "length (bench_qsort_run data) = length data" by (rule mset_eq_length)
  then show "sorted (bench_qsort_run data)" using p by (simp add: sorted_iff_nth_mono bench_qsort_run_def)
qed

end
