(* ===== verification/Bench_Queen.thy ===== *)
theory Bench_Queen
  imports Prelude
begin

unbundle bit_operations_syntax

text \<open>
  The queens of the benchmarks (\<^verbatim>\<open>apps/microbench/src/queen/queen.c\<close>): the search over the columns that are free, a
  set of columns being the bits of a word.
\<close>

definition low_bit :: "u32 \<Rightarrow> u32" where
  "low_bit pos = pos AND (NOT pos + 1)"

lemma odd_low_bit: "odd q \<Longrightarrow> low_bit q = 1"
proof -
  assume "odd q"
  then have q: "bit q 0" using bit_iff_odd [of q 0] by simp
  have "bit (NOT q AND 1) n \<longleftrightarrow> bit 0 n" "bit (q AND (NOT q OR 1)) n \<longleftrightarrow> bit 1 n" for n
    using q by (auto simp only: bit_and_iff bit_or_iff bit_not_iff bit_1_iff bit_0_eq bot_apply bot_bool_def)
  then have "NOT q AND 1 = 0" "q AND (NOT q OR 1) = 1" by (auto intro!: bit_eqI)
  then show "low_bit q = 1" by (simp only: low_bit_def disjunctive_add_eq_or)
qed

lemma low_bit_eq:
  assumes "pos \<noteq> 0"
  obtains k where "k < 32" "bit pos k" "\<forall>j<k. \<not> bit pos j" "low_bit pos = 2 ^ k"
proof -
  have "\<exists>k. bit pos k" using assms by (metis bit_0_eq bit_eqI bot_apply bot_bool_def)
  define k where "k = (LEAST k. bit pos k)"
  have b: "bit pos k" unfolding k_def using \<open>\<exists>k. bit pos k\<close> by (rule LeastI_ex)
  have l: "\<not> bit pos j" if "j < k" for j using that not_less_Least unfolding k_def by blast
  have k: "k < 32" using bit_imp_le_length [OF b] by simp
  have p: "pos = push_bit k (drop_bit k pos)"
  proof (rule bit_word_eqI)
    fix n
    assume "n < LENGTH(32)"
    then show "bit pos n \<longleftrightarrow> bit (push_bit k (drop_bit k pos)) n" using l [of n] by (cases "n < k") (auto simp: bit_simps)
  qed
  have o: "odd (drop_bit k pos)" using b by (simp add: bit_iff_odd_drop_bit)
  have "low_bit pos = pos AND (- pos)" by (simp add: low_bit_def not_eq_complement)
  also have "\<dots> = push_bit k (drop_bit k pos AND - drop_bit k pos)"
    by (subst (1 2) p) (simp only: push_bit_minus [symmetric] push_bit_and)
  also have "\<dots> = 2 ^ k" using odd_low_bit [OF o] by (simp add: low_bit_def not_eq_complement)
  finally show ?thesis using that k b l by blast
qed

lemma low_bit_diff:
  assumes "pos \<noteq> 0"
  shows "pos - low_bit pos = pos AND NOT (low_bit pos)"
proof -
  have "pos = (pos AND NOT (low_bit pos)) OR low_bit pos" by (auto intro!: bit_word_eqI simp: low_bit_def bit_simps)
  also have "\<dots> = (pos AND NOT (low_bit pos)) + low_bit pos"
    by (rule disjunctive_add_eq_or [symmetric]) (auto intro!: bit_word_eqI simp: bit_simps)
  finally show ?thesis by (metis add_diff_cancel)
qed

lemma less_clear: "bit x k \<Longrightarrow> x AND NOT (2 ^ k) < (x :: u32)"
proof -
  assume b: "bit x k"
  then have "k < 32" using bit_imp_le_length [OF b] by simp
  then have "\<not> bit (x AND NOT (2 ^ k)) k" by (simp add: bit_simps)
  then have "x AND NOT (2 ^ k) \<noteq> x" using b by metis
  moreover have "x AND NOT (2 ^ k) \<le> x" by (rule word_and_le2)
  ultimately show ?thesis by simp
qed

text \<open>The values of \<open>p\<close> in the loop.\<close>

function low_bits :: "u32 \<Rightarrow> u32 list" where
  "low_bits pos = (if pos = 0 then [] else low_bit pos # low_bits (pos - low_bit pos))"
  by pat_completeness auto

termination
proof (relation "measure unat")
  fix pos :: u32
  assume "pos \<noteq> 0"
  then obtain k where k: "bit pos k" "low_bit pos = 2 ^ k" by (rule low_bit_eq)
  have "pos - low_bit pos = pos AND NOT (2 ^ k)" using low_bit_diff [OF \<open>pos \<noteq> 0\<close>] k(2) by simp
  then show "(pos - low_bit pos, pos) \<in> measure unat" using less_clear [OF k(1)] by (simp only: in_measure word_less_nat_alt)
qed simp

declare low_bits.simps [simp del]

lemma filter_first:
  assumes "k < n" "P k" "\<forall>j<k. \<not> P j"
  shows "filter P [0..<n] = k # filter (\<lambda>j. P j \<and> j \<noteq> k) [0..<n]"
proof -
  have u: "[0..<n] = [0..<k] @ k # [Suc k..<n]" using assms(1) upt_add_eq_append [of 0 k "n - k"] upt_conv_Cons [of k n] by simp
  have "filter P [0..<k] = []" "filter (\<lambda>j. P j \<and> j \<noteq> k) [0..<k] = []" using assms(3) by (auto simp: filter_empty_conv)
  moreover have "filter (\<lambda>j. P j \<and> j \<noteq> k) [Suc k..<n] = filter P [Suc k..<n]" by (rule filter_cong) auto
  ultimately show ?thesis unfolding u using assms(2) by simp
qed

lemma low_bits_set: "low_bits pos = map (\<lambda>k. 2 ^ k) (filter (bit pos) [0..<32])"
proof (induction pos rule: low_bits.induct)
  case (1 pos)
  show ?case
  proof (cases "pos = 0")
    case True
    then show ?thesis by (subst low_bits.simps) simp
  next
    case False
    then obtain k where k: "k < 32" "bit pos k" "\<forall>j<k. \<not> bit pos j" "low_bit pos = 2 ^ k" by (rule low_bit_eq)
    have "pos - low_bit pos = pos AND NOT (2 ^ k)" using low_bit_diff [OF False] k(4) by simp
    then have "filter (bit (pos - low_bit pos)) [0..<32] = filter (\<lambda>j. bit pos j \<and> j \<noteq> k) [0..<32]"
      by (intro filter_cong) (auto simp: bit_simps)
    then show ?thesis
      using 1 [OF False] False filter_first [OF k(1-3)] k(4) by (subst low_bits.simps) simp
  qed
qed

function queen_dfs :: "u32 \<Rightarrow> u32 \<Rightarrow> u32 \<Rightarrow> u32 \<Rightarrow> u32" where
  "queen_dfs FULL row ld rd =
     (if row = FULL then 1
      else sum_list (map (\<lambda>p. queen_dfs FULL (row OR p) (push_bit 1 (ld OR p)) (drop_bit 1 (rd OR p)))
                         (low_bits (FULL AND NOT (row OR ld OR rd)))))"
  by pat_completeness auto

termination
proof (relation "measure (\<lambda>(FULL, row, ld, rd). unat (FULL AND NOT row))")
  fix FULL row ld rd p :: u32
  assume "p \<in> set (low_bits (FULL AND NOT (row OR ld OR rd)))"
  then obtain k where k: "p = 2 ^ k" "bit (FULL AND NOT row) k" by (auto simp: low_bits_set bit_simps)
  have "FULL AND NOT (row OR p) = (FULL AND NOT row) AND NOT p" by (auto intro!: bit_word_eqI simp: bit_simps)
  then have "FULL AND NOT (row OR p) < FULL AND NOT row" using less_clear [OF k(2)] k(1) by simp
  then show "((FULL, row OR p, push_bit 1 (ld OR p), drop_bit 1 (rd OR p)), FULL, row, ld, rd)
      \<in> measure (\<lambda>(FULL, row, ld, rd). unat (FULL AND NOT row))"
    by (simp add: word_less_nat_alt)
qed simp

declare queen_dfs.simps [simp del]

definition bench_queen_run :: "nat \<Rightarrow> u32" where
  "bench_queen_run n = queen_dfs (push_bit n 1 - 1) 0 0 0"

section \<open>Placements\<close>

text \<open>The columns of the rows so far, the latest first; a column is free when no queen holds it or its diagonals.\<close>

definition unattacked :: "nat list \<Rightarrow> nat \<Rightarrow> bool" where
  "unattacked cs c \<longleftrightarrow> (\<forall>k<length cs. cs ! k \<noteq> c \<and> cs ! k + Suc k \<noteq> c \<and> c + Suc k \<noteq> cs ! k)"

fun placed :: "nat \<Rightarrow> nat list \<Rightarrow> bool" where
  "placed n [] \<longleftrightarrow> True"
| "placed n (c # cs) \<longleftrightarrow> c < n \<and> unattacked cs c \<and> placed n cs"

definition extensions :: "nat \<Rightarrow> nat list \<Rightarrow> nat list set" where
  "extensions n cs = {xs. length xs = n \<and> placed n xs \<and> drop (n - length cs) xs = cs}"

lemma placed_below: "placed n cs \<Longrightarrow> set cs \<subseteq> {..<n}"
  by (induction cs) auto

lemma placed_distinct: "placed n cs \<Longrightarrow> distinct cs"
  by (induction cs) (auto simp: unattacked_def in_set_conv_nth)

lemma placed_drop: "placed n cs \<Longrightarrow> placed n (drop k cs)"
  by (induction cs arbitrary: k) (auto simp: drop_Cons split: nat.split)

lemma extensions_full: "length cs = n \<Longrightarrow> placed n cs \<Longrightarrow> extensions n cs = {cs}"
  by (auto simp: extensions_def)

lemma extensions_finite: "finite (extensions n cs)"
proof -
  have "extensions n cs \<subseteq> {xs. set xs \<subseteq> {..<n} \<and> length xs = n}" by (auto simp: extensions_def dest: placed_below)
  then show ?thesis by (rule finite_subset) (rule finite_lists_length_eq, simp)
qed

lemma extensions_step:
  assumes "length cs < n"
  shows "extensions n cs = (\<Union>c\<in>{c. c < n \<and> unattacked cs c}. extensions n (c # cs))"
proof (intro set_eqI iffI)
  fix xs
  assume x: "xs \<in> extensions n cs"
  define d where "d = n - Suc (length cs)"
  have d: "n - length cs = Suc d" "d < n" using assms by (auto simp: d_def)
  then have s: "drop d xs = xs ! d # cs" using x Cons_nth_drop_Suc [of d xs] by (auto simp: extensions_def)
  then have "placed n (xs ! d # cs)" using x placed_drop [of n xs d] by (auto simp: extensions_def)
  then show "xs \<in> (\<Union>c\<in>{c. c < n \<and> unattacked cs c}. extensions n (c # cs))"
    using x s d_def by (auto simp: extensions_def)
next
  fix xs
  assume "xs \<in> (\<Union>c\<in>{c. c < n \<and> unattacked cs c}. extensions n (c # cs))"
  then obtain c where c: "length xs = n" "placed n xs" "drop (n - Suc (length cs)) xs = c # cs" by (auto simp: extensions_def)
  have "n - length cs = Suc (n - Suc (length cs))" using assms by simp
  then have "drop (n - length cs) xs = tl (drop (n - Suc (length cs)) xs)" by (simp add: drop_Suc tl_drop)
  then show "xs \<in> extensions n cs" using c by (simp add: extensions_def)
qed

lemma extensions_disjoint: "length cs < n \<Longrightarrow> c \<noteq> c' \<Longrightarrow> extensions n (c # cs) \<inter> extensions n (c' # cs) = {}"
  by (auto simp: extensions_def)

lemma extensions_card:
  assumes "length cs < n"
  shows "card (extensions n cs) = (\<Sum>c\<leftarrow>filter (unattacked cs) [0..<n]. card (extensions n (c # cs)))"
proof -
  have "card (extensions n cs) = (\<Sum>c\<in>{c. c < n \<and> unattacked cs c}. card (extensions n (c # cs)))"
    unfolding extensions_step [OF assms]
    by (rule card_UN_disjoint) (auto simp: extensions_finite extensions_disjoint [OF assms])
  also have "{c. c < n \<and> unattacked cs c} = set (filter (unattacked cs) [0..<n])" by auto
  finally show ?thesis by (simp only: sum_list_distinct_conv_sum_set distinct_filter distinct_upt)
qed

section \<open>The words of a placement\<close>

text \<open>The three words hold the columns taken, and the columns the two diagonals of every queen reach in this row.\<close>

definition queen_words :: "nat list \<Rightarrow> u32 \<Rightarrow> u32 \<Rightarrow> u32 \<Rightarrow> bool" where
  "queen_words cs row ld rd \<longleftrightarrow>
     (\<forall>c<32. (bit row c \<longleftrightarrow> (\<exists>k<length cs. cs ! k = c)) \<and>
             (bit ld c \<longleftrightarrow> (\<exists>k<length cs. cs ! k + (k + 1) = c)) \<and>
             (bit rd c \<longleftrightarrow> (\<exists>k<length cs. cs ! k = c + (k + 1))))"

lemma queen_words_step:
  assumes "queen_words cs row ld rd" "c < n" "n < 32" "set cs \<subseteq> {..<n}"
  shows "queen_words (c # cs) (row OR 2 ^ c) (push_bit 1 (ld OR 2 ^ c)) (drop_bit 1 (rd OR 2 ^ c))"
  unfolding queen_words_def
proof (intro allI impI conjI)
  fix b :: nat
  assume b: "b < 32"
  have ex: "(\<exists>k<length (c # cs). P ((c # cs) ! k) k) \<longleftrightarrow> P c 0 \<or> (\<exists>k<length cs. P (cs ! k) (Suc k))" for P
    by (simp add: Ex_less_Suc2)
  show "bit (row OR 2 ^ c) b \<longleftrightarrow> (\<exists>k<length (c # cs). (c # cs) ! k = b)"
    using assms(1) b unfolding ex [of "\<lambda>x k. x = b"] by (auto simp: queen_words_def bit_simps)
  show "bit (push_bit 1 (ld OR 2 ^ c)) b \<longleftrightarrow> (\<exists>k<length (c # cs). (c # cs) ! k + (k + 1) = b)"
  proof (cases b)
    case 0
    then show ?thesis by (simp only: bit_push_bit_iff) simp
  next
    case (Suc b')
    then have "bit ld b' \<longleftrightarrow> (\<exists>k<length cs. cs ! k + (k + 1) = b')" using assms(1) b by (simp add: queen_words_def)
    moreover have "bit (push_bit 1 (ld OR 2 ^ c)) b \<longleftrightarrow> bit ld b' \<or> c = b'"
      using b Suc by (simp only: bit_push_bit_iff bit_or_iff) (auto simp: bit_simps)
    ultimately show ?thesis using Suc unfolding ex [of "\<lambda>x k. x + (k + 1) = b"] by auto
  qed
  have r: "bit rd (Suc b) \<longleftrightarrow> (\<exists>k<length cs. cs ! k = Suc b + (k + 1))"
  proof (cases "Suc b < 32")
    case True
    then show ?thesis using assms(1) by (simp add: queen_words_def)
  next
    case False
    then have "\<not> bit rd (Suc b)" using bit_imp_le_length [of rd "Suc b"] by auto
    moreover have "cs ! k < 32" if "k < length cs" for k using that assms(3,4) nth_mem by fastforce
    ultimately show ?thesis using False by fastforce
  qed
  show "bit (drop_bit 1 (rd OR 2 ^ c)) b \<longleftrightarrow> (\<exists>k<length (c # cs). (c # cs) ! k = b + (k + 1))"
    using r assms(2,3) unfolding ex [of "\<lambda>x k. x = b + (k + 1)"] by (auto simp: bit_simps)
qed

lemma full_bit: "n < 32 \<Longrightarrow> bit (push_bit n 1 - 1 :: u32) c \<longleftrightarrow> c < n"
  by (auto simp: bit_mask_iff simp flip: mask_eq_exp_minus_1)

lemma row_full:
  assumes "queen_words cs row ld rd" "placed n cs" "n < 32"
  shows "row = push_bit n 1 - 1 \<longleftrightarrow> length cs = n"
proof -
  have b: "bit row c \<longleftrightarrow> c \<in> set cs" for c
  proof (cases "c < 32")
    case True
    then show ?thesis using assms(1) by (auto simp: queen_words_def in_set_conv_nth)
  next
    case False
    then show ?thesis using bit_imp_le_length [of row c] placed_below [OF assms(2)] assms(3) by auto
  qed
  have "row = push_bit n 1 - 1 \<longleftrightarrow> set cs = {..<n}"
  proof
    assume "row = push_bit n 1 - 1"
    then show "set cs = {..<n}" using b full_bit [OF assms(3)] by blast
  next
    assume "set cs = {..<n}"
    then have "bit row c \<longleftrightarrow> bit (push_bit n 1 - 1 :: u32) c" for c using b full_bit [OF assms(3)] by blast
    then show "row = push_bit n 1 - 1" by (intro bit_eqI)
  qed
  also have "\<dots> \<longleftrightarrow> length cs = n"
    using placed_below [OF assms(2)] distinct_card [OF placed_distinct [OF assms(2)]]
    by (metis card_lessThan card_subset_eq finite_lessThan)
  finally show ?thesis .
qed

lemma free_columns:
  assumes "queen_words cs row ld rd" "n < 32"
  shows "low_bits ((push_bit n 1 - 1) AND NOT (row OR ld OR rd)) = map (\<lambda>c. 2 ^ c) (filter (unattacked cs) [0..<n])"
proof -
  have "filter (bit ((push_bit n 1 - 1) AND NOT (row OR ld OR rd))) [0..<32] = filter (\<lambda>c. c < n \<and> unattacked cs c) [0..<32]"
  proof (rule filter_cong [OF refl])
    fix c :: nat
    assume "c \<in> set [0..<32]"
    then have c: "c < 32" by simp
    have "bit ((push_bit n 1 - 1) AND NOT (row OR ld OR rd)) c \<longleftrightarrow> c < n \<and> \<not> bit row c \<and> \<not> bit ld c \<and> \<not> bit rd c"
      using c full_bit [OF assms(2), of c] by (simp only: bit_and_iff bit_not_iff bit_or_iff) auto
    also have "\<dots> \<longleftrightarrow> c < n \<and> unattacked cs c"
      using c assms(1) unfolding queen_words_def unattacked_def by (metis Suc_eq_plus1)
    finally show "bit ((push_bit n 1 - 1) AND NOT (row OR ld OR rd)) c \<longleftrightarrow> c < n \<and> unattacked cs c" .
  qed
  also have "\<dots> = filter (unattacked cs) [0..<n]"
  proof -
    have u: "[0..<32] = [0..<n] @ [n..<32]" using assms(2) upt_add_eq_append [of 0 n "32 - n"] by simp
    have "filter (\<lambda>c. c < n \<and> unattacked cs c) [n..<32] = []" by (auto simp: filter_empty_conv)
    moreover have "filter (\<lambda>c. c < n \<and> unattacked cs c) [0..<n] = filter (unattacked cs) [0..<n]" by (rule filter_cong) auto
    ultimately show ?thesis unfolding u by (simp only: filter_append append_Nil2)
  qed
  finally show ?thesis by (simp only: low_bits_set)
qed

lemma of_nat_list_sum: "(of_nat (\<Sum>x\<leftarrow>xs. f x) :: u32) = (\<Sum>x\<leftarrow>xs. of_nat (f x))"
  by (induction xs) simp_all

lemma queen_dfs_counts:
  assumes "queen_words cs row ld rd" "placed n cs" "n < 32"
  shows "queen_dfs (push_bit n 1 - 1) row ld rd = of_nat (card (extensions n cs))"
  using assms
proof (induction "n - length cs" arbitrary: cs row ld rd rule: less_induct)
  case less
  note F = row_full [OF less.prems]
  have l: "length cs \<le> n"
    using card_mono [OF _ placed_below [OF less.prems(2)]] distinct_card [OF placed_distinct [OF less.prems(2)]] by simp
  show ?case
  proof (cases "length cs = n")
    case True
    then show ?thesis using F extensions_full [OF True less.prems(2)] by (subst queen_dfs.simps) simp
  next
    case False
    have "queen_dfs (push_bit n 1 - 1) (row OR 2 ^ c) (push_bit 1 (ld OR 2 ^ c)) (drop_bit 1 (rd OR 2 ^ c)) =
        of_nat (card (extensions n (c # cs)))" if "c < n" "unattacked cs c" for c
      using that False l less.prems
      by (intro less.hyps queen_words_step) (auto dest: placed_below)
    then have "map (\<lambda>p. queen_dfs (push_bit n 1 - 1) (row OR p) (push_bit 1 (ld OR p)) (drop_bit 1 (rd OR p)))
          (low_bits ((push_bit n 1 - 1) AND NOT (row OR ld OR rd))) =
        map (\<lambda>c. of_nat (card (extensions n (c # cs)))) (filter (unattacked cs) [0..<n])"
      unfolding free_columns [OF less.prems(1,3)] by simp
    then have "queen_dfs (push_bit n 1 - 1) row ld rd = (\<Sum>c\<leftarrow>filter (unattacked cs) [0..<n]. of_nat (card (extensions n (c # cs))))"
      using False F by (subst queen_dfs.simps) (simp only: if_False)
    also have "\<dots> = of_nat (card (extensions n cs))"
      using False l by (simp add: extensions_card [of cs n] of_nat_list_sum)
    finally show ?thesis .
  qed
qed

text \<open>No two queens in a column or on a diagonal.\<close>

definition peaceful :: "nat \<Rightarrow> nat list \<Rightarrow> bool" where
  "peaceful n xs \<longleftrightarrow> (\<forall>i<length xs. xs ! i < n \<and>
     (\<forall>j<i. xs ! i \<noteq> xs ! j \<and> xs ! i + (i - j) \<noteq> xs ! j \<and> xs ! j + (i - j) \<noteq> xs ! i))"

lemma placed_peaceful: "placed n xs \<longleftrightarrow> peaceful n xs"
proof (induction xs)
  case Nil
  then show ?case by (simp add: peaceful_def)
next
  case (Cons c cs)
  have "peaceful n (c # cs) \<longleftrightarrow> c < n \<and> unattacked cs c \<and> peaceful n cs"
    unfolding peaceful_def unattacked_def
    by (simp only: length_Cons All_less_Suc2 nth_Cons_0 nth_Cons_Suc diff_Suc_Suc diff_zero) (rule iffI, blast+)
  then show ?case using Cons by simp
qed

theorem queen_counts_placements:
  assumes "n < 32"
  shows "bench_queen_run n = of_nat (card {xs. length xs = n \<and> peaceful n xs})"
proof -
  have "queen_words [] 0 0 0" by (simp add: queen_words_def)
  then have "bench_queen_run n = of_nat (card (extensions n []))"
    using assms queen_dfs_counts [of "[]" 0 0 0 n] by (simp add: bench_queen_run_def)
  then show ?thesis by (simp add: extensions_def placed_peaceful conj_assoc cong: conj_cong)
qed

end
