(* ===== verification/Bench_Sieve.thy ===== *)
theory Bench_Sieve
  imports Prelude
begin

unbundle bit_operations_syntax

text \<open>
  The sieve of the benchmarks (\<^verbatim>\<open>apps/microbench/src/sieve/sieve.c\<close>): one bit for every number, in words.
\<close>

definition get_bit :: "nat \<Rightarrow> u32 list \<Rightarrow> bool" where
  "get_bit n ws \<longleftrightarrow> drop_bit (n mod 32) (ws ! (n div 32)) AND 1 = 1"

definition clear_bit :: "nat \<Rightarrow> u32 list \<Rightarrow> u32 list" where
  "clear_bit n ws = ws[n div 32 := ws ! (n div 32) AND NOT (push_bit (n mod 32) 1)]"

text \<open>The words up to the one of \<open>N\<close> set, those behind it zero.\<close>

definition bench_sieve_prepare :: "nat \<Rightarrow> u32 list" where
  "bench_sieve_prepare N = replicate (N div 32 + 1) 0xffffffff @ replicate ((N div 8 + 128) div 4 - (N div 32 + 1)) 0"

function clear_multiples :: "nat \<Rightarrow> nat \<Rightarrow> nat \<Rightarrow> u32 list \<Rightarrow> u32 list" where
  "clear_multiples N i j ws = (if j \<le> N \<and> 0 < i then clear_multiples N i (j + i) (clear_bit j ws) else ws)"
  by pat_completeness auto

termination by (relation "measure (\<lambda>(N, i, j, ws). N + 1 - j)") auto

function sieve_from :: "nat \<Rightarrow> nat \<Rightarrow> u32 list \<Rightarrow> u32 list" where
  "sieve_from N i ws =
     (if i * i \<le> N \<and> 0 < i then sieve_from N (i + 1) (if get_bit i ws then clear_multiples N i (i + i) ws else ws) else ws)"
  by pat_completeness auto

termination
proof (relation "measure (\<lambda>(N, i, ws). N + 1 - i)")
  fix N i :: nat and ws :: "u32 list"
  assume "i * i \<le> N \<and> 0 < i"
  then have "i \<le> N" by (metis dual_order.trans le_square)
  then show "((N, i + 1, if get_bit i ws then clear_multiples N i (i + i) ws else ws), N, i, ws) \<in> measure (\<lambda>(N, i, ws). N + 1 - i)"
    by simp
qed simp

declare clear_multiples.simps [simp del] sieve_from.simps [simp del]

text \<open>The number that is left in \<open>ans\<close>; a bit that is not set at first ends the run.\<close>

definition bench_sieve_run :: "nat \<Rightarrow> nat \<Rightarrow> u32 list \<Rightarrow> nat" where
  "bench_sieve_run N ans ws =
     (if \<exists>i\<in>{1..N}. \<not> get_bit i ws then ans
      else (let ws' = sieve_from N 2 ws in length (filter (\<lambda>i. get_bit i ws') [2..<N + 1])))"

section \<open>Bits\<close>

lemma get_bit_iff: "get_bit n ws \<longleftrightarrow> bit (ws ! (n div 32)) (n mod 32)"
  by (simp add: get_bit_def bit_iff_and_drop_bit_eq_1 and.commute)

lemma clear_bit_length [simp]: "length (clear_bit n ws) = length ws"
  by (simp add: clear_bit_def)

lemma get_clear_bit: "n div 32 < length ws \<Longrightarrow> get_bit m (clear_bit n ws) \<longleftrightarrow> get_bit m ws \<and> m \<noteq> n"
proof -
  assume n: "n div 32 < length ws"
  have "m = n \<longleftrightarrow> m div 32 = n div 32 \<and> m mod 32 = n mod 32" by (metis div_mult_mod_eq)
  then show ?thesis using n
    by (auto simp: get_bit_iff clear_bit_def nth_list_update bit_and_iff bit_not_iff bit_exp_iff)
qed

lemma clear_multiples_bits:
  assumes "N div 32 < length ws" "0 < i"
  shows "length (clear_multiples N i j ws) = length ws \<and>
    (get_bit m (clear_multiples N i j ws) \<longleftrightarrow> get_bit m ws \<and> \<not> (m \<le> N \<and> (\<exists>k. m = j + k * i)))"
  using assms
proof (induction N i j ws rule: clear_multiples.induct)
  case (1 N i j ws)
  show ?case
  proof (cases "j \<le> N")
    case False
    then have "clear_multiples N i j ws = ws" by (subst clear_multiples.simps) simp
    moreover have "\<not> (m \<le> N \<and> (\<exists>k. m = j + k * i))" using False by auto
    ultimately show ?thesis by simp
  next
    case True
    have s: "clear_multiples N i j ws = clear_multiples N i (j + i) (clear_bit j ws)"
      using True 1(3) by (subst clear_multiples.simps) simp
    have j: "j div 32 < length ws" using True 1(2) div_le_mono [of j N 32] by simp
    have e: "(\<exists>k. m = j + k * i) \<longleftrightarrow> m = j \<or> (\<exists>k. m = (j + i) + k * i)"
    proof -
      have "(\<exists>k. m = j + k * i) \<longleftrightarrow> m = j + 0 * i \<or> (\<exists>k. m = j + Suc k * i)" by (metis not0_implies_Suc)
      then show ?thesis by (simp add: add.assoc)
    qed
    have "length (clear_multiples N i (j + i) (clear_bit j ws)) = length (clear_bit j ws) \<and>
      (get_bit m (clear_multiples N i (j + i) (clear_bit j ws)) \<longleftrightarrow>
        get_bit m (clear_bit j ws) \<and> \<not> (m \<le> N \<and> (\<exists>k. m = (j + i) + k * i)))"
      using 1 True by simp
    then show ?thesis unfolding s e get_clear_bit [OF j] using True by auto
  qed
qed

section \<open>Primes\<close>

definition is_prime :: "nat \<Rightarrow> bool" where
  "is_prime p \<longleftrightarrow> 1 < p \<and> (\<forall>d. d dvd p \<longrightarrow> d = 1 \<or> d = p)"

text \<open>No divisor below \<open>i\<close> but one, apart from the number itself.\<close>

definition unsieved :: "nat \<Rightarrow> nat \<Rightarrow> bool" where
  "unsieved i m \<longleftrightarrow> (\<forall>d. 1 < d \<and> d < i \<and> d dvd m \<longrightarrow> d = m)"

lemma unsieved_Suc: "unsieved (Suc i) m \<longleftrightarrow> unsieved i m \<and> (1 < i \<and> i dvd m \<longrightarrow> i = m)"
  by (auto simp: unsieved_def less_Suc_eq)

lemma multiple_of:
  fixes i m :: nat
  assumes "0 < m" "0 < i"
  shows "(\<exists>k. m = i + i + k * i) \<longleftrightarrow> i dvd m \<and> m \<noteq> i"
proof
  assume "i dvd m \<and> m \<noteq> i"
  then obtain q where q: "m = i * q" "q \<noteq> 1" by auto
  then have "q \<ge> 2" using assms(1) by (cases q) auto
  then have "m = i + i + (q - 2) * i" using q(1) by (metis add.assoc le_add_diff_inverse mult.commute mult_2 add_mult_distrib)
  then show "\<exists>k. m = i + i + k * i" by blast
qed (use assms in auto)

text \<open>Clearing the multiples of a number that is itself a multiple of a smaller one changes nothing.\<close>

lemma skipped:
  assumes "\<not> unsieved i i" "unsieved i m" "0 < m" "0 < i"
  shows "unsieved (Suc i) m"
proof -
  obtain d where d: "1 < d" "d < i" "d dvd i" using assms(1) by (auto simp: unsieved_def)
  have "\<not> i dvd m"
  proof
    assume "i dvd m"
    then have "d dvd m" using d(3) by (rule dvd_trans [rotated])
    then have "d = m" using assms(2) d by (auto simp: unsieved_def)
    then show False using \<open>i dvd m\<close> d(2) assms(3) dvd_imp_le by fastforce
  qed
  then show ?thesis using assms(2) by (simp add: unsieved_Suc)
qed

lemma sieve_from_bits:
  assumes "N div 32 < length ws" "2 \<le> i" "\<forall>m\<in>{2..N}. get_bit m ws \<longleftrightarrow> unsieved i m"
  shows "\<exists>k. i \<le> k \<and> N < k * k \<and> (\<forall>m\<in>{2..N}. get_bit m (sieve_from N i ws) \<longleftrightarrow> unsieved k m)"
  using assms
proof (induction N i ws rule: sieve_from.induct)
  case (1 N i ws)
  show ?case
  proof (cases "i * i \<le> N")
    case False
    then have "sieve_from N i ws = ws" by (subst sieve_from.simps) simp
    then show ?thesis using False 1(4) by (intro exI [of _ i]) auto
  next
    case True
    define ws1 where "ws1 = (if get_bit i ws then clear_multiples N i (i + i) ws else ws)"
    have s: "sieve_from N i ws = sieve_from N (i + 1) ws1"
      using True 1(3) by (subst sieve_from.simps) (simp add: ws1_def)
    have iN: "i \<in> {2..N}" using True 1(3) by (metis atLeastAtMost_iff dual_order.trans le_square)
    have len: "length ws1 = length ws" using clear_multiples_bits [OF 1(2), of i] 1(3) by (simp add: ws1_def)
    have "get_bit m ws1 \<longleftrightarrow> unsieved (i + 1) m" if m: "m \<in> {2..N}" for m
    proof (cases "get_bit i ws")
      case True
      then have "get_bit m ws1 \<longleftrightarrow> get_bit m ws \<and> \<not> (i dvd m \<and> m \<noteq> i)"
        using clear_multiples_bits [OF 1(2), of i "i + i" m] multiple_of [of m i] m 1(3) by (auto simp: ws1_def)
      then show ?thesis using 1(3,4) m by (auto simp: unsieved_Suc)
    next
      case False
      then have "\<not> unsieved i i" using 1(4) iN by blast
      then show ?thesis using False skipped [of i m] m 1(3,4) by (auto simp: ws1_def unsieved_Suc)
    qed
    then obtain k where "i + 1 \<le> k" "N < k * k" "\<forall>m\<in>{2..N}. get_bit m (sieve_from N (i + 1) ws1) \<longleftrightarrow> unsieved k m"
      using 1(1) [OF conjI [OF True]] 1(2,3) len by (auto simp: ws1_def)
    then show ?thesis unfolding s by (intro exI [of _ k]) simp
  qed
qed

lemma unsieved_prime:
  assumes "N < k * k" "m \<in> {2..N}" "2 \<le> k"
  shows "unsieved k m \<longleftrightarrow> is_prime m"
proof
  assume u: "unsieved k m"
  have "d = 1 \<or> d = m" if "d dvd m" for d
  proof (rule ccontr)
    assume n: "\<not> (d = 1 \<or> d = m)"
    obtain e where e: "m = d * e" using \<open>d dvd m\<close> by blast
    have "d \<noteq> 0" "e \<noteq> 0" using e assms(2) by (auto intro: Nat.gr0I)
    moreover have "e \<noteq> 1" "e \<noteq> m" using e n \<open>d \<noteq> 0\<close> \<open>e \<noteq> 0\<close> by auto
    ultimately have "1 < d" "1 < e" "e \<noteq> m" using n by simp_all
    have "\<not> (k \<le> d \<and> k \<le> e)"
    proof
      assume "k \<le> d \<and> k \<le> e"
      then have "k * k \<le> m" using e mult_le_mono by blast
      then show False using assms(1,2) by simp
    qed
    then have "d = m \<or> e = m" using u \<open>1 < d\<close> \<open>1 < e\<close> e unfolding unsieved_def by (metis dvd_triv_left dvd_triv_right not_le)
    then show False using n \<open>e \<noteq> m\<close> by simp
  qed
  then show "is_prime m" using assms(2) by (auto simp: is_prime_def)
qed (auto simp: unsieved_def is_prime_def)

lemma prepared_bit: "m \<le> N \<Longrightarrow> get_bit m (bench_sieve_prepare N)"
proof -
  assume "m \<le> N"
  then have "m div 32 < N div 32 + 1" using div_le_mono [of m N 32] by simp
  then have "bench_sieve_prepare N ! (m div 32) = 0xffffffff"
    unfolding bench_sieve_prepare_def by (simp only: nth_append length_replicate if_True nth_replicate)
  moreover have "bit (0xffffffff :: u32) (m mod 32)"
  proof -
    have m: "(0xffffffff :: u32) = mask 32" by (simp add: mask_eq_exp_minus_1)
    show ?thesis unfolding m by (simp add: bit_mask_iff)
  qed
  ultimately show ?thesis by (simp add: get_bit_iff)
qed

text \<open>The benchmark counts the primes up to \<open>N\<close>.\<close>

theorem sieve_counts_primes: "bench_sieve_run N ans (bench_sieve_prepare N) = card {p. is_prime p \<and> p \<le> N}"
proof -
  let ?ws = "bench_sieve_prepare N"
  have len: "N div 32 < length ?ws" by (simp add: bench_sieve_prepare_def)
  have "\<forall>m\<in>{2..N}. get_bit m ?ws \<longleftrightarrow> unsieved 2 m" by (auto simp: prepared_bit unsieved_def)
  then obtain k where k: "2 \<le> k" "N < k * k" "\<forall>m\<in>{2..N}. get_bit m (sieve_from N 2 ?ws) \<longleftrightarrow> unsieved k m"
    using sieve_from_bits [OF len, of 2] by auto
  then have "\<forall>m\<in>{2..N}. get_bit m (sieve_from N 2 ?ws) \<longleftrightarrow> is_prime m" using unsieved_prime [OF k(2) _ k(1)] by blast
  then have "filter (\<lambda>i. get_bit i (sieve_from N 2 ?ws)) [2..<N + 1] = filter is_prime [2..<N + 1]"
    by (intro filter_cong) auto
  moreover have "length (filter is_prime [2..<N + 1]) = card {p. is_prime p \<and> p \<le> N}"
  proof -
    have "set (filter is_prime [2..<N + 1]) = {p. is_prime p \<and> p \<le> N}" by (auto simp: is_prime_def)
    then show ?thesis by (metis distinct_card distinct_filter distinct_upt)
  qed
  moreover have "\<not> (\<exists>i\<in>{1..N}. \<not> get_bit i ?ws)" by (auto simp: prepared_bit)
  ultimately show ?thesis by (simp add: bench_sieve_run_def Let_def)
qed

end
