(* ===== verification/Bench_Fib.thy ===== *)
theory Bench_Fib
  imports Prelude
begin

text \<open>
  The generalised Fibonacci numbers of the benchmarks (\<^verbatim>\<open>apps/microbench/src/fib/fib.c\<close>): powers of a matrix of \<open>M\<close> times
  \<open>M\<close> words by repeated squaring.  The arrays are functions from indices to words; the copy of the matrix in
  \<^verbatim>\<open>A\<close>, which nothing reads, is left out.
\<close>

type_synonym cells = "nat \<Rightarrow> u32"

definition mat_put :: "nat \<Rightarrow> nat \<Rightarrow> nat \<Rightarrow> u32 \<Rightarrow> cells \<Rightarrow> cells" where
  "mat_put M i j data m = m(i * M + j := data)"

definition mat_get :: "nat \<Rightarrow> cells \<Rightarrow> nat \<Rightarrow> nat \<Rightarrow> u32" where
  "mat_get M m i j = m (i * M + j)"

definition mult_cell :: "nat \<Rightarrow> cells \<Rightarrow> cells \<Rightarrow> nat \<Rightarrow> nat \<Rightarrow> cells \<Rightarrow> cells" where
  "mult_cell M a b i j c =
     fold (\<lambda>k c. mat_put M i j (mat_get M c i j + mat_get M a i k * mat_get M b k j) c) [0..<M] (mat_put M i j 0 c)"

definition mat_mult :: "nat \<Rightarrow> cells \<Rightarrow> cells \<Rightarrow> cells \<Rightarrow> cells" where
  "mat_mult M c a b = fold (\<lambda>i c. fold (\<lambda>j c. mult_cell M a b i j c) [0..<M] c) [0..<M] c"

definition mat_assign :: "nat \<Rightarrow> cells \<Rightarrow> cells \<Rightarrow> cells" where
  "mat_assign M a b = fold (\<lambda>i a. fold (\<lambda>j a. mat_put M i j (mat_get M b i j) a) [0..<M] a) [0..<M] a"

text \<open>The result, the power and the scratch matrix through the bits of \<open>n\<close>.\<close>

fun power_loop :: "nat \<Rightarrow> nat \<Rightarrow> cells \<times> cells \<times> cells \<Rightarrow> cells \<times> cells \<times> cells" where
  "power_loop M n (ans, T, tmp) =
     (if n = 0 then (ans, T, tmp)
      else
        let (ans1, tmp1) =
          (if n mod 2 = 1 then (let t = mat_mult M tmp ans T in (mat_assign M ans t, t)) else (ans, tmp));
            tmp2 = mat_mult M tmp1 T T;
            T1 = mat_assign M T tmp2
        in power_loop M (n div 2) (ans1, T1, tmp2))"

declare power_loop.simps [simp del]

definition fib_fill :: "nat \<Rightarrow> (nat \<Rightarrow> nat \<Rightarrow> u32) \<Rightarrow> cells \<Rightarrow> cells" where
  "fib_fill M f m = fold (\<lambda>i m. fold (\<lambda>j m. mat_put M i j (f i j) m) [0..<M] m) [0..<M] m"

definition fib_entry :: "nat \<Rightarrow> nat \<Rightarrow> nat \<Rightarrow> u32" where
  "fib_entry M i j = (if i = M - 1 \<or> j = i + 1 then 1 else 0)"

definition bench_fib_run :: "nat \<Rightarrow> nat \<Rightarrow> cells \<Rightarrow> cells \<Rightarrow> cells \<Rightarrow> cells" where
  "bench_fib_run M N ans T tmp =
     fst (power_loop M N (fib_fill M (\<lambda>i j. if i = j then 1 else 0) ans, fib_fill M (fib_entry M) T, tmp))"

section \<open>Loops over cells\<close>

text \<open>A loop over all cells that sets each from what does not change leaves the values in their places.\<close>

lemma index_unique:
  fixes i j k l M :: nat
  assumes "j < M" "l < M"
  shows "i * M + j = k * M + l \<longleftrightarrow> i = k \<and> j = l"
proof
  assume e: "i * M + j = k * M + l"
  have "(i * M + j) div M = i" "(k * M + l) div M = k" using assms by simp_all
  then show "i = k \<and> j = l" using e by simp
qed simp

lemma cell_loop:
  assumes "\<And>i j c. step i j c = c(i * M + j := f i j)" "i < M" "j < M"
  shows "mat_get M (fold (\<lambda>i c. fold (\<lambda>j c. step i j c) [0..<M] c) [0..<M] c) i j = f i j"
proof -
  have row: "mat_get M (fold (\<lambda>j c. step i' j c) [0..<n] c) i j = (if i' = i \<and> j < n then f i j else mat_get M c i j)"
    if "n \<le> M" for i' n c
    using that by (induction n) (auto simp: assms(1) mat_get_def index_unique [OF \<open>j < M\<close>] less_Suc_eq)
  have "mat_get M (fold (\<lambda>i c. fold (\<lambda>j c. step i j c) [0..<M] c) [0..<n] c) i j = (if i < n then f i j else mat_get M c i j)" for n
    by (induction n) (auto simp: row assms(3))
  then show ?thesis using assms(2) by simp
qed

lemma fill_get: "i < M \<Longrightarrow> j < M \<Longrightarrow> mat_get M (fib_fill M f m) i j = f i j"
  unfolding fib_fill_def by (rule cell_loop) (simp_all add: mat_put_def fun_eq_iff)

lemma assign_get: "i < M \<Longrightarrow> j < M \<Longrightarrow> mat_get M (mat_assign M a b) i j = mat_get M b i j"
  unfolding mat_assign_def by (rule cell_loop) (simp_all add: mat_put_def fun_eq_iff)

lemma mult_cell_sum: "mult_cell M a b i j c = c(i * M + j := (\<Sum>k<M. mat_get M a i k * mat_get M b k j))"
proof -
  have "fold (\<lambda>k c. mat_put M i j (mat_get M c i j + mat_get M a i k * mat_get M b k j) c) [0..<n] (mat_put M i j 0 c) =
      c(i * M + j := (\<Sum>k<n. mat_get M a i k * mat_get M b k j))" for n
    by (induction n) (simp_all add: mat_put_def mat_get_def fun_eq_iff)
  then show ?thesis by (simp add: mult_cell_def)
qed

lemma mult_get: "i < M \<Longrightarrow> j < M \<Longrightarrow> mat_get M (mat_mult M c a b) i j = (\<Sum>k<M. mat_get M a i k * mat_get M b k j)"
  unfolding mat_mult_def by (rule cell_loop [OF mult_cell_sum])

section \<open>Powers\<close>

definition mmul :: "nat \<Rightarrow> (nat \<Rightarrow> nat \<Rightarrow> u32) \<Rightarrow> (nat \<Rightarrow> nat \<Rightarrow> u32) \<Rightarrow> (nat \<Rightarrow> nat \<Rightarrow> u32)" where
  "mmul M A B = (\<lambda>i j. \<Sum>k<M. A i k * B k j)"

fun mpow :: "nat \<Rightarrow> (nat \<Rightarrow> nat \<Rightarrow> u32) \<Rightarrow> nat \<Rightarrow> (nat \<Rightarrow> nat \<Rightarrow> u32)" where
  "mpow M A 0 = (\<lambda>i j. if i = j then 1 else 0)"
| "mpow M A (Suc n) = mmul M A (mpow M A n)"

text \<open>Equal on the matrix.\<close>

definition meq :: "nat \<Rightarrow> (nat \<Rightarrow> nat \<Rightarrow> u32) \<Rightarrow> (nat \<Rightarrow> nat \<Rightarrow> u32) \<Rightarrow> bool" where
  "meq M A B \<longleftrightarrow> (\<forall>i<M. \<forall>j<M. A i j = B i j)"

lemma mmul_assoc: "mmul M (mmul M A B) C = mmul M A (mmul M B C)"
proof (intro ext)
  fix i j
  have "(\<Sum>k<M. (\<Sum>l<M. A i l * B l k) * C k j) = (\<Sum>k<M. \<Sum>l<M. A i l * (B l k * C k j))"
    by (simp add: sum_distrib_right mult.assoc)
  also have "\<dots> = (\<Sum>l<M. \<Sum>k<M. A i l * (B l k * C k j))" by (rule sum.swap)
  finally show "mmul M (mmul M A B) C i j = mmul M A (mmul M B C) i j" by (simp add: mmul_def sum_distrib_left)
qed

lemma mmul_cong: "meq M A A' \<Longrightarrow> meq M B B' \<Longrightarrow> meq M (mmul M A B) (mmul M A' B')"
  by (auto simp: meq_def mmul_def intro!: sum.cong)

lemma mmul_one: "meq M (mmul M (mpow M A 0) B) B" "meq M (mmul M B (mpow M A 0)) B"
  by (auto simp: meq_def mmul_def if_distrib [of "\<lambda>x. x * _"] if_distrib [of "\<lambda>x. _ * x"] cong: if_cong)

lemma meq_refl [simp]: "meq M A A"
  by (simp add: meq_def)

lemma meq_trans: "meq M A B \<Longrightarrow> meq M B C \<Longrightarrow> meq M A C"
  by (simp add: meq_def)

lemma mpow_add: "meq M (mmul M (mpow M A m) (mpow M A n)) (mpow M A (m + n))"
proof (induction m)
  case 0
  show ?case by (simp only: mmul_one add_0)
next
  case (Suc m)
  have "meq M (mmul M A (mmul M (mpow M A m) (mpow M A n))) (mmul M A (mpow M A (m + n)))"
    by (rule mmul_cong [OF meq_refl Suc])
  then show ?case by (simp add: mmul_assoc)
qed

abbreviation on :: "nat \<Rightarrow> cells \<Rightarrow> (nat \<Rightarrow> nat \<Rightarrow> u32)" where
  "on M m \<equiv> mat_get M m"

lemma mult_meq: "meq M (on M (mat_mult M c a b)) (mmul M (on M a) (on M b))"
  by (simp add: meq_def mult_get mmul_def)

lemma assign_meq: "meq M (on M (mat_assign M a b)) (on M b)"
  by (simp add: meq_def assign_get)

lemma power_loop_power:
  assumes "meq M (on M ans) (mpow M A r)" "meq M (on M T) (mpow M A t)"
  shows "meq M (on M (fst (power_loop M n (ans, T, tmp)))) (mpow M A (r + t * n))"
  using assms
proof (induction n arbitrary: ans T tmp r t rule: less_induct)
  case (less n)
  show ?case
  proof (cases "n = 0")
    case True
    then show ?thesis using less.prems by (subst power_loop.simps) simp
  next
    case False
    define p where "p = (if n mod 2 = 1 then (let u = mat_mult M tmp ans T in (mat_assign M ans u, u)) else (ans, tmp))"
    define ans1 where "ans1 = fst p"
    define tmp2 where "tmp2 = mat_mult M (snd p) T T"
    define T1 where "T1 = mat_assign M T tmp2"
    have s: "power_loop M n (ans, T, tmp) = power_loop M (n div 2) (ans1, T1, tmp2)"
      using False by (subst power_loop.simps) (simp add: p_def ans1_def tmp2_def T1_def Let_def split: prod.splits)
    have "meq M (on M T1) (mpow M A (t + t))"
      unfolding T1_def tmp2_def
      using meq_trans [OF assign_meq meq_trans [OF mult_meq meq_trans [OF mmul_cong [OF less.prems(2,2)] mpow_add]]] .
    moreover have "meq M (on M ans1) (mpow M A (r + t * (n mod 2)))"
    proof (cases "n mod 2 = 1")
      case True
      then have "ans1 = mat_assign M ans (mat_mult M tmp ans T)" by (simp add: ans1_def p_def Let_def)
      then show ?thesis
        using True meq_trans [OF assign_meq meq_trans [OF mult_meq meq_trans [OF mmul_cong [OF less.prems] mpow_add]]] by simp
    next
      case False
      then have "ans1 = ans" "n mod 2 = 0" by (simp_all add: ans1_def p_def)
      then show ?thesis using less.prems(1) by simp
    qed
    ultimately have "meq M (on M (fst (power_loop M (n div 2) (ans1, T1, tmp2)))) (mpow M A (r + t * (n mod 2) + (t + t) * (n div 2)))"
      using less.IH [of "n div 2"] False by simp
    moreover have "r + t * (n mod 2) + (t + t) * (n div 2) = r + t * n"
    proof -
      have "r + t * a + (t + t) * b = r + t * (a + 2 * b)" for a b :: nat by (simp add: algebra_simps)
      then show ?thesis by (simp only: mod_mult_div_eq)
    qed
    ultimately show ?thesis unfolding s by simp
  qed
qed

section \<open>The numbers\<close>

text \<open>The first \<open>M - 1\<close> numbers are zero, then comes a one, and every further number is the sum of the \<open>M\<close> before it.\<close>

function gfib :: "nat \<Rightarrow> nat \<Rightarrow> u32" where
  "gfib M x = (if x < M then (if x = M - 1 then 1 else 0) else sum_list (map (gfib M) [x - M..<x]))"
  by pat_completeness auto

termination by (relation "measure snd") auto

declare gfib.simps [simp del]

lemma gfib_sum: "gfib M (n + M) = (\<Sum>k<M. gfib M (n + k))"
proof -
  have "gfib M (n + M) = sum_list (map (gfib M) [n..<n + M])" by (subst gfib.simps) simp
  also have "[n..<n + M] = map (\<lambda>k. n + k) [0..<M]" using map_add_upt [of n M] by (simp add: add.commute)
  finally show ?thesis by (simp add: comp_def interv_sum_list_conv_sum_set_nat atLeast0LessThan)
qed

lemma column: "0 < M \<Longrightarrow> i < M \<Longrightarrow> mpow M (fib_entry M) n i (M - 1) = gfib M (n + i)"
proof (induction n arbitrary: i)
  case 0
  then show ?case by (subst gfib.simps) auto
next
  case (Suc n)
  have "mpow M (fib_entry M) (Suc n) i (M - 1) = (\<Sum>k<M. fib_entry M i k * gfib M (n + k))"
    using Suc by (simp add: mmul_def)
  also have "\<dots> = gfib M (Suc n + i)"
  proof (cases "i = M - 1")
    case True
    then have "(\<Sum>k<M. fib_entry M i k * gfib M (n + k)) = (\<Sum>k<M. gfib M (n + k))" by (simp add: fib_entry_def)
    also have "\<dots> = gfib M (n + M)" by (rule gfib_sum [symmetric])
    finally show ?thesis using True Suc.prems by simp
  next
    case False
    then have "(\<Sum>k<M. fib_entry M i k * gfib M (n + k)) = (\<Sum>k<M. if k = i + 1 then gfib M (n + k) else 0)"
      by (intro sum.cong) (auto simp: fib_entry_def)
    moreover have "Suc i < M" using False Suc.prems by linarith
    ultimately show ?thesis by simp
  qed
  finally show ?case .
qed

text \<open>What is compared with the checksum is the number at \<open>N\<close> places behind the one.\<close>

theorem bench_fib_correct:
  assumes "0 < M"
  shows "mat_get M (bench_fib_run M N ans T tmp) (M - 1) (M - 1) = gfib M (N + (M - 1))"
proof -
  let ?A = "fib_entry M"
  have "meq M (on M (fib_fill M (\<lambda>i j. if i = j then 1 else 0) ans)) (mpow M ?A 0)" by (simp add: meq_def fill_get)
  moreover have "meq M (on M (fib_fill M ?A T)) (mpow M ?A 1)"
  proof -
    have "meq M (on M (fib_fill M ?A T)) ?A" by (simp add: meq_def fill_get)
    moreover have "meq M ?A (mmul M ?A (mpow M ?A 0))" using mmul_one(2) [of M ?A ?A] by (simp add: meq_def)
    ultimately show ?thesis using meq_trans by simp
  qed
  ultimately have "meq M (on M (bench_fib_run M N ans T tmp)) (mpow M ?A (0 + 1 * N))"
    unfolding bench_fib_run_def by (rule power_loop_power)
  then have "mat_get M (bench_fib_run M N ans T tmp) (M - 1) (M - 1) = mpow M ?A N (M - 1) (M - 1)"
    using assms by (simp add: meq_def)
  then show ?thesis using column [OF assms, of "M - 1"] assms by simp
qed

end
