(* ===== verification/Spec2Isabelle.thy ===== *)
theory Spec2Isabelle
  imports Alloc_Spec Pool Irq Kmt_Spin Kmt_Sem Kmt_Sched Klib_Stdio Klib_String Pipe Dir Shell_Parse
    Boot Tty_Task Kvdb_Spec Shell_Props Libco Sperf Pstree Amgame Vme
    Frecov Crepl Shell_Types Cte Bootloader Devices Os Shell_Pipe
    Kvdb_Crash Kvdb_Lock Sperf_Main Pstree_Proc Mpe Native
    Bench_Lib Bench_Sort Bench_Queen Bench_Sieve Bench_Fib
begin

text \<open>
  A verification library for \<^emph>\<open>os-workbench\<close>: a small multiprocessor kernel on an abstract machine
  (\<^verbatim>\<open>kernel/\<close>), the machine and the C library below it (\<^verbatim>\<open>abstract-machine/\<close>) and the user-level programs
  beside it (\<^verbatim>\<open>libkvdb\<close>, \<^verbatim>\<open>libco\<close>, \<^verbatim>\<open>sperf\<close>, \<^verbatim>\<open>pstree\<close>, \<^verbatim>\<open>frecov\<close>, \<^verbatim>\<open>crepl\<close>, \<^verbatim>\<open>amgame\<close>).  Every definition is a
  translation of the C source, under the name of the C function where that is possible; the theorems
  say what the functions guarantee.

  \<^bold>\<open>Conventions.\<close>  The machine has 32-bit words.  Registers and pixels are \<open>32 word\<close>; sizes, offsets and
  addresses are natural numbers whose sums and differences are taken by \<open>add32\<close> and \<open>sub32\<close> where the
  code can wrap.  A C string is the list of its characters without the terminator, a structure is a
  record, an array a list, memory a function from addresses.  A failing \<^verbatim>\<open>Assert\<close>, \<^verbatim>\<open>panic\<close> or \<^verbatim>\<open>TODO\<close>,
  and an access the model shows to be wild, is a value: \<open>Inl\<close> of an error, or \<open>None\<close>.  A loop that need
  not end is a \<open>partial_function (option)\<close>, so that not returning is \<open>None\<close> and every theorem that
  claims a result also claims that the call returns.  A section under a lock is one step; theorems
  about several processors or tasks quantify over every order of the steps.

  \<^bold>\<open>How the parts interact.\<close>  The boot loader reads the kernel from the disk; the machine counts its
  processors, starts them and lays out the frames of traps.  A trap runs the kernel's handlers in the order of
  their sequence numbers: the context is saved, events are handled, another task is switched to.  Tasks
  synchronise by spin locks and semaphores, which rest on the mutex of the C library and on the nesting of
  interrupts.  The terminals turn keys into lines and characters into pixels; they are devices, and devices are
  files of a file system that is mounted beside the one on the memory disk.  The shell is a task that
  parses a line and runs commands on files, which may be redirected or joined by pipes.

  \<^bold>\<open>Shared theories.\<close>
  \<^item> \<open>Prelude\<close>: types, error values, 32-bit sums, segments of ring buffers, and the interface
    \<open>bounded_fifo\<close>, which \<open>Pool\<close> and \<open>Input\<close> provide.
  \<^item> \<open>Systems\<close>: the interfaces of step relations with an invariant (\<open>safe_steps\<close>: \<open>Kvdb_Lock\<close>, \<open>Shell_Pipe\<close>), with mutual
    exclusion (\<open>exclusive\<close>: threads of a mutex, processors and tasks, processors on the boot stack) and with a goal
    that comes nearer (\<open>approaching\<close>: the start of the processors); channels that keep the order
    (\<open>channel\<close>, \<open>total_channel\<close>: \<open>Pipe\<close>, the waiters of \<open>Kmt_Sem\<close>, every \<open>bounded_fifo\<close>); and simulations (\<open>simulation\<close>: the
    lines of a terminal).

  \<^bold>\<open>The kernel.\<close>
  \<^item> Memory, \<^verbatim>\<open>kernel/src/alloc.c\<close>: \<open>Alloc\<close> has the operations; \<open>Alloc_Chain\<close>, \<open>Alloc_Inv\<close>, \<open>Alloc_Ops\<close>
    and \<open>Alloc_Props\<close> the free lists, the invariant (all blocks disjoint and in the heap) and its
    preservation; \<open>Alloc_Spec\<close> the contract of \<open>kalloc\<close> and \<open>kfree\<close> and histories of calls from the
    state after \<open>pmm_init\<close>.
  \<^item> Synchronisation: \<open>Sync\<close> (\<^verbatim>\<open>klib/src/intr.c\<close>, \<^verbatim>\<open>pthread.c\<close>: interrupt nesting and mutual exclusion of
    any number of threads), \<open>Kmt_Spin\<close> and \<open>Kmt_Sem\<close> (\<^verbatim>\<open>kmt.c\<close>: spin locks; semaphores as a counter and
    a queue), \<open>Pool\<close> (\<^verbatim>\<open>pool.c\<close>), \<open>Pipe\<close> (\<^verbatim>\<open>pipe.c\<close>: bytes come out as they went in).
  \<^item> Tasks and traps: \<open>Kmt_Sched\<close> (\<^verbatim>\<open>kmt.c\<close>: a step relation of save, switch, create, exit, wait and the
    collector, whose invariant keeps every task on at most one processor), \<open>Irq\<close> (\<^verbatim>\<open>os.c\<close>, the list of handlers) and
    \<open>Os\<close>, which composes them: in the kernel that \<^verbatim>\<open>os_init\<close> sets up every trap is a path of scheduler steps.
  \<^item> Files: \<open>Dir\<close> (\<^verbatim>\<open>dir.c\<close>, paths), \<open>Ramdisk\<close>, \<open>Yls\<close> (\<^verbatim>\<open>yls/\<close>, blocks and bitmap), \<open>Blkfs\<close>, \<open>Devfs\<close>, \<open>Procfs\<close>
    (\<^verbatim>\<open>fs/\<close>) and \<open>Vfs\<close> (\<^verbatim>\<open>fs/vfs.c\<close>, which calls the three by the kind of the inode).  \<open>Yls_Chain\<close> and
    \<open>Yls_Write\<close> show that a file is the bytes of its chain of blocks, \<open>Blkfs_Dir\<close> that a directory is a
    list of entries, \<open>Vfs_Walk\<close> that a lookup walks the tree of directories, mounts and devices;
    \<open>Blkfs_Limits\<close> holds the cases in which the code fails.  \<open>Initrd\<close> builds the image of
    \<^verbatim>\<open>initrd/initrd.c\<close>, and \<open>Boot\<close> shows what \<^verbatim>\<open>vfs_init\<close> makes of it.
  \<^item> Devices: \<open>Video\<close>, \<open>Input\<close>, \<open>Tty\<close> and \<open>Tty_Task\<close> (\<^verbatim>\<open>devices/\<close>).  \<open>Tty_Lines\<close> refines the ring of a
    terminal to lines, \<open>Tty_Screen\<close> the screen to a window on an endless sheet, and \<open>Tty_Task\<close> joins
    terminal, frame buffer and font.
  \<^item> Shell, \<^verbatim>\<open>shell/\<close>: \<open>Shell_Parse\<close> (\<^verbatim>\<open>parse.c\<close>: total, and the inverse of printing) and \<open>Shell_Types\<close> (what an accepted
    command looks like); \<open>Shell_Cmds\<close>, \<open>Shell_Files\<close> and \<open>Shell_Main\<close> (\<^verbatim>\<open>buildin/\<close>, \<^verbatim>\<open>buildin.c\<close>, \<^verbatim>\<open>runcmd.c\<close>, \<^verbatim>\<open>shell.c\<close>), \<open>Shell_Props\<close>
    (what commands and redirections do to files) and \<open>Shell_Pipe\<close> (\<^verbatim>\<open>pipe\<close>, and the two sons of a pipeline interleaved).

  \<^bold>\<open>The abstract machine.\<close>
  \<^item> \<open>Klib_Stdlib\<close>, \<open>Klib_Stdio\<close> (the formatter) and \<open>Klib_String\<close> (\<^verbatim>\<open>libs/klib/src\<close>).
  \<^item> On x86 (\<^verbatim>\<open>am/src/x86/qemu\<close>): \<open>Bootloader\<close> (\<^verbatim>\<open>boot/main.c\<close>), \<open>Vme\<close> (\<^verbatim>\<open>vme.c\<close>: page tables against the translation of the
    processor), \<open>Cte\<close> (\<^verbatim>\<open>cte.c\<close>, \<^verbatim>\<open>cte_trap.S\<close>: a trap is transparent to the code it interrupts), \<open>Devices\<close> (\<^verbatim>\<open>devices/\<close>: keyboard,
    timer, video, the PCI bus) and \<open>Mpe\<close> (\<^verbatim>\<open>mpe.c\<close>, \<^verbatim>\<open>trm.c\<close>, \<^verbatim>\<open>devices/cpu.c\<close>, \<^verbatim>\<open>devices/apic.c\<close>: segments, interrupt controllers,
    the start of all processors).
  \<^item> As a program of the host: \<open>Native\<close> (\<^verbatim>\<open>am/src/native\<close>).
  \<^item> Benchmarks (\<^verbatim>\<open>apps/microbench\<close>): \<open>Bench_Lib\<close>, and \<open>Bench_Sort\<close>, \<open>Bench_Queen\<close>, \<open>Bench_Sieve\<close>, \<open>Bench_Fib\<close>, each with what it
    computes.

  \<^bold>\<open>Programs.\<close>
  \<^item> \<open>Kvdb\<close>, \<open>Kvdb_Blocks\<close>, \<open>Kvdb_Alloc\<close>, \<open>Kvdb_Map\<close>, \<open>Kvdb_Put\<close>, \<open>Kvdb_Spec\<close> (\<^verbatim>\<open>libkvdb/kvdb.c\<close>): the file is a map
    from keys to values, through the interface \<open>key_value\<close>; \<open>Kvdb_Crash\<close> has recovery after a put that was cut
    short, \<open>Kvdb_Lock\<close> the lock of readers and writers.
  \<^item> \<open>Libco\<close> (\<^verbatim>\<open>libco/co.c\<close>), \<open>Sperf\<close> and \<open>Sperf_Main\<close> (\<^verbatim>\<open>sperf/sperf.c\<close>), \<open>Pstree\<close> and \<open>Pstree_Proc\<close> (\<^verbatim>\<open>pstree/pstree.c\<close>), \<open>Frecov\<close>
    (\<^verbatim>\<open>frecov/frecov.c\<close>), \<open>Crepl\<close> (\<^verbatim>\<open>crepl/crepl.c\<close>), \<open>Amgame_Draw\<close> and \<open>Amgame\<close> (\<^verbatim>\<open>amgame/\<close>).

  \<^bold>\<open>Bounds and fuel.\<close>  The parser recurses on a fuel that its own totality theorem shows to be enough for
  every line, and a switch tries the 10000 draws of the code.  The loops of the allocator, the recovery of pictures
  and the searches for a slot are bounded by the heap, the image and the tables.  The terminal, pipe, semaphore
  and pool sizes are those of the source.

  \<^bold>\<open>Parameters.\<close>  The font data, the key numbers of the machine header, the random draws of the
  scheduler, the program and of \<^verbatim>\<open>rand\<close>, the reads and writes of a device in the device file system, the conversion of
  floating point numbers, what ports and registers of the hardware answer, what routines of \<^verbatim>\<open>libco\<close> do between
  two yields, and what the host answers to \<^verbatim>\<open>crepl\<close>, \<^verbatim>\<open>sperf\<close> and \<^verbatim>\<open>pstree\<close> are arguments of the
  definitions that use them.

  \<^bold>\<open>Not modelled.\<close>  Entry code in assembly (\<^verbatim>\<open>start.S\<close>, \<^verbatim>\<open>trap.S\<close>) and the set-up of the host process
  (\<^verbatim>\<open>platform.cpp\<close>), which hold no logic of their own; tracing, which only prints; programs and
  libraries of other projects (\<^verbatim>\<open>coremark\<close>, \<^verbatim>\<open>dhrystone\<close>, \<^verbatim>\<open>litenes\<close>, the remaining benchmarks of \<^verbatim>\<open>microbench\<close>, \<^verbatim>\<open>imgui\<close>, \<^verbatim>\<open>fixmath\<close>,
  \<^verbatim>\<open>compiler-rt\<close>); the demonstrations \<^verbatim>\<open>slider\<close>, \<^verbatim>\<open>typing\<close> and \<^verbatim>\<open>hello\<close>; the tests; and the tables of fonts.
\<close>

end
